(* ===== verification/Prelude.thy ===== *)
theory Prelude
  imports Main "HOL-Library.Word"
begin

text \<open>
  Shared vocabulary of the development: the machine integers of the two 64-bit
  targets, the three ways a Rust function can end (a value, an \<open>Err\<close>, a panic),
  wrapping and overflowing arithmetic as the release profile compiles it,
  reachability of step relations, and the generic lemmas on words that the
  components use.
\<close>

unbundle bit_operations_syntax

section \<open>Machine integers\<close>

type_synonym u8 = "8 word"
type_synonym u16 = "16 word"
type_synonym u32 = "32 word"
type_synonym u64 = "64 word"
type_synonym usize = "64 word"

named_theorems word_ar \<open>facts that turn word arithmetic into arithmetic on nat\<close>

text \<open>\<open>overflowing_add\<close> of the unsigned integer types: the wrapped sum and the carry.\<close>

definition overflowing_add :: "'a::len word \<Rightarrow> 'a word \<Rightarrow> 'a word \<times> bool" where
  "overflowing_add a b = (a + b, a + b < a)"

text \<open>
  A left shift as the release profile compiles it: the shift amount is taken
  modulo the width of the type.
\<close>

definition shl_usize :: "usize \<Rightarrow> usize \<Rightarrow> usize" where
  "shl_usize a n = push_bit (unat n mod 64) a"

section \<open>How a Rust function ends\<close>

text \<open>
  \<open>Ok\<close> and \<open>Err\<close> are the two sides of a \<open>Result\<close>, \<open>Panic\<close> is a failed assertion or
  \<open>unwrap\<close>. A loop over a linked structure is given a number of rounds; \<open>Diverge\<close> says
  that they were not enough.
\<close>

datatype ('e, 'a) outcome = Ok 'a | Err 'e | Panic | Diverge

primrec obind :: "('e, 'a) outcome \<Rightarrow> ('a \<Rightarrow> ('e, 'b) outcome) \<Rightarrow> ('e, 'b) outcome" where
  "obind (Ok x) f = f x"
| "obind (Err e) f = Err e"
| "obind Panic f = Panic"
| "obind Diverge f = Diverge"

lemma obind_assoc: "obind (obind m f) g = obind m (\<lambda>x. obind (f x) g)"
  by (cases m) auto

lemma obind_Ok_right [simp]: "obind m Ok = m"
  by (cases m) auto

definition assert_that :: "bool \<Rightarrow> ('e, unit) outcome" where
  "assert_that b = (if b then Ok () else Panic)"

lemma obind_eq_Ok_iff:
  "obind m f = Ok y \<longleftrightarrow> (\<exists>x. m = Ok x \<and> f x = Ok y)"
  by (cases m) auto

lemma obind_eq_Err_iff:
  "obind m f = Err e \<longleftrightarrow> m = Err e \<or> (\<exists>x. m = Ok x \<and> f x = Err e)"
  by (cases m) auto

lemma obind_eq_Panic_iff:
  "obind m f = Panic \<longleftrightarrow> m = Panic \<or> (\<exists>x. m = Ok x \<and> f x = Panic)"
  by (cases m) auto

lemma obind_eq_Diverge_iff:
  "obind m f = Diverge \<longleftrightarrow> m = Diverge \<or> (\<exists>x. m = Ok x \<and> f x = Diverge)"
  by (cases m) auto

lemma assert_that_simps [simp]:
  "assert_that b = Ok u \<longleftrightarrow> b"
  "assert_that b = Panic \<longleftrightarrow> \<not> b"
  "assert_that b \<noteq> Err e"
  "assert_that b \<noteq> Diverge"
  by (auto simp: assert_that_def)

lemma obind_assert_True [simp]: "b \<Longrightarrow> obind (assert_that b) f = f ()"
  by (simp add: assert_that_def)

lemmas outcome_iffs = obind_eq_Ok_iff obind_eq_Err_iff obind_eq_Panic_iff obind_eq_Diverge_iff

section \<open>Words as natural numbers\<close>

lemma unat_lt_2_64 [simp]: "unat (x :: usize) < 18446744073709551616"
  using unsigned_less [of x] by simp

lemma unat_add_noovf [word_ar]:
  "unat (a :: 'a::len word) + unat b < 2 ^ LENGTH('a) \<Longrightarrow> unat (a + b) = unat a + unat b"
  by (simp add: unat_word_ariths)

lemma unat_sub_le [word_ar]:
  "b \<le> a \<Longrightarrow> unat (a - b :: 'a::len word) = unat a - unat b"
  by (rule unat_sub)

lemma overflow_iff:
  "(a :: 'a::len word) + b < a \<longleftrightarrow> 2 ^ LENGTH('a) \<le> unat a + unat b"
proof (cases "unat a + unat b < 2 ^ LENGTH('a)")
  case True
  then show ?thesis by (simp add: word_less_nat_alt unat_add_noovf)
next
  case False
  have a: "unat a < 2 ^ LENGTH('a)" and b: "unat b < 2 ^ LENGTH('a)" by simp_all
  have "unat (a + b) = (unat a + unat b) mod 2 ^ LENGTH('a)"
    by (simp add: unat_word_ariths)
  also have "\<dots> = unat a + unat b - 2 ^ LENGTH('a)"
  proof -
    have "unat a + unat b - 2 ^ LENGTH('a) < 2 ^ LENGTH('a)"
      using a b by linarith
    with False show ?thesis by (simp add: le_mod_geq)
  qed
  also have "\<dots> < unat a"
    using False a b by linarith
  finally show ?thesis using False by (simp add: word_less_nat_alt)
qed

lemma overflowing_add_carry:
  "snd (overflowing_add (a :: 'a::len word) b) \<longleftrightarrow> 2 ^ LENGTH('a) \<le> unat a + unat b"
  by (simp add: overflowing_add_def overflow_iff)

lemma unat_pow2 [word_ar]: "k < LENGTH('a) \<Longrightarrow> unat (2 ^ k :: 'a::len word) = 2 ^ k"
proof -
  assume k: "k < LENGTH('a)"
  have "unat (of_nat (2 ^ k) :: 'a word) = 2 ^ k"
    using k by (simp only: unat_of_nat) simp
  then show ?thesis by simp
qed

lemma unat_and_mask: "unat (w AND mask n :: 'a::len word) = unat w mod 2 ^ n"
  by (subst take_bit_eq_mask [symmetric], subst unsigned_take_bit_eq, rule take_bit_eq_mod)

lemma and_not_mask_eq: "w AND NOT (mask n) = w - (w AND mask n)" for w :: "'a::len word"
proof -
  have "(w AND NOT (mask n)) + (w AND mask n) = w"
    by (subst disjunctive_add) (auto simp: bit_eq_iff bit_simps)
  then show ?thesis by (simp add: eq_diff_eq)
qed

lemma unat_and_not_mask: "unat (w AND NOT (mask n) :: 'a::len word) = unat w div 2 ^ n * 2 ^ n"
proof -
  have "w AND mask n \<le> w" by (simp add: word_and_le2)
  then have "unat (w AND NOT (mask n)) = unat w - unat w mod 2 ^ n"
    by (simp add: and_not_mask_eq unat_sub_le unat_and_mask)
  then show ?thesis by (simp add: minus_mod_eq_div_mult)
qed

section \<open>Reachable states\<close>

inductive reachable :: "('s \<Rightarrow> bool) \<Rightarrow> ('s \<Rightarrow> 's \<Rightarrow> bool) \<Rightarrow> 's \<Rightarrow> bool"
  for init :: "'s \<Rightarrow> bool" and step :: "'s \<Rightarrow> 's \<Rightarrow> bool" where
  reach_init: "init s \<Longrightarrow> reachable init step s"
| reach_step: "reachable init step s \<Longrightarrow> step s t \<Longrightarrow> reachable init step t"

lemma reachable_mono:
  assumes "reachable init step s" and "\<And>s. init s \<Longrightarrow> init' s"
  shows "reachable init' step s"
  using assms(1) by induction (auto intro: reach_init reach_step assms(2))

text \<open>
  The contract of a component whose steps keep an invariant; every step system of
  the development is an interpretation of it.
\<close>

locale invariant_system =
  fixes init :: "'s \<Rightarrow> bool"
    and step :: "'s \<Rightarrow> 's \<Rightarrow> bool"
    and inv :: "'s \<Rightarrow> bool"
  assumes init_inv: "init s \<Longrightarrow> inv s"
    and step_inv: "inv s \<Longrightarrow> step s t \<Longrightarrow> inv t"
begin

lemma reachable_inv: "reachable init step s \<Longrightarrow> inv s"
  by (induction rule: reachable.induct) (auto intro: init_inv step_inv)

end

end
