(* ===== verification/Data_Type.thy ===== *)
theory Data_Type
  imports Prelude
begin

text \<open>
  The address, size, order, index and flag types of
  \<open>kernel/memory_manager/data_type.rs\<close>. The newtypes over \<open>usize\<close> are 64-bit words,
  so their arithmetic wraps as the release build's does. A failed \<open>assert!\<close> is
  \<^term>\<open>Panic\<close>.
\<close>

type_synonym VAddress = usize
type_synonym PAddress = usize
type_synonym MSize = usize
type_synonym MOffset = usize
type_synonym MOrder = usize
type_synonym MPageOrder = usize
type_synonym MIndex = usize
type_synonym MemoryPermissionFlags = u8
type_synonym MemoryOptionFlags = u16

section \<open>Pages\<close>

definition PAGE_SHIFT :: usize where "PAGE_SHIFT = 12"

definition PAGE_SIZE :: MSize where "PAGE_SIZE = 0x1000"

definition PAGE_MASK :: usize where "PAGE_MASK = NOT 0xFFF"

section \<open>Sizes\<close>

definition from_address :: "usize \<Rightarrow> usize \<Rightarrow> ('e, MSize) outcome" where
  "from_address start_address end_address =
     obind (assert_that (start_address \<le> end_address)) (\<lambda>_.
       Ok (end_address - start_address + 1))"

definition to_end_address :: "MSize \<Rightarrow> usize \<Rightarrow> usize" where
  "to_end_address self start_address = start_address + (self - 1)"

definition is_zero :: "usize \<Rightarrow> bool" where
  "is_zero self = (self = 0)"

definition page_align_up :: "MSize \<Rightarrow> MSize" where
  "page_align_up self =
     (if is_zero self then self else ((self - 1) AND PAGE_MASK) + PAGE_SIZE)"

section \<open>Orders\<close>

text \<open>
  The loop of \<open>MOrder::from_offset\<close>. The counter is compared with \<open>max\<close> after every
  increment, so it stays below \<open>usize::MAX\<close> and is a \<^typ>\<open>nat\<close> here; the shift
  \<open>1 << order\<close> is the one of the release build.
\<close>

function from_offset_loop :: "MSize \<Rightarrow> nat \<Rightarrow> nat \<Rightarrow> nat" where
  "from_offset_loop sz max_order order =
     (if push_bit (order mod 64) 1 < sz
      then if max_order \<le> Suc order then max_order
           else from_offset_loop sz max_order (Suc order)
      else order)"
  by pat_completeness auto
termination
  by (relation "measure (\<lambda>(sz, max_order, order). max_order - order)") auto

declare from_offset_loop.simps [simp del]

definition MOrder_from_offset :: "MSize \<Rightarrow> MOrder \<Rightarrow> MOrder" where
  "MOrder_from_offset sz mx = of_nat (from_offset_loop sz (unat mx) 0)"

definition MOrder_to_offset :: "MOrder \<Rightarrow> MSize" where
  "MOrder_to_offset self = shl_usize 1 self"

definition to_page_order :: "MOrder \<Rightarrow> MPageOrder" where
  "to_page_order self = (if PAGE_SHIFT < self then self - PAGE_SHIFT else 0)"

definition MSize_to_order :: "MSize \<Rightarrow> MOrder option \<Rightarrow> MOrder" where
  "MSize_to_order self mx =
     MOrder_from_offset self (case mx of None \<Rightarrow> - 1 | Some m \<Rightarrow> m)"

definition MPageOrder_to_order :: "MPageOrder \<Rightarrow> MOrder" where
  "MPageOrder_to_order self = self + PAGE_SHIFT"

definition MPageOrder_from_offset :: "MSize \<Rightarrow> MPageOrder \<Rightarrow> MPageOrder" where
  "MPageOrder_from_offset sz mx =
     to_page_order (MOrder_from_offset sz (MPageOrder_to_order mx))"

definition MPageOrder_to_offset :: "MPageOrder \<Rightarrow> MSize" where
  "MPageOrder_to_offset self = MOrder_to_offset (MPageOrder_to_order self)"

section \<open>Page indices\<close>

definition MIndex_from_offset :: "MSize \<Rightarrow> MIndex" where
  "MIndex_from_offset offset = drop_bit 12 offset"

definition MIndex_to_offset :: "MIndex \<Rightarrow> MSize" where
  "MIndex_to_offset self = push_bit 12 self"

definition steps_between :: "MIndex \<Rightarrow> MIndex \<Rightarrow> usize \<times> usize option" where
  "steps_between start end =
     (if start \<le> end then
        let r = (end - start, end < start)
        in if snd r then (- 1, None) else (fst r, Some (fst r))
      else (0, None))"

definition forward_checked :: "MIndex \<Rightarrow> usize \<Rightarrow> MIndex option" where
  "forward_checked start count =
     (if snd (overflowing_add start count) then None else Some (fst (overflowing_add start count)))"

definition backward_checked :: "MIndex \<Rightarrow> usize \<Rightarrow> MIndex option" where
  "backward_checked start count = (if start < count then None else Some (start - count))"

section \<open>Permission and option flags\<close>

definition bool_as :: "bool \<Rightarrow> 'a::len word" where
  "bool_as b = (if b then 1 else 0)"

definition MemoryPermissionFlags_new ::
  "bool \<Rightarrow> bool \<Rightarrow> bool \<Rightarrow> bool \<Rightarrow> MemoryPermissionFlags" where
  "MemoryPermissionFlags_new read write execute user_access =
     bool_as read OR push_bit 1 (bool_as write) OR push_bit 2 (bool_as execute)
       OR push_bit 3 (bool_as user_access)"

definition rodata :: MemoryPermissionFlags where
  "rodata = MemoryPermissionFlags_new True False False False"

definition data :: MemoryPermissionFlags where
  "data = MemoryPermissionFlags_new True True False False"

definition user_data :: MemoryPermissionFlags where
  "user_data = MemoryPermissionFlags_new True True False True"

definition is_readable :: "MemoryPermissionFlags \<Rightarrow> bool" where
  "is_readable self = (self AND push_bit 0 1 \<noteq> 0)"

definition is_writable :: "MemoryPermissionFlags \<Rightarrow> bool" where
  "is_writable self = (self AND push_bit 1 1 \<noteq> 0)"

definition is_executable :: "MemoryPermissionFlags \<Rightarrow> bool" where
  "is_executable self = (self AND push_bit 2 1 \<noteq> 0)"

definition is_user_accessible :: "MemoryPermissionFlags \<Rightarrow> bool" where
  "is_user_accessible self = (self AND push_bit 3 1 \<noteq> 0)"

definition KERNEL :: MemoryOptionFlags where "KERNEL = 0"
definition USER :: MemoryOptionFlags where "USER = push_bit 0 1"
definition PRE_RESERVED :: MemoryOptionFlags where "PRE_RESERVED = push_bit 1 1"
definition DO_NOT_FREE_PHYSICAL_ADDRESS :: MemoryOptionFlags where
  "DO_NOT_FREE_PHYSICAL_ADDRESS = push_bit 2 1"
definition WIRED :: MemoryOptionFlags where "WIRED = push_bit 3 1"
definition IO_MAP :: MemoryOptionFlags where "IO_MAP = push_bit 4 1"
definition ALLOC :: MemoryOptionFlags where "ALLOC = push_bit 5 1"
definition NO_WAIT :: MemoryOptionFlags where "NO_WAIT = push_bit 6 1"
definition CRITICAL :: MemoryOptionFlags where "CRITICAL = push_bit 7 1"
definition DEVICE_MEMORY :: MemoryOptionFlags where "DEVICE_MEMORY = push_bit 8 1"
definition STACK :: MemoryOptionFlags where "STACK = push_bit 9 1"

definition is_for_user :: "MemoryOptionFlags \<Rightarrow> bool" where
  "is_for_user self = (self AND USER \<noteq> 0)"

definition is_for_kernel :: "MemoryOptionFlags \<Rightarrow> bool" where
  "is_for_kernel self = (\<not> is_for_user self)"

definition is_pre_reserved :: "MemoryOptionFlags \<Rightarrow> bool" where
  "is_pre_reserved self = (self AND PRE_RESERVED \<noteq> 0)"

definition should_not_free_phy_address :: "MemoryOptionFlags \<Rightarrow> bool" where
  "should_not_free_phy_address self = (self AND DO_NOT_FREE_PHYSICAL_ADDRESS \<noteq> 0)"

definition is_wired :: "MemoryOptionFlags \<Rightarrow> bool" where
  "is_wired self = (self AND WIRED \<noteq> 0)"

definition is_io_map :: "MemoryOptionFlags \<Rightarrow> bool" where
  "is_io_map self = (self AND IO_MAP \<noteq> 0)"

definition is_alloc_area :: "MemoryOptionFlags \<Rightarrow> bool" where
  "is_alloc_area self = (self AND ALLOC \<noteq> 0)"

definition is_no_wait :: "MemoryOptionFlags \<Rightarrow> bool" where
  "is_no_wait self = (self AND NO_WAIT \<noteq> 0)"

definition is_critical :: "MemoryOptionFlags \<Rightarrow> bool" where
  "is_critical self = (self AND CRITICAL \<noteq> 0)"

definition is_device_memory :: "MemoryOptionFlags \<Rightarrow> bool" where
  "is_device_memory self = (self AND DEVICE_MEMORY \<noteq> 0)"

definition is_stack :: "MemoryOptionFlags \<Rightarrow> bool" where
  "is_stack self = (self AND STACK \<noteq> 0)"

section \<open>Lemmas\<close>

lemma from_address_Ok [simp]:
  "s \<le> e \<Longrightarrow> from_address s e = Ok (e - s + 1)"
  by (simp add: from_address_def assert_that_def)

lemma from_address_Panic: "\<not> s \<le> e \<Longrightarrow> from_address s e = Panic"
  by (simp add: from_address_def assert_that_def)

lemma unat_to_end_address [word_ar]:
  assumes "sz \<noteq> 0" and "unat s + unat sz \<le> 2 ^ 64"
  shows "unat (to_end_address sz s) = unat s + unat sz - 1"
proof -
  have sz: "1 \<le> unat sz" using assms(1) by (simp add: Suc_leI unat_gt_0)
  then have "unat (sz - 1) = unat sz - 1" by (simp add: unat_sub_le word_le_nat_alt)
  moreover have "unat s + (unat sz - 1) < 2 ^ 64" using assms(2) sz by linarith
  ultimately show ?thesis using sz by (simp add: to_end_address_def unat_add_noovf)
qed

lemma push_bit_1_less:
  "k < 64 \<Longrightarrow> unat (push_bit k (1 :: usize)) = 2 ^ k"
  by (simp add: unat_pow2)

text \<open>
  What the loop computes: the least order that covers the size, cut at the maximum. The
  side condition keeps the shift below the width of \<open>usize\<close>.
\<close>

lemma from_offset_loop_spec:
  assumes "mx \<le> 64 \<or> unat sz \<le> 2 ^ 63" and "k \<le> 63" and "k \<le> mx"
    and "\<forall>j < k. 2 ^ j < unat sz"
  shows "from_offset_loop sz mx k \<le> mx
    \<and> (from_offset_loop sz mx k = mx \<or> unat sz \<le> 2 ^ from_offset_loop sz mx k)
    \<and> (\<forall>j < from_offset_loop sz mx k. 2 ^ j < unat sz)"
  using assms
proof (induction sz mx k rule: from_offset_loop.induct)
  case (1 sz mx k)
  show ?case
  proof (cases "push_bit k 1 < sz")
    case False
    then have "unat sz \<le> 2 ^ k"
      using "1.prems"(2) push_bit_1_less [of k] by (simp add: word_less_nat_alt)
    with False "1.prems" show ?thesis by (simp add: from_offset_loop.simps [of sz mx k])
  next
    case True
    then have big: "2 ^ k < unat sz"
      using "1.prems"(2) push_bit_1_less [of k] by (simp add: word_less_nat_alt)
    with "1.prems"(4) have below: "\<forall>j < Suc k. 2 ^ j < unat sz"
      using less_Suc_eq by auto
    show ?thesis
    proof (cases "mx \<le> Suc k")
      case True
      with below \<open>push_bit k 1 < sz\<close> "1.prems" show ?thesis
        by (auto simp: from_offset_loop.simps [of sz mx k])
    next
      case False
      have "k \<noteq> 63"
      proof
        assume "k = 63"
        with False "1.prems"(1) big show False by auto
      qed
      with False "1.prems" below True show ?thesis
        using "1.IH" by (simp add: from_offset_loop.simps [of sz mx k])
    qed
  qed
qed

lemma from_offset_loop_le: "from_offset_loop sz mx 0 \<le> mx"
proof -
  have "from_offset_loop sz mx k \<le> mx" if "k \<le> mx" for k
    using that
  proof (induction sz mx k rule: from_offset_loop.induct)
    case (1 sz mx k)
    then show ?case
      by (cases "push_bit (k mod 64) 1 < sz"; cases "mx \<le> Suc k")
        (simp_all add: from_offset_loop.simps [of sz mx k])
  qed
  then show ?thesis by simp
qed

lemma unat_MOrder_from_offset:
  "unat (MOrder_from_offset sz mx) = from_offset_loop sz (unat mx) 0"
proof -
  have "from_offset_loop sz (unat mx) 0 < 2 ^ 64"
    using from_offset_loop_le [of sz "unat mx"] by (rule le_less_trans) simp
  then show ?thesis by (simp add: MOrder_from_offset_def unat_of_nat)
qed

section \<open>Properties\<close>

text \<open>
  Remark. \<open>MOrder::from_offset\<close> returns the least order whose block covers the
  size, or the given maximum when every smaller order is too small. The hypothesis
  holds of every call with a bound of at most 64 and of every size up to half the
  address space.
\<close>

theorem MOrder_from_offset_least:
  assumes "unat mx \<le> 64 \<or> unat sz \<le> 2 ^ 63"
  shows "unat (MOrder_from_offset sz mx) \<le> unat mx
    \<and> (MOrder_from_offset sz mx = mx \<or> unat sz \<le> 2 ^ unat (MOrder_from_offset sz mx))
    \<and> (\<forall>j < unat (MOrder_from_offset sz mx). 2 ^ j < unat sz)"
  using from_offset_loop_spec [OF assms, of 0]
  by (auto simp: word_unat_eq_iff unat_MOrder_from_offset)

theorem MOrder_from_offset_least_witness:
  "unat (MOrder_from_offset 5000 23) = 13"
proof -
  let ?r = "unat (MOrder_from_offset 5000 23)"
  have least: "MOrder_from_offset 5000 23 = 23 \<or> 5000 \<le> (2::nat) ^ ?r"
    and below: "\<forall>j < ?r. 2 ^ j < (5000::nat)"
    using MOrder_from_offset_least [of 23 5000] by simp_all
  have le: "?r \<le> 13"
    using below [rule_format, of 13] by force
  then have "MOrder_from_offset 5000 23 \<noteq> 23"
    by auto
  then have ge: "5000 \<le> (2::nat) ^ ?r"
    using least by simp
  have "\<not> ?r \<le> 12"
  proof
    assume "?r \<le> 12"
    then have "(2::nat) ^ ?r \<le> 2 ^ 12"
      by (intro power_increasing) simp_all
    then show False
      using ge by simp
  qed
  then show ?thesis
    using le by simp
qed

text \<open>
  Property C9. \<open>page_align_up\<close> rounds a size up to the next multiple of the page size,
  for every size for which that multiple fits in \<open>usize\<close>; above, it wraps to zero.
\<close>

theorem page_align_up_rounds:
  "if unat sz \<le> 2 ^ 64 - 4096
   then unat (page_align_up sz) mod 4096 = 0 \<and> unat sz \<le> unat (page_align_up sz)
      \<and> unat (page_align_up sz) < unat sz + 4096
   else page_align_up sz = 0"
proof (cases "sz = 0")
  case True
  then show ?thesis by (simp add: page_align_up_def is_zero_def)
next
  case False
  then have pos: "0 < unat sz" by (simp add: unat_gt_0)
  define q where "q = (unat sz - 1) div 4096"
  have q: "4096 * q \<le> unat sz - 1" "unat sz - 1 < 4096 * q + 4096"
    by (simp_all add: q_def)
  have "unat ((sz - 1) AND PAGE_MASK) = q * 4096"
    using unat_and_not_mask [of "sz - 1" 12] pos
    by (simp add: q_def PAGE_MASK_def mask_eq_exp_minus_1 unat_sub_le word_le_nat_alt Suc_leI)
  then have eq: "unat (page_align_up sz) = (q * 4096 + 4096) mod 2 ^ 64"
    using False by (simp add: page_align_up_def is_zero_def PAGE_SIZE_def unat_word_ariths)
  show ?thesis
  proof (cases "unat sz \<le> 2 ^ 64 - 4096")
    case True
    then have "q * 4096 + 4096 < 2 ^ 64" using pos q by simp
    with eq True have "unat (page_align_up sz) = 4096 * Suc q" by simp
    moreover have "4096 * Suc q mod 4096 = 0" by (rule mod_mult_self1_is_0)
    ultimately show ?thesis using True pos q by (simp, intro conjI; linarith)
  next
    case False
    have "unat sz < 18446744073709551616" by simp
    then have "q < 4503599627370496" using q pos by linarith
    moreover have "2 ^ 52 - 2 < q" using False q pos by simp
    ultimately have "q = 2 ^ 52 - 1" by simp
    with eq have "unat (page_align_up sz) = 0" by simp
    with False show ?thesis by (simp add: unat_eq_zero)
  qed
qed

text \<open>
  Remark. The end address of a non-empty block that does not reach past the address
  space and the size between two addresses are inverse to each other: the assertion of
  \<open>from_address\<close> holds and the size comes back.
\<close>

theorem from_address_to_end_address:
  assumes "sz \<noteq> 0" and "unat s + unat sz \<le> 2 ^ 64"
  shows "from_address s (to_end_address sz s) = Ok sz"
proof -
  have "0 < unat sz" using assms(1) by (simp add: unat_gt_0)
  then have "s \<le> to_end_address sz s"
    using unat_to_end_address [OF assms] unfolding word_le_nat_alt by linarith
  then show ?thesis by (simp add: to_end_address_def)
qed

theorem from_address_to_end_address_witness:
  "from_address 0x100000 (to_end_address 0x1000 0x100000) = Ok 0x1000"
  using from_address_to_end_address [of "0x1000" "0x100000"] by simp

text \<open>
  Remark. The permission bits are independent: each query of
  \<open>MemoryPermissionFlags\<close> returns the argument that \<open>new\<close> was given for it.
\<close>

theorem permission_flags_roundtrip:
  "is_readable (MemoryPermissionFlags_new r w x u) = r
   \<and> is_writable (MemoryPermissionFlags_new r w x u) = w
   \<and> is_executable (MemoryPermissionFlags_new r w x u) = x
   \<and> is_user_accessible (MemoryPermissionFlags_new r w x u) = u"
  by (cases r; cases w; cases x; cases u)
    (simp_all add: MemoryPermissionFlags_new_def is_readable_def is_writable_def is_executable_def
      is_user_accessible_def bool_as_def)

end
