(* ===== verification/Paging_Entry.thy ===== *)
theory Paging_Entry
  imports Data_Type
begin

text \<open>
  The page table entries of x86\_64 (\<open>arch/x86_64/paging/pte.rs\<close>, \<open>pde.rs\<close>, \<open>pdpte.rs\<close> and
  \<open>pml4e.rs\<close>). Each is a structure with the one field \<open>flags: u64\<close>, modelled by that word;
  a method with \<open>&mut self\<close> returns the new word. The trait \<open>PagingEntry\<close> that the four types
  implement is the locale \<open>paging_entry\<close>, and what the three types for inner tables add to
  it is \<open>table_entry\<close>; each implementation is shown to be an instance.
\<close>

type_synonym PTE = u64
type_synonym PDE = u64
type_synonym PDPTE = u64
type_synonym PML4E = u64

section \<open>The implementations\<close>

subsection \<open>Page table entries\<close>

definition PTE_new :: "PTE" where
  "PTE_new = 0"

definition PTE_set_bit :: "PTE \<Rightarrow> u64 \<Rightarrow> bool \<Rightarrow> PTE" where
  "PTE_set_bit e b v = (if v then e OR b else e AND NOT b)"

definition PTE_get_bit :: "PTE \<Rightarrow> u64 \<Rightarrow> bool" where
  "PTE_get_bit e b = (e AND b \<noteq> 0)"

definition PTE_is_present :: "PTE \<Rightarrow> bool" where
  "PTE_is_present e = PTE_get_bit e (push_bit 0 1)"

definition PTE_set_present :: "PTE \<Rightarrow> bool \<Rightarrow> PTE" where
  "PTE_set_present e b = PTE_set_bit e (push_bit 0 1) b"

definition PTE_is_writable :: "PTE \<Rightarrow> bool" where
  "PTE_is_writable e = PTE_get_bit e (push_bit 1 1)"

definition PTE_set_writable :: "PTE \<Rightarrow> bool \<Rightarrow> PTE" where
  "PTE_set_writable e b = PTE_set_bit e (push_bit 1 1) b"

definition PTE_is_user_accessible :: "PTE \<Rightarrow> bool" where
  "PTE_is_user_accessible e = PTE_get_bit e (push_bit 2 1)"

definition PTE_set_user_accessible :: "PTE \<Rightarrow> bool \<Rightarrow> PTE" where
  "PTE_set_user_accessible e b = PTE_set_bit e (push_bit 2 1) b"

definition PTE_set_wtc :: "PTE \<Rightarrow> bool \<Rightarrow> PTE" where
  "PTE_set_wtc e b = PTE_set_bit e (push_bit 3 1) b"

definition PTE_set_disable_cache :: "PTE \<Rightarrow> bool \<Rightarrow> PTE" where
  "PTE_set_disable_cache e b = PTE_set_bit e (push_bit 4 1) b"

definition PTE_is_accessed :: "PTE \<Rightarrow> bool" where
  "PTE_is_accessed e = PTE_get_bit e (push_bit 5 1)"

definition PTE_off_accessed :: "PTE \<Rightarrow> PTE" where
  "PTE_off_accessed e = PTE_set_bit e (push_bit 5 1) False"

definition PTE_is_dirty :: "PTE \<Rightarrow> bool" where
  "PTE_is_dirty e = PTE_get_bit e (push_bit 6 1)"

definition PTE_off_dirty :: "PTE \<Rightarrow> PTE" where
  "PTE_off_dirty e = PTE_set_bit e (push_bit 6 1) False"

definition PTE_set_global :: "PTE \<Rightarrow> bool \<Rightarrow> PTE" where
  "PTE_set_global e b = PTE_set_bit e (push_bit 8 1) b"

definition PTE_is_no_execute :: "PTE \<Rightarrow> bool" where
  "PTE_is_no_execute e = PTE_get_bit e (push_bit 63 1)"

definition PTE_set_no_execute :: "PTE \<Rightarrow> bool \<Rightarrow> PTE" where
  "PTE_set_no_execute e b = PTE_set_bit e (push_bit 63 1) b"

definition PTE_set_pat :: "PTE \<Rightarrow> bool \<Rightarrow> PTE" where
  "PTE_set_pat e b = PTE_set_bit e (push_bit 7 1) b"

definition PTE_init :: "PTE \<Rightarrow> PTE" where
  "PTE_init e = 0"

definition PTE_get_address :: "PTE \<Rightarrow> PAddress option" where
  "PTE_get_address e =
     (if PTE_is_present e then Some (e AND 0x000FFFFFFFFFF000) else None)"

definition PTE_set_address :: "PTE \<Rightarrow> PAddress \<Rightarrow> PTE \<times> bool" where
  "PTE_set_address e address =
     (if address AND NOT PAGE_MASK = 0
      then (PTE_set_present (PTE_set_bit e (address AND 0x000FFFFFFFFFF000) True) True, True)
      else (e, False))"

subsection \<open>Page directory entries\<close>

definition PDE_new :: "PDE" where
  "PDE_new = 0"

definition PDE_set_bit :: "PDE \<Rightarrow> u64 \<Rightarrow> bool \<Rightarrow> PDE" where
  "PDE_set_bit e b v = (if v then e OR b else e AND NOT b)"

definition PDE_get_bit :: "PDE \<Rightarrow> u64 \<Rightarrow> bool" where
  "PDE_get_bit e b = (e AND b \<noteq> 0)"

definition PDE_is_present :: "PDE \<Rightarrow> bool" where
  "PDE_is_present e = PDE_get_bit e (push_bit 0 1)"

definition PDE_set_present :: "PDE \<Rightarrow> bool \<Rightarrow> PDE" where
  "PDE_set_present e b = PDE_set_bit e (push_bit 0 1) b"

definition PDE_is_writable :: "PDE \<Rightarrow> bool" where
  "PDE_is_writable e = PDE_get_bit e (push_bit 1 1)"

definition PDE_set_writable :: "PDE \<Rightarrow> bool \<Rightarrow> PDE" where
  "PDE_set_writable e b = PDE_set_bit e (push_bit 1 1) b"

definition PDE_is_user_accessible :: "PDE \<Rightarrow> bool" where
  "PDE_is_user_accessible e = PDE_get_bit e (push_bit 2 1)"

definition PDE_set_user_accessible :: "PDE \<Rightarrow> bool \<Rightarrow> PDE" where
  "PDE_set_user_accessible e b = PDE_set_bit e (push_bit 2 1) b"

definition PDE_set_wtc :: "PDE \<Rightarrow> bool \<Rightarrow> PDE" where
  "PDE_set_wtc e b = PDE_set_bit e (push_bit 3 1) b"

definition PDE_set_disable_cache :: "PDE \<Rightarrow> bool \<Rightarrow> PDE" where
  "PDE_set_disable_cache e b = PDE_set_bit e (push_bit 4 1) b"

definition PDE_is_accessed :: "PDE \<Rightarrow> bool" where
  "PDE_is_accessed e = PDE_get_bit e (push_bit 5 1)"

definition PDE_off_accessed :: "PDE \<Rightarrow> PDE" where
  "PDE_off_accessed e = PDE_set_bit e (push_bit 5 1) False"

definition PDE_is_dirty :: "PDE \<Rightarrow> bool" where
  "PDE_is_dirty e = PDE_get_bit e (push_bit 6 1)"

definition PDE_off_dirty :: "PDE \<Rightarrow> PDE" where
  "PDE_off_dirty e = PDE_set_bit e (push_bit 6 1) False"

definition PDE_set_global :: "PDE \<Rightarrow> bool \<Rightarrow> PDE" where
  "PDE_set_global e b = PDE_set_bit e (push_bit 8 1) b"

definition PDE_is_no_execute :: "PDE \<Rightarrow> bool" where
  "PDE_is_no_execute e = PDE_get_bit e (push_bit 63 1)"

definition PDE_set_no_execute :: "PDE \<Rightarrow> bool \<Rightarrow> PDE" where
  "PDE_set_no_execute e b = PDE_set_bit e (push_bit 63 1) b"

definition PDE_init :: "PDE \<Rightarrow> PDE" where
  "PDE_init e = PDE_set_writable (PDE_set_user_accessible 0 True) True"

definition PDE_is_address_set :: "PDE \<Rightarrow> bool" where
  "PDE_is_address_set e = PDE_get_bit e (push_bit 52 1)"

definition PDE_set_address_set :: "PDE \<Rightarrow> bool \<Rightarrow> PDE" where
  "PDE_set_address_set e b = PDE_set_bit e (push_bit 52 1) b"

definition PDE_is_huge :: "PDE \<Rightarrow> bool" where
  "PDE_is_huge e = PDE_get_bit e (push_bit 7 1)"

definition PDE_set_huge :: "PDE \<Rightarrow> bool \<Rightarrow> ('e, PDE) outcome" where
  "PDE_set_huge e b =
     obind (assert_that (\<not> PDE_is_present e)) (\<lambda>_. Ok (PDE_set_bit e (push_bit 7 1) b))"

definition PDE_get_address :: "PDE \<Rightarrow> PAddress option" where
  "PDE_get_address e =
     (if PDE_is_address_set e
      then if PDE_is_huge e then Some (e AND 0x000FFFFFFFE00000) else Some (e AND 0x000FFFFFFFFFF000)
      else None)"

definition PDE_set_address :: "PDE \<Rightarrow> PAddress \<Rightarrow> PDE \<times> bool" where
  "PDE_set_address e address =
     (if address AND NOT PAGE_MASK = 0
      then (PDE_set_address_set
              (PDE_set_bit e (address AND (if PDE_is_huge e then 0x000FFFFFFFE00000 else 0x000FFFFFFFFFF000)) True) True,
            True)
      else (e, False))"

subsection \<open>Page directory pointer table entries\<close>

definition PDPTE_new :: "PDPTE" where
  "PDPTE_new = 0"

definition PDPTE_set_bit :: "PDPTE \<Rightarrow> u64 \<Rightarrow> bool \<Rightarrow> PDPTE" where
  "PDPTE_set_bit e b v = (if v then e OR b else e AND NOT b)"

definition PDPTE_get_bit :: "PDPTE \<Rightarrow> u64 \<Rightarrow> bool" where
  "PDPTE_get_bit e b = (e AND b \<noteq> 0)"

definition PDPTE_is_present :: "PDPTE \<Rightarrow> bool" where
  "PDPTE_is_present e = PDPTE_get_bit e (push_bit 0 1)"

definition PDPTE_set_present :: "PDPTE \<Rightarrow> bool \<Rightarrow> PDPTE" where
  "PDPTE_set_present e b = PDPTE_set_bit e (push_bit 0 1) b"

definition PDPTE_is_writable :: "PDPTE \<Rightarrow> bool" where
  "PDPTE_is_writable e = PDPTE_get_bit e (push_bit 1 1)"

definition PDPTE_set_writable :: "PDPTE \<Rightarrow> bool \<Rightarrow> PDPTE" where
  "PDPTE_set_writable e b = PDPTE_set_bit e (push_bit 1 1) b"

definition PDPTE_is_user_accessible :: "PDPTE \<Rightarrow> bool" where
  "PDPTE_is_user_accessible e = PDPTE_get_bit e (push_bit 2 1)"

definition PDPTE_set_user_accessible :: "PDPTE \<Rightarrow> bool \<Rightarrow> PDPTE" where
  "PDPTE_set_user_accessible e b = PDPTE_set_bit e (push_bit 2 1) b"

definition PDPTE_set_wtc :: "PDPTE \<Rightarrow> bool \<Rightarrow> PDPTE" where
  "PDPTE_set_wtc e b = PDPTE_set_bit e (push_bit 3 1) b"

definition PDPTE_set_disable_cache :: "PDPTE \<Rightarrow> bool \<Rightarrow> PDPTE" where
  "PDPTE_set_disable_cache e b = PDPTE_set_bit e (push_bit 4 1) b"

definition PDPTE_is_accessed :: "PDPTE \<Rightarrow> bool" where
  "PDPTE_is_accessed e = PDPTE_get_bit e (push_bit 5 1)"

definition PDPTE_off_accessed :: "PDPTE \<Rightarrow> PDPTE" where
  "PDPTE_off_accessed e = PDPTE_set_bit e (push_bit 5 1) False"

definition PDPTE_is_dirty :: "PDPTE \<Rightarrow> bool" where
  "PDPTE_is_dirty e = PDPTE_get_bit e (push_bit 6 1)"

definition PDPTE_off_dirty :: "PDPTE \<Rightarrow> PDPTE" where
  "PDPTE_off_dirty e = PDPTE_set_bit e (push_bit 6 1) False"

definition PDPTE_set_global :: "PDPTE \<Rightarrow> bool \<Rightarrow> PDPTE" where
  "PDPTE_set_global e b = PDPTE_set_bit e (push_bit 8 1) b"

definition PDPTE_is_no_execute :: "PDPTE \<Rightarrow> bool" where
  "PDPTE_is_no_execute e = PDPTE_get_bit e (push_bit 63 1)"

definition PDPTE_set_no_execute :: "PDPTE \<Rightarrow> bool \<Rightarrow> PDPTE" where
  "PDPTE_set_no_execute e b = PDPTE_set_bit e (push_bit 63 1) b"

definition PDPTE_init :: "PDPTE \<Rightarrow> PDPTE" where
  "PDPTE_init e = PDPTE_set_writable (PDPTE_set_user_accessible 0 True) True"

definition PDPTE_is_address_set :: "PDPTE \<Rightarrow> bool" where
  "PDPTE_is_address_set e = PDPTE_get_bit e (push_bit 52 1)"

definition PDPTE_set_address_set :: "PDPTE \<Rightarrow> bool \<Rightarrow> PDPTE" where
  "PDPTE_set_address_set e b = PDPTE_set_bit e (push_bit 52 1) b"

definition PDPTE_is_huge :: "PDPTE \<Rightarrow> bool" where
  "PDPTE_is_huge e = PDPTE_get_bit e (push_bit 7 1)"

definition PDPTE_set_huge :: "PDPTE \<Rightarrow> bool \<Rightarrow> ('e, PDPTE) outcome" where
  "PDPTE_set_huge e b =
     obind (assert_that (\<not> PDPTE_is_present e)) (\<lambda>_. Ok (PDPTE_set_bit e (push_bit 7 1) b))"

definition PDPTE_get_address :: "PDPTE \<Rightarrow> PAddress option" where
  "PDPTE_get_address e =
     (if PDPTE_is_address_set e
      then if PDPTE_is_huge e then Some (e AND 0x000FFFFFC0000000) else Some (e AND 0x000FFFFFFFFFF000)
      else None)"

definition PDPTE_set_address :: "PDPTE \<Rightarrow> PAddress \<Rightarrow> PDPTE \<times> bool" where
  "PDPTE_set_address e address =
     (if address AND NOT PAGE_MASK = 0
      then (PDPTE_set_address_set
              (PDPTE_set_bit e (address AND (if PDPTE_is_huge e then 0x000FFFFFC0000000 else 0x000FFFFFFFFFF000)) True) True,
            True)
      else (e, False))"

subsection \<open>Page map level 4 entries\<close>

definition PML4E_new :: "PML4E" where
  "PML4E_new = 0"

definition PML4E_set_bit :: "PML4E \<Rightarrow> u64 \<Rightarrow> bool \<Rightarrow> PML4E" where
  "PML4E_set_bit e b v = (if v then e OR b else e AND NOT b)"

definition PML4E_get_bit :: "PML4E \<Rightarrow> u64 \<Rightarrow> bool" where
  "PML4E_get_bit e b = (e AND b \<noteq> 0)"

definition PML4E_is_present :: "PML4E \<Rightarrow> bool" where
  "PML4E_is_present e = PML4E_get_bit e (push_bit 0 1)"

definition PML4E_set_present :: "PML4E \<Rightarrow> bool \<Rightarrow> PML4E" where
  "PML4E_set_present e b = PML4E_set_bit e (push_bit 0 1) b"

definition PML4E_is_writable :: "PML4E \<Rightarrow> bool" where
  "PML4E_is_writable e = PML4E_get_bit e (push_bit 1 1)"

definition PML4E_set_writable :: "PML4E \<Rightarrow> bool \<Rightarrow> PML4E" where
  "PML4E_set_writable e b = PML4E_set_bit e (push_bit 1 1) b"

definition PML4E_is_user_accessible :: "PML4E \<Rightarrow> bool" where
  "PML4E_is_user_accessible e = PML4E_get_bit e (push_bit 2 1)"

definition PML4E_set_user_accessible :: "PML4E \<Rightarrow> bool \<Rightarrow> PML4E" where
  "PML4E_set_user_accessible e b = PML4E_set_bit e (push_bit 2 1) b"

definition PML4E_set_wtc :: "PML4E \<Rightarrow> bool \<Rightarrow> PML4E" where
  "PML4E_set_wtc e b = PML4E_set_bit e (push_bit 3 1) b"

definition PML4E_set_disable_cache :: "PML4E \<Rightarrow> bool \<Rightarrow> PML4E" where
  "PML4E_set_disable_cache e b = PML4E_set_bit e (push_bit 4 1) b"

definition PML4E_is_accessed :: "PML4E \<Rightarrow> bool" where
  "PML4E_is_accessed e = PML4E_get_bit e (push_bit 5 1)"

definition PML4E_off_accessed :: "PML4E \<Rightarrow> PML4E" where
  "PML4E_off_accessed e = PML4E_set_bit e (push_bit 5 1) False"

definition PML4E_is_dirty :: "PML4E \<Rightarrow> bool" where
  "PML4E_is_dirty e = PML4E_get_bit e (push_bit 6 1)"

definition PML4E_off_dirty :: "PML4E \<Rightarrow> PML4E" where
  "PML4E_off_dirty e = PML4E_set_bit e (push_bit 6 1) False"

definition PML4E_set_global :: "PML4E \<Rightarrow> bool \<Rightarrow> PML4E" where
  "PML4E_set_global e b = PML4E_set_bit e (push_bit 8 1) b"

definition PML4E_is_no_execute :: "PML4E \<Rightarrow> bool" where
  "PML4E_is_no_execute e = PML4E_get_bit e (push_bit 63 1)"

definition PML4E_set_no_execute :: "PML4E \<Rightarrow> bool \<Rightarrow> PML4E" where
  "PML4E_set_no_execute e b = PML4E_set_bit e (push_bit 63 1) b"

definition PML4E_init :: "PML4E \<Rightarrow> PML4E" where
  "PML4E_init e = PML4E_set_writable (PML4E_set_user_accessible 0 True) True"

definition PML4E_is_address_set :: "PML4E \<Rightarrow> bool" where
  "PML4E_is_address_set e = PML4E_get_bit e (push_bit 52 1)"

definition PML4E_set_address_set :: "PML4E \<Rightarrow> bool \<Rightarrow> PML4E" where
  "PML4E_set_address_set e b = PML4E_set_bit e (push_bit 52 1) b"

definition PML4E_set_huge :: "PML4E \<Rightarrow> bool \<Rightarrow> PML4E" where
  "PML4E_set_huge e b = PML4E_set_bit e (push_bit 7 1) b"

definition PML4E_get_address :: "PML4E \<Rightarrow> PAddress option" where
  "PML4E_get_address e =
     (if PML4E_is_address_set e then Some (e AND 0x000FFFFFFFFFF000) else None)"

definition PML4E_set_address :: "PML4E \<Rightarrow> PAddress \<Rightarrow> PML4E \<times> bool" where
  "PML4E_set_address e address =
     (if address AND NOT PAGE_MASK = 0
      then (PML4E_set_address_set (PML4E_set_bit e (address AND 0x000FFFFFFFFFF000) True) True, True)
      else (e, False))"

section \<open>The words bit by bit\<close>

text \<open>Single flags are kept as shifted ones, and masks are known by their bits only.\<close>

declare push_bit_of_1 [simp del] bit_numeral_word_iff [simp del]

lemma bit_frame_mask [simp]: "bit (0x000FFFFFFFFFF000 :: u64) i \<longleftrightarrow> 12 \<le> i \<and> i < 52"
proof -
  have eq: "(0x000FFFFFFFFFF000 :: u64) = mask 52 AND NOT (mask 12)" by (simp add: mask_eq_exp_minus_1)
  show ?thesis unfolding eq by (auto simp: bit_simps)
qed

lemma bit_frame_mask_2M [simp]: "bit (0x000FFFFFFFE00000 :: u64) i \<longleftrightarrow> 21 \<le> i \<and> i < 52"
proof -
  have eq: "(0x000FFFFFFFE00000 :: u64) = mask 52 AND NOT (mask 21)" by (simp add: mask_eq_exp_minus_1)
  show ?thesis unfolding eq by (auto simp: bit_simps)
qed

lemma bit_frame_mask_1G [simp]: "bit (0x000FFFFFC0000000 :: u64) i \<longleftrightarrow> 30 \<le> i \<and> i < 52"
proof -
  have eq: "(0x000FFFFFC0000000 :: u64) = mask 52 AND NOT (mask 30)" by (simp add: mask_eq_exp_minus_1)
  show ?thesis unfolding eq by (auto simp: bit_simps)
qed

lemma and_bit_nonzero: "(e AND push_bit k 1 \<noteq> 0) \<longleftrightarrow> bit e k" for e :: u64
  by (simp add: push_bit_of_1 and_exp_eq_0_iff_not_bit)

lemma bit_set_one:
  "k < 64 \<Longrightarrow> bit (if v then e OR push_bit k 1 else e AND NOT (push_bit k 1)) i \<longleftrightarrow> (if i = k then v else bit e i)"
  for e :: u64
  by (auto simp: bit_simps dest: bit_imp_le_length)

lemma not_PAGE_MASK: "NOT PAGE_MASK = mask 12"
  by (simp add: PAGE_MASK_def mask_eq_exp_minus_1)

lemmas PTE_attr_defs =
  PTE_is_present_def PTE_set_present_def PTE_is_writable_def PTE_set_writable_def
  PTE_is_user_accessible_def PTE_set_user_accessible_def PTE_is_no_execute_def PTE_set_no_execute_def

lemmas PDE_attr_defs =
  PDE_is_present_def PDE_set_present_def PDE_is_writable_def PDE_set_writable_def
  PDE_is_user_accessible_def PDE_set_user_accessible_def PDE_is_no_execute_def PDE_set_no_execute_def
  PDE_is_address_set_def PDE_set_address_set_def

lemmas PDPTE_attr_defs =
  PDPTE_is_present_def PDPTE_set_present_def PDPTE_is_writable_def PDPTE_set_writable_def
  PDPTE_is_user_accessible_def PDPTE_set_user_accessible_def PDPTE_is_no_execute_def PDPTE_set_no_execute_def
  PDPTE_is_address_set_def PDPTE_set_address_set_def

lemmas PML4E_attr_defs =
  PML4E_is_present_def PML4E_set_present_def PML4E_is_writable_def PML4E_set_writable_def
  PML4E_is_user_accessible_def PML4E_set_user_accessible_def PML4E_is_no_execute_def PML4E_set_no_execute_def
  PML4E_is_address_set_def PML4E_set_address_set_def


lemma PTE_bit_simps [simp]:
  "PTE_get_bit e (push_bit k 1) \<longleftrightarrow> bit e k"
  "k < 64 \<Longrightarrow> bit (PTE_set_bit e (push_bit k 1) v) i \<longleftrightarrow> (if i = k then v else bit e i)"
  "bit (PTE_set_bit e (a AND m) True) i \<longleftrightarrow> bit e i \<or> bit a i \<and> bit m i"
  by (simp_all only: PTE_get_bit_def PTE_set_bit_def and_bit_nonzero bit_set_one)
    (simp add: bit_or_iff bit_and_iff)

lemmas PTE_low_bit_simps [simp] =
  PTE_bit_simps(1) [where k = 0, simplified] PTE_bit_simps(1) [where k = 1, simplified]
  PTE_bit_simps(2) [where k = 0, simplified] PTE_bit_simps(2) [where k = 1, simplified]

lemma PDE_bit_simps [simp]:
  "PDE_get_bit e (push_bit k 1) \<longleftrightarrow> bit e k"
  "k < 64 \<Longrightarrow> bit (PDE_set_bit e (push_bit k 1) v) i \<longleftrightarrow> (if i = k then v else bit e i)"
  "bit (PDE_set_bit e (a AND m) True) i \<longleftrightarrow> bit e i \<or> bit a i \<and> bit m i"
  by (simp_all only: PDE_get_bit_def PDE_set_bit_def and_bit_nonzero bit_set_one)
    (simp add: bit_or_iff bit_and_iff)

lemmas PDE_low_bit_simps [simp] =
  PDE_bit_simps(1) [where k = 0, simplified] PDE_bit_simps(1) [where k = 1, simplified]
  PDE_bit_simps(2) [where k = 0, simplified] PDE_bit_simps(2) [where k = 1, simplified]

lemma PDPTE_bit_simps [simp]:
  "PDPTE_get_bit e (push_bit k 1) \<longleftrightarrow> bit e k"
  "k < 64 \<Longrightarrow> bit (PDPTE_set_bit e (push_bit k 1) v) i \<longleftrightarrow> (if i = k then v else bit e i)"
  "bit (PDPTE_set_bit e (a AND m) True) i \<longleftrightarrow> bit e i \<or> bit a i \<and> bit m i"
  by (simp_all only: PDPTE_get_bit_def PDPTE_set_bit_def and_bit_nonzero bit_set_one)
    (simp add: bit_or_iff bit_and_iff)

lemmas PDPTE_low_bit_simps [simp] =
  PDPTE_bit_simps(1) [where k = 0, simplified] PDPTE_bit_simps(1) [where k = 1, simplified]
  PDPTE_bit_simps(2) [where k = 0, simplified] PDPTE_bit_simps(2) [where k = 1, simplified]

lemma PML4E_bit_simps [simp]:
  "PML4E_get_bit e (push_bit k 1) \<longleftrightarrow> bit e k"
  "k < 64 \<Longrightarrow> bit (PML4E_set_bit e (push_bit k 1) v) i \<longleftrightarrow> (if i = k then v else bit e i)"
  "bit (PML4E_set_bit e (a AND m) True) i \<longleftrightarrow> bit e i \<or> bit a i \<and> bit m i"
  by (simp_all only: PML4E_get_bit_def PML4E_set_bit_def and_bit_nonzero bit_set_one)
    (simp add: bit_or_iff bit_and_iff)

lemmas PML4E_low_bit_simps [simp] =
  PML4E_bit_simps(1) [where k = 0, simplified] PML4E_bit_simps(1) [where k = 1, simplified]
  PML4E_bit_simps(2) [where k = 0, simplified] PML4E_bit_simps(2) [where k = 1, simplified]

section \<open>The trait\<close>

text \<open>
  What \<open>PagingEntry\<close> promises: each attribute is one bit of the word, its setter changes
  nothing else, and the address does not depend on the access rights.
\<close>

locale paging_entry =
  fixes is_present :: "u64 \<Rightarrow> bool" and set_present :: "u64 \<Rightarrow> bool \<Rightarrow> u64"
    and is_writable :: "u64 \<Rightarrow> bool" and set_writable :: "u64 \<Rightarrow> bool \<Rightarrow> u64"
    and is_user :: "u64 \<Rightarrow> bool" and set_user :: "u64 \<Rightarrow> bool \<Rightarrow> u64"
    and is_nx :: "u64 \<Rightarrow> bool" and set_nx :: "u64 \<Rightarrow> bool \<Rightarrow> u64"
    and get_address :: "u64 \<Rightarrow> PAddress option"
  assumes is_present: "is_present e \<longleftrightarrow> bit e 0"
    and is_writable: "is_writable e \<longleftrightarrow> bit e 1"
    and is_user: "is_user e \<longleftrightarrow> bit e 2"
    and is_nx: "is_nx e \<longleftrightarrow> bit e 63"
    and set_present: "bit (set_present e b) i \<longleftrightarrow> (if i = 0 then b else bit e i)"
    and set_writable: "bit (set_writable e b) i \<longleftrightarrow> (if i = 1 then b else bit e i)"
    and set_user: "bit (set_user e b) i \<longleftrightarrow> (if i = 2 then b else bit e i)"
    and set_nx: "bit (set_nx e b) i \<longleftrightarrow> (if i = 63 then b else bit e i)"
    and address_cong: "(\<And>i. i \<notin> {1, 2, 63} \<Longrightarrow> bit e i \<longleftrightarrow> bit e' i) \<Longrightarrow> get_address e = get_address e'"
begin

text \<open>Changing the rights of an entry changes the rights only.\<close>

lemma rights:
  fixes e w x u
  defines "e' \<equiv> set_user (set_nx (set_writable e w) x) u"
  shows "is_writable e' \<longleftrightarrow> w" and "is_nx e' \<longleftrightarrow> x" and "is_user e' \<longleftrightarrow> u"
    and "is_present e' \<longleftrightarrow> is_present e" and "get_address e' = get_address e"
    and "bit e' i \<longleftrightarrow> (if i = 1 then w else if i = 2 then u else if i = 63 then x else bit e i)"
proof -
  show b: "bit e' i \<longleftrightarrow> (if i = 1 then w else if i = 2 then u else if i = 63 then x else bit e i)" for i
    by (simp add: e'_def set_writable set_nx set_user)
  show "is_writable e' \<longleftrightarrow> w" "is_nx e' \<longleftrightarrow> x" "is_user e' \<longleftrightarrow> u" "is_present e' \<longleftrightarrow> is_present e"
    by (simp_all add: b is_writable is_nx is_user is_present)
  show "get_address e' = get_address e" by (rule address_cong) (simp add: b)
qed

end

text \<open>
  The entries of inner tables add a software bit that says whether the address is valid.
  The last law is about entries that are not huge.
\<close>

locale table_entry = paging_entry +
  fixes is_address_set :: "u64 \<Rightarrow> bool" and set_address_set :: "u64 \<Rightarrow> bool \<Rightarrow> u64"
    and init :: "u64 \<Rightarrow> u64" and set_address :: "u64 \<Rightarrow> PAddress \<Rightarrow> u64 \<times> bool"
  assumes is_address_set: "is_address_set e \<longleftrightarrow> bit e 52"
    and set_address_set: "bit (set_address_set e b) i \<longleftrightarrow> (if i = 52 then b else bit e i)"
    and init: "bit (init e) i \<longleftrightarrow> i = 1 \<or> i = 2"
    and get_address_unset: "\<not> bit e 52 \<Longrightarrow> get_address e = None"
    and get_address_table: "bit e 52 \<Longrightarrow> \<not> bit e 7 \<Longrightarrow> get_address e = Some (e AND 0x000FFFFFFFFFF000)"
    and set_address: "a AND mask 12 = 0 \<Longrightarrow> \<not> bit e 7 \<Longrightarrow>
      bit (fst (set_address e a)) i \<longleftrightarrow> bit e i \<or> i = 52 \<or> 12 \<le> i \<and> i < 52 \<and> bit a i"
begin

text \<open>
  The way every table is linked: reset the entry, set the address, set the present bit.
\<close>

lemma link:
  fixes e a
  defines "e' \<equiv> set_present (fst (set_address (init e) a)) True"
  assumes a: "a AND mask 12 = 0"
  shows "e' = (a AND 0x000FFFFFFFFFF000) OR 0x0010000000000007"
    and "get_address e' = Some (a AND 0x000FFFFFFFFFF000)"
proof -
  have seven: "bit (7 :: u64) i \<longleftrightarrow> i < 3" for i
  proof -
    have eq: "(7 :: u64) = mask 3" by (simp add: mask_eq_exp_minus_1)
    show ?thesis unfolding eq by (auto simp: bit_simps)
  qed
  have eq: "(0x0010000000000007 :: u64) = push_bit 52 1 OR 7" by (simp add: push_bit_of_1)
  have c: "bit (0x0010000000000007 :: u64) i \<longleftrightarrow> i < 3 \<or> i = 52" for i
    unfolding eq by (auto simp: bit_or_iff seven bit_push_bit_iff bit_1_iff)
  have b: "bit e' i \<longleftrightarrow> i < 3 \<or> i = 52 \<or> 12 \<le> i \<and> i < 52 \<and> bit a i" for i
    using a by (auto simp: e'_def set_present set_address init)
  show eq: "e' = (a AND 0x000FFFFFFFFFF000) OR 0x0010000000000007"
    by (rule bit_eqI) (auto simp: b bit_or_iff bit_and_iff c)
  have "e' AND 0x000FFFFFFFFFF000 = a AND 0x000FFFFFFFFFF000"
    by (rule bit_eqI) (auto simp: b bit_and_iff)
  then show "get_address e' = Some (a AND 0x000FFFFFFFFFF000)"
    by (simp add: get_address_table b)
qed

end

lemma and_mask_cong: "(\<And>i. bit m i \<Longrightarrow> bit e i \<longleftrightarrow> bit e' i) \<Longrightarrow> e AND m = e' AND m" for e e' m :: u64
  by (rule bit_eqI) (auto simp: bit_and_iff)

interpretation pte: paging_entry PTE_is_present PTE_set_present PTE_is_writable PTE_set_writable
  PTE_is_user_accessible PTE_set_user_accessible PTE_is_no_execute PTE_set_no_execute PTE_get_address
proof unfold_locales
  fix e e' :: u64
  assume "\<And>i. i \<notin> {1, 2, 63} \<Longrightarrow> bit e i \<longleftrightarrow> bit e' i"
  then show "PTE_get_address e = PTE_get_address e'"
    by (auto simp: PTE_get_address_def PTE_is_present_def intro!: and_mask_cong)
qed (simp_all add: PTE_attr_defs)

interpretation pde: table_entry PDE_is_present PDE_set_present PDE_is_writable PDE_set_writable
  PDE_is_user_accessible PDE_set_user_accessible PDE_is_no_execute PDE_set_no_execute PDE_get_address
  PDE_is_address_set PDE_set_address_set PDE_init PDE_set_address
proof unfold_locales
  fix e e' :: u64
  assume "\<And>i. i \<notin> {1, 2, 63} \<Longrightarrow> bit e i \<longleftrightarrow> bit e' i"
  then show "PDE_get_address e = PDE_get_address e'"
    by (auto simp: PDE_get_address_def PDE_is_address_set_def PDE_is_huge_def intro!: and_mask_cong)
qed (auto simp: PDE_attr_defs PDE_init_def PDE_get_address_def PDE_set_address_def PDE_is_huge_def not_PAGE_MASK bit_and_iff)

interpretation pdpte: table_entry PDPTE_is_present PDPTE_set_present PDPTE_is_writable PDPTE_set_writable
  PDPTE_is_user_accessible PDPTE_set_user_accessible PDPTE_is_no_execute PDPTE_set_no_execute PDPTE_get_address
  PDPTE_is_address_set PDPTE_set_address_set PDPTE_init PDPTE_set_address
proof unfold_locales
  fix e e' :: u64
  assume "\<And>i. i \<notin> {1, 2, 63} \<Longrightarrow> bit e i \<longleftrightarrow> bit e' i"
  then show "PDPTE_get_address e = PDPTE_get_address e'"
    by (auto simp: PDPTE_get_address_def PDPTE_is_address_set_def PDPTE_is_huge_def intro!: and_mask_cong)
qed (auto simp: PDPTE_attr_defs PDPTE_init_def PDPTE_get_address_def PDPTE_set_address_def PDPTE_is_huge_def not_PAGE_MASK bit_and_iff)

interpretation pml4e: table_entry PML4E_is_present PML4E_set_present PML4E_is_writable PML4E_set_writable
  PML4E_is_user_accessible PML4E_set_user_accessible PML4E_is_no_execute PML4E_set_no_execute PML4E_get_address
  PML4E_is_address_set PML4E_set_address_set PML4E_init PML4E_set_address
proof unfold_locales
  fix e e' :: u64
  assume "\<And>i. i \<notin> {1, 2, 63} \<Longrightarrow> bit e i \<longleftrightarrow> bit e' i"
  then show "PML4E_get_address e = PML4E_get_address e'"
    by (auto simp: PML4E_get_address_def PML4E_is_address_set_def intro!: and_mask_cong)
qed (auto simp: PML4E_attr_defs PML4E_init_def PML4E_get_address_def PML4E_set_address_def not_PAGE_MASK bit_and_iff)

end
