(* ===== verification/Memory_Layout.thy ===== *)
theory Memory_Layout
  imports Data_Type
begin

text \<open>
  The virtual memory layout of the x86\_64 kernel
  (\<open>arch/x86_64/context/memory_layout.rs\<close>): its fixed areas and the conversions between
  physical addresses and the direct map. Subtraction and addition wrap, as the release
  profile compiles them.
\<close>

definition DIRECT_MAP_START_ADDRESS :: VAddress where "DIRECT_MAP_START_ADDRESS = 0xFFFFA00000000000"
definition DIRECT_MAP_END_ADDRESS :: VAddress where "DIRECT_MAP_END_ADDRESS = 0xFFFFBFFFFFFFFFFF"
definition DIRECT_MAP_BASE_ADDRESS :: PAddress where "DIRECT_MAP_BASE_ADDRESS = 0"
definition KERNEL_MAP_START_ADDRESS :: VAddress where "KERNEL_MAP_START_ADDRESS = 0xFFFFFF8000000000"
definition USER_END_ADDRESS :: VAddress where "USER_END_ADDRESS = 0x00007FFFFFFFFFFF"

definition CANONICAL_AREA_LOW :: "VAddress \<times> VAddress" where
  "CANONICAL_AREA_LOW = (0, 0x00007FFFFFFFFFFF)"

definition CANONICAL_AREA_HIGH :: "VAddress \<times> VAddress" where
  "CANONICAL_AREA_HIGH = (0xFFFF800000000000, 0xFFFFFFFFFFFFFFFF)"

text \<open>\<open>RangeInclusive::contains\<close>.\<close>

definition range_contains :: "VAddress \<times> VAddress \<Rightarrow> VAddress \<Rightarrow> bool" where
  "range_contains r a \<longleftrightarrow> fst r \<le> a \<and> a \<le> snd r"

definition is_address_canonical :: "VAddress \<Rightarrow> VAddress \<Rightarrow> bool" where
  "is_address_canonical start_address end_address =
     (if range_contains CANONICAL_AREA_LOW start_address
      then range_contains CANONICAL_AREA_LOW end_address
      else range_contains CANONICAL_AREA_HIGH start_address \<and>
           range_contains CANONICAL_AREA_HIGH end_address)"

definition kernel_area_to_physical_address :: "VAddress \<Rightarrow> PAddress" where
  "kernel_area_to_physical_address kernel_virtual_address =
     kernel_virtual_address - KERNEL_MAP_START_ADDRESS"

definition direct_map_to_physical_address :: "VAddress \<Rightarrow> PAddress" where
  "direct_map_to_physical_address direct_map_virtual_address =
     direct_map_virtual_address - DIRECT_MAP_START_ADDRESS"

definition is_direct_mapped :: "PAddress \<Rightarrow> bool" where
  "is_direct_mapped physical_address \<longleftrightarrow>
     physical_address - DIRECT_MAP_BASE_ADDRESS \<le> DIRECT_MAP_END_ADDRESS - DIRECT_MAP_START_ADDRESS"

definition physical_address_to_direct_map :: "PAddress \<Rightarrow> VAddress" where
  "physical_address_to_direct_map physical_address =
     physical_address - DIRECT_MAP_BASE_ADDRESS + DIRECT_MAP_START_ADDRESS"

definition is_user_memory_area :: "VAddress \<Rightarrow> bool" where
  "is_user_memory_area address \<longleftrightarrow> address \<le> USER_END_ADDRESS"

section \<open>The direct map\<close>

lemma direct_map_inverse [simp]:
  "direct_map_to_physical_address (physical_address_to_direct_map p) = p"
  "physical_address_to_direct_map (direct_map_to_physical_address v) = v"
  by (simp_all add: direct_map_to_physical_address_def physical_address_to_direct_map_def
      DIRECT_MAP_BASE_ADDRESS_def)

lemma physical_address_to_direct_map_inj [simp]:
  "physical_address_to_direct_map p = physical_address_to_direct_map q \<longleftrightarrow> p = q"
  by (metis direct_map_inverse(1))

end
