(* ===== verification/Chains.thy ===== *)
theory Chains
  imports Prelude
begin

text \<open>
  Doubly linked chains. Three structures of the kernel are doubly linked through
  pointers kept in their nodes: the intrusive \<open>PtrLinkedList\<close>, the address-ordered
  list of \<open>MemoryEntry\<close> and its size-ordered free lists. Each has a pair of link
  functions (an address to the address of the neighbour, if any); this theory states
  once what it means that such a pair links a list of addresses, and how pointer
  writes change the list.
\<close>

section \<open>Link functions and chains\<close>

definition hd_or :: "'a option \<Rightarrow> 'a list \<Rightarrow> 'a option" where
  "hd_or n xs = (case xs of [] \<Rightarrow> n | x # _ \<Rightarrow> Some x)"

definition last_or :: "'a option \<Rightarrow> 'a list \<Rightarrow> 'a option" where
  "last_or p xs = (if xs = [] then p else Some (last xs))"

lemma hd_or_simps [simp]:
  "hd_or n [] = n" "hd_or n (x # xs) = Some x"
  by (simp_all add: hd_or_def)

lemma hd_or_None_iff [simp]:
  "hd_or n xs = None \<longleftrightarrow> xs = [] \<and> n = None" "None = hd_or n xs \<longleftrightarrow> xs = [] \<and> n = None"
  "(\<exists>y. hd_or n xs = Some y) \<longleftrightarrow> xs \<noteq> [] \<or> n \<noteq> None"
  by (cases xs; force)+

lemma last_or_simps [simp]:
  "last_or p [] = p" "last_or p (xs @ [x]) = Some x"
  "last_or p (x # y # ys) = last_or p (y # ys)" "last_or p [x] = Some x"
  by (simp_all add: last_or_def)

lemma hd_or_append: "hd_or n (xs @ ys) = hd_or (hd_or n ys) xs"
  by (cases xs) simp_all

lemma last_or_append: "last_or p (xs @ ys) = last_or (last_or p xs) ys"
  by (cases ys) (simp_all add: last_or_def)

lemma last_or_Cons: "last_or p (x # xs) = last_or (Some x) xs"
  by (simp add: last_or_def)

text \<open>
  \<open>chain pf nf p xs n\<close>: the nodes \<open>xs\<close> are linked in this order, backwards by
  \<open>pf\<close> and forwards by \<open>nf\<close>, with \<open>p\<close> before the first and \<open>n\<close> after the last.
\<close>

primrec chain ::
  "('a \<Rightarrow> 'a option) \<Rightarrow> ('a \<Rightarrow> 'a option) \<Rightarrow> 'a option \<Rightarrow> 'a list \<Rightarrow> 'a option \<Rightarrow> bool"
where
  "chain pf nf p [] n \<longleftrightarrow> True"
| "chain pf nf p (x # xs) n \<longleftrightarrow>
     pf x = p \<and> nf x = hd_or n xs \<and> chain pf nf (Some x) xs n"

lemma chain_append:
  "chain pf nf p (xs @ ys) n \<longleftrightarrow>
     chain pf nf p xs (hd_or n ys) \<and> chain pf nf (last_or p xs) ys n"
  by (induction xs arbitrary: p) (auto simp: hd_or_append last_or_Cons)

lemma chain_pf_upd [simp]:
  "a \<notin> set xs \<Longrightarrow> chain (pf(a := v)) nf p xs n \<longleftrightarrow> chain pf nf p xs n"
  by (induction xs arbitrary: p) auto

lemma chain_nf_upd [simp]:
  "a \<notin> set xs \<Longrightarrow> chain pf (nf(a := v)) p xs n \<longleftrightarrow> chain pf nf p xs n"
  by (induction xs arbitrary: p) auto

lemma chain_cong:
  "(\<And>x. x \<in> set xs \<Longrightarrow> pf x = pf' x \<and> nf x = nf' x) \<Longrightarrow>
     chain pf nf p xs n \<longleftrightarrow> chain pf' nf' p xs n"
  by (induction xs arbitrary: p) auto

lemma chain_snoc:
  "chain pf nf p (xs @ [x]) n \<longleftrightarrow>
     chain pf nf p xs (Some x) \<and> pf x = last_or p xs \<and> nf x = n"
  by (auto simp: chain_append)

lemma chain_next_mem:
  "chain pf nf p (as @ x # bs) n \<Longrightarrow> nf x = hd_or n bs"
  by (simp add: chain_append)

lemma chain_prev_mem:
  "chain pf nf p (as @ x # bs) n \<Longrightarrow> pf x = last_or p as"
  by (simp add: chain_append)

text \<open>
  The pointer writes that the operations make, as changes of the list. A node is put
  between two neighbours, at either end, or taken out.
\<close>

lemma chain_link_between:
  assumes "chain pf nf p (as @ bs) n" and "distinct (as @ bs)" and "e \<notin> set (as @ bs)"
    and "as = as' @ [a]" and "bs = b # bs'"
  shows "chain ((pf(e := Some a))(b := Some e)) ((nf(e := Some b))(a := Some e)) p (as @ e # bs) n"
  using assms by (auto simp: chain_append)

lemma chain_link_front:
  assumes "chain pf nf p (b # bs) n" and "distinct (b # bs)" and "e \<notin> set (b # bs)"
  shows "chain ((pf(e := p))(b := Some e)) (nf(e := Some b)) p (e # b # bs) n"
  using assms by auto

lemma chain_link_back:
  assumes "chain pf nf p (as @ [a]) n" and "distinct (as @ [a])" and "e \<notin> set (as @ [a])"
  shows "chain (pf(e := Some a)) ((nf(e := n))(a := Some e)) p (as @ [a, e]) n"
  using assms by (auto simp: chain_append)

lemma chain_unlink_front:
  assumes "chain pf nf p (e # b # bs) n" and "distinct (e # b # bs)"
  shows "chain (pf(b := p)) nf p (b # bs) n"
  using assms by auto

lemma chain_unlink_back:
  assumes "chain pf nf p (as @ [a, e]) n" and "distinct (as @ [a, e])"
  shows "chain pf (nf(a := n)) p (as @ [a]) n"
  using assms by (auto simp: chain_append)

lemma chain_unlink_between:
  assumes "chain pf nf p (as @ e # bs) n" and "distinct (as @ e # bs)"
    and "as = as' @ [a]" and "bs = b # bs'"
  shows "chain (pf(b := Some a)) (nf(a := Some b)) p (as @ bs) n"
  using assms by (auto simp: chain_append)

lemmas chain_links = chain_link_between chain_link_front chain_link_back
lemmas chain_unlinks = chain_unlink_front chain_unlink_back chain_unlink_between

text \<open>Walking forwards from a node visits exactly the rest of the chain.\<close>

primrec walk :: "nat \<Rightarrow> ('a \<Rightarrow> 'a option) \<Rightarrow> 'a option \<Rightarrow> 'a list" where
  "walk 0 nf c = []"
| "walk (Suc k) nf c = (case c of None \<Rightarrow> [] | Some x \<Rightarrow> x # walk k nf (nf x))"

lemma walk_None [simp]: "walk k nf None = []"
  by (cases k) auto

lemma walk_chain:
  "chain pf nf p xs None \<Longrightarrow> length xs \<le> k \<Longrightarrow> walk k nf (hd_or None xs) = xs"
proof (induction xs arbitrary: p k)
  case Nil
  then show ?case by simp
next
  case (Cons x xs)
  then obtain j where "k = Suc j" and "length xs \<le> j" by (cases k) auto
  with Cons show ?case by auto
qed

text \<open>A record heap seen through one field; a write to a node is an update there.\<close>

lemma comp_upd [simp]: "f \<circ> h(a := r) = (f \<circ> h)(a := f r)"
  by (auto simp: fun_eq_iff)

end
