(* ===== verification/Ptr_Linked_List.thy ===== *)
theory Ptr_Linked_List
  imports Chains
begin

text \<open>
  The intrusive doubly linked list of \<open>kernel/collections/ptr_linked_list.rs\<close>. The
  nodes live in the structures they chain, so the model has an explicit store: a
  function from addresses to nodes that every operation takes and returns. A failed
  \<open>assert!\<close> or \<open>unwrap\<close> is \<^term>\<open>Panic\<close>. The operations are shown to implement
  insertion, removal and iteration on the list of node addresses.
\<close>

section \<open>Nodes, lists and the store\<close>

record PtrLinkedListNode =
  node_prev :: "usize option"
  node_next :: "usize option"

record PtrLinkedList =
  ll_head :: "usize option"
  ll_tail :: "usize option"

record PtrLinkedListIter =
  it_next :: "usize option"
  it_offset :: usize

type_synonym node_heap = "usize \<Rightarrow> PtrLinkedListNode"

type_synonym 'e list_result = "('e, node_heap \<times> PtrLinkedList) outcome"

text \<open>\<open>NonNull::new\<close>: the null pointer is no pointer.\<close>

definition NonNull_new :: "usize \<Rightarrow> usize option" where
  "NonNull_new p = (if p = 0 then None else Some p)"

section \<open>Operations on a node\<close>

definition PtrLinkedListNode_new :: PtrLinkedListNode where
  "PtrLinkedListNode_new = \<lparr>node_prev = None, node_next = None\<rparr>"

definition set_prev :: "node_heap \<Rightarrow> usize \<Rightarrow> usize option \<Rightarrow> node_heap" where
  "set_prev h a v = h(a := (h a)\<lparr>node_prev := v\<rparr>)"

definition set_next :: "node_heap \<Rightarrow> usize \<Rightarrow> usize option \<Rightarrow> node_heap" where
  "set_next h a v = h(a := (h a)\<lparr>node_next := v\<rparr>)"

definition unset_prev_and_next :: "node_heap \<Rightarrow> usize \<Rightarrow> node_heap" where
  "unset_prev_and_next h a = set_next (set_prev h a None) a None"

definition node_insert_after :: "node_heap \<Rightarrow> usize \<Rightarrow> usize \<Rightarrow> node_heap" where
  "node_insert_after h self nx =
     (let old_next = node_next (h self);
          h1 = set_next h self (NonNull_new nx);
          h2 = set_prev h1 nx (NonNull_new self);
          h3 = set_next h2 nx old_next
      in case node_next (h3 nx) of
           None \<Rightarrow> h3
         | Some e \<Rightarrow> set_prev h3 e (NonNull_new nx))"

definition node_insert_before :: "node_heap \<Rightarrow> usize \<Rightarrow> usize \<Rightarrow> node_heap" where
  "node_insert_before h self pv =
     (let old_prev = node_prev (h self);
          h1 = set_prev h self (NonNull_new pv);
          h2 = set_next h1 pv (NonNull_new self);
          h3 = set_prev h2 pv old_prev
      in case node_prev (h3 pv) of
           None \<Rightarrow> h3
         | Some e \<Rightarrow> set_next h3 e (NonNull_new pv))"

definition has_next :: "node_heap \<Rightarrow> usize \<Rightarrow> bool" where
  "has_next h a = (node_next (h a) \<noteq> None)"

definition has_prev :: "node_heap \<Rightarrow> usize \<Rightarrow> bool" where
  "has_prev h a = (node_prev (h a) \<noteq> None)"

definition get_next :: "node_heap \<Rightarrow> usize \<Rightarrow> usize \<Rightarrow> usize option" where
  "get_next h a offset = map_option (\<lambda>e. e - offset) (node_next (h a))"

definition get_prev :: "node_heap \<Rightarrow> usize \<Rightarrow> usize \<Rightarrow> usize option" where
  "get_prev h a offset = map_option (\<lambda>e. e - offset) (node_prev (h a))"

section \<open>Operations on a list\<close>

definition PtrLinkedList_new :: PtrLinkedList where
  "PtrLinkedList_new = \<lparr>ll_head = None, ll_tail = None\<rparr>"

definition is_empty :: "PtrLinkedList \<Rightarrow> bool" where
  "is_empty l = (ll_head l = None)"

definition insert_head ::
  "node_heap \<Rightarrow> PtrLinkedList \<Rightarrow> usize \<Rightarrow> 'e list_result" where
  "insert_head h l entry =
     obind
      (case ll_head l of
         None \<Rightarrow>
           obind (assert_that (ll_tail l = None)) (\<lambda>_.
             let h1 = unset_prev_and_next h entry;
                 l1 = l\<lparr>ll_head := NonNull_new entry\<rparr>
             in Ok (h1, l1\<lparr>ll_tail := ll_head l1\<rparr>))
       | Some current_head \<Rightarrow>
           obind (assert_that (node_prev (h current_head) = None)) (\<lambda>_.
             let h1 = unset_prev_and_next h entry;
                 h2 = set_prev h1 current_head (NonNull_new entry);
                 h3 = set_next h2 entry (ll_head l)
             in Ok (h3, l\<lparr>ll_head := node_prev (h3 current_head)\<rparr>)))
      (\<lambda>(h', l'). obind (assert_that (ll_head l' \<noteq> None)) (\<lambda>_. Ok (h', l')))"

definition insert_tail ::
  "node_heap \<Rightarrow> PtrLinkedList \<Rightarrow> usize \<Rightarrow> 'e list_result" where
  "insert_tail h l entry =
     obind
      (case ll_tail l of
         None \<Rightarrow>
           obind (assert_that (ll_head l = None)) (\<lambda>_. insert_head h l entry)
       | Some current_tail \<Rightarrow>
           obind (assert_that (node_next (h current_tail) = None)) (\<lambda>_.
             let h1 = set_next h current_tail (NonNull_new entry);
                 h2 = set_prev h1 entry (ll_tail l);
                 l1 = l\<lparr>ll_tail := node_next (h2 current_tail)\<rparr>
             in Ok (set_next h2 entry None, l1)))
      (\<lambda>(h', l'). obind (assert_that (ll_tail l' \<noteq> None)) (\<lambda>_. Ok (h', l')))"

definition insert_after ::
  "node_heap \<Rightarrow> PtrLinkedList \<Rightarrow> usize \<Rightarrow> usize \<Rightarrow> 'e list_result" where
  "insert_after h l list_entry entry =
     (if node_next (h list_entry) = None then insert_tail h l entry
      else Ok (node_insert_after (unset_prev_and_next h entry) list_entry entry, l))"

definition insert_before ::
  "node_heap \<Rightarrow> PtrLinkedList \<Rightarrow> usize \<Rightarrow> usize \<Rightarrow> 'e list_result" where
  "insert_before h l list_entry entry =
     (if node_prev (h list_entry) = None then insert_head h l entry
      else Ok (node_insert_before (unset_prev_and_next h entry) list_entry entry, l))"

definition remove_entry ::
  "node_heap \<Rightarrow> PtrLinkedList \<Rightarrow> usize \<Rightarrow> 'e list_result" where
  "remove_entry h l list_entry =
     obind (assert_that (ll_head l \<noteq> None)) (\<lambda>_.
     obind
      (case node_prev (h list_entry) of
         None \<Rightarrow>
           obind (assert_that (ll_head l = Some list_entry)) (\<lambda>_.
             case node_next (h list_entry) of
               None \<Rightarrow> Ok (h, l\<lparr>ll_head := None, ll_tail := None\<rparr>)
             | Some new_head \<Rightarrow>
                 let h1 = set_prev h new_head None
                 in Ok (h1, l\<lparr>ll_head := node_next (h1 list_entry)\<rparr>))
       | Some p \<Rightarrow>
           (case node_next (h list_entry) of
              None \<Rightarrow>
                obind (assert_that (ll_tail l = Some list_entry)) (\<lambda>_.
                  let h1 = set_next h p None
                  in Ok (h1, l\<lparr>ll_tail := node_prev (h1 list_entry)\<rparr>))
            | Some n \<Rightarrow>
                let h1 = set_next h p (node_next (h list_entry));
                    h2 = set_prev h1 n (node_prev (h1 list_entry))
                in Ok (h2, l)))
      (\<lambda>(h', l'). Ok (unset_prev_and_next h' list_entry, l')))"

definition get_first_entry :: "PtrLinkedList \<Rightarrow> usize \<Rightarrow> usize option" where
  "get_first_entry l offset = map_option (\<lambda>e. e - offset) (ll_head l)"

definition get_last_entry :: "PtrLinkedList \<Rightarrow> usize \<Rightarrow> usize option" where
  "get_last_entry l offset = map_option (\<lambda>e. e - offset) (ll_tail l)"

definition take_first_entry ::
  "node_heap \<Rightarrow> PtrLinkedList \<Rightarrow> usize
     \<Rightarrow> ('e, (node_heap \<times> PtrLinkedList) \<times> usize option) outcome" where
  "take_first_entry h l offset =
     (if is_empty l then Ok ((h, l), None)
      else case (get_first_entry l offset, ll_head l) of
             (Some r, Some head) \<Rightarrow>
               obind (remove_entry h l head) (\<lambda>s. Ok (s, Some r))
           | _ \<Rightarrow> Panic)"

definition iter :: "PtrLinkedList \<Rightarrow> usize \<Rightarrow> PtrLinkedListIter" where
  "iter l offset = \<lparr>it_next = ll_head l, it_offset = offset\<rparr>"

definition iter_next ::
  "node_heap \<Rightarrow> PtrLinkedListIter \<Rightarrow> PtrLinkedListIter \<times> usize option" where
  "iter_next h it =
     (case it_next it of
        None \<Rightarrow> (it, None)
      | Some n \<Rightarrow> (it\<lparr>it_next := node_next (h n)\<rparr>, Some (n - it_offset it)))"

text \<open>A \<open>for\<close> loop over the iterator, with at most \<open>k\<close> rounds.\<close>

primrec iter_collect :: "nat \<Rightarrow> node_heap \<Rightarrow> PtrLinkedListIter \<Rightarrow> usize list" where
  "iter_collect 0 h it = []"
| "iter_collect (Suc k) h it =
     (case iter_next h it of
        (it', None) \<Rightarrow> []
      | (it', Some x) \<Rightarrow> x # iter_collect k h it')"

section \<open>The list a store holds\<close>

definition ll_inv :: "node_heap \<Rightarrow> PtrLinkedList \<Rightarrow> usize list \<Rightarrow> bool" where
  "ll_inv h l xs \<longleftrightarrow>
     distinct xs \<and> 0 \<notin> set xs \<and>
     ll_head l = hd_or None xs \<and> ll_tail l = last_or None xs \<and>
     chain (node_prev \<circ> h) (node_next \<circ> h) None xs None"

lemmas node_write_defs = set_prev_def set_next_def unset_prev_and_next_def NonNull_new_def

lemma ll_inv_new: "ll_inv h PtrLinkedList_new []"
  by (simp add: ll_inv_def PtrLinkedList_new_def)

text \<open>Only the nodes of the list and the node put in or taken out are written.\<close>

definition only_writes :: "usize set \<Rightarrow> node_heap \<Rightarrow> node_heap \<Rightarrow> bool" where
  "only_writes A h h' \<longleftrightarrow> (\<forall>a. a \<notin> A \<longrightarrow> h' a = h a)"

lemma insert_head_ok:
  assumes "ll_inv h l xs" and "e \<noteq> 0" and "e \<notin> set xs"
  shows "\<exists>h' l'. insert_head h l e = Ok (h', l') \<and> ll_inv h' l' (e # xs)
           \<and> only_writes (insert e (set xs)) h h'"
proof (cases xs)
  case Nil
  with assms show ?thesis
    by (auto simp: ll_inv_def insert_head_def node_write_defs assert_that_def only_writes_def)
next
  case (Cons b bs)
  with assms show ?thesis
    by (auto simp: ll_inv_def insert_head_def node_write_defs assert_that_def only_writes_def
        Let_def last_or_Cons)
qed

lemma insert_tail_ok:
  assumes "ll_inv h l xs" and "e \<noteq> 0" and "e \<notin> set xs"
  shows "\<exists>h' l'. insert_tail h l e = Ok (h', l') \<and> ll_inv h' l' (xs @ [e])
           \<and> only_writes (insert e (set xs)) h h'"
proof (cases xs rule: rev_cases)
  case Nil
  with assms show ?thesis
    by (auto simp: ll_inv_def insert_head_def insert_tail_def node_write_defs assert_that_def
        only_writes_def)
next
  case (snoc as a)
  with assms show ?thesis
    by (auto simp: ll_inv_def insert_tail_def node_write_defs assert_that_def only_writes_def
        Let_def chain_append hd_or_append last_or_append)
qed

lemma insert_after_ok:
  assumes inv: "ll_inv h l (as @ y # bs)" and e: "e \<noteq> 0" "e \<notin> set (as @ y # bs)"
  shows "\<exists>h' l'. insert_after h l y e = Ok (h', l') \<and> ll_inv h' l' (as @ y # e # bs)
           \<and> only_writes (insert e (set (as @ y # bs))) h h'"
proof (cases bs)
  case Nil
  then have "node_next (h y) = None"
    using inv by (simp add: ll_inv_def chain_append)
  then show ?thesis
    using insert_tail_ok [OF inv e] Nil by (simp add: insert_after_def)
next
  case (Cons b bs')
  with assms show ?thesis
    by (auto simp: ll_inv_def insert_after_def node_insert_after_def node_write_defs only_writes_def
        Let_def chain_append last_or_append last_or_Cons hd_or_append)
qed

lemma insert_before_ok:
  assumes inv: "ll_inv h l (as @ y # bs)" and e: "e \<noteq> 0" "e \<notin> set (as @ y # bs)"
  shows "\<exists>h' l'. insert_before h l y e = Ok (h', l') \<and> ll_inv h' l' (as @ e # y # bs)
           \<and> only_writes (insert e (set (as @ y # bs))) h h'"
proof (cases as rule: rev_cases)
  case Nil
  then have "node_prev (h y) = None"
    using inv by (simp add: ll_inv_def)
  then show ?thesis
    using insert_head_ok [OF inv e] Nil by (simp add: insert_before_def)
next
  case (snoc as' a)
  with assms show ?thesis
    by (auto simp: ll_inv_def insert_before_def node_insert_before_def node_write_defs only_writes_def
        Let_def chain_append last_or_append last_or_Cons hd_or_append)
qed

lemma remove_entry_ok:
  assumes "ll_inv h l (as @ y # bs)"
  shows "\<exists>h' l'. remove_entry h l y = Ok (h', l') \<and> ll_inv h' l' (as @ bs)
           \<and> h' y = PtrLinkedListNode_new
           \<and> only_writes (set (as @ y # bs)) h h'"
proof (cases as rule: rev_cases)
  case Nil
  with assms show ?thesis
    by (cases bs) (auto simp: ll_inv_def remove_entry_def node_write_defs only_writes_def Let_def
        PtrLinkedListNode_new_def last_or_Cons assert_that_def)
next
  case (snoc as' a)
  with assms show ?thesis
    by (cases bs) (auto simp: ll_inv_def remove_entry_def node_write_defs only_writes_def Let_def
        PtrLinkedListNode_new_def last_or_Cons assert_that_def chain_append last_or_append
        hd_or_append)
qed

lemma take_first_entry_ok:
  assumes "ll_inv h l (x # xs)"
  shows "\<exists>h' l'. (take_first_entry h l offset
             :: ('e, (node_heap \<times> PtrLinkedList) \<times> usize option) outcome)
               = Ok ((h', l'), Some (x - offset))
           \<and> ll_inv h' l' xs \<and> only_writes (set (x # xs)) h h'"
proof -
  from remove_entry_ok [of h l "[]" x xs] assms obtain h' l' where
    "(remove_entry h l x :: 'e list_result) = Ok (h', l')" and "ll_inv h' l' xs" and "only_writes (set (x # xs)) h h'"
    by auto
  with assms show ?thesis
    by (simp add: take_first_entry_def is_empty_def get_first_entry_def ll_inv_def)
qed

lemma take_first_entry_empty:
  "ll_inv h l [] \<Longrightarrow> take_first_entry h l offset = Ok ((h, l), None)"
  by (simp add: take_first_entry_def is_empty_def ll_inv_def)

lemma ll_inv_empty_iff: "ll_inv h l xs \<Longrightarrow> is_empty l \<longleftrightarrow> xs = []"
  by (cases xs) (auto simp: ll_inv_def is_empty_def)

lemma iter_collect_walk:
  "iter_collect k h \<lparr>it_next = c, it_offset = offset\<rparr>
     = map (\<lambda>a. a - offset) (walk k (node_next \<circ> h) c)"
  by (induction k arbitrary: c) (auto simp: iter_next_def split: option.splits)

lemma iter_collect_ok:
  assumes "ll_inv h l xs" and "length xs \<le> k"
  shows "iter_collect k h (iter l offset) = map (\<lambda>a. a - offset) xs"
  using assms walk_chain [of "node_prev \<circ> h" "node_next \<circ> h" None xs k]
  by (simp add: iter_def ll_inv_def iter_collect_walk)

text \<open>A second list in the same store is not disturbed.\<close>

lemma ll_inv_frame:
  assumes "ll_inv h l ys" and "only_writes A h h'" and "A \<inter> set ys = {}"
  shows "ll_inv h' l ys"
proof -
  have "h' y = h y" if "y \<in> set ys" for y
    using assms(2,3) that by (auto simp: only_writes_def)
  then have "chain (node_prev \<circ> h') (node_next \<circ> h') None ys None
      \<longleftrightarrow> chain (node_prev \<circ> h) (node_next \<circ> h) None ys None"
    by (intro chain_cong) simp
  with assms(1) show ?thesis by (simp add: ll_inv_def)
qed

section \<open>The queue interface\<close>

text \<open>
  What the users of the list as a queue rely on (the timer list, the TCP send buffers,
  the work queue): appending at the tail and taking from the head always succeed and
  act on the list held. \<open>object\<close> is the address of the structure around a node.
\<close>

primrec put_all ::
  "('h \<Rightarrow> 'l \<Rightarrow> 'a \<Rightarrow> ('e, 'h \<times> 'l) outcome) \<Rightarrow> 'a list \<Rightarrow> 'h \<times> 'l \<Rightarrow> ('e, 'h \<times> 'l) outcome"
where
  "put_all ins [] s = Ok s"
| "put_all ins (x # xs) s = obind (ins (fst s) (snd s) x) (put_all ins xs)"

primrec take_all ::
  "nat \<Rightarrow> ('h \<Rightarrow> 'l \<Rightarrow> ('e, ('h \<times> 'l) \<times> 'b option) outcome) \<Rightarrow> 'h \<times> 'l \<Rightarrow> ('e, 'b list) outcome"
where
  "take_all 0 tk s = Ok []"
| "take_all (Suc k) tk s =
     obind (tk (fst s) (snd s)) (\<lambda>(s', r).
       case r of None \<Rightarrow> Ok [] | Some x \<Rightarrow> obind (take_all k tk s') (\<lambda>xs. Ok (x # xs)))"

locale linked_queue =
  fixes holds :: "'h \<Rightarrow> 'l \<Rightarrow> 'a list \<Rightarrow> bool"
    and valid :: "'a \<Rightarrow> bool"
    and put :: "'h \<Rightarrow> 'l \<Rightarrow> 'a \<Rightarrow> ('e, 'h \<times> 'l) outcome"
    and take_first :: "'h \<Rightarrow> 'l \<Rightarrow> ('e, ('h \<times> 'l) \<times> 'b option) outcome"
    and object :: "'a \<Rightarrow> 'b"
  assumes put_ok: "holds h l xs \<Longrightarrow> valid x \<Longrightarrow> x \<notin> set xs \<Longrightarrow>
      \<exists>h' l'. put h l x = Ok (h', l') \<and> holds h' l' (xs @ [x])"
    and take_ok: "holds h l (x # xs) \<Longrightarrow>
      \<exists>h' l'. take_first h l = Ok ((h', l'), Some (object x)) \<and> holds h' l' xs"
    and take_empty: "holds h l [] \<Longrightarrow> take_first h l = Ok ((h, l), None)"
begin

lemma put_all_ok:
  assumes "holds h l xs" and "distinct (xs @ ys)" and "\<forall>y \<in> set ys. valid y"
  shows "\<exists>h' l'. put_all put ys (h, l) = Ok (h', l') \<and> holds h' l' (xs @ ys)"
  using assms
proof (induction ys arbitrary: h l xs)
  case Nil
  then show ?case by simp
next
  case (Cons y ys)
  from Cons.prems put_ok [of h l xs y] obtain h1 l1 where
    put: "put h l y = Ok (h1, l1)" and inv: "holds h1 l1 (xs @ [y])" by auto
  from Cons.IH [OF inv] Cons.prems have
    "\<exists>h' l'. put_all put ys (h1, l1) = Ok (h', l') \<and> holds h' l' ((xs @ [y]) @ ys)" by simp
  with put show ?case by simp
qed

lemma take_all_ok:
  "holds h l xs \<Longrightarrow> length xs < k \<Longrightarrow> take_all k take_first (h, l) = Ok (map object xs)"
proof (induction xs arbitrary: k h l)
  case Nil
  then show ?case using take_empty by (cases k) auto
next
  case (Cons x xs)
  then obtain j where k: "k = Suc j" and j: "length xs < j" by (cases k) auto
  from take_ok [OF Cons.prems(1)] obtain h' l' where
    tk: "take_first h l = Ok ((h', l'), Some (object x))" and inv: "holds h' l' xs" by auto
  from Cons.IH [OF inv j] tk k show ?case by simp
qed

lemma fifo:
  assumes "holds h l xs" and "distinct (xs @ ys)" and "\<forall>y \<in> set ys. valid y"
    and "length (xs @ ys) < k"
  shows "obind (put_all put ys (h, l)) (take_all k take_first) = Ok (map object (xs @ ys))"
  using put_all_ok [OF assms(1-3)] take_all_ok assms(4) by auto

end

interpretation pll: linked_queue ll_inv "\<lambda>a. a \<noteq> 0" insert_tail
    "\<lambda>h l. take_first_entry h l offset" "\<lambda>a. a - offset" for offset
  using insert_tail_ok take_first_entry_ok take_first_entry_empty
  by unfold_locales (fast, fast, auto)

section \<open>Properties\<close>

text \<open>
  Property C8. Appending nodes with \<open>insert_tail\<close> and draining the list with
  \<open>take_first_entry\<close> is a first-in first-out queue: no assertion fails, every
  structure comes out once, in the order in which it was put in, behind what the list
  held before.
\<close>

theorem ptr_linked_list_fifo:
  assumes "ll_inv h l xs" and "distinct (xs @ ys)" and "0 \<notin> set ys" and "length (xs @ ys) < k"
  shows "obind (put_all insert_tail ys (h, l)) (take_all k (\<lambda>h l. take_first_entry h l offset))
           = Ok (map (\<lambda>a. a - offset) (xs @ ys))"
  by (rule pll.fifo) (use assms in auto)

definition empty_store :: node_heap where
  "empty_store = (\<lambda>_. PtrLinkedListNode_new)"

theorem ptr_linked_list_fifo_witness:
  "obind (put_all insert_tail [64, 16] (empty_store, PtrLinkedList_new))
      (take_all 3 (\<lambda>h l. take_first_entry h l 8)) = Ok [56, 8]"
  using ptr_linked_list_fifo [of empty_store PtrLinkedList_new "[]" "[64, 16]" 3 8] ll_inv_new
  by simp

text \<open>
  Remark. \<open>remove\<close> of a node anywhere in the list succeeds, takes exactly that
  node out, clears its links so that it can be inserted again, and leaves every other
  list of the same store (one that shares no node) as it was.
\<close>

theorem remove_unlinks_one:
  assumes "ll_inv h l (as @ y # bs)" and "ll_inv h l2 ys" and "set ys \<inter> set (as @ y # bs) = {}"
  shows "\<exists>h' l'. (remove_entry h l y :: 'e list_result) = Ok (h', l')
           \<and> ll_inv h' l' (as @ bs) \<and> ll_inv h' l2 ys
           \<and> \<not> has_next h' y \<and> \<not> has_prev h' y"
proof -
  from remove_entry_ok [OF assms(1)] obtain h' l' where
    r: "(remove_entry h l y :: 'e list_result) = Ok (h', l')" "ll_inv h' l' (as @ bs)" "h' y = PtrLinkedListNode_new"
    and w: "only_writes (set (as @ y # bs)) h h'" by blast
  moreover from assms(2) w have "ll_inv h' l2 ys"
    by (rule ll_inv_frame) (use assms(3) in blast)
  ultimately show ?thesis
    by (auto simp: has_next_def has_prev_def PtrLinkedListNode_new_def)
qed

definition two_node_store :: node_heap where
  "two_node_store = empty_store(16 := \<lparr>node_prev = None, node_next = Some 32\<rparr>,
     32 := \<lparr>node_prev = Some 16, node_next = None\<rparr>)"

lemma two_node_store_inv:
  "ll_inv two_node_store \<lparr>ll_head = Some 16, ll_tail = Some 32\<rparr> [16, 32]"
  by (simp add: ll_inv_def two_node_store_def)

theorem remove_unlinks_one_witness:
  "\<exists>h' l'. remove_entry two_node_store \<lparr>ll_head = Some 16, ll_tail = Some 32\<rparr> 16 = Ok (h', l')
     \<and> ll_inv h' l' [32] \<and> ll_inv h' PtrLinkedList_new [] \<and> \<not> has_next h' 16 \<and> \<not> has_prev h' 16"
  using remove_unlinks_one [of two_node_store "\<lparr>ll_head = Some 16, ll_tail = Some 32\<rparr>" "[]" 16
      "[32]" PtrLinkedList_new "[]"] two_node_store_inv ll_inv_new
  by simp

end
