(* ===== verification/Pool_Allocator.thy ===== *)
theory Pool_Allocator
  imports Data_Type Ptr_Linked_List
begin

text \<open>
  The fixed-size object pool of \<open>memory_manager/slab_allocator/pool_allocator.rs\<close>. Free
  objects are chained through a \<open>FreeList\<close> word that is written into the object
  itself; the store of these words is an explicit function from their addresses. The
  size and the alignment of the pooled type \<open>T\<close> are the parameters \<open>size_T\<close> and
  \<open>align_T\<close>; \<open>FreeList\<close> is one pointer.
\<close>

section \<open>State\<close>

record PoolAllocator =
  linked_count :: usize
  object_size :: usize
  pool_head :: "usize option"
  pool_offset :: usize

type_synonym free_store = "usize \<Rightarrow> usize option"

type_synonym pool_state = "free_store \<times> PoolAllocator"

definition size_of_FreeList :: usize where "size_of_FreeList = 8"

definition align_of_FreeList :: usize where "align_of_FreeList = 8"

section \<open>Operations\<close>

definition size_check :: "usize \<Rightarrow> usize \<Rightarrow> bool" where
  "size_check size_T align_T =
     (let object_size = (if size_T < align_T then align_T else size_T);
          rest = object_size AND (align_of_FreeList - 1);
          list_size = (if rest \<noteq> 0 then size_of_FreeList + (align_of_FreeList - rest)
                       else size_of_FreeList)
      in list_size \<le> object_size)"

definition PoolAllocator_new :: "usize \<Rightarrow> usize \<Rightarrow> PoolAllocator" where
  "PoolAllocator_new size_T align_T =
     (let object_size = (if size_T < align_T then align_T else size_T);
          rest = object_size AND (align_of_FreeList - 1)
      in \<lparr>linked_count = 0, object_size = object_size, pool_head = None,
          pool_offset = (if rest \<noteq> 0 then align_of_FreeList - rest else 0)\<rparr>)"

definition get_count :: "PoolAllocator \<Rightarrow> usize" where
  "get_count p = linked_count p"

definition free_ptr :: "pool_state \<Rightarrow> usize \<Rightarrow> ('e, pool_state) outcome" where
  "free_ptr s target =
     (case s of (fl, p) \<Rightarrow>
       obind (assert_that (linked_count p < - 1)) (\<lambda>_.
       let e = target + pool_offset p;
           fl' = fl(e := pool_head p);
           p' = p\<lparr>pool_head := NonNull_new e\<rparr>
       in obind (assert_that (pool_head p' \<noteq> None)) (\<lambda>_.
          Ok (fl', p'\<lparr>linked_count := linked_count p' + 1\<rparr>))))"

definition alloc_ptr :: "pool_state \<Rightarrow> (unit, pool_state \<times> usize) outcome" where
  "alloc_ptr s =
     (case s of (fl, p) \<Rightarrow>
       if linked_count p = 0 then Err ()
       else (case pool_head p of
               None \<Rightarrow> Panic
             | Some e \<Rightarrow>
                 Ok ((fl, p\<lparr>pool_head := fl e, linked_count := linked_count p - 1\<rparr>),
                     e - pool_offset p)))"

primrec add_pool_loop :: "nat \<Rightarrow> usize \<Rightarrow> pool_state \<Rightarrow> ('e, pool_state) outcome" where
  "add_pool_loop 0 pool_address s = Ok s"
| "add_pool_loop (Suc k) pool_address s =
     obind (free_ptr s pool_address) (\<lambda>s'.
       add_pool_loop k (pool_address + object_size (snd s')) s')"

definition add_pool ::
  "usize \<Rightarrow> pool_state \<Rightarrow> usize \<Rightarrow> usize \<Rightarrow> ('e, pool_state) outcome" where
  "add_pool align_T s pool_address pool_size =
     (let rest = pool_address AND (align_T - 1);
          padding = align_T - rest;
          pool_address' = (if rest \<noteq> 0 then pool_address + padding else pool_address);
          pool_size' = (if rest \<noteq> 0 then pool_size - padding else pool_size)
      in if object_size (snd s) = 0 then Panic
         else add_pool_loop (unat (pool_size' div object_size (snd s))) pool_address' s)"

section \<open>The free objects of a pool\<close>

text \<open>The free list from \<open>c\<close> runs through the words at the addresses \<open>es\<close>.\<close>

primrec free_path :: "free_store \<Rightarrow> usize option \<Rightarrow> usize list \<Rightarrow> bool" where
  "free_path fl c [] \<longleftrightarrow> c = None"
| "free_path fl c (e # es) \<longleftrightarrow> c = Some e \<and> e \<noteq> 0 \<and> free_path fl (fl e) es"

definition pool_holds :: "pool_state \<Rightarrow> usize list \<Rightarrow> bool" where
  "pool_holds s objs \<longleftrightarrow>
     (case s of (fl, p) \<Rightarrow>
       distinct objs \<and> unat (linked_count p) = length objs \<and>
       free_path fl (pool_head p) (map (\<lambda>a. a + pool_offset p) objs))"

lemma free_path_upd [simp]:
  "a \<notin> set es \<Longrightarrow> free_path (fl(a := v)) c es \<longleftrightarrow> free_path fl c es"
  by (induction es arbitrary: c) auto

lemma pool_holds_new: "pool_holds (fl, PoolAllocator_new size_T align_T) []"
  by (simp add: pool_holds_def PoolAllocator_new_def Let_def)

lemma alloc_ptr_Cons:
  assumes "pool_holds s (x # xs)"
  shows "\<exists>s'. alloc_ptr s = Ok (s', x) \<and> pool_holds s' xs
           \<and> object_size (snd s') = object_size (snd s)
           \<and> pool_offset (snd s') = pool_offset (snd s)"
proof -
  obtain fl p where s: "s = (fl, p)" by (cases s)
  with assms have "linked_count p \<noteq> 0"
    by (auto simp: pool_holds_def)
  moreover from this have "unat (linked_count p - 1) = unat (linked_count p) - 1"
    by (simp add: unat_sub_le word_le_nat_alt unat_gt_0 Suc_leI)
  ultimately show ?thesis
    using assms s by (auto simp: pool_holds_def alloc_ptr_def)
qed

lemma alloc_ptr_Nil: "pool_holds s [] \<Longrightarrow> alloc_ptr s = Err ()"
  by (auto simp: pool_holds_def alloc_ptr_def unat_eq_zero split: prod.splits)

lemma free_ptr_ok:
  assumes "pool_holds s xs" and "x \<notin> set xs" and "x + pool_offset (snd s) \<noteq> 0"
    and "length xs < 2 ^ 64 - 1"
  shows "\<exists>s'. (free_ptr s x :: ('e, pool_state) outcome) = Ok s' \<and> pool_holds s' (x # xs)
           \<and> object_size (snd s') = object_size (snd s)
           \<and> pool_offset (snd s') = pool_offset (snd s)"
proof -
  obtain fl p where s: "s = (fl, p)" by (cases s)
  from assms s have c: "unat (linked_count p) = length xs" by (simp add: pool_holds_def)
  with assms(4) have "linked_count p < - 1"
    by (simp add: word_less_nat_alt unsigned_minus_1_eq_mask mask_eq_exp_minus_1)
  moreover have "unat (linked_count p + 1) = Suc (length xs)"
    using c assms(4) by (simp add: unat_add_noovf)
  moreover have "x + pool_offset p \<notin> set (map (\<lambda>a. a + pool_offset p) xs)"
    using assms(2) by auto
  ultimately show ?thesis
    using assms s
    by (simp add: pool_holds_def free_ptr_def assert_that_def Let_def NonNull_new_def)
qed

section \<open>The pool interface\<close>

text \<open>
  What the users of a pool rely on (the physical memory manager for its entries, the
  slab allocators for their objects): an allocation takes a free object out and fails
  exactly when there is none, a release puts the object in front.
\<close>

primrec alloc_many :: "('s \<Rightarrow> ('e, 's \<times> 'a) outcome) \<Rightarrow> nat \<Rightarrow> 's \<Rightarrow> ('e, 's \<times> 'a list) outcome"
where
  "alloc_many al 0 s = Ok (s, [])"
| "alloc_many al (Suc k) s =
     obind (al s) (\<lambda>(s1, x). obind (alloc_many al k s1) (\<lambda>(s2, xs). Ok (s2, x # xs)))"

locale object_pool =
  fixes holds :: "'s \<Rightarrow> 'a list \<Rightarrow> bool"
    and fits :: "'s \<Rightarrow> 'a \<Rightarrow> bool"
    and alloc :: "'s \<Rightarrow> ('e, 's \<times> 'a) outcome"
    and release :: "'s \<Rightarrow> 'a \<Rightarrow> ('f, 's) outcome"
    and run_out :: 'e
    and capacity :: nat
  assumes alloc_ok: "holds s (x # xs) \<Longrightarrow> \<exists>s'. alloc s = Ok (s', x) \<and> holds s' xs"
    and alloc_fails: "holds s [] \<Longrightarrow> alloc s = Err run_out"
    and release_ok: "holds s xs \<Longrightarrow> x \<notin> set xs \<Longrightarrow> fits s x \<Longrightarrow> length xs < capacity
      \<Longrightarrow> \<exists>s'. release s x = Ok s' \<and> holds s' (x # xs)"
begin

lemma alloc_many_ok:
  "holds s (xs @ ys) \<Longrightarrow> \<exists>s'. alloc_many alloc (length xs) s = Ok (s', xs) \<and> holds s' ys"
proof (induction xs arbitrary: s)
  case Nil
  then show ?case by simp
next
  case (Cons x xs)
  then obtain s1 where "alloc s = Ok (s1, x)" and "holds s1 (xs @ ys)"
    using alloc_ok [of s x "xs @ ys"] by auto
  with Cons.IH [of s1] show ?case by auto
qed

lemma alloc_many_too_many:
  "holds s xs \<Longrightarrow> length xs < k \<Longrightarrow> alloc_many alloc k s = Err run_out"
proof (induction xs arbitrary: s k)
  case Nil
  then show ?case by (cases k) (auto simp: alloc_fails)
next
  case (Cons x xs)
  then obtain j s1 where "k = Suc j" and "alloc s = Ok (s1, x)" and "holds s1 xs"
    using alloc_ok [of s x xs] by (cases k) auto
  with Cons show ?case by auto
qed

lemma release_alloc:
  assumes "holds s xs" and "x \<notin> set xs" and "fits s x" and "length xs < capacity"
  shows "\<exists>s1 s2. release s x = Ok s1 \<and> alloc s1 = Ok (s2, x) \<and> holds s2 xs"
proof -
  from release_ok [OF assms] obtain s1 where "release s x = Ok s1" and "holds s1 (x # xs)" by blast
  with alloc_ok [of s1 x xs] show ?thesis by blast
qed

end

interpretation pool: object_pool pool_holds "\<lambda>s x. x + pool_offset (snd s) \<noteq> 0" alloc_ptr free_ptr
    "()" "2 ^ 64 - 1"
  using alloc_ptr_Cons alloc_ptr_Nil free_ptr_ok by unfold_locales (blast, simp, blast)

section \<open>Filling a pool\<close>

definition pool_objects :: "usize \<Rightarrow> usize \<Rightarrow> nat \<Rightarrow> usize list" where
  "pool_objects base sz k = map (\<lambda>i. base + of_nat i * sz) [0..<k]"

lemma pool_objects_Suc:
  "pool_objects base sz (Suc k) = base # pool_objects (base + sz) sz k"
proof -
  have "[0..<Suc k] = 0 # map Suc [0..<k]"
    by (simp only: upt_conv_Cons map_Suc_upt zero_less_Suc)
  then show ?thesis by (simp add: pool_objects_def algebra_simps del: upt_Suc)
qed

lemma unat_pool_object:
  fixes base sz :: usize
  assumes "unat base + k * unat sz \<le> 2 ^ 64" and "i < k" and "0 < unat sz"
  shows "unat (base + of_nat i * sz) = unat base + i * unat sz"
proof -
  have le: "i * unat sz < k * unat sz" using assms(2,3) by simp
  then have m: "i * unat sz < 2 ^ 64" and a: "unat base + i * unat sz < 2 ^ 64"
    using assms(1) by linarith+
  have "unat (of_nat i * sz) = i * unat sz"
  proof -
    have "of_nat i * sz = of_nat (i * unat sz)" by simp
    then show ?thesis using m by (simp only: unat_of_nat) simp
  qed
  with a show ?thesis by (simp add: unat_add_noovf)
qed

lemma distinct_pool_objects:
  assumes "unat base + k * unat sz \<le> 2 ^ 64" and "0 < unat sz"
  shows "distinct (pool_objects base sz k)"
proof -
  have "inj_on (\<lambda>i. base + of_nat i * sz) {0..<k}"
  proof (rule inj_onI)
    fix i j assume i: "i \<in> {0..<k}" and j: "j \<in> {0..<k}"
      and "base + of_nat i * sz = base + of_nat j * sz"
    then have "unat base + i * unat sz = unat base + j * unat sz"
      using unat_pool_object [OF assms(1)] assms(2) by (metis atLeastLessThan_iff)
    then show "i = j" using assms(2) by simp
  qed
  then show ?thesis by (simp add: pool_objects_def distinct_map)
qed

lemma pool_objects_elem:
  "x \<in> set (pool_objects base sz k) \<Longrightarrow> \<exists>i < k. x = base + of_nat i * sz"
  by (auto simp: pool_objects_def)

lemma pool_objects_inside:
  assumes "unat base + k * unat sz \<le> 2 ^ 64" and "0 < unat sz"
    and "x \<in> set (pool_objects base sz k)"
  shows "unat base \<le> unat x \<and> unat x + unat sz \<le> unat base + k * unat sz"
proof -
  from pool_objects_elem [OF assms(3)] obtain i where i: "i < k" "x = base + of_nat i * sz" by blast
  have "Suc i * unat sz \<le> k * unat sz" using i(1) by (intro mult_le_mono1) simp
  with unat_pool_object [OF assms(1) i(1) assms(2)] i(2) show ?thesis by simp
qed

lemma pool_objects_apart:
  assumes "unat base + k * unat sz \<le> 2 ^ 64" and "0 < unat sz"
    and "x \<in> set (pool_objects base sz k)" and "y \<in> set (pool_objects base sz k)" and "x \<noteq> y"
  shows "unat x + unat sz \<le> unat y \<or> unat y + unat sz \<le> unat x"
proof -
  from assms(3,4) pool_objects_elem obtain i j where
    i: "i < k" "x = base + of_nat i * sz" and j: "j < k" "y = base + of_nat j * sz" by meson
  with assms(5) have "Suc i \<le> j \<or> Suc j \<le> i" by (metis Suc_leI linorder_neqE_nat)
  then have "Suc i * unat sz \<le> j * unat sz \<or> Suc j * unat sz \<le> i * unat sz"
    using mult_le_mono1 by blast
  with unat_pool_object [OF assms(1) i(1) assms(2)] unat_pool_object [OF assms(1) j(1) assms(2)] i(2) j(2)
  show ?thesis by auto
qed

lemma add_pool_loop_ok:
  assumes "pool_holds s xs" and "distinct (pool_objects base (object_size (snd s)) k)"
    and "set (pool_objects base (object_size (snd s)) k) \<inter> set xs = {}"
    and "\<forall>x \<in> set (pool_objects base (object_size (snd s)) k). x + pool_offset (snd s) \<noteq> 0"
    and "length xs + k < 2 ^ 64"
  shows "\<exists>s'. (add_pool_loop k base s :: ('e, pool_state) outcome) = Ok s'
           \<and> pool_offset (snd s') = pool_offset (snd s)
           \<and> pool_holds s' (rev (pool_objects base (object_size (snd s)) k) @ xs)"
  using assms
proof (induction k arbitrary: base s xs)
  case 0
  then show ?case by (simp add: pool_objects_def)
next
  case (Suc k)
  let ?sz = "object_size (snd s)"
  from Suc.prems free_ptr_ok [of s xs base] obtain s1 where
    s1: "(free_ptr s base :: ('e, pool_state) outcome) = Ok s1" "pool_holds s1 (base # xs)"
    "object_size (snd s1) = ?sz" "pool_offset (snd s1) = pool_offset (snd s)"
    by (auto simp: pool_objects_Suc)
  have "\<exists>s'. (add_pool_loop k (base + ?sz) s1 :: ('e, pool_state) outcome) = Ok s'
      \<and> pool_offset (snd s') = pool_offset (snd s1)
      \<and> pool_holds s' (rev (pool_objects (base + ?sz) (object_size (snd s1)) k) @ base # xs)"
    by (rule Suc.IH) (use s1 Suc.prems in \<open>auto simp: pool_objects_Suc\<close>)
  with s1 show ?case by (simp add: pool_objects_Suc)
qed

lemma rest_less: "unat (x AND (align_of_FreeList - 1)) < 8"
  using unat_and_mask [of x 3] by (simp add: align_of_FreeList_def mask_eq_exp_minus_1)

lemma PoolAllocator_new_fits:
  assumes "size_check size_T align_T"
  defines "p \<equiv> PoolAllocator_new size_T align_T"
  shows "unat (pool_offset p) + 8 \<le> unat (object_size p)"
proof -
  define ob where "ob = (if size_T < align_T then align_T else size_T)"
  define r where "r = ob AND (align_of_FreeList - 1)"
  have r: "unat r < 8" unfolding r_def by (rule rest_less)
  have d: "unat (8 - r) = 8 - unat r" "unat (16 - r) = 16 - unat r"
    using r by (simp_all add: unat_sub_le word_le_nat_alt)
  have new: "object_size p = ob" "pool_offset p = (if r \<noteq> 0 then 8 - r else 0)"
    by (simp_all add: p_def PoolAllocator_new_def Let_def align_of_FreeList_def ob_def r_def)
  have "(if r \<noteq> 0 then 8 + (8 - r) else 8) \<le> ob"
    using assms(1) unfolding size_check_def Let_def ob_def [symmetric] r_def [symmetric]
    by (simp add: size_of_FreeList_def align_of_FreeList_def split: if_splits)
  then show ?thesis
    using new d r by (auto simp: word_le_nat_alt split: if_splits)
qed

text \<open>There are fewer objects than addresses.\<close>

lemma pool_count_bound:
  assumes "distinct xs" and "\<forall>a \<in> set xs. a + off \<noteq> (0 :: usize)"
  shows "length xs \<le> 2 ^ 64 - 1"
proof -
  have "card ((\<lambda>a. a + off) ` set xs) = length xs"
    using assms(1) by (simp add: card_image inj_on_def distinct_card)
  moreover have "card ((\<lambda>a. a + off) ` set xs) \<le> card (UNIV - {0 :: usize})"
    using assms(2) by (intro card_mono) auto
  moreover have "card (UNIV - {0 :: usize}) = 2 ^ 64 - 1"
    using card_word [where 'a = 64] by (simp add: card_Diff_singleton)
  ultimately show ?thesis by simp
qed

text \<open>One region adds its objects to a pool, the last one in front.\<close>

lemma add_pool_adds:
  fixes align_T base len :: usize and s0 :: pool_state
  defines "p \<equiv> snd s0"
  defines "k \<equiv> unat (len div object_size p)"
  assumes holds: "pool_holds s0 xs" and fits: "unat (pool_offset p) + 8 \<le> unat (object_size p)"
    and al: "base AND (align_T - 1) = 0" and base: "base \<noteq> 0"
    and len: "unat base + unat len \<le> 2 ^ 64" and old: "\<forall>x \<in> set xs. x + pool_offset p \<noteq> 0"
    and out: "\<forall>x \<in> set xs. \<not> (unat base \<le> unat x \<and> unat x < unat base + unat len)"
  shows "unat base + k * unat (object_size p) \<le> unat base + unat len
   \<and> (\<forall>x \<in> set (pool_objects base (object_size p) k). x + pool_offset p \<noteq> 0)
   \<and> (\<exists>s. (add_pool align_T s0 base len :: ('e, pool_state) outcome) = Ok s
         \<and> pool_offset (snd s) = pool_offset p
         \<and> pool_holds s (rev (pool_objects base (object_size p) k) @ xs))"
proof -
  from fits have pos: "0 < unat (object_size p)" by simp
  have "k = unat len div unat (object_size p)" by (simp add: k_def unat_div)
  then have kle: "k * unat (object_size p) \<le> unat len" by simp
  with len have room: "unat base + k * unat (object_size p) \<le> 2 ^ 64" by linarith
  have nonnull: "x + pool_offset p \<noteq> 0" if "x \<in> set (pool_objects base (object_size p) k)" for x
  proof -
    note ins = pool_objects_inside [OF room pos that]
    have "unat x + unat (pool_offset p) < 2 ^ 64" using ins fits room by linarith
    then have "unat (x + pool_offset p) = unat x + unat (pool_offset p)"
      by (simp add: unat_add_noovf)
    moreover have "0 < unat x" using ins base by (metis le_zero_eq not_gr_zero unat_eq_zero)
    ultimately show ?thesis by (metis add_gr_0 less_irrefl unat_0)
  qed
  have "x \<notin> set xs" if "x \<in> set (pool_objects base (object_size p) k)" for x
    using pool_objects_inside [OF room pos that] kle pos out by fastforce
  then have apart: "set (pool_objects base (object_size p) k) \<inter> set xs = {}" by blast
  have "distinct xs" using holds by (auto simp: pool_holds_def split: prod.splits)
  with apart have "distinct (pool_objects base (object_size p) k @ xs)"
    using distinct_pool_objects [OF room pos] by simp
  moreover have "\<forall>x \<in> set (pool_objects base (object_size p) k @ xs). x + pool_offset p \<noteq> 0"
    using nonnull old by auto
  ultimately have "length (pool_objects base (object_size p) k @ xs) \<le> 2 ^ 64 - 1" by (rule pool_count_bound)
  then have many: "length xs + k < 2 ^ 64" by (simp add: pool_objects_def)
  with apart have "\<exists>s. (add_pool_loop k base s0 :: ('e, pool_state) outcome) = Ok s
      \<and> pool_offset (snd s) = pool_offset p
      \<and> pool_holds s (rev (pool_objects base (object_size p) k) @ xs)"
    using add_pool_loop_ok [of s0 xs base k] holds many distinct_pool_objects [OF room pos] nonnull
    by (simp add: p_def)
  then show ?thesis
    using al pos kle nonnull by (simp add: add_pool_def Let_def k_def p_def unat_gt_0)
qed

text \<open>One region fills an empty pool.\<close>

lemma add_pool_fills:
  fixes align_T base len :: usize and s0 :: pool_state
  defines "p \<equiv> snd s0"
  defines "k \<equiv> unat (len div object_size p)"
  assumes empty: "pool_holds s0 []" and fits: "unat (pool_offset p) + 8 \<le> unat (object_size p)"
    and al: "base AND (align_T - 1) = 0" and base: "base \<noteq> 0"
    and len: "unat base + unat len \<le> 2 ^ 64"
  shows "unat base + k * unat (object_size p) \<le> unat base + unat len
   \<and> (\<exists>s. (add_pool align_T s0 base len :: ('e, pool_state) outcome) = Ok s
         \<and> pool_holds s (rev (pool_objects base (object_size p) k)))"
  using add_pool_adds [of s0 "[]" base align_T len, where 'e = 'e] assms by auto

section \<open>Properties\<close>

text \<open>
  Property C6. A pool filled with one aligned, non-null region serves exactly the
  objects of that region, each once: filling it panics nowhere, the next
  \<open>pool_size / object_size\<close> allocations succeed, the objects they return are pairwise
  different and are the addresses \<open>base + i * object_size\<close>, every object lies inside the
  region, no two objects overlap, and one more allocation is refused.
\<close>

theorem pool_serves_every_object:
  fixes size_T align_T base len :: usize
  defines "osz \<equiv> object_size (PoolAllocator_new size_T align_T)"
  assumes "size_check size_T align_T" and "base AND (align_T - 1) = 0"
    and "base \<noteq> 0" and len: "unat base + unat len \<le> 2 ^ 64"
  shows "\<exists>s s' objs.
     (add_pool align_T (fl, PoolAllocator_new size_T align_T) base len
        :: ('e, pool_state) outcome) = Ok s
   \<and> alloc_many alloc_ptr (unat (len div osz)) s = Ok (s', objs)
   \<and> length objs = unat (len div osz) \<and> distinct objs
   \<and> set objs = (\<lambda>i. base + of_nat i * osz) ` {..< unat (len div osz)}
   \<and> (\<forall>x \<in> set objs. unat base \<le> unat x \<and> unat x + unat osz \<le> unat base + unat len)
   \<and> (\<forall>x \<in> set objs. \<forall>y \<in> set objs. x \<noteq> y \<longrightarrow>
        unat x + unat osz \<le> unat y \<or> unat y + unat osz \<le> unat x)
   \<and> alloc_many alloc_ptr (Suc (unat (len div osz))) s = Err ()"
proof -
  define k where "k = unat (len div osz)"
  define objs where "objs = rev (pool_objects base osz k)"
  have fits: "unat (pool_offset (snd (fl, PoolAllocator_new size_T align_T))) + 8 \<le>
      unat (object_size (snd (fl, PoolAllocator_new size_T align_T)))"
    using PoolAllocator_new_fits [OF assms(2)] by simp
  then have pos: "0 < unat osz" by (simp add: osz_def)
  from add_pool_fills [OF pool_holds_new fits assms(3-5)] obtain s where
    s: "(add_pool align_T (fl, PoolAllocator_new size_T align_T) base len
          :: ('e, pool_state) outcome) = Ok s" "pool_holds s objs"
    and k: "unat base + k * unat osz \<le> unat base + unat len"
    unfolding osz_def k_def objs_def by auto
  have room: "unat base + k * unat osz \<le> 2 ^ 64" using k len by linarith
  have n: "length objs = k" by (simp add: objs_def pool_objects_def)
  have once: "distinct objs" using distinct_pool_objects [OF room pos] by (simp add: objs_def)
  have all: "set objs = (\<lambda>i. base + of_nat i * osz) ` {..< k}"
    by (simp add: objs_def pool_objects_def lessThan_atLeast0)
  obtain s' where "alloc_many alloc_ptr k s = Ok (s', objs)"
    using pool.alloc_many_ok [of s objs "[]"] s(2) n by auto
  moreover have "alloc_many alloc_ptr (Suc k) s = Err ()"
    using pool.alloc_many_too_many [OF s(2)] n by (simp del: alloc_many.simps)
  moreover have "\<forall>x \<in> set objs. unat base \<le> unat x \<and> unat x + unat osz \<le> unat base + unat len"
    using pool_objects_inside [OF room pos] k by (fastforce simp: objs_def)
  moreover have "\<forall>x \<in> set objs. \<forall>y \<in> set objs. x \<noteq> y \<longrightarrow>
      unat x + unat osz \<le> unat y \<or> unat y + unat osz \<le> unat x"
    using pool_objects_apart [OF room pos] by (simp add: objs_def)
  ultimately show ?thesis
    using s(1) n once all unfolding k_def [symmetric] by blast
qed

theorem pool_serves_every_object_witness:
  "\<exists>s s' objs.
     (add_pool 8 (\<lambda>_. None, PoolAllocator_new 56 8) 0x1000 0x100 :: (unit, pool_state) outcome) = Ok s
   \<and> alloc_many alloc_ptr 4 s = Ok (s', objs) \<and> length objs = 4 \<and> distinct objs
   \<and> alloc_many alloc_ptr 5 s = Err ()"
proof -
  have "object_size (PoolAllocator_new 56 8) = 56"
    by (simp add: PoolAllocator_new_def Let_def)
  then have "unat (0x100 div object_size (PoolAllocator_new 56 8)) = 4" by simp
  moreover have "size_check 56 8"
    by (simp add: size_check_def Let_def size_of_FreeList_def align_of_FreeList_def)
  ultimately show ?thesis
    using pool_serves_every_object [where 'e = unit, of 56 8 "0x1000" "0x100" "\<lambda>_. None"]
    by (simp del: alloc_many.simps) blast
qed

text \<open>
  Remark. The pool is last-in first-out, as its comment promises for the sake of the
  cache: an object that is released is the next one allocated, and the pool is then as
  it was.
\<close>

theorem pool_is_filo:
  assumes "pool_holds s xs" and "x \<notin> set xs" and "x + pool_offset (snd s) \<noteq> 0"
    and "length xs < 2 ^ 64 - 1"
  shows "\<exists>s1 s2. (free_ptr s x :: ('e, pool_state) outcome) = Ok s1
    \<and> alloc_ptr s1 = Ok (s2, x) \<and> pool_holds s2 xs"
  using assms by (rule pool.release_alloc)

theorem pool_is_filo_witness:
  "\<exists>s1 s2. (free_ptr (\<lambda>_. None, PoolAllocator_new 64 8) 0x2000 :: (unit, pool_state) outcome) = Ok s1
    \<and> alloc_ptr s1 = Ok (s2, 0x2000) \<and> pool_holds s2 []"
  using pool_is_filo [where 'e = unit, of "(\<lambda>_. None, PoolAllocator_new 64 8)" "[]" "0x2000"]
    pool_holds_new [of "\<lambda>_. None" 64 8]
  by (simp add: PoolAllocator_new_def Let_def align_of_FreeList_def)

end
