(* ===== verification/Slab_Allocator.thy ===== *)
theory Slab_Allocator
  imports Pool_Allocator
begin

text \<open>
  The growing object allocators of \<open>memory_manager/slab_allocator.rs\<close> and the
  size-class front end of \<open>memory_manager/memory_allocator.rs\<close>. The page allocator of
  the virtual memory manager is the parameter \<open>alloc_pages\<close>: it takes the state of the
  rest of the kernel and returns it with the address of \<open>2 ^ order\<close> fresh pages or an
  error. Locks and interrupt flags do not appear: every operation runs inside one.
\<close>

section \<open>Errors and the page allocator\<close>

datatype PagingError =
  MemoryCacheRanOut | MemoryCacheOverflowed | EntryIsNotFound | AddressIsNotAligned
| AddressIsNotCanonical | SizeIsNotAligned

datatype MemoryError =
  NotAligned | InvalidSize | InvalidAddress | AllocAddressFailed | FreeAddressFailed
| AddressNotAvailable | MapAddressFailed | InternalError | EntryPoolRunOut | MemoryPagingError PagingError

type_synonym 'w page_allocator =
  "'w \<Rightarrow> MPageOrder \<Rightarrow> MemoryPermissionFlags \<Rightarrow> 'w \<times> (MemoryError + VAddress)"

section \<open>The slab allocator\<close>

definition DEFAULT_ALLOC_ORDER :: MPageOrder where "DEFAULT_ALLOC_ORDER = 2"

definition SlabAllocator_new :: "usize \<Rightarrow> usize \<Rightarrow> PoolAllocator" where
  "SlabAllocator_new size_T align_T = PoolAllocator_new size_T align_T"

definition grow_pool ::
  "'w page_allocator \<Rightarrow> usize \<Rightarrow> 'w \<Rightarrow> pool_state \<Rightarrow> 'w \<times> (MemoryError, pool_state) outcome" where
  "grow_pool alloc_pages align_T w s =
     (case alloc_pages w DEFAULT_ALLOC_ORDER data of
        (w', Inl e) \<Rightarrow> (w', Err e)
      | (w', Inr page) \<Rightarrow>
          (w', add_pool align_T s page (MPageOrder_to_offset DEFAULT_ALLOC_ORDER)))"

definition slab_init ::
  "'w page_allocator \<Rightarrow> usize \<Rightarrow> 'w \<Rightarrow> pool_state \<Rightarrow> 'w \<times> (MemoryError, pool_state) outcome" where
  "slab_init alloc_pages align_T w s = grow_pool alloc_pages align_T w s"

text \<open>
  \<open>alloc\<close> grows an empty pool and calls itself again. Nothing in the code bounds the
  number of rounds, so the result is an option: \<^const>\<open>None\<close> is not returning.
\<close>

partial_function (option) slab_alloc ::
  "'w page_allocator \<Rightarrow> usize \<Rightarrow> 'w \<Rightarrow> pool_state
     \<Rightarrow> ('w \<times> (MemoryError, pool_state \<times> usize) outcome) option" where
  "slab_alloc alloc_pages align_T w s =
     (case alloc_ptr s of
        Ok r \<Rightarrow> Some (w, Ok r)
      | Panic \<Rightarrow> Some (w, Panic)
      | Diverge \<Rightarrow> Some (w, Diverge)
      | Err _ \<Rightarrow>
          (case grow_pool alloc_pages align_T w s of
             (w', Ok s') \<Rightarrow> slab_alloc alloc_pages align_T w' s'
           | (w', Err e) \<Rightarrow> Some (w', Err e)
           | (w', Panic) \<Rightarrow> Some (w', Panic)
           | (w', Diverge) \<Rightarrow> Some (w', Diverge)))"

definition slab_free :: "pool_state \<Rightarrow> usize \<Rightarrow> (MemoryError, pool_state) outcome" where
  "slab_free s entry = free_ptr s entry"

definition slab_len :: "pool_state \<Rightarrow> usize" where
  "slab_len s = get_count (snd s)"

section \<open>The size-class allocator\<close>

record SizeAllocator =
  size_64 :: pool_state
  size_128 :: pool_state
  size_256 :: pool_state
  size_512 :: pool_state
  size_1024 :: pool_state
  size_2048 :: pool_state
  size_4096 :: pool_state

definition MAX_SIZE :: MSize where "MAX_SIZE = 4096"

definition SizeAllocator_new :: "(usize \<Rightarrow> free_store) \<Rightarrow> SizeAllocator" where
  "SizeAllocator_new fl =
     \<lparr>size_64 = (fl 64, SlabAllocator_new 64 1), size_128 = (fl 128, SlabAllocator_new 128 1),
      size_256 = (fl 256, SlabAllocator_new 256 1), size_512 = (fl 512, SlabAllocator_new 512 1),
      size_1024 = (fl 1024, SlabAllocator_new 1024 1),
      size_2048 = (fl 2048, SlabAllocator_new 2048 1),
      size_4096 = (fl 4096, SlabAllocator_new 4096 1)\<rparr>"

text \<open>One \<open>self.size_N.alloc()\<close>: the slab's result with the slab put back.\<close>

definition put_back ::
  "(pool_state \<Rightarrow> SizeAllocator) \<Rightarrow> ('w \<times> (MemoryError, pool_state \<times> usize) outcome) option
     \<Rightarrow> ('w \<times> (MemoryError, SizeAllocator \<times> VAddress) outcome) option" where
  "put_back put r =
     map_option (\<lambda>(w, res). (w, obind res (\<lambda>(s, a). Ok (put s, a)))) r"

definition SizeAllocator_alloc ::
  "'w page_allocator \<Rightarrow> 'w \<Rightarrow> SizeAllocator \<Rightarrow> MSize
     \<Rightarrow> ('w \<times> (MemoryError, SizeAllocator \<times> VAddress) outcome) option" where
  "SizeAllocator_alloc alloc_pages w a sz =
     (if sz \<le> 64 then
        put_back (\<lambda>s. a\<lparr>size_64 := s\<rparr>) (slab_alloc alloc_pages 1 w (size_64 a))
      else if sz \<le> 128 then
        put_back (\<lambda>s. a\<lparr>size_128 := s\<rparr>) (slab_alloc alloc_pages 1 w (size_128 a))
      else if sz \<le> 256 then
        put_back (\<lambda>s. a\<lparr>size_256 := s\<rparr>) (slab_alloc alloc_pages 1 w (size_256 a))
      else if sz \<le> 512 then
        put_back (\<lambda>s. a\<lparr>size_512 := s\<rparr>) (slab_alloc alloc_pages 1 w (size_512 a))
      else if sz \<le> 1024 then
        put_back (\<lambda>s. a\<lparr>size_1024 := s\<rparr>) (slab_alloc alloc_pages 1 w (size_1024 a))
      else if sz \<le> 2048 then
        put_back (\<lambda>s. a\<lparr>size_2048 := s\<rparr>) (slab_alloc alloc_pages 1 w (size_2048 a))
      else if sz \<le> 4096 then
        put_back (\<lambda>s. a\<lparr>size_4096 := s\<rparr>) (slab_alloc alloc_pages 1 w (size_4096 a))
      else Some (w, Err InvalidSize))"

definition SizeAllocator_dealloc ::
  "SizeAllocator \<Rightarrow> VAddress \<Rightarrow> MSize \<Rightarrow> (MemoryError, SizeAllocator) outcome" where
  "SizeAllocator_dealloc a address sz =
     (if sz \<le> 64 then
        obind (slab_free (size_64 a) address) (\<lambda>s. Ok (a\<lparr>size_64 := s\<rparr>))
      else if sz \<le> 128 then
        obind (slab_free (size_128 a) address) (\<lambda>s. Ok (a\<lparr>size_128 := s\<rparr>))
      else if sz \<le> 256 then
        obind (slab_free (size_256 a) address) (\<lambda>s. Ok (a\<lparr>size_256 := s\<rparr>))
      else if sz \<le> 512 then
        obind (slab_free (size_512 a) address) (\<lambda>s. Ok (a\<lparr>size_512 := s\<rparr>))
      else if sz \<le> 1024 then
        obind (slab_free (size_1024 a) address) (\<lambda>s. Ok (a\<lparr>size_1024 := s\<rparr>))
      else if sz \<le> 2048 then
        obind (slab_free (size_2048 a) address) (\<lambda>s. Ok (a\<lparr>size_2048 := s\<rparr>))
      else if sz \<le> 4096 then
        obind (slab_free (size_4096 a) address) (\<lambda>s. Ok (a\<lparr>size_4096 := s\<rparr>))
      else Ok a)"

section \<open>The memory allocator\<close>

definition kmalloc ::
  "'w page_allocator \<Rightarrow> 'w \<Rightarrow> SizeAllocator \<Rightarrow> MSize
     \<Rightarrow> ('w \<times> (MemoryError, SizeAllocator \<times> VAddress) outcome) option" where
  "kmalloc alloc_pages w a sz =
     (if is_zero sz then Some (w, Err InvalidSize)
      else if MAX_SIZE < sz then
        let page_aligned_size = ((sz - 1) AND PAGE_MASK) + PAGE_SIZE
        in case alloc_pages w (to_page_order (MSize_to_order page_aligned_size None)) data of
             (w', Inl e) \<Rightarrow> Some (w', Err e)
           | (w', Inr address) \<Rightarrow> Some (w', Ok (a, address))
      else SizeAllocator_alloc alloc_pages w a sz)"

definition kfree ::
  "('w \<Rightarrow> VAddress \<Rightarrow> 'w \<times> MemoryError option) \<Rightarrow> 'w \<Rightarrow> SizeAllocator \<Rightarrow> VAddress \<Rightarrow> MSize
     \<Rightarrow> 'w \<times> (MemoryError, SizeAllocator) outcome" where
  "kfree free_pages w a address sz =
     (if is_zero sz then (w, Err InvalidSize)
      else if MAX_SIZE < sz then
        (case free_pages w address of
           (w', None) \<Rightarrow> (w', Ok a)
         | (w', Some e) \<Rightarrow> (w', Err e))
      else (w, SizeAllocator_dealloc a address sz))"

definition vmalloc ::
  "('w \<Rightarrow> MSize \<Rightarrow> MemoryPermissionFlags \<Rightarrow> 'w \<times> (MemoryError + VAddress)) \<Rightarrow> 'w \<Rightarrow> MSize
     \<Rightarrow> 'w \<times> (MemoryError + VAddress)" where
  "vmalloc alloc_nonlinear_pages w sz =
     (if is_zero sz then (w, Inl InvalidSize)
      else alloc_nonlinear_pages w (((sz - 1) AND PAGE_MASK) + PAGE_SIZE) data)"

section \<open>Slabs always answer\<close>

text \<open>
  What the page allocator promises of the pages it returns: they are not at address
  zero, they are aligned to a page, and they lie inside the address space.
\<close>

definition pages_ok :: "'w page_allocator \<Rightarrow> bool" where
  "pages_ok alloc_pages \<longleftrightarrow>
     (\<forall>w w' a. alloc_pages w DEFAULT_ALLOC_ORDER data = (w', Inr a) \<longrightarrow>
        a \<noteq> 0 \<and> unat a mod 4096 = 0 \<and> unat a + 16384 \<le> 2 ^ 64)"

definition slab_wf :: "usize \<Rightarrow> pool_state \<Rightarrow> bool" where
  "slab_wf align_T s \<longleftrightarrow>
     (\<exists>xs. pool_holds s xs) \<and> unat (pool_offset (snd s)) + 8 \<le> unat (object_size (snd s)) \<and>
     unat (object_size (snd s)) \<le> 16384 \<and> (\<exists>n \<le> 12. align_T = 2 ^ n)"

definition same_layout :: "pool_state \<Rightarrow> pool_state \<Rightarrow> bool" where
  "same_layout s s' \<longleftrightarrow> object_size (snd s') = object_size (snd s) \<and>
     pool_offset (snd s') = pool_offset (snd s)"

lemma unat_default_size: "unat (MPageOrder_to_offset DEFAULT_ALLOC_ORDER) = 16384"
  by (simp add: MPageOrder_to_offset_def MOrder_to_offset_def MPageOrder_to_order_def
      DEFAULT_ALLOC_ORDER_def PAGE_SHIFT_def shl_usize_def)

lemma page_aligned_to:
  assumes "unat a mod 4096 = 0" and "n \<le> 12"
  shows "a AND (2 ^ n - 1) = (0 :: usize)"
proof -
  have "(2::nat) ^ n dvd 4096" using assms(2) le_imp_power_dvd [of n 12 "2::nat"] by simp
  with assms(1) have "unat a mod 2 ^ n = 0" by (meson dvd_trans mod_0_imp_dvd dvd_imp_mod_0)
  then show ?thesis
    using unat_and_mask [of a n] by (simp add: mask_eq_exp_minus_1 unat_eq_zero)
qed

lemma pool_holds_Cons_facts:
  "pool_holds s (x # xs) \<Longrightarrow> x \<notin> set xs \<and> x + pool_offset (snd s) \<noteq> 0 \<and> length xs < 2 ^ 64 - 1"
proof -
  assume h: "pool_holds s (x # xs)"
  then have "unat (linked_count (snd s)) = Suc (length xs)"
    by (auto simp: pool_holds_def split: prod.splits)
  moreover have "unat (linked_count (snd s)) < 18446744073709551616" by simp
  ultimately show ?thesis using h by (auto simp: pool_holds_def split: prod.splits)
qed

lemma add_pool_loop_layout:
  "add_pool_loop k base s = Ok s' \<Longrightarrow> same_layout s s'"
proof (induction k arbitrary: base s)
  case 0
  then show ?case by (simp add: same_layout_def)
next
  case (Suc k)
  then obtain s1 where "(free_ptr s base :: ('a, pool_state) outcome) = Ok s1" and "same_layout s1 s'"
    by (auto simp: obind_eq_Ok_iff)
  moreover from this(1) have "same_layout s s1"
    by (auto simp: free_ptr_def same_layout_def Let_def obind_eq_Ok_iff split: prod.splits)
  ultimately show ?case by (simp add: same_layout_def)
qed

lemma grow_pool_ok:
  assumes ok: "pages_ok ap" and wf: "slab_wf align_T s" and empty: "pool_holds s []"
  shows "(\<exists>w' e. ap w DEFAULT_ALLOC_ORDER data = (w', Inl e) \<and> grow_pool ap align_T w s = (w', Err e))
    \<or> (\<exists>w' s' x xs. grow_pool ap align_T w s = (w', Ok s') \<and> pool_holds s' (x # xs) \<and> same_layout s s')"
proof (cases "ap w DEFAULT_ALLOC_ORDER data")
  case (Pair w' r)
  show ?thesis
  proof (cases r)
    case (Inl e)
    with Pair show ?thesis by (simp add: grow_pool_def)
  next
    case (Inr a)
    with Pair ok have a: "a \<noteq> 0" "unat a mod 4096 = 0" "unat a + 16384 \<le> 2 ^ 64"
      by (auto simp: pages_ok_def)
    from wf obtain n where n: "n \<le> 12" "align_T = 2 ^ n"
      and fits: "unat (pool_offset (snd s)) + 8 \<le> unat (object_size (snd s))"
      and small: "unat (object_size (snd s)) \<le> 16384" by (auto simp: slab_wf_def)
    let ?len = "MPageOrder_to_offset DEFAULT_ALLOC_ORDER"
    let ?k = "unat (?len div object_size (snd s))"
    from page_aligned_to [OF a(2) n(1)] n(2) have al: "a AND (align_T - 1) = 0" by simp
    from add_pool_fills [OF empty fits al a(1), of ?len] a(3) obtain s' where
      s': "(add_pool align_T s a ?len :: (MemoryError, pool_state) outcome) = Ok s'"
      "pool_holds s' (rev (pool_objects a (object_size (snd s)) ?k))"
      by (auto simp: unat_default_size)
    have "0 < ?k" using fits small by (simp add: unat_div unat_default_size div_greater_zero_iff)
    then obtain x xs where "rev (pool_objects a (object_size (snd s)) ?k) = x # xs"
      by (cases "rev (pool_objects a (object_size (snd s)) ?k)") (auto simp: pool_objects_def)
    moreover have "same_layout s s'"
      using s'(1) by (auto simp: add_pool_def Let_def split: if_splits dest: add_pool_loop_layout)
    ultimately show ?thesis
      using s' Pair Inr by (auto simp: grow_pool_def)
  qed
qed

lemma slab_alloc_Cons:
  assumes "pool_holds s (x # xs)"
  shows "\<exists>s'. slab_alloc ap align_T w s = Some (w, Ok (s', x)) \<and> pool_holds s' xs \<and> same_layout s s'"
  using alloc_ptr_Cons [OF assms] by (auto simp: slab_alloc.simps same_layout_def)

lemma slab_alloc_spec:
  assumes "pages_ok ap" and "slab_wf align_T s"
  shows "(\<exists>w' e. ap w DEFAULT_ALLOC_ORDER data = (w', Inl e)
            \<and> slab_alloc ap align_T w s = Some (w', Err e))
    \<or> (\<exists>w' s' x xs. slab_alloc ap align_T w s = Some (w', Ok (s', x)) \<and> pool_holds s' xs
         \<and> x \<notin> set xs \<and> x + pool_offset (snd s') \<noteq> 0 \<and> length xs < 2 ^ 64 - 1 \<and> same_layout s s')"
proof -
  from assms(2) obtain ys where ys: "pool_holds s ys" by (auto simp: slab_wf_def)
  show ?thesis
  proof (cases ys)
    case (Cons x xs)
    with ys slab_alloc_Cons [of s x xs] pool_holds_Cons_facts [of s x xs] show ?thesis
      by (fastforce simp: same_layout_def)
  next
    case Nil
    with ys have e: "pool_holds s []" by simp
    note step = slab_alloc.simps [of ap align_T w s] alloc_ptr_Nil [OF e]
    from grow_pool_ok [OF assms e, of w] show ?thesis
    proof (elim disjE exE conjE)
      fix w' s' x xs
      assume g: "grow_pool ap align_T w s = (w', Ok s')" "pool_holds s' (x # xs)" "same_layout s s'"
      from slab_alloc_Cons [OF g(2), of ap align_T w'] pool_holds_Cons_facts [OF g(2)] g step
      show ?thesis by (fastforce simp: same_layout_def)
    qed (use step in auto)
  qed
qed

section \<open>Size classes\<close>

definition class_pool :: "MSize \<Rightarrow> SizeAllocator \<Rightarrow> pool_state" where
  "class_pool sz a =
     (if sz \<le> 64 then size_64 a else if sz \<le> 128 then size_128 a
      else if sz \<le> 256 then size_256 a else if sz \<le> 512 then size_512 a
      else if sz \<le> 1024 then size_1024 a else if sz \<le> 2048 then size_2048 a else size_4096 a)"

definition class_put :: "MSize \<Rightarrow> SizeAllocator \<Rightarrow> pool_state \<Rightarrow> SizeAllocator" where
  "class_put sz a =
     (if sz \<le> 64 then (\<lambda>s. a\<lparr>size_64 := s\<rparr>) else if sz \<le> 128 then (\<lambda>s. a\<lparr>size_128 := s\<rparr>)
      else if sz \<le> 256 then (\<lambda>s. a\<lparr>size_256 := s\<rparr>)
      else if sz \<le> 512 then (\<lambda>s. a\<lparr>size_512 := s\<rparr>)
      else if sz \<le> 1024 then (\<lambda>s. a\<lparr>size_1024 := s\<rparr>)
      else if sz \<le> 2048 then (\<lambda>s. a\<lparr>size_2048 := s\<rparr>) else (\<lambda>s. a\<lparr>size_4096 := s\<rparr>))"

lemma class_pool_put [simp]:
  "class_pool sz (class_put sz a s) = s"
  "class_put sz (class_put sz a s) s' = class_put sz a s'"
  by (simp_all add: class_pool_def class_put_def)

lemma SizeAllocator_alloc_class:
  "sz \<le> 4096 \<Longrightarrow>
     SizeAllocator_alloc ap w a sz = put_back (class_put sz a) (slab_alloc ap 1 w (class_pool sz a))"
  by (simp add: SizeAllocator_alloc_def class_put_def class_pool_def)

lemma SizeAllocator_dealloc_class:
  "sz \<le> 4096 \<Longrightarrow> SizeAllocator_dealloc a x sz
     = obind (slab_free (class_pool sz a) x) (\<lambda>s. Ok (class_put sz a s))"
  by (simp add: SizeAllocator_dealloc_def class_put_def class_pool_def)

definition size_class_ok :: "usize \<Rightarrow> pool_state \<Rightarrow> bool" where
  "size_class_ok n s \<longleftrightarrow> (\<exists>xs. pool_holds s xs) \<and> object_size (snd s) = n \<and> pool_offset (snd s) = 0"

definition size_wf :: "SizeAllocator \<Rightarrow> bool" where
  "size_wf a \<longleftrightarrow> size_class_ok 64 (size_64 a) \<and> size_class_ok 128 (size_128 a) \<and>
     size_class_ok 256 (size_256 a) \<and> size_class_ok 512 (size_512 a) \<and>
     size_class_ok 1024 (size_1024 a) \<and> size_class_ok 2048 (size_2048 a) \<and>
     size_class_ok 4096 (size_4096 a)"

lemma size_class_ok_new:
  "n AND 7 = 0 \<Longrightarrow> 1 \<le> n \<Longrightarrow> size_class_ok n (fl, SlabAllocator_new n 1)"
  using pool_holds_new [of fl n 1]
  by (auto simp: size_class_ok_def SlabAllocator_new_def PoolAllocator_new_def Let_def
      align_of_FreeList_def)

lemma size_wf_new: "size_wf (SizeAllocator_new fl)"
  by (simp add: size_wf_def SizeAllocator_new_def size_class_ok_new)

lemma class_pool_ok:
  assumes "size_wf a" and "sz \<le> 4096"
  shows "\<exists>n. size_class_ok n (class_pool sz a) \<and> sz \<le> n \<and> 64 \<le> n \<and> n \<le> 4096"
  using assms by (auto simp: size_wf_def class_pool_def)

lemma class_put_wf:
  assumes "size_wf a" and "size_class_ok (object_size (snd (class_pool sz a))) s"
  shows "size_wf (class_put sz a s)"
  using assms by (auto simp: size_wf_def class_put_def class_pool_def size_class_ok_def split: if_splits)

lemma size_class_slab_wf:
  "size_class_ok n s \<Longrightarrow> 64 \<le> n \<Longrightarrow> n \<le> 4096 \<Longrightarrow> slab_wf 1 s"
  by (auto simp: size_class_ok_def slab_wf_def word_le_nat_alt intro: exI [of _ 0])

lemma kmalloc_class:
  "0 < sz \<Longrightarrow> sz \<le> 4096 \<Longrightarrow>
     kmalloc ap w a sz = put_back (class_put sz a) (slab_alloc ap 1 w (class_pool sz a))"
  by (auto simp: kmalloc_def is_zero_def MAX_SIZE_def SizeAllocator_alloc_class)

lemma kmalloc_small_spec:
  assumes "size_wf a" and "pages_ok ap" and "0 < sz" and "sz \<le> 4096"
  shows "(\<exists>w' e. kmalloc ap w a sz = Some (w', Err e)
            \<and> ap w DEFAULT_ALLOC_ORDER data = (w', Inl e))
    \<or> (\<exists>w' s' x xs. kmalloc ap w a sz = Some (w', Ok (class_put sz a s', x)) \<and> pool_holds s' xs
         \<and> x \<notin> set xs \<and> x + pool_offset (snd s') \<noteq> 0 \<and> length xs < 2 ^ 64 - 1
         \<and> same_layout (class_pool sz a) s')"
proof -
  from class_pool_ok [OF assms(1,4)] obtain n where
    n: "size_class_ok n (class_pool sz a)" "64 \<le> n" "n \<le> 4096" by blast
  note eq = kmalloc_class [OF assms(3,4), of ap w a]
  from slab_alloc_spec [OF assms(2) size_class_slab_wf [OF n], of w] show ?thesis
  proof (elim disjE exE conjE, goal_cases)
    case (1 w' e)
    with eq show ?case by (simp add: put_back_def)
  next
    case (2 w' s' x xs)
    with eq have "kmalloc ap w a sz = Some (w', Ok (class_put sz a s', x))"
      by (simp add: put_back_def)
    with 2 show ?case by blast
  qed
qed

section \<open>Properties\<close>

text \<open>
  Property C7. \<open>SlabAllocator::alloc\<close> always returns, although it calls itself after
  growing the pool: for objects of at most four pages and a page allocator that keeps its
  promises it gives an object that was free, or passes on the error of the page
  allocator; it neither panics nor recurses for ever, and the remaining pool is well formed.
\<close>

theorem slab_alloc_returns:
  assumes "pages_ok ap" and "slab_wf align_T s"
  shows "\<exists>w' r. slab_alloc ap align_T w s = Some (w', r) \<and> r \<noteq> Panic \<and> r \<noteq> Diverge
    \<and> (\<forall>e. r = Err e \<longrightarrow> ap w DEFAULT_ALLOC_ORDER data = (w', Inl e))
    \<and> (\<forall>s' x. r = Ok (s', x) \<longrightarrow> slab_wf align_T s' \<and> (\<exists>xs. pool_holds s' xs \<and> x \<notin> set xs))"
  using slab_alloc_spec [OF assms, of w] assms(2)
  by (elim disjE exE conjE) (auto simp: slab_wf_def same_layout_def)

text \<open>A page allocator with one set of pages to give, for the witnesses.\<close>

definition one_page_set :: "bool page_allocator" where
  "one_page_set w pg perm = (if w then (False, Inr 0x10000) else (False, Inl AddressNotAvailable))"

lemma one_page_set_ok: "pages_ok one_page_set"
  by (simp add: pages_ok_def one_page_set_def)

theorem slab_alloc_returns_witness:
  "\<exists>w' r. slab_alloc one_page_set 1 True (\<lambda>_. None, SlabAllocator_new 64 1) = Some (w', r)
     \<and> r \<noteq> Panic \<and> (\<forall>e. r \<noteq> Err e)"
proof -
  have "slab_wf 1 (\<lambda>_. None, SlabAllocator_new 64 1)"
    by (rule size_class_slab_wf [of 64]) (simp_all add: size_class_ok_new)
  from slab_alloc_returns [OF one_page_set_ok this, of True] show ?thesis
    by (auto simp: one_page_set_def)
qed

text \<open>
  Remark. Size classes are used consistently: a small block that \<open>kmalloc\<close> returned
  and that is given back with the size it was asked for goes to the class it came from
  (an object at least as large as the request), so the next request of that size is served
  with it, without a page allocation; the allocator stays well formed throughout.
\<close>

theorem kmalloc_kfree_same_class:
  assumes "size_wf a" and "pages_ok ap" and "0 < sz" and "sz \<le> 4096"
    and "kmalloc ap w a sz = Some (w', Ok (a', x))"
  shows "size_wf a' \<and> sz \<le> object_size (snd (class_pool sz a'))
    \<and> (\<exists>a'' a3. kfree fp w' a' x sz = (w', Ok a'') \<and> size_wf a''
         \<and> kmalloc ap w' a'' sz = Some (w', Ok (a3, x)))"
proof -
  from kmalloc_small_spec [OF assms(1-4), of w] assms(5) obtain s' xs where
    a': "a' = class_put sz a s'" and s': "pool_holds s' xs" "x \<notin> set xs"
    "x + pool_offset (snd s') \<noteq> 0" "length xs < 2 ^ 64 - 1" and lay: "same_layout (class_pool sz a) s'"
    by auto
  from class_pool_ok [OF assms(1,4)] obtain n where
    n: "size_class_ok n (class_pool sz a)" "sz \<le> n" by blast
  with lay s'(1) have n': "size_class_ok n s'" by (auto simp: size_class_ok_def same_layout_def)
  from free_ptr_ok [OF s'(1-4), where 'e = MemoryError] obtain s2 where
    s2: "free_ptr s' x = (Ok s2 :: (MemoryError, pool_state) outcome)" "pool_holds s2 (x # xs)"
    "same_layout s' s2" by (auto simp: same_layout_def)
  with n' have n2: "size_class_ok n s2" by (auto simp: size_class_ok_def same_layout_def)
  have "kfree fp w' a' x sz = (w', Ok (class_put sz a s2))"
    using assms(3,4) s2(1) a'
    by (auto simp: kfree_def is_zero_def MAX_SIZE_def SizeAllocator_dealloc_class slab_free_def)
  moreover obtain a3 where "kmalloc ap w' (class_put sz a s2) sz = Some (w', Ok (a3, x))"
    using slab_alloc_Cons [OF s2(2), of ap 1 w'] kmalloc_class [OF assms(3,4), of ap w' "class_put sz a s2"]
    by (auto simp: put_back_def)
  moreover have "size_wf (class_put sz a s2)" "size_wf a'"
    using class_put_wf [OF assms(1)] n n' n2 a' by (auto simp: size_class_ok_def)
  ultimately show ?thesis using n n' a' by (auto simp: size_class_ok_def)
qed

theorem kmalloc_kfree_same_class_witness:
  "\<exists>w' a' x a'' a3. kmalloc one_page_set True (SizeAllocator_new (\<lambda>_ _. None)) 100 = Some (w', Ok (a', x))
     \<and> kfree (\<lambda>w _. (w, None)) w' a' x 100 = (w', Ok a'')
     \<and> kmalloc one_page_set w' a'' 100 = Some (w', Ok (a3, x))"
proof -
  let ?a = "SizeAllocator_new (\<lambda>_ _. None)"
  have "(0 :: MSize) < 100" "(100 :: MSize) \<le> 4096" by simp_all
  note pre = size_wf_new [of "\<lambda>_ _. None"] one_page_set_ok this
  obtain w' a' x where k: "kmalloc one_page_set True ?a 100 = Some (w', Ok (a', x))"
    using kmalloc_small_spec [OF pre, of True]
    by (elim disjE exE conjE) (simp add: one_page_set_def, blast)
  with kmalloc_kfree_same_class [OF pre k, of "\<lambda>w _. (w, None)"] show ?thesis by blast
qed

end
