(* ===== verification/Physical_Memory.thy ===== *)
theory Physical_Memory
  imports Slab_Allocator
begin

text \<open>
  The physical memory manager of \<open>memory_manager/physical_memory_manager.rs\<close>: the
  \<open>MemoryEntry\<close> structures in an explicit store, the address-ordered list that links
  them, the twelve size-ordered free lists, and the operations that take free memory
  away and give it back. Loops that follow pointers, and the recursion of
  \<open>define_free_memory\<close>, are given \<open>n\<close> rounds. The lock does not appear: every public
  operation runs under it.
\<close>

section \<open>Entries and the manager\<close>

record MemoryEntry =
  me_previous :: "usize option"
  me_next :: "usize option"
  list_prev :: "usize option"
  list_next :: "usize option"
  me_start :: PAddress
  me_end :: PAddress
  enabled :: bool

type_synonym entry_heap = "usize \<Rightarrow> MemoryEntry"

record PhysicalMemoryManager =
  memory_size :: MSize
  free_memory_size :: MSize
  first_entry :: usize
  free_list :: "usize option list"
  memory_entry_pool :: pool_state
  entries :: entry_heap

definition NUM_OF_FREE_LIST :: nat where "NUM_OF_FREE_LIST = 12"

definition POOL_THRESHOLD :: usize where "POOL_THRESHOLD = 3"

definition PhysicalMemoryManager_new :: "usize \<Rightarrow> usize \<Rightarrow> free_store \<Rightarrow> entry_heap \<Rightarrow> PhysicalMemoryManager"
where
  "PhysicalMemoryManager_new size_T align_T fl h =
     \<lparr>memory_size = 0, free_memory_size = 0, first_entry = 0,
      free_list = replicate NUM_OF_FREE_LIST None,
      memory_entry_pool = (fl, PoolAllocator_new size_T align_T), entries = h\<rparr>"

section \<open>Operations on an entry\<close>

definition MemoryEntry_init :: "entry_heap \<Rightarrow> usize \<Rightarrow> entry_heap" where
  "MemoryEntry_init h a =
     h(a := (h a)\<lparr>me_previous := None, me_next := None, list_prev := None, list_next := None\<rparr>)"

definition set_enabled :: "entry_heap \<Rightarrow> usize \<Rightarrow> entry_heap" where
  "set_enabled h a = h(a := (h a)\<lparr>enabled := True\<rparr>)"

definition set_disabled :: "entry_heap \<Rightarrow> usize \<Rightarrow> entry_heap" where
  "set_disabled h a = h(a := (h a)\<lparr>enabled := False\<rparr>)"

definition is_enabled :: "entry_heap \<Rightarrow> usize \<Rightarrow> bool" where
  "is_enabled h a = enabled (h a)"

definition set_range ::
  "entry_heap \<Rightarrow> usize \<Rightarrow> PAddress \<Rightarrow> PAddress \<Rightarrow> ('e, entry_heap) outcome" where
  "set_range h a start en =
     obind (assert_that (start < en)) (\<lambda>_. Ok (h(a := (h a)\<lparr>me_start := start, me_end := en\<rparr>)))"

definition set_prev_entry :: "entry_heap \<Rightarrow> usize \<Rightarrow> usize \<Rightarrow> entry_heap" where
  "set_prev_entry h a prev = h(a := (h a)\<lparr>me_previous := Some prev\<rparr>)"

definition unset_prev_entry :: "entry_heap \<Rightarrow> usize \<Rightarrow> entry_heap" where
  "unset_prev_entry h a = h(a := (h a)\<lparr>me_previous := None\<rparr>)"

definition set_next_entry :: "entry_heap \<Rightarrow> usize \<Rightarrow> usize \<Rightarrow> entry_heap" where
  "set_next_entry h a nx = h(a := (h a)\<lparr>me_next := Some nx\<rparr>)"

definition unset_next_entry :: "entry_heap \<Rightarrow> usize \<Rightarrow> entry_heap" where
  "unset_next_entry h a = h(a := (h a)\<lparr>me_next := None\<rparr>)"

definition get_size :: "entry_heap \<Rightarrow> usize \<Rightarrow> ('e, MSize) outcome" where
  "get_size h a = from_address (me_start (h a)) (me_end (h a))"

definition chain_after_me :: "entry_heap \<Rightarrow> usize \<Rightarrow> usize \<Rightarrow> entry_heap" where
  "chain_after_me h self entry = set_prev_entry (set_next_entry h self entry) entry self"

definition is_first_entry :: "entry_heap \<Rightarrow> usize \<Rightarrow> bool" where
  "is_first_entry h a = (me_previous (h a) = None)"

definition MemoryEntry_delete :: "entry_heap \<Rightarrow> usize \<Rightarrow> entry_heap" where
  "MemoryEntry_delete h a =
     (let h0 = set_disabled h a;
          h1 = (case me_previous (h0 a) of
                  Some previous \<Rightarrow>
                    (case me_next (h0 a) of
                       Some nx \<Rightarrow> chain_after_me h0 previous nx
                     | None \<Rightarrow> unset_next_entry h0 previous)
                | None \<Rightarrow>
                    (case me_next (h0 a) of
                       Some nx \<Rightarrow> unset_prev_entry h0 nx
                     | None \<Rightarrow> h0))
      in h1(a := (h1 a)\<lparr>me_previous := None, me_next := None\<rparr>))"

definition unchain_from_freelist :: "entry_heap \<Rightarrow> usize \<Rightarrow> entry_heap" where
  "unchain_from_freelist h a =
     (let h1 = (case list_prev (h a) of
                  Some p \<Rightarrow> h(p := (h p)\<lparr>list_next := list_next (h a)\<rparr>) | None \<Rightarrow> h);
          h2 = (case list_next (h1 a) of
                  Some nx \<Rightarrow> h1(nx := (h1 nx)\<lparr>list_prev := list_prev (h1 a)\<rparr>) | None \<Rightarrow> h1)
      in h2(a := (h2 a)\<lparr>list_next := None, list_prev := None\<rparr>))"

section \<open>Orders and alignment\<close>

definition size_to_page_order :: "MSize \<Rightarrow> MPageOrder" where
  "size_to_page_order sz = MPageOrder_from_offset sz (of_nat (NUM_OF_FREE_LIST - 1))"

definition align_address_and_size :: "PAddress \<Rightarrow> MSize \<Rightarrow> MOrder \<Rightarrow> PAddress \<times> MSize" where
  "align_address_and_size address sz align_order =
     (let align_size = MOrder_to_offset align_order;
          mask = NOT (align_size - 1);
          aligned_address = address AND mask;
          aligned_size = ((sz + (address - aligned_address) - 1) AND mask) + align_size
      in (aligned_address, aligned_size))"

definition align_address_and_available_size ::
  "PAddress \<Rightarrow> MSize \<Rightarrow> MOrder \<Rightarrow> ('e, PAddress \<times> MSize) outcome" where
  "align_address_and_available_size address sz align_order =
     (if is_zero address then Ok (0, sz)
      else let align_size = MOrder_to_offset align_order;
               mask = NOT (align_size - 1);
               aligned_address = ((address - 1) AND mask) + align_size
           in obind (assert_that (address \<le> aligned_address)) (\<lambda>_.
                if aligned_address - address \<le> sz
                then Ok (aligned_address, sz - (aligned_address - address))
                else Ok (aligned_address, 0)))"

section \<open>The free lists\<close>

definition unchain_entry_from_free_list ::
  "PhysicalMemoryManager \<Rightarrow> usize \<Rightarrow> ('e, PhysicalMemoryManager) outcome" where
  "unchain_entry_from_free_list s entry =
     obind (get_size (entries s) entry) (\<lambda>sz.
     let order = unat (size_to_page_order sz)
     in obind (assert_that (order < length (free_list s))) (\<lambda>_.
        let fl = (if free_list s ! order = Some entry
                  then (free_list s)[order := list_next (entries s entry)] else free_list s)
        in Ok (s\<lparr>free_list := fl, entries := unchain_from_freelist (entries s) entry\<rparr>)))"

primrec free_list_insert_loop ::
  "nat \<Rightarrow> entry_heap \<Rightarrow> usize \<Rightarrow> usize \<Rightarrow> ('e, entry_heap) outcome" where
  "free_list_insert_loop 0 h list_entry entry = Diverge"
| "free_list_insert_loop (Suc k) h list_entry entry =
     (case list_next (h list_entry) of
        Some next_entry \<Rightarrow>
          obind (get_size h next_entry) (\<lambda>next_size.
          obind (get_size h entry) (\<lambda>size'.
            if size' \<le> next_size then
              let h1 = h(list_entry := (h list_entry)\<lparr>list_next := Some entry\<rparr>);
                  h2 = h1(entry := (h1 entry)\<lparr>list_prev := Some list_entry,
                                              list_next := Some next_entry\<rparr>)
              in Ok (h2(next_entry := (h2 next_entry)\<lparr>list_prev := Some entry\<rparr>))
            else free_list_insert_loop k h next_entry entry))
      | None \<Rightarrow>
          let h1 = h(list_entry := (h list_entry)\<lparr>list_next := Some entry\<rparr>)
          in Ok (h1(entry := (h1 entry)\<lparr>list_prev := Some list_entry\<rparr>)))"

text \<open>The part of \<open>chain_entry_to_free_list\<close> behind the two assertions.\<close>

definition free_list_insert ::
  "nat \<Rightarrow> PhysicalMemoryManager \<Rightarrow> usize \<Rightarrow> nat \<Rightarrow> ('e, PhysicalMemoryManager) outcome" where
  "free_list_insert n s entry new_order =
     obind (assert_that (new_order < length (free_list s))) (\<lambda>_.
     case free_list s ! new_order of
       None \<Rightarrow> Ok (s\<lparr>free_list := (free_list s)[new_order := Some entry]\<rparr>)
     | Some list_entry \<Rightarrow>
         obind (get_size (entries s) list_entry) (\<lambda>list_size.
         obind (get_size (entries s) entry) (\<lambda>size'.
           if size' \<le> list_size then
             let h1 = (entries s)(list_entry := (entries s list_entry)\<lparr>list_prev := Some entry\<rparr>);
                 h2 = h1(entry := (h1 entry)\<lparr>list_next := Some list_entry\<rparr>)
             in Ok (s\<lparr>free_list := (free_list s)[new_order := Some entry], entries := h2\<rparr>)
           else obind (free_list_insert_loop n (entries s) list_entry entry) (\<lambda>h.
             Ok (s\<lparr>entries := h\<rparr>)))))"

definition chain_entry_to_free_list ::
  "nat \<Rightarrow> PhysicalMemoryManager \<Rightarrow> usize \<Rightarrow> MSize option
     \<Rightarrow> ('e, PhysicalMemoryManager) outcome" where
  "chain_entry_to_free_list n s entry old_size =
     obind (get_size (entries s) entry) (\<lambda>size'.
     let new_order = unat (size_to_page_order size');
         insert' = (\<lambda>s'. obind (assert_that (list_next (entries s' entry) = None)) (\<lambda>_.
                         obind (assert_that (list_prev (entries s' entry) = None)) (\<lambda>_.
                           free_list_insert n s' entry new_order)))
     in case old_size of
          None \<Rightarrow> insert' s
        | Some old \<Rightarrow>
            if old = size' then Ok s
            else let old_order = unat (size_to_page_order old)
                 in obind (assert_that (old_order < length (free_list s))) (\<lambda>_.
                    let fl = (if free_list s ! old_order = Some entry
                              then (free_list s)[old_order := list_next (entries s entry)]
                              else free_list s)
                    in insert' (s\<lparr>free_list := fl,
                                  entries := unchain_from_freelist (entries s) entry\<rparr>)))"

section \<open>Finding an entry\<close>

primrec search_entry_containing_address_mut ::
  "nat \<Rightarrow> entry_heap \<Rightarrow> usize \<Rightarrow> PAddress \<Rightarrow> ('e, usize option) outcome" where
  "search_entry_containing_address_mut 0 h entry address = Diverge"
| "search_entry_containing_address_mut (Suc k) h entry address =
     (if me_start (h entry) < address \<and> me_end (h entry) < address then
        (case me_next (h entry) of
           Some t \<Rightarrow> search_entry_containing_address_mut k h t address
         | None \<Rightarrow> Ok None)
      else if me_start (h entry) \<le> address \<and> address \<le> me_end (h entry) then Ok (Some entry)
      else Ok None)"

primrec search_entry_previous_address_mut ::
  "nat \<Rightarrow> entry_heap \<Rightarrow> usize \<Rightarrow> PAddress \<Rightarrow> ('e, usize option) outcome" where
  "search_entry_previous_address_mut 0 h entry address = Diverge"
| "search_entry_previous_address_mut (Suc k) h entry address =
     (if me_start (h entry) < address then
        (case me_next (h entry) of
           Some t \<Rightarrow> search_entry_previous_address_mut k h t address
         | None \<Rightarrow> Ok (if me_end (h entry) \<le> address then Some entry else me_previous (h entry)))
      else Ok (me_previous (h entry)))"

definition create_memory_entry ::
  "PhysicalMemoryManager \<Rightarrow> (MemoryError, PhysicalMemoryManager \<times> usize) outcome" where
  "create_memory_entry s =
     (case alloc_ptr (memory_entry_pool s) of
        Ok (pool, e) \<Rightarrow>
          Ok (s\<lparr>memory_entry_pool := pool,
                entries := MemoryEntry_init (set_enabled (entries s) e) e\<rparr>, e)
      | Err _ \<Rightarrow> Err EntryPoolRunOut
      | Panic \<Rightarrow> Panic
      | Diverge \<Rightarrow> Diverge)"

definition pool_free ::
  "PhysicalMemoryManager \<Rightarrow> usize \<Rightarrow> (MemoryError, PhysicalMemoryManager) outcome" where
  "pool_free s entry =
     obind (free_ptr (memory_entry_pool s) entry) (\<lambda>pool. Ok (s\<lparr>memory_entry_pool := pool\<rparr>))"

section \<open>Taking memory away\<close>

text \<open>
  The two asserted conditions on a given entry, or the search for one
  (\<open>define_used_memory\<close> up to line 152).
\<close>

definition used_target ::
  "nat \<Rightarrow> PhysicalMemoryManager \<Rightarrow> PAddress \<Rightarrow> MSize \<Rightarrow> usize option
     \<Rightarrow> (MemoryError, usize) outcome" where
  "used_target n s start_address sz target_entry =
     (case target_entry of
        Some t \<Rightarrow>
          obind (assert_that (me_start (entries s t) \<le> start_address)) (\<lambda>_.
          obind (assert_that (to_end_address sz start_address \<le> me_end (entries s t))) (\<lambda>_.
            Ok t))
      | None \<Rightarrow>
          obind (search_entry_containing_address_mut n (entries s) (first_entry s) start_address)
            (\<lambda>found. case found of Some t \<Rightarrow> Ok t | None \<Rightarrow> Err InvalidAddress))"

text \<open>The four ways a block is cut out of an entry.\<close>

definition used_whole_entry ::
  "PhysicalMemoryManager \<Rightarrow> usize \<Rightarrow> (MemoryError, PhysicalMemoryManager) outcome" where
  "used_whole_entry s entry =
     obind (if is_first_entry (entries s) entry
            then (case me_next (entries s entry) of
                    Some nx \<Rightarrow> Ok (s\<lparr>first_entry := nx\<rparr>)
                  | None \<Rightarrow> Err AddressNotAvailable)
            else Ok s) (\<lambda>s1.
     obind (unchain_entry_from_free_list s1 entry) (\<lambda>s2.
       pool_free (s2\<lparr>entries := MemoryEntry_delete (entries s2) entry\<rparr>) entry))"

definition resize_entry ::
  "nat \<Rightarrow> PhysicalMemoryManager \<Rightarrow> usize \<Rightarrow> PAddress \<Rightarrow> PAddress
     \<Rightarrow> ('e, PhysicalMemoryManager) outcome" where
  "resize_entry n s entry start en =
     obind (get_size (entries s) entry) (\<lambda>old_size.
     obind (set_range (entries s) entry start en) (\<lambda>h.
       chain_entry_to_free_list n (s\<lparr>entries := h\<rparr>) entry (Some old_size)))"

definition used_last_byte ::
  "nat \<Rightarrow> PhysicalMemoryManager \<Rightarrow> usize \<Rightarrow> PAddress \<Rightarrow> MSize
     \<Rightarrow> (MemoryError, PhysicalMemoryManager) outcome" where
  "used_last_byte n s entry start_address sz =
     (if sz \<noteq> 1 then Err InvalidAddress
      else obind (set_range (entries s) entry (me_start (entries s entry)) (start_address - 1)) (\<lambda>h.
           obind (get_size h entry) (\<lambda>now.
             chain_entry_to_free_list n (s\<lparr>entries := h\<rparr>) entry (Some (now + sz)))))"

definition split_entry ::
  "nat \<Rightarrow> PhysicalMemoryManager \<Rightarrow> usize \<Rightarrow> PAddress \<Rightarrow> MSize
     \<Rightarrow> (MemoryError, PhysicalMemoryManager) outcome" where
  "split_entry n s entry start_address sz =
     obind (create_memory_entry s) (\<lambda>(s1, new_entry).
     obind (get_size (entries s1) entry) (\<lambda>old_size.
     obind (set_range (entries s1) new_entry (start_address + sz) (me_end (entries s1 entry))) (\<lambda>h1.
     obind (set_range h1 entry (me_start (h1 entry)) (start_address - 1)) (\<lambda>h2.
     let h3 = (case me_next (h2 entry) of
                 Some nx \<Rightarrow> chain_after_me h2 new_entry nx | None \<Rightarrow> h2);
         h4 = chain_after_me h3 entry new_entry
     in obind (chain_entry_to_free_list n (s1\<lparr>entries := h4\<rparr>) entry (Some old_size)) (\<lambda>s2.
          chain_entry_to_free_list n s2 new_entry None)))))"

definition define_used_memory0 ::
  "nat \<Rightarrow> PhysicalMemoryManager \<Rightarrow> PAddress \<Rightarrow> MSize \<Rightarrow> usize option
     \<Rightarrow> (MemoryError, PhysicalMemoryManager) outcome" where
  "define_used_memory0 n s start_address sz target_entry =
     (if is_zero sz \<or> free_memory_size s < sz then Err InvalidSize
      else obind (used_target n s start_address sz target_entry) (\<lambda>entry.
           let st = me_start (entries s entry); en = me_end (entries s entry);
               done = (if st = start_address then
                         if en = to_end_address sz start_address then used_whole_entry s entry
                         else resize_entry n s entry (start_address + sz) en
                       else if en = start_address then used_last_byte n s entry start_address sz
                       else if en = to_end_address sz start_address then
                         resize_entry n s entry st (start_address - 1)
                       else split_entry n s entry start_address sz)
           in obind done (\<lambda>s1. Ok (s1\<lparr>free_memory_size := free_memory_size s1 - sz\<rparr>))))"

definition define_used_memory ::
  "nat \<Rightarrow> PhysicalMemoryManager \<Rightarrow> PAddress \<Rightarrow> MSize \<Rightarrow> MOrder \<Rightarrow> usize option
     \<Rightarrow> (MemoryError, PhysicalMemoryManager) outcome" where
  "define_used_memory n s start_address sz align_order target_entry =
     (if is_zero sz \<or> free_memory_size s < sz then Err InvalidSize
      else if \<not> is_zero align_order then
        obind (assert_that (align_order \<le> PAGE_SHIFT)) (\<lambda>_.
        let aligned = align_address_and_size start_address sz align_order
        in define_used_memory0 n s (fst aligned) (snd aligned) target_entry)
      else define_used_memory0 n s start_address sz target_entry)"

section \<open>Giving memory back\<close>

text \<open>
  An error of \<open>define_free_memory\<close> comes with the state it leaves behind, because the
  entries may have been written before the pool runs out.
\<close>

primrec err_state :: "'s \<Rightarrow> ('e, 'a) outcome \<Rightarrow> ('e \<times> 's, 'a) outcome" where
  "err_state s (Ok x) = Ok x"
| "err_state s (Err e) = Err (e, s)"
| "err_state s Panic = Panic"
| "err_state s Diverge = Diverge"

text \<open>Lines 230 to 242: the entry grows over the block that touches it.\<close>

definition extend_entry ::
  "entry_heap \<Rightarrow> usize \<Rightarrow> PAddress \<Rightarrow> PAddress \<Rightarrow> ('e, entry_heap \<times> bool) outcome" where
  "extend_entry h entry start_address end_address =
     obind (if me_end (h entry) + 1 = start_address
            then obind (set_range h entry (me_start (h entry)) end_address) (\<lambda>h1. Ok (h1, True))
            else Ok (h, False)) (\<lambda>(h1, processed).
       if is_first_entry h1 entry \<and> me_start (h1 entry) = end_address + 1
       then obind (set_range h1 entry start_address (me_end (h1 entry))) (\<lambda>h2. Ok (h2, True))
       else Ok (h1, processed))"

text \<open>Lines 256 to 273: the next entry grows, or is merged into the entry.\<close>

definition merge_next ::
  "nat \<Rightarrow> PhysicalMemoryManager \<Rightarrow> usize \<Rightarrow> usize \<Rightarrow> PAddress \<Rightarrow> PAddress \<Rightarrow> PAddress \<Rightarrow> bool
     \<Rightarrow> ('e, PhysicalMemoryManager \<times> bool) outcome" where
  "merge_next n s entry nx start_address end_address address_after_entry processed =
     obind (if me_start (entries s nx) = end_address + 1
            then obind (resize_entry n s nx start_address (me_end (entries s nx))) (\<lambda>s1.
                   Ok (s1, True))
            else Ok (s, processed)) (\<lambda>(s1, processed1).
       if me_start (entries s1 nx) = me_end (entries s1 entry) + 1
          \<or> processed1 \<and> me_start (entries s1 nx) \<le> address_after_entry
       then obind (set_range (entries s1) entry (me_start (entries s1 entry))
                     (max (me_end (entries s1 entry)) (me_end (entries s1 nx)))) (\<lambda>h.
            obind (unchain_entry_from_free_list (s1\<lparr>entries := h\<rparr>) nx) (\<lambda>s2.
              Ok (s2\<lparr>entries := MemoryEntry_delete (entries s2) nx\<rparr>, processed1)))
       else Ok (s1, processed1))"

definition free_if_disabled ::
  "PhysicalMemoryManager \<Rightarrow> usize \<Rightarrow> (MemoryError, PhysicalMemoryManager) outcome" where
  "free_if_disabled s nx = (if is_enabled (entries s) nx then Ok s else pool_free s nx)"

text \<open>Lines 256 to 305: the block lies before the next entry.\<close>

definition free_before_next ::
  "nat \<Rightarrow> PhysicalMemoryManager \<Rightarrow> usize \<Rightarrow> usize \<Rightarrow> PAddress \<Rightarrow> MSize \<Rightarrow> PAddress \<Rightarrow> MSize
     \<Rightarrow> PAddress \<Rightarrow> bool \<Rightarrow> (MemoryError \<times> PhysicalMemoryManager, PhysicalMemoryManager) outcome"
where
  "free_before_next n s entry nx start_address sz end_address old_size address_after_entry processed =
     obind (merge_next n s entry nx start_address end_address address_after_entry processed)
       (\<lambda>(s1, processed1).
     if processed1 then
       obind (chain_entry_to_free_list n (s1\<lparr>free_memory_size := free_memory_size s1 + sz\<rparr>)
                entry (Some old_size)) (\<lambda>s2.
         err_state s2 (free_if_disabled s2 nx))
     else
       obind (err_state s1 (create_memory_entry s1)) (\<lambda>(s2, new_entry).
       obind (set_range (entries s2) new_entry start_address end_address) (\<lambda>h1.
       obind (if me_end (h1 new_entry) < me_start (h1 entry)
              then (case me_previous (h1 entry) of
                      Some prev_entry \<Rightarrow>
                        obind (assert_that (me_end (h1 prev_entry) < me_start (h1 new_entry))) (\<lambda>_.
                        Ok (s2\<lparr>entries := chain_after_me (chain_after_me h1 prev_entry new_entry)
                                            new_entry entry\<rparr>))
                    | None \<Rightarrow> Ok (s2\<lparr>first_entry := new_entry,
                                     entries := chain_after_me h1 new_entry entry\<rparr>))
              else Ok (s2\<lparr>entries := chain_after_me
                             (set_next_entry (set_prev_entry h1 nx new_entry) new_entry nx)
                             entry new_entry\<rparr>)) (\<lambda>s3.
       obind (chain_entry_to_free_list n (s3\<lparr>free_memory_size := free_memory_size s3 + sz\<rparr>)
                entry (Some old_size)) (\<lambda>s4.
       obind (chain_entry_to_free_list n s4 new_entry None) (\<lambda>s5.
         err_state s5 (free_if_disabled s5 nx)))))))"

text \<open>Lines 307 to 328: there is no next entry.\<close>

definition free_at_last ::
  "nat \<Rightarrow> PhysicalMemoryManager \<Rightarrow> usize \<Rightarrow> PAddress \<Rightarrow> MSize \<Rightarrow> PAddress \<Rightarrow> MSize \<Rightarrow> bool
     \<Rightarrow> (MemoryError \<times> PhysicalMemoryManager, PhysicalMemoryManager) outcome" where
  "free_at_last n s entry start_address sz end_address old_size processed =
     (if processed then
        chain_entry_to_free_list n (s\<lparr>free_memory_size := free_memory_size s + sz\<rparr>)
          entry (Some old_size)
      else
        obind (err_state s (create_memory_entry s)) (\<lambda>(s1, new_entry).
        obind (set_range (entries s1) new_entry start_address end_address) (\<lambda>h1.
        obind (if me_end (h1 entry) < me_start (h1 new_entry)
               then Ok (s1\<lparr>entries := chain_after_me h1 entry new_entry\<rparr>)
               else (case me_previous (h1 entry) of
                       Some prev_entry \<Rightarrow>
                         obind (assert_that (me_end (h1 prev_entry) < me_start (h1 entry))) (\<lambda>_.
                         Ok (s1\<lparr>entries := chain_after_me (chain_after_me h1 prev_entry new_entry)
                                             new_entry entry\<rparr>))
                     | None \<Rightarrow> Ok (s1\<lparr>first_entry := new_entry,
                                      entries := chain_after_me h1 new_entry entry\<rparr>))) (\<lambda>s2.
        obind (chain_entry_to_free_list n (s2\<lparr>free_memory_size := free_memory_size s2 + sz\<rparr>)
                 entry (Some old_size)) (\<lambda>s3.
          chain_entry_to_free_list n s3 new_entry None)))))"

primrec define_free_memory ::
  "nat \<Rightarrow> PhysicalMemoryManager \<Rightarrow> PAddress \<Rightarrow> MSize
     \<Rightarrow> (MemoryError \<times> PhysicalMemoryManager, PhysicalMemoryManager) outcome" where
  "define_free_memory 0 s start_address sz = Diverge"
| "define_free_memory (Suc k) s start_address sz =
     (if is_zero sz then Err (InvalidSize, s)
      else obind (search_entry_previous_address_mut (Suc k) (entries s) (first_entry s) start_address)
       (\<lambda>found.
        let entry = (case found of Some t \<Rightarrow> t | None \<Rightarrow> first_entry s);
            h = entries s;
            end_address = to_end_address sz start_address
        in if me_start (h entry) \<le> start_address \<and> end_address \<le> me_end (h entry)
           then Err (InvalidAddress, s)
           else if start_address \<le> me_end (h entry) \<and> \<not> is_first_entry h entry
           then obind (from_address (me_end (h entry) + 1) end_address) (\<lambda>rest.
                  define_free_memory k s (me_end (h entry) + 1) rest)
           else if me_end (h entry) = end_address
           then obind (get_size h entry) (\<lambda>entry_size.
                  define_free_memory k s start_address (sz - entry_size))
           else
             obind (get_size h entry) (\<lambda>old_size.
             let address_after_entry = me_end (h entry) + 1
             in obind (extend_entry h entry start_address end_address) (\<lambda>(h1, processed).
                let s1 = s\<lparr>entries := h1\<rparr>
                in case me_next (h1 entry) of
                     Some nx \<Rightarrow>
                       if me_start (h1 nx) \<le> start_address
                       then obind (assert_that (\<not> processed)) (\<lambda>_.
                              if end_address \<le> me_end (h1 nx) then Err (InvalidAddress, s1)
                              else define_free_memory k s1 (me_end (h1 nx) + 1)
                                     (end_address - me_end (h1 nx)))
                       else free_before_next (Suc k) s1 entry nx start_address sz end_address
                              old_size address_after_entry processed
                   | None \<Rightarrow>
                       free_at_last (Suc k) s1 entry start_address sz end_address old_size processed))))"

section \<open>The public operations\<close>

definition FreeListIterMut_next :: "entry_heap \<Rightarrow> usize option \<Rightarrow> (usize \<times> usize option) option"
where
  "FreeListIterMut_next h it = (case it of Some a \<Rightarrow> Some (a, list_next (h a)) | None \<Rightarrow> None)"

text \<open>The body of the inner loop of \<open>alloc\<close>: the address the entry can serve, if any.\<close>

definition address_to_allocate ::
  "entry_heap \<Rightarrow> usize \<Rightarrow> MSize \<Rightarrow> MOrder \<Rightarrow> ('e, PAddress option) outcome" where
  "address_to_allocate h entry sz align_order =
     obind (get_size h entry) (\<lambda>entry_size.
       if sz \<le> entry_size then
         if \<not> is_zero align_order then
           obind (align_address_and_available_size (me_start (h entry)) entry_size align_order)
             (\<lambda>(aligned_address, aligned_available_size).
               if aligned_available_size < sz then Ok None else Ok (Some aligned_address))
         else Ok (Some (me_start (h entry)))
       else Ok None)"

primrec alloc_from_list ::
  "nat \<Rightarrow> nat \<Rightarrow> PhysicalMemoryManager \<Rightarrow> usize option \<Rightarrow> MSize \<Rightarrow> MOrder
     \<Rightarrow> (MemoryError, (PhysicalMemoryManager \<times> PAddress) option) outcome" where
  "alloc_from_list n 0 s it sz align_order = Diverge"
| "alloc_from_list n (Suc k) s it sz align_order =
     (case FreeListIterMut_next (entries s) it of
        None \<Rightarrow> Ok None
      | Some (entry, it') \<Rightarrow>
          obind (address_to_allocate (entries s) entry sz align_order) (\<lambda>found.
            case found of
              None \<Rightarrow> alloc_from_list n k s it' sz align_order
            | Some address \<Rightarrow>
                obind (define_used_memory n s address sz 0 (Some entry)) (\<lambda>s'.
                  Ok (Some (s', address)))))"

primrec alloc_orders ::
  "nat \<Rightarrow> PhysicalMemoryManager \<Rightarrow> nat list \<Rightarrow> MSize \<Rightarrow> MOrder
     \<Rightarrow> (MemoryError, PhysicalMemoryManager \<times> PAddress) outcome" where
  "alloc_orders n s [] sz align_order = Err AddressNotAvailable"
| "alloc_orders n s (i # is) sz align_order =
     obind (assert_that (i < length (free_list s))) (\<lambda>_.
       case free_list s ! i of
         None \<Rightarrow> alloc_orders n s is sz align_order
       | Some first \<Rightarrow>
           obind (alloc_from_list n n s (Some first) sz align_order) (\<lambda>found.
             case found of Some result \<Rightarrow> Ok result
                         | None \<Rightarrow> alloc_orders n s is sz align_order))"

definition alloc ::
  "nat \<Rightarrow> PhysicalMemoryManager \<Rightarrow> MSize \<Rightarrow> MOrder
     \<Rightarrow> (MemoryError, PhysicalMemoryManager \<times> PAddress) outcome" where
  "alloc n s sz align_order =
     (if is_zero sz \<or> free_memory_size s \<le> sz then Err InvalidSize
      else alloc_orders n s [unat (size_to_page_order sz) ..< NUM_OF_FREE_LIST] sz align_order)"

definition reserve_memory ::
  "nat \<Rightarrow> PhysicalMemoryManager \<Rightarrow> PAddress \<Rightarrow> MSize \<Rightarrow> MOrder
     \<Rightarrow> (MemoryError, PhysicalMemoryManager) outcome" where
  "reserve_memory n s start_address sz align_order =
     define_used_memory n s start_address sz align_order None"

definition free_first ::
  "nat \<Rightarrow> PhysicalMemoryManager \<Rightarrow> PAddress \<Rightarrow> MSize
     \<Rightarrow> (MemoryError \<times> PhysicalMemoryManager, PhysicalMemoryManager) outcome" where
  "free_first n s start_address sz =
     obind (err_state s (create_memory_entry s)) (\<lambda>(s1, e).
     obind (set_range (MemoryEntry_init (entries s1) e) e start_address
              (to_end_address sz start_address)) (\<lambda>h.
     obind (chain_entry_to_free_list n (s1\<lparr>entries := set_enabled h e\<rparr>) e None) (\<lambda>s2.
       Ok (s2\<lparr>first_entry := e, memory_size := sz, free_memory_size := sz\<rparr>))))"

definition free ::
  "nat \<Rightarrow> PhysicalMemoryManager \<Rightarrow> PAddress \<Rightarrow> MSize \<Rightarrow> bool
     \<Rightarrow> (MemoryError \<times> PhysicalMemoryManager, PhysicalMemoryManager) outcome" where
  "free n s start_address sz is_initializing =
     (if memory_size s < free_memory_size s + sz \<and> \<not> is_initializing then Err (InvalidSize, s)
      else if is_zero (memory_size s) then free_first n s start_address sz
      else obind (define_free_memory n s start_address sz) (\<lambda>s1.
             Ok (if memory_size s1 < free_memory_size s1
                 then s1\<lparr>memory_size := free_memory_size s1\<rparr> else s1)))"

definition add_memory_entry_pool ::
  "usize \<Rightarrow> PhysicalMemoryManager \<Rightarrow> usize \<Rightarrow> usize \<Rightarrow> ('e, PhysicalMemoryManager) outcome" where
  "add_memory_entry_pool align_T s pool_address pool_size =
     obind (add_pool align_T (memory_entry_pool s) pool_address pool_size) (\<lambda>pool.
       Ok (s\<lparr>memory_entry_pool := pool\<rparr>))"

definition should_add_entry_pool :: "PhysicalMemoryManager \<Rightarrow> bool" where
  "should_add_entry_pool s = (get_count (snd (memory_entry_pool s)) \<le> POOL_THRESHOLD)"

end
