(* ===== verification/Memory_Lists.thy ===== *)
theory Memory_Lists
  imports Physical_Memory Chains
begin

text \<open>
  The twelve free lists of the physical memory manager: what it means that they are
  well linked and that every entry is filed under the order of its size, and that
  chaining, re-chaining and unchaining an entry keep this. These operations write the
  list links only; \<open>strip\<close> is the store without them.
\<close>

section \<open>The store without the list links\<close>

definition strip :: "entry_heap \<Rightarrow> entry_heap" where
  "strip h = (\<lambda>a. (h a)\<lparr>list_prev := None, list_next := None\<rparr>)"

lemma strip_eqD:
  assumes "strip h' = strip h"
  shows "me_start (h' a) = me_start (h a)" "me_end (h' a) = me_end (h a)"
    "me_previous (h' a) = me_previous (h a)" "me_next (h' a) = me_next (h a)"
    "enabled (h' a) = enabled (h a)"
proof -
  have "strip h' a = strip h a" using assms by simp
  then show "me_start (h' a) = me_start (h a)" "me_end (h' a) = me_end (h a)"
    "me_previous (h' a) = me_previous (h a)" "me_next (h' a) = me_next (h a)"
    "enabled (h' a) = enabled (h a)"
    by (cases "h' a"; cases "h a"; simp add: strip_def)+
qed

lemma strip_upd_list [simp]:
  "strip (h(a := (h b)\<lparr>list_prev := v\<rparr>)) = (strip h)(a := strip h b)"
  "strip (h(a := (h b)\<lparr>list_next := v\<rparr>)) = (strip h)(a := strip h b)"
  "strip (h(a := (h b)\<lparr>list_prev := v, list_next := w\<rparr>)) = (strip h)(a := strip h b)"
  "strip (h(a := (h b)\<lparr>list_next := v, list_prev := w\<rparr>)) = (strip h)(a := strip h b)"
  by (simp_all add: strip_def fun_eq_iff)

section \<open>Well-linked free lists\<close>

definition entry_size :: "entry_heap \<Rightarrow> usize \<Rightarrow> MSize" where
  "entry_size h e = me_end (h e) - me_start (h e) + 1"

definition order_of :: "entry_heap \<Rightarrow> usize \<Rightarrow> nat" where
  "order_of h e = unat (size_to_page_order (entry_size h e))"

definition ranged :: "entry_heap \<Rightarrow> usize \<Rightarrow> bool" where
  "ranged h e \<longleftrightarrow> me_start (h e) \<le> me_end (h e)"

definition filed :: "entry_heap \<Rightarrow> (nat \<Rightarrow> usize list) \<Rightarrow> usize \<Rightarrow> bool" where
  "filed h fls e \<longleftrightarrow> e \<in> set (fls (order_of h e))"

text \<open>\<open>fls i\<close> is the content of the list of order \<open>i\<close>; \<open>L\<close> is the set of all listed entries.\<close>

definition fl_inv :: "entry_heap \<Rightarrow> usize option list \<Rightarrow> (nat \<Rightarrow> usize list) \<Rightarrow> usize set \<Rightarrow> bool" where
  "fl_inv h fl fls L \<longleftrightarrow>
     length fl = NUM_OF_FREE_LIST \<and> (\<forall>i \<ge> NUM_OF_FREE_LIST. fls i = []) \<and>
     (\<forall>i < NUM_OF_FREE_LIST. fl ! i = hd_or None (fls i)) \<and>
     (\<forall>i. chain (list_prev \<circ> h) (list_next \<circ> h) None (fls i) None \<and> distinct (fls i)) \<and>
     (\<forall>i j. i \<noteq> j \<longrightarrow> set (fls i) \<inter> set (fls j) = {}) \<and> (\<Union>i. set (fls i)) = L"

lemma size_to_page_order_bound: "unat (size_to_page_order sz) < NUM_OF_FREE_LIST"
proof -
  have "unat (MOrder_from_offset sz 23) \<le> 23"
    using from_offset_loop_le [of sz 23] by (simp add: unat_MOrder_from_offset)
  then have "unat (to_page_order (MOrder_from_offset sz 23)) \<le> 11"
    by (auto simp: to_page_order_def PAGE_SHIFT_def unat_sub_le word_less_nat_alt word_le_nat_alt)
  then show ?thesis
    by (simp add: size_to_page_order_def MPageOrder_from_offset_def MPageOrder_to_order_def
        NUM_OF_FREE_LIST_def PAGE_SHIFT_def)
qed

lemma order_of_bound [simp]: "order_of h e < NUM_OF_FREE_LIST"
  by (simp add: order_of_def size_to_page_order_bound)

lemma get_size_ranged [simp]: "ranged h e \<Longrightarrow> get_size h e = Ok (entry_size h e)"
  by (simp add: ranged_def get_size_def entry_size_def)

lemma strip_sizes:
  assumes "strip h' = strip h"
  shows "entry_size h' = entry_size h" "order_of h' = order_of h" "ranged h' = ranged h"
    "filed h' = filed h"
proof -
  note eqs = strip_eqD [OF assms]
  show sz: "entry_size h' = entry_size h" by (rule ext) (simp add: entry_size_def eqs)
  show od: "order_of h' = order_of h" by (rule ext) (simp add: order_of_def sz)
  show "ranged h' = ranged h" by (rule ext) (simp add: ranged_def eqs)
  show "filed h' = filed h" by (intro ext) (simp add: filed_def od)
qed

lemma fl_inv_cong:
  assumes "\<And>a. a \<in> L \<Longrightarrow> list_prev (h' a) = list_prev (h a) \<and> list_next (h' a) = list_next (h a)"
  shows "fl_inv h' fl fls L = fl_inv h fl fls L"
proof -
  have "chain (list_prev \<circ> h') (list_next \<circ> h') None (fls i) None =
        chain (list_prev \<circ> h) (list_next \<circ> h) None (fls i) None" if "(\<Union>i. set (fls i)) = L" for i
    using that assms by (intro chain_cong) auto
  then show ?thesis
    unfolding fl_inv_def by (cases "(\<Union>i. set (fls i)) = L") (simp_all only: simp_thms)
qed

lemma fl_inv_mem:
  assumes "fl_inv h fl fls L" and "e \<in> L"
  shows "\<exists>i < NUM_OF_FREE_LIST. e \<in> set (fls i)"
proof -
  from assms obtain i where i: "e \<in> set (fls i)" by (auto simp: fl_inv_def)
  have "i < NUM_OF_FREE_LIST"
  proof (rule ccontr)
    assume "\<not> i < NUM_OF_FREE_LIST"
    then have "fls i = []" using assms(1) by (simp add: fl_inv_def)
    with i show False by simp
  qed
  with i show ?thesis by blast
qed

lemma fl_inv_length:
  assumes "fl_inv h fl fls L" and "finite L"
  shows "length (fls i) \<le> card L"
proof -
  have L: "(\<Union>i. set (fls i)) = L" and d: "distinct (fls i)"
    using assms(1) unfolding fl_inv_def by blast+
  have "card (set (fls i)) \<le> card L"
    using assms(2) by (rule card_mono) (use L in blast)
  with d show ?thesis by (simp only: distinct_card)
qed

text \<open>Replacing one list by another with its own links.\<close>

lemma fl_inv_replace:
  assumes inv: "fl_inv h fl fls L" and i: "i < NUM_OF_FREE_LIST"
    and xs: "chain (list_prev \<circ> h') (list_next \<circ> h') None xs None" "distinct xs"
    and frame: "\<And>a. a \<in> L - set (fls i) \<Longrightarrow> h' a = h a"
    and new: "set xs \<inter> (L - set (fls i)) = {}"
  shows "fl_inv h' (fl[i := hd_or None xs]) (fls(i := xs)) (L - set (fls i) \<union> set xs)"
proof -
  have L: "(\<Union>i. set (fls i)) = L" and dj: "\<And>i j. i \<noteq> j \<Longrightarrow> set (fls i) \<inter> set (fls j) = {}"
    using inv by (auto simp: fl_inv_def)
  have sub: "set (fls j) \<subseteq> L - set (fls i)" if "j \<noteq> i" for j
    using L dj [OF that] by blast
  have ch: "chain (list_prev \<circ> h') (list_next \<circ> h') None (fls j) None" if "j \<noteq> i" for j
  proof -
    have "chain (list_prev \<circ> h) (list_next \<circ> h) None (fls j) None"
      using inv by (simp add: fl_inv_def)
    moreover have "(list_prev \<circ> h) a = (list_prev \<circ> h') a \<and> (list_next \<circ> h) a = (list_next \<circ> h') a"
      if "a \<in> set (fls j)" for a
      using frame sub [OF \<open>j \<noteq> i\<close>] that by auto
    ultimately show ?thesis using chain_cong by blast
  qed
  have un: "(\<Union>j. set ((fls(i := xs)) j)) = L - set (fls i) \<union> set xs"
  proof
    show "(\<Union>j. set ((fls(i := xs)) j)) \<subseteq> L - set (fls i) \<union> set xs"
      using sub by (fastforce split: if_splits)
    show "L - set (fls i) \<union> set xs \<subseteq> (\<Union>j. set ((fls(i := xs)) j))"
      using L by (auto split: if_splits)
  qed
  have dj': "set ((fls(i := xs)) j) \<inter> set ((fls(i := xs)) k) = {}" if "j \<noteq> k" for j k
    using that dj [of j k] new sub [of j] sub [of k] by auto
  show ?thesis
    unfolding fl_inv_def
    using inv i xs ch un dj' by (simp add: fl_inv_def nth_list_update)
qed

section \<open>Unchaining\<close>

lemma unchain_chain:
  assumes "chain (list_prev \<circ> h) (list_next \<circ> h) None (as @ e # bs) None" and "distinct (as @ e # bs)"
  shows "chain (list_prev \<circ> unchain_from_freelist h e) (list_next \<circ> unchain_from_freelist h e)
           None (as @ bs) None"
    and "list_prev (unchain_from_freelist h e e) = None"
    and "list_next (unchain_from_freelist h e e) = None"
    and "strip (unchain_from_freelist h e) = strip h"
    and "a \<notin> set (as @ e # bs) \<Longrightarrow> unchain_from_freelist h e a = h a"
proof -
  have p: "list_prev (h e) = last_or None as" and nx: "list_next (h e) = hd_or None bs"
    using chain_prev_mem [OF assms(1)] chain_next_mem [OF assms(1)] by simp_all
  show "chain (list_prev \<circ> unchain_from_freelist h e) (list_next \<circ> unchain_from_freelist h e)
           None (as @ bs) None"
    using assms p nx
    by (cases as rule: rev_cases; cases bs)
      (auto simp: unchain_from_freelist_def chain_append Let_def)
  show "strip (unchain_from_freelist h e) = strip h"
    by (auto simp: unchain_from_freelist_def Let_def split: option.split)
  show "a \<notin> set (as @ e # bs) \<Longrightarrow> unchain_from_freelist h e a = h a"
    using p nx by (cases as rule: rev_cases; cases bs) (auto simp: unchain_from_freelist_def Let_def)
qed (simp_all add: unchain_from_freelist_def Let_def)

lemma set_remove1_upd: "set (fls j) - {e} \<subseteq> set ((fls(i := remove1 e (fls i))) j)"
  by (cases "j = i") (auto, metis in_set_remove1)

definition without_entry :: "entry_heap \<Rightarrow> usize option list \<Rightarrow> nat \<Rightarrow> usize \<Rightarrow> usize option list" where
  "without_entry h fl i e = (if fl ! i = Some e then fl[i := list_next (h e)] else fl)"

lemma unchain_fl_inv:
  assumes inv: "fl_inv h fl fls L" and i: "i < NUM_OF_FREE_LIST" and e: "e \<in> set (fls i)"
  shows "fl_inv (unchain_from_freelist h e) (without_entry h fl i e)
           (fls(i := remove1 e (fls i))) (L - {e})"
    and "list_prev (unchain_from_freelist h e e) = None"
    and "list_next (unchain_from_freelist h e e) = None"
    and "strip (unchain_from_freelist h e) = strip h"
    and "a \<notin> L \<Longrightarrow> unchain_from_freelist h e a = h a"
proof -
  obtain as bs where sp: "fls i = as @ e # bs" using e by (meson split_list)
  have ch: "chain (list_prev \<circ> h) (list_next \<circ> h) None (as @ e # bs) None"
    and d: "distinct (as @ e # bs)" and hd: "fl ! i = hd_or None (as @ e # bs)"
    and sub: "set (as @ e # bs) \<subseteq> L"
    using inv i unfolding fl_inv_def sp [symmetric] by auto
  note un = unchain_chain [OF ch d]
  show "list_prev (unchain_from_freelist h e e) = None"
    "list_next (unchain_from_freelist h e e) = None" "strip (unchain_from_freelist h e) = strip h"
    by (rule un)+
  show "a \<notin> L \<Longrightarrow> unchain_from_freelist h e a = h a" using un(5) sub by blast
  have rm: "remove1 e (fls i) = as @ bs" using d by (simp add: sp remove1_append)
  have fl: "without_entry h fl i e = fl[i := hd_or None (as @ bs)]"
  proof (cases as)
    case Nil
    with hd ch show ?thesis by (simp add: without_entry_def)
  next
    case (Cons x xs)
    with hd d show ?thesis using list_update_id [of fl i] by (auto simp: without_entry_def)
  qed
  have "fl_inv (unchain_from_freelist h e) (fl[i := hd_or None (as @ bs)]) (fls(i := as @ bs))
          (L - set (fls i) \<union> set (as @ bs))"
    using inv i un(1,5) d by (intro fl_inv_replace [where h = h]) (auto simp: sp)
  moreover have "L - set (fls i) \<union> set (as @ bs) = L - {e}"
    using sub d by (auto simp: sp)
  ultimately show "fl_inv (unchain_from_freelist h e) (without_entry h fl i e)
           (fls(i := remove1 e (fls i))) (L - {e})" by (simp add: fl rm)
qed

text \<open>What an operation on the free lists leaves of the state: all but the list links.\<close>

definition relisted :: "PhysicalMemoryManager \<Rightarrow> PhysicalMemoryManager \<Rightarrow> usize set \<Rightarrow> bool" where
  "relisted s s' A \<longleftrightarrow>
     s' = s\<lparr>free_list := free_list s', entries := entries s'\<rparr> \<and>
     strip (entries s') = strip (entries s) \<and> (\<forall>a. a \<notin> A \<longrightarrow> entries s' a = entries s a)"

lemma relistedD:
  assumes "relisted s s' A"
  shows "memory_size s' = memory_size s" "free_memory_size s' = free_memory_size s"
    "first_entry s' = first_entry s" "memory_entry_pool s' = memory_entry_pool s"
    "strip (entries s') = strip (entries s)" "a \<notin> A \<Longrightarrow> entries s' a = entries s a"
proof -
  have s': "s' = s\<lparr>free_list := free_list s', entries := entries s'\<rparr>"
    using assms by (simp add: relisted_def)
  show "memory_size s' = memory_size s" "free_memory_size s' = free_memory_size s"
    "first_entry s' = first_entry s" "memory_entry_pool s' = memory_entry_pool s"
    by (subst s', simp)+
qed (use assms in \<open>simp_all add: relisted_def\<close>)

lemma unchain_entry_ok:
  assumes inv: "fl_inv (entries s) (free_list s) fls L" and "ranged (entries s) e"
    and filed: "filed (entries s) fls e"
  shows "\<exists>s' fls'. (unchain_entry_from_free_list s e :: ('e, _) outcome) = Ok s'
     \<and> relisted s s' L \<and> fl_inv (entries s') (free_list s') fls' (L - {e})
     \<and> (\<forall>i. set (fls i) - {e} \<subseteq> set (fls' i))
     \<and> list_prev (entries s' e) = None \<and> list_next (entries s' e) = None"
proof -
  define i where "i = order_of (entries s) e"
  have e: "e \<in> set (fls i)" and i: "i < NUM_OF_FREE_LIST" using filed by (simp_all add: filed_def i_def)
  note un = unchain_fl_inv [OF inv i e]
  have len: "length (free_list s) = NUM_OF_FREE_LIST" using inv by (simp add: fl_inv_def)
  define s' where "s' = s\<lparr>free_list := without_entry (entries s) (free_list s) i e,
    entries := unchain_from_freelist (entries s) e\<rparr>"
  have "(unchain_entry_from_free_list s e :: ('e, _) outcome) = Ok s'"
    using assms(2) i len
    by (simp add: unchain_entry_from_free_list_def s'_def without_entry_def i_def order_of_def Let_def)
  moreover have "relisted s s' L" using un by (simp add: relisted_def s'_def)
  moreover have "\<forall>j. set (fls j) - {e} \<subseteq> set ((fls(i := remove1 e (fls i))) j)"
    by (intro allI set_remove1_upd)
  ultimately show ?thesis
    using un by - (rule exI [of _ s'], rule exI [of _ "fls(i := remove1 e (fls i))"], simp add: s'_def)
qed

section \<open>Chaining\<close>

text \<open>
  The loop puts the entry behind some element of the list it walks. The walk starts at
  the last element of \<open>as\<close> and has as many rounds as there are elements from there on.
\<close>

lemma free_list_insert_loop_ok:
  assumes "chain (list_prev \<circ> h) (list_next \<circ> h) None (as @ a # bs) None"
    and "distinct (as @ a # bs)" and "e \<notin> set (as @ a # bs)"
    and "list_prev (h e) = None" and "list_next (h e) = None"
    and "\<forall>x \<in> set bs. ranged h x" and "ranged h e" and "length bs < n"
  shows "\<exists>h' ys zs. (free_list_insert_loop n h a e :: ('e, _) outcome) = Ok h'
     \<and> as @ a # bs = ys @ zs \<and> ys \<noteq> []
     \<and> chain (list_prev \<circ> h') (list_next \<circ> h') None (ys @ e # zs) None
     \<and> strip h' = strip h \<and> (\<forall>x. x \<notin> insert e (set (as @ a # bs)) \<longrightarrow> h' x = h x)"
  using assms
proof (induction bs arbitrary: as a n)
  case Nil
  then obtain k where n: "n = Suc k" by (cases n) auto
  have nx: "list_next (h a) = None" using chain_next_mem [OF Nil.prems(1)] by simp
  have ea: "e \<noteq> a" using Nil.prems(3) by auto
  define h' where "h' = h(a := (h a)\<lparr>list_next := Some e\<rparr>, e := (h e)\<lparr>list_prev := Some a\<rparr>)"
  have links: "list_prev \<circ> h' = (list_prev \<circ> h)(e := Some a)"
    "list_next \<circ> h' = (list_next \<circ> h)(e := None, a := Some e)"
    using ea Nil.prems(5) by (auto simp: h'_def fun_eq_iff)
  have "chain (list_prev \<circ> h') (list_next \<circ> h') None (as @ [a, e]) None"
    unfolding links by (rule chain_link_back [OF Nil.prems(1-3)])
  then have "chain (list_prev \<circ> h') (list_next \<circ> h') None ((as @ [a]) @ e # []) None" by simp
  moreover have "strip h' = strip h" by (simp add: strip_def h'_def fun_eq_iff)
  moreover have "(free_list_insert_loop n h a e :: ('e, _) outcome) = Ok h'"
    using nx ea by (simp add: n h'_def Let_def)
  moreover have "\<forall>x. x \<notin> insert e (set (as @ [a])) \<longrightarrow> h' x = h x" by (simp add: h'_def)
  ultimately show ?case
    by - (rule exI [of _ h'], rule exI [of _ "as @ [a]"], rule exI [of _ "[]"], simp add: comp_def)
next
  case (Cons b bs)
  then obtain k where n: "n = Suc k" by (cases n) auto
  have nx: "list_next (h a) = Some b" using chain_next_mem [OF Cons.prems(1)] by simp
  have ne: "e \<noteq> a" "e \<noteq> b" "a \<noteq> b" using Cons.prems(2,3) by auto
  show ?case
  proof (cases "entry_size h e \<le> entry_size h b")
    case True
    define h' where "h' = h(a := (h a)\<lparr>list_next := Some e\<rparr>,
      e := (h e)\<lparr>list_prev := Some a, list_next := Some b\<rparr>, b := (h b)\<lparr>list_prev := Some e\<rparr>)"
    have links: "list_prev \<circ> h' = (list_prev \<circ> h)(e := Some a, b := Some e)"
      "list_next \<circ> h' = (list_next \<circ> h)(e := Some b, a := Some e)"
      using ne by (auto simp: h'_def fun_eq_iff)
    have sp: "as @ a # b # bs = (as @ [a]) @ b # bs" by simp
    have "chain (list_prev \<circ> h') (list_next \<circ> h') None ((as @ [a]) @ e # b # bs) None"
      unfolding links by (rule chain_link_between [OF Cons.prems(1-3) [unfolded sp] refl refl])
    moreover have "strip h' = strip h" by (simp add: strip_def h'_def fun_eq_iff)
    moreover have "(free_list_insert_loop n h a e :: ('e, _) outcome) = Ok h'"
      using nx ne True Cons.prems(6,7) by (simp add: n h'_def Let_def)
    moreover have "\<forall>x. x \<notin> insert e (set (as @ a # b # bs)) \<longrightarrow> h' x = h x" by (simp add: h'_def)
    ultimately show ?thesis
      by - (rule exI [of _ h'], rule exI [of _ "as @ [a]"], rule exI [of _ "b # bs"], simp add: comp_def)
  next
    case False
    have "\<exists>h' ys zs. (free_list_insert_loop k h b e :: ('e, _) outcome) = Ok h'
     \<and> (as @ [a]) @ b # bs = ys @ zs \<and> ys \<noteq> []
     \<and> chain (list_prev \<circ> h') (list_next \<circ> h') None (ys @ e # zs) None
     \<and> strip h' = strip h \<and> (\<forall>x. x \<notin> insert e (set ((as @ [a]) @ b # bs)) \<longrightarrow> h' x = h x)"
      using Cons.prems n by (intro Cons.IH) simp_all
    moreover have "(free_list_insert_loop n h a e :: ('e, _) outcome) = free_list_insert_loop k h b e"
      using nx False Cons.prems(6,7) by (simp add: n)
    ultimately show ?thesis by (simp only: append_assoc append_Cons append_Nil)
  qed
qed

lemma insert_chain_ok:
  assumes inv: "fl_inv (entries s) (free_list s) fls L" and j: "j < NUM_OF_FREE_LIST"
    and e: "e \<notin> L" "list_prev (entries s e) = None" "list_next (entries s e) = None"
    and rg: "\<forall>x \<in> L. ranged (entries s) x" "ranged (entries s) e" and n: "length (fls j) \<le> n"
  shows "\<exists>s' ys zs. (free_list_insert n s e j :: ('e, _) outcome) = Ok s' \<and> fls j = ys @ zs
     \<and> s' = s\<lparr>free_list := (free_list s)[j := hd_or None (ys @ e # zs)], entries := entries s'\<rparr>
     \<and> chain (list_prev \<circ> entries s') (list_next \<circ> entries s') None (ys @ e # zs) None
     \<and> strip (entries s') = strip (entries s)
     \<and> (\<forall>x. x \<notin> insert e (set (fls j)) \<longrightarrow> entries s' x = entries s x)"
proof -
  let ?h = "entries s"
  have len: "length (free_list s) = NUM_OF_FREE_LIST" and hd: "free_list s ! j = hd_or None (fls j)"
    and ch: "chain (list_prev \<circ> ?h) (list_next \<circ> ?h) None (fls j) None" and d: "distinct (fls j)"
    and sub: "set (fls j) \<subseteq> L"
    using inv j unfolding fl_inv_def by blast+
  show ?thesis
  proof (cases "fls j")
    case Nil
    have eq: "(free_list_insert n s e j :: ('e, _) outcome) =
        Ok (s\<lparr>free_list := (free_list s)[j := Some e]\<rparr>)"
      using Nil len hd j by (simp add: free_list_insert_def)
    show ?thesis
      using Nil e
      by - (rule exI [of _ "s\<lparr>free_list := (free_list s)[j := Some e]\<rparr>"], rule exI [of _ "[]"],
          rule exI [of _ "[]"], simp add: eq)
  next
    case (Cons a bs)
    have ea: "e \<notin> set (a # bs)" and ra: "ranged ?h a" "\<forall>x \<in> set bs. ranged ?h x"
      using Cons sub e(1) rg(1) by auto
    show ?thesis
    proof (cases "entry_size ?h e \<le> entry_size ?h a")
      case True
      define h' where "h' = ?h(a := (?h a)\<lparr>list_prev := Some e\<rparr>, e := (?h e)\<lparr>list_next := Some a\<rparr>)"
      define s' where "s' = s\<lparr>free_list := (free_list s)[j := Some e], entries := h'\<rparr>"
      have links: "list_prev \<circ> h' = (list_prev \<circ> ?h)(e := None, a := Some e)"
        "list_next \<circ> h' = (list_next \<circ> ?h)(e := Some a)"
        using ea e by (auto simp: h'_def fun_eq_iff)
      have "chain (list_prev \<circ> h') (list_next \<circ> h') None ([] @ e # a # bs) None"
        using chain_link_front [of "list_prev \<circ> ?h" "list_next \<circ> ?h" None a bs None e] ch d ea Cons
        by (simp add: links)
      moreover have "(free_list_insert n s e j :: ('e, _) outcome) = Ok s'"
        using Cons len hd j ra rg(2) True ea
        by (simp add: free_list_insert_def Let_def h'_def s'_def)
      moreover have "strip h' = strip ?h" by (simp add: strip_def h'_def fun_eq_iff)
      moreover have "\<forall>x. x \<notin> insert e (set (fls j)) \<longrightarrow> h' x = ?h x" by (simp add: h'_def Cons)
      ultimately show ?thesis
        using Cons by - (rule exI [of _ s'], rule exI [of _ "[]"], rule exI [of _ "a # bs"], simp add: comp_def s'_def)
    next
      case False
      have "\<exists>h' ys zs. (free_list_insert_loop n ?h a e :: ('e, _) outcome) = Ok h'
         \<and> [] @ a # bs = ys @ zs \<and> ys \<noteq> []
         \<and> chain (list_prev \<circ> h') (list_next \<circ> h') None (ys @ e # zs) None
         \<and> strip h' = strip ?h \<and> (\<forall>x. x \<notin> insert e (set ([] @ a # bs)) \<longrightarrow> h' x = ?h x)"
        using ch d ea e ra rg(2) n Cons by (intro free_list_insert_loop_ok) simp_all
      then obtain h' ys zs where loop: "(free_list_insert_loop n ?h a e :: ('e, _) outcome) = Ok h'"
        and sp: "a # bs = ys @ zs" "ys \<noteq> []"
        and ch': "chain (list_prev \<circ> h') (list_next \<circ> h') None (ys @ e # zs) None"
        and st: "strip h' = strip ?h" "\<forall>x. x \<notin> insert e (set (a # bs)) \<longrightarrow> h' x = ?h x"
        unfolding append_Nil by (elim exE conjE) rule
      have "(free_list_insert n s e j :: ('e, _) outcome) = Ok (s\<lparr>entries := h'\<rparr>)"
        using Cons len hd j ra rg(2) False loop by (simp add: free_list_insert_def)
      moreover have "(free_list s)[j := hd_or None (ys @ e # zs)] = free_list s"
        using hd sp list_update_id [of "free_list s" j] unfolding Cons by (cases ys) simp_all
      ultimately show ?thesis
        using sp(1) ch' st unfolding Cons
        by - (rule exI [of _ "s\<lparr>entries := h'\<rparr>"], rule exI [of _ ys], rule exI [of _ zs],
            simp add: comp_def del: append_eq_Cons_conv)
    qed
  qed
qed

text \<open>The two uses of \<open>chain_entry_to_free_list\<close>: a new entry, and one whose size has changed.\<close>

lemma chain_new_ok:
  assumes inv: "fl_inv (entries s) (free_list s) fls L" and fin: "finite L"
    and e: "e \<notin> L" "list_prev (entries s e) = None" "list_next (entries s e) = None"
    and rg: "\<forall>x \<in> L. ranged (entries s) x" "ranged (entries s) e" and n: "card L \<le> n"
  shows "\<exists>s' fls'. (chain_entry_to_free_list n s e None :: ('e, _) outcome) = Ok s'
     \<and> relisted s s' (insert e L) \<and> fl_inv (entries s') (free_list s') fls' (insert e L)
     \<and> filed (entries s') fls' e
     \<and> (\<forall>i. set (fls i) \<subseteq> set (fls' i))"
proof -
  define j where "j = order_of (entries s) e"
  have j: "j < NUM_OF_FREE_LIST" by (simp add: j_def)
  have "length (fls j) \<le> n" using fl_inv_length [OF inv fin] n le_trans by blast
  from insert_chain_ok [OF inv j e rg this, where 'e = 'e]
  obtain s' ys zs where eq: "(free_list_insert n s e j :: ('e, _) outcome) = Ok s'"
    and sp: "fls j = ys @ zs"
    and s': "s' = s\<lparr>free_list := (free_list s)[j := hd_or None (ys @ e # zs)], entries := entries s'\<rparr>"
    and ch: "chain (list_prev \<circ> entries s') (list_next \<circ> entries s') None (ys @ e # zs) None"
    and st: "strip (entries s') = strip (entries s)"
    and fr: "\<forall>x. x \<notin> insert e (set (fls j)) \<longrightarrow> entries s' x = entries s x"
    by blast
  have sub: "set (fls j) \<subseteq> L" and d: "distinct (fls j)" using inv by (auto simp: fl_inv_def)
  have fl: "free_list s' = (free_list s)[j := hd_or None (ys @ e # zs)]"
    by (subst s') simp
  have "fl_inv (entries s') ((free_list s)[j := hd_or None (ys @ e # zs)])
          (fls(j := ys @ e # zs)) (L - set (fls j) \<union> set (ys @ e # zs))"
    using inv j ch d e(1) fr sub by (intro fl_inv_replace [where h = "entries s"]) (auto simp: sp)
  moreover have "L - set (fls j) \<union> set (ys @ e # zs) = insert e L" using sub by (auto simp: sp)
  ultimately have "fl_inv (entries s') (free_list s') (fls(j := ys @ e # zs)) (insert e L)"
    by (simp add: fl)
  moreover have "relisted s s' (insert e L)"
    unfolding relisted_def fl using s' [symmetric] st fr sub by auto
  moreover have "(chain_entry_to_free_list n s e None :: ('e, _) outcome) = Ok s'"
    using eq e rg(2) by (simp add: chain_entry_to_free_list_def j_def order_of_def Let_def)
  moreover have "filed (entries s') (fls(j := ys @ e # zs)) e"
    using strip_sizes(2) [OF st] by (simp add: filed_def j_def)
  moreover have "\<forall>i. set (fls i) \<subseteq> set ((fls(j := ys @ e # zs)) i)" using sp by auto
  ultimately show ?thesis by blast
qed

lemma rechain_ok:
  assumes inv: "fl_inv (entries s) (free_list s) fls L" and fin: "finite L"
    and e: "e \<in> set (fls (unat (size_to_page_order old)))"
    and rg: "\<forall>x \<in> L. ranged (entries s) x" and n: "card L \<le> n"
  shows "\<exists>s' fls'. (chain_entry_to_free_list n s e (Some old) :: ('e, _) outcome) = Ok s'
     \<and> relisted s s' L \<and> fl_inv (entries s') (free_list s') fls' L
     \<and> filed (entries s') fls' e
     \<and> (\<forall>i. set (fls i) - {e} \<subseteq> set (fls' i))"
proof (cases "old = entry_size (entries s) e")
  case True
  have "ranged (entries s) e" using inv e rg by (auto simp: fl_inv_def)
  with True have "(chain_entry_to_free_list n s e (Some old) :: ('e, _) outcome) = Ok s"
    by (simp add: chain_entry_to_free_list_def Let_def)
  then show ?thesis
    using inv e True by (auto simp: relisted_def filed_def order_of_def intro!: exI [of _ s])
next
  case False
  define i where "i = unat (size_to_page_order old)"
  have i: "i < NUM_OF_FREE_LIST" by (simp add: i_def size_to_page_order_bound)
  have e: "e \<in> set (fls i)" using e by (simp add: i_def)
  have len: "length (free_list s) = NUM_OF_FREE_LIST" and eL: "e \<in> L"
    using inv e by (auto simp: fl_inv_def)
  note un = unchain_fl_inv [OF inv i e]
  define s1 where "s1 = s\<lparr>free_list := without_entry (entries s) (free_list s) i e,
    entries := unchain_from_freelist (entries s) e\<rparr>"
  have st: "strip (entries s1) = strip (entries s)" using un(4) by (simp add: s1_def)
  have card: "card (L - {e}) \<le> n" using n fin card_mono [of L "L - {e}"] by auto
  have inv1: "fl_inv (entries s1) (free_list s1) (fls(i := remove1 e (fls i))) (L - {e})"
    and none: "list_prev (entries s1 e) = None" "list_next (entries s1 e) = None"
    using un by (simp_all add: s1_def)
  have rg1: "\<forall>x \<in> L - {e}. ranged (entries s1) x" "ranged (entries s1) e"
    using rg eL strip_sizes(3) [OF st] by auto
  from chain_new_ok [OF inv1 _ _ none rg1 card, where 'e = 'e] fin
  obtain s' fls' where "(chain_entry_to_free_list n s1 e None :: ('e, _) outcome) = Ok s'"
    and rel: "relisted s1 s' (insert e (L - {e}))"
    and inv': "fl_inv (entries s') (free_list s') fls' (insert e (L - {e}))"
    and fe: "filed (entries s') fls' e"
    and fo: "\<forall>j. set ((fls(i := remove1 e (fls i))) j) \<subseteq> set (fls' j)"
    by auto
  moreover have "(chain_entry_to_free_list n s e (Some old) :: ('e, _) outcome) =
      chain_entry_to_free_list n s1 e None"
    using False rg eL i len rg1(2) strip_sizes(1) [OF st]
    by (simp add: chain_entry_to_free_list_def Let_def s1_def without_entry_def i_def)
  moreover have "relisted s s' L"
    using rel un(5) st eL unfolding relisted_def insert_Diff [OF eL]
    by (simp add: s1_def)
  moreover have "\<forall>j. set (fls j) - {e} \<subseteq> set (fls' j)"
  proof
    fix j
    have "set (fls j) - {e} \<subseteq> set ((fls(i := remove1 e (fls i))) j)" by (rule set_remove1_upd)
    with fo show "set (fls j) - {e} \<subseteq> set (fls' j)" by blast
  qed
  moreover have "insert e (L - {e}) = L" using eL by (rule insert_Diff)
  ultimately show ?thesis by (intro exI [of _ s'] exI [of _ fls']) simp
qed

text \<open>An entry that stays in its list stays filed.\<close>

lemma filed_kept:
  assumes "filed h fls x" and "\<forall>i. set (fls i) - A \<subseteq> set (fls' i)" and "x \<notin> A"
    and "me_start (h' x) = me_start (h x)" and "me_end (h' x) = me_end (h x)"
  shows "filed h' fls' x"
proof -
  have "order_of h' x = order_of h x" using assms(4,5) by (simp add: order_of_def entry_size_def)
  with assms(1-3) show ?thesis by (auto simp: filed_def)
qed

end
