(* ===== verification/Memory_Ranges.thy ===== *)
theory Memory_Ranges
  imports Main
begin

text \<open>
  The abstract view of free memory: a list of address ranges in increasing order, no two
  of which touch, and the set of bytes they cover. The operations of the physical memory
  manager are edits of such a list; this theory has their effect on the set of bytes and
  on its size.
\<close>

primrec sep :: "nat \<Rightarrow> (nat \<times> nat) list \<Rightarrow> bool" where
  "sep lo [] \<longleftrightarrow> True"
| "sep lo (r # rs) \<longleftrightarrow> lo \<le> fst r \<and> fst r < snd r \<and> sep (snd r + 2) rs"

primrec span_top :: "nat \<Rightarrow> (nat \<times> nat) list \<Rightarrow> nat" where
  "span_top lo [] = lo"
| "span_top lo (r # rs) = span_top (snd r + 2) rs"

primrec bytes :: "(nat \<times> nat) list \<Rightarrow> nat set" where
  "bytes [] = {}"
| "bytes (r # rs) = {fst r .. snd r} \<union> bytes rs"

primrec total_size :: "(nat \<times> nat) list \<Rightarrow> nat" where
  "total_size [] = 0"
| "total_size (r # rs) = snd r + 1 - fst r + total_size rs"

lemma sep_append [simp]: "sep lo (rs @ qs) \<longleftrightarrow> sep lo rs \<and> sep (span_top lo rs) qs"
  by (induction rs arbitrary: lo) auto

lemma top_append [simp]: "span_top lo (rs @ qs) = span_top (span_top lo rs) qs"
  by (induction rs arbitrary: lo) auto

lemma bytes_append [simp]: "bytes (rs @ qs) = bytes rs \<union> bytes qs"
  by (induction rs) auto

lemma total_append [simp]: "total_size (rs @ qs) = total_size rs + total_size qs"
  by (induction rs) auto

lemma sep_mono: "sep hi rs \<Longrightarrow> lo \<le> hi \<Longrightarrow> sep lo rs"
  by (cases rs) auto

lemma span_top_mono: "lo \<le> hi \<Longrightarrow> span_top lo rs \<le> span_top hi rs"
  by (cases rs) auto

lemma span_top_ge: "sep lo rs \<Longrightarrow> lo \<le> span_top lo rs"
proof (induction rs arbitrary: lo)
  case Nil
  then show ?case by simp
next
  case (Cons r rs)
  from Cons.IH [of "snd r + 2"] Cons.prems show ?case by simp
qed

lemma bytes_ge: "sep lo rs \<Longrightarrow> x \<in> bytes rs \<Longrightarrow> lo \<le> x"
proof (induction rs arbitrary: lo)
  case Nil
  then show ?case by simp
next
  case (Cons r rs)
  from Cons.IH [of "snd r + 2"] Cons.prems show ?case by auto
qed

lemma bytes_less: "sep lo rs \<Longrightarrow> x \<in> bytes rs \<Longrightarrow> x + 2 \<le> span_top lo rs"
proof (induction rs arbitrary: lo)
  case Nil
  then show ?case by simp
next
  case (Cons r rs)
  from Cons.IH [of "snd r + 2"] Cons.prems span_top_ge [of "snd r + 2" rs] show ?case by auto
qed

lemma finite_bytes [simp]: "finite (bytes rs)"
  by (induction rs) auto

lemma card_bytes: "sep lo rs \<Longrightarrow> card (bytes rs) = total_size rs"
proof (induction rs arbitrary: lo)
  case Nil
  then show ?case by simp
next
  case (Cons r rs)
  have "{fst r .. snd r} \<inter> bytes rs = {}" using Cons.prems bytes_ge [of "snd r + 2" rs] by force
  then show ?case using Cons by (auto simp: card_Un_disjoint)
qed

lemma total_less: "sep lo rs \<Longrightarrow> total_size rs + lo \<le> span_top lo rs"
proof (induction rs arbitrary: lo)
  case Nil
  then show ?case by simp
next
  case (Cons r rs)
  from Cons.IH [of "snd r + 2"] Cons.prems show ?case by auto
qed

lemma bytes_mem: "x \<in> bytes (map f es) \<longleftrightarrow> (\<exists>e \<in> set es. fst (f e) \<le> x \<and> x \<le> snd (f e))"
  by (induction es) auto

text \<open>A contiguous block of free bytes lies in one range.\<close>

lemma block_in_one_range:
  assumes "sep lo rs" and "{a ..< a + k} \<subseteq> bytes rs" and "0 < k"
  shows "\<exists>r \<in> set rs. fst r \<le> a \<and> a + k \<le> snd r + 1"
  using assms
proof (induction rs arbitrary: lo)
  case Nil
  then show ?case by simp
next
  case (Cons r rs)
  have above: "snd r + 2 \<le> x" if "x \<in> bytes rs" for x
    using Cons.prems(1) bytes_ge [of "snd r + 2" rs x] that by simp
  show ?case
  proof (cases "a \<le> snd r")
    case True
    have "a \<in> {a ..< a + k}" using Cons.prems(3) by simp
    with Cons.prems(2) have "a \<in> bytes (r # rs)" by blast
    then have "fst r \<le> a" using True above [of a] by auto
    moreover have "snd r + 1 \<notin> bytes (r # rs)" using above [of "snd r + 1"] by auto
    then have "snd r + 1 \<notin> {a ..< a + k}" using Cons.prems(2) by blast
    then have "a + k \<le> snd r + 1" using True by simp
    ultimately show ?thesis by auto
  next
    case False
    then have "{a ..< a + k} \<subseteq> bytes rs" using Cons.prems(2) by auto
    with Cons.IH [of "snd r + 2"] Cons.prems(1,3) show ?thesis by auto
  qed
qed

text \<open>The ranges are determined by the bytes they cover.\<close>

lemma sep_unique:
  "sep lo rs \<Longrightarrow> sep lo' qs \<Longrightarrow> bytes rs = bytes qs \<Longrightarrow> rs = qs"
proof (induction rs arbitrary: lo lo' qs)
  case Nil
  then show ?case by (cases qs) auto
next
  case (Cons r rs)
  then obtain q qs' where qs: "qs = q # qs'" by (cases qs) auto
  have r: "fst r < snd r" "sep (snd r + 2) rs" and q: "fst q < snd q" "sep (snd q + 2) qs'"
    using Cons.prems(1,2) qs by simp_all
  have above: "snd r + 2 \<le> x" if "x \<in> bytes rs" for x using bytes_ge [OF r(2) that] .
  have above': "snd q + 2 \<le> x" if "x \<in> bytes qs'" for x using bytes_ge [OF q(2) that] .
  have eq: "x \<in> {fst r..snd r} \<union> bytes rs \<longleftrightarrow> x \<in> {fst q..snd q} \<union> bytes qs'" for x
    using Cons.prems(3) qs by simp
  have "fst r = fst q"
    using eq [of "fst r"] eq [of "fst q"] r(1) q(1) above [of "fst q"] above' [of "fst r"] by force
  moreover have "snd r = snd q"
    using eq [of "snd r + 1"] eq [of "snd q + 1"] eq [of "snd r"] eq [of "snd q"] r(1) q(1)
      above [of "snd r + 1"] above' [of "snd q + 1"] above' [of "snd r"] above [of "snd q"]
      \<open>fst r = fst q\<close> by force
  ultimately have rq: "r = q" by (simp add: prod_eq_iff)
  have "bytes rs = bytes qs'"
  proof (rule set_eqI)
    fix x
    show "x \<in> bytes rs \<longleftrightarrow> x \<in> bytes qs'"
      using eq [of x] above [of x] above' [of x] rq by auto
  qed
  with Cons.IH r(2) q(2) rq qs show ?case by blast
qed

text \<open>
  Memory that is handed out in units of at least two bytes: then no edit ever leaves a
  single byte over.
\<close>

definition paired :: "nat set \<Rightarrow> bool" where
  "paired F \<longleftrightarrow> (\<forall>k. 2 * k \<in> F \<longleftrightarrow> 2 * k + 1 \<in> F)"

lemma paired_ranges:
  assumes "sep lo rs" and "paired (bytes rs)" and "r \<in> set rs"
  shows "even (fst r)" and "odd (snd r)"
proof -
  obtain as bs where rs: "rs = as @ r # bs" using assms(3) by (meson split_list)
  have r: "span_top lo as \<le> fst r" "fst r < snd r" "sep lo as" "sep (snd r + 2) bs"
    using assms(1) by (simp_all add: rs)
  have out: "x \<notin> bytes rs" if "x + 1 = fst r \<or> x = snd r + 1" for x
    using that r bytes_less [of lo as x] bytes_ge [of "snd r + 2" bs x] by (auto simp: rs)
  have "fst r \<in> bytes rs" and "snd r \<in> bytes rs" using r(2) by (simp_all add: rs)
  show "even (fst r)"
  proof (rule ccontr)
    assume "odd (fst r)"
    then obtain k where k: "fst r = 2 * k + 1" by (rule oddE)
    with assms(2) \<open>fst r \<in> bytes rs\<close> have "2 * k \<in> bytes rs" by (simp add: paired_def)
    with out [of "2 * k"] k show False by simp
  qed
  show "odd (snd r)"
  proof
    assume "even (snd r)"
    then obtain k where k: "snd r = 2 * k" by (rule evenE)
    with assms(2) \<open>snd r \<in> bytes rs\<close> have "2 * k + 1 \<in> bytes rs" by (simp add: paired_def)
    with out [of "2 * k + 1"] k show False by simp
  qed
qed

lemma paired_diff: "paired F \<Longrightarrow> paired G \<Longrightarrow> paired (F - G)"
  by (simp add: paired_def)

lemma paired_Un: "paired F \<Longrightarrow> paired G \<Longrightarrow> paired (F \<union> G)"
  by (simp add: paired_def)

lemma paired_block: "even a \<Longrightarrow> even k \<Longrightarrow> paired {a ..< a + k}"
  unfolding paired_def by (auto elim!: evenE) presburger+

section \<open>Taking a block out of a range\<close>

lemma cut_bytes:
  assumes "sep lo (as @ (s, e) # bs)" and "s \<le> a" and "a \<le> b" and "b \<le> e"
  shows "bytes (as @ (s, e) # bs) - {a..b} = bytes as \<union> ({s..<a} \<union> {b<..e}) \<union> bytes bs"
proof -
  have "x \<notin> {a..b}" if "x \<in> bytes as \<union> bytes bs" for x
    using that assms bytes_less [of lo as x] bytes_ge [of "e + 2" bs x] by auto
  then show ?thesis using assms(2-4) by auto
qed

lemma cut_whole:
  assumes "sep lo (as @ (s, e) # bs)"
  shows "sep lo (as @ bs)" and "bytes (as @ bs) = bytes (as @ (s, e) # bs) - {s..e}"
    and "total_size (as @ bs) + (e + 1 - s) = total_size (as @ (s, e) # bs)"
    and "span_top lo (as @ bs) \<le> span_top lo (as @ (s, e) # bs)"
proof -
  have lo: "span_top lo as \<le> e + 2" using assms by simp
  show "sep lo (as @ bs)" using assms sep_mono [OF _ lo] by simp
  show "span_top lo (as @ bs) \<le> span_top lo (as @ (s, e) # bs)" using span_top_mono [OF lo] by simp
  have "s \<le> e" using assms by simp
  from cut_bytes [OF assms order_refl this order_refl]
  show "bytes (as @ bs) = bytes (as @ (s, e) # bs) - {s..e}" by simp
qed simp

lemma cut_front:
  assumes "sep lo (as @ (s, e) # bs)" and "s \<le> b" and "b + 1 < e"
  shows "sep lo (as @ (b + 1, e) # bs)"
    and "bytes (as @ (b + 1, e) # bs) = bytes (as @ (s, e) # bs) - {s..b}"
    and "total_size (as @ (b + 1, e) # bs) + (b + 1 - s) = total_size (as @ (s, e) # bs)"
    and "span_top lo (as @ (b + 1, e) # bs) = span_top lo (as @ (s, e) # bs)"
proof -
  have "b \<le> e" and gap: "{b<..e} = {b + 1..e}" using assms(3) by auto
  from cut_bytes [OF assms(1) order_refl assms(2) \<open>b \<le> e\<close>]
  show "bytes (as @ (b + 1, e) # bs) = bytes (as @ (s, e) # bs) - {s..b}"
    unfolding gap by (simp add: Un_assoc)
qed (use assms in simp_all)

lemma cut_back:
  assumes "sep lo (as @ (s, e) # bs)" and "s + 1 < a" and "a \<le> e"
  shows "sep lo (as @ (s, a - 1) # bs)"
    and "bytes (as @ (s, a - 1) # bs) = bytes (as @ (s, e) # bs) - {a..e}"
    and "total_size (as @ (s, a - 1) # bs) + (e + 1 - a) = total_size (as @ (s, e) # bs)"
    and "span_top lo (as @ (s, a - 1) # bs) \<le> span_top lo (as @ (s, e) # bs)"
proof -
  have lo: "a - 1 + 2 \<le> e + 2" using assms(3) by simp
  show "sep lo (as @ (s, a - 1) # bs)" using assms sep_mono [OF _ lo] by simp
  show "span_top lo (as @ (s, a - 1) # bs) \<le> span_top lo (as @ (s, e) # bs)"
    using span_top_mono [OF lo] by simp
  have "s \<le> a" and gap: "{s..<a} = {s..a - 1}" using assms(2) by auto
  from cut_bytes [OF assms(1) \<open>s \<le> a\<close> assms(3) order_refl]
  show "bytes (as @ (s, a - 1) # bs) = bytes (as @ (s, e) # bs) - {a..e}"
    unfolding gap by (simp add: Un_assoc)
qed (use assms in simp)

lemma cut_middle:
  assumes "sep lo (as @ (s, e) # bs)" and "s + 1 < a" and "a \<le> b" and "b + 1 < e"
  shows "sep lo (as @ (s, a - 1) # (b + 1, e) # bs)"
    and "bytes (as @ (s, a - 1) # (b + 1, e) # bs) = bytes (as @ (s, e) # bs) - {a..b}"
    and "total_size (as @ (s, a - 1) # (b + 1, e) # bs) + (b + 1 - a) = total_size (as @ (s, e) # bs)"
    and "span_top lo (as @ (s, a - 1) # (b + 1, e) # bs) = span_top lo (as @ (s, e) # bs)"
proof -
  have "s \<le> a" and "b \<le> e" and gap: "{s..<a} = {s..a - 1}" "{b<..e} = {b + 1..e}"
    using assms(2,4) by auto
  from cut_bytes [OF assms(1) \<open>s \<le> a\<close> assms(3) \<open>b \<le> e\<close>]
  show "bytes (as @ (s, a - 1) # (b + 1, e) # bs) = bytes (as @ (s, e) # bs) - {a..b}"
    unfolding gap by (simp add: Un_assoc)
qed (use assms in simp_all)

section \<open>Putting a block into a gap\<close>

text \<open>
  A block \<open>{a..b}\<close> disjoint from all ranges lies in the gap between the ranges below and
  those above it; it is a range of its own or joins the neighbours it touches.
\<close>

lemma put_new:
  assumes "sep lo (as @ bs)" and "span_top lo as \<le> a" and "a < b" and "sep (b + 2) bs"
  shows "sep lo (as @ (a, b) # bs)" and "bytes (as @ (a, b) # bs) = bytes (as @ bs) \<union> {a..b}"
    and "total_size (as @ (a, b) # bs) = total_size (as @ bs) + (b + 1 - a)"
  using assms by (simp_all add: Un_ac)

lemma put_after:
  assumes "sep lo (as @ (s, e) # bs)" and "e + 1 = a" and "a \<le> b" and "sep (b + 2) bs"
  shows "sep lo (as @ (s, b) # bs)"
    and "bytes (as @ (s, b) # bs) = bytes (as @ (s, e) # bs) \<union> {a..b}"
    and "total_size (as @ (s, b) # bs) = total_size (as @ (s, e) # bs) + (b + 1 - a)"
proof -
  have "{s..b} = {s..e} \<union> {a..b}" using assms by auto
  then show "bytes (as @ (s, b) # bs) = bytes (as @ (s, e) # bs) \<union> {a..b}" by (simp add: Un_ac)
qed (use assms in simp_all)

lemma put_before:
  assumes "sep lo (as @ (s, e) # bs)" and "span_top lo as \<le> a" and "a \<le> b" and "b + 1 = s"
  shows "sep lo (as @ (a, e) # bs)"
    and "bytes (as @ (a, e) # bs) = bytes (as @ (s, e) # bs) \<union> {a..b}"
    and "total_size (as @ (a, e) # bs) = total_size (as @ (s, e) # bs) + (b + 1 - a)"
proof -
  have "{a..e} = {s..e} \<union> {a..b}" using assms by auto
  then show "bytes (as @ (a, e) # bs) = bytes (as @ (s, e) # bs) \<union> {a..b}" by (simp add: Un_ac)
qed (use assms in simp_all)

lemma put_join:
  assumes "sep lo (as @ (s, e) # (s', e') # bs)" and "e + 1 = a" and "a \<le> b" and "b + 1 = s'"
  shows "sep lo (as @ (s, e') # bs)"
    and "bytes (as @ (s, e') # bs) = bytes (as @ (s, e) # (s', e') # bs) \<union> {a..b}"
    and "total_size (as @ (s, e') # bs) = total_size (as @ (s, e) # (s', e') # bs) + (b + 1 - a)"
proof -
  have "{s..e'} = {s..e} \<union> {s'..e'} \<union> {a..b}" using assms by auto
  then show "bytes (as @ (s, e') # bs) = bytes (as @ (s, e) # (s', e') # bs) \<union> {a..b}"
    by (simp add: Un_ac)
qed (use assms in simp_all)

end
