(* ===== verification/Memory_Invariant.thy ===== *)
theory Memory_Invariant
  imports Memory_Lists Memory_Ranges "HOL-Library.Multiset"
begin

text \<open>
  The invariant of the physical memory manager: the address list links entries whose
  ranges increase and never touch, the free lists hold exactly these entries, each under
  the order of its size, the byte count is the size of the free set, and the entry pool
  holds the entries that are not in use.
\<close>

definition range_of :: "entry_heap \<Rightarrow> usize \<Rightarrow> nat \<times> nat" where
  "range_of h e = (unat (me_start (h e)), unat (me_end (h e)))"

lemma range_of_simps [simp]:
  "fst (range_of h e) = unat (me_start (h e))" "snd (range_of h e) = unat (me_end (h e))"
  by (simp_all add: range_of_def)

definition linked :: "entry_heap \<Rightarrow> usize \<Rightarrow> usize list \<Rightarrow> bool" where
  "linked h first es \<longleftrightarrow>
     es \<noteq> [] \<and> distinct es \<and> chain (me_previous \<circ> h) (me_next \<circ> h) None es None \<and>
     first = hd es \<and> (\<forall>e \<in> set es. enabled (h e))"

definition ranges_ok :: "(nat \<times> nat) list \<Rightarrow> bool" where
  "ranges_ok rs \<longleftrightarrow> sep 0 rs \<and> span_top 0 rs \<le> 2 ^ 64"

definition pool_ok :: "pool_state \<Rightarrow> usize list \<Rightarrow> usize list \<Rightarrow> bool" where
  "pool_ok p es ps \<longleftrightarrow>
     pool_holds p ps \<and> set ps \<inter> set es = {} \<and>
     (\<forall>a \<in> set ps \<union> set es. a + pool_offset (snd p) \<noteq> 0)"

definition pmm_inv ::
  "PhysicalMemoryManager \<Rightarrow> usize list \<Rightarrow> (nat \<Rightarrow> usize list) \<Rightarrow> usize list \<Rightarrow> bool" where
  "pmm_inv s es fls ps \<longleftrightarrow>
     linked (entries s) (first_entry s) es \<and>
     ranges_ok (map (range_of (entries s)) es) \<and>
     fl_inv (entries s) (free_list s) fls (set es) \<and> (\<forall>e \<in> set es. filed (entries s) fls e) \<and>
     unat (free_memory_size s) = total_size (map (range_of (entries s)) es) \<and>
     pool_ok (memory_entry_pool s) es ps"

text \<open>The abstract state: the set of free bytes.\<close>

definition free_bytes :: "PhysicalMemoryManager \<Rightarrow> usize list \<Rightarrow> nat set" where
  "free_bytes s es = bytes (map (range_of (entries s)) es)"

section \<open>Frames\<close>

lemma range_of_strip: "strip h' = strip h \<Longrightarrow> range_of h' = range_of h"
  by (rule ext) (simp add: range_of_def strip_eqD [of h' h])

lemma linked_cong:
  assumes "\<And>a. a \<in> set es \<Longrightarrow> me_previous (h' a) = me_previous (h a) \<and> me_next (h' a) = me_next (h a)
             \<and> enabled (h' a) = enabled (h a)"
  shows "linked h' first es = linked h first es"
proof -
  have "chain (me_previous \<circ> h') (me_next \<circ> h') None es None =
        chain (me_previous \<circ> h) (me_next \<circ> h) None es None"
    using assms by (intro chain_cong) simp
  then show ?thesis using assms by (auto simp: linked_def)
qed

lemma linked_strip: "strip h' = strip h \<Longrightarrow> linked h' first es = linked h first es"
  by (rule linked_cong) (simp add: strip_eqD [of h' h])

lemma map_range_cong:
  "(\<And>a. a \<in> set es \<Longrightarrow> me_start (h' a) = me_start (h a) \<and> me_end (h' a) = me_end (h a)) \<Longrightarrow>
     map (range_of h') es = map (range_of h) es"
  by (simp add: range_of_def)

lemma ranges_okD:
  assumes "ranges_ok (map (range_of h) es)" and "e \<in> set es"
  shows "me_start (h e) < me_end (h e)" and "unat (me_end (h e)) + 2 \<le> 2 ^ 64" and "ranged h e"
proof -
  obtain as bs where es: "es = as @ e # bs" using assms(2) by (meson split_list)
  from assms(1) show less: "me_start (h e) < me_end (h e)"
    by (simp add: es ranges_ok_def range_of_def word_less_nat_alt)
  then show "ranged h e" by (simp add: ranged_def)
  from assms(1) have "sep (unat (me_end (h e)) + 2) (map (range_of h) bs)"
    and "span_top (unat (me_end (h e)) + 2) (map (range_of h) bs) \<le> 2 ^ 64"
    by (simp_all add: es ranges_ok_def range_of_def)
  then show "unat (me_end (h e)) + 2 \<le> 2 ^ 64" using span_top_ge le_trans by blast
qed

lemma unat_entry_size:
  assumes "me_start (h e) < me_end (h e)" and "unat (me_end (h e)) + 2 \<le> 2 ^ 64"
  shows "unat (entry_size h e) = snd (range_of h e) + 1 - fst (range_of h e)"
proof -
  have d: "unat (me_end (h e) - me_start (h e)) = unat (me_end (h e)) - unat (me_start (h e))"
    using assms(1) by (simp add: unat_sub_le)
  with assms(2) have "unat (me_end (h e) - me_start (h e)) + unat (1 :: usize) < 2 ^ 64" by simp
  then have "unat (entry_size h e) = unat (me_end (h e) - me_start (h e)) + 1"
    unfolding entry_size_def by (simp add: unat_add_noovf)
  then show ?thesis using d assms(1) by (simp add: range_of_def word_less_nat_alt)
qed

section \<open>Resizing an entry\<close>

definition with_range :: "entry_heap \<Rightarrow> usize \<Rightarrow> usize \<Rightarrow> usize \<Rightarrow> entry_heap" where
  "with_range h e a b = h(e := (h e)\<lparr>me_start := a, me_end := b\<rparr>)"

lemma with_range_simps [simp]:
  "me_start (with_range h e a b x) = (if x = e then a else me_start (h x))"
  "me_end (with_range h e a b x) = (if x = e then b else me_end (h x))"
  "me_previous (with_range h e a b x) = me_previous (h x)"
  "me_next (with_range h e a b x) = me_next (h x)"
  "enabled (with_range h e a b x) = enabled (h x)"
  "list_prev (with_range h e a b x) = list_prev (h x)"
  "list_next (with_range h e a b x) = list_next (h x)"
  "x \<noteq> e \<Longrightarrow> with_range h e a b x = h x"
  by (simp_all add: with_range_def)

lemma set_range_ok [simp]: "a < b \<Longrightarrow> set_range h e a b = Ok (with_range h e a b)"
  by (simp add: set_range_def with_range_def)

lemma set_range_panic: "\<not> a < b \<Longrightarrow> set_range h e a b = Panic"
  by (simp add: set_range_def assert_that_def)

lemma linked_with_range [simp]: "linked (with_range h e a b) first es = linked h first es"
  by (rule linked_cong) simp

lemma fl_inv_with_range [simp]: "fl_inv (with_range h e a b) fl fls L = fl_inv h fl fls L"
  by (rule fl_inv_cong) simp

lemma filed_with_range: "x \<noteq> e \<Longrightarrow> filed (with_range h e a b) fls x = filed h fls x"
  by (simp add: filed_def order_of_def entry_size_def)

lemma ranged_with_range: "x \<noteq> e \<Longrightarrow> ranged (with_range h e a b) x = ranged h x"
  by (simp add: ranged_def)

lemma map_range_with_range:
  assumes "distinct (as @ e # bs)"
  shows "map (range_of (with_range h e a b)) (as @ e # bs) =
    map (range_of h) as @ (unat a, unat b) # map (range_of h) bs"
proof -
  have "e \<notin> set as" and "e \<notin> set bs" using assms by auto
  then show ?thesis by (auto simp: range_of_def)
qed

text \<open>
  The list part of the invariant. \<open>set_range\<close> followed by \<open>chain_entry_to_free_list\<close> with
  the old size restores it.
\<close>

definition listed :: "PhysicalMemoryManager \<Rightarrow> (nat \<Rightarrow> usize list) \<Rightarrow> usize set \<Rightarrow> bool" where
  "listed s fls L \<longleftrightarrow>
     finite L \<and> fl_inv (entries s) (free_list s) fls L \<and>
     (\<forall>e \<in> L. filed (entries s) fls e \<and> ranged (entries s) e)"

definition same_range :: "entry_heap \<Rightarrow> entry_heap \<Rightarrow> usize \<Rightarrow> bool" where
  "same_range h' h x \<longleftrightarrow> me_start (h' x) = me_start (h x) \<and> me_end (h' x) = me_end (h x)"

lemma same_range_filed: "same_range h' h x \<Longrightarrow> filed h' fls x = filed h fls x"
  by (simp add: same_range_def filed_def order_of_def entry_size_def)

lemma same_range_ranged: "same_range h' h x \<Longrightarrow> ranged h' x = ranged h x"
  by (simp add: same_range_def ranged_def)

lemma same_range_with_range: "x \<noteq> e \<Longrightarrow> same_range (with_range h e a b) h x"
  by (simp add: same_range_def)

lemma resize_listed:
  assumes l: "listed s fls L" and e: "e \<in> L" and ab: "a < b" and n: "card L \<le> n"
    and s1: "fl_inv (entries s1) (free_list s1) fls L"
      "\<forall>x \<in> L. same_range (entries s1) (with_range (entries s) e a b) x"
  shows "\<exists>s' fls'. (chain_entry_to_free_list n s1 e (Some (entry_size (entries s) e)) :: ('e, _) outcome)
       = Ok s' \<and> relisted s1 s' L \<and> listed s' fls' L"
proof -
  let ?h = "with_range (entries s) e a b"
  have "ranged ?h x" if "x \<in> L" for x
    using l ab that by (cases "x = e") (auto simp: listed_def ranged_def)
  then have rg: "\<forall>x \<in> L. ranged (entries s1) x" using s1(2) same_range_ranged by blast
  have old: "e \<in> set (fls (unat (size_to_page_order (entry_size (entries s) e))))"
    using l e by (simp add: listed_def filed_def order_of_def)
  have fin: "finite L" using l by (simp add: listed_def)
  from rechain_ok [OF s1(1) fin old rg n, where 'e = 'e]
  obtain s' fls' where
    eq: "(chain_entry_to_free_list n s1 e (Some (entry_size (entries s) e)) :: ('e, _) outcome) = Ok s'"
    and rel: "relisted s1 s' L" and inv: "fl_inv (entries s') (free_list s') fls' L"
    and f: "filed (entries s') fls' e" "\<forall>i. set (fls i) - {e} \<subseteq> set (fls' i)"
    by blast
  have "filed (entries s') fls' x" if x: "x \<in> L" for x
  proof (cases "x = e")
    case False
    have "filed (entries s) fls x" using l x by (simp add: listed_def)
    then have "filed (entries s1) fls x"
      using False x s1(2) same_range_filed same_range_with_range by blast
    from filed_kept [OF this f(2)] False strip_eqD [OF relistedD(5) [OF rel]] show ?thesis by simp
  qed (simp add: f(1))
  moreover have "ranged (entries s') x" if "x \<in> L" for x
    using rg that strip_sizes(3) [OF relistedD(5) [OF rel]] by simp
  ultimately have "listed s' fls' L" using inv fin by (simp add: listed_def)
  with eq rel show ?thesis by blast
qed

text \<open>An entry with a changed size and a new one, as after a split.\<close>

lemma resize_and_new_listed:
  assumes l: "listed s fls L" and e: "e \<in> L" and ab: "a < b" and n: "card L \<le> n" and x: "x \<notin> L"
    and s1: "fl_inv (entries s1) (free_list s1) fls L"
      "\<forall>y \<in> L. same_range (entries s1) (with_range (entries s) e a b) y"
    and new: "ranged (entries s1) x" "list_prev (entries s1 x) = None" "list_next (entries s1 x) = None"
  shows "\<exists>s' fls'. obind (chain_entry_to_free_list n s1 e (Some (entry_size (entries s) e)))
         (\<lambda>s2. chain_entry_to_free_list n s2 x None :: ('e, _) outcome) = Ok s'
       \<and> relisted s1 s' (insert x L) \<and> listed s' fls' (insert x L)"
proof -
  from resize_listed [OF l e ab n s1, where 'e = 'e] obtain s2 fls2 where
    eq: "(chain_entry_to_free_list n s1 e (Some (entry_size (entries s) e)) :: ('e, _) outcome) = Ok s2"
    and rel: "relisted s1 s2 L" and l2: "listed s2 fls2 L" by blast
  have x2: "entries s2 x = entries s1 x" using relistedD(6) [OF rel x] .
  have inv2: "fl_inv (entries s2) (free_list s2) fls2 L" and fin: "finite L"
    and rg2: "\<forall>y \<in> L. ranged (entries s2) y" using l2 by (simp_all add: listed_def)
  have none: "list_prev (entries s2 x) = None" "list_next (entries s2 x) = None"
    and rx: "ranged (entries s2) x"
    using new x2 by (simp_all add: ranged_def)
  from chain_new_ok [OF inv2 fin x none rg2 rx n, where 'e = 'e] obtain s3 fls3 where
    eq3: "(chain_entry_to_free_list n s2 x None :: ('e, _) outcome) = Ok s3"
    and rel3: "relisted s2 s3 (insert x L)" and inv3: "fl_inv (entries s3) (free_list s3) fls3 (insert x L)"
    and f3: "filed (entries s3) fls3 x" "\<forall>i. set (fls2 i) \<subseteq> set (fls3 i)"
    by blast
  have "ranged (entries s3) y" if "y \<in> insert x L" for y
    using that rg2 rx strip_sizes(3) [OF relistedD(5) [OF rel3]] by auto
  moreover have "filed (entries s3) fls3 y" if "y \<in> L" for y
  proof -
    have "filed (entries s2) fls2 y" using l2 that by (simp add: listed_def)
    from filed_kept [OF this, of "{}" fls3 "entries s3"] f3(2) strip_eqD [OF relistedD(5) [OF rel3]]
    show ?thesis by simp
  qed
  ultimately have "listed s3 fls3 (insert x L)" using inv3 f3(1) fin by (auto simp: listed_def)
  moreover have "relisted s1 s3 (insert x L)"
    unfolding relisted_def
  proof (intro conjI allI impI)
    have a: "s3 = s2\<lparr>free_list := free_list s3, entries := entries s3\<rparr>"
      and b: "s2 = s1\<lparr>free_list := free_list s2, entries := entries s2\<rparr>"
      using rel rel3 by (simp_all add: relisted_def)
    show "s3 = s1\<lparr>free_list := free_list s3, entries := entries s3\<rparr>"
      by (subst a, subst b) simp
    show "strip (entries s3) = strip (entries s1)"
      using relistedD(5) [OF rel] relistedD(5) [OF rel3] by simp
  next
    fix y
    assume "y \<notin> insert x L"
    then show "entries s3 y = entries s1 y"
      using relistedD(6) [OF rel] relistedD(6) [OF rel3] by simp
  qed
  ultimately show ?thesis using eq eq3 by (intro exI [of _ s3] exI [of _ fls3]) simp
qed

lemma resize_entry_ok:
  assumes l: "listed s fls L" and e: "e \<in> L" and ab: "a < b" and n: "card L \<le> n"
  shows "\<exists>s' fls'. (resize_entry n s e a b :: ('e, _) outcome) = Ok s'
     \<and> relisted (s\<lparr>entries := with_range (entries s) e a b\<rparr>) s' L \<and> listed s' fls' L"
proof -
  let ?s1 = "s\<lparr>entries := with_range (entries s) e a b\<rparr>"
  have "fl_inv (entries ?s1) (free_list ?s1) fls L" using l by (simp add: listed_def)
  moreover have "\<forall>x \<in> L. same_range (entries ?s1) (with_range (entries s) e a b) x"
    by (simp add: same_range_def)
  ultimately have "\<exists>s' fls'. (chain_entry_to_free_list n ?s1 e (Some (entry_size (entries s) e))
      :: ('e, _) outcome) = Ok s' \<and> relisted ?s1 s' L \<and> listed s' fls' L"
    by (rule resize_listed [OF l e ab n])
  then
  obtain s' fls' where "(chain_entry_to_free_list n ?s1 e (Some (entry_size (entries s) e)) :: ('e, _) outcome)
       = Ok s'" and "relisted ?s1 s' L" and "listed s' fls' L" by auto
  moreover have "ranged (entries s) e" using l e by (simp add: listed_def)
  ultimately show ?thesis using ab by (auto simp: resize_entry_def)
qed

section \<open>Using the invariant\<close>

lemma pmm_listed:
  assumes "pmm_inv s es fls ps"
  shows "listed s fls (set es)"
  using assms ranges_okD(3) [of "entries s" es] by (auto simp: pmm_inv_def listed_def)

lemma pmm_card: "pmm_inv s es fls ps \<Longrightarrow> card (set es) = length es"
  by (simp add: pmm_inv_def linked_def distinct_card)

lemma pmm_distinct: "pmm_inv s es fls ps \<Longrightarrow> distinct es"
  by (simp add: pmm_inv_def linked_def)

lemma resized_inv:
  assumes inv: "pmm_inv s (as @ e # bs) fls ps"
    and rel: "relisted (s\<lparr>entries := with_range (entries s) e a b\<rparr>) s' L"
    and l: "listed s' fls' (set (as @ e # bs))"
    and rs: "rs = map (range_of (entries s)) as @ (unat a, unat b) # map (range_of (entries s)) bs"
      "ranges_ok rs" "unat m = total_size rs"
  shows "pmm_inv (s'\<lparr>free_memory_size := m\<rparr>) (as @ e # bs) fls' ps"
    and "free_bytes s' (as @ e # bs) = bytes rs" and "memory_size s' = memory_size s"
proof -
  define h' fl' where "h' = entries s'" and "fl' = free_list s'"
  have s': "s' = s\<lparr>free_list := fl', entries := h'\<rparr>"
    and st: "strip h' = strip (with_range (entries s) e a b)"
    using rel by (simp_all add: relisted_def h'_def fl'_def)
  have d: "distinct (as @ e # bs)" using pmm_distinct [OF inv] .
  have rg: "map (range_of h') (as @ e # bs) = rs"
    unfolding range_of_strip [OF st] map_range_with_range [OF d] rs(1) ..
  have "linked h' (first_entry s) (as @ e # bs)"
    using inv linked_strip [OF st] by (simp add: pmm_inv_def)
  then show "pmm_inv (s'\<lparr>free_memory_size := m\<rparr>) (as @ e # bs) fls' ps"
    using inv l rs(2,3) rg by (simp add: pmm_inv_def listed_def s')
  show "free_bytes s' (as @ e # bs) = bytes rs" using rg by (simp add: free_bytes_def s')
  show "memory_size s' = memory_size s" by (simp add: s')
qed

section \<open>Deleting an entry\<close>

lemma MemoryEntry_delete_fields [simp]:
  "me_start (MemoryEntry_delete h e x) = me_start (h x)"
  "me_end (MemoryEntry_delete h e x) = me_end (h x)"
  "list_prev (MemoryEntry_delete h e x) = list_prev (h x)"
  "list_next (MemoryEntry_delete h e x) = list_next (h x)"
  "enabled (MemoryEntry_delete h e x) = (x \<noteq> e \<and> enabled (h x))"
  by (auto simp: MemoryEntry_delete_def set_disabled_def chain_after_me_def set_next_entry_def
      set_prev_entry_def unset_next_entry_def unset_prev_entry_def Let_def split: option.split)

lemma delete_chain:
  assumes "chain (me_previous \<circ> h) (me_next \<circ> h) None (as @ e # bs) None" and "distinct (as @ e # bs)"
  shows "chain (me_previous \<circ> MemoryEntry_delete h e) (me_next \<circ> MemoryEntry_delete h e) None (as @ bs) None"
proof -
  have "me_previous (h e) = last_or None as" and "me_next (h e) = hd_or None bs"
    using chain_prev_mem [OF assms(1)] chain_next_mem [OF assms(1)] by simp_all
  then show ?thesis
    using assms
    by (cases as rule: rev_cases; cases bs)
      (auto simp: MemoryEntry_delete_def set_disabled_def chain_after_me_def set_next_entry_def
        set_prev_entry_def unset_next_entry_def unset_prev_entry_def chain_append Let_def)
qed

lemma linked_delete:
  assumes "linked h first (as @ e # bs)" and "as @ bs \<noteq> []"
  shows "linked (MemoryEntry_delete h e) (hd (as @ bs)) (as @ bs)"
  using assms delete_chain [of h as e bs] by (auto simp: linked_def)

section \<open>The entry pool\<close>

lemma pool_free_ok:
  assumes "pool_ok (memory_entry_pool s) es ps" and "e \<in> set es" and "set es' = set es - {e}"
  shows "\<exists>p. pool_free s e = Ok (s\<lparr>memory_entry_pool := p\<rparr>) \<and> pool_ok p es' (e # ps)"
proof -
  let ?p = "memory_entry_pool s"
  have h: "pool_holds ?p ps" and e: "e \<notin> set ps" "e + pool_offset (snd ?p) \<noteq> 0"
    and all: "\<forall>a \<in> set (e # ps). a + pool_offset (snd ?p) \<noteq> 0"
    using assms by (auto simp: pool_ok_def)
  have "distinct (e # ps)" using h e by (auto simp: pool_holds_def split: prod.splits)
  from pool_count_bound [OF this all] have "length ps < 2 ^ 64 - 1" by simp
  from free_ptr_ok [OF h e this, where 'e = MemoryError]
  obtain p where "(free_ptr ?p e :: (MemoryError, _) outcome) = Ok p" and "pool_holds p (e # ps)"
    and "pool_offset (snd p) = pool_offset (snd ?p)" by blast
  then show ?thesis
    using assms by - (rule exI [of _ p], auto simp: pool_free_def pool_ok_def)
qed

lemma create_memory_entry_ok:
  assumes "pool_ok (memory_entry_pool s) es (x # ps)"
  shows "\<exists>p. create_memory_entry s =
       Ok (s\<lparr>memory_entry_pool := p, entries := MemoryEntry_init (set_enabled (entries s) x) x\<rparr>, x)
     \<and> pool_ok p (x # es) ps \<and> x \<notin> set es"
proof -
  have h: "pool_holds (memory_entry_pool s) (x # ps)" using assms by (simp add: pool_ok_def)
  from alloc_ptr_Cons [OF h] obtain p where p: "alloc_ptr (memory_entry_pool s) = Ok (p, x)"
    and "pool_holds p ps" and "pool_offset (snd p) = pool_offset (snd (memory_entry_pool s))" by blast
  moreover have "x \<notin> set ps" using h by (auto simp: pool_holds_def split: prod.splits)
  ultimately show ?thesis
    using assms by - (rule exI [of _ p], auto simp: create_memory_entry_def pool_ok_def)
qed

lemma create_memory_entry_run_out:
  "pool_ok (memory_entry_pool s) es [] \<Longrightarrow> create_memory_entry s = Err EntryPoolRunOut"
  by (simp add: pool_ok_def create_memory_entry_def alloc_ptr_Nil)

lemma new_entry_fields [simp]:
  "me_start (MemoryEntry_init (set_enabled h x) x a) = me_start (h a)"
  "me_end (MemoryEntry_init (set_enabled h x) x a) = me_end (h a)"
  "me_previous (MemoryEntry_init (set_enabled h x) x a) = (if a = x then None else me_previous (h a))"
  "me_next (MemoryEntry_init (set_enabled h x) x a) = (if a = x then None else me_next (h a))"
  "list_prev (MemoryEntry_init (set_enabled h x) x a) = (if a = x then None else list_prev (h a))"
  "list_next (MemoryEntry_init (set_enabled h x) x a) = (if a = x then None else list_next (h a))"
  "enabled (MemoryEntry_init (set_enabled h x) x a) = (a = x \<or> enabled (h a))"
  "a \<noteq> x \<Longrightarrow> MemoryEntry_init (set_enabled h x) x a = h a"
  by (auto simp: MemoryEntry_init_def set_enabled_def)

section \<open>Linking a new entry\<close>

lemma chain_after_me_fields [simp]:
  "me_start (chain_after_me h u v x) = me_start (h x)"
  "me_end (chain_after_me h u v x) = me_end (h x)"
  "list_prev (chain_after_me h u v x) = list_prev (h x)"
  "list_next (chain_after_me h u v x) = list_next (h x)"
  "enabled (chain_after_me h u v x) = enabled (h x)"
  "me_next (chain_after_me h u v x) = (if x = u then Some v else me_next (h x))"
  "me_previous (chain_after_me h u v x) = (if x = v then Some u else me_previous (h x))"
  by (auto simp: chain_after_me_def set_prev_entry_def set_next_entry_def)

lemma chain_after_me_links:
  "me_next \<circ> chain_after_me h u v = (me_next \<circ> h)(u := Some v)"
  "me_previous \<circ> chain_after_me h u v = (me_previous \<circ> h)(v := Some u)"
  by (auto simp: fun_eq_iff)

definition link_after :: "entry_heap \<Rightarrow> usize \<Rightarrow> usize \<Rightarrow> entry_heap" where
  "link_after h e x =
     chain_after_me (case me_next (h e) of Some nx \<Rightarrow> chain_after_me h x nx | None \<Rightarrow> h) e x"

lemma link_after_fields [simp]:
  "me_start (link_after h e x a) = me_start (h a)" "me_end (link_after h e x a) = me_end (h a)"
  "list_prev (link_after h e x a) = list_prev (h a)" "list_next (link_after h e x a) = list_next (h a)"
  "enabled (link_after h e x a) = enabled (h a)"
  by (auto simp: link_after_def split: option.split)

lemma linked_link_after:
  assumes "linked h first (as @ e # bs)" and "x \<notin> set (as @ e # bs)" and "me_next (h x) = None"
    and "enabled (h x)"
  shows "linked (link_after h e x) first (as @ e # x # bs)"
proof -
  have ch: "chain (me_previous \<circ> h) (me_next \<circ> h) None (as @ e # bs) None" and d: "distinct (as @ e # bs)"
    using assms(1) by (simp_all add: linked_def)
  have nx: "me_next (h e) = hd_or None bs" using chain_next_mem [OF ch] by simp
  have "chain (me_previous \<circ> link_after h e x) (me_next \<circ> link_after h e x) None (as @ e # x # bs) None"
  proof (cases bs)
    case Nil
    have links: "me_previous \<circ> link_after h e x = (me_previous \<circ> h)(x := Some e)"
      "me_next \<circ> link_after h e x = (me_next \<circ> h)(x := None, e := Some x)"
      using Nil nx assms(2,3) by (auto simp: link_after_def chain_after_me_links fun_eq_iff)
    show ?thesis
      unfolding links Nil by (rule chain_link_back [OF ch [unfolded Nil] d [unfolded Nil] assms(2) [unfolded Nil]])
  next
    case (Cons b bs')
    have links: "me_previous \<circ> link_after h e x = (me_previous \<circ> h)(x := Some e, b := Some x)"
      "me_next \<circ> link_after h e x = (me_next \<circ> h)(x := Some b, e := Some x)"
      using Cons nx assms(2) d by (auto simp: link_after_def chain_after_me_links fun_eq_iff)
    have sp: "as @ e # bs = (as @ [e]) @ bs" "as @ e # x # bs = (as @ [e]) @ x # bs" by simp_all
    show ?thesis
      unfolding links sp
      by (rule chain_link_between [OF ch [unfolded sp] d [unfolded sp] assms(2) [unfolded sp] refl Cons])
  qed
  moreover have "hd (as @ e # x # bs) = hd (as @ e # bs)" by (cases as) simp_all
  ultimately show ?thesis using assms by (auto simp: linked_def)
qed

lemma linked_link_front:
  assumes "linked h first es" and "x \<notin> set es" and "me_previous (h x) = None" and "enabled (h x)"
  shows "linked (chain_after_me h x first) x (x # es)"
proof -
  obtain b bs where es: "es = b # bs" and b: "first = b" using assms(1) by (cases es) (auto simp: linked_def)
  have links: "me_previous \<circ> chain_after_me h x b = (me_previous \<circ> h)(x := None, b := Some x)"
    "me_next \<circ> chain_after_me h x b = (me_next \<circ> h)(x := Some b)"
    using assms(2,3) by (auto simp: chain_after_me_links es fun_eq_iff)
  have "chain (me_previous \<circ> chain_after_me h x b) (me_next \<circ> chain_after_me h x b) None (x # b # bs) None"
    unfolding links using assms by (intro chain_link_front) (simp_all add: linked_def es)
  then show ?thesis using assms by (auto simp: linked_def es b)
qed

section \<open>A new entry in the whole invariant\<close>

text \<open>
  The last step of every operation that adds an entry: the heap is linked with the new
  entry, the ranges are the intended ones, and the free lists take both entries.
\<close>

lemma new_entry_inv:
  assumes l: "listed s' fls' (set es')" and lk: "linked (entries s1) (first_entry s1) es'"
    and rel: "relisted s1 s' L"
    and rg: "map (range_of (entries s1)) es' = rs" "ranges_ok rs" "unat m = total_size rs"
    and pk: "pool_ok (memory_entry_pool s1) es' ps"
  shows "pmm_inv (s'\<lparr>free_memory_size := m\<rparr>) es' fls' ps" and "free_bytes s' es' = bytes rs"
    and "memory_size s' = memory_size s1"
proof -
  note rel' = relistedD [OF rel]
  have rg': "map (range_of (entries s')) es' = rs" using rg(1) range_of_strip [OF rel'(5)] by simp
  show "pmm_inv (s'\<lparr>free_memory_size := m\<rparr>) es' fls' ps"
    using l lk linked_strip [OF rel'(5)] rel'(3,4) rg(2,3) rg' pk
    by (simp add: pmm_inv_def listed_def)
  show "free_bytes s' es' = bytes rs" using rg' by (simp add: free_bytes_def)
qed (rule relistedD(1) [OF rel])

end
