(* ===== verification/Memory_Used.thy ===== *)
theory Memory_Used
  imports Memory_Invariant
begin

text \<open>
  \<open>define_used_memory\<close> and \<open>alloc\<close> keep the invariant and take exactly the requested bytes
  out of the free set.
\<close>

section \<open>Searching by address\<close>

lemma search_containing_found:
  assumes "chain pf (me_next \<circ> h) p (as @ e # bs) None" and "sep lo (map (range_of h) (as @ e # bs))"
    and "me_start (h e) \<le> a" and "a \<le> me_end (h e)" and "length as < n"
  shows "(search_entry_containing_address_mut n h (hd (as @ e # bs)) a :: ('e, _) outcome) = Ok (Some e)"
  using assms
proof (induction as arbitrary: n p lo)
  case Nil
  then show ?case by (cases n) (auto simp: not_less)
next
  case (Cons x as)
  obtain k where n: "n = Suc k" using Cons.prems(5) by (cases n) auto
  have "unat (me_start (h x)) < unat (me_end (h x))" and "unat (me_end (h x)) < unat (me_start (h e))"
  proof -
    show "unat (me_start (h x)) < unat (me_end (h x))" using Cons.prems(2) by (simp add: range_of_def)
    have "unat (me_start (h e)) \<in> bytes (map (range_of h) (as @ e # bs))"
      using Cons.prems(3,4) by (simp add: range_of_def word_le_nat_alt)
    with Cons.prems(2) have "unat (me_end (h x)) + 2 \<le> unat (me_start (h e))"
      by (intro bytes_ge [of _ "map (range_of h) (as @ e # bs)"]) simp_all
    then show "unat (me_end (h x)) < unat (me_start (h e))" by simp
  qed
  then have "me_start (h x) < a \<and> me_end (h x) < a"
    using Cons.prems(3) unfolding word_less_nat_alt word_le_nat_alt by linarith
  moreover have "me_next (h x) = Some (hd (as @ e # bs))" using Cons.prems(1) by (cases as) auto
  moreover have "(search_entry_containing_address_mut k h (hd (as @ e # bs)) a :: ('e, _) outcome) = Ok (Some e)"
  proof (rule Cons.IH)
    show "chain pf (me_next \<circ> h) (Some x) (as @ e # bs) None" using Cons.prems(1) by (simp add: comp_def)
    show "sep (unat (me_end (h x)) + 2) (map (range_of h) (as @ e # bs))" using Cons.prems(2) by simp
  qed (use Cons.prems n in simp_all)
  ultimately show ?case by (simp add: n)
qed

lemma search_containing_none:
  assumes "chain pf (me_next \<circ> h) p es None" and "es \<noteq> []"
    and "unat a \<notin> bytes (map (range_of h) es)" and "length es \<le> n"
  shows "(search_entry_containing_address_mut n h (hd es) a :: ('e, _) outcome) = Ok None"
  using assms
proof (induction es arbitrary: n p)
  case Nil
  then show ?case by simp
next
  case (Cons x es)
  obtain k where n: "n = Suc k" using Cons.prems(4) by (cases n) auto
  have out: "\<not> (me_start (h x) \<le> a \<and> a \<le> me_end (h x))"
    using Cons.prems(3) by (auto simp: range_of_def word_le_nat_alt)
  show ?case
  proof (cases es)
    case Nil
    with Cons.prems(1) out show ?thesis by (auto simp: n)
  next
    case (Cons y ys)
    have "(search_entry_containing_address_mut k h (hd es) a :: ('e, _) outcome) = Ok None"
    proof (rule Cons.IH)
      show "chain pf (me_next \<circ> h) (Some x) es None" using Cons.prems(1) by (simp add: comp_def)
    qed (use Cons.prems n Cons in simp_all)
    with Cons Cons.prems(1) out show ?thesis by (auto simp: n)
  qed
qed

section \<open>Cutting a block out of an entry\<close>

text \<open>What the successful cases establish.\<close>

definition takes ::
  "PhysicalMemoryManager \<Rightarrow> usize list \<Rightarrow> usize list \<Rightarrow> PhysicalMemoryManager \<Rightarrow> nat set \<Rightarrow> bool" where
  "takes s es ps s' A \<longleftrightarrow>
     (\<exists>es' fls' ps'. pmm_inv s' es' fls' ps' \<and> free_bytes s' es' = free_bytes s es - A \<and>
        memory_size s' = memory_size s \<and> mset (es' @ ps') = mset (es @ ps))"

lemma takes_resize:
  assumes inv: "pmm_inv s (as @ e # bs) fls ps" and n: "length (as @ e # bs) \<le> n" and ab: "a < b"
    and rs: "rs = map (range_of (entries s)) as @ (unat a, unat b) # map (range_of (entries s)) bs"
      "ranges_ok rs" "unat m = total_size rs" "bytes rs = free_bytes s (as @ e # bs) - A"
  shows "\<exists>s'. (resize_entry n s e a b :: ('e, _) outcome) = Ok s' \<and> free_memory_size s' = free_memory_size s
     \<and> takes s (as @ e # bs) ps (s'\<lparr>free_memory_size := m\<rparr>) A"
proof -
  have "card (set (as @ e # bs)) \<le> n" using pmm_card [OF inv] n by simp
  from resize_entry_ok [OF pmm_listed [OF inv] _ ab this, where e = e and 'e = 'e]
  obtain s' fls' where eq: "(resize_entry n s e a b :: ('e, _) outcome) = Ok s'"
    and rel: "relisted (s\<lparr>entries := with_range (entries s) e a b\<rparr>) s' (set (as @ e # bs))"
    and l: "listed s' fls' (set (as @ e # bs))" by auto
  note res = resized_inv [OF inv rel l rs(1-3)]
  have "free_memory_size s' = free_memory_size s" using relistedD(2) [OF rel] by simp
  moreover have "free_bytes (s'\<lparr>free_memory_size := m\<rparr>) (as @ e # bs) = free_bytes s (as @ e # bs) - A"
    using res(2) rs(4) by (simp add: free_bytes_def)
  then have "takes s (as @ e # bs) ps (s'\<lparr>free_memory_size := m\<rparr>) A"
    unfolding takes_def using res(1,3)
    by - (rule exI [of _ "as @ e # bs"], rule exI [of _ fls'], rule exI [of _ ps], simp)
  ultimately show ?thesis using eq by blast
qed

lemma takes_whole:
  assumes inv: "pmm_inv s (as @ e # bs) fls ps" and ne: "as @ bs \<noteq> []"
    and m: "unat m = total_size (map (range_of (entries s)) (as @ bs))"
    and A: "A = {unat (me_start (entries s e)) .. unat (me_end (entries s e))}"
  shows "\<exists>s'. used_whole_entry s e = Ok s' \<and> free_memory_size s' = free_memory_size s
     \<and> takes s (as @ e # bs) ps (s'\<lparr>free_memory_size := m\<rparr>) A"
proof -
  let ?h = "entries s" and ?es = "as @ e # bs"
  have lk: "linked ?h (first_entry s) ?es" and ro: "ranges_ok (map (range_of ?h) ?es)"
    and d: "distinct ?es"
    using inv by (simp_all add: pmm_inv_def linked_def)
  have ch: "chain (me_previous \<circ> ?h) (me_next \<circ> ?h) None ?es None" and fe: "first_entry s = hd ?es"
    using lk by (simp_all add: linked_def)
  have pv: "me_previous (?h e) = last_or None as" and nx: "me_next (?h e) = hd_or None bs"
    using chain_prev_mem [OF ch] chain_next_mem [OF ch] by simp_all
  define s1 where "s1 = s\<lparr>first_entry := hd (as @ bs)\<rparr>"
  have first: "(if is_first_entry ?h e
       then (case me_next (?h e) of Some nx \<Rightarrow> Ok (s\<lparr>first_entry := nx\<rparr>)
                                  | None \<Rightarrow> Err AddressNotAvailable)
       else Ok s) = Ok s1"
  proof (cases as rule: rev_cases)
    case Nil
    with ne pv nx show ?thesis by (cases bs) (simp_all add: is_first_entry_def s1_def)
  next
    case (snoc as' a')
    then have "s1 = s" using fe by (cases as') (simp_all add: s1_def)
    with snoc pv show ?thesis by (simp add: is_first_entry_def)
  qed
  have l: "listed s fls (set ?es)" using pmm_listed [OF inv] .
  have "fl_inv (entries s1) (free_list s1) fls (set ?es)" and "ranged (entries s1) e"
    and "filed (entries s1) fls e" using l by (simp_all add: listed_def s1_def)
  from unchain_entry_ok [OF this, where 'e = MemoryError] obtain s2 fls' where
    un: "(unchain_entry_from_free_list s1 e :: (MemoryError, _) outcome) = Ok s2"
    and rel: "relisted s1 s2 (set ?es)"
    and fl: "fl_inv (entries s2) (free_list s2) fls' (set ?es - {e})"
    and fd: "\<forall>i. set (fls i) - {e} \<subseteq> set (fls' i)"
    by blast
  define h2 fl2 where "h2 = entries s2" and "fl2 = free_list s2"
  have s2: "s2 = s1\<lparr>free_list := fl2, entries := h2\<rparr>" and st: "strip h2 = strip ?h"
    using rel by (simp_all add: relisted_def s1_def h2_def fl2_def)
  define s3 where "s3 = s2\<lparr>entries := MemoryEntry_delete h2 e\<rparr>"
  have "pool_ok (memory_entry_pool s3) ?es ps" using inv by (simp add: pmm_inv_def s3_def s2 s1_def)
  from pool_free_ok [OF this, of e "as @ bs"] d obtain p where
    pf: "pool_free s3 e = Ok (s3\<lparr>memory_entry_pool := p\<rparr>)" and pk: "pool_ok p (as @ bs) (e # ps)" by auto
  define s4 where "s4 = s3\<lparr>memory_entry_pool := p\<rparr>"
  have eq: "used_whole_entry s e = Ok s4"
    using first un pf by (simp add: used_whole_entry_def s4_def s3_def h2_def)
  have eh: "set ?es - {e} = set (as @ bs)" using d by auto
  have rg: "map (range_of (entries s4)) (as @ bs) = map (range_of ?h) (as @ bs)"
    using strip_eqD [OF st] by (intro map_range_cong) (simp add: s4_def s3_def)
  have "linked h2 (first_entry s) ?es" using lk linked_strip [OF st] by simp
  from linked_delete [OF this ne] have lk': "linked (entries s4) (first_entry s4) (as @ bs)"
    by (simp add: s4_def s3_def s2 s1_def)
  have fl': "fl_inv (entries s4) (free_list s4) fls' (set (as @ bs))"
    using fl fl_inv_cong [of "set (as @ bs)" "MemoryEntry_delete h2 e" h2]
    unfolding eh by (simp add: s4_def s3_def h2_def)
  have fd': "filed (entries s4) fls' x" if "x \<in> set (as @ bs)" for x
    using that d l fd strip_eqD [OF st]
    by (intro filed_kept [OF _ fd]) (auto simp: listed_def s4_def s3_def)
  let ?b = "map (range_of ?h) bs" and ?a = "map (range_of ?h) as"
  have "sep 0 (?a @ (unat (me_start (?h e)), unat (me_end (?h e))) # ?b)"
    using ro by (simp add: ranges_ok_def)
  note cut = cut_whole [OF this]
  have "ranges_ok (map (range_of (entries s4)) (as @ bs))"
    using ro cut(1,4) unfolding rg by (simp add: ranges_ok_def)
  moreover have "unat m = total_size (map (range_of (entries s4)) (as @ bs))" unfolding rg by (rule m)
  ultimately have "pmm_inv (s4\<lparr>free_memory_size := m\<rparr>) (as @ bs) fls' (e # ps)"
    using lk' fl' fd' pk by (simp add: pmm_inv_def s4_def)
  moreover have "bytes (map (range_of (entries s4)) (as @ bs)) = free_bytes s ?es - A"
    unfolding rg using cut(2) by (simp add: free_bytes_def A)
  then have "free_bytes (s4\<lparr>free_memory_size := m\<rparr>) (as @ bs) = free_bytes s ?es - A"
    by (simp add: free_bytes_def)
  ultimately have "takes s ?es ps (s4\<lparr>free_memory_size := m\<rparr>) A"
    unfolding takes_def by (intro exI conjI) (auto simp: s4_def s3_def s2 s1_def)
  with eq show ?thesis by (auto simp: s4_def s3_def s2 s1_def)
qed

lemma split_entry_eq:
  assumes new: "create_memory_entry s = Ok (s\<lparr>memory_entry_pool := p, entries := h0\<rparr>, x)"
    and ex: "e \<noteq> x" and rg: "ranged h0 e"
    and lo: "me_start (h0 e) < a - 1" and hi: "a + sz < me_end (h0 e)"
    and h2: "h2 = with_range (with_range h0 x (a + sz) (me_end (h0 e))) e (me_start (h0 e)) (a - 1)"
  shows "split_entry n s e a sz =
    obind (chain_entry_to_free_list n (s\<lparr>memory_entry_pool := p, entries := link_after h2 e x\<rparr>)
             e (Some (entry_size h0 e)))
      (\<lambda>s2. chain_entry_to_free_list n s2 x None)"
  using ex rg lo hi by (simp add: split_entry_def new h2 link_after_def Let_def)

lemma takes_split:
  assumes inv: "pmm_inv s (as @ e # bs) fls (x # ps)" and n: "length (as @ e # bs) \<le> n"
    and lo: "unat (me_start (entries s e)) + 1 < unat a" and sz: "sz \<noteq> 0"
    and hi: "unat a + unat sz < unat (me_end (entries s e))"
    and A: "A = {unat a .. unat a + unat sz - 1}" and m: "m = free_memory_size s - sz"
  shows "\<exists>s'. split_entry n s e a sz = Ok s' \<and> free_memory_size s' = free_memory_size s
     \<and> takes s (as @ e # bs) (x # ps) (s'\<lparr>free_memory_size := m\<rparr>) A"
proof -
  let ?h = "entries s" and ?es = "as @ e # bs" and ?st = "me_start (entries s e)" and ?en = "me_end (entries s e)"
  have lk: "linked ?h (first_entry s) ?es" and ro: "ranges_ok (map (range_of ?h) ?es)"
    and pk: "pool_ok (memory_entry_pool s) ?es (x # ps)" and d: "distinct ?es"
    and fm: "unat (free_memory_size s) = total_size (map (range_of ?h) ?es)"
    using inv by (simp_all add: pmm_inv_def linked_def)
  have l: "listed s fls (set ?es)" using pmm_listed [OF inv] .
  from create_memory_entry_ok [OF pk] obtain p where
    new: "create_memory_entry s =
       Ok (s\<lparr>memory_entry_pool := p, entries := MemoryEntry_init (set_enabled ?h x) x\<rparr>, x)"
    and pk': "pool_ok p (x # ?es) ps" and x: "x \<notin> set ?es" by blast
  define h0 where "h0 = MemoryEntry_init (set_enabled ?h x) x"
  define h2 where "h2 = with_range (with_range h0 x (a + sz) ?en) e ?st (a - 1)"
  have ex: "e \<noteq> x" and h0e: "h0 e = ?h e" using x by (auto simp: h0_def)
  have an: "unat (a - 1) = unat a - 1" using lo by (simp add: unat_sub_le word_le_nat_alt)
  have az: "unat (a + sz) = unat a + unat sz"
    using less_trans [OF hi unat_lt_2_64] by (intro unat_add_noovf) simp
  have szp: "0 < unat sz" using sz by (simp add: unat_gt_0)
  have less: "?st < a - 1" "a + sz < ?en" using an az lo hi by (simp_all add: word_less_nat_alt)
  define s1 where "s1 = s\<lparr>memory_entry_pool := p, entries := link_after h2 e x\<rparr>"
  have "ranged h0 e" using l h0e by (simp add: listed_def ranged_def)
  then have eq: "split_entry n s e a sz = obind (chain_entry_to_free_list n s1 e (Some (entry_size ?h e)))
      (\<lambda>s2. chain_entry_to_free_list n s2 x None)"
    using split_entry_eq [OF new [folded h0_def] ex, of a sz h2 n] less
    by (simp add: h2_def h0e s1_def entry_size_def)
  have c: "card (set ?es) \<le> n" using pmm_card [OF inv] n by simp
  have "fl_inv (entries s1) (free_list s1) fls (set ?es) = fl_inv ?h (free_list s) fls (set ?es)"
    using x unfolding s1_def by (simp, intro fl_inv_cong) (auto simp: h2_def h0_def)
  then have fl: "fl_inv (entries s1) (free_list s1) fls (set ?es)" using l by (simp add: listed_def)
  have sr: "\<forall>y \<in> set ?es. same_range (entries s1) (with_range ?h e ?st (a - 1)) y"
    using x ex by (auto simp: same_range_def s1_def h2_def h0_def)
  have nx: "ranged (entries s1) x" "list_prev (entries s1 x) = None" "list_next (entries s1 x) = None"
    using less ex by (auto simp: s1_def h2_def h0_def ranged_def)
  have "e \<in> set ?es" by simp
  from resize_and_new_listed [OF l this less(1) c x fl sr nx, where 'e = MemoryError]
  obtain s' fls' where
    ok: "split_entry n s e a sz = Ok s'" and rel: "relisted s1 s' (insert x (set ?es))"
    and l': "listed s' fls' (insert x (set ?es))" unfolding eq by blast
  have eset: "insert x (set ?es) = set (as @ e # x # bs)" by auto
  let ?a = "map (range_of ?h) as" and ?b = "map (range_of ?h) bs"
  define rs where "rs = ?a @ (unat ?st, unat a - 1) # (unat a + unat sz - 1 + 1, unat ?en) # ?b"
  have "sep 0 (?a @ (unat ?st, unat ?en) # ?b)" using ro by (simp add: ranges_ok_def range_of_def)
  from cut_middle [OF this lo, of "unat a + unat sz - 1"] hi szp
  have cut: "sep 0 rs" "bytes rs = free_bytes s ?es - A" "total_size rs + unat sz = unat (free_memory_size s)"
    "span_top 0 rs \<le> 2 ^ 64"
    using ro fm by (simp_all add: rs_def A free_bytes_def range_of_def ranges_ok_def)
  have "linked h2 (first_entry s) ?es"
    using lk x by (subst linked_cong [where h = ?h]) (auto simp: h2_def h0_def)
  from linked_link_after [OF this x] have lk': "linked (entries s1) (first_entry s1) (as @ e # x # bs)"
    by (simp add: s1_def h2_def h0_def)
  have rg: "map (range_of (entries s1)) (as @ e # x # bs) = rs"
    using d x ex an az szp by (auto simp: rs_def range_of_def s1_def h2_def h0_def)
  have m': "unat m = total_size rs"
    using cut(3) by (simp add: m unat_sub_le word_le_nat_alt)
  have pk1: "pool_ok (memory_entry_pool s1) (as @ e # x # bs) ps"
    using pk' by (auto simp: s1_def pool_ok_def)
  have ro': "ranges_ok rs" using cut by (simp add: ranges_ok_def)
  note res = new_entry_inv [OF l' [unfolded eset] lk' rel rg ro' m' pk1]
  have "takes s ?es (x # ps) (s'\<lparr>free_memory_size := m\<rparr>) A"
    unfolding takes_def using res cut(2)
    by - (rule exI [of _ "as @ e # x # bs"], rule exI [of _ fls'], rule exI [of _ ps],
        simp add: free_bytes_def s1_def)
  moreover have "free_memory_size s' = free_memory_size s" using relistedD(2) [OF rel] by (simp add: s1_def)
  ultimately show ?thesis using ok by blast
qed

section \<open>define_used_memory\<close>

text \<open>The block \<open>sz\<close> bytes from \<open>a\<close>, as a set of addresses.\<close>

definition block :: "PAddress \<Rightarrow> MSize \<Rightarrow> nat set" where
  "block a sz = {unat a ..< unat a + unat sz}"

text \<open>
  The block lies in the entry and leaves no single byte of it over on either side (the
  assertion of \<open>set_range\<close> fails on a range of one byte).
\<close>

definition cuts :: "entry_heap \<Rightarrow> usize \<Rightarrow> PAddress \<Rightarrow> MSize \<Rightarrow> bool" where
  "cuts h e a sz \<longleftrightarrow>
     sz \<noteq> 0 \<and> me_start (h e) \<le> a \<and> unat a + unat sz \<le> unat (me_end (h e)) + 1 \<and>
     unat a \<noteq> unat (me_start (h e)) + 1 \<and> unat a + unat sz \<noteq> unat (me_end (h e))"

lemma cuts_end:
  assumes "cuts h e a sz"
  shows "unat (to_end_address sz a) = unat a + unat sz - 1" and "to_end_address sz a \<le> me_end (h e)"
    and "a \<le> to_end_address sz a" and "block a sz = {unat a .. unat a + unat sz - 1}"
    and "0 < unat sz"
proof -
  show p: "0 < unat sz" using assms by (simp add: cuts_def unat_gt_0)
  have "unat a + unat sz \<le> unat (me_end (h e)) + 1" using assms by (simp add: cuts_def)
  moreover have "unat (me_end (h e)) < 18446744073709551616" by (rule unat_lt_2_64)
  ultimately have "unat a + unat sz \<le> 18446744073709551616" by linarith
  then show e: "unat (to_end_address sz a) = unat a + unat sz - 1"
    using assms by (intro unat_to_end_address) (simp_all add: cuts_def)
  show "to_end_address sz a \<le> me_end (h e)" "a \<le> to_end_address sz a"
    using p assms unfolding word_le_nat_alt e by (auto simp: cuts_def)
  show "block a sz = {unat a .. unat a + unat sz - 1}" using p by (auto simp: block_def)
qed

lemma used_target_ok:
  assumes inv: "pmm_inv s (as @ e # bs) fls ps" and n: "length (as @ e # bs) \<le> n"
    and cut: "cuts (entries s) e a sz" and t: "t = None \<or> t = Some e"
  shows "used_target n s a sz t = Ok e"
proof -
  have ch: "chain (me_previous \<circ> entries s) (me_next \<circ> entries s) None (as @ e # bs) None"
    and fe: "first_entry s = hd (as @ e # bs)" and sp: "sep 0 (map (range_of (entries s)) (as @ e # bs))"
    using inv by (simp_all add: pmm_inv_def linked_def ranges_ok_def)
  have in_e: "me_start (entries s e) \<le> a" "a \<le> me_end (entries s e)"
    using cut cuts_end(2,3) [OF cut] by (simp_all add: cuts_def)
  from search_containing_found [OF ch sp in_e, of n, where 'e = MemoryError] n
  have "(search_entry_containing_address_mut n (entries s) (first_entry s) a :: (MemoryError, _) outcome)
      = Ok (Some e)" by (simp add: fe)
  with t in_e(1) cuts_end(2) [OF cut] show ?thesis by (auto simp: used_target_def)
qed

text \<open>
  The four cases by where the block lies in the entry, as one equation for
  \<open>define_used_memory0\<close>.
\<close>

lemma define_used_memory0_cases:
  assumes inv: "pmm_inv s (as @ e # bs) fls ps" and n: "length (as @ e # bs) \<le> n"
    and cut: "cuts (entries s) e a sz" and t: "t = None \<or> t = Some e"
  shows "define_used_memory0 n s a sz t =
    obind (if me_start (entries s e) = a then
             if me_end (entries s e) = to_end_address sz a then used_whole_entry s e
             else resize_entry n s e (a + sz) (me_end (entries s e))
           else if me_end (entries s e) = a then used_last_byte n s e a sz
           else if me_end (entries s e) = to_end_address sz a
           then resize_entry n s e (me_start (entries s e)) (a - 1)
           else split_entry n s e a sz)
      (\<lambda>s1. Ok (s1\<lparr>free_memory_size := free_memory_size s1 - sz\<rparr>))"
proof -
  let ?st = "unat (me_start (entries s e))" and ?en = "unat (me_end (entries s e))"
  have "unat (free_memory_size s) = total_size (map (range_of (entries s)) (as @ e # bs))"
    using inv by (simp add: pmm_inv_def)
  then have "?en + 1 - ?st \<le> unat (free_memory_size s)" by simp
  moreover have "?st \<le> unat a" "unat a + unat sz \<le> ?en + 1"
    using cut by (simp_all add: cuts_def word_le_nat_alt)
  ultimately have "unat sz \<le> unat (free_memory_size s)" by linarith
  then have "\<not> free_memory_size s < sz" by (simp add: word_less_nat_alt)
  moreover have "sz \<noteq> 0" using cut by (simp add: cuts_def)
  ultimately show ?thesis
    unfolding define_used_memory0_def used_target_ok [OF assms] by (simp add: is_zero_def Let_def)
qed

lemma define_used_memory0_whole_only:
  assumes inv: "pmm_inv s [e] fls ps" and n: "1 \<le> n" and cut: "cuts (entries s) e a sz"
    and t: "t = None \<or> t = Some e"
    and "me_start (entries s e) = a" and "me_end (entries s e) = to_end_address sz a"
  shows "define_used_memory0 n s a sz t = Err AddressNotAvailable"
proof -
  have "me_previous (entries s e) = None" "me_next (entries s e) = None"
    using inv by (simp_all add: pmm_inv_def linked_def)
  then show ?thesis
    using assms(5,6) define_used_memory0_cases [of s "[]" e "[]" fls ps n a sz t] inv n cut t
    by (simp add: used_whole_entry_def is_first_entry_def)
qed

lemma used_last_byte_eq:
  assumes "ranged (entries s) e" and "me_start (entries s e) < a - 1" and "me_end (entries s e) = a"
  shows "used_last_byte n s e a 1 = resize_entry n s e (me_start (entries s e)) (a - 1)"
  using assms
  by (simp add: used_last_byte_def resize_entry_def ranged_def entry_size_def)

lemma takes_front:
  assumes inv: "pmm_inv s (as @ e # bs) fls ps" and n: "length (as @ e # bs) \<le> n"
    and cut: "cuts (entries s) e a sz"
    and st: "me_start (entries s e) = a" and en: "me_end (entries s e) \<noteq> to_end_address sz a"
  shows "\<exists>s'. (resize_entry n s e (a + sz) (me_end (entries s e)) :: ('e, _) outcome) = Ok s'
     \<and> free_memory_size s' = free_memory_size s
     \<and> takes s (as @ e # bs) ps (s'\<lparr>free_memory_size := free_memory_size s - sz\<rparr>) (block a sz)"
proof -
  let ?h = "entries s" and ?en = "unat (me_end (entries s e))"
  note ce = cuts_end [OF cut]
  have ro: "ranges_ok (map (range_of ?h) (as @ e # bs))"
    and fm: "unat (free_memory_size s) = total_size (map (range_of ?h) (as @ e # bs))"
    using inv by (simp_all add: pmm_inv_def)
  have "?en \<noteq> unat a + unat sz - 1" using en ce(1) by (auto simp: word_unat_eq_iff)
  moreover have "unat a + unat sz \<le> ?en + 1" "unat a + unat sz \<noteq> ?en" using cut by (simp_all add: cuts_def)
  ultimately have lt: "unat a + unat sz < ?en" using ce(5) by linarith
  have az: "unat (a + sz) = unat a + unat sz - 1 + 1"
    using less_trans [OF lt unat_lt_2_64] ce(5) by (simp add: unat_add_noovf)
  let ?a = "map (range_of ?h) as" and ?b = "map (range_of ?h) bs"
  have sp: "sep 0 (?a @ (unat a, ?en) # ?b)" using ro st by (simp add: ranges_ok_def range_of_def)
  have le: "unat a \<le> unat a + unat sz - 1" and lt': "unat a + unat sz - 1 + 1 < ?en"
    using ce(5) lt by simp_all
  note cf = cut_front [OF sp le lt']
  show ?thesis
  proof (rule takes_resize [OF inv n])
    show "a + sz < me_end (entries s e)" unfolding word_less_nat_alt az by (rule lt')
    let ?rs = "?a @ (unat (a + sz), ?en) # ?b"
    show "ranges_ok ?rs" using ro cf(1,4) st by (simp add: ranges_ok_def range_of_def az)
    have "total_size ?rs + unat sz = unat (free_memory_size s)"
      using cf(3) st ce(5) fm by (simp add: az range_of_def)
    then show "unat (free_memory_size s - sz) = total_size ?rs"
      by (simp add: unat_sub_le word_le_nat_alt)
    show "bytes ?rs = free_bytes s (as @ e # bs) - block a sz"
      using cf(2) st unfolding ce(4) az free_bytes_def by (simp add: range_of_def)
  qed simp
qed

lemma takes_back:
  assumes inv: "pmm_inv s (as @ e # bs) fls ps" and n: "length (as @ e # bs) \<le> n"
    and cut: "cuts (entries s) e a sz"
    and st: "me_start (entries s e) \<noteq> a" and en: "me_end (entries s e) = to_end_address sz a"
  shows "\<exists>s'. (resize_entry n s e (me_start (entries s e)) (a - 1) :: ('e, _) outcome) = Ok s'
     \<and> free_memory_size s' = free_memory_size s
     \<and> takes s (as @ e # bs) ps (s'\<lparr>free_memory_size := free_memory_size s - sz\<rparr>) (block a sz)"
proof -
  let ?h = "entries s" and ?st = "unat (me_start (entries s e))" and ?en = "unat (me_end (entries s e))"
  note ce = cuts_end [OF cut]
  have ro: "ranges_ok (map (range_of ?h) (as @ e # bs))"
    and fm: "unat (free_memory_size s) = total_size (map (range_of ?h) (as @ e # bs))"
    using inv by (simp_all add: pmm_inv_def)
  have "?st \<noteq> unat a" using st by (simp add: word_unat_eq_iff)
  moreover have "?st \<le> unat a" "unat a \<noteq> ?st + 1" using cut by (simp_all add: cuts_def word_le_nat_alt)
  ultimately have lt: "?st + 1 < unat a" by simp
  have an: "unat (a - 1) = unat a - 1" using lt by (simp add: unat_sub_le word_le_nat_alt)
  have eq: "?en = unat a + unat sz - 1" using en ce(1) by simp
  have le: "unat a \<le> ?en" using eq ce(5) by simp
  let ?a = "map (range_of ?h) as" and ?b = "map (range_of ?h) bs"
  have sp: "sep 0 (?a @ (?st, ?en) # ?b)" using ro by (simp add: ranges_ok_def range_of_def)
  note cb = cut_back [OF sp lt le]
  show ?thesis
  proof (rule takes_resize [OF inv n])
    show "me_start (entries s e) < a - 1" using lt unfolding word_less_nat_alt an by simp
    let ?rs = "?a @ (?st, unat (a - 1)) # ?b"
    show "ranges_ok ?rs" using ro cb(1,4) by (simp add: ranges_ok_def range_of_def an)
    have "total_size ?rs + unat sz = unat (free_memory_size s)"
      using cb(3) eq ce(5) fm by (simp add: an range_of_def)
    then show "unat (free_memory_size s - sz) = total_size ?rs"
      by (simp add: unat_sub_le word_le_nat_alt)
    show "bytes ?rs = free_bytes s (as @ e # bs) - block a sz"
      using cb(2) eq unfolding ce(4) an free_bytes_def by (simp add: range_of_def)
  qed simp
qed

lemma takes_whole_block:
  assumes inv: "pmm_inv s (as @ e # bs) fls ps" and ne: "as @ bs \<noteq> []"
    and cut: "cuts (entries s) e a sz"
    and st: "me_start (entries s e) = a" and en: "me_end (entries s e) = to_end_address sz a"
  shows "\<exists>s'. used_whole_entry s e = Ok s' \<and> free_memory_size s' = free_memory_size s
     \<and> takes s (as @ e # bs) ps (s'\<lparr>free_memory_size := free_memory_size s - sz\<rparr>) (block a sz)"
proof (rule takes_whole [OF inv ne])
  let ?h = "entries s"
  note ce = cuts_end [OF cut]
  have "unat (free_memory_size s) = total_size (map (range_of ?h) (as @ e # bs))"
    using inv by (simp add: pmm_inv_def)
  then have "total_size (map (range_of ?h) (as @ bs)) + unat sz = unat (free_memory_size s)"
    using st en ce(1,5) by simp
  then show "unat (free_memory_size s - sz) = total_size (map (range_of ?h) (as @ bs))"
    by (simp add: unat_sub_le word_le_nat_alt)
  show "block a sz = {unat (me_start (?h e)) .. unat (me_end (?h e))}" using st en ce(1,4) by simp
qed

lemma define_used_memory0_takes:
  assumes inv: "pmm_inv s (as @ e # bs) fls ps" and n: "length (as @ e # bs) \<le> n"
    and cut: "cuts (entries s) e a sz" and t: "t = None \<or> t = Some e"
    and rest: "as @ bs \<noteq> [] \<or> me_start (entries s e) \<noteq> a \<or> me_end (entries s e) \<noteq> to_end_address sz a"
    and pool: "ps \<noteq> [] \<or> me_start (entries s e) = a \<or> me_end (entries s e) = to_end_address sz a"
  shows "\<exists>s'. define_used_memory0 n s a sz t = Ok s' \<and> takes s (as @ e # bs) ps s' (block a sz)"
proof -
  let ?st = "me_start (entries s e)" and ?en = "me_end (entries s e)"
  note eq = define_used_memory0_cases [OF inv n cut t] and ce = cuts_end [OF cut]
  consider (whole) "?st = a" and "?en = to_end_address sz a"
    | (front) "?st = a" and "?en \<noteq> to_end_address sz a"
    | (last) "?st \<noteq> a" and "?en = a"
    | (rear) "?st \<noteq> a" and "?en \<noteq> a" and "?en = to_end_address sz a"
    | (mid) "?st \<noteq> a" and "?en \<noteq> a" and "?en \<noteq> to_end_address sz a"
    by blast
  then show ?thesis
  proof cases
    case whole
    with rest takes_whole_block [OF inv _ cut whole] show ?thesis by (auto simp: eq)
  next
    case front
    with takes_front [OF inv n cut front, where 'e = MemoryError] show ?thesis by (auto simp: eq)
  next
    case last
    have one: "unat sz = 1" using last(2) cut ce(5) by (simp add: cuts_def)
    then have sz: "sz = 1" by (simp add: word_unat_eq_iff)
    then have en: "?en = to_end_address sz a" using last(2) by (simp add: to_end_address_def)
    have "unat ?st + 1 < unat a" using last(1) cut by (auto simp: cuts_def word_le_nat_alt word_unat_eq_iff)
    then have "?st < a - 1" by (simp add: word_less_nat_alt unat_sub_le word_le_nat_alt)
    moreover have "ranged (entries s) e" using pmm_listed [OF inv] by (simp add: listed_def)
    ultimately have "used_last_byte n s e a sz = resize_entry n s e ?st (a - 1)"
      using used_last_byte_eq last(2) sz by simp
    with last takes_back [OF inv n cut last(1) en, where 'e = MemoryError] show ?thesis by (auto simp: eq)
  next
    case rear
    with takes_back [OF inv n cut rear(1,3), where 'e = MemoryError] show ?thesis by (auto simp: eq)
  next
    case mid
    then obtain x qs where ps: "ps = x # qs" using pool by (cases ps) auto
    have "unat ?st \<noteq> unat a" "unat ?en \<noteq> unat a + unat sz - 1"
      using mid ce(1) by (auto simp: word_unat_eq_iff)
    then have lo: "unat ?st + 1 < unat a" and hi: "unat a + unat sz < unat ?en" and sz: "sz \<noteq> 0"
      using cut ce(5) by (auto simp: cuts_def word_le_nat_alt)
    from takes_split [OF inv [unfolded ps] n lo sz hi ce(4) refl] mid show ?thesis by (auto simp: eq ps)
  qed
qed

end
