(* ===== verification/Memory_Alloc.thy ===== *)
theory Memory_Alloc
  imports Memory_Used
begin

text \<open>
  \<open>alloc\<close>: the search through the free lists finds a suitable block whenever one exists,
  and the block it returns is free, aligned, and removed from the free set.
\<close>

section \<open>Alignment\<close>

lemma unat_align_size: "unat al < 64 \<Longrightarrow> unat (MOrder_to_offset al) = 2 ^ unat al"
  by (simp add: MOrder_to_offset_def shl_usize_def unat_pow2)

lemma align_mask: "unat al < 64 \<Longrightarrow> MOrder_to_offset al - 1 = mask (unat al)"
  by (simp add: MOrder_to_offset_def shl_usize_def mask_eq_exp_minus_1)

lemma unat_align_up:
  assumes "unat al < 64" and "x \<noteq> 0" and "unat x + 2 ^ unat al \<le> 2 ^ 64"
  shows "unat (((x - 1) AND NOT (MOrder_to_offset al - 1)) + MOrder_to_offset al) =
    (unat x - 1) div 2 ^ unat al * 2 ^ unat al + 2 ^ unat al"
proof -
  have x: "unat (x - 1) = unat x - 1" and pos: "0 < unat x"
    using assms(2) by (simp_all add: unat_sub_le word_le_nat_alt unat_gt_0 Suc_leI)
  have m: "unat ((x - 1) AND NOT (MOrder_to_offset al - 1)) = (unat x - 1) div 2 ^ unat al * 2 ^ unat al"
    unfolding align_mask [OF assms(1)] unat_and_not_mask x ..
  have "(unat x - 1) div 2 ^ unat al * 2 ^ unat al \<le> unat x - 1"
    by (rule div_times_less_eq_dividend)
  then have "(unat x - 1) div 2 ^ unat al * 2 ^ unat al + 2 ^ unat al < 2 ^ 64"
    using assms(3) pos by linarith
  then show ?thesis by (simp add: unat_add_noovf m unat_align_size [OF assms(1)])
qed

text \<open>The rounded address is the least multiple that is not below.\<close>

lemma align_up_least:
  fixes x k :: nat
  assumes "0 < x" and "0 < k"
  shows "x \<le> (x - 1) div k * k + k" and "k dvd (x - 1) div k * k + k"
    and "k dvd y \<Longrightarrow> x \<le> y \<Longrightarrow> (x - 1) div k * k + k \<le> y"
proof -
  have "x - 1 < (x - 1) div k * k + k" using assms(2) dividend_less_div_times [of k "x - 1"] by simp
  then show "x \<le> (x - 1) div k * k + k" by simp
  show "k dvd (x - 1) div k * k + k" by simp
  assume "k dvd y" and le: "x \<le> y"
  then obtain q where y: "y = k * q" by blast
  have "(x - 1) div k < q"
    using assms le by (simp add: y div_less_iff_less_mult mult.commute)
  then have "((x - 1) div k + 1) * k \<le> q * k" by (intro mult_right_mono) simp_all
  then show "(x - 1) div k * k + k \<le> y" by (simp add: y mult.commute)
qed

text \<open>
  What the inner loop of \<open>alloc\<close> computes for an entry: the lowest aligned address from
  which the entry has room, or nothing when there is none.
\<close>

definition room :: "entry_heap \<Rightarrow> usize \<Rightarrow> MSize \<Rightarrow> MOrder \<Rightarrow> nat \<Rightarrow> bool" where
  "room h e sz al a \<longleftrightarrow>
     2 ^ unat al dvd a \<and> unat (me_start (h e)) \<le> a \<and> a + unat sz \<le> unat (me_end (h e)) + 1"

definition served :: "entry_heap \<Rightarrow> usize \<Rightarrow> MSize \<Rightarrow> MOrder \<Rightarrow> PAddress \<Rightarrow> bool" where
  "served h e sz al a \<longleftrightarrow> room h e sz al (unat a) \<and> (al = 0 \<longrightarrow> a = me_start (h e))"

lemma align_available:
  assumes al: "unat al < 64" and x: "unat x + 2 ^ unat al \<le> 2 ^ 64" and sz: "unat x + unat z < 2 ^ 64"
  shows "\<exists>a z'. (align_address_and_available_size x z al :: ('e, _) outcome) = Ok (a, z')
     \<and> 2 ^ unat al dvd unat a \<and> unat x \<le> unat a
     \<and> (\<forall>y. 2 ^ unat al dvd y \<longrightarrow> unat x \<le> y \<longrightarrow> unat a \<le> y)
     \<and> (0 < unat z' \<longrightarrow> unat a + unat z' = unat x + unat z) \<and> (unat z' = 0 \<longrightarrow> unat x + unat z \<le> unat a)"
proof (cases "x = 0")
  case True
  then show ?thesis
    by (intro exI [of _ 0] exI [of _ z]) (simp add: align_address_and_available_size_def is_zero_def)
next
  case False
  define a where "a = ((x - 1) AND NOT (MOrder_to_offset al - 1)) + MOrder_to_offset al"
  have pos: "0 < unat x" "0 < (2 :: nat) ^ unat al" using False by (simp_all add: unat_gt_0)
  have ua: "unat a = (unat x - 1) div 2 ^ unat al * 2 ^ unat al + 2 ^ unat al"
    unfolding a_def by (rule unat_align_up [OF al False x])
  note least = align_up_least [OF pos, folded ua]
  have xa: "x \<le> a" using least(1) by (simp add: word_le_nat_alt)
  have ax: "unat (a - x) = unat a - unat x" by (rule unat_sub_le [OF xa])
  show ?thesis
  proof (cases "a - x \<le> z")
    case True
    then have "(align_address_and_available_size x z al :: ('e, _) outcome) = Ok (a, z - (a - x))"
      using False xa by (simp add: align_address_and_available_size_def is_zero_def a_def Let_def)
    moreover have "unat (z - (a - x)) = unat z - (unat a - unat x)"
      using unat_sub_le [OF True] ax by simp
    moreover have "unat a - unat x \<le> unat z" using True ax by (simp add: word_le_nat_alt)
    ultimately show ?thesis
      using least by (intro exI [of _ a] exI [of _ "z - (a - x)"]) simp
  next
    case le: False
    then have "(align_address_and_available_size x z al :: ('e, _) outcome) = Ok (a, 0)"
      using False xa by (simp add: align_address_and_available_size_def is_zero_def a_def Let_def)
    moreover have "unat z < unat a - unat x" using le ax by (simp add: word_le_nat_alt)
    ultimately show ?thesis
      using least by (intro exI [of _ a] exI [of _ 0]) simp
  qed
qed

lemma address_to_allocate_ok:
  assumes r: "me_start (h e) < me_end (h e)" "unat (me_end (h e)) + 2 \<le> 2 ^ 64"
    and al: "unat al < 64" and x: "unat (me_start (h e)) + 2 ^ unat al \<le> 2 ^ 64" and sz: "sz \<noteq> 0"
  shows "(\<exists>a. (address_to_allocate h e sz al :: ('e, _) outcome) = Ok (Some a) \<and> served h e sz al a)
     \<or> (address_to_allocate h e sz al :: ('e, _) outcome) = Ok None \<and> (\<forall>a. \<not> room h e sz al a)"
proof -
  let ?st = "me_start (h e)" and ?en = "me_end (h e)" and ?z = "entry_size h e"
  have rg: "ranged h e" using r(1) by (simp add: ranged_def)
  have z: "unat ?z = unat ?en + 1 - unat ?st" using unat_entry_size [of h e] r by simp
  have stz: "unat ?st + unat ?z = unat ?en + 1" using z r(1) by (simp add: word_less_nat_alt)
  have szp: "0 < unat sz" using sz by (simp add: unat_gt_0)
  show ?thesis
  proof (cases "sz \<le> ?z")
    case False
    then have "\<not> room h e sz al a" for a using stz by (auto simp: room_def word_le_nat_alt)
    with False rg show ?thesis by (simp add: address_to_allocate_def)
  next
    case fits: True
    show ?thesis
    proof (cases "al = 0")
      case True
      have "room h e sz al (unat ?st)" using fits stz True by (simp add: room_def word_le_nat_alt)
      with True fits rg show ?thesis by (simp add: address_to_allocate_def is_zero_def served_def)
    next
      case False
      have "unat ?st + unat ?z < 2 ^ 64" using stz r(2) by simp
      from align_available [OF al x this, where 'e = 'e] obtain a z' where
        eq: "(align_address_and_available_size ?st ?z al :: ('e, _) outcome) = Ok (a, z')"
        and a: "2 ^ unat al dvd unat a" "unat ?st \<le> unat a"
          "\<forall>y. 2 ^ unat al dvd y \<longrightarrow> unat ?st \<le> y \<longrightarrow> unat a \<le> y"
        and z': "0 < unat z' \<longrightarrow> unat a + unat z' = unat ?st + unat ?z"
          "unat z' = 0 \<longrightarrow> unat ?st + unat ?z \<le> unat a"
        by (elim exE conjE) rule
      show ?thesis
      proof (cases "z' < sz")
        case True
        have "\<not> room h e sz al y" for y
        proof
          assume "room h e sz al y"
          then have "unat a \<le> y" and "y + unat sz \<le> unat ?en + 1" using a(3) by (simp_all add: room_def)
          moreover have "unat z' < unat sz" using True by (simp add: word_less_nat_alt)
          ultimately show False using szp z' stz by (cases "unat z' = 0") simp_all
        qed
        with True False fits rg eq show ?thesis by (simp add: address_to_allocate_def is_zero_def)
      next
        case ge: False
        then have "0 < unat z'" and "unat sz \<le> unat z'" using szp by (auto simp: word_less_nat_alt)
        with z'(1) a(1,2) stz have "room h e sz al (unat a)" by (simp add: room_def)
        with ge False fits rg eq show ?thesis by (simp add: address_to_allocate_def is_zero_def served_def)
      qed
    qed
  qed
qed

section \<open>Orders\<close>

lemma from_offset_loop_mono:
  assumes "sz \<le> sz'" and "mx \<le> 64"
  shows "from_offset_loop sz mx 0 \<le> from_offset_loop sz' mx 0"
proof (rule ccontr)
  define r r' where "r = from_offset_loop sz mx 0" and "r' = from_offset_loop sz' mx 0"
  assume "\<not> from_offset_loop sz mx 0 \<le> from_offset_loop sz' mx 0"
  then have lt: "r' < r" by (simp add: r_def r'_def)
  have s: "r \<le> mx" "\<forall>j < r. 2 ^ j < unat sz"
    using from_offset_loop_spec [of mx sz 0] assms(2) by (simp_all add: r_def)
  have "r' = mx \<or> unat sz' \<le> 2 ^ r'"
    using from_offset_loop_spec [of mx sz' 0] assms(2) by (simp add: r'_def)
  with lt s(1) have "unat sz' \<le> 2 ^ r'" by linarith
  moreover have "2 ^ r' < unat sz" using s(2) lt by blast
  ultimately show False using assms(1) by (simp add: word_le_nat_alt)
qed

lemma size_to_page_order_mono:
  assumes "sz \<le> sz'"
  shows "size_to_page_order sz \<le> size_to_page_order sz'"
proof -
  have "unat (MOrder_from_offset sz 23) \<le> unat (MOrder_from_offset sz' 23)"
    using from_offset_loop_mono [OF assms, of 23] by (simp add: unat_MOrder_from_offset)
  then have le: "MOrder_from_offset sz 23 \<le> MOrder_from_offset sz' 23" by (simp add: word_le_nat_alt)
  have "to_page_order (MOrder_from_offset sz 23) \<le> to_page_order (MOrder_from_offset sz' 23)"
    using le by (auto simp: to_page_order_def word_le_nat_alt word_less_nat_alt unat_sub_le)
  then show ?thesis
    by (simp add: size_to_page_order_def MPageOrder_from_offset_def MPageOrder_to_order_def
        NUM_OF_FREE_LIST_def PAGE_SHIFT_def)
qed

section \<open>The search\<close>

text \<open>The conditions under which no step of the search panics.\<close>

definition searchable :: "PhysicalMemoryManager \<Rightarrow> usize list \<Rightarrow> MSize \<Rightarrow> MOrder \<Rightarrow> bool" where
  "searchable s es sz al \<longleftrightarrow>
     sz \<noteq> 0 \<and> unat al < 64 \<and> (\<forall>e \<in> set es. unat (me_start (entries s e)) + 2 ^ unat al \<le> 2 ^ 64)"

lemma searchable_entry:
  assumes "pmm_inv s es fls ps" and "searchable s es sz al" and "e \<in> set es"
  shows "(\<exists>a. (address_to_allocate (entries s) e sz al :: ('e, _) outcome) = Ok (Some a)
              \<and> served (entries s) e sz al a)
     \<or> (address_to_allocate (entries s) e sz al :: ('e, _) outcome) = Ok None
        \<and> (\<forall>a. \<not> room (entries s) e sz al a)"
  using assms ranges_okD [of "entries s" es e]
  by (intro address_to_allocate_ok) (auto simp: searchable_def pmm_inv_def)

lemma alloc_from_list_ok:
  assumes inv: "pmm_inv s es fls ps" and sr: "searchable s es sz al" and "set ys \<subseteq> set es"
    and "chain (list_prev \<circ> entries s) (list_next \<circ> entries s) p ys None" and "length ys < k"
  shows "alloc_from_list n k s (hd_or None ys) sz al = Ok None \<and> (\<forall>e \<in> set ys. \<forall>a. \<not> room (entries s) e sz al a)
     \<or> (\<exists>e \<in> set ys. \<exists>a. served (entries s) e sz al a
          \<and> alloc_from_list n k s (hd_or None ys) sz al
            = obind (define_used_memory n s a sz 0 (Some e)) (\<lambda>s'. Ok (Some (s', a))))"
  using assms(3-)
proof (induction ys arbitrary: k p)
  case Nil
  then show ?case by (cases k) (simp_all add: FreeListIterMut_next_def)
next
  case (Cons y ys)
  obtain j where k: "k = Suc j" using Cons.prems(3) by (cases k) auto
  have nx: "list_next (entries s y) = hd_or None ys" using Cons.prems(2) by simp
  from searchable_entry [OF inv sr, of y, where 'e = MemoryError] Cons.prems(1) consider
    (yes) a where "(address_to_allocate (entries s) y sz al :: (MemoryError, _) outcome) = Ok (Some a)"
      and "served (entries s) y sz al a"
    | (no) "(address_to_allocate (entries s) y sz al :: (MemoryError, _) outcome) = Ok None"
      and "\<forall>a. \<not> room (entries s) y sz al a" by auto
  then show ?case
  proof cases
    case yes
    then show ?thesis by (intro disjI2) (auto simp: k FreeListIterMut_next_def nx)
  next
    case no
    have ch: "chain (list_prev \<circ> entries s) (list_next \<circ> entries s) (Some y) ys None"
      using Cons.prems(2) by (simp add: comp_def)
    have step: "alloc_from_list n k s (hd_or None (y # ys)) sz al = alloc_from_list n j s (hd_or None ys) sz al"
      using no(1) by (simp add: k FreeListIterMut_next_def nx)
    have "set ys \<subseteq> set es" "length ys < j" using Cons.prems(1,3) k by simp_all
    from Cons.IH [OF this(1) ch this(2)] show ?thesis unfolding step using no(2) by auto
  qed
qed

lemma alloc_orders_ok:
  assumes inv: "pmm_inv s es fls ps" and sr: "searchable s es sz al" and n: "length es < n"
    and "\<forall>i \<in> set is. i < NUM_OF_FREE_LIST"
  shows "alloc_orders n s is sz al = Err AddressNotAvailable
       \<and> (\<forall>i \<in> set is. \<forall>e \<in> set (fls i). \<forall>a. \<not> room (entries s) e sz al a)
     \<or> (\<exists>e \<in> set es. \<exists>a. served (entries s) e sz al a
          \<and> alloc_orders n s is sz al
            = obind (define_used_memory n s a sz 0 (Some e)) (\<lambda>s'. Ok (s', a)))"
  using assms(4)
proof (induction "is")
  case Nil
  then show ?case by simp
next
  case (Cons i "is")
  have fl: "fl_inv (entries s) (free_list s) fls (set es)" using inv by (simp add: pmm_inv_def)
  then have len: "length (free_list s) = NUM_OF_FREE_LIST" and hd: "free_list s ! i = hd_or None (fls i)"
    and ch: "chain (list_prev \<circ> entries s) (list_next \<circ> entries s) None (fls i) None"
    using Cons.prems by (simp_all add: fl_inv_def)
  have sub: "set (fls i) \<subseteq> set es" using fl unfolding fl_inv_def by blast
  have "length (fls i) < n" using fl_inv_length [OF fl, of i] pmm_card [OF inv] n by simp
  from alloc_from_list_ok [OF inv sr sub ch this, of n]
  consider (no) "alloc_from_list n n s (hd_or None (fls i)) sz al = Ok None"
      and "\<forall>e \<in> set (fls i). \<forall>a. \<not> room (entries s) e sz al a"
    | (yes) e a where "e \<in> set (fls i)" and "served (entries s) e sz al a"
      and "alloc_from_list n n s (hd_or None (fls i)) sz al
            = obind (define_used_memory n s a sz 0 (Some e)) (\<lambda>s'. Ok (Some (s', a)))" by blast
  then show ?case
  proof cases
    case no
    have "alloc_orders n s (i # is) sz al = alloc_orders n s is sz al"
      using no(1) len hd Cons.prems by (cases "fls i") auto
    with Cons no(2) show ?thesis by auto
  next
    case yes
    then obtain y ys where y: "fls i = y # ys" by (cases "fls i") auto
    have "alloc_orders n s (i # is) sz al = obind (define_used_memory n s a sz 0 (Some e)) (\<lambda>s'. Ok (s', a))"
      using yes(3) len hd Cons.prems by (simp add: y obind_assoc)
    with yes sub show ?thesis by blast
  qed
qed

text \<open>A list of too small an order cannot hold a suitable entry, so nothing is missed.\<close>

lemma room_order:
  assumes inv: "pmm_inv s es fls ps" and e: "e \<in> set es" and r: "room (entries s) e sz al a"
  shows "size_to_page_order sz \<le> size_to_page_order (entry_size (entries s) e)"
proof (rule size_to_page_order_mono)
  have "unat (entry_size (entries s) e) = unat (me_end (entries s e)) + 1 - unat (me_start (entries s e))"
    using inv e ranges_okD [of "entries s" es e] unat_entry_size [of "entries s" e]
    by (simp add: pmm_inv_def)
  then show "sz \<le> entry_size (entries s) e" using r unfolding room_def word_le_nat_alt by linarith
qed

section \<open>Allocation\<close>

lemma define_used_memory_0: "define_used_memory n s a sz 0 t = define_used_memory0 n s a sz t"
  by (simp add: define_used_memory_def define_used_memory0_def is_zero_def)

lemma served_cuts:
  assumes inv: "pmm_inv s es fls ps" and e: "e \<in> set es" and sv: "served (entries s) e sz al a"
    and pair: "paired (free_bytes s es)" and sz: "even (unat sz)" "sz \<noteq> 0"
  shows "cuts (entries s) e a sz"
proof -
  let ?st = "unat (me_start (entries s e))" and ?en = "unat (me_end (entries s e))"
  have r: "2 ^ unat al dvd unat a" "?st \<le> unat a" "unat a + unat sz \<le> ?en + 1"
    using sv by (auto simp: served_def room_def)
  have "range_of (entries s) e \<in> set (map (range_of (entries s)) es)" using e by simp
  from paired_ranges [OF _ _ this, of 0] inv pair have ev: "even ?st" "odd ?en"
    by (simp_all add: pmm_inv_def ranges_ok_def free_bytes_def)
  have "even (unat a)"
  proof (cases "al = 0")
    case True
    with sv ev(1) show ?thesis by (simp add: served_def)
  next
    case False
    then have "0 < unat al" by (simp add: unat_gt_0)
    then have "2 dvd (2 :: nat) ^ unat al" by simp
    with r(1) show ?thesis using dvd_trans by blast
  qed
  then have "even (unat a + unat sz)" using sz(1) by simp
  with ev \<open>even (unat a)\<close> have "unat a \<noteq> ?st + 1" and "unat a + unat sz \<noteq> ?en"
    by (auto simp del: even_add)
  with r sz(2) show ?thesis by (simp add: cuts_def word_le_nat_alt)
qed

lemma define_used_memory0_run_out:
  assumes inv: "pmm_inv s (as @ e # bs) fls []" and n: "length (as @ e # bs) \<le> n"
    and cut: "cuts (entries s) e a sz" and t: "t = None \<or> t = Some e"
    and mid: "me_start (entries s e) \<noteq> a" "me_end (entries s e) \<noteq> to_end_address sz a"
  shows "define_used_memory0 n s a sz t = Err EntryPoolRunOut"
proof -
  have "pool_ok (memory_entry_pool s) (as @ e # bs) []" using inv by (simp add: pmm_inv_def)
  then have "split_entry n s e a sz = Err EntryPoolRunOut"
    by (simp add: split_entry_def create_memory_entry_run_out)
  moreover have "me_end (entries s e) \<noteq> a"
  proof
    assume en: "me_end (entries s e) = a"
    then have "unat sz = 1" using cut cuts_end(5) [OF cut] by (simp add: cuts_def)
    then have "sz = 1" by (simp add: word_unat_eq_iff)
    with en mid(2) show False by (simp add: to_end_address_def)
  qed
  ultimately show ?thesis using define_used_memory0_cases [OF inv n cut t] mid by simp
qed

lemma cuts_block:
  assumes "cuts (entries s) e a sz" and "e \<in> set es"
  shows "block a sz \<subseteq> free_bytes s es"
proof
  fix x
  assume "x \<in> block a sz"
  with assms(1) have "unat (me_start (entries s e)) \<le> x \<and> x \<le> unat (me_end (entries s e))"
    by (simp add: cuts_def block_def word_le_nat_alt)
  with assms(2) show "x \<in> free_bytes s es" by (auto simp: free_bytes_def bytes_mem)
qed

lemma pmm_free_card:
  assumes "pmm_inv s es fls ps"
  shows "unat (free_memory_size s) = card (free_bytes s es)"
  using assms card_bytes [of 0 "map (range_of (entries s)) es"]
  by (simp add: pmm_inv_def ranges_ok_def free_bytes_def)

text \<open>A block taken from an entry of a larger free set succeeds unless the pool is empty.\<close>

lemma take_from_entry:
  assumes inv: "pmm_inv s es fls ps" and n: "length es \<le> n" and e: "e \<in> set es"
    and cut: "cuts (entries s) e a sz" and more: "unat sz < card (free_bytes s es)"
    and t: "t = None \<or> t = Some e"
  shows "(\<exists>s'. define_used_memory n s a sz 0 t = Ok s' \<and> takes s es ps s' (block a sz))
     \<or> define_used_memory n s a sz 0 t = Err EntryPoolRunOut \<and> ps = [] \<and> me_start (entries s e) \<noteq> a"
proof -
  obtain as bs where es: "es = as @ e # bs" using e by (meson split_list)
  have rest: "as @ bs \<noteq> [] \<or> me_start (entries s e) \<noteq> a \<or> me_end (entries s e) \<noteq> to_end_address sz a"
  proof (rule ccontr)
    assume "\<not> ?thesis"
    then have "es = [e]" "me_start (entries s e) = a" "me_end (entries s e) = to_end_address sz a"
      by (simp_all add: es)
    then have "free_bytes s es = block a sz"
      using cuts_end(1,4) [OF cut] by (simp add: free_bytes_def)
    with more show False by (simp add: block_def)
  qed
  show ?thesis
  proof (cases "ps \<noteq> [] \<or> me_start (entries s e) = a \<or> me_end (entries s e) = to_end_address sz a")
    case True
    from define_used_memory0_takes [OF inv [unfolded es] n [unfolded es] cut t rest True]
    show ?thesis by (simp add: define_used_memory_0 es)
  next
    case False
    with define_used_memory0_run_out [of s as e bs fls n a sz t] inv n cut t
    show ?thesis by (simp add: define_used_memory_0 es)
  qed
qed

lemma alloc_search:
  assumes inv: "pmm_inv s es fls ps" and n: "length es < n"
    and al: "unat al < 64" "\<forall>x \<in> free_bytes s es. x + 2 ^ unat al \<le> 2 ^ 64"
    and ok: "sz \<noteq> 0" "unat sz < card (free_bytes s es)"
  shows "alloc n s sz al = Err AddressNotAvailable \<and> (\<forall>e \<in> set es. \<forall>a. \<not> room (entries s) e sz al a)
     \<or> (\<exists>e \<in> set es. \<exists>a. served (entries s) e sz al a
          \<and> alloc n s sz al = obind (define_used_memory n s a sz 0 (Some e)) (\<lambda>s'. Ok (s', a)))"
proof -
  let ?is = "[unat (size_to_page_order sz) ..< NUM_OF_FREE_LIST]"
  have eq: "alloc n s sz al = alloc_orders n s ?is sz al"
    using ok pmm_free_card [OF inv] by (simp add: alloc_def is_zero_def word_le_nat_alt)
  have start_in: "unat (me_start (entries s e)) \<in> free_bytes s es" if "e \<in> set es" for e
  proof -
    have "me_start (entries s e) < me_end (entries s e)"
      using ranges_okD(1) [of "entries s" es e] inv that by (simp add: pmm_inv_def)
    with that show ?thesis by (auto simp: free_bytes_def bytes_mem word_less_nat_alt)
  qed
  then have sr: "searchable s es sz al" using al ok(1) by (simp add: searchable_def)
  from alloc_orders_ok [OF inv sr n, of ?is]
  consider (none) "alloc_orders n s ?is sz al = Err AddressNotAvailable"
      and "\<forall>i \<in> set ?is. \<forall>e \<in> set (fls i). \<forall>a. \<not> room (entries s) e sz al a"
    | (some) e a where "e \<in> set es" and "served (entries s) e sz al a"
      and "alloc_orders n s ?is sz al = obind (define_used_memory n s a sz 0 (Some e)) (\<lambda>s'. Ok (s', a))"
    by auto
  then show ?thesis
  proof cases
    case none
    have "\<not> room (entries s) e sz al a" if e: "e \<in> set es" for e a
    proof
      assume r: "room (entries s) e sz al a"
      have "order_of (entries s) e \<in> set ?is"
        using room_order [OF inv e r] order_of_bound [of "entries s" e]
        by (simp add: order_of_def word_le_nat_alt)
      moreover have "e \<in> set (fls (order_of (entries s) e))"
        using inv e by (simp add: pmm_inv_def filed_def)
      ultimately show False using none(2) r by blast
    qed
    with none(1) show ?thesis by (simp add: eq)
  next
    case some
    then show ?thesis unfolding eq by blast
  qed
qed

lemma alloc_cases:
  assumes inv: "pmm_inv s es fls ps" and n: "length es < n"
    and pair: "paired (free_bytes s es)" and sz: "even (unat sz)"
    and al: "unat al < 64" "\<forall>x \<in> free_bytes s es. x + 2 ^ unat al \<le> 2 ^ 64"
    and ok: "sz \<noteq> 0" "unat sz < card (free_bytes s es)"
  shows "alloc n s sz al = Err AddressNotAvailable \<and> (\<forall>e \<in> set es. \<forall>a. \<not> room (entries s) e sz al a)
     \<or> alloc n s sz al = Err EntryPoolRunOut \<and> ps = [] \<and> al \<noteq> 0
     \<or> (\<exists>s' a. alloc n s sz al = Ok (s', a) \<and> 2 ^ unat al dvd unat a
          \<and> block a sz \<subseteq> free_bytes s es \<and> takes s es ps s' (block a sz))"
  using alloc_search [OF inv n al ok]
proof (elim disjE bexE exE conjE)
  fix e a
  assume e: "e \<in> set es" and sv: "served (entries s) e sz al a"
    and eq: "alloc n s sz al = obind (define_used_memory n s a sz 0 (Some e)) (\<lambda>s'. Ok (s', a))"
  have cut: "cuts (entries s) e a sz" by (rule served_cuts [OF inv e sv pair sz ok(1)])
  have "2 ^ unat al dvd unat a" "al = 0 \<longrightarrow> me_start (entries s e) = a"
    using sv by (simp_all add: served_def room_def)
  moreover have "block a sz \<subseteq> free_bytes s es" by (rule cuts_block [OF cut e])
  moreover have "length es \<le> n" using n by simp
  ultimately show ?thesis
    using take_from_entry [OF inv _ e cut ok(2), of n "Some e"] eq by auto
qed blast

lemma no_room_no_block:
  assumes inv: "pmm_inv s es fls ps" and none: "\<forall>e \<in> set es. \<forall>a. \<not> room (entries s) e sz al a"
    and "sz \<noteq> 0" and "2 ^ unat al dvd a"
  shows "\<not> {a ..< a + unat sz} \<subseteq> free_bytes s es"
proof
  assume "{a ..< a + unat sz} \<subseteq> free_bytes s es"
  moreover have "sep 0 (map (range_of (entries s)) es)" using inv by (simp add: pmm_inv_def ranges_ok_def)
  moreover have "0 < unat sz" using assms(3) by (simp add: unat_gt_0)
  ultimately obtain e where "e \<in> set es" "unat (me_start (entries s e)) \<le> a"
    "a + unat sz \<le> unat (me_end (entries s e)) + 1"
    using block_in_one_range [of 0 "map (range_of (entries s)) es" a "unat sz"]
    by (auto simp: free_bytes_def)
  with none assms(4) show False by (auto simp: room_def)
qed

end
