(* ===== verification/Memory_Free.thy ===== *)
theory Memory_Free
  imports Memory_Alloc
begin

text \<open>
  \<open>define_free_memory\<close> and \<open>free\<close>: a block that is not free joins the free set, and
  neighbouring ranges are merged, so the invariant is kept.
\<close>

section \<open>Where a used block lies\<close>

lemma search_previous_ok:
  assumes "chain (me_previous \<circ> h) (me_next \<circ> h) p (as @ bs) None" and "as @ bs \<noteq> []"
    and "\<forall>e \<in> set as. me_start (h e) < a" and "bs \<noteq> [] \<longrightarrow> \<not> me_start (h (hd bs)) < a"
    and "as \<noteq> [] \<longrightarrow> bs = [] \<longrightarrow> me_end (h (last as)) \<le> a" and "length (as @ bs) \<le> n"
  shows "(search_entry_previous_address_mut n h (hd (as @ bs)) a :: ('e, _) outcome) = Ok (last_or p as)"
  using assms
proof (induction as arbitrary: n p)
  case Nil
  then obtain b bs' where b: "bs = b # bs'" by (cases bs) auto
  with Nil.prems obtain k where "n = Suc k" by (cases n) auto
  with Nil.prems b show ?case by simp
next
  case (Cons x as)
  obtain k where n: "n = Suc k" using Cons.prems(6) by (cases n) auto
  have st: "me_start (h x) < a" using Cons.prems(3) by simp
  have nx: "me_next (h x) = hd_or None (as @ bs)" and pv: "me_previous (h x) = p"
    using Cons.prems(1) by simp_all
  show ?case
  proof (cases "as @ bs")
    case Nil
    with Cons.prems(5) st nx show ?thesis by (simp add: n)
  next
    case (Cons y ys)
    have "(search_entry_previous_address_mut k h (hd (as @ bs)) a :: ('e, _) outcome) = Ok (last_or (Some x) as)"
    proof (rule Cons.IH)
      show "chain (me_previous \<circ> h) (me_next \<circ> h) (Some x) (as @ bs) None"
        using Cons.prems(1) by (simp add: comp_def)
      show "as \<noteq> [] \<longrightarrow> bs = [] \<longrightarrow> me_end (h (last as)) \<le> a" using Cons.prems(5) by auto
    qed (use Cons Cons.prems n in auto)
    with Cons st nx show ?thesis by (simp add: n last_or_Cons)
  qed
qed

lemma split_at_gap:
  assumes "sep lo (map (range_of h) es)" and "{a..b} \<inter> bytes (map (range_of h) es) = {}"
    and "a \<le> b" and "lo \<le> a + 1"
  shows "\<exists>as bs. es = as @ bs \<and> span_top lo (map (range_of h) as) \<le> a + 1
           \<and> sep (b + 1) (map (range_of h) bs)"
  using assms
proof (induction es arbitrary: lo)
  case Nil
  then show ?case by simp
next
  case (Cons e es)
  let ?st = "unat (me_start (h e))" and ?en = "unat (me_end (h e))"
  have r: "lo \<le> ?st" "?st < ?en" "sep (?en + 2) (map (range_of h) es)" using Cons.prems(1) by simp_all
  have out: "\<not> (?st \<le> x \<and> x \<le> ?en)" if "a \<le> x" "x \<le> b" for x
    using Cons.prems(2) that by auto
  show ?case
  proof (cases "?st \<le> a")
    case True
    then have "?en < a" using out [of a] Cons.prems(3) by auto
    with Cons.IH [of "?en + 2"] r(3) Cons.prems(2,3) obtain as bs where
      "es = as @ bs" "span_top (?en + 2) (map (range_of h) as) \<le> a + 1" "sep (b + 1) (map (range_of h) bs)"
      by auto
    then show ?thesis by (intro exI [of _ "e # as"] exI [of _ bs]) simp
  next
    case False
    have "b < ?st"
    proof (rule ccontr)
      assume "\<not> b < ?st"
      with False r(2) out [of ?st] show False by simp
    qed
    with r Cons.prems(4) show ?thesis by (intro exI [of _ "[]"] exI [of _ "e # es"]) simp
  qed
qed

section \<open>What the cases establish\<close>

definition gives ::
  "PhysicalMemoryManager \<Rightarrow> usize list \<Rightarrow> usize list \<Rightarrow> PhysicalMemoryManager \<Rightarrow> nat set \<Rightarrow> bool" where
  "gives s es ps s' A \<longleftrightarrow>
     (\<exists>es' fls' ps'. pmm_inv s' es' fls' ps' \<and> free_bytes s' es' = free_bytes s es \<union> A \<and>
        memory_size s' = memory_size s \<and> mset (es' @ ps') = mset (es @ ps))"

lemma givesI:
  assumes "listed s' fls' (set es')" and "linked (entries s1) (first_entry s1) es'" and "relisted s1 s' L"
    and "map (range_of (entries s1)) es' = rs" and "ranges_ok rs" and "unat (free_memory_size s1) = total_size rs"
    and "pool_ok (memory_entry_pool s1) es' ps'" and "bytes rs = free_bytes s es \<union> A"
    and "memory_size s1 = memory_size s" and "mset (es' @ ps') = mset (es @ ps)"
  shows "gives s es ps s' A"
proof -
  have "free_memory_size s' = free_memory_size s1" by (rule relistedD(2) [OF assms(3)])
  then have "s'\<lparr>free_memory_size := free_memory_size s1\<rparr> = s'" by simp
  with new_entry_inv [OF assms(1-7)] assms(8-10) show ?thesis
    unfolding gives_def by (intro exI [of _ es'] exI [of _ fls'] exI [of _ ps']) simp
qed

text \<open>The entry grows over the block.\<close>

lemma gives_resize:
  assumes inv: "pmm_inv s (as @ e # bs) fls ps" and n: "length (as @ e # bs) \<le> n" and ab: "a < b"
    and rs: "rs = map (range_of (entries s)) as @ (unat a, unat b) # map (range_of (entries s)) bs"
      "ranges_ok rs" "unat m = total_size rs" "bytes rs = free_bytes s (as @ e # bs) \<union> A"
    and s1: "s1 = s\<lparr>entries := with_range (entries s) e a b, free_memory_size := m\<rparr>"
  shows "\<exists>s'. (chain_entry_to_free_list n s1 e (Some (entry_size (entries s) e)) :: ('e, _) outcome) = Ok s'
     \<and> gives s (as @ e # bs) ps s' A \<and> (\<forall>x. enabled (entries s' x) = enabled (entries s x))"
proof -
  let ?es = "as @ e # bs"
  have l: "listed s fls (set ?es)" by (rule pmm_listed [OF inv])
  have "card (set ?es) \<le> n" "e \<in> set ?es" using pmm_card [OF inv] n by simp_all
  moreover have "fl_inv (entries s1) (free_list s1) fls (set ?es)"
    "\<forall>x \<in> set ?es. same_range (entries s1) (with_range (entries s) e a b) x"
    using l by (simp_all add: s1 listed_def same_range_def)
  ultimately have "\<exists>s' fls'. (chain_entry_to_free_list n s1 e (Some (entry_size (entries s) e)) :: ('e, _) outcome)
      = Ok s' \<and> relisted s1 s' (set ?es) \<and> listed s' fls' (set ?es)"
    by (intro resize_listed [OF l _ ab])
  then obtain s' fls' where
    eq: "(chain_entry_to_free_list n s1 e (Some (entry_size (entries s) e)) :: ('e, _) outcome) = Ok s'"
    and rel: "relisted s1 s' (set ?es)" and l': "listed s' fls' (set ?es)" by blast
  have "gives s ?es ps s' A"
  proof (rule givesI [OF l' _ rel _ rs(2)])
    show "map (range_of (entries s1)) ?es = rs"
      using map_range_with_range [OF pmm_distinct [OF inv]] by (simp add: s1 rs(1))
    show "linked (entries s1) (first_entry s1) ?es" using inv by (simp add: s1 pmm_inv_def)
    show "pool_ok (memory_entry_pool s1) ?es ps" using inv by (simp add: s1 pmm_inv_def)
  qed (simp_all add: s1 rs(3,4))
  moreover have "enabled (entries s' x) = enabled (entries s x)" for x
    using strip_eqD(5) [OF relistedD(5) [OF rel]] by (simp add: s1)
  ultimately show ?thesis using eq by blast
qed

text \<open>A new entry is linked in; \<open>h1\<close> is the store with the new links.\<close>

lemma gives_new:
  assumes inv: "pmm_inv s es fls (x # ps)" and n: "length es \<le> n" and e: "e \<in> set es" and x: "x \<notin> set es"
    and h1: "\<forall>y \<in> set es. same_range h1 (entries s) y \<and> list_prev (h1 y) = list_prev (entries s y)
               \<and> list_next (h1 y) = list_next (entries s y)"
      "list_prev (h1 x) = None" "list_next (h1 x) = None" "ranged h1 x"
    and lk: "linked h1 first es'" and es': "mset es' = mset (x # es)" and pk: "pool_ok p (x # es) ps"
    and rs: "map (range_of h1) es' = rs" "ranges_ok rs" "unat m = total_size rs" "bytes rs = free_bytes s es \<union> A"
    and s1: "s1 = s\<lparr>entries := h1, first_entry := first, memory_entry_pool := p, free_memory_size := m\<rparr>"
  shows "\<exists>s'. obind (chain_entry_to_free_list n s1 e (Some (entry_size (entries s) e)))
         (\<lambda>s2. chain_entry_to_free_list n s2 x None :: ('e, _) outcome) = Ok s'
     \<and> gives s es (x # ps) s' A \<and> (\<forall>y. enabled (entries s' y) = enabled (h1 y))"
proof -
  have l: "listed s fls (set es)" by (rule pmm_listed [OF inv])
  have less: "me_start (entries s e) < me_end (entries s e)"
    using inv e ranges_okD(1) [of "entries s" es e] by (simp add: pmm_inv_def)
  have c: "card (set es) \<le> n" using pmm_card [OF inv] n by simp
  have "fl_inv h1 (free_list s) fls (set es) = fl_inv (entries s) (free_list s) fls (set es)"
    using h1(1) by (intro fl_inv_cong) simp
  then have fl: "fl_inv (entries s1) (free_list s1) fls (set es)" using l by (simp add: s1 listed_def)
  have sr: "\<forall>y \<in> set es. same_range (entries s1)
      (with_range (entries s) e (me_start (entries s e)) (me_end (entries s e))) y"
    using h1(1) by (auto simp: s1 same_range_def)
  have nw: "ranged (entries s1) x" "list_prev (entries s1 x) = None" "list_next (entries s1 x) = None"
    using h1 by (simp_all add: s1)
  from resize_and_new_listed [OF l e less c x fl sr nw, where 'e = 'e] obtain s' fls' where
    eq: "obind (chain_entry_to_free_list n s1 e (Some (entry_size (entries s) e)))
         (\<lambda>s2. chain_entry_to_free_list n s2 x None :: ('e, _) outcome) = Ok s'"
    and rel: "relisted s1 s' (insert x (set es))" and l': "listed s' fls' (insert x (set es))" by blast
  have set': "insert x (set es) = set es'" using mset_eq_setD [OF es'] by simp
  have "gives s es (x # ps) s' A"
  proof (rule givesI [OF l' [unfolded set'] _ rel _ rs(2)])
    show "pool_ok (memory_entry_pool s1) es' ps"
      using pk by (simp add: s1 pool_ok_def flip: set')
    show "mset (es' @ ps) = mset (es @ x # ps)" by (simp add: es')
  qed (simp_all add: s1 lk rs)
  moreover have "enabled (entries s' y) = enabled (h1 y)" for y
    using strip_eqD(5) [OF relistedD(5) [OF rel]] by (simp add: s1)
  ultimately show ?thesis using eq by blast
qed

section \<open>The branches of define_free_memory\<close>

text \<open>The block to be freed is not empty and ends below the last address.\<close>

definition fits :: "PAddress \<Rightarrow> MSize \<Rightarrow> bool" where
  "fits a sz \<longleftrightarrow> 1 < unat sz \<and> unat a + unat sz < 2 ^ 64"

lemma fits_end:
  assumes "fits a sz"
  shows "unat (to_end_address sz a) = unat a + unat sz - 1" and "a < to_end_address sz a"
    and "unat (to_end_address sz a + 1) = unat a + unat sz" and "sz \<noteq> 0"
    and "block a sz = {unat a .. unat (to_end_address sz a)}"
proof -
  show sz: "sz \<noteq> 0" using assms by (auto simp: fits_def)
  then show e: "unat (to_end_address sz a) = unat a + unat sz - 1"
    using assms by (intro unat_to_end_address) (simp_all add: fits_def)
  show "a < to_end_address sz a" using assms unfolding word_less_nat_alt e by (auto simp: fits_def)
  show "unat (to_end_address sz a + 1) = unat a + unat sz"
    using assms by (subst unat_add_noovf) (auto simp: e fits_def)
  show "block a sz = {unat a .. unat (to_end_address sz a)}"
    using assms by (auto simp: e block_def fits_def)
qed

lemma unat_succ_end:
  "ranges_ok (map (range_of h) es) \<Longrightarrow> e \<in> set es \<Longrightarrow> unat (me_end (h e) + 1) = unat (me_end (h e)) + 1"
  using ranges_okD(2) [of h es e] by (subst unat_add_noovf) simp_all

text \<open>The block lies behind the entry \<open>e\<close> and before the entries \<open>bs\<close>.\<close>

lemma define_free_memory_after:
  assumes inv: "pmm_inv s (as @ e # bs) fls ps" and n: "length (as @ e # bs) \<le> Suc k" and ft: "fits a sz"
    and lo: "span_top 0 (map (range_of (entries s)) (as @ [e])) \<le> unat a + 1"
    and hi: "sep (unat a + unat sz) (map (range_of (entries s)) bs)"
    and h1: "h1 = (if me_end (entries s e) + 1 = a
                   then with_range (entries s) e (me_start (entries s e)) (to_end_address sz a) else entries s)"
  shows "define_free_memory (Suc k) s a sz =
    (case bs of
       [] \<Rightarrow> free_at_last (Suc k) (s\<lparr>entries := h1\<rparr>) e a sz (to_end_address sz a) (entry_size (entries s) e)
               (me_end (entries s e) + 1 = a)
     | f # bs' \<Rightarrow> free_before_next (Suc k) (s\<lparr>entries := h1\<rparr>) e f a sz (to_end_address sz a)
               (entry_size (entries s) e) (me_end (entries s e) + 1) (me_end (entries s e) + 1 = a))"
proof -
  let ?h = "entries s" and ?es = "as @ e # bs" and ?en = "to_end_address sz a"
  note fe = fits_end [OF ft]
  have ch: "chain (me_previous \<circ> ?h) (me_next \<circ> ?h) None ((as @ [e]) @ bs) None"
    and first: "first_entry s = hd ((as @ [e]) @ bs)" and ro: "ranges_ok (map (range_of ?h) ?es)"
    using inv by (simp_all add: pmm_inv_def linked_def)
  have en: "unat (me_end (?h e)) < unat a" using lo by simp
  have "sep 0 (map (range_of ?h) (as @ [e]))" using ro by (simp add: ranges_ok_def)
  then have below: "unat (me_start (?h y)) < unat a" if "y \<in> set (as @ [e])" for y
  proof -
    have "unat (me_start (?h y)) \<in> bytes (map (range_of ?h) (as @ [e]))"
      using that ro ranges_okD(1) [of ?h ?es y] unfolding bytes_mem by (auto simp: word_less_nat_alt)
    from bytes_less [OF \<open>sep 0 (map (range_of ?h) (as @ [e]))\<close> this] lo show ?thesis by linarith
  qed
  have above: "unat (me_start (?h (hd bs))) > unat ?en" if "bs \<noteq> []"
    using that hi fe(1) ft by (cases bs) (auto simp: fits_def)
  have search: "(search_entry_previous_address_mut (Suc k) ?h (first_entry s) a
      :: (MemoryError \<times> PhysicalMemoryManager, _) outcome) = Ok (Some e)"
  proof -
    have "(search_entry_previous_address_mut (Suc k) ?h (hd ((as @ [e]) @ bs)) a
      :: (MemoryError \<times> PhysicalMemoryManager, _) outcome) = Ok (last_or None (as @ [e]))"
    proof (rule search_previous_ok [OF ch])
      show "\<forall>y \<in> set (as @ [e]). me_start (?h y) < a" using below by (simp add: word_less_nat_alt)
      show "bs \<noteq> [] \<longrightarrow> \<not> me_start (?h (hd bs)) < a"
        using above fe(1) ft by (auto simp: word_less_nat_alt fits_def)
    qed (use en n in \<open>simp_all add: word_le_nat_alt\<close>)
    then show ?thesis by (simp add: first)
  qed
  have st: "me_start (?h e) < me_end (?h e)" and rg: "ranged ?h e"
    using ranges_okD [OF ro, of e] by simp_all
  have ae: "\<not> a \<le> me_end (?h e)" "\<not> ?en \<le> me_end (?h e)" "me_end (?h e) \<noteq> ?en"
    "me_start (?h e) \<noteq> ?en + 1"
    using en fe(1,3) ft st unfolding word_le_nat_alt word_less_nat_alt word_unat_eq_iff
    by (auto simp: fits_def)
  have set: "me_start (?h e) < ?en"
    using below [of e] fe(2) unfolding word_less_nat_alt by simp
  have ext: "(extend_entry ?h e a ?en :: (MemoryError \<times> PhysicalMemoryManager, _) outcome)
      = Ok (h1, me_end (?h e) + 1 = a)"
    using ae(4) set by (auto simp: extend_entry_def h1)
  have nx: "me_next (h1 e) = hd_or None bs"
    using chain_next_mem [of "me_previous \<circ> ?h" "me_next \<circ> ?h" None as e bs None] ch by (simp add: h1)
  have f: "\<not> me_start (h1 (hd bs)) \<le> a" if "bs \<noteq> []"
  proof -
    have "hd bs \<noteq> e" using that pmm_distinct [OF inv] by (cases bs) auto
    then have "me_start (h1 (hd bs)) = me_start (?h (hd bs))" by (simp add: h1)
    then show ?thesis using above [OF that] fe(2) unfolding word_le_nat_alt word_less_nat_alt by simp
  qed
  show ?thesis
    unfolding define_free_memory.simps search
    using fe(4) ae f nx rg by (cases bs) (simp_all add: is_zero_def ext Let_def)
qed

text \<open>The block lies before the first entry.\<close>

lemma define_free_memory_before:
  assumes inv: "pmm_inv s (e # bs) fls ps" and ft: "fits a sz"
    and hi: "sep (unat a + unat sz) (map (range_of (entries s)) (e # bs))"
    and h1: "h1 = (if me_start (entries s e) = to_end_address sz a + 1
                   then with_range (entries s) e a (me_end (entries s e)) else entries s)"
  shows "define_free_memory (Suc k) s a sz =
    (case bs of
       [] \<Rightarrow> free_at_last (Suc k) (s\<lparr>entries := h1\<rparr>) e a sz (to_end_address sz a) (entry_size (entries s) e)
               (me_start (entries s e) = to_end_address sz a + 1)
     | f # bs' \<Rightarrow> free_before_next (Suc k) (s\<lparr>entries := h1\<rparr>) e f a sz (to_end_address sz a)
               (entry_size (entries s) e) (me_end (entries s e) + 1)
               (me_start (entries s e) = to_end_address sz a + 1))"
proof -
  let ?h = "entries s" and ?en = "to_end_address sz a"
  note fe = fits_end [OF ft]
  have ch: "chain (me_previous \<circ> ?h) (me_next \<circ> ?h) None (e # bs) None"
    and first: "first_entry s = e" and ro: "ranges_ok (map (range_of ?h) (e # bs))"
    using inv by (simp_all add: pmm_inv_def linked_def)
  have st: "unat a + unat sz \<le> unat (me_start (?h e))" using hi by simp
  have less: "me_start (?h e) < me_end (?h e)" and rg: "ranged ?h e"
    using ranges_okD [OF ro, of e] by simp_all
  have pv: "me_previous (?h e) = None" and nx0: "me_next (?h e) = hd_or None bs" using ch by simp_all
  have ae: "\<not> me_start (?h e) \<le> a" "\<not> me_start (?h e) < a" "me_end (?h e) \<noteq> ?en" "me_end (?h e) + 1 \<noteq> a"
    "a < me_end (?h e)"
    using st fe(1,3) ft less unat_succ_end [OF ro, of e]
    unfolding word_le_nat_alt word_less_nat_alt word_unat_eq_iff
    by (auto simp: fits_def)
  have search: "(search_entry_previous_address_mut (Suc k) ?h (first_entry s) a
      :: (MemoryError \<times> PhysicalMemoryManager, _) outcome) = Ok None"
    using ae(2) pv by (simp add: first)
  have ext: "(extend_entry ?h e a ?en :: (MemoryError \<times> PhysicalMemoryManager, _) outcome)
      = Ok (h1, me_start (?h e) = ?en + 1)"
    using ae(4,5) pv by (auto simp: extend_entry_def is_first_entry_def h1)
  have nx: "me_next (h1 e) = hd_or None bs" using nx0 by (simp add: h1)
  have f: "\<not> me_start (h1 (hd bs)) \<le> a" if "bs \<noteq> []"
  proof -
    have "hd bs \<noteq> e" using that pmm_distinct [OF inv] by (cases bs) auto
    then have "me_start (h1 (hd bs)) = me_start (?h (hd bs))" by (simp add: h1)
    moreover have "unat (me_end (?h e)) + 2 \<le> unat (me_start (?h (hd bs)))" using that hi by (cases bs) simp_all
    ultimately show ?thesis using ae(5) unfolding word_le_nat_alt word_less_nat_alt by simp
  qed
  show ?thesis
    unfolding define_free_memory.simps search
    using fe(4) ae f nx rg pv by (cases bs) (simp_all add: is_zero_def ext Let_def first is_first_entry_def)
qed

declare define_free_memory.simps [simp del]

section \<open>The ways a block joins the free set\<close>

lemma total_after_free:
  assumes inv: "pmm_inv s es fls ps" and ft: "fits a sz"
    and rs: "ranges_ok rs" "total_size rs = total_size (map (range_of (entries s)) es) + unat sz"
  shows "unat (free_memory_size s + sz) = total_size rs"
proof -
  have "total_size rs \<le> span_top 0 rs" using total_less [of 0 rs] rs(1) by (simp add: ranges_ok_def)
  moreover have "rs \<noteq> [] \<Longrightarrow> total_size rs + 1 \<le> span_top 0 rs"
  proof (cases rs rule: rev_cases)
    case (snoc qs r)
    then have "total_size qs + 0 \<le> span_top 0 qs" "span_top 0 qs \<le> fst r" "fst r < snd r"
      using rs(1) total_less [of 0 qs] by (simp_all add: ranges_ok_def)
    then show ?thesis by (simp add: snoc)
  qed simp
  moreover have "rs \<noteq> []" using rs(2) ft by (auto simp: fits_def)
  ultimately have "total_size rs < 2 ^ 64" using rs(1) by (simp add: ranges_ok_def)
  moreover have "unat (free_memory_size s) = total_size (map (range_of (entries s)) es)"
    using inv by (simp add: pmm_inv_def)
  ultimately show ?thesis using rs(2) by (simp add: unat_add_noovf)
qed

lemma span_top_tail: "bs \<noteq> [] \<Longrightarrow> span_top x bs = span_top y bs"
  by (cases bs) simp_all

lemma ranges_ok_edit:
  assumes "ranges_ok (cs @ bs)" and "sep 0 (as @ r # bs)" and "snd r + 2 \<le> 2 ^ 64"
  shows "ranges_ok (as @ r # bs)"
proof (cases bs)
  case Nil
  with assms show ?thesis by (simp add: ranges_ok_def)
next
  case (Cons q qs)
  with assms(1,2) show ?thesis by (simp add: ranges_ok_def)
qed

lemma merge_next_none:
  assumes "me_start (entries s f) \<noteq> en + 1"
    and "me_start (entries s f) \<noteq> me_end (entries s e) + 1" and "\<not> me_start (entries s f) \<le> aft"
  shows "merge_next n s e f a en aft pr = Ok (s, pr)"
  using assms by (simp add: merge_next_def)

text \<open>
  The end of both branches when the entry has grown: the lists are updated and the next
  entry, still enabled, is kept.
\<close>

lemma grown_ok:
  assumes inv: "pmm_inv s (as @ e # bs) fls ps" and n: "length (as @ e # bs) \<le> n" and ab: "a' < b'"
    and ft: "fits a sz"
    and rs: "rs = map (range_of (entries s)) as @ (unat a', unat b') # map (range_of (entries s)) bs"
      "ranges_ok rs" "total_size rs = total_size (map (range_of (entries s)) (as @ e # bs)) + unat sz"
      "bytes rs = free_bytes s (as @ e # bs) \<union> block a sz"
    and s1: "s1 = s\<lparr>entries := with_range (entries s) e a' b'\<rparr>"
    and bs: "\<And>f bs'. bs = f # bs' \<Longrightarrow> (merge_next n s1 e f a en aft True
             :: (MemoryError \<times> PhysicalMemoryManager, _) outcome) = Ok (s1, True)"
  shows "\<exists>s'. (case bs of
       [] \<Rightarrow> free_at_last n s1 e a sz en (entry_size (entries s) e) True
     | f # bs' \<Rightarrow> free_before_next n s1 e f a sz en (entry_size (entries s) e) aft True) = Ok s'
     \<and> gives s (as @ e # bs) ps s' (block a sz)"
proof -
  have m: "unat (free_memory_size s + sz) = total_size rs" by (rule total_after_free [OF inv ft rs(2,3)])
  from gives_resize [OF inv n ab rs(1,2) m rs(4) refl, where 'e = "MemoryError \<times> PhysicalMemoryManager"]
  obtain s' where
    eq: "(chain_entry_to_free_list n (s1\<lparr>free_memory_size := free_memory_size s + sz\<rparr>) e
           (Some (entry_size (entries s) e)) :: (MemoryError \<times> PhysicalMemoryManager, _) outcome) = Ok s'"
    and g: "gives s (as @ e # bs) ps s' (block a sz)"
    and en: "\<And>x. enabled (entries s' x) = enabled (entries s x)"
    by (auto simp: s1)
  have fm: "free_memory_size s1 = free_memory_size s" by (simp add: s1)
  show ?thesis
  proof (cases bs)
    case Nil
    with eq g fm show ?thesis by (simp add: free_at_last_def)
  next
    case (Cons f bs')
    then have "enabled (entries s f)" using inv by (simp add: pmm_inv_def linked_def)
    with Cons eq g fm en bs [OF Cons] show ?thesis
      by (simp add: free_before_next_def free_if_disabled_def is_enabled_def)
  qed
qed

lemma free_touching_left:
  assumes inv: "pmm_inv s (as @ e # bs) fls ps" and n: "length (as @ e # bs) \<le> Suc k" and ft: "fits a sz"
    and left: "unat (me_end (entries s e)) + 1 = unat a"
    and hi: "sep (unat a + unat sz + 1) (map (range_of (entries s)) bs)"
  shows "\<exists>s'. define_free_memory (Suc k) s a sz = Ok s' \<and> gives s (as @ e # bs) ps s' (block a sz)"
proof -
  let ?h = "entries s" and ?en = "to_end_address sz a"
  let ?a = "map (range_of ?h) as" and ?b = "map (range_of ?h) bs"
  let ?rs = "?a @ (unat (me_start (?h e)), unat ?en) # ?b"
  note fe = fits_end [OF ft]
  have ro: "ranges_ok (map (range_of ?h) (as @ e # bs))" using inv by (simp add: pmm_inv_def)
  have less: "me_start (?h e) < me_end (?h e)" using ranges_okD(1) [OF ro, of e] by simp
  have touch: "me_end (?h e) + 1 = a" using left unat_succ_end [OF ro, of e] by (simp add: word_unat_eq_iff)
  have en2: "unat ?en + 2 = unat a + unat sz + 1" using fe(1) ft by (auto simp: fits_def)
  have sp: "sep 0 (?a @ (unat (me_start (?h e)), unat (me_end (?h e))) # ?b)"
    using ro by (simp add: ranges_ok_def range_of_def)
  have le: "unat a \<le> unat ?en" using fe(2) by (simp add: word_less_nat_alt)
  note put = put_after [OF sp left le, unfolded en2, OF hi]
  have rok: "ranges_ok ?rs"
    using ro put(1) ft en2 by (intro ranges_ok_edit [of "map (range_of ?h) (as @ [e])"]) (auto simp: fits_def)
  let ?s1 = "s\<lparr>entries := with_range ?h e (me_start (?h e)) ?en\<rparr>"
  have "define_free_memory (Suc k) s a sz = (case bs of
       [] \<Rightarrow> free_at_last (Suc k) ?s1 e a sz ?en (entry_size ?h e) True
     | f # bs' \<Rightarrow> free_before_next (Suc k) ?s1 e f a sz ?en (entry_size ?h e) (me_end (?h e) + 1) True)"
    using define_free_memory_after [OF inv n ft, OF _ _ refl] left sep_mono [OF hi, of "unat a + unat sz"] touch
    by (cases bs) simp_all
  moreover have "\<exists>s'. (case bs of
       [] \<Rightarrow> free_at_last (Suc k) ?s1 e a sz ?en (entry_size ?h e) True
     | f # bs' \<Rightarrow> free_before_next (Suc k) ?s1 e f a sz ?en (entry_size ?h e) (me_end (?h e) + 1) True) = Ok s'
     \<and> gives s (as @ e # bs) ps s' (block a sz)"
  proof (rule grown_ok [OF inv n _ ft refl rok _ _ refl])
    show "me_start (?h e) < ?en" using less fe(2) touch left unfolding word_less_nat_alt by linarith
    show "total_size ?rs = total_size (map (range_of ?h) (as @ e # bs)) + unat sz"
      using put(3) fe(1) ft by (simp add: fits_def range_of_def)
    show "bytes ?rs = free_bytes s (as @ e # bs) \<union> block a sz"
      using put(2) fe(5) by (simp add: free_bytes_def range_of_def)
  next
    fix f bs'
    assume f: "bs = f # bs'"
    then have "f \<noteq> e" using pmm_distinct [OF inv] by auto
    moreover have "unat a + unat sz + 1 \<le> unat (me_start (?h f))" using hi f by simp
    ultimately show "(merge_next (Suc k) ?s1 e f a ?en (me_end (?h e) + 1) True
        :: (MemoryError \<times> PhysicalMemoryManager, _) outcome) = Ok (?s1, True)"
      using fe(3) touch by (intro merge_next_none) (auto simp: word_unat_eq_iff word_le_nat_alt)
  qed
  ultimately show ?thesis by simp
qed

lemma free_touching_first:
  assumes inv: "pmm_inv s (e # bs) fls ps" and n: "length (e # bs) \<le> Suc k" and ft: "fits a sz"
    and right: "unat a + unat sz = unat (me_start (entries s e))"
  shows "\<exists>s'. define_free_memory (Suc k) s a sz = Ok s' \<and> gives s (e # bs) ps s' (block a sz)"
proof -
  let ?h = "entries s" and ?en = "to_end_address sz a"
  let ?b = "map (range_of ?h) bs"
  let ?rs = "(unat a, unat (me_end (?h e))) # ?b"
  note fe = fits_end [OF ft]
  have ro: "ranges_ok (map (range_of ?h) (e # bs))" using inv by (simp add: pmm_inv_def)
  have less: "me_start (?h e) < me_end (?h e)" and top: "unat (me_end (?h e)) + 2 \<le> 2 ^ 64"
    using ranges_okD(1,2) [OF ro, of e] by simp_all
  have touch: "me_start (?h e) = ?en + 1" using right fe(3) by (simp add: word_unat_eq_iff)
  have sp: "sep 0 ([] @ (unat (me_start (?h e)), unat (me_end (?h e))) # ?b)"
    using ro by (simp add: ranges_ok_def range_of_def)
  have le: "unat a \<le> unat ?en" "unat ?en + 1 = unat (me_start (?h e))"
    using fe(1,2) right ft by (auto simp: word_less_nat_alt fits_def)
  note put = put_before [OF sp _ le]
  have rok: "ranges_ok ([] @ ?rs)"
    using ro put(1) top by (intro ranges_ok_edit [of "map (range_of ?h) [e]"]) auto
  let ?s1 = "s\<lparr>entries := with_range ?h e a (me_end (?h e))\<rparr>"
  have "define_free_memory (Suc k) s a sz = (case bs of
       [] \<Rightarrow> free_at_last (Suc k) ?s1 e a sz ?en (entry_size ?h e) True
     | f # bs' \<Rightarrow> free_before_next (Suc k) ?s1 e f a sz ?en (entry_size ?h e) (me_end (?h e) + 1) True)"
    using define_free_memory_before [OF inv ft, OF _ refl, of k] right sp touch by (cases bs) simp_all
  moreover have "\<exists>s'. (case bs of
       [] \<Rightarrow> free_at_last (Suc k) ?s1 e a sz ?en (entry_size ?h e) True
     | f # bs' \<Rightarrow> free_before_next (Suc k) ?s1 e f a sz ?en (entry_size ?h e) (me_end (?h e) + 1) True) = Ok s'
     \<and> gives s ([] @ e # bs) ps s' (block a sz)"
  proof (rule grown_ok [OF _ _ _ ft _ rok _ _ refl])
    show "a < me_end (?h e)" using less le fe(2) unfolding word_less_nat_alt by linarith
    show "total_size ([] @ ?rs) = total_size (map (range_of ?h) ([] @ e # bs)) + unat sz"
      using put(3) fe(1) ft by (simp add: fits_def range_of_def)
    show "bytes ([] @ ?rs) = free_bytes s ([] @ e # bs) \<union> block a sz"
      using put(2) fe(5) by (simp add: free_bytes_def range_of_def)
  next
    fix f bs'
    assume f: "bs = f # bs'"
    then have "f \<noteq> e" using pmm_distinct [OF inv] by auto
    moreover have "unat (me_end (?h e)) + 2 \<le> unat (me_start (?h f))" using sp f by simp
    ultimately show "(merge_next (Suc k) ?s1 e f a ?en (me_end (?h e) + 1) True
        :: (MemoryError \<times> PhysicalMemoryManager, _) outcome) = Ok (?s1, True)"
      using fe(3) less right unat_succ_end [OF ro, of e]
      by (intro merge_next_none) (auto simp: word_unat_eq_iff word_le_nat_alt word_less_nat_alt)
  qed (use inv n in simp_all)
  ultimately show ?thesis by simp
qed

text \<open>The block touches the next entry only.\<close>

lemma chain_same_size:
  "ranged (entries s) e \<Longrightarrow> old = entry_size (entries s) e \<Longrightarrow> chain_entry_to_free_list n s e (Some old) = Ok s"
  by (simp add: chain_entry_to_free_list_def Let_def)

lemma free_touching_right:
  assumes inv: "pmm_inv s (as @ e # f # bs) fls ps" and n: "length (as @ e # f # bs) \<le> Suc k" and ft: "fits a sz"
    and left: "unat (me_end (entries s e)) + 1 < unat a"
    and right: "unat a + unat sz = unat (me_start (entries s f))"
  shows "\<exists>s'. define_free_memory (Suc k) s a sz = Ok s' \<and> gives s (as @ e # f # bs) ps s' (block a sz)"
proof -
  let ?h = "entries s" and ?en = "to_end_address sz a" and ?es = "as @ e # f # bs"
  let ?a = "map (range_of ?h) (as @ [e])" and ?b = "map (range_of ?h) bs"
  let ?rs = "?a @ (unat a, unat (me_end (?h f))) # ?b"
  note fe = fits_end [OF ft]
  have inv': "pmm_inv s ((as @ [e]) @ f # bs) fls ps" using inv by simp
  have ro: "ranges_ok (map (range_of ?h) ?es)" using inv by (simp add: pmm_inv_def)
  have less: "me_start (?h f) < me_end (?h f)" and top: "unat (me_end (?h f)) + 2 \<le> 2 ^ 64"
    using ranges_okD(1,2) [OF ro, of f] by simp_all
  have ne: "e \<noteq> f" using pmm_distinct [OF inv] by auto
  have touch: "me_start (?h f) = ?en + 1" using right fe(3) by (simp add: word_unat_eq_iff)
  have ue: "unat (me_end (?h e) + 1) = unat (me_end (?h e)) + 1" using unat_succ_end [OF ro, of e] by simp
  have nl: "me_end (?h e) + 1 \<noteq> a" "\<not> a \<le> me_end (?h e) + 1" "a \<noteq> me_end (?h e) + 1"
    using left ue by (auto simp: word_unat_eq_iff word_le_nat_alt)
  have sp: "sep 0 (?a @ (unat (me_start (?h f)), unat (me_end (?h f))) # ?b)"
    using ro by (simp add: ranges_ok_def range_of_def)
  have le: "unat a \<le> unat ?en" "unat ?en + 1 = unat (me_start (?h f))"
    using fe(1,2) right ft by (auto simp: word_less_nat_alt fits_def)
  have "span_top 0 ?a \<le> unat a" using left by simp
  note put = put_before [OF sp this le]
  have rok: "ranges_ok ?rs"
    using ro put(1) top by (intro ranges_ok_edit [of "map (range_of ?h) (as @ [e, f])"]) auto
  have tot: "total_size ?rs = total_size (map (range_of ?h) ((as @ [e]) @ f # bs)) + unat sz"
    using put(3) fe(1) ft by (simp add: fits_def range_of_def)
  have m: "unat (free_memory_size s + sz) = total_size ?rs" by (rule total_after_free [OF inv' ft rok tot])
  have lt: "a < me_end (?h f)" using less le fe(2) unfolding word_less_nat_alt by linarith
  have "card (set ?es) \<le> Suc k" using pmm_card [OF inv] n by simp
  from resize_entry_ok [OF pmm_listed [OF inv] _ lt this, where e = f and 'e = "MemoryError \<times> PhysicalMemoryManager"]
  obtain s1 fls' where
    rz: "(resize_entry (Suc k) s f a (me_end (?h f)) :: (MemoryError \<times> PhysicalMemoryManager, _) outcome) = Ok s1"
    and rel: "relisted (s\<lparr>entries := with_range ?h f a (me_end (?h f))\<rparr>) s1 (set ?es)"
    and l: "listed s1 fls' (set ?es)" by auto
  have sets: "set ?es = set ((as @ [e]) @ f # bs)" by simp
  note res = resized_inv [OF inv' rel l [unfolded sets] refl rok m]
  have fm: "free_memory_size s1 = free_memory_size s" using relistedD(2) [OF rel] by simp
  note st = strip_eqD [OF relistedD(5) [OF rel]]
  have f1: "me_start (entries s1 f) = a" "me_end (entries s1 e) = me_end (?h e)"
    "me_start (entries s1 e) = me_start (?h e)" "enabled (entries s1 f)"
    using st ne inv by (auto simp: pmm_inv_def linked_def)
  have merge: "(merge_next (Suc k) s e f a ?en (me_end (?h e) + 1) False
      :: (MemoryError \<times> PhysicalMemoryManager, _) outcome) = Ok (s1, True)"
    using touch rz f1 nl by (simp add: merge_next_def)
  have same: "ranged (entries s1) e" "entry_size (entries s1) e = entry_size ?h e"
    using l f1 by (simp_all add: listed_def entry_size_def)
  let ?s2 = "s1\<lparr>free_memory_size := free_memory_size s + sz\<rparr>"
  have sz: "sep (unat a + unat sz) (map (range_of ?h) (f # bs))" using sp right by simp
  have "define_free_memory (Suc k) s a sz = free_before_next (Suc k) s e f a sz ?en (entry_size ?h e)
      (me_end (?h e) + 1) False"
    using define_free_memory_after [OF inv n ft _ sz refl] left nl(1) by simp
  also have "\<dots> = Ok ?s2"
    using merge same fm f1(4)
    by (simp add: free_before_next_def chain_same_size free_if_disabled_def is_enabled_def)
  finally have eq: "define_free_memory (Suc k) s a sz = Ok ?s2" .
  have "bytes ?rs = free_bytes s ?es \<union> block a sz"
    using put(2) fe(5) by (simp add: free_bytes_def range_of_def)
  then have "gives s ?es ps ?s2 (block a sz)"
    unfolding gives_def using res
    by (intro exI [of _ "(as @ [e]) @ f # bs"] exI [of _ fls'] exI [of _ ps]) (simp add: free_bytes_def)
  with eq show ?thesis by blast
qed

text \<open>The block touches nothing: the two branches that create an entry, as one expression.\<close>

definition new_entry_result ::
  "nat \<Rightarrow> PhysicalMemoryManager \<Rightarrow> usize \<Rightarrow> usize \<Rightarrow> MSize \<Rightarrow> usize list
     \<Rightarrow> (MemoryError \<times> PhysicalMemoryManager, PhysicalMemoryManager) outcome" where
  "new_entry_result n s1 e x old bs =
     obind (obind (chain_entry_to_free_list n s1 e (Some old)) (\<lambda>s2. chain_entry_to_free_list n s2 x None))
       (\<lambda>s3. case bs of [] \<Rightarrow> Ok s3 | f # _ \<Rightarrow> err_state s3 (free_if_disabled s3 f))"

lemma link_after_next:
  assumes "me_next (h e) = Some f" and "f \<noteq> x"
  shows "chain_after_me (set_next_entry (set_prev_entry h f x) x f) e x = link_after h e x"
proof -
  have "set_next_entry (set_prev_entry h f x) x f = chain_after_me h x f"
    using assms(2) by (auto simp: chain_after_me_def set_next_entry_def set_prev_entry_def fun_eq_iff)
  with assms(1) show ?thesis by (simp add: link_after_def)
qed

lemma new_after_eq:
  assumes new: "create_memory_entry s = Ok (s\<lparr>memory_entry_pool := p, entries := h0\<rparr>, x)"
    and lt: "a < en" and xe: "x \<noteq> e" and h1: "h1 = with_range h0 x a en"
    and e: "me_end (h0 e) < a" "me_start (h0 e) < a"
    and nx: "me_next (h0 e) = hd_or None bs" and f: "bs \<noteq> [] \<longrightarrow> hd bs \<noteq> x"
    and mg: "\<And>f bs'. bs = f # bs' \<Longrightarrow> (merge_next n s e f a en aft False
               :: (MemoryError \<times> PhysicalMemoryManager, _) outcome) = Ok (s, False)"
  shows "(case bs of
       [] \<Rightarrow> free_at_last n s e a sz en old False
     | f # bs' \<Rightarrow> free_before_next n s e f a sz en old aft False) =
    new_entry_result n (s\<lparr>memory_entry_pool := p, entries := link_after h1 e x,
                          free_memory_size := free_memory_size s + sz\<rparr>) e x old bs"
proof (cases bs)
  case Nil
  then show ?thesis
    using new lt e nx xe by (simp add: free_at_last_def new_entry_result_def link_after_def h1)
next
  case (Cons f bs')
  have ne: "\<not> en < me_start (h0 e)" using e(2) lt by (simp add: not_less)
  have "me_next (h1 e) = Some f" using nx Cons by (simp add: h1)
  then have la: "chain_after_me (set_next_entry (set_prev_entry h1 f x) x f) e x = link_after h1 e x"
    using link_after_next f Cons by simp
  show ?thesis
    using Cons new lt ne mg [OF Cons] xe la
    by (simp add: free_before_next_def new_entry_result_def h1 obind_assoc)
qed

lemma new_before_eq:
  assumes new: "create_memory_entry s = Ok (s\<lparr>memory_entry_pool := p, entries := h0\<rparr>, x)"
    and lt: "a < en" and xe: "x \<noteq> e" and h1: "h1 = with_range h0 x a en"
    and e: "en < me_start (h0 e)" "a < me_end (h0 e)" "me_previous (h0 e) = None"
    and mg: "\<And>f bs'. bs = f # bs' \<Longrightarrow> (merge_next n s e f a en aft False
               :: (MemoryError \<times> PhysicalMemoryManager, _) outcome) = Ok (s, False)"
  shows "(case bs of
       [] \<Rightarrow> free_at_last n s e a sz en old False
     | f # bs' \<Rightarrow> free_before_next n s e f a sz en old aft False) =
    new_entry_result n (s\<lparr>memory_entry_pool := p, first_entry := x, entries := chain_after_me h1 x e,
                          free_memory_size := free_memory_size s + sz\<rparr>) e x old bs"
proof (cases bs)
  case Nil
  have "\<not> me_end (h0 e) < a" using e(2) by simp
  with Nil show ?thesis
    using new lt e xe by (simp add: free_at_last_def new_entry_result_def h1)
next
  case (Cons f bs')
  then show ?thesis
    using new lt e mg [OF Cons] xe by (simp add: free_before_next_def new_entry_result_def h1 obind_assoc)
qed

lemma new_entry_result_ok:
  assumes chain: "obind (chain_entry_to_free_list n s1 e (Some old)) (\<lambda>s2. chain_entry_to_free_list n s2 x None
        :: (MemoryError \<times> PhysicalMemoryManager, _) outcome)
      = Ok s'" and "\<And>f bs'. bs = f # bs' \<Longrightarrow> enabled (entries s' f)"
  shows "new_entry_result n s1 e x old bs = Ok s'"
  unfolding new_entry_result_def chain
  using assms(2) by (cases bs) (simp_all add: free_if_disabled_def is_enabled_def)

lemma free_apart_after:
  assumes inv: "pmm_inv s (as @ e # bs) fls (x # ps)" and n: "length (as @ e # bs) \<le> Suc k" and ft: "fits a sz"
    and left: "unat (me_end (entries s e)) + 1 < unat a"
    and hi: "sep (unat a + unat sz + 1) (map (range_of (entries s)) bs)"
  shows "\<exists>s'. define_free_memory (Suc k) s a sz = Ok s' \<and> gives s (as @ e # bs) (x # ps) s' (block a sz)"
proof -
  let ?h = "entries s" and ?en = "to_end_address sz a" and ?es = "as @ e # bs"
  let ?a = "map (range_of ?h) (as @ [e])" and ?b = "map (range_of ?h) bs"
  let ?rs = "?a @ (unat a, unat ?en) # ?b"
  note fe = fits_end [OF ft]
  have ro: "ranges_ok (map (range_of ?h) ?es)" and lk: "linked ?h (first_entry s) ?es" and d: "distinct ?es"
    and pk: "pool_ok (memory_entry_pool s) ?es (x # ps)"
    using inv by (simp_all add: pmm_inv_def linked_def)
  from create_memory_entry_ok [OF pk] obtain p where
    new: "create_memory_entry s =
       Ok (s\<lparr>memory_entry_pool := p, entries := MemoryEntry_init (set_enabled ?h x) x\<rparr>, x)"
    and pk': "pool_ok p (x # ?es) ps" and x: "x \<notin> set ?es" by blast
  define h0 where "h0 = MemoryEntry_init (set_enabled ?h x) x"
  define h1 where "h1 = with_range h0 x a ?en"
  have en2: "unat ?en + 2 = unat a + unat sz + 1" using fe(1) ft by (auto simp: fits_def)
  have less: "me_start (?h e) < me_end (?h e)" using ranges_okD(1) [OF ro, of e] by simp
  have ue: "unat (me_end (?h e) + 1) = unat (me_end (?h e)) + 1" using unat_succ_end [OF ro, of e] by simp
  have nl: "me_end (?h e) + 1 \<noteq> a" using left ue by (auto simp: word_unat_eq_iff)
  have ea: "me_end (h0 e) < a" "me_start (h0 e) < a"
    using left less x by (simp_all add: h0_def word_less_nat_alt)
  have nx: "me_next (h0 e) = hd_or None bs"
    using chain_next_mem [of "me_previous \<circ> ?h" "me_next \<circ> ?h" None as e bs None] lk x
    by (auto simp: linked_def h0_def)
  have mg: "(merge_next (Suc k) s e f a ?en (me_end (?h e) + 1) False
      :: (MemoryError \<times> PhysicalMemoryManager, _) outcome) = Ok (s, False)" if f: "bs = f # bs'" for f bs'
  proof -
    have "unat a + unat sz + 1 \<le> unat (me_start (?h f))" using hi f by simp
    then show ?thesis
      using fe(3) ue left by (intro merge_next_none) (auto simp: word_unat_eq_iff word_le_nat_alt)
  qed
  let ?s1 = "s\<lparr>memory_entry_pool := p, entries := link_after h1 e x, free_memory_size := free_memory_size s + sz\<rparr>"
  have "define_free_memory (Suc k) s a sz = (case bs of
       [] \<Rightarrow> free_at_last (Suc k) s e a sz ?en (entry_size ?h e) False
     | f # bs' \<Rightarrow> free_before_next (Suc k) s e f a sz ?en (entry_size ?h e) (me_end (?h e) + 1) False)"
    using define_free_memory_after [OF inv n ft, OF _ _ refl] left sep_mono [OF hi, of "unat a + unat sz"] nl
    by (cases bs) simp_all
  also have "\<dots> = new_entry_result (Suc k) ?s1 e x (entry_size ?h e) bs"
    using x by (intro new_after_eq [OF new [folded h0_def] fe(2) _ h1_def ea nx _ mg]) auto
  finally have eq: "define_free_memory (Suc k) s a sz = new_entry_result (Suc k) ?s1 e x (entry_size ?h e) bs" .
  have sp: "sep 0 (?a @ ?b)" "span_top 0 ?a \<le> unat a" using ro left by (simp_all add: ranges_ok_def)
  note put = put_new [OF sp _ hi [folded en2]]
  have lt: "unat a < unat ?en" using fe(2) by (simp add: word_less_nat_alt)
  have rok: "ranges_ok ?rs"
    using ro put(1) lt ft en2 by (intro ranges_ok_edit [of ?a]) (auto simp: fits_def)
  have tot: "total_size ?rs = total_size (map (range_of ?h) ?es) + unat sz"
    using put(3) lt fe(1) ft by (simp add: fits_def)
  have m: "unat (free_memory_size s + sz) = total_size ?rs" by (rule total_after_free [OF inv ft rok tot])
  have "linked h1 (first_entry s) ?es"
    using lk x by (subst linked_cong [where h = ?h]) (auto simp: h1_def h0_def)
  from linked_link_after [OF this x] have lk': "linked (link_after h1 e x) (first_entry s) (as @ e # x # bs)"
    by (simp add: h1_def h0_def)
  have rg: "map (range_of (link_after h1 e x)) (as @ e # x # bs) = ?rs"
    using x by (auto simp: h1_def h0_def range_of_def)
  have "\<exists>s'. obind (chain_entry_to_free_list (Suc k) ?s1 e (Some (entry_size ?h e)))
         (\<lambda>s2. chain_entry_to_free_list (Suc k) s2 x None :: (MemoryError \<times> PhysicalMemoryManager, _) outcome)
         = Ok s' \<and> gives s ?es (x # ps) s' (block a sz)
       \<and> (\<forall>y. enabled (entries s' y) = enabled (link_after h1 e x y))"
  proof (rule gives_new [OF inv n _ x _ _ _ _ lk' _ pk' rg rok m])
    show "bytes ?rs = free_bytes s ?es \<union> block a sz"
      using put(2) lt fe(5) by (simp add: free_bytes_def Un_ac)
    show "ranged (link_after h1 e x) x" using fe(2) by (simp add: ranged_def h1_def)
  qed (use x in \<open>auto simp: h1_def h0_def same_range_def\<close>)
  then obtain s' where ok: "obind (chain_entry_to_free_list (Suc k) ?s1 e (Some (entry_size ?h e)))
         (\<lambda>s2. chain_entry_to_free_list (Suc k) s2 x None :: (MemoryError \<times> PhysicalMemoryManager, _) outcome) = Ok s'"
    and g: "gives s ?es (x # ps) s' (block a sz)" and en: "\<And>y. enabled (entries s' y) = enabled (link_after h1 e x y)"
    by blast
  have "enabled (entries s' f)" if "bs = f # bs'" for f bs'
    using en that lk by (simp add: linked_def h1_def h0_def)
  then have "new_entry_result (Suc k) ?s1 e x (entry_size ?h e) bs = Ok s'" by (rule new_entry_result_ok [OF ok])
  with eq g show ?thesis by simp
qed

lemma free_apart_before:
  assumes inv: "pmm_inv s (e # bs) fls (x # ps)" and n: "length (e # bs) \<le> Suc k" and ft: "fits a sz"
    and right: "unat a + unat sz < unat (me_start (entries s e))"
  shows "\<exists>s'. define_free_memory (Suc k) s a sz = Ok s' \<and> gives s (e # bs) (x # ps) s' (block a sz)"
proof -
  let ?h = "entries s" and ?en = "to_end_address sz a" and ?es = "e # bs"
  let ?rs = "(unat a, unat ?en) # map (range_of ?h) ?es"
  note fe = fits_end [OF ft]
  have ro: "ranges_ok (map (range_of ?h) ?es)" and lk: "linked ?h (first_entry s) ?es"
    and first: "first_entry s = e" and pv: "me_previous (?h e) = None"
    and pk: "pool_ok (memory_entry_pool s) ?es (x # ps)"
    using inv by (simp_all add: pmm_inv_def linked_def)
  from create_memory_entry_ok [OF pk] obtain p where
    new: "create_memory_entry s =
       Ok (s\<lparr>memory_entry_pool := p, entries := MemoryEntry_init (set_enabled ?h x) x\<rparr>, x)"
    and pk': "pool_ok p (x # ?es) ps" and x: "x \<notin> set ?es" by blast
  define h0 where "h0 = MemoryEntry_init (set_enabled ?h x) x"
  define h1 where "h1 = with_range h0 x a ?en"
  have en2: "unat ?en + 2 = unat a + unat sz + 1" using fe(1) ft by (auto simp: fits_def)
  have less: "me_start (?h e) < me_end (?h e)" using ranges_okD(1) [OF ro, of e] by simp
  have ue: "unat (me_end (?h e) + 1) = unat (me_end (?h e)) + 1" using unat_succ_end [OF ro, of e] by simp
  have nt: "me_start (?h e) \<noteq> ?en + 1" using right fe(3) by (auto simp: word_unat_eq_iff)
  have ea: "?en < me_start (h0 e)" "a < me_end (h0 e)" "me_previous (h0 e) = None"
    using right less en2 pv x by (auto simp: h0_def word_less_nat_alt)
  have mg: "(merge_next (Suc k) s e f a ?en (me_end (?h e) + 1) False
      :: (MemoryError \<times> PhysicalMemoryManager, _) outcome) = Ok (s, False)" if f: "bs = f # bs'" for f bs'
  proof -
    have "unat (me_end (?h e)) + 2 \<le> unat (me_start (?h f))" using ro f by (simp add: ranges_ok_def)
    then show ?thesis
      using fe(3) ue less right
      by (intro merge_next_none) (auto simp: word_unat_eq_iff word_le_nat_alt word_less_nat_alt)
  qed
  let ?s1 = "s\<lparr>memory_entry_pool := p, first_entry := x, entries := chain_after_me h1 x e,
               free_memory_size := free_memory_size s + sz\<rparr>"
  have hi: "sep (unat a + unat sz) (map (range_of ?h) ?es)" using ro right by (simp add: ranges_ok_def)
  have "define_free_memory (Suc k) s a sz = (case bs of
       [] \<Rightarrow> free_at_last (Suc k) s e a sz ?en (entry_size ?h e) False
     | f # bs' \<Rightarrow> free_before_next (Suc k) s e f a sz ?en (entry_size ?h e) (me_end (?h e) + 1) False)"
    using define_free_memory_before [OF inv ft hi refl, of k] nt by (cases bs) simp_all
  also have "\<dots> = new_entry_result (Suc k) ?s1 e x (entry_size ?h e) bs"
    using x by (intro new_before_eq [OF new [folded h0_def] fe(2) _ h1_def ea mg]) auto
  finally have eq: "define_free_memory (Suc k) s a sz = new_entry_result (Suc k) ?s1 e x (entry_size ?h e) bs" .
  have lt: "unat a < unat ?en" using fe(2) by (simp add: word_less_nat_alt)
  have rok: "ranges_ok ?rs" using ro lt right en2 by (simp add: ranges_ok_def)
  have tot: "total_size ?rs = total_size (map (range_of ?h) ?es) + unat sz"
    using lt fe(1) ft by (simp add: fits_def)
  have m: "unat (free_memory_size s + sz) = total_size ?rs" by (rule total_after_free [OF inv ft rok tot])
  have "linked h1 e ?es"
    using lk x first by (subst linked_cong [where h = ?h]) (auto simp: h1_def h0_def)
  from linked_link_front [OF this x] have lk': "linked (chain_after_me h1 x e) x (x # ?es)"
    by (simp add: h1_def h0_def)
  have rg: "map (range_of (chain_after_me h1 x e)) (x # ?es) = ?rs"
    using x by (auto simp: h1_def h0_def range_of_def)
  have "\<exists>s'. obind (chain_entry_to_free_list (Suc k) ?s1 e (Some (entry_size ?h e)))
         (\<lambda>s2. chain_entry_to_free_list (Suc k) s2 x None :: (MemoryError \<times> PhysicalMemoryManager, _) outcome)
         = Ok s' \<and> gives s ?es (x # ps) s' (block a sz)
       \<and> (\<forall>y. enabled (entries s' y) = enabled (chain_after_me h1 x e y))"
  proof (rule gives_new [OF inv n _ x _ _ _ _ lk' refl pk' rg rok m])
    show "bytes ?rs = free_bytes s ?es \<union> block a sz"
      using fe(5) by (simp add: free_bytes_def Un_ac)
    show "ranged (chain_after_me h1 x e) x" using fe(2) by (simp add: ranged_def h1_def)
  qed (use x in \<open>auto simp: h1_def h0_def same_range_def\<close>)
  then obtain s' where ok: "obind (chain_entry_to_free_list (Suc k) ?s1 e (Some (entry_size ?h e)))
         (\<lambda>s2. chain_entry_to_free_list (Suc k) s2 x None :: (MemoryError \<times> PhysicalMemoryManager, _) outcome) = Ok s'"
    and g: "gives s ?es (x # ps) s' (block a sz)"
    and en: "\<And>y. enabled (entries s' y) = enabled (chain_after_me h1 x e y)"
    by blast
  have "enabled (entries s' f)" if "bs = f # bs'" for f bs'
    using en that lk by (simp add: linked_def h1_def h0_def)
  then have "new_entry_result (Suc k) ?s1 e x (entry_size ?h e) bs = Ok s'" by (rule new_entry_result_ok [OF ok])
  with eq g show ?thesis by simp
qed

text \<open>Without an entry in the pool the two cases fail, and nothing has been written.\<close>

lemma free_apart_run_out:
  assumes inv: "pmm_inv s es fls []"
    and mg: "\<And>f bs'. bs = f # bs' \<Longrightarrow> (merge_next n s e f a en aft False
               :: (MemoryError \<times> PhysicalMemoryManager, _) outcome) = Ok (s, False)"
  shows "(case bs of
       [] \<Rightarrow> free_at_last n s e a sz en old False
     | f # bs' \<Rightarrow> free_before_next n s e f a sz en old aft False) = Err (EntryPoolRunOut, s)"
proof -
  have "create_memory_entry s = Err EntryPoolRunOut"
    using inv by (intro create_memory_entry_run_out [of s es]) (simp add: pmm_inv_def)
  with mg show ?thesis by (cases bs) (simp_all add: free_at_last_def free_before_next_def)
qed

lemma free_apart_before_run_out:
  assumes inv: "pmm_inv s (e # bs) fls []" and ft: "fits a sz"
    and gt: "unat a + unat sz < unat (me_start (entries s e))"
  shows "define_free_memory (Suc k) s a sz = Err (EntryPoolRunOut, s)"
proof -
  let ?h = "entries s" and ?en = "to_end_address sz a"
  note fe = fits_end [OF ft]
  have ro: "ranges_ok (map (range_of ?h) (e # bs))" using inv by (simp add: pmm_inv_def)
  have ne: "me_start (?h e) \<noteq> ?en + 1" using gt fe(3) by (auto simp: word_unat_eq_iff)
  have hi: "sep (unat a + unat sz) (map (range_of ?h) (e # bs))" using ro gt by (simp add: ranges_ok_def)
  have mg: "(merge_next (Suc k) s e f a ?en (me_end (?h e) + 1) False
    :: (MemoryError \<times> PhysicalMemoryManager, _) outcome) = Ok (s, False)" if f: "bs = f # cs" for f cs
  proof -
    have "unat (me_end (?h e)) + 2 \<le> unat (me_start (?h f))" "unat (me_start (?h e)) < unat (me_end (?h e))"
      using hi f by simp_all
    then show ?thesis
      using fe(3) unat_succ_end [OF ro, of e] gt
      by (intro merge_next_none) (auto simp: word_unat_eq_iff word_le_nat_alt)
  qed
  have "(case bs of
       [] \<Rightarrow> free_at_last (Suc k) s e a sz ?en (entry_size ?h e) False
     | f # bs' \<Rightarrow> free_before_next (Suc k) s e f a sz ?en (entry_size ?h e) (me_end (?h e) + 1) False)
      = Err (EntryPoolRunOut, s)"
    by (rule free_apart_run_out [OF inv mg])
  with define_free_memory_before [OF inv ft hi refl, of k] ne show ?thesis by (cases bs) simp_all
qed

lemma free_apart_after_run_out:
  assumes inv: "pmm_inv s (as @ e # bs) fls []" and n: "length (as @ e # bs) \<le> Suc k" and ft: "fits a sz"
    and left: "unat (me_end (entries s e)) + 1 < unat a"
    and hi: "sep (unat a + unat sz + 1) (map (range_of (entries s)) bs)"
  shows "define_free_memory (Suc k) s a sz = Err (EntryPoolRunOut, s)"
proof -
  let ?h = "entries s" and ?en = "to_end_address sz a"
  note fe = fits_end [OF ft]
  have ro: "ranges_ok (map (range_of ?h) (as @ e # bs))" using inv by (simp add: pmm_inv_def)
  have ue: "unat (me_end (?h e) + 1) = unat (me_end (?h e)) + 1" using unat_succ_end [OF ro, of e] by simp
  have ne: "me_end (?h e) + 1 \<noteq> a" using left ue by (auto simp: word_unat_eq_iff)
  have mg: "(merge_next (Suc k) s e f a ?en (me_end (?h e) + 1) False
    :: (MemoryError \<times> PhysicalMemoryManager, _) outcome) = Ok (s, False)" if f: "bs = f # cs" for f cs
  proof -
    have "unat a + unat sz + 1 \<le> unat (me_start (?h f))" using hi f by simp
    then show ?thesis
      using fe(3) ue left by (intro merge_next_none) (auto simp: word_unat_eq_iff word_le_nat_alt)
  qed
  have "(case bs of
       [] \<Rightarrow> free_at_last (Suc k) s e a sz ?en (entry_size ?h e) False
     | f # bs' \<Rightarrow> free_before_next (Suc k) s e f a sz ?en (entry_size ?h e) (me_end (?h e) + 1) False)
      = Err (EntryPoolRunOut, s)"
    by (rule free_apart_run_out [OF inv mg])
  with define_free_memory_after [OF inv n ft, OF _ _ refl] left sep_mono [OF hi, of "unat a + unat sz"] ne
  show ?thesis by (cases bs) simp_all
qed

text \<open>
  The block fills the gap between two entries. The next entry grows first, while the entry
  already has its new range but is still filed under its old size; then the entry takes
  over the range of the next one, which is unlinked and goes back to the pool.
\<close>

lemma merge_next_join:
  assumes inv: "pmm_inv s (as @ e # f # bs) fls ps" and n: "length (as @ e # f # bs) \<le> n"
    and h1: "h1 = with_range (entries s) e (me_start (entries s e)) en"
    and st: "me_start (entries s e) < en" "a < me_end (entries s f)" "en < me_end (entries s f)"
    and touch: "me_start (entries s f) = en + 1" "aft = a" "a \<le> en"
  shows "\<exists>s' fls'. (merge_next n (s\<lparr>entries := h1\<rparr>) e f a en aft True :: ('e, _) outcome) = Ok (s', True)
     \<and> s' = s\<lparr>free_list := free_list s', entries := entries s'\<rparr>
     \<and> fl_inv (entries s') (free_list s') fls' (set (as @ e # bs))
     \<and> (\<forall>i. set (fls i) - {f} \<subseteq> set (fls' i))
     \<and> linked (entries s') (first_entry s) (as @ e # bs) \<and> \<not> enabled (entries s' f)
     \<and> (\<forall>x. x \<noteq> f \<longrightarrow> same_range (entries s') (with_range (entries s) e (me_start (entries s e)) (me_end (entries s f))) x)"
proof -
  let ?h = "entries s" and ?es = "as @ e # f # bs" and ?ef = "me_end (entries s f)"
  have l: "listed s fls (set ?es)" and d: "distinct ?es" and lk: "linked ?h (first_entry s) ?es"
    using pmm_listed [OF inv] inv by (simp_all add: pmm_inv_def linked_def)
  have ne: "e \<noteq> f" "f \<notin> set (as @ e # bs)" using d by auto
  define h2 where "h2 = with_range h1 f a ?ef"
  define s2 where "s2 = s\<lparr>entries := h2\<rparr>"
  have inv2: "fl_inv (entries s2) (free_list s2) fls (set ?es)"
    using l by (simp add: s2_def h2_def h1 listed_def)
  have rg2: "\<forall>x \<in> set ?es. ranged (entries s2) x"
    using l st by (auto simp: s2_def h2_def h1 listed_def ranged_def)
  have old: "f \<in> set (fls (unat (size_to_page_order (entry_size ?h f))))"
    using l by (simp add: listed_def filed_def order_of_def)
  have c: "card (set ?es) \<le> n" using pmm_card [OF inv] n by simp
  from rechain_ok [OF inv2 _ old rg2 c, where 'e = 'e] obtain s3 fls3 where
    ch: "(chain_entry_to_free_list n s2 f (Some (entry_size ?h f)) :: ('e, _) outcome) = Ok s3"
    and rel3: "relisted s2 s3 (set ?es)" and inv3: "fl_inv (entries s3) (free_list s3) fls3 (set ?es)"
    and f3: "filed (entries s3) fls3 f" and k3: "\<forall>i. set (fls i) - {f} \<subseteq> set (fls3 i)" by auto
  note st3 = strip_eqD [OF relistedD(5) [OF rel3]]
  have rz: "(resize_entry n (s\<lparr>entries := h1\<rparr>) f a ?ef :: ('e, _) outcome) = Ok s3"
    using ch l ne st(2)
    by (simp add: resize_entry_def h2_def s2_def h1 listed_def ranged_with_range entry_size_def)
  define s4 where "s4 = s3\<lparr>entries := with_range (entries s3) e (me_start (?h e)) ?ef\<rparr>"
  have inv4: "fl_inv (entries s4) (free_list s4) fls3 (set ?es)" using inv3 by (simp add: s4_def)
  have "ranged (entries s4) f" using st3 st(2) ne by (simp add: s4_def ranged_def s2_def h2_def)
  moreover have "filed (entries s4) fls3 f" using f3 ne by (simp add: s4_def filed_with_range)
  ultimately obtain s5 fls5 where
    un: "(unchain_entry_from_free_list s4 f :: ('e, _) outcome) = Ok s5" and rel5: "relisted s4 s5 (set ?es)"
    and inv5: "fl_inv (entries s5) (free_list s5) fls5 (set ?es - {f})"
    and k5: "\<forall>i. set (fls3 i) - {f} \<subseteq> set (fls5 i)"
    using unchain_entry_ok [OF inv4, of f, where 'e = 'e] by blast
  note st5 = strip_eqD [OF relistedD(5) [OF rel5]]
  define s6 where "s6 = s5\<lparr>entries := MemoryEntry_delete (entries s5) f\<rparr>"
  have me: "me_start (entries s3 f) = a" "me_end (entries s3 f) = ?ef" "me_end (entries s3 e) = en"
    "me_start (entries s3 e) = me_start (?h e)"
    using st3 ne by (simp_all add: s2_def h2_def h1)
  have mx: "max en ?ef = ?ef" using st(3) by (simp add: max_absorb2 less_imp_le)
  have lt: "me_start (?h e) < ?ef" using st(1,3) by simp
  have "(merge_next n (s\<lparr>entries := h1\<rparr>) e f a en aft True :: ('e, _) outcome) = Ok (s6, True)"
    using touch rz me mx lt un ne by (simp add: merge_next_def h1 s4_def s6_def)
  moreover have "s6 = s\<lparr>free_list := free_list s6, entries := entries s6\<rparr>"
    using relistedD(1-4) [OF rel3] relistedD(1-4) [OF rel5] by (simp add: s6_def s4_def s2_def)
  moreover have "set ?es - {f} = set (as @ e # bs)" using ne by auto
  then have "fl_inv (entries s6) (free_list s6) fls5 (set (as @ e # bs))"
    using inv5 fl_inv_cong [of "set (as @ e # bs)" "entries s6" "entries s5"] by (simp add: s6_def)
  moreover have "\<forall>i. set (fls i) - {f} \<subseteq> set (fls5 i)" using k3 k5 by blast
  moreover have "linked (entries s5) (first_entry s) ?es"
    using lk st5 st3 by (subst linked_cong [where h = ?h]) (simp_all add: s4_def s2_def h2_def h1)
  then have "linked (MemoryEntry_delete (entries s5) f) (hd ((as @ [e]) @ bs)) ((as @ [e]) @ bs)"
    using linked_delete [of "entries s5" "first_entry s" "as @ [e]" f bs] by simp
  then have "linked (entries s6) (first_entry s) (as @ e # bs)"
    using lk by (cases as) (simp_all add: s6_def linked_def)
  moreover have "\<not> enabled (entries s6 f)" by (simp add: s6_def)
  moreover have "\<forall>x. x \<noteq> f \<longrightarrow> same_range (entries s6) (with_range ?h e (me_start (?h e)) ?ef) x"
    using st5 st3 by (simp add: same_range_def s6_def s4_def s2_def h2_def h1)
  ultimately show ?thesis by blast
qed

lemma free_touching_both:
  assumes inv: "pmm_inv s (as @ e # f # bs) fls ps" and n: "length (as @ e # f # bs) \<le> Suc k" and ft: "fits a sz"
    and left: "unat (me_end (entries s e)) + 1 = unat a"
    and right: "unat a + unat sz = unat (me_start (entries s f))"
  shows "\<exists>s'. define_free_memory (Suc k) s a sz = Ok s' \<and> gives s (as @ e # f # bs) ps s' (block a sz)"
proof -
  let ?h = "entries s" and ?en = "to_end_address sz a" and ?es = "as @ e # f # bs" and ?es' = "as @ e # bs"
  let ?a = "map (range_of ?h) as" and ?b = "map (range_of ?h) bs" and ?st = "me_start (entries s e)"
  let ?ef = "me_end (entries s f)"
  let ?rs = "?a @ (unat ?st, unat ?ef) # ?b"
  note fe = fits_end [OF ft]
  have ro: "ranges_ok (map (range_of ?h) ?es)" and d: "distinct ?es" and l: "listed s fls (set ?es)"
    using inv pmm_listed [OF inv] by (simp_all add: pmm_inv_def linked_def)
  have less: "?st < me_end (?h e)" "me_start (?h f) < ?ef" using ranges_okD(1) [OF ro] by simp_all
  have top: "unat ?ef + 2 \<le> 2 ^ 64" using ranges_okD(2) [OF ro, of f] by simp
  have touch: "me_end (?h e) + 1 = a" "me_start (?h f) = ?en + 1"
    using left right fe(3) unat_succ_end [OF ro, of e] by (simp_all add: word_unat_eq_iff)
  have aen: "unat a \<le> unat ?en" "unat ?en + 1 = unat (me_start (?h f))"
    using fe(1,2) right ft by (auto simp: word_less_nat_alt fits_def)
  have lts: "?st < ?en" "a < ?ef" "?en < ?ef" "a \<le> ?en" "?st < ?ef"
    using less left aen fe(2) unfolding word_less_nat_alt word_le_nat_alt by linarith+
  let ?s0 = "s\<lparr>entries := with_range ?h e ?st ?en\<rparr>"
  from merge_next_join [OF inv n refl lts(1-3) touch(2,1) lts(4), where 'e = "MemoryError \<times> PhysicalMemoryManager"]
  obtain s1 fls1 where
    mg: "(merge_next (Suc k) ?s0 e f a ?en (me_end (?h e) + 1) True
      :: (MemoryError \<times> PhysicalMemoryManager, _) outcome) = Ok (s1, True)"
    and s1: "s1 = s\<lparr>free_list := free_list s1, entries := entries s1\<rparr>"
    and fl1: "fl_inv (entries s1) (free_list s1) fls1 (set ?es')" and k1: "\<forall>i. set (fls i) - {f} \<subseteq> set (fls1 i)"
    and lk1: "linked (entries s1) (first_entry s) ?es'" and dis: "\<not> enabled (entries s1 f)"
    and sr: "\<forall>x. x \<noteq> f \<longrightarrow> same_range (entries s1) (with_range ?h e ?st ?ef) x"
    by blast
  have fs: "f \<notin> set ?es'" and ne: "e \<noteq> f" using d by auto
  define s2 where "s2 = s1\<lparr>free_memory_size := free_memory_size s + sz\<rparr>"
  have same1: "memory_size s1 = memory_size s" "free_memory_size s1 = free_memory_size s"
    "first_entry s1 = first_entry s" "memory_entry_pool s1 = memory_entry_pool s" by (subst s1, simp)+
  have old: "e \<in> set (fls1 (unat (size_to_page_order (entry_size ?h e))))"
    using l k1 ne by (auto simp: listed_def filed_def order_of_def)
  have rg2: "\<forall>x \<in> set ?es'. ranged (entries s2) x"
  proof
    fix x
    assume x: "x \<in> set ?es'"
    then have "x \<noteq> f" using fs by auto
    with sr have "same_range (entries s2) (with_range ?h e ?st ?ef) x" by (simp add: s2_def)
    moreover have "ranged (with_range ?h e ?st ?ef) x"
      using l x lts(5) by (auto simp: listed_def ranged_def)
    ultimately show "ranged (entries s2) x" using same_range_ranged by blast
  qed
  have inv2: "fl_inv (entries s2) (free_list s2) fls1 (set ?es')" using fl1 by (simp add: s2_def)
  have c: "card (set ?es') \<le> Suc k" using n card_length [of ?es'] by simp
  from rechain_ok [OF inv2 _ old rg2 c, where 'e = "MemoryError \<times> PhysicalMemoryManager"] obtain s3 fls3 where
    ch: "(chain_entry_to_free_list (Suc k) s2 e (Some (entry_size ?h e))
      :: (MemoryError \<times> PhysicalMemoryManager, _) outcome) = Ok s3"
    and rel3: "relisted s2 s3 (set ?es')" and inv3: "fl_inv (entries s3) (free_list s3) fls3 (set ?es')"
    and f3: "filed (entries s3) fls3 e" and k3: "\<forall>i. set (fls1 i) - {e} \<subseteq> set (fls3 i)" by auto
  note st3 = strip_eqD [OF relistedD(5) [OF rel3]]
  have "filed (entries s3) fls3 x" if x: "x \<in> set ?es'" for x
  proof (cases "x = e")
    case False
    have "x \<noteq> f" using x fs by auto
    then have "me_start (entries s3 x) = me_start (?h x)" "me_end (entries s3 x) = me_end (?h x)"
      using sr [rule_format, of x] False st3 by (simp_all add: s2_def same_range_def)
    moreover have "filed ?h fls x" using l x by (auto simp: listed_def)
    moreover have k: "\<forall>i. set (fls i) - {e, f} \<subseteq> set (fls3 i)" using k1 k3 by blast
    ultimately show ?thesis using False \<open>x \<noteq> f\<close> filed_kept [OF _ k, of ?h x "entries s3"] by simp
  qed (simp add: f3)
  moreover have "\<forall>x \<in> set ?es'. ranged (entries s3) x" using rg2 strip_sizes(3) [OF relistedD(5) [OF rel3]] by simp
  ultimately have l3: "listed s3 fls3 (set ?es')" using inv3 by (simp add: listed_def)
  have "pool_ok (memory_entry_pool s3) ?es ps"
    using inv relistedD(4) [OF rel3] same1 by (simp add: pmm_inv_def s2_def)
  from pool_free_ok [OF this, of f ?es'] d obtain p where
    pf: "pool_free s3 f = Ok (s3\<lparr>memory_entry_pool := p\<rparr>)" and pk: "pool_ok p ?es' (f # ps)" by auto
  define s4 where "s4 = s3\<lparr>memory_entry_pool := p\<rparr>"
  have dis3: "\<not> is_enabled (entries s3) f" using dis st3(5) by (simp add: is_enabled_def s2_def)
  have "sep (unat a + unat sz) (map (range_of ?h) (f # bs))" using ro right by (simp add: ranges_ok_def)
  then have "define_free_memory (Suc k) s a sz = free_before_next (Suc k) ?s0 e f a sz ?en (entry_size ?h e)
      (me_end (?h e) + 1) True"
    using define_free_memory_after [OF inv n ft, OF _ _ refl] left touch(1) by simp
  also have "\<dots> = Ok s4"
    using mg ch pf dis3 same1 by (simp add: free_before_next_def free_if_disabled_def s2_def s4_def)
  finally have eq: "define_free_memory (Suc k) s a sz = Ok s4" .
  have sp: "sep 0 (?a @ (unat ?st, unat (me_end (?h e))) # (unat (me_start (?h f)), unat ?ef) # ?b)"
    using ro by (simp add: ranges_ok_def range_of_def)
  note put = put_join [OF sp left aen]
  have rok: "ranges_ok ?rs"
    using ro put(1) top by (intro ranges_ok_edit [of "map (range_of ?h) (as @ [e, f])"]) auto
  have tot: "total_size ?rs = total_size (map (range_of ?h) ?es) + unat sz"
    using put(3) fe(1) ft by (simp add: fits_def range_of_def)
  have m: "unat (free_memory_size s + sz) = total_size ?rs" by (rule total_after_free [OF inv ft rok tot])
  have rg: "map (range_of (entries s3)) ?es' = ?rs"
  proof -
    have "map (range_of (entries s3)) ?es' = map (range_of (with_range ?h e ?st ?ef)) ?es'"
    proof (rule map_range_cong)
      fix x
      assume "x \<in> set ?es'"
      then have "x \<noteq> f" using fs by auto
      with sr have "same_range (entries s1) (with_range ?h e ?st ?ef) x" by simp
      then show "me_start (entries s3 x) = me_start (with_range ?h e ?st ?ef x)
          \<and> me_end (entries s3 x) = me_end (with_range ?h e ?st ?ef x)"
        using st3 by (simp add: s2_def same_range_def)
    qed
    also have "\<dots> = ?rs" using d by (intro map_range_with_range) auto
    finally show ?thesis .
  qed
  have "linked (entries s3) (first_entry s) ?es'"
    using lk1 st3 by (subst linked_cong [where h = "entries s1"]) (simp_all add: s2_def)
  moreover have "ranges_ok (map (range_of (entries s3)) ?es')" unfolding rg by (rule rok)
  moreover have "unat (free_memory_size s3) = total_size (map (range_of (entries s3)) ?es')"
    unfolding rg using m relistedD(2) [OF rel3] by (simp add: s2_def)
  ultimately have "pmm_inv s4 ?es' fls3 (f # ps)"
    unfolding pmm_inv_def using l3 pk relistedD(3) [OF rel3] same1(3) by (simp add: s4_def s2_def listed_def)
  moreover have "bytes ?rs = free_bytes s ?es \<union> block a sz"
    using put(2) fe(5) by (simp add: free_bytes_def range_of_def)
  then have "bytes (map (range_of (entries s3)) ?es') = free_bytes s ?es \<union> block a sz" unfolding rg .
  then have "free_bytes s4 ?es' = free_bytes s ?es \<union> block a sz" by (simp add: free_bytes_def s4_def)
  ultimately have "gives s ?es ps s4 (block a sz)"
    unfolding gives_def using relistedD(1) [OF rel3] same1
    by (intro exI [of _ ?es'] exI [of _ fls3] exI [of _ "f # ps"]) (simp add: s4_def s2_def)
  with eq show ?thesis by blast
qed

section \<open>define_free_memory\<close>

text \<open>The block lies in a gap and touches neither of the ranges around it.\<close>

definition touches_none :: "PhysicalMemoryManager \<Rightarrow> usize list \<Rightarrow> PAddress \<Rightarrow> MSize \<Rightarrow> bool" where
  "touches_none s es a sz \<longleftrightarrow>
     (\<exists>as bs. es = as @ bs \<and> span_top 0 (map (range_of (entries s)) as) \<le> unat a \<and>
        sep (unat a + unat sz + 1) (map (range_of (entries s)) bs))"

text \<open>Every position of a block that is not free is one of the six cases.\<close>

lemma define_free_memory_gives:
  assumes inv: "pmm_inv s es fls ps" and n: "length es \<le> Suc k" and ft: "fits a sz"
    and used: "block a sz \<inter> free_bytes s es = {}"
  shows "(\<exists>s'. define_free_memory (Suc k) s a sz = Ok s' \<and> gives s es ps s' (block a sz))
     \<or> define_free_memory (Suc k) s a sz = Err (EntryPoolRunOut, s) \<and> ps = [] \<and> touches_none s es a sz"
proof -
  let ?h = "entries s" and ?en = "to_end_address sz a"
  note fe = fits_end [OF ft]
  have ro: "ranges_ok (map (range_of ?h) es)" and nil: "es \<noteq> []"
    using inv by (simp_all add: pmm_inv_def linked_def)
  have le: "unat a \<le> unat ?en" and b1: "unat ?en + 1 = unat a + unat sz"
    using fe(1) ft by (auto simp: fits_def)
  have "{unat a .. unat ?en} \<inter> bytes (map (range_of ?h) es) = {}"
    using used unfolding fe(5) free_bytes_def by blast
  moreover have "sep 0 (map (range_of ?h) es)" using ro by (simp add: ranges_ok_def)
  ultimately obtain as bs where es: "es = as @ bs"
    and lo: "span_top 0 (map (range_of ?h) as) \<le> unat a + 1"
    and hi: "sep (unat a + unat sz) (map (range_of ?h) bs)"
    using split_at_gap [of 0 ?h es "unat a" "unat ?en"] le b1 by auto
  show ?thesis
  proof (cases as rule: rev_cases)
    case Nil
    then obtain e bs' where bs: "bs = e # bs'" and es': "es = e # bs'" using nil es by (cases bs) auto
    have ge: "unat a + unat sz \<le> unat (me_start (?h e))" using hi bs by simp
    show ?thesis
    proof (cases "unat a + unat sz = unat (me_start (?h e))")
      case True
      from free_touching_first [OF inv [unfolded es'] n [unfolded es'] ft True] show ?thesis by (simp add: es')
    next
      case False
      with ge have gt: "unat a + unat sz < unat (me_start (?h e))" by simp
      show ?thesis
      proof (cases ps)
        case (Cons x qs)
        from free_apart_before [OF inv [unfolded es' Cons] n [unfolded es'] ft gt]
        show ?thesis by (simp add: es' Cons)
      next
        case Nil
        have "define_free_memory (Suc k) s a sz = Err (EntryPoolRunOut, s)"
          by (rule free_apart_before_run_out [OF inv [unfolded es' Nil] ft gt])
        moreover have "touches_none s es a sz"
          unfolding touches_none_def using gt hi
          by - (rule exI [of _ "[]"], rule exI [of _ es], simp add: es' bs)
        ultimately show ?thesis using Nil by simp
      qed
    qed
  next
    case (snoc as' e)
    then have es': "es = as' @ e # bs" using es by simp
    have en: "unat (me_end (?h e)) + 1 \<le> unat a" using lo snoc by simp
    consider (left) "unat (me_end (?h e)) + 1 = unat a" and "sep (unat a + unat sz + 1) (map (range_of ?h) bs)"
      | (both) f cs where "unat (me_end (?h e)) + 1 = unat a" and "bs = f # cs"
          and "unat a + unat sz = unat (me_start (?h f))"
      | (right) f cs where "unat (me_end (?h e)) + 1 < unat a" and "bs = f # cs"
          and "unat a + unat sz = unat (me_start (?h f))"
      | (apart) "unat (me_end (?h e)) + 1 < unat a" and "sep (unat a + unat sz + 1) (map (range_of ?h) bs)"
    proof -
      have "sep (unat a + unat sz + 1) (map (range_of ?h) bs)
          \<or> (\<exists>f cs. bs = f # cs \<and> unat a + unat sz = unat (me_start (?h f)))"
        using hi by (cases bs) auto
      then show thesis using en left both right apart by (auto simp: le_less)
    qed
    then show ?thesis
    proof cases
      case left
      from free_touching_left [OF inv [unfolded es'] n [unfolded es'] ft left] show ?thesis by (simp add: es')
    next
      case both
      with free_touching_both [of s as' e f cs fls ps k a sz] inv n ft show ?thesis by (simp add: es')
    next
      case right
      with free_touching_right [of s as' e f cs fls ps k a sz] inv n ft show ?thesis by (simp add: es')
    next
      case apart
      show ?thesis
      proof (cases ps)
        case (Cons x qs)
        from free_apart_after [OF inv [unfolded es' Cons] n [unfolded es'] ft apart]
        show ?thesis by (simp add: es' Cons)
      next
        case Nil
        have "define_free_memory (Suc k) s a sz = Err (EntryPoolRunOut, s)"
          by (rule free_apart_after_run_out [OF inv [unfolded es' Nil] n [unfolded es'] ft apart])
        moreover have "touches_none s es a sz"
          unfolding touches_none_def using apart
          by - (rule exI [of _ "as' @ [e]"], rule exI [of _ bs], simp add: es')
        ultimately show ?thesis using Nil by simp
      qed
    qed
  qed
qed

section \<open>The first block\<close>

lemma fl_inv_empty: "fl_inv h (replicate NUM_OF_FREE_LIST None) (\<lambda>_. []) {}"
  by (simp add: fl_inv_def)

text \<open>A manager that has been given entries for its pool but no memory yet.\<close>

definition fresh :: "PhysicalMemoryManager \<Rightarrow> usize list \<Rightarrow> bool" where
  "fresh s ps \<longleftrightarrow>
     memory_size s = 0 \<and> free_list s = replicate NUM_OF_FREE_LIST None \<and>
     pool_ok (memory_entry_pool s) [] ps"

lemma free_first_ok:
  assumes fr: "fresh s (x # ps)" and ft: "fits a sz" and n: "0 < n"
  shows "\<exists>s' fls. free n s a sz True = Ok s' \<and> pmm_inv s' [x] fls ps
     \<and> free_bytes s' [x] = block a sz \<and> memory_size s' = sz"
proof -
  note fe = fits_end [OF ft]
  let ?en = "to_end_address sz a"
  have pk: "pool_ok (memory_entry_pool s) [] (x # ps)" and z: "memory_size s = 0"
    and fl: "free_list s = replicate NUM_OF_FREE_LIST None" using fr by (simp_all add: fresh_def)
  from create_memory_entry_ok [OF pk] obtain p where
    new: "create_memory_entry s =
       Ok (s\<lparr>memory_entry_pool := p, entries := MemoryEntry_init (set_enabled (entries s) x) x\<rparr>, x)"
    and pk': "pool_ok p [x] ps" by blast
  define h where "h = set_enabled (with_range (MemoryEntry_init (MemoryEntry_init (set_enabled (entries s) x) x) x)
                        x a ?en) x"
  define s1 where "s1 = s\<lparr>memory_entry_pool := p, entries := h\<rparr>"
  have hx: "me_start (h x) = a" "me_end (h x) = ?en" "list_prev (h x) = None" "list_next (h x) = None"
    "me_previous (h x) = None" "me_next (h x) = None" "enabled (h x)"
    by (simp_all add: h_def set_enabled_def MemoryEntry_init_def with_range_def)
  have rx: "ranged (entries s1) x" "list_prev (entries s1 x) = None" "list_next (entries s1 x) = None"
    using hx fe(2) by (simp_all add: s1_def ranged_def)
  have "fl_inv (entries s1) (free_list s1) (\<lambda>_. []) {}" using fl_inv_empty by (simp add: s1_def fl)
  from chain_new_ok [OF this, where e = x and n = n and 'e = "MemoryError \<times> PhysicalMemoryManager"] rx
  obtain s2 fls where
    ch: "(chain_entry_to_free_list n s1 x None :: (MemoryError \<times> PhysicalMemoryManager, _) outcome) = Ok s2"
    and rel: "relisted s1 s2 {x}" and inv: "fl_inv (entries s2) (free_list s2) fls {x}"
    and fd: "filed (entries s2) fls x" by auto
  note st = strip_eqD [OF relistedD(5) [OF rel]] and same = relistedD(1-4) [OF rel]
  define s3 where "s3 = s2\<lparr>first_entry := x, memory_size := sz, free_memory_size := sz\<rparr>"
  have "free n s a sz True = Ok s3"
    using new fe(2) ch by (simp add: free_def is_zero_def z free_first_def s3_def s1_def h_def)
  moreover have "linked (entries s2) x [x]" using hx st by (simp add: linked_def s1_def)
  moreover have rg: "range_of (entries s2) x = (unat a, unat ?en)"
    using hx st by (simp add: range_of_def s1_def)
  moreover have "ranges_ok [(unat a, unat ?en)]"
    using fe(1,2) ft by (auto simp: ranges_ok_def word_less_nat_alt fits_def)
  moreover have "unat sz = unat ?en + 1 - unat a" using fe(1) ft by (simp add: fits_def)
  ultimately have "free n s a sz True = Ok s3" and "pmm_inv s3 [x] fls ps"
    using inv fd pk' same by (simp_all add: pmm_inv_def s3_def s1_def)
  moreover have "free_bytes s3 [x] = block a sz" using rg fe(5) by (simp add: free_bytes_def s3_def)
  ultimately show ?thesis by (auto simp: s3_def)
qed

text \<open>A fresh manager with two entries in its pool, for the concrete instances below.\<close>

definition blank_entry :: MemoryEntry where
  "blank_entry = \<lparr>me_previous = None, me_next = None, list_prev = None, list_next = None,
                  me_start = 0, me_end = 0, enabled = False\<rparr>"

definition sample_manager :: PhysicalMemoryManager where
  "sample_manager =
     (PhysicalMemoryManager_new 56 8 (\<lambda>_. None) (\<lambda>_. blank_entry))
       \<lparr>memory_entry_pool := ((\<lambda>a. if a = 0x1000 then Some 0x1038 else None),
          (PoolAllocator_new 56 8)\<lparr>linked_count := 2, pool_head := Some 0x1000\<rparr>)\<rparr>"

lemma sample_fresh: "fresh sample_manager [0x1000, 0x1038]"
  by (simp add: fresh_def sample_manager_def PhysicalMemoryManager_new_def pool_ok_def pool_holds_def
      PoolAllocator_new_def align_of_FreeList_def)

lemma sample_ready:
  "\<exists>s fls. free 8 sample_manager 0x100000 0x10000 True = Ok s \<and> pmm_inv s [0x1000] fls [0x1038]
     \<and> free_bytes s [0x1000] = {0x100000 ..< 0x110000} \<and> memory_size s = 0x10000"
proof -
  have "fits 0x100000 0x10000" by (simp add: fits_def)
  from free_first_ok [OF sample_fresh this, of 8] show ?thesis by (simp add: block_def)
qed

lemma sample_paired: "paired {0x100000 ..< 0x110000}"
  using paired_block [of "0x100000" "0x10000"] by simp

text \<open>A page can be taken from the sample manager.\<close>

lemma sample_alloc:
  assumes inv: "pmm_inv s [0x1000] fls [0x1038]" and F: "free_bytes s [0x1000] = {0x100000 ..< 0x110000}"
  shows "\<exists>s1 a. alloc 8 s 0x1000 12 = Ok (s1, a) \<and> block a 0x1000 \<subseteq> free_bytes s [0x1000]
     \<and> takes s [0x1000] [0x1038] s1 (block a 0x1000)"
proof -
  have p: "paired (free_bytes s [0x1000])" using sample_paired by (simp add: F)
  have b: "\<forall>x \<in> free_bytes s [0x1000]. x + 2 ^ unat (12 :: usize) \<le> 2 ^ 64" by (simp add: F)
  have h: "length [0x1000 :: usize] < 8" "even (unat (0x1000 :: usize))" "unat (12 :: usize) < 64"
    "(0x1000 :: usize) \<noteq> 0" "unat (0x1000 :: usize) < card (free_bytes s [0x1000])" by (simp_all add: F)
  have d: "2 ^ unat (12 :: usize) dvd (0x100000 :: nat)" by simp
  have "{0x100000 ..< 0x100000 + unat (0x1000 :: usize)} \<subseteq> free_bytes s [0x1000]" by (auto simp: F)
  with no_room_no_block [OF inv _ h(4) d]
  have "\<not> (\<forall>e \<in> set [0x1000]. \<forall>a. \<not> room (entries s) e 0x1000 12 a)" by blast
  with alloc_cases [OF inv h(1) p h(2,3) b h(4,5)] show ?thesis by blast
qed

lemma sample_taken:
  "\<exists>s fls s1 a. free 8 sample_manager 0x100000 0x10000 True = Ok s \<and> pmm_inv s [0x1000] fls [0x1038]
     \<and> paired (free_bytes s [0x1000]) \<and> (\<forall>x \<in> free_bytes s [0x1000]. x + 2 ^ unat (12 :: usize) \<le> 2 ^ 64)
     \<and> card (free_bytes s [0x1000]) = unat (memory_size s)
     \<and> alloc 8 s 0x1000 12 = Ok (s1, a) \<and> block a 0x1000 \<subseteq> free_bytes s [0x1000]
     \<and> takes s [0x1000] [0x1038] s1 (block a 0x1000)"
proof -
  from sample_ready obtain s fls where run: "free 8 sample_manager 0x100000 0x10000 True = Ok s"
    and inv: "pmm_inv s [0x1000] fls [0x1038]" and F: "free_bytes s [0x1000] = {0x100000 ..< 0x110000}"
    and m: "memory_size s = 0x10000" by blast
  have p: "paired (free_bytes s [0x1000])" using sample_paired by (simp add: F)
  have b: "\<forall>x \<in> free_bytes s [0x1000]. x + 2 ^ unat (12 :: usize) \<le> 2 ^ 64" by (simp add: F)
  have "card (free_bytes s [0x1000]) = unat (memory_size s)" by (simp add: F m)
  with sample_alloc [OF inv F] run inv p b show ?thesis by blast
qed

section \<open>The public operation\<close>

lemma free_ok:
  assumes inv: "pmm_inv s es fls ps" and n: "length es \<le> n" and ft: "fits a sz"
    and used: "block a sz \<inter> free_bytes s es = {}"
    and mem: "card (free_bytes s es) + unat sz \<le> unat (memory_size s)"
  shows "(\<exists>s'. free n s a sz False = Ok s' \<and> gives s es ps s' (block a sz))
     \<or> free n s a sz False = Err (EntryPoolRunOut, s) \<and> ps = [] \<and> touches_none s es a sz"
proof -
  have "es \<noteq> []" using inv by (simp add: pmm_inv_def linked_def)
  then obtain k where k: "n = Suc k" using n by (cases n) auto
  have fm: "unat (free_memory_size s) = card (free_bytes s es)" by (rule pmm_free_card [OF inv])
  have sz: "0 < unat sz" using ft by (simp add: fits_def)
  have "unat (free_memory_size s) + unat sz < 18446744073709551616"
    using mem fm unat_lt_2_64 [of "memory_size s"] by linarith
  then have "unat (free_memory_size s + sz) = card (free_bytes s es) + unat sz"
    using fm by (simp add: unat_add_noovf)
  with mem sz have "\<not> memory_size s < free_memory_size s + sz" "memory_size s \<noteq> 0"
    by (auto simp: word_less_nat_alt)
  then have eq: "free n s a sz False = obind (define_free_memory n s a sz) (\<lambda>s1.
             Ok (if memory_size s1 < free_memory_size s1
                 then s1\<lparr>memory_size := free_memory_size s1\<rparr> else s1))"
    by (simp add: free_def is_zero_def)
  have same: "\<not> memory_size s' < free_memory_size s'" if g: "gives s es ps s' (block a sz)" for s'
  proof -
    obtain es' fls' ps' where i': "pmm_inv s' es' fls' ps'" and b: "free_bytes s' es' = free_bytes s es \<union> block a sz"
      and m: "memory_size s' = memory_size s" using g by (auto simp: gives_def)
    have "card (free_bytes s es \<union> block a sz) \<le> card (free_bytes s es) + unat sz"
      using card_Un_le [of "free_bytes s es" "block a sz"] by (simp add: block_def)
    then show ?thesis
      using pmm_free_card [OF i'] b m mem by (simp add: word_less_nat_alt)
  qed
  from define_free_memory_gives [OF inv n [unfolded k] ft used] show ?thesis
    using same unfolding eq [unfolded k] k by auto
qed

text \<open>
  A block that touches nothing is one more range; and a block of the free set ends below
  the last address.
\<close>

lemma touches_none_length:
  assumes inv: "pmm_inv s es fls ps" and inv': "pmm_inv s' es' fls' ps'" and ft: "fits a sz"
    and tn: "touches_none s es a sz" and un: "free_bytes s es \<union> block a sz = free_bytes s' es'"
  shows "length es' = Suc (length es)"
proof -
  obtain as bs where es: "es = as @ bs" and lo: "span_top 0 (map (range_of (entries s)) as) \<le> unat a"
    and hi: "sep (unat a + unat sz + 1) (map (range_of (entries s)) bs)"
    using tn by (auto simp: touches_none_def)
  note fe = fits_end [OF ft]
  let ?a = "map (range_of (entries s)) as" and ?b = "map (range_of (entries s)) bs"
  let ?rs = "?a @ (unat a, unat (to_end_address sz a)) # ?b"
  have sp: "sep 0 (?a @ ?b)" "sep 0 (map (range_of (entries s')) es')"
    using inv inv' by (simp_all add: pmm_inv_def ranges_ok_def es)
  have lt: "unat a < unat (to_end_address sz a)" using fe(2) by (simp add: word_less_nat_alt)
  have "unat (to_end_address sz a) + 2 = unat a + unat sz + 1" using fe(1) ft by (auto simp: fits_def)
  note put = put_new [OF sp(1) lo lt, unfolded this, OF hi]
  have "bytes ?rs = bytes (map (range_of (entries s')) es')"
    using put(2) un fe(5) by (simp add: free_bytes_def es)
  from sep_unique [OF put(1) sp(2) this] have "length ?rs = length es'" by (metis length_map)
  then show ?thesis by (simp add: es)
qed

lemma block_fits:
  assumes inv: "pmm_inv s es fls ps" and sub: "block a sz \<subseteq> free_bytes s es"
    and sz: "even (unat sz)" "sz \<noteq> 0"
  shows "fits a sz"
proof -
  have "0 < unat sz" using sz(2) by (simp add: unat_gt_0)
  moreover have "unat sz \<noteq> 1" using sz(1) by auto
  ultimately have szp: "1 < unat sz" by simp
  then have "unat a + unat sz - 1 \<in> block a sz" by (simp add: block_def)
  with sub have "unat a + unat sz - 1 \<in> bytes (map (range_of (entries s)) es)" by (auto simp: free_bytes_def)
  moreover have "sep 0 (map (range_of (entries s)) es)" "span_top 0 (map (range_of (entries s)) es) \<le> 2 ^ 64"
    using inv by (simp_all add: pmm_inv_def ranges_ok_def)
  ultimately have "unat a + unat sz - 1 + 2 \<le> 2 ^ 64" using bytes_less le_trans by blast
  with szp show ?thesis by (simp add: fits_def)
qed

section \<open>A block that is partly free\<close>

text \<open>
  With a single range, a block that starts inside it and ends behind it is not recognised
  as a duplicate: the test for that asks that the entry is not the first one.
\<close>

lemma define_free_memory_overlap:
  assumes inv: "pmm_inv s [e] fls (x # ps)" and ft: "fits a sz"
    and ov: "me_start (entries s e) < a" "a \<le> me_end (entries s e)"
      "me_end (entries s e) < to_end_address sz a"
  shows "\<exists>s'. define_free_memory (Suc k) s a sz = Ok s' \<and> first_entry s' = x
     \<and> me_next (entries s' x) = Some e \<and> me_start (entries s' x) = a
     \<and> me_start (entries s' e) = me_start (entries s e) \<and> me_end (entries s' e) = me_end (entries s e)
     \<and> free_memory_size s' = free_memory_size s + sz"
proof -
  let ?h = "entries s" and ?en = "to_end_address sz a"
  note fe = fits_end [OF ft]
  have links: "me_previous (?h e) = None" "me_next (?h e) = None" "first_entry s = e"
    and ro: "ranges_ok (map (range_of ?h) [e])" and pk: "pool_ok (memory_entry_pool s) [e] (x # ps)"
    using inv by (simp_all add: pmm_inv_def linked_def)
  have rg: "ranged ?h e" using ranges_okD(3) [OF ro, of e] by simp
  have search: "(search_entry_previous_address_mut (Suc k) ?h (first_entry s) a
      :: (MemoryError \<times> PhysicalMemoryManager, _) outcome)
      = Ok (if me_end (?h e) \<le> a then Some e else None)"
    using ov(1) links by simp
  have ne: "me_end (?h e) + 1 \<noteq> a" "me_start (?h e) \<noteq> ?en + 1" "\<not> ?en \<le> me_end (?h e)" "me_end (?h e) \<noteq> ?en"
    using ov unat_succ_end [OF ro, of e] fe(3) ft
    by (auto simp: word_unat_eq_iff word_le_nat_alt word_less_nat_alt)
  have ext: "(extend_entry ?h e a ?en :: (MemoryError \<times> PhysicalMemoryManager, _) outcome) = Ok (?h, False)"
    using ne by (simp add: extend_entry_def)
  have eq0: "define_free_memory (Suc k) s a sz = free_at_last (Suc k) s e a sz ?en (entry_size ?h e) False"
    unfolding define_free_memory.simps search
    using fe(4) ne rg links by (simp add: is_zero_def ext Let_def is_first_entry_def)
  from create_memory_entry_ok [OF pk] obtain p where
    new: "create_memory_entry s =
       Ok (s\<lparr>memory_entry_pool := p, entries := MemoryEntry_init (set_enabled ?h x) x\<rparr>, x)"
    and xe: "x \<notin> set [e]" by blast
  define h1 where "h1 = chain_after_me (with_range (MemoryEntry_init (set_enabled ?h x) x) x a ?en) x e"
  define s1 where "s1 = s\<lparr>memory_entry_pool := p, first_entry := x, entries := h1,
                         free_memory_size := free_memory_size s + sz\<rparr>"
  have h1: "me_start (h1 x) = a" "me_end (h1 x) = ?en" "me_next (h1 x) = Some e"
    "me_start (h1 e) = me_start (?h e)" "me_end (h1 e) = me_end (?h e)"
    "list_prev (h1 x) = None" "list_next (h1 x) = None"
    using xe by (auto simp: h1_def)
  have nl: "\<not> me_end (?h e) < a" using ov(2) by (simp add: not_less)
  have eq1: "free_at_last (Suc k) s e a sz ?en (entry_size ?h e) False
      = obind (chain_entry_to_free_list (Suc k) s1 e (Some (entry_size ?h e)))
          (\<lambda>s3. chain_entry_to_free_list (Suc k) s3 x None)"
    using new fe(2) nl links xe by (simp add: free_at_last_def s1_def h1_def)
  have eq2: "(chain_entry_to_free_list (Suc k) s1 e (Some (entry_size ?h e))
      :: (MemoryError \<times> PhysicalMemoryManager, _) outcome) = Ok s1"
    using rg h1 by (intro chain_same_size) (simp_all add: s1_def ranged_def entry_size_def)
  have "fl_inv h1 (free_list s) fls {e} = fl_inv ?h (free_list s) fls {e}"
    using xe by (intro fl_inv_cong) (auto simp: h1_def)
  then have fl: "fl_inv (entries s1) (free_list s1) fls {e}" using inv by (simp add: pmm_inv_def s1_def)
  have "\<forall>y \<in> {e}. ranged (entries s1) y" "ranged (entries s1) x" "list_prev (entries s1 x) = None"
    "list_next (entries s1 x) = None"
    using h1 rg less_imp_le [OF fe(2)] by (simp_all add: s1_def ranged_def)
  from chain_new_ok [OF fl _ _ this(3,4,1,2), where n = "Suc k" and 'e = "MemoryError \<times> PhysicalMemoryManager"] xe
  obtain s' where eq3: "(chain_entry_to_free_list (Suc k) s1 x None
      :: (MemoryError \<times> PhysicalMemoryManager, _) outcome) = Ok s'" and rel: "relisted s1 s' {x, e}" by auto
  have "define_free_memory (Suc k) s a sz = Ok s'" by (simp add: eq0 eq1 eq2 eq3)
  moreover have "first_entry s' = x" "free_memory_size s' = free_memory_size s + sz"
    using relistedD(2,3) [OF rel] by (simp_all add: s1_def)
  moreover have "me_next (entries s' x) = Some e" "me_start (entries s' x) = a"
    "me_start (entries s' e) = me_start (?h e)" "me_end (entries s' e) = me_end (?h e)"
    using strip_eqD [OF relistedD(5) [OF rel]] h1 by (simp_all add: s1_def)
  ultimately show ?thesis by blast
qed

section \<open>Properties\<close>

text \<open>
  Remark. Initialisation. The first block given to a manager that has entries in its
  pool becomes its free memory: the call returns, the invariant holds, and the free set is
  the block.
\<close>

theorem free_initialises:
  assumes "fresh s (x # ps)" and "fits a sz" and "0 < n"
  shows "\<exists>s' fls. free n s a sz True = Ok s' \<and> pmm_inv s' [x] fls ps
     \<and> free_bytes s' [x] = block a sz \<and> memory_size s' = sz"
  by (rule free_first_ok [OF assms])

theorem free_initialises_witness:
  "\<exists>s' fls. free 8 sample_manager 0x100000 0x10000 True = Ok s' \<and> pmm_inv s' [0x1000] fls [0x1038]
     \<and> free_bytes s' [0x1000] = block 0x100000 0x10000 \<and> memory_size s' = 0x10000"
proof (rule free_initialises [OF sample_fresh])
  show "fits 0x100000 0x10000" by (simp add: fits_def)
qed simp

text \<open>
  Property C1. \<open>alloc\<close> is correct and complete. It never panics and always ends. The block
  it returns is aligned, was free, and is the only change of the free set; the byte count,
  the address list, the free lists and the entry pool stay consistent. It fails only for an
  empty or too large request, when a split needs an entry and the pool has none, or when no
  aligned free block of the size exists. The hypotheses are the manager's invariant, a
  granularity of two bytes, and addresses far enough below the top for the alignment.
\<close>

theorem alloc_correct:
  assumes "pmm_inv s es fls ps" and "length es < n"
    and "paired (free_bytes s es)" and "even (unat sz)"
    and "unat al < 64" and "\<forall>x \<in> free_bytes s es. x + 2 ^ unat al \<le> 2 ^ 64"
  shows "case alloc n s sz al of
      Ok (s', a) \<Rightarrow> 2 ^ unat al dvd unat a \<and> block a sz \<subseteq> free_bytes s es \<and> takes s es ps s' (block a sz)
    | Err InvalidSize \<Rightarrow> sz = 0 \<or> card (free_bytes s es) \<le> unat sz
    | Err EntryPoolRunOut \<Rightarrow> ps = []
    | Err AddressNotAvailable \<Rightarrow>
        (\<forall>a. 2 ^ unat al dvd a \<longrightarrow> \<not> {a ..< a + unat sz} \<subseteq> free_bytes s es)
    | _ \<Rightarrow> False"
proof (cases "sz = 0 \<or> card (free_bytes s es) \<le> unat sz")
  case True
  then have "alloc n s sz al = Err InvalidSize"
    using pmm_free_card [OF assms(1)] by (auto simp: alloc_def is_zero_def word_le_nat_alt)
  with True show ?thesis by simp
next
  case False
  then have "sz \<noteq> 0" and "unat sz < card (free_bytes s es)" by auto
  from alloc_cases [OF assms this] no_room_no_block [OF assms(1) _ this(1)]
  show ?thesis by auto
qed

theorem alloc_correct_witness:
  "\<exists>s fls. free 8 sample_manager 0x100000 0x10000 True = Ok s \<and> pmm_inv s [0x1000] fls [0x1038]
     \<and> (case alloc 8 s 0x1000 12 of
          Ok (s', a) \<Rightarrow> 2 ^ unat (12 :: usize) dvd unat a \<and> block a 0x1000 \<subseteq> free_bytes s [0x1000]
                         \<and> takes s [0x1000] [0x1038] s' (block a 0x1000)
        | Err InvalidSize \<Rightarrow> (0x1000 :: usize) = 0 \<or> card (free_bytes s [0x1000]) \<le> unat (0x1000 :: usize)
        | Err EntryPoolRunOut \<Rightarrow> [0x1038 :: usize] = []
        | Err AddressNotAvailable \<Rightarrow>
            (\<forall>a. 2 ^ unat (12 :: usize) dvd a \<longrightarrow>
                  \<not> {a ..< a + unat (0x1000 :: usize)} \<subseteq> free_bytes s [0x1000])
        | _ \<Rightarrow> False)"
proof -
  from sample_ready obtain s fls where run: "free 8 sample_manager 0x100000 0x10000 True = Ok s"
    and inv: "pmm_inv s [0x1000] fls [0x1038]" and F: "free_bytes s [0x1000] = {0x100000 ..< 0x110000}" by blast
  have p: "paired (free_bytes s [0x1000])" using sample_paired by (simp add: F)
  have b: "\<forall>x \<in> free_bytes s [0x1000]. x + 2 ^ unat (12 :: usize) \<le> 2 ^ 64" by (simp add: F)
  have "length [0x1000 :: usize] < 8" "even (unat (0x1000 :: usize))" "unat (12 :: usize) < 64" by simp_all
  note alloc_correct [OF inv this(1) p this(2,3) b]
  with run inv show ?thesis by blast
qed

text \<open>
  Property C2. \<open>free\<close> gives back exactly the block: for every block of two bytes or more
  that is not free it returns with the block added to the free set, whatever neighbours it
  touches, and all parts of the manager consistent. It never panics and always ends. The
  only error is an empty entry pool, and then the state is unchanged.
\<close>

theorem free_correct:
  assumes "pmm_inv s es fls ps" and "length es \<le> n" and "fits a sz"
    and "block a sz \<inter> free_bytes s es = {}"
    and "card (free_bytes s es) + unat sz \<le> unat (memory_size s)"
  shows "case free n s a sz False of
      Ok s' \<Rightarrow> gives s es ps s' (block a sz)
    | Err (e, s') \<Rightarrow> e = EntryPoolRunOut \<and> ps = [] \<and> s' = s
    | _ \<Rightarrow> False"
  using free_ok [OF assms] by auto

theorem free_correct_witness:
  "\<exists>s s1 a es1 fls1 ps1. free 8 sample_manager 0x100000 0x10000 True = Ok s
     \<and> alloc 8 s 0x1000 12 = Ok (s1, a) \<and> pmm_inv s1 es1 fls1 ps1
     \<and> (case free 8 s1 a 0x1000 False of
          Ok s2 \<Rightarrow> gives s1 es1 ps1 s2 (block a 0x1000)
        | Err (e, s2) \<Rightarrow> e = EntryPoolRunOut \<and> ps1 = [] \<and> s2 = s1
        | _ \<Rightarrow> False)"
proof -
  from sample_taken obtain s fls s1 a where run: "free 8 sample_manager 0x100000 0x10000 True = Ok s"
    and inv: "pmm_inv s [0x1000] fls [0x1038]" and m: "card (free_bytes s [0x1000]) = unat (memory_size s)"
    and al: "alloc 8 s 0x1000 12 = Ok (s1, a)" and sub: "block a 0x1000 \<subseteq> free_bytes s [0x1000]"
    and t: "takes s [0x1000] [0x1038] s1 (block a 0x1000)" by blast
  from t obtain es1 fls1 ps1 where i1: "pmm_inv s1 es1 fls1 ps1"
    and b1: "free_bytes s1 es1 = free_bytes s [0x1000] - block a 0x1000"
    and m1: "memory_size s1 = memory_size s" and ms: "mset (es1 @ ps1) = mset [0x1000, 0x1038]"
    by (auto simp: takes_def)
  have "length (es1 @ ps1) = 2" using mset_eq_length [OF ms] by simp
  then have n1: "length es1 \<le> 8" by simp
  have ft: "fits a 0x1000" by (rule block_fits [OF inv sub]) simp_all
  have fin: "finite (free_bytes s [0x1000])" "finite (block a 0x1000)" by (simp_all add: free_bytes_def block_def)
  have mem: "card (free_bytes s1 es1) + unat (0x1000 :: usize) \<le> unat (memory_size s1)"
    using card_Diff_subset [OF fin(2) sub] card_mono [OF fin(1) sub] m by (simp add: b1 m1 block_def)
  have "block a 0x1000 \<inter> free_bytes s1 es1 = {}" by (auto simp: b1)
  note free_correct [OF i1 n1 ft this mem]
  with run al i1 show ?thesis by blast
qed

text \<open>
  Property C3. A block taken by \<open>alloc\<close> can be given back by \<open>free\<close>, and the free set is
  then what it was before. This always succeeds, even with an empty entry pool: the block
  either touches what is left of its range, or the range's entry has gone to the pool.
\<close>

theorem alloc_free_roundtrip:
  assumes "pmm_inv s es fls ps" and "length es + length ps < n"
    and "paired (free_bytes s es)" and "even (unat sz)"
    and "unat al < 64" and "\<forall>x \<in> free_bytes s es. x + 2 ^ unat al \<le> 2 ^ 64"
    and "card (free_bytes s es) \<le> unat (memory_size s)"
    and "alloc n s sz al = Ok (s1, a)"
  shows "\<exists>s2 es2 fls2 ps2. free n s1 a sz False = Ok s2 \<and> pmm_inv s2 es2 fls2 ps2
            \<and> free_bytes s2 es2 = free_bytes s es \<and> memory_size s2 = memory_size s"
proof -
  let ?F = "free_bytes s es"
  have n: "length es < n" using assms(2) by simp
  have ok: "sz \<noteq> 0" "unat sz < card ?F"
    using assms(8) pmm_free_card [OF assms(1)]
    by (auto simp: alloc_def is_zero_def word_le_nat_alt not_le split: if_splits)
  from alloc_cases [OF assms(1) n assms(3-6) ok] assms(8)
  have sub: "block a sz \<subseteq> ?F" and t: "takes s es ps s1 (block a sz)" by auto
  from t obtain es1 fls1 ps1 where i1: "pmm_inv s1 es1 fls1 ps1" and b1: "free_bytes s1 es1 = ?F - block a sz"
    and m1: "memory_size s1 = memory_size s" and ms: "mset (es1 @ ps1) = mset (es @ ps)"
    by (auto simp: takes_def)
  have len: "length es1 + length ps1 = length es + length ps" using mset_eq_length [OF ms] by simp
  then have n1: "length es1 \<le> n" using assms(2) by simp
  have ft: "fits a sz" by (rule block_fits [OF assms(1) sub assms(4) ok(1)])
  have fin: "finite ?F" "finite (block a sz)" by (simp_all add: free_bytes_def block_def)
  have "card (?F - block a sz) + unat sz = card ?F"
    using card_Diff_subset [OF fin(2) sub] card_mono [OF fin(1) sub] by (simp add: block_def)
  then have mem: "card (free_bytes s1 es1) + unat sz \<le> unat (memory_size s1)" using assms(7) by (simp add: b1 m1)
  have un: "free_bytes s1 es1 \<union> block a sz = ?F" using sub by (auto simp: b1)
  have "block a sz \<inter> free_bytes s1 es1 = {}" by (auto simp: b1)
  from free_ok [OF i1 n1 ft this mem] show ?thesis
  proof (elim disjE conjE)
    assume "ps1 = []" and tn: "touches_none s1 es1 a sz"
    have "length es = Suc (length es1)" by (rule touches_none_length [OF i1 assms(1) ft tn un])
    with len \<open>ps1 = []\<close> show ?thesis by simp
  qed (use m1 un in \<open>auto simp: gives_def\<close>)
qed

theorem alloc_free_roundtrip_witness:
  "\<exists>s s1 a s2 es2 fls2 ps2. free 8 sample_manager 0x100000 0x10000 True = Ok s
     \<and> alloc 8 s 0x1000 12 = Ok (s1, a) \<and> free 8 s1 a 0x1000 False = Ok s2
     \<and> pmm_inv s2 es2 fls2 ps2 \<and> free_bytes s2 es2 = free_bytes s [0x1000] \<and> memory_size s2 = memory_size s"
proof -
  from sample_taken obtain s fls s1 a where run: "free 8 sample_manager 0x100000 0x10000 True = Ok s"
    and inv: "pmm_inv s [0x1000] fls [0x1038]" and p: "paired (free_bytes s [0x1000])"
    and b: "\<forall>x \<in> free_bytes s [0x1000]. x + 2 ^ unat (12 :: usize) \<le> 2 ^ 64"
    and m: "card (free_bytes s [0x1000]) = unat (memory_size s)"
    and al: "alloc 8 s 0x1000 12 = Ok (s1, a)" by blast
  have h: "length [0x1000 :: usize] + length [0x1038 :: usize] < 8" "even (unat (0x1000 :: usize))"
    "unat (12 :: usize) < 64" "card (free_bytes s [0x1000]) \<le> unat (memory_size s)" using m by simp_all
  note alloc_free_roundtrip [OF inv h(1) p h(2,3) b h(4) al]
  with run al show ?thesis by blast
qed

text \<open>
  Remark. Freeing memory twice goes unnoticed when the first range is concerned. A
  block that starts inside the only free range and ends behind it is accepted: it is linked
  in front of that range although it starts behind it, the two entries overlap, and the
  bytes they share are counted twice.
\<close>

theorem overlapping_free_accepted:
  assumes "pmm_inv s [e] fls (x # ps)" and "fits a sz"
    and "me_start (entries s e) < a" and "a \<le> me_end (entries s e)"
    and "me_end (entries s e) < to_end_address sz a"
  shows "\<exists>s'. define_free_memory (Suc k) s a sz = Ok s' \<and> first_entry s' = x
     \<and> me_next (entries s' x) = Some e \<and> me_start (entries s' e) < me_start (entries s' x)
     \<and> me_start (entries s' x) \<le> me_end (entries s' e)
     \<and> free_memory_size s' = free_memory_size s + sz"
proof -
  from define_free_memory_overlap [OF assms, of k] obtain s' where
    "define_free_memory (Suc k) s a sz = Ok s'" "first_entry s' = x" "me_next (entries s' x) = Some e"
    "me_start (entries s' x) = a" "me_start (entries s' e) = me_start (entries s e)"
    "me_end (entries s' e) = me_end (entries s e)" "free_memory_size s' = free_memory_size s + sz" by blast
  with assms(3,4) show ?thesis by (intro exI [of _ s']) simp
qed

theorem overlapping_free_accepted_witness:
  "\<exists>s s'. free 8 sample_manager 0x100000 0x10000 True = Ok s
     \<and> define_free_memory (Suc 3) s 0x108000 0x10000 = Ok s'
     \<and> me_start (entries s' 0x1000) < me_start (entries s' 0x1038)
     \<and> me_start (entries s' 0x1038) \<le> me_end (entries s' 0x1000)
     \<and> free_memory_size s' = free_memory_size s + 0x10000"
proof -
  from sample_ready obtain s fls where run: "free 8 sample_manager 0x100000 0x10000 True = Ok s"
    and inv: "pmm_inv s [0x1000] fls [0x1038]" and F: "free_bytes s [0x1000] = {0x100000 ..< 0x110000}" by blast
  have ft: "fits 0x108000 0x10000" by (simp add: fits_def)
  have en: "to_end_address 0x10000 0x108000 = 0x117FFF" by (simp add: to_end_address_def)
  let ?r = "range_of (entries s) 0x1000"
  have sp: "sep 0 [?r]" "sep 0 [(0x100000, 0x10FFFF)]"
    using inv by (simp_all add: pmm_inv_def ranges_ok_def)
  have "{0x100000 ..< 0x110000 :: nat} = {0x100000 .. 0x10FFFF}"
    using atLeastLessThanSuc_atLeastAtMost [of "0x100000" "0x10FFFF"] by simp
  then have "bytes [?r] = bytes [(0x100000, 0x10FFFF)]" using F by (simp add: free_bytes_def)
  from sep_unique [OF sp this] have "unat (me_start (entries s 0x1000)) = 0x100000"
    "unat (me_end (entries s 0x1000)) = 0x10FFFF" by (simp_all add: range_of_def)
  then have ov: "me_start (entries s 0x1000) < 0x108000" "0x108000 \<le> me_end (entries s 0x1000)"
    "me_end (entries s 0x1000) < to_end_address 0x10000 0x108000"
    unfolding en by (simp_all add: word_less_nat_alt word_le_nat_alt)
  from overlapping_free_accepted [OF inv ft ov, of 3] run show ?thesis by blast
qed

end
