(* ===== verification/Outcome_Logic.thy ===== *)
theory Outcome_Logic
  imports Prelude
begin

text \<open>
  Postconditions of outcomes. \<open>ends E P r\<close> says that \<open>P\<close> holds of the value of \<open>r\<close> if there is one and \<open>E\<close> of the
  error if there is one. The equations push it through \<open>obind\<close> and through case distinctions on outcomes, so that
  the simplifier computes what an operation needs of its parts; \<open>ends_mono\<close> brings in what is known of a part.
\<close>

fun ends :: "('e \<Rightarrow> bool) \<Rightarrow> ('a \<Rightarrow> bool) \<Rightarrow> ('e, 'a) outcome \<Rightarrow> bool" where
  "ends E P (Ok a) \<longleftrightarrow> P a"
| "ends E P (Err e) \<longleftrightarrow> E e"
| "ends E P Panic \<longleftrightarrow> True"
| "ends E P Diverge \<longleftrightarrow> True"

lemma ends_obind [simp]: "ends E P (obind m f) \<longleftrightarrow> ends E (\<lambda>a. ends E P (f a)) m"
  by (cases m) simp_all

lemma ends_case [simp]:
  "ends E P (case m of Ok a \<Rightarrow> f a | Err e \<Rightarrow> g e | Panic \<Rightarrow> Panic | Diverge \<Rightarrow> Diverge) \<longleftrightarrow>
     ends (\<lambda>e. ends E P (g e)) (\<lambda>a. ends E P (f a)) m"
  by (cases m) simp_all

lemma ends_assert [simp]: "ends E P (assert_that b) \<longleftrightarrow> (b \<longrightarrow> P ())"
  by (simp add: assert_that_def)

lemma ends_True [simp]: "ends (\<lambda>_. True) (\<lambda>_. True) m"
  by (cases m) simp_all

lemma ends_mono:
  assumes "ends E' P' m" and "\<And>e. E' e \<Longrightarrow> E e" and "\<And>a. P' a \<Longrightarrow> P a"
  shows "ends E P m"
  using assms by (cases m) simp_all

lemma endsD:
  assumes "ends E P m"
  shows "m = Ok a \<Longrightarrow> P a" and "m = Err e \<Longrightarrow> E e"
  using assms by simp_all

lemma endsI: "(\<And>a. m = Ok a \<Longrightarrow> P a) \<Longrightarrow> (\<And>e. m = Err e \<Longrightarrow> E e) \<Longrightarrow> ends E P m"
  by (cases m) simp_all

lemma ends_conj: "ends E P m \<Longrightarrow> ends E' P' m \<Longrightarrow> ends (\<lambda>e. E e \<and> E' e) (\<lambda>a. P a \<and> P' a) m"
  by (cases m) simp_all

end
