(* ===== verification/Memory_Refill.thy ===== *)
theory Memory_Refill
  imports Memory_Free Outcome_Logic
begin

text \<open>
  What the refill of the entry pool needs of the physical memory manager: taking memory away keeps the shape of
  the pool (the size of an object and the place of the link inside it), a page taken without alignment is the
  front of a free range, and a page added to the pool keeps the invariant of the manager and leaves entries in
  the pool.
\<close>

section \<open>The shape of the entry pool\<close>

definition pool_shape :: "PhysicalMemoryManager \<Rightarrow> usize \<times> usize" where
  "pool_shape s = (object_size (snd (memory_entry_pool s)), pool_offset (snd (memory_entry_pool s)))"

lemma pool_shape_simps [simp]:
  "pool_shape (s\<lparr>entries := h\<rparr>) = pool_shape s"
  "pool_shape (s\<lparr>free_list := fl\<rparr>) = pool_shape s"
  "pool_shape (s\<lparr>first_entry := e\<rparr>) = pool_shape s"
  "pool_shape (s\<lparr>memory_size := m\<rparr>) = pool_shape s"
  "pool_shape (s\<lparr>free_memory_size := m\<rparr>) = pool_shape s"
  by (simp_all add: pool_shape_def)

abbreviation keeps_shape ::
  "PhysicalMemoryManager \<Rightarrow> ('e, PhysicalMemoryManager) outcome \<Rightarrow> bool" where
  "keeps_shape s \<equiv> ends (\<lambda>_. True) (\<lambda>s'. pool_shape s' = pool_shape s)"

lemma ends_any: "(\<And>a. P a) \<Longrightarrow> ends (\<lambda>_. True) P m"
  by (cases m) simp_all

lemmas get_size_ends = ends_any [where m = "get_size h e" for h e]

lemma create_memory_entry_shape:
  "ends (\<lambda>_. True) (\<lambda>(s', e). pool_shape s' = pool_shape s) (create_memory_entry s)"
  by (auto simp: create_memory_entry_def alloc_ptr_def pool_shape_def split: prod.splits option.splits)

lemma pool_free_shape: "pool_shape s = sh \<Longrightarrow> ends (\<lambda>_. True) (\<lambda>s'. pool_shape s' = sh) (pool_free s e)"
  by (auto simp: pool_free_def free_ptr_def pool_shape_def Let_def split: prod.splits)

lemma free_list_insert_shape: "keeps_shape s (free_list_insert n s e i)"
  by (auto simp: free_list_insert_def Let_def intro!: ends_any split: option.splits)

lemma chain_entry_to_free_list_shape:
  assumes "pool_shape s = sh"
  shows "ends (\<lambda>_. True) (\<lambda>s'. pool_shape s' = sh) (chain_entry_to_free_list n s e old)"
proof -
  have "ends (\<lambda>_. True) (\<lambda>s'. pool_shape s' = sh) (free_list_insert n s1 e i)"
    if "pool_shape s1 = sh" for s1 i
    using free_list_insert_shape [of s1 n e i] that by simp
  then show ?thesis using assms
    by (auto simp: chain_entry_to_free_list_def Let_def intro!: get_size_ends split: option.splits)
qed

lemma used_whole_entry_shape: "keeps_shape s (used_whole_entry s e)"
  by (auto simp: used_whole_entry_def unchain_entry_from_free_list_def Let_def
      intro!: get_size_ends pool_free_shape split: option.splits)

lemma resize_entry_shape: "keeps_shape s (resize_entry n s e a b)"
  by (auto simp: resize_entry_def set_range_def intro!: get_size_ends chain_entry_to_free_list_shape)

lemma used_last_byte_shape: "keeps_shape s (used_last_byte n s e a sz)"
  by (auto simp: used_last_byte_def set_range_def intro!: get_size_ends chain_entry_to_free_list_shape)

lemma chain_twice_shape:
  assumes "pool_shape s1 = sh"
  shows "ends (\<lambda>_. True) (\<lambda>s2. ends (\<lambda>_. True) (\<lambda>s'. pool_shape s' = sh)
      (chain_entry_to_free_list n s2 x None)) (chain_entry_to_free_list n s1 e old)"
  by (rule ends_mono [OF chain_entry_to_free_list_shape [OF assms]])
    (simp_all add: chain_entry_to_free_list_shape)

lemma split_entry_shape: "keeps_shape s (split_entry n s e a sz)"
  unfolding split_entry_def ends_obind
  by (rule ends_mono [OF create_memory_entry_shape])
    (auto simp: Let_def set_range_def intro!: get_size_ends chain_twice_shape split: prod.splits)

lemma define_used_memory0_shape: "keeps_shape s (define_used_memory0 n s a sz t)"
proof -
  have "ends (\<lambda>_. True) (\<lambda>e. keeps_shape s
      (let st = me_start (entries s e); en = me_end (entries s e);
           done = (if st = a then if en = to_end_address sz a then used_whole_entry s e
                                  else resize_entry n s e (a + sz) en
                   else if en = a then used_last_byte n s e a sz
                   else if en = to_end_address sz a then resize_entry n s e st (a - 1)
                   else split_entry n s e a sz)
       in obind done (\<lambda>s1. Ok (s1\<lparr>free_memory_size := free_memory_size s1 - sz\<rparr>)))) (used_target n s a sz t)"
    by (rule ends_any) (simp add: Let_def used_whole_entry_shape resize_entry_shape used_last_byte_shape
        split_entry_shape)
  then show ?thesis by (simp add: define_used_memory0_def)
qed

text \<open>A block taken by \<open>alloc\<close> leaves the shape of the pool.\<close>

lemma define_used_memory_shape: "keeps_shape s (define_used_memory n s a sz al t)"
  by (simp add: define_used_memory_def Let_def define_used_memory0_shape)

lemma free_shape:
  assumes "free n s a sz True = Ok s'" and "memory_size s = 0"
  shows "pool_shape s' = pool_shape s"
proof -
  have "ends (\<lambda>_. True) (\<lambda>s'. pool_shape s' = pool_shape s) (free_first n s a sz)"
    unfolding free_first_def ends_obind
  proof (rule ends_mono)
    show "ends (\<lambda>_. True) (\<lambda>(s', e). pool_shape s' = pool_shape s) (err_state s (create_memory_entry s))"
      using create_memory_entry_shape [of s] by (cases "create_memory_entry s") auto
  qed (auto simp: set_range_def intro!: chain_entry_to_free_list_shape split: prod.splits)
  then show ?thesis using assms by (auto simp: free_def is_zero_def dest: endsD(1))
qed

section \<open>A page for the pool\<close>

text \<open>Without alignment the block is the front of a free range.\<close>

lemma alloc_front:
  assumes inv: "pmm_inv s es fls ps" and n: "length es < n" and pair: "paired (free_bytes s es)"
    and sz: "even (unat sz)" "sz \<noteq> 0" "unat sz < card (free_bytes s es)"
  shows "alloc n s sz 0 = Err AddressNotAvailable \<and> (\<forall>a. \<not> {a ..< a + unat sz} \<subseteq> free_bytes s es)
     \<or> (\<exists>s' a. alloc n s sz 0 = Ok (s', a) \<and> even (unat a) \<and> (\<exists>e \<in> set es. a = me_start (entries s e))
          \<and> block a sz \<subseteq> free_bytes s es \<and> takes s es ps s' (block a sz) \<and> pool_shape s' = pool_shape s)"
proof -
  have top: "\<forall>x \<in> free_bytes s es. x + 2 ^ unat (0 :: usize) \<le> 2 ^ 64"
  proof
    fix x
    assume "x \<in> free_bytes s es"
    then have "x + 2 \<le> span_top 0 (map (range_of (entries s)) es)"
      using inv by (intro bytes_less) (simp_all add: free_bytes_def pmm_inv_def ranges_ok_def)
    moreover have "span_top 0 (map (range_of (entries s)) es) \<le> 2 ^ 64"
      using inv by (simp add: pmm_inv_def ranges_ok_def)
    ultimately show "x + 2 ^ unat (0 :: usize) \<le> 2 ^ 64" by simp
  qed
  have "unat (0 :: usize) < 64" by simp
  from alloc_search [OF inv n this top sz(2,3)] show ?thesis
  proof (elim disjE bexE exE conjE)
    assume "alloc n s sz 0 = Err AddressNotAvailable" and "\<forall>e \<in> set es. \<forall>a. \<not> room (entries s) e sz 0 a"
    with no_room_no_block [OF inv _ sz(2), of 0] show ?thesis by simp
  next
    fix e a
    assume e: "e \<in> set es" and sv: "served (entries s) e sz 0 a"
      and eq: "alloc n s sz 0 = obind (define_used_memory n s a sz 0 (Some e)) (\<lambda>s'. Ok (s', a))"
    have cut: "cuts (entries s) e a sz" by (rule served_cuts [OF inv e sv pair sz(1,2)])
    have a: "a = me_start (entries s e)" using sv by (simp add: served_def)
    have "range_of (entries s) e \<in> set (map (range_of (entries s)) es)" using e by simp
    from paired_ranges [OF _ _ this, of 0] inv pair have ev: "even (unat a)"
      by (simp add: a pmm_inv_def ranges_ok_def free_bytes_def)
    from take_from_entry [OF inv _ e cut sz(3), of n "Some e"] n a obtain s' where
      s': "define_used_memory n s a sz 0 (Some e) = Ok s'" "takes s es ps s' (block a sz)" by auto
    have "pool_shape s' = pool_shape s" using define_used_memory_shape [of s n a sz 0 "Some e"] s'(1) by simp
    with s' a e eq ev cuts_block [OF cut e] show ?thesis by auto
  qed
qed

definition outside :: "usize list \<Rightarrow> usize \<Rightarrow> bool" where
  "outside xs base \<longleftrightarrow> (\<forall>x \<in> set xs. \<not> (unat base \<le> unat x \<and> unat x < unat base + 4096))"

definition page_usable :: "usize \<Rightarrow> usize \<Rightarrow> bool" where
  "page_usable align_T base \<longleftrightarrow> base AND (align_T - 1) = 0 \<and> base \<noteq> 0 \<and> unat base + 4096 \<le> 2 ^ 64"

definition shape_ok :: "usize \<times> usize \<Rightarrow> bool" where
  "shape_ok sh \<longleftrightarrow> unat (snd sh) + 8 \<le> unat (fst sh) \<and> unat (fst sh) \<le> 4096"

lemma refill_adds:
  assumes inv: "pmm_inv s es fls ps" and sh: "shape_ok (pool_shape s)"
    and base: "page_usable align_T base" and out: "outside (es @ ps) base"
  shows "\<exists>s' ps'. (add_memory_entry_pool align_T s base PAGE_SIZE :: ('e, _) outcome) = Ok s'
     \<and> pmm_inv s' es fls ps' \<and> ps' \<noteq> [] \<and> free_bytes s' es = free_bytes s es"
proof -
  let ?p = "memory_entry_pool s"
  define k where "k = unat (PAGE_SIZE div object_size (snd ?p))"
  define objs where "objs = pool_objects base (object_size (snd ?p)) k"
  have pk: "pool_holds ?p ps" "set ps \<inter> set es = {}" "\<forall>a \<in> set ps \<union> set es. a + pool_offset (snd ?p) \<noteq> 0"
    using inv by (simp_all add: pmm_inv_def pool_ok_def)
  have sz: "unat PAGE_SIZE = 4096" by (simp add: PAGE_SIZE_def)
  have fits: "unat (pool_offset (snd ?p)) + 8 \<le> unat (object_size (snd ?p))"
    and small: "unat (object_size (snd ?p)) \<le> 4096" using sh by (simp_all add: shape_ok_def pool_shape_def)
  have "k = 4096 div unat (object_size (snd ?p))" by (simp add: k_def unat_div sz)
  with fits small have k: "0 < k" by (simp add: div_greater_zero_iff)
  have out': "\<forall>x \<in> set ps. \<not> (unat base \<le> unat x \<and> unat x < unat base + unat PAGE_SIZE)"
    using out by (simp add: outside_def sz)
  from add_pool_adds [OF pk(1) fits, of base align_T PAGE_SIZE, where 'e = 'e] base out' pk(3)
  obtain p where p: "(add_pool align_T ?p base PAGE_SIZE :: ('e, _) outcome) = Ok p"
      "pool_offset (snd p) = pool_offset (snd ?p)" "pool_holds p (rev objs @ ps)"
    and room: "unat base + k * unat (object_size (snd ?p)) \<le> unat base + unat PAGE_SIZE"
    and nn: "\<forall>x \<in> set objs. x + pool_offset (snd ?p) \<noteq> 0"
    by (auto simp: page_usable_def sz objs_def k_def)
  have "unat base + k * unat (object_size (snd ?p)) \<le> 2 ^ 64" using room base sz by (simp add: page_usable_def)
  from pool_objects_inside [OF this] fits
  have "x \<notin> set es" if "x \<in> set objs" for x
    using that room out by (fastforce simp: outside_def objs_def sz)
  then have "pool_ok p es (rev objs @ ps)" using p pk nn by (auto simp: pool_ok_def)
  then have "pmm_inv (s\<lparr>memory_entry_pool := p\<rparr>) es fls (rev objs @ ps)" using inv by (simp add: pmm_inv_def)
  moreover have "rev objs @ ps \<noteq> []" using k by (simp add: objs_def pool_objects_def)
  ultimately show ?thesis
    using p(1) by - (rule exI [of _ "s\<lparr>memory_entry_pool := p\<rparr>"], rule exI [of _ "rev objs @ ps"],
      simp add: add_memory_entry_pool_def free_bytes_def)
qed

end
