(* ===== verification/Memory_Manager.thy ===== *)
theory Memory_Manager
  imports Memory_Refill
begin

text \<open>
  The users of the physical memory manager in \<open>memory_manager.rs\<close>: the allocation that
  refills the entry pool when it has run out, with the proof that one refill is enough. The manager is used through an interface,
  a set of free bytes with an allocation that takes a block out and a release that puts it
  back; that blocks are never handed out twice follows from the interface alone.
\<close>

section \<open>Refilling the entry pool\<close>

text \<open>
  \<open>direct_map\<close> stands for \<open>physical_address_to_direct_map\<close> of the architecture. The
  \<open>expect\<close> on the page is a panic.
\<close>

definition add_physical_memory_manager_pool ::
  "(PAddress \<Rightarrow> VAddress) \<Rightarrow> usize \<Rightarrow> nat \<Rightarrow> PhysicalMemoryManager
     \<Rightarrow> (MemoryError, PhysicalMemoryManager) outcome" where
  "add_physical_memory_manager_pool direct_map align_T n s =
     (case alloc n s PAGE_SIZE 0 of
        Ok (s1, address) \<Rightarrow> add_memory_entry_pool align_T s1 (direct_map address) PAGE_SIZE
      | Err _ \<Rightarrow> Panic
      | Panic \<Rightarrow> Panic
      | Diverge \<Rightarrow> Diverge)"

primrec allocate_physical_memory ::
  "nat \<Rightarrow> (PAddress \<Rightarrow> VAddress) \<Rightarrow> usize \<Rightarrow> nat \<Rightarrow> MSize \<Rightarrow> MOrder \<Rightarrow> PhysicalMemoryManager
     \<Rightarrow> (MemoryError, PhysicalMemoryManager \<times> PAddress) outcome" where
  "allocate_physical_memory 0 direct_map align_T n sz align_order s = Diverge"
| "allocate_physical_memory (Suc k) direct_map align_T n sz align_order s =
     (case alloc n s sz align_order of
        Err EntryPoolRunOut \<Rightarrow>
          obind (add_physical_memory_manager_pool direct_map align_T n s) (\<lambda>s1.
            allocate_physical_memory k direct_map align_T n sz align_order s1)
      | result \<Rightarrow> result)"

section \<open>The interface of the physical memory manager\<close>

primrec alloc_blocks ::
  "('s \<Rightarrow> MSize \<Rightarrow> ('e, 's \<times> PAddress) outcome) \<Rightarrow> 's \<Rightarrow> MSize list \<Rightarrow> ('e, 's \<times> nat set list) outcome"
where
  "alloc_blocks al s [] = Ok (s, [])"
| "alloc_blocks al s (sz # szs) =
     obind (al s sz) (\<lambda>(s1, a). obind (alloc_blocks al s1 szs) (\<lambda>(s2, bs). Ok (s2, block a sz # bs)))"

locale frame_allocator =
  fixes ok :: "'s \<Rightarrow> bool" and free_set :: "'s \<Rightarrow> nat set" and good :: "MSize \<Rightarrow> bool"
    and al :: "'s \<Rightarrow> MSize \<Rightarrow> ('e, 's \<times> PAddress) outcome"
  assumes al_ok: "ok s \<Longrightarrow> good sz \<Longrightarrow> al s sz = Ok (s', a) \<Longrightarrow>
      ok s' \<and> block a sz \<subseteq> free_set s \<and> free_set s' = free_set s - block a sz"
    and al_ends: "ok s \<Longrightarrow> good sz \<Longrightarrow> al s sz \<noteq> Panic \<and> al s sz \<noteq> Diverge"
begin

lemma alloc_blocks_disjoint:
  "ok s \<Longrightarrow> (\<forall>sz \<in> set szs. good sz) \<Longrightarrow> alloc_blocks al s szs = Ok (s', bs) \<Longrightarrow>
     ok s' \<and> (\<forall>b \<in> set bs. b \<subseteq> free_set s \<and> b \<inter> free_set s' = {})
     \<and> free_set s' \<subseteq> free_set s \<and> (\<forall>i < length bs. \<forall>j < length bs. i \<noteq> j \<longrightarrow> bs ! i \<inter> bs ! j = {})"
proof (induction szs arbitrary: s bs)
  case Nil
  then show ?case by simp
next
  case (Cons sz szs)
  from Cons.prems(3) obtain s1 a bs' where a: "al s sz = Ok (s1, a)"
    and rest: "alloc_blocks al s1 szs = Ok (s', bs')" and bs: "bs = block a sz # bs'"
    by (auto simp: obind_eq_Ok_iff)
  from al_ok [OF Cons.prems(1) _ a] Cons.prems(2)
  have o: "ok s1" "block a sz \<subseteq> free_set s" "free_set s1 = free_set s - block a sz" by auto
  from Cons.IH [OF o(1) _ rest] Cons.prems(2) have
    r: "ok s'" "\<forall>b \<in> set bs'. b \<subseteq> free_set s1 \<and> b \<inter> free_set s' = {}" "free_set s' \<subseteq> free_set s1"
      "\<forall>i < length bs'. \<forall>j < length bs'. i \<noteq> j \<longrightarrow> bs' ! i \<inter> bs' ! j = {}" by auto
  have hd: "block a sz \<inter> bs' ! j = {}" if "j < length bs'" for j
    using r(2) o(3) nth_mem [OF that] by blast
  have "bs ! i \<inter> bs ! j = {}" if "i < length bs" "j < length bs" "i \<noteq> j" for i j
    using that hd r(4) by (cases i; cases j) (auto simp: bs)
  with r o show ?case by (auto simp: bs)
qed

lemma alloc_blocks_ends:
  "ok s \<Longrightarrow> (\<forall>sz \<in> set szs. good sz) \<Longrightarrow> alloc_blocks al s szs \<noteq> Panic \<and> alloc_blocks al s szs \<noteq> Diverge"
proof (induction szs arbitrary: s)
  case Nil
  then show ?case by simp
next
  case (Cons sz szs)
  then have e: "al s sz \<noteq> Panic \<and> al s sz \<noteq> Diverge" by (simp add: al_ends)
  show ?case
  proof (cases "al s sz")
    case (Ok r)
    then obtain s1 a where a: "al s sz = Ok (s1, a)" by (cases r) auto
    then have "ok s1" using al_ok [OF Cons.prems(1) _ a] Cons.prems(2) by simp
    with Cons.IH [of s1] Cons.prems(2) a show ?thesis
      by (auto simp: obind_eq_Panic_iff obind_eq_Diverge_iff)
  qed (use e in auto)
qed

end

text \<open>The entries of the manager, read off the address list, and the bytes they cover.\<close>

definition free_entries :: "nat \<Rightarrow> PhysicalMemoryManager \<Rightarrow> usize list" where
  "free_entries n s = walk n (me_next \<circ> entries s) (Some (first_entry s))"

definition pmm_free_set :: "nat \<Rightarrow> PhysicalMemoryManager \<Rightarrow> nat set" where
  "pmm_free_set n s = free_bytes s (free_entries n s)"

definition pmm_ok :: "nat \<Rightarrow> PhysicalMemoryManager \<Rightarrow> bool" where
  "pmm_ok n s \<longleftrightarrow>
     (\<exists>es fls ps. pmm_inv s es fls ps \<and> length es + length ps < n \<and>
        paired (free_bytes s es) \<and> (\<forall>x \<in> free_bytes s es. x + 2 ^ 12 \<le> 2 ^ 64))"

lemma free_entries_inv:
  assumes "pmm_inv s es fls ps" and "length es \<le> n"
  shows "free_entries n s = es"
proof -
  have "chain (me_previous \<circ> entries s) (me_next \<circ> entries s) None es None"
    and "Some (first_entry s) = hd_or None es"
    using assms(1) by (cases es; simp add: pmm_inv_def linked_def)+
  then show ?thesis using walk_chain assms(2) by (metis free_entries_def)
qed

definition page_size_ok :: "MSize \<Rightarrow> bool" where
  "page_size_ok sz \<longleftrightarrow> even (unat sz)"

lemma pmm_alloc_step:
  assumes ok: "pmm_ok n s" and sz: "page_size_ok sz"
  shows "alloc n s sz 12 = Ok (s', a) \<Longrightarrow>
      pmm_ok n s' \<and> block a sz \<subseteq> pmm_free_set n s \<and> pmm_free_set n s' = pmm_free_set n s - block a sz"
    and "alloc n s sz 12 \<noteq> Panic \<and> alloc n s sz 12 \<noteq> Diverge"
proof -
  from ok obtain es fls ps where inv: "pmm_inv s es fls ps" and n: "length es + length ps < n"
    and p: "paired (free_bytes s es)" and b: "\<forall>x \<in> free_bytes s es. x + 2 ^ 12 \<le> 2 ^ 64"
    by (auto simp: pmm_ok_def)
  have F: "pmm_free_set n s = free_bytes s es"
    using free_entries_inv [OF inv, of n] n by (simp add: pmm_free_set_def)
  have n': "length es < n" and ev: "even (unat sz)" and al: "unat (12 :: usize) < 64"
    using n sz by (simp_all add: page_size_ok_def)
  have b': "\<forall>x \<in> free_bytes s es. x + 2 ^ unat (12 :: usize) \<le> 2 ^ 64" using b by simp
  have cases: "sz = 0 \<or> card (free_bytes s es) \<le> unat sz \<Longrightarrow> alloc n s sz 12 = Err InvalidSize"
    using pmm_free_card [OF inv] by (auto simp: alloc_def is_zero_def word_le_nat_alt)
  show "alloc n s sz 12 \<noteq> Panic \<and> alloc n s sz 12 \<noteq> Diverge"
    using cases alloc_cases [OF inv n' p ev al b'] by (cases "sz = 0 \<or> card (free_bytes s es) \<le> unat sz") auto
  assume r: "alloc n s sz 12 = Ok (s', a)"
  then have pos: "sz \<noteq> 0" "unat sz < card (free_bytes s es)" using cases by force+
  from alloc_cases [OF inv n' p ev al b' pos] r have
    d: "2 ^ unat (12 :: usize) dvd unat a" and sub: "block a sz \<subseteq> free_bytes s es"
    and t: "takes s es ps s' (block a sz)" by auto
  from t obtain es' fls' ps' where inv': "pmm_inv s' es' fls' ps'"
    and F': "free_bytes s' es' = free_bytes s es - block a sz" and ms: "mset (es' @ ps') = mset (es @ ps)"
    by (auto simp: takes_def)
  have "length es' + length ps' = length es + length ps" using mset_eq_length [OF ms] by simp
  then have n2: "length es' + length ps' < n" using n by simp
  have "2 dvd unat a" using d by (rule dvd_trans [rotated]) simp
  then have "paired (block a sz)" unfolding block_def using ev by (intro paired_block)
  with p have "paired (free_bytes s' es')" unfolding F' by (rule paired_diff)
  with inv' n2 b F' have "pmm_ok n s'" unfolding pmm_ok_def by blast
  moreover have "pmm_free_set n s' = free_bytes s' es'"
    using free_entries_inv [OF inv', of n] n2 by (simp add: pmm_free_set_def)
  ultimately show "pmm_ok n s' \<and> block a sz \<subseteq> pmm_free_set n s \<and> pmm_free_set n s' = pmm_free_set n s - block a sz"
    using sub F' by (simp add: F)
qed

interpretation pmm: frame_allocator "pmm_ok n" "pmm_free_set n" page_size_ok "\<lambda>s sz. alloc n s sz 12" for n
  by unfold_locales (rule pmm_alloc_step; assumption)+

section \<open>Allocation with a refill\<close>

text \<open>
  The answers of an allocation from the free bytes \<open>F\<close>: a block of \<open>F\<close> at an aligned address, the rest of
  \<open>F\<close> staying free, or a refusal with its reason. An empty entry pool is not a reason.
\<close>

definition answers ::
  "nat set \<Rightarrow> MSize \<Rightarrow> MOrder \<Rightarrow> (MemoryError, PhysicalMemoryManager \<times> PAddress) outcome \<Rightarrow> bool" where
  "answers F sz al r \<longleftrightarrow>
     (case r of
        Ok (s', a) \<Rightarrow> 2 ^ unat al dvd unat a \<and> block a sz \<subseteq> F
          \<and> (\<exists>es fls ps. pmm_inv s' es fls ps \<and> free_bytes s' es = F - block a sz)
      | Err e \<Rightarrow> e = InvalidSize \<and> (sz = 0 \<or> card F \<le> unat sz)
          \<or> e = AddressNotAvailable \<and> (\<forall>b. 2 ^ unat al dvd b \<longrightarrow> \<not> {b ..< b + unat sz} \<subseteq> F)
      | _ \<Rightarrow> False)"

text \<open>The bytes a refill takes: none, or a free page when the pool was empty.\<close>

definition refill_page :: "PhysicalMemoryManager \<Rightarrow> usize list \<Rightarrow> usize list \<Rightarrow> nat set \<Rightarrow> bool" where
  "refill_page s es ps A \<longleftrightarrow> A = {} \<or> ps = [] \<and> A \<subseteq> free_bytes s es \<and> (\<exists>p. A = block p PAGE_SIZE)"

text \<open>
  What the refill relies on: an entry fits a page and holds its link, and the direct map of the front of a free
  range is an aligned, non-null page of the address space that holds none of the entries in use.
\<close>

definition refill_ready ::
  "(PAddress \<Rightarrow> VAddress) \<Rightarrow> usize \<Rightarrow> PhysicalMemoryManager \<Rightarrow> usize list \<Rightarrow> bool" where
  "refill_ready direct_map align_T s es \<longleftrightarrow>
     shape_ok (pool_shape s) \<and>
     (\<forall>e \<in> set es. page_usable align_T (direct_map (me_start (entries s e)))
        \<and> outside es (direct_map (me_start (entries s e))))"

lemma alloc_answers:
  assumes inv: "pmm_inv s es fls ps" and n: "length es < n" and pair: "paired (free_bytes s es)"
    and sz: "even (unat sz)" and al: "unat al < 64" "\<forall>x \<in> free_bytes s es. x + 2 ^ unat al \<le> 2 ^ 64"
  shows "alloc n s sz al = Err EntryPoolRunOut \<and> ps = [] \<or> answers (free_bytes s es) sz al (alloc n s sz al)"
proof (cases "sz = 0 \<or> card (free_bytes s es) \<le> unat sz")
  case True
  then have "alloc n s sz al = Err InvalidSize"
    using pmm_free_card [OF inv] by (auto simp: alloc_def is_zero_def word_le_nat_alt)
  with True show ?thesis by (simp add: answers_def)
next
  case False
  then have "sz \<noteq> 0" "unat sz < card (free_bytes s es)" by simp_all
  from alloc_cases [OF inv n pair sz al this] no_room_no_block [OF inv _ this(1)] show ?thesis
    by (fastforce simp: answers_def takes_def)
qed

text \<open>The refill leaves a consistent manager with entries in its pool, or there is no free page.\<close>

lemma add_physical_memory_manager_pool_ok:
  assumes inv: "pmm_inv s es fls []" and n: "length es < n" and pair: "paired (free_bytes s es)"
    and ready: "refill_ready direct_map align_T s es"
  shows "add_physical_memory_manager_pool direct_map align_T n s = Panic
       \<and> (card (free_bytes s es) \<le> 4096 \<or> (\<forall>a. \<not> {a ..< a + 4096} \<subseteq> free_bytes s es))
     \<or> (\<exists>s' es' fls' ps' p. add_physical_memory_manager_pool direct_map align_T n s = Ok s'
          \<and> pmm_inv s' es' fls' ps' \<and> ps' \<noteq> [] \<and> length es' < n \<and> even (unat p)
          \<and> block p PAGE_SIZE \<subseteq> free_bytes s es \<and> free_bytes s' es' = free_bytes s es - block p PAGE_SIZE)"
proof (cases "card (free_bytes s es) \<le> 4096")
  case True
  have "unat PAGE_SIZE = 4096" by (simp add: PAGE_SIZE_def)
  with True have "alloc n s PAGE_SIZE 0 = Err InvalidSize"
    using pmm_free_card [OF inv] by (simp add: alloc_def is_zero_def word_le_nat_alt)
  with True show ?thesis by (simp add: add_physical_memory_manager_pool_def)
next
  case False
  have P: "unat PAGE_SIZE = 4096" by (simp add: PAGE_SIZE_def)
  have "even (unat PAGE_SIZE)" "PAGE_SIZE \<noteq> 0" "unat PAGE_SIZE < card (free_bytes s es)"
    using False by (simp_all add: P) (simp add: PAGE_SIZE_def)
  from alloc_front [OF inv n pair this] show ?thesis
  proof (elim disjE exE bexE conjE)
    assume "alloc n s PAGE_SIZE 0 = Err AddressNotAvailable" "\<forall>a. \<not> {a ..< a + unat PAGE_SIZE} \<subseteq> free_bytes s es"
    then show ?thesis by (simp add: add_physical_memory_manager_pool_def P)
  next
    fix s1 a e
    assume a: "alloc n s PAGE_SIZE 0 = Ok (s1, a)" "even (unat a)" "block a PAGE_SIZE \<subseteq> free_bytes s es"
      and t: "takes s es [] s1 (block a PAGE_SIZE)" and sh: "pool_shape s1 = pool_shape s"
      and e: "e \<in> set es" "a = me_start (entries s e)"
    from t obtain es1 fls1 ps1 where i1: "pmm_inv s1 es1 fls1 ps1" and m: "mset (es1 @ ps1) = mset es"
      and F: "free_bytes s1 es1 = free_bytes s es - block a PAGE_SIZE" by (auto simp: takes_def)
    have st: "set (es1 @ ps1) = set es" using m by (rule mset_eq_setD)
    have len: "length es1 < n" using mset_eq_length [OF m] n by simp
    have "shape_ok (pool_shape s1)" "page_usable align_T (direct_map a)" "outside (es1 @ ps1) (direct_map a)"
      using ready e by (simp_all add: refill_ready_def sh) (use st in \<open>auto simp: outside_def\<close>)
    from refill_adds [OF i1 this, where 'e = MemoryError] obtain s2 ps2 where
      "(add_memory_entry_pool align_T s1 (direct_map a) PAGE_SIZE :: (MemoryError, _) outcome) = Ok s2"
      "pmm_inv s2 es1 fls1 ps2" "ps2 \<noteq> []" "free_bytes s2 es1 = free_bytes s1 es1" by blast
    with a len F show ?thesis by (auto simp: add_physical_memory_manager_pool_def)
  qed
qed

section \<open>Properties\<close>

text \<open>
  Property C4. Physical memory is never handed out twice. A sequence of page-aligned
  allocations of any sizes ends without a panic, and the blocks of a successful one are
  pairwise disjoint, were free at the start and are not free at the end.
\<close>

theorem blocks_never_shared:
  assumes "pmm_ok n s" and "\<forall>sz \<in> set szs. page_size_ok sz"
  shows "case alloc_blocks (\<lambda>s sz. alloc n s sz 12) s szs of
      Ok (s', bs) \<Rightarrow> pmm_ok n s'
        \<and> (\<forall>b \<in> set bs. b \<subseteq> pmm_free_set n s \<and> b \<inter> pmm_free_set n s' = {})
        \<and> (\<forall>i < length bs. \<forall>j < length bs. i \<noteq> j \<longrightarrow> bs ! i \<inter> bs ! j = {})
    | Err _ \<Rightarrow> True
    | _ \<Rightarrow> False"
proof (cases "alloc_blocks (\<lambda>s sz. alloc n s sz 12) s szs")
  case (Ok r)
  then show ?thesis using pmm.alloc_blocks_disjoint [OF assms] by (cases r) auto
qed (use pmm.alloc_blocks_ends [OF assms] in auto)

lemma sample_pmm_ok:
  "\<exists>s. free 8 sample_manager 0x100000 0x10000 True = Ok s \<and> pmm_ok 8 s"
proof -
  from sample_ready obtain s fls where run: "free 8 sample_manager 0x100000 0x10000 True = Ok s"
    and inv: "pmm_inv s [0x1000] fls [0x1038]" and F: "free_bytes s [0x1000] = {0x100000 ..< 0x110000}" by blast
  have "paired (free_bytes s [0x1000])" "\<forall>x \<in> free_bytes s [0x1000]. x + 2 ^ 12 \<le> 2 ^ 64"
    using sample_paired by (simp_all add: F)
  moreover have "length [0x1000 :: usize] + length [0x1038 :: usize] < 8" by simp
  ultimately show ?thesis using run inv unfolding pmm_ok_def by blast
qed

theorem blocks_never_shared_witness:
  "\<exists>s. free 8 sample_manager 0x100000 0x10000 True = Ok s \<and> pmm_ok 8 s
     \<and> (case alloc_blocks (\<lambda>s sz. alloc 8 s sz 12) s [0x1000, 0x2000] of
          Ok (s', bs) \<Rightarrow> pmm_ok 8 s'
            \<and> (\<forall>b \<in> set bs. b \<subseteq> pmm_free_set 8 s \<and> b \<inter> pmm_free_set 8 s' = {})
            \<and> (\<forall>i < length bs. \<forall>j < length bs. i \<noteq> j \<longrightarrow> bs ! i \<inter> bs ! j = {})
        | Err _ \<Rightarrow> True
        | _ \<Rightarrow> False)"
proof -
  from sample_pmm_ok obtain s where s: "free 8 sample_manager 0x100000 0x10000 True = Ok s" "pmm_ok 8 s" by blast
  have "\<forall>sz \<in> set [0x1000, 0x2000]. page_size_ok sz" by (simp add: page_size_ok_def)
  from blocks_never_shared [OF s(2) this] s show ?thesis by blast
qed

text \<open>
  Property C5. One refill of the entry pool is enough. An allocation of any even size and any alignment that
  finds the pool empty takes one page without alignment, turns it into entries and tries again; the second
  attempt cannot run out of entries, so two rounds of the recursion always suffice. The answer is that of an
  allocation from the free bytes, without the page of a refill if there was one: an aligned block of them with
  the rest staying free, or a refusal because the size is zero or not below what is free, or because no aligned
  block is free; it is never the empty pool. The \<open>expect\<close> of the refill panics only when the pool is empty
  and the manager holds at most one page, or no contiguous free page.
\<close>

theorem allocate_physical_memory_refills:
  fixes k :: nat
  assumes "pmm_inv s es fls ps" and "length es < n" and "paired (free_bytes s es)"
    and "even (unat sz)" and "unat al < 64" and "\<forall>x \<in> free_bytes s es. x + 2 ^ unat al \<le> 2 ^ 64"
    and "refill_ready direct_map align_T s es"
  defines "r \<equiv> allocate_physical_memory (Suc (Suc k)) direct_map align_T n sz al s"
  shows "(\<exists>A. refill_page s es ps A \<and> answers (free_bytes s es - A) sz al r)
    \<or> r = Panic \<and> ps = []
        \<and> (card (free_bytes s es) \<le> 4096 \<or> (\<forall>a. \<not> {a ..< a + 4096} \<subseteq> free_bytes s es))"
  using alloc_answers [OF assms(1-6)]
proof (elim disjE conjE)
  assume a: "answers (free_bytes s es) sz al (alloc n s sz al)"
  then have "r = alloc n s sz al" by (auto simp: r_def answers_def split: outcome.splits MemoryError.splits)
  with a have "refill_page s es ps {} \<and> answers (free_bytes s es - {}) sz al r" by (simp add: refill_page_def)
  then show ?thesis by blast
next
  assume out: "alloc n s sz al = Err EntryPoolRunOut" and ps: "ps = []"
  have inv: "pmm_inv s es fls []" using assms(1) ps by simp
  from add_physical_memory_manager_pool_ok [OF inv assms(2,3,7)] show ?thesis
  proof (elim disjE exE conjE)
    fix s1 es1 fls1 ps1 p
    assume s1: "add_physical_memory_manager_pool direct_map align_T n s = Ok s1" "pmm_inv s1 es1 fls1 ps1"
        "ps1 \<noteq> []" "length es1 < n" and p: "even (unat p)" "block p PAGE_SIZE \<subseteq> free_bytes s es"
      and F: "free_bytes s1 es1 = free_bytes s es - block p PAGE_SIZE"
    have "paired (block p PAGE_SIZE)" unfolding block_def using p(1) by (intro paired_block) (simp_all add: PAGE_SIZE_def)
    with assms(3) have "paired (free_bytes s1 es1)" unfolding F by (rule paired_diff)
    from alloc_answers [OF s1(2,4) this assms(4,5)] assms(6) s1(3)
    have a: "answers (free_bytes s es - block p PAGE_SIZE) sz al (alloc n s1 sz al)" by (auto simp: F)
    then have "r = alloc n s1 sz al"
      using out s1(1) by (auto simp: r_def answers_def split: outcome.splits MemoryError.splits)
    with a p(2) ps show ?thesis by (auto simp: refill_page_def)
  qed (use out ps in \<open>simp_all add: r_def\<close>)
qed

text \<open>A manager with one entry and an empty pool, whose range does not start at a page.\<close>

definition lean_manager :: PhysicalMemoryManager where
  "lean_manager =
     (PhysicalMemoryManager_new 56 8 (\<lambda>_. None) (\<lambda>_. blank_entry))
       \<lparr>memory_entry_pool := (\<lambda>_. None, (PoolAllocator_new 56 8)\<lparr>linked_count := 1, pool_head := Some 0x1000\<rparr>)\<rparr>"

lemma lean_ready:
  "\<exists>s fls. free 8 lean_manager 0x100800 0xF800 True = Ok s \<and> pmm_inv s [0x1000] fls []
     \<and> free_bytes s [0x1000] = {0x100800 ..< 0x110000} \<and> refill_ready (\<lambda>a. a + 0xFFFF000000000000) 8 s [0x1000]"
proof -
  have "fresh lean_manager [0x1000]"
    by (simp add: fresh_def lean_manager_def PhysicalMemoryManager_new_def pool_ok_def pool_holds_def
        PoolAllocator_new_def align_of_FreeList_def)
  moreover have "fits 0x100800 0xF800" by (simp add: fits_def)
  ultimately obtain s fls where s: "free 8 lean_manager 0x100800 0xF800 True = Ok s" "pmm_inv s [0x1000] fls []"
    and F: "free_bytes s [0x1000] = {0x100800 ..< 0x110000}"
    using free_first_ok [of lean_manager "0x1000" "[]" "0x100800" "0xF800" 8] by (auto simp: block_def)
  have "memory_size lean_manager = 0" by (simp add: lean_manager_def PhysicalMemoryManager_new_def)
  from free_shape [OF s(1) this] have sh: "shape_ok (pool_shape s)"
    by (simp add: lean_manager_def PhysicalMemoryManager_new_def pool_shape_def PoolAllocator_new_def Let_def
        align_of_FreeList_def shape_ok_def)
  have "{unat (me_start (entries s 0x1000)) .. unat (me_end (entries s 0x1000))} = {0x100800 ..< 0x110000}"
    using F by (simp add: free_bytes_def range_of_def)
  then have "{unat (me_start (entries s 0x1000)) .. unat (me_end (entries s 0x1000))} = {0x100800 .. 0x10FFFF :: nat}"
    by (simp add: atLeastLessThanSuc_atLeastAtMost [of _ "0x10FFFF", simplified])
  then have "unat (me_start (entries s 0x1000)) = 0x100800" by (auto simp: Icc_eq_Icc)
  then have "me_start (entries s 0x1000) = 0x100800" by (simp add: word_unat_eq_iff)
  with sh have "refill_ready (\<lambda>a. a + 0xFFFF000000000000) 8 s [0x1000]"
    by (simp add: refill_ready_def page_usable_def outside_def)
  with s F show ?thesis by blast
qed

text \<open>The aligned page lies inside the range, so the first attempt needs an entry and the pool has none.\<close>

theorem allocate_physical_memory_refills_witness:
  "\<exists>s fls. free 8 lean_manager 0x100800 0xF800 True = Ok s \<and> pmm_inv s [0x1000] fls []
     \<and> (\<exists>A. refill_page s [0x1000] [] A \<and> answers ({0x100800 ..< 0x110000} - A) 0x1000 12
            (allocate_physical_memory 2 (\<lambda>a. a + 0xFFFF000000000000) 8 8 0x1000 12 s))"
proof -
  from lean_ready obtain s fls where s: "free 8 lean_manager 0x100800 0xF800 True = Ok s" "pmm_inv s [0x1000] fls []"
    and F: "free_bytes s [0x1000] = {0x100800 ..< 0x110000}"
    and ready: "refill_ready (\<lambda>a. a + 0xFFFF000000000000) 8 s [0x1000]" by blast
  have "length [0x1000 :: usize] < 8" "paired (free_bytes s [0x1000])" "even (unat (0x1000 :: usize))"
    "unat (12 :: usize) < 64" "\<forall>x \<in> free_bytes s [0x1000]. x + 2 ^ unat (12 :: usize) \<le> 2 ^ 64"
    using paired_block [of "0x100800" "0xF800"] by (simp_all add: F)
  note all = allocate_physical_memory_refills [OF s(2) this ready, of 0]
  have "{0x101000 ..< 0x101000 + 4096} \<subseteq> free_bytes s [0x1000]" "\<not> card (free_bytes s [0x1000]) \<le> 4096"
    by (auto simp: F)
  with all s show ?thesis unfolding F numeral_2_eq_2 by blast
qed

end
