(* ===== verification/Page_Manager.thy ===== *)
theory Page_Manager
  imports Paging_Entry Memory_Layout Memory_Manager
begin

text \<open>
  The page manager of x86\_64 (\<open>arch/x86_64/paging/mod.rs\<close>): the four-level page tables that
  map virtual to physical addresses, built from pages of the physical memory manager.

  Tables are read and written through the direct map, as arrays of 512 words at a virtual
  address; the state holds these arrays by their address. A reference \<open>&mut PDPTE\<close> is the
  pair of the table's address and the index in it. An error keeps the state it leaves
  behind, since an operation may have changed tables before it fails. The number \<open>n\<close> is the
  number of rounds given to the loops of the physical memory manager.
\<close>

declare push_bit_of_1 [simp del] bit_numeral_word_iff [simp del]

section \<open>State\<close>

record PageManager =
  pml4 :: VAddress
  is_1gb_paging_supported :: bool

record paging_state =
  pm_manager :: PhysicalMemoryManager
  tables :: "VAddress \<Rightarrow> usize \<Rightarrow> u64"

type_synonym 'a paging = "(PagingError \<times> paging_state, 'a \<times> paging_state) outcome"
type_synonym slot = "VAddress \<times> usize"

definition PageManager_new :: PageManager where
  "PageManager_new = \<lparr>pml4 = 0, is_1gb_paging_supported = False\<rparr>"

definition MAX_ENTRY :: usize where "MAX_ENTRY = 512"

definition get_entry :: "paging_state \<Rightarrow> slot \<Rightarrow> u64" where
  "get_entry st r = tables st (fst r) (snd r)"

definition put_entry :: "paging_state \<Rightarrow> slot \<Rightarrow> u64 \<Rightarrow> paging_state" where
  "put_entry st r e = st\<lparr>tables := (tables st)(fst r := (tables st (fst r))(snd r := e))\<rparr>"

text \<open>A loop over the entries of one table.\<close>

definition init_table :: "(u64 \<Rightarrow> u64) \<Rightarrow> VAddress \<Rightarrow> paging_state \<Rightarrow> paging_state" where
  "init_table init_entry a st =
     st\<lparr>tables := (tables st)(a := (\<lambda>i. if i < MAX_ENTRY then init_entry (tables st a i) else tables st a i))\<rparr>"

definition any_present :: "(u64 \<Rightarrow> bool) \<Rightarrow> paging_state \<Rightarrow> VAddress \<Rightarrow> bool" where
  "any_present present st a \<longleftrightarrow> (\<exists>i \<in> set [0 ..< unat MAX_ENTRY]. present (tables st a (of_nat i)))"

section \<open>Walking the tables\<close>

definition alloc_page_table :: "nat \<Rightarrow> paging_state \<Rightarrow> VAddress paging" where
  "alloc_page_table n st =
     (case alloc n (pm_manager st) PAGE_SIZE PAGE_SHIFT of
        Ok (pm, p) \<Rightarrow> Ok (physical_address_to_direct_map p, st\<lparr>pm_manager := pm\<rparr>)
      | Err _ \<Rightarrow> Err (MemoryCacheRanOut, st)
      | Panic \<Rightarrow> Panic
      | Diverge \<Rightarrow> Diverge)"

text \<open>
  The index of an address in the table of a level: \<open>(address >> (PAGE_SHIFT + 9 * level)) & 0x1FF\<close>.
\<close>

definition table_index :: "usize \<Rightarrow> VAddress \<Rightarrow> usize" where
  "table_index level va = drop_bit (unat (PAGE_SHIFT + 9 * level)) va AND 0x1FF"

text \<open>
  Allocates a table, resets its entries, and stores its physical address in the reset
  entry of the parent table.
\<close>

definition create_table ::
  "(u64 \<Rightarrow> u64) \<Rightarrow> (u64 \<Rightarrow> u64) \<Rightarrow> (u64 \<Rightarrow> PAddress \<Rightarrow> u64 \<times> bool) \<Rightarrow> nat \<Rightarrow> slot \<Rightarrow> paging_state \<Rightarrow> unit paging"
where
  "create_table init_child init_entry set_address n r st =
     obind (alloc_page_table n st) (\<lambda>(address, st).
       let st = init_table init_child address st;
           st = put_entry st r (init_entry (get_entry st r))
       in Ok ((), put_entry st r
                    (fst (set_address (get_entry st r) (direct_map_to_physical_address address)))))"

definition get_target_pdpte ::
  "PageManager \<Rightarrow> nat \<Rightarrow> VAddress \<Rightarrow> bool \<Rightarrow> bool \<Rightarrow> bool \<Rightarrow> paging_state \<Rightarrow> slot paging" where
  "get_target_pdpte self n virtual_address should_set_present should_set_parent_entry_present
     should_create_entry st =
     (if virtual_address AND NOT PAGE_MASK \<noteq> 0 then Err (AddressIsNotAligned, st)
      else let pml4e = (pml4 self, table_index 3 virtual_address);
               number_of_pdpte = table_index 2 virtual_address in
        obind (if \<not> PML4E_is_address_set (get_entry st pml4e)
               then if \<not> should_create_entry then Err (EntryIsNotFound, st)
                    else create_table PDPTE_init PML4E_init PML4E_set_address n pml4e st
               else Ok ((), st)) (\<lambda>(_, st).
        let st = (if should_set_parent_entry_present
                  then put_entry st pml4e (PML4E_set_present (get_entry st pml4e) True) else st) in
        case PML4E_get_address (get_entry st pml4e) of
          None \<Rightarrow> Panic
        | Some a \<Rightarrow>
            let pdpte = (physical_address_to_direct_map a, number_of_pdpte) in
            Ok (pdpte, if should_set_present
                       then put_entry st pdpte (PDPTE_set_present (get_entry st pdpte) True) else st)))"

definition get_target_pde ::
  "PageManager \<Rightarrow> nat \<Rightarrow> VAddress \<Rightarrow> bool \<Rightarrow> bool \<Rightarrow> bool \<Rightarrow> slot option \<Rightarrow> paging_state \<Rightarrow> slot paging" where
  "get_target_pde self n virtual_address should_set_present should_set_parent_entry_present
     should_create_entry pdpte st =
     (let number_of_pde = table_index 1 virtual_address in
      obind (case pdpte of
               Some p \<Rightarrow> Ok (p, st)
             | None \<Rightarrow> get_target_pdpte self n virtual_address should_set_parent_entry_present
                         should_set_parent_entry_present should_create_entry st) (\<lambda>(pdpte, st).
      obind (if \<not> PDPTE_is_address_set (get_entry st pdpte)
             then if \<not> should_create_entry then Err (EntryIsNotFound, st)
                  else obind (create_table PDE_init PDPTE_init PDPTE_set_address n pdpte st) (\<lambda>(_, st).
                    Ok ((), if should_set_parent_entry_present
                            then put_entry st pdpte (PDPTE_set_present (get_entry st pdpte) True) else st))
             else Ok ((), st)) (\<lambda>(_, st).
      case PDPTE_get_address (get_entry st pdpte) of
        None \<Rightarrow> Panic
      | Some a \<Rightarrow>
          let pde = (physical_address_to_direct_map a, number_of_pde) in
          Ok (pde, if should_set_present
                   then put_entry st pde (PDE_set_present (get_entry st pde) True) else st))))"

definition get_target_pte ::
  "PageManager \<Rightarrow> nat \<Rightarrow> VAddress \<Rightarrow> bool \<Rightarrow> bool \<Rightarrow> slot option \<Rightarrow> paging_state \<Rightarrow> slot paging" where
  "get_target_pte self n virtual_address should_set_parent_entry_present should_create_entry pde st =
     (let number_of_pte = table_index 0 virtual_address in
      obind (case pde of
               Some p \<Rightarrow> Ok (p, st)
             | None \<Rightarrow> get_target_pde self n virtual_address should_set_parent_entry_present
                         should_set_parent_entry_present should_create_entry None st) (\<lambda>(pde, st).
      obind (if \<not> PDE_is_address_set (get_entry st pde)
             then if \<not> should_create_entry then Err (EntryIsNotFound, st)
                  else obind (create_table PTE_init PDE_init PDE_set_address n pde st) (\<lambda>(_, st).
                    Ok ((), if should_set_parent_entry_present
                            then put_entry st pde (PDE_set_present (get_entry st pde) True) else st))
             else Ok ((), st)) (\<lambda>(_, st).
      case PDE_get_address (get_entry st pde) of
        None \<Rightarrow> Panic
      | Some a \<Rightarrow> Ok ((physical_address_to_direct_map a, number_of_pte), st))))"

text \<open>A reference to an entry behind the trait, \<open>&'static mut dyn PagingEntry\<close>.\<close>

datatype dyn_entry = Dyn_PDPTE slot | Dyn_PDE slot | Dyn_PTE slot

primrec dyn_set_present :: "dyn_entry \<Rightarrow> bool \<Rightarrow> paging_state \<Rightarrow> paging_state" where
  "dyn_set_present (Dyn_PDPTE r) b st = put_entry st r (PDPTE_set_present (get_entry st r) b)"
| "dyn_set_present (Dyn_PDE r) b st = put_entry st r (PDE_set_present (get_entry st r) b)"
| "dyn_set_present (Dyn_PTE r) b st = put_entry st r (PTE_set_present (get_entry st r) b)"

primrec dyn_set_writable :: "dyn_entry \<Rightarrow> bool \<Rightarrow> paging_state \<Rightarrow> paging_state" where
  "dyn_set_writable (Dyn_PDPTE r) b st = put_entry st r (PDPTE_set_writable (get_entry st r) b)"
| "dyn_set_writable (Dyn_PDE r) b st = put_entry st r (PDE_set_writable (get_entry st r) b)"
| "dyn_set_writable (Dyn_PTE r) b st = put_entry st r (PTE_set_writable (get_entry st r) b)"

primrec dyn_set_no_execute :: "dyn_entry \<Rightarrow> bool \<Rightarrow> paging_state \<Rightarrow> paging_state" where
  "dyn_set_no_execute (Dyn_PDPTE r) b st = put_entry st r (PDPTE_set_no_execute (get_entry st r) b)"
| "dyn_set_no_execute (Dyn_PDE r) b st = put_entry st r (PDE_set_no_execute (get_entry st r) b)"
| "dyn_set_no_execute (Dyn_PTE r) b st = put_entry st r (PTE_set_no_execute (get_entry st r) b)"

primrec dyn_set_user_accessible :: "dyn_entry \<Rightarrow> bool \<Rightarrow> paging_state \<Rightarrow> paging_state" where
  "dyn_set_user_accessible (Dyn_PDPTE r) b st = put_entry st r (PDPTE_set_user_accessible (get_entry st r) b)"
| "dyn_set_user_accessible (Dyn_PDE r) b st = put_entry st r (PDE_set_user_accessible (get_entry st r) b)"
| "dyn_set_user_accessible (Dyn_PTE r) b st = put_entry st r (PTE_set_user_accessible (get_entry st r) b)"

definition get_target_paging_entry ::
  "PageManager \<Rightarrow> nat \<Rightarrow> VAddress \<Rightarrow> bool \<Rightarrow> bool \<Rightarrow> bool \<Rightarrow> paging_state \<Rightarrow> dyn_entry paging" where
  "get_target_paging_entry self n virtual_address should_set_present should_set_parent_entry_present
     should_create_entry st =
     obind (get_target_pdpte self n virtual_address should_set_present should_set_parent_entry_present
              should_create_entry st) (\<lambda>(pdpte, st).
     if PDPTE_is_huge (get_entry st pdpte)
     then Ok (Dyn_PDPTE pdpte, if should_set_present then dyn_set_present (Dyn_PDPTE pdpte) True st else st)
     else
       let st = (if should_set_parent_entry_present then dyn_set_present (Dyn_PDPTE pdpte) True st else st) in
       obind (get_target_pde self n virtual_address should_set_present should_set_parent_entry_present
                should_create_entry (Some pdpte) st) (\<lambda>(pde, st).
       if PDE_is_huge (get_entry st pde)
       then Ok (Dyn_PDE pde, if should_set_present then dyn_set_present (Dyn_PDE pde) True st else st)
       else
         let st = (if should_set_parent_entry_present then dyn_set_present (Dyn_PDE pde) True st else st) in
         obind (get_target_pte self n virtual_address should_set_parent_entry_present should_create_entry
                  (Some pde) st) (\<lambda>(pte, st).
         Ok (Dyn_PTE pte, if should_set_present then dyn_set_present (Dyn_PTE pte) True st else st))))"

section \<open>Mapping\<close>

definition associate_address ::
  "PageManager \<Rightarrow> nat \<Rightarrow> PAddress \<Rightarrow> VAddress \<Rightarrow> MemoryPermissionFlags \<Rightarrow> paging_state \<Rightarrow> unit paging" where
  "associate_address self n physical_address virtual_address permission st =
     (if physical_address AND NOT PAGE_MASK \<noteq> 0 \<or> virtual_address AND NOT PAGE_MASK \<noteq> 0
      then Err (AddressIsNotAligned, st)
      else if drop_bit 48 virtual_address \<noteq> 0 \<and>
              (drop_bit 48 virtual_address \<noteq> 0xFFFF \<or> drop_bit 47 virtual_address AND 1 = 0)
      then Err (AddressIsNotCanonical, st)
      else obind (get_target_pte self n virtual_address True True None st) (\<lambda>(pte, st).
        let e = PTE_init (get_entry st pte);
            e = fst (PTE_set_address e physical_address);
            e = PTE_set_no_execute e (\<not> is_executable permission);
            e = PTE_set_writable e (is_writable permission);
            e = PTE_set_user_accessible e (is_user_accessible permission);
            e = PTE_set_present e True
        in Ok ((), put_entry st pte e)))"

text \<open>
  The entry of a huge page, as \<open>associate_area\<close> writes it after \<open>init\<close> and \<open>set_huge\<close>; the
  assertion in \<open>set_huge\<close> is about the entry that \<open>init\<close> has just reset.
\<close>

definition huge_pdpte :: "PAddress \<Rightarrow> MemoryPermissionFlags \<Rightarrow> PDPTE \<Rightarrow> ('e, PDPTE) outcome" where
  "huge_pdpte address permission e =
     obind (PDPTE_set_huge (PDPTE_init e) True) (\<lambda>e.
       let e = PDPTE_set_no_execute e (\<not> is_executable permission);
           e = PDPTE_set_writable e (is_writable permission);
           e = PDPTE_set_user_accessible e (is_user_accessible permission);
           e = fst (PDPTE_set_address e address)
       in Ok (PDPTE_set_present e True))"

definition huge_pde :: "PAddress \<Rightarrow> MemoryPermissionFlags \<Rightarrow> PDE \<Rightarrow> ('e, PDE) outcome" where
  "huge_pde address permission e =
     obind (PDE_set_huge (PDE_init e) True) (\<lambda>e.
       let e = PDE_set_no_execute e (\<not> is_executable permission);
           e = PDE_set_writable e (is_writable permission);
           e = PDE_set_user_accessible e (is_user_accessible permission);
           e = fst (PDE_set_address e address)
       in Ok (PDE_set_present e True))"

text \<open>The attempts to use one huge page; the result says whether the entry was free.\<close>

definition associate_1gb ::
  "PageManager \<Rightarrow> nat \<Rightarrow> PAddress \<Rightarrow> VAddress \<Rightarrow> MSize \<Rightarrow> MemoryPermissionFlags \<Rightarrow> paging_state \<Rightarrow> bool paging"
where
  "associate_1gb self n pa va rest permission st =
     (if table_index 1 va = 0 \<and> table_index 0 va = 0 \<and> pa AND 0x3FFFFFFF = 0 \<and>
         rest \<ge> 0x40000000 \<and> is_1gb_paging_supported self
      then obind (get_target_pdpte self n va False True True st) (\<lambda>(pdpte, st).
        if \<not> PDPTE_is_present (get_entry st pdpte)
        then obind (huge_pdpte pa permission (get_entry st pdpte)) (\<lambda>e. Ok (True, put_entry st pdpte e))
        else Ok (False, st))
      else Ok (False, st))"

definition associate_2mb ::
  "PageManager \<Rightarrow> nat \<Rightarrow> PAddress \<Rightarrow> VAddress \<Rightarrow> MSize \<Rightarrow> MemoryPermissionFlags \<Rightarrow> paging_state \<Rightarrow> bool paging"
where
  "associate_2mb self n pa va rest permission st =
     (if table_index 0 va = 0 \<and> pa AND 0x1FFFFF = 0 \<and> rest \<ge> 0x200000
      then obind (get_target_pde self n va False True True None st) (\<lambda>(pde, st).
        if \<not> PDE_is_present (get_entry st pde)
        then obind (huge_pde pa permission (get_entry st pde)) (\<lambda>e. Ok (True, put_entry st pde e))
        else Ok (False, st))
      else Ok (False, st))"

text \<open>The loop of \<open>associate_area\<close>; its condition is \<open>processed_size <= size\<close>.\<close>

primrec associate_area_loop ::
  "nat \<Rightarrow> PageManager \<Rightarrow> nat \<Rightarrow> PAddress \<Rightarrow> VAddress \<Rightarrow> MSize \<Rightarrow> MemoryPermissionFlags \<Rightarrow> MSize
     \<Rightarrow> paging_state \<Rightarrow> unit paging" where
  "associate_area_loop 0 self n physical_address virtual_address sz permission processed_size st = Diverge"
| "associate_area_loop (Suc k) self n physical_address virtual_address sz permission processed_size st =
     (if \<not> processed_size \<le> sz then Ok ((), st)
      else let va = virtual_address + processed_size; pa = physical_address + processed_size in
        obind (associate_1gb self n pa va (sz - processed_size) permission st) (\<lambda>(done, st).
        if done
        then associate_area_loop k self n physical_address virtual_address sz permission
               (processed_size + 0x40000000) st
        else obind (associate_2mb self n pa va (sz - processed_size) permission st) (\<lambda>(done, st).
        if done
        then associate_area_loop k self n physical_address virtual_address sz permission
               (processed_size + 0x200000) st
        else obind (associate_address self n pa va permission st) (\<lambda>(_, st).
          associate_area_loop k self n physical_address virtual_address sz permission
            (processed_size + PAGE_SIZE) st))))"

definition associate_area ::
  "nat \<Rightarrow> PageManager \<Rightarrow> nat \<Rightarrow> PAddress \<Rightarrow> VAddress \<Rightarrow> MSize \<Rightarrow> MemoryPermissionFlags \<Rightarrow> paging_state
     \<Rightarrow> unit paging" where
  "associate_area k self n physical_address virtual_address sz permission st =
     (if physical_address AND NOT PAGE_MASK \<noteq> 0 \<or> virtual_address AND NOT PAGE_MASK \<noteq> 0
      then Err (AddressIsNotAligned, st)
      else if sz AND NOT PAGE_MASK \<noteq> 0 then Err (SizeIsNotAligned, st)
      else if sz = PAGE_SIZE then associate_address self n physical_address virtual_address permission st
      else associate_area_loop k self n physical_address virtual_address sz permission 0 st)"

definition change_memory_permission ::
  "PageManager \<Rightarrow> nat \<Rightarrow> VAddress \<Rightarrow> MemoryPermissionFlags \<Rightarrow> paging_state \<Rightarrow> unit paging" where
  "change_memory_permission self n virtual_address permission st =
     (if virtual_address AND NOT PAGE_MASK \<noteq> 0 then Err (AddressIsNotAligned, st)
      else obind (get_target_paging_entry self n virtual_address False False False st) (\<lambda>(entry, st).
        let st = dyn_set_writable entry (is_writable permission) st;
            st = dyn_set_no_execute entry (\<not> is_executable permission) st;
            st = dyn_set_user_accessible entry (is_user_accessible permission) st
        in Ok ((), st)))"

section \<open>Unmapping\<close>

text \<open>The release of a table's page; every error of the memory manager becomes one error here.\<close>

definition free_table :: "nat \<Rightarrow> PAddress \<Rightarrow> paging_state \<Rightarrow> unit paging" where
  "free_table n a st =
     (case free n (pm_manager st) a PAGE_SIZE False of
        Ok pm \<Rightarrow> Ok ((), st\<lparr>pm_manager := pm\<rparr>)
      | Err (_, pm) \<Rightarrow> Err (MemoryCacheOverflowed, st\<lparr>pm_manager := pm\<rparr>)
      | Panic \<Rightarrow> Panic
      | Diverge \<Rightarrow> Diverge)"

definition unwrap_or_panic :: "'a option \<Rightarrow> ('a \<Rightarrow> ('e, 'b) outcome) \<Rightarrow> ('e, 'b) outcome" where
  "unwrap_or_panic x f = (case x of None \<Rightarrow> Panic | Some y \<Rightarrow> f y)"

text \<open>
  The three parts of \<open>cleanup_page_table\<close>: the page table, the page directory, the page
  directory pointer table. The result of the first two says whether to go on (the source
  returns from the function when an entry is still in use).
\<close>

definition cleanup_pt :: "nat \<Rightarrow> slot \<Rightarrow> paging_state \<Rightarrow> bool paging" where
  "cleanup_pt n pde st =
     (if PDE_is_present (get_entry st pde) \<and> \<not> PDE_is_huge (get_entry st pde)
      then unwrap_or_panic (PDE_get_address (get_entry st pde)) (\<lambda>a.
        if any_present PTE_is_present st (physical_address_to_direct_map a) then Ok (False, st)
        else obind (free_table n a st) (\<lambda>(_, st).
          let st = put_entry st pde (PDE_set_present (get_entry st pde) False);
              st = put_entry st pde (PDE_set_address_set (get_entry st pde) False)
          in Ok (True, st)))
      else Ok (True, st))"

definition cleanup_pd :: "nat \<Rightarrow> slot \<Rightarrow> usize \<Rightarrow> paging_state \<Rightarrow> bool paging" where
  "cleanup_pd n pdpte number_of_pde st =
     (if PDPTE_is_present (get_entry st pdpte) \<and> \<not> PDPTE_is_huge (get_entry st pdpte)
      then unwrap_or_panic (PDPTE_get_address (get_entry st pdpte)) (\<lambda>a.
        obind (cleanup_pt n (physical_address_to_direct_map a, number_of_pde) st) (\<lambda>(go_on, st).
        if \<not> go_on then Ok (False, st)
        else unwrap_or_panic (PDPTE_get_address (get_entry st pdpte)) (\<lambda>a.
          if any_present PDE_is_present st (physical_address_to_direct_map a) then Ok (False, st)
          else obind (free_table n a st) (\<lambda>(_, st).
            let st = put_entry st pdpte (PDPTE_set_present (get_entry st pdpte) False);
                st = put_entry st pdpte (PDPTE_set_address_set (get_entry st pdpte) False)
            in Ok (True, st)))))
      else Ok (True, st))"

definition cleanup_page_table :: "PageManager \<Rightarrow> nat \<Rightarrow> VAddress \<Rightarrow> paging_state \<Rightarrow> unit paging" where
  "cleanup_page_table self n virtual_address st =
     (let pml4e = (pml4 self, table_index 3 virtual_address) in
      if \<not> PML4E_is_address_set (get_entry st pml4e) then Ok ((), st)
      else unwrap_or_panic (PML4E_get_address (get_entry st pml4e)) (\<lambda>a.
        let pdpte = (physical_address_to_direct_map a, table_index 2 virtual_address) in
        obind (cleanup_pd n pdpte (table_index 1 virtual_address) st) (\<lambda>(go_on, st).
        if \<not> go_on then Ok ((), st)
        else unwrap_or_panic (PML4E_get_address (get_entry st pml4e)) (\<lambda>a.
          if any_present PDPTE_is_present st (physical_address_to_direct_map a) then Ok ((), st)
          else obind (free_table n a st) (\<lambda>(_, st).
            let st = put_entry st pml4e (PML4E_set_present (get_entry st pml4e) False);
                st = put_entry st pml4e (PML4E_set_address_set (get_entry st pml4e) False)
            in Ok ((), st))))))"

definition unassociate_address ::
  "PageManager \<Rightarrow> nat \<Rightarrow> VAddress \<Rightarrow> bool \<Rightarrow> paging_state \<Rightarrow> unit paging" where
  "unassociate_address self n virtual_address entry_may_be_deleted st =
     (case get_target_paging_entry self n virtual_address False False False st of
        Ok (entry, st) \<Rightarrow> cleanup_page_table self n virtual_address (dyn_set_present entry False st)
      | Err (err, st) \<Rightarrow>
          if err = EntryIsNotFound \<and> entry_may_be_deleted
          then cleanup_page_table self n virtual_address st else Err (err, st)
      | Panic \<Rightarrow> Panic
      | Diverge \<Rightarrow> Diverge)"

text \<open>One round of \<open>unassociate_address_width_size\<close>; the result is the size of the page.\<close>

definition unassociate_round ::
  "PageManager \<Rightarrow> nat \<Rightarrow> VAddress \<Rightarrow> MSize \<Rightarrow> paging_state \<Rightarrow> MSize paging" where
  "unassociate_round self n va rest st =
     obind (get_target_pdpte self n va False False False st) (\<lambda>(pdpte, st).
     if PDPTE_is_huge (get_entry st pdpte)
     then if \<not> PDPTE_is_present (get_entry st pdpte) then Err (EntryIsNotFound, st)
       else if rest < 0x40000000 then Err (EntryIsNotFound, st)
       else let st = put_entry st pdpte (PDPTE_set_present (get_entry st pdpte) False);
                st = put_entry st pdpte (PDPTE_set_address_set (get_entry st pdpte) False)
            in obind (cleanup_page_table self n va st) (\<lambda>(_, st). Ok (0x40000000, st))
     else obind (get_target_pde self n va False False False (Some pdpte) st) (\<lambda>(pde, st).
     if PDE_is_huge (get_entry st pde)
     then if \<not> PDE_is_present (get_entry st pde) then Err (EntryIsNotFound, st)
       else if rest < 0x200000 then Err (EntryIsNotFound, st)
       else let st = put_entry st pde (PDE_set_present (get_entry st pde) False);
                st = put_entry st pde (PDE_set_address_set (get_entry st pde) False)
            in obind (cleanup_page_table self n va st) (\<lambda>(_, st). Ok (0x200000, st))
     else obind (get_target_pte self n va False False (Some pde) st) (\<lambda>(pte, st).
     if \<not> PTE_is_present (get_entry st pte) then Err (EntryIsNotFound, st)
     else obind (cleanup_page_table self n va
                   (put_entry st pte (PTE_set_present (get_entry st pte) False))) (\<lambda>(_, st).
       Ok (PAGE_SIZE, st)))))"

primrec unassociate_loop ::
  "nat \<Rightarrow> PageManager \<Rightarrow> nat \<Rightarrow> VAddress \<Rightarrow> MSize \<Rightarrow> MSize \<Rightarrow> paging_state \<Rightarrow> unit paging" where
  "unassociate_loop 0 self n virtual_address sz processed_size st = Diverge"
| "unassociate_loop (Suc k) self n virtual_address sz processed_size st =
     (if \<not> processed_size < sz then Ok ((), st)
      else obind (unassociate_round self n (virtual_address + processed_size) (sz - processed_size) st)
        (\<lambda>(page, st). unassociate_loop k self n virtual_address sz (processed_size + page) st))"

definition unassociate_address_width_size ::
  "nat \<Rightarrow> PageManager \<Rightarrow> nat \<Rightarrow> VAddress \<Rightarrow> MSize \<Rightarrow> bool \<Rightarrow> paging_state \<Rightarrow> unit paging" where
  "unassociate_address_width_size k self n virtual_address sz entry_may_be_deleted st =
     (if sz AND NOT PAGE_MASK \<noteq> 0 then Err (AddressIsNotAligned, st)
      else if sz = PAGE_SIZE then unassociate_address self n virtual_address entry_may_be_deleted st
      else unassociate_loop k self n virtual_address sz 0 st)"

section \<open>Creation and destruction\<close>

text \<open>\<open>edx\<close> is what \<open>cpuid\<close> leaves in that register for the leaf \<open>0x80000001\<close>.\<close>

definition PageManager_init :: "u32 \<Rightarrow> nat \<Rightarrow> PageManager \<Rightarrow> paging_state \<Rightarrow> PageManager paging" where
  "PageManager_init edx n self st =
     (let self = self\<lparr>is_1gb_paging_supported := edx AND push_bit 26 1 \<noteq> 0\<rparr> in
      obind (alloc_page_table n st) (\<lambda>(pml4_address, st).
        Ok (self\<lparr>pml4 := pml4_address\<rparr>, init_table PML4E_init pml4_address st)))"

definition copy_system_area :: "PageManager \<Rightarrow> PageManager \<Rightarrow> paging_state \<Rightarrow> unit paging" where
  "copy_system_area self system_page_manager st =
     (let high_area_start = table_index 3 (fst CANONICAL_AREA_HIGH);
          pml4_table = tables st (pml4 self);
          system_pml4_table = tables st (pml4 system_page_manager)
      in Ok ((), st\<lparr>tables := (tables st)(pml4 self :=
           (\<lambda>i. if high_area_start \<le> i \<and> i < MAX_ENTRY then system_pml4_table i else pml4_table i))\<rparr>))"

definition init_user :: "nat \<Rightarrow> PageManager \<Rightarrow> PageManager \<Rightarrow> paging_state \<Rightarrow> PageManager paging" where
  "init_user n self system_page_manager st =
     (let self = self\<lparr>is_1gb_paging_supported := False\<rparr> in
      obind (alloc_page_table n st) (\<lambda>(pml4_address, st).
      let self = self\<lparr>pml4 := pml4_address\<rparr> in
      obind (copy_system_area self system_page_manager (init_table PML4E_init pml4_address st)) (\<lambda>(_, st).
        Ok (self, st))))"

definition destroy_page_table :: "nat \<Rightarrow> PageManager \<Rightarrow> paging_state \<Rightarrow> PageManager paging" where
  "destroy_page_table n self st =
     obind (free_table n (direct_map_to_physical_address (pml4 self)) st) (\<lambda>(_, st).
       Ok (self\<lparr>pml4 := 0\<rparr>, st))"

definition get_page_table_address :: "PageManager \<Rightarrow> PAddress" where
  "get_page_table_address self = direct_map_to_physical_address (pml4 self)"

end
