(* ===== verification/Page_Frames.thy ===== *)
theory Page_Frames
  imports Memory_Manager
begin

text \<open>
  The interface between the page manager and the physical memory manager: pages are taken
  and given back one at a time. The manager promises that a page it hands out was free, is
  aligned, and stays out of the free set until it is given back; its client keeps the pages
  it holds inside a fixed set of managed bytes.
\<close>

definition page_of :: "PAddress \<Rightarrow> nat set" where
  "page_of a = block a PAGE_SIZE"

lemma page_of_eq: "page_of a = {unat a ..< unat a + 4096}"
  by (simp add: page_of_def block_def PAGE_SIZE_def)

lemma page_of_nonempty [simp]: "page_of a \<noteq> {}" "unat a \<in> page_of a"
  by (simp_all add: page_of_eq)

lemma page_of_inj_on:
  assumes "page_of a = page_of b"
  shows "a = b"
proof -
  have "Min (page_of a) = unat a" for a
    unfolding page_of_eq by (intro Min_eqI) auto
  with assms show ?thesis by (metis word_unat_eq_iff)
qed

text \<open>
  A client's view: the managed bytes \<open>M\<close> contain the free ones, and the pages \<open>H\<close> that the
  client holds are managed and not free.
\<close>

definition holds :: "bool \<Rightarrow> nat set \<Rightarrow> nat \<Rightarrow> nat set \<Rightarrow> PAddress set \<Rightarrow> bool" where
  "holds good F managed M H \<longleftrightarrow>
     good \<and> finite M \<and> M \<subseteq> {..< 2 ^ 52} \<and> card M \<le> managed \<and> F \<subseteq> M
     \<and> (\<forall>a \<in> H. unat a mod 4096 = 0 \<and> page_of a \<subseteq> M \<and> page_of a \<inter> F = {})"

lemma holds_mono: "holds g F m M H \<Longrightarrow> H' \<subseteq> H \<Longrightarrow> holds g F m M H'"
  by (auto simp: holds_def)

lemma holds_member:
  assumes "holds g F m M H" and "a \<in> H"
  shows "unat a mod 4096 = 0" and "unat a < 2 ^ 52"
proof -
  have "page_of a \<subseteq> {..< 2 ^ 52}" using assms by (auto simp: holds_def)
  then show "unat a < 2 ^ 52" using page_of_nonempty(2) by (rule lessThan_iff [THEN iffD1, OF subsetD])
  show "unat a mod 4096 = 0" using assms by (simp add: holds_def)
qed

lemma pages_apart:
  assumes "unat a mod 4096 = 0" and "unat b mod 4096 = 0" and "a \<noteq> b"
  shows "page_of a \<inter> page_of b = {}"
proof -
  have "unat a \<noteq> unat b" using assms(3) by (simp add: word_unat_eq_iff)
  moreover obtain x y where "unat a = 4096 * x" "unat b = 4096 * y"
    using assms(1,2) by (auto simp: mod_eq_0_iff_dvd elim!: dvdE)
  ultimately show ?thesis by (auto simp: page_of_eq)
qed

locale page_frames =
  fixes ok :: "'s \<Rightarrow> bool" and free_set :: "'s \<Rightarrow> nat set" and managed_size :: "'s \<Rightarrow> nat"
    and take_page :: "'s \<Rightarrow> ('e, 's \<times> PAddress) outcome"
    and give_page :: "'s \<Rightarrow> PAddress \<Rightarrow> ('e \<times> 's, 's) outcome"
  assumes take_ok: "ok s \<Longrightarrow> take_page s = Ok (s', a) \<Longrightarrow>
      ok s' \<and> unat a mod 4096 = 0 \<and> page_of a \<subseteq> free_set s \<and> free_set s' = free_set s - page_of a
      \<and> managed_size s' = managed_size s"
    and take_ends: "ok s \<Longrightarrow> take_page s \<noteq> Panic \<and> take_page s \<noteq> Diverge"
    and give_ok: "ok s \<Longrightarrow> unat a mod 4096 = 0 \<Longrightarrow> unat a < 2 ^ 52 \<Longrightarrow> page_of a \<inter> free_set s = {} \<Longrightarrow>
      card (free_set s) + 4096 \<le> managed_size s \<Longrightarrow>
      (\<exists>s'. give_page s a = Ok s' \<and> ok s' \<and> free_set s' = free_set s \<union> page_of a
         \<and> managed_size s' = managed_size s)
      \<or> (\<exists>e. give_page s a = Err (e, s))"
begin

lemma take_holds:
  assumes h: "holds (ok s) (free_set s) (managed_size s) M H" and t: "take_page s = Ok (s', a)"
  shows "holds (ok s') (free_set s') (managed_size s') M (insert a H)" and "a \<notin> H"
proof -
  from h have "ok s" by (simp add: holds_def)
  from take_ok [OF this t] have r: "ok s'" "unat a mod 4096 = 0" "page_of a \<subseteq> free_set s"
    "free_set s' = free_set s - page_of a" "managed_size s' = managed_size s" by auto
  with h show "holds (ok s') (free_set s') (managed_size s') M (insert a H)" by (auto simp: holds_def)
  show "a \<notin> H"
  proof
    assume "a \<in> H"
    then have "page_of a \<inter> free_set s = {}" using h by (simp add: holds_def)
    then show False using r(3) page_of_nonempty(1) [of a] by (simp add: Int_absorb2)
  qed
qed

lemma give_holds:
  assumes h: "holds (ok s) (free_set s) (managed_size s) M H" and a: "a \<in> H"
  shows "(\<exists>s'. give_page s a = Ok s' \<and> free_set s' = free_set s \<union> page_of a
       \<and> holds (ok s') (free_set s') (managed_size s') M (H - {a}))
    \<or> (\<exists>e. give_page s a = Err (e, s))"
proof -
  have sub: "free_set s \<union> page_of a \<subseteq> M" and disj: "page_of a \<inter> free_set s = {}" and fin: "finite M"
    using h a by (auto simp: holds_def)
  have "card (free_set s) + card (page_of a) = card (free_set s \<union> page_of a)"
    using disj finite_subset [OF sub fin] by (intro card_Un_disjoint [symmetric]) auto
  also have "\<dots> \<le> card M" using sub fin by (rule card_mono [rotated])
  also have "\<dots> \<le> managed_size s" using h by (simp add: holds_def)
  finally have "card (free_set s) + 4096 \<le> managed_size s" by (simp add: page_of_eq)
  from give_ok [OF _ holds_member [OF h a] disj this] h
  consider s' where "give_page s a = Ok s'" "ok s'" "free_set s' = free_set s \<union> page_of a"
      "managed_size s' = managed_size s"
    | e where "give_page s a = Err (e, s)"
    by (auto simp: holds_def)
  then show ?thesis
  proof cases
    case 1
    have "page_of b \<inter> page_of a = {}" if "b \<in> H - {a}" for b
      using that h a holds_member(1) [OF h] by (intro pages_apart) auto
    with 1 sub h have "holds (ok s') (free_set s') (managed_size s') M (H - {a})" by (simp add: holds_def Int_Un_distrib)
    with 1 show ?thesis by blast
  next
    case 2
    then show ?thesis by blast
  qed
qed

end

section \<open>The physical memory manager as provider\<close>

lemma pmm_take_page:
  assumes ok: "pmm_ok n s" and r: "alloc n s PAGE_SIZE PAGE_SHIFT = Ok (s', a)"
  shows "pmm_ok n s' \<and> unat a mod 4096 = 0 \<and> page_of a \<subseteq> pmm_free_set n s
    \<and> pmm_free_set n s' = pmm_free_set n s - page_of a \<and> unat (memory_size s') = unat (memory_size s)"
proof -
  have sh: "PAGE_SHIFT = 12" and sz: "page_size_ok PAGE_SIZE" and v: "unat PAGE_SIZE = 4096"
    by (simp_all add: PAGE_SHIFT_def page_size_ok_def PAGE_SIZE_def)
  from r have r': "alloc n s PAGE_SIZE 12 = Ok (s', a)" by (simp add: sh)
  from ok obtain es fls ps where inv: "pmm_inv s es fls ps" and n: "length es + length ps < n"
    and p: "paired (free_bytes s es)" and b: "\<forall>x \<in> free_bytes s es. x + 2 ^ 12 \<le> 2 ^ 64"
    by (auto simp: pmm_ok_def)
  have h: "length es < n" "even (unat PAGE_SIZE)" "unat (12 :: usize) < 64"
    "\<forall>x \<in> free_bytes s es. x + 2 ^ unat (12 :: usize) \<le> 2 ^ 64" "PAGE_SIZE \<noteq> 0"
    using n b by (simp_all add: v PAGE_SIZE_def)
  have "unat PAGE_SIZE < card (free_bytes s es)"
    using r' pmm_free_card [OF inv] h(5) by (auto simp: alloc_def is_zero_def word_le_nat_alt split: if_splits)
  from alloc_cases [OF inv h(1) p h(2-5) this] r'
  have "2 ^ unat (12 :: usize) dvd unat a" "takes s es ps s' (block a PAGE_SIZE)" by auto
  then show ?thesis
    using pmm_alloc_step(1) [OF ok sz r'] by (auto simp: page_of_def takes_def)
qed

lemma pmm_give_page:
  assumes ok: "pmm_ok n s" and al: "unat a mod 4096 = 0" and lo: "unat a < 2 ^ 52"
    and new: "page_of a \<inter> pmm_free_set n s = {}"
    and room: "card (pmm_free_set n s) + 4096 \<le> unat (memory_size s)"
  shows "(\<exists>s'. free n s a PAGE_SIZE False = Ok s' \<and> pmm_ok n s'
      \<and> pmm_free_set n s' = pmm_free_set n s \<union> page_of a \<and> unat (memory_size s') = unat (memory_size s))
    \<or> (\<exists>e. free n s a PAGE_SIZE False = Err (e, s))"
proof -
  have v: "unat PAGE_SIZE = 4096" by (simp add: PAGE_SIZE_def)
  from ok obtain es fls ps where inv: "pmm_inv s es fls ps" and n: "length es + length ps < n"
    and p: "paired (free_bytes s es)" and b: "\<forall>x \<in> free_bytes s es. x + 2 ^ 12 \<le> 2 ^ 64"
    by (auto simp: pmm_ok_def)
  have F: "pmm_free_set n s = free_bytes s es"
    using free_entries_inv [OF inv, of n] n by (simp add: pmm_free_set_def)
  have "fits a PAGE_SIZE" using lo by (simp add: fits_def v)
  moreover have "length es \<le> n" "block a PAGE_SIZE \<inter> free_bytes s es = {}"
    "card (free_bytes s es) + unat PAGE_SIZE \<le> unat (memory_size s)"
    using n new room by (simp_all add: F page_of_def v)
  ultimately consider s' where "free n s a PAGE_SIZE False = Ok s'" "gives s es ps s' (block a PAGE_SIZE)"
    | e where "free n s a PAGE_SIZE False = Err (e, s)"
    using free_ok [OF inv] by blast
  then show ?thesis
  proof cases
    case 1
    from 1(2) obtain es' fls' ps' where inv': "pmm_inv s' es' fls' ps'"
      and F': "free_bytes s' es' = free_bytes s es \<union> block a PAGE_SIZE"
      and m: "memory_size s' = memory_size s" and ms: "mset (es' @ ps') = mset (es @ ps)"
      by (auto simp: gives_def)
    have n': "length es' + length ps' < n" using mset_eq_length [OF ms] n by simp
    have "2 dvd unat a" by (rule dvd_trans [of _ 4096]) (use al in auto)
    then have "paired (block a PAGE_SIZE)" unfolding block_def v by (intro paired_block) simp_all
    then have "paired (free_bytes s' es')" using p unfolding F' by (rule paired_Un [rotated])
    moreover have "\<forall>x \<in> free_bytes s' es'. x + 2 ^ 12 \<le> 2 ^ 64"
      using b lo by (auto simp: F' block_def v)
    ultimately have "pmm_ok n s'" using inv' n' unfolding pmm_ok_def by blast
    moreover have "pmm_free_set n s' = free_bytes s' es'"
      using free_entries_inv [OF inv', of n] n' by (simp add: pmm_free_set_def)
    ultimately show ?thesis using 1(1) F' m by (simp add: F page_of_def)
  next
    case 2
    then show ?thesis by blast
  qed
qed

lemma pmm_take_page_ends:
  assumes "pmm_ok n s"
  shows "alloc n s PAGE_SIZE PAGE_SHIFT \<noteq> Panic \<and> alloc n s PAGE_SIZE PAGE_SHIFT \<noteq> Diverge"
proof -
  have sh: "PAGE_SHIFT = 12" and sz: "page_size_ok PAGE_SIZE"
    by (simp_all add: PAGE_SHIFT_def page_size_ok_def PAGE_SIZE_def)
  from pmm_alloc_step(2) [OF assms sz] show ?thesis unfolding sh .
qed

interpretation frames: page_frames "pmm_ok n" "pmm_free_set n" "\<lambda>s. unat (memory_size s)"
  "\<lambda>s. alloc n s PAGE_SIZE PAGE_SHIFT" "\<lambda>s a. free n s a PAGE_SIZE False" for n
  by (unfold_locales; (rule pmm_take_page | rule pmm_take_page_ends | rule pmm_give_page); assumption)

end
