(* ===== verification/Page_Tables.thy ===== *)
theory Page_Tables
  imports Page_Manager Page_Frames
begin

text \<open>
  Page tables as a tree. The path of a table is the list of indices that leads to it from
  the root; a well-formed set of tables reaches every table by one path only, keeps its
  pages apart from free memory, and has entries of three kinds (a table, a huge page,
  nothing). Against it stands the walk of the processor, which knows nothing of the
  software bit and follows present entries only. The lemmas say how a single write to an
  entry changes the tree and the walk.
\<close>

declare push_bit_of_1 [simp del] bit_numeral_word_iff [simp del]

section \<open>The tree\<close>

type_synonym memory = "VAddress \<Rightarrow> usize \<Rightarrow> u64"

definition frame :: "u64 \<Rightarrow> PAddress" where
  "frame e = e AND 0x000FFFFFFFFFF000"

definition next_table :: "u64 \<Rightarrow> VAddress" where
  "next_table e = physical_address_to_direct_map (frame e)"

definition is_table :: "u64 \<Rightarrow> bool" where
  "is_table e \<longleftrightarrow> bit e 52 \<and> \<not> bit e 7"

fun table_at :: "memory \<Rightarrow> VAddress \<Rightarrow> usize list \<Rightarrow> VAddress option" where
  "table_at T t [] = Some t"
| "table_at T t (i # is) =
     (if i < 512 \<and> is_table (T t i) then table_at T (next_table (T t i)) is else None)"

definition tree :: "memory \<Rightarrow> VAddress \<Rightarrow> usize list \<Rightarrow> VAddress option" where
  "tree T root p = (if length p \<le> 3 then table_at T root p else None)"

definition put_word :: "memory \<Rightarrow> VAddress \<Rightarrow> usize \<Rightarrow> u64 \<Rightarrow> memory" where
  "put_word T t i e = T(t := (T t)(i := e))"

lemma put_word_simps:
  "put_word T t i e t i = e"
  "u \<noteq> t \<or> j \<noteq> i \<Longrightarrow> put_word T t i e u j = T u j"
  by (auto simp: put_word_def)

lemma table_at_append:
  "table_at T t (p @ q) = (case table_at T t p of None \<Rightarrow> None | Some u \<Rightarrow> table_at T u q)"
  by (induction p arbitrary: t) auto

lemma tree_Nil [simp]: "tree T root [] = Some root"
  by (simp add: tree_def)

lemma tree_snoc:
  "tree T root (p @ [i]) = Some u \<longleftrightarrow>
     length p < 3 \<and> i < 512 \<and> (\<exists>t. tree T root p = Some t \<and> is_table (T t i) \<and> u = next_table (T t i))"
  by (auto simp: tree_def table_at_append split: option.splits)

lemma tree_length: "tree T root p = Some t \<Longrightarrow> length p \<le> 3"
  by (simp add: tree_def split: if_splits)

definition one_path :: "memory \<Rightarrow> VAddress \<Rightarrow> bool" where
  "one_path T root \<longleftrightarrow> inj_on (tree T root) (dom (tree T root))"

lemma one_pathD: "one_path T root \<Longrightarrow> tree T root p = Some t \<Longrightarrow> tree T root q = Some t \<Longrightarrow> p = q"
  unfolding one_path_def by (metis domI inj_onD)

text \<open>A write changes the tree only below the entry that is written.\<close>

lemma tree_write_other:
  assumes one: "one_path T root" and t: "tree T root p = Some t"
    and q: "\<nexists>r. q = p @ i # r"
  shows "tree (put_word T t i e) root q = tree T root q"
  using q
proof (induction q rule: rev_induct)
  case Nil
  then show ?case by simp
next
  case (snoc j q)
  have IH: "tree (put_word T t i e) root q = tree T root q"
    using snoc.prems by (intro snoc.IH) auto
  have same: "put_word T t i e u j = T u j" if "tree T root q = Some u" for u
  proof -
    have "u = t \<Longrightarrow> q = p" using one_pathD [OF one that] t by auto
    then show ?thesis using snoc.prems by (intro put_word_simps(2)) auto
  qed
  have "tree (put_word T t i e) root (q @ [j]) = Some u \<longleftrightarrow> tree T root (q @ [j]) = Some u" for u
    unfolding tree_snoc IH using same by (metis (no_types, lifting))
  then show ?case by (metis option.exhaust)
qed

lemma tree_below:
  "tree T root (p @ i # r) = Some u \<Longrightarrow> \<exists>v. tree T root (p @ [i]) = Some v"
  by (auto simp: tree_def table_at_append split: option.splits if_splits)

lemma tree_write_leaf:
  assumes one: "one_path T root" and t: "tree T root p = Some t"
    and e: "length p < 3 \<Longrightarrow> \<not> is_table (T t i) \<and> \<not> is_table e"
  shows "tree (put_word T t i e) root = tree T root"
proof
  fix q
  show "tree (put_word T t i e) root q = tree T root q"
  proof (cases "\<exists>r. q = p @ i # r")
    case False
    then show ?thesis by (rule tree_write_other [OF one t])
  next
    case True
    then obtain r where q: "q = p @ i # r" by blast
    have t': "tree (put_word T t i e) root p = Some t"
      using tree_write_other [OF one t] t by auto
    have "tree T root (p @ [i]) = None" and "tree (put_word T t i e) root (p @ [i]) = None"
      using e t t' by (auto simp: tree_snoc put_word_simps simp flip: not_Some_eq)
    then show ?thesis unfolding q
      using tree_below [of T root p i r] tree_below [of "put_word T t i e" root p i r]
      by (metis not_None_eq)
  qed
qed

text \<open>Linking a table that is not in the tree and whose entries are no tables.\<close>

lemma tree_link:
  assumes one: "one_path T root" and t: "tree T root p = Some t" and p: "length p < 3" and i: "i < 512"
    and old: "\<not> is_table (T t i)" and e: "is_table e" and blank: "\<And>j. j < 512 \<Longrightarrow> \<not> is_table (T (next_table e) j)"
    and fresh: "next_table e \<notin> ran (tree T root)"
  shows "tree (put_word T t i e) root = (tree T root)(p @ [i] \<mapsto> next_table e)"
proof
  fix q
  let ?T = "put_word T t i e"
  have t': "tree ?T root p = Some t" using tree_write_other [OF one t] t by auto
  have ne: "next_table e \<noteq> t" using fresh t by (auto simp: ran_def)
  have link: "tree ?T root (p @ [i]) = Some (next_table e)"
    using t' p i e by (auto simp: tree_snoc put_word_simps)
  consider "\<nexists>r. q = p @ i # r" | "q = p @ [i]" | j r where "q = p @ i # j # r"
    by (metis neq_Nil_conv)
  then show "tree ?T root q = ((tree T root)(p @ [i] \<mapsto> next_table e)) q"
  proof cases
    case 1
    then show ?thesis using tree_write_other [OF one t] by auto
  next
    case 2
    then show ?thesis using link by simp
  next
    case 3
    have "tree T root (p @ [i]) = None" using old t by (auto simp: tree_snoc simp flip: not_Some_eq)
    then have "tree T root q = None" unfolding 3 using tree_below by (metis not_None_eq)
    moreover have "tree ?T root ((p @ [i]) @ [j]) = None"
      using link blank ne by (auto simp: tree_snoc put_word_simps simp flip: not_Some_eq simp del: append_assoc)
    then have "tree ?T root q = None" unfolding 3 using tree_below [of ?T root "p @ [i]" j r]
      by (metis append_Cons append_Nil append_assoc not_None_eq)
    ultimately show ?thesis using 3 by simp
  qed
qed

text \<open>Unlinking a table whose entries are no tables.\<close>

lemma tree_unlink:
  assumes one: "one_path T root" and t: "tree T root p = Some t"
    and c: "tree T root (p @ [i]) = Some c" and blank: "length p < 2 \<Longrightarrow> \<forall>j < 512. \<not> is_table (T c j)"
    and e: "\<not> is_table e"
  shows "tree (put_word T t i e) root = (tree T root)(p @ [i] := None)"
proof
  fix q
  let ?T = "put_word T t i e"
  have t': "tree ?T root p = Some t" using tree_write_other [OF one t] t by auto
  have link: "tree ?T root (p @ [i]) = None"
    using t' e by (auto simp: tree_snoc put_word_simps simp flip: not_Some_eq)
  consider "\<nexists>r. q = p @ i # r" | "q = p @ [i]" | j r where "q = p @ i # j # r"
    by (metis neq_Nil_conv)
  then show "tree ?T root q = ((tree T root)(p @ [i] := None)) q"
  proof cases
    case 1
    then show ?thesis using tree_write_other [OF one t] by auto
  next
    case 2
    then show ?thesis using link by simp
  next
    case 3
    have "tree ?T root q = None" unfolding 3 using tree_below link by (metis not_None_eq)
    moreover have "tree T root ((p @ [i]) @ [j]) = None"
      using c blank by (auto simp: tree_snoc simp flip: not_Some_eq simp del: append_assoc)
    then have "tree T root q = None" unfolding 3 using tree_below [of T root "p @ [i]" j r]
      by (metis append_Cons append_Nil append_assoc not_None_eq)
    ultimately show ?thesis using 3 by simp
  qed
qed

section \<open>The walk of the processor\<close>

text \<open>
  The entries on the way from a table to the page of an address, if every one of them is
  present. The walk ends at the last level or, below the root, at a huge page (bit 7).
\<close>

fun hw_walk :: "memory \<Rightarrow> VAddress \<Rightarrow> u64 list \<Rightarrow> usize list \<Rightarrow> u64 list option" where
  "hw_walk T t es [] = None"
| "hw_walk T t es (i # is) =
     (let e = T t i in
      if \<not> bit e 0 then None
      else if is = [] \<or> es \<noteq> [] \<and> bit e 7 then Some (es @ [e])
      else hw_walk T (next_table e) (es @ [e]) is)"

definition indices :: "VAddress \<Rightarrow> usize list" where
  "indices va = [table_index 3 va, table_index 2 va, table_index 1 va, table_index 0 va]"

text \<open>
  The translation of an address: the physical address, and whether it can be written, used
  from user mode, and executed; each level can take a right away.
\<close>

type_synonym access = "PAddress \<times> bool \<times> bool \<times> bool"

definition page_access :: "VAddress \<Rightarrow> u64 list \<Rightarrow> access" where
  "page_access va es =
     (let k = (if length es = 2 then 30 else if length es = 3 then 21 else 12) in
      (last es AND mask 52 AND NOT (mask k) OR va AND mask k,
       \<forall>e \<in> set es. bit e 1, \<forall>e \<in> set es. bit e 2, \<forall>e \<in> set es. \<not> bit e 63))"

definition translate :: "memory \<Rightarrow> VAddress \<Rightarrow> VAddress \<Rightarrow> access option" where
  "translate T root va = map_option (page_access va) (hw_walk T root [] (indices va))"

lemma table_index_less [simp]: "table_index l va < 512"
proof -
  have m: "(0x1FF :: usize) = mask 9" by (simp add: mask_eq_exp_minus_1)
  have "unat (table_index l va) < 2 ^ 9"
    unfolding table_index_def m unat_and_mask by simp
  then show ?thesis by (simp add: word_less_nat_alt)
qed

lemma indices_bounds [simp]: "length (indices va) = 4" "i \<in> set (indices va) \<Longrightarrow> i < 512"
  by (auto simp: indices_def)

section \<open>Well-formed tables\<close>

text \<open>
  What an entry of an inner table can be: a link to a table, which is present with all
  rights; nothing; or, below the root, a huge page, present or not.
\<close>

definition entry_ok :: "bool \<Rightarrow> u64 \<Rightarrow> bool" where
  "entry_ok at_root e \<longleftrightarrow>
     (at_root \<longrightarrow> \<not> bit e 7) \<and>
     (if bit e 52 then bit e 7 \<or> bit e 0 \<and> bit e 1 \<and> bit e 2 \<and> \<not> bit e 63 else \<not> bit e 0)"

definition tables_ok :: "memory \<Rightarrow> VAddress \<Rightarrow> bool" where
  "tables_ok T root \<longleftrightarrow>
     one_path T root \<and>
     (\<forall>p t i. tree T root p = Some t \<and> length p < 3 \<and> i < 512 \<longrightarrow> entry_ok (p = []) (T t i))"

lemma tables_okD:
  assumes "tables_ok T root"
  shows "one_path T root"
    and "tree T root p = Some t \<Longrightarrow> length p < 3 \<Longrightarrow> i < 512 \<Longrightarrow> entry_ok (p = []) (T t i)"
  using assms by (auto simp: tables_ok_def)

lemma entry_ok_present:
  assumes "entry_ok at_root e" and "bit e 0" and "at_root \<or> \<not> bit e 7"
  shows "is_table e"
  using assms by (auto simp: entry_ok_def is_table_def split: if_splits)

lemma entry_ok_table: "entry_ok at_root e \<Longrightarrow> is_table e \<Longrightarrow> bit e 0 \<and> bit e 1 \<and> bit e 2 \<and> \<not> bit e 63"
  by (auto simp: entry_ok_def is_table_def)

text \<open>The walk follows the tree.\<close>

lemma hw_walk_step:
  assumes ok: "tables_ok T root" and t: "tree T root p = Some t" and es: "es = [] \<longleftrightarrow> p = []"
    and len: "length p < 3" and i: "i < 512" and pr: "bit (T t i) 0" and huge: "\<not> (es \<noteq> [] \<and> bit (T t i) 7)"
  shows "tree T root (p @ [i]) = Some (next_table (T t i))"
proof -
  have "is_table (T t i)"
    using tables_okD(2) [OF ok t len i] pr huge es by (intro entry_ok_present) auto
  then show ?thesis using t len i by (auto simp: tree_snoc)
qed

lemma hw_walk_cong:
  assumes ok: "tables_ok T root" and t: "tree T root p = Some t" and es: "es = [] \<longleftrightarrow> p = []"
    and len: "length p + length is = 4" and "\<forall>i \<in> set is. i < 512"
    and same: "\<And>q j r u. q @ j # r = p @ is \<Longrightarrow> tree T root q = Some u \<Longrightarrow> T' u j = T u j"
  shows "hw_walk T' t es is = hw_walk T t es is"
  using t es len \<open>\<forall>i \<in> set is. i < 512\<close> same
proof (induction "is" arbitrary: p t es)
  case Nil
  then show ?case by simp
next
  case (Cons i "is")
  have w: "T' t i = T t i" using Cons.prems(1,5) by blast
  show ?case
  proof (cases "bit (T t i) 0 \<and> \<not> (is = [] \<or> es \<noteq> [] \<and> bit (T t i) 7)")
    case False
    then show ?thesis by (auto simp: w Let_def)
  next
    case True
    have "length p < 3" using True Cons.prems(3) by (cases "is") auto
    then have n: "tree T root (p @ [i]) = Some (next_table (T t i))"
      using True Cons.prems by (intro hw_walk_step [OF ok Cons.prems(1,2)]) auto
    have "hw_walk T' (next_table (T t i)) (es @ [T t i]) is = hw_walk T (next_table (T t i)) (es @ [T t i]) is"
      using Cons.prems by (intro Cons.IH [OF n]) auto
    then show ?thesis using True by (auto simp: w Let_def)
  qed
qed

definition rights :: "u64 list \<Rightarrow> bool" where
  "rights es \<longleftrightarrow> (\<forall>e \<in> set es. bit e 1 \<and> bit e 2 \<and> \<not> bit e 63)"

lemma hw_walk_tree:
  assumes ok: "tables_ok T root" and t: "tree T root p = Some t"
  shows "\<exists>es. length es = length p \<and> rights es
     \<and> (\<forall>is. is \<noteq> [] \<longrightarrow> hw_walk T root [] (p @ is) = hw_walk T t es is)"
  using t
proof (induction p arbitrary: t rule: rev_induct)
  case Nil
  then show ?case by (simp add: rights_def)
next
  case (snoc i p)
  then obtain u where u: "tree T root p = Some u" and p: "length p < 3" and i: "i < 512"
    and tab: "is_table (T u i)" and t: "t = next_table (T u i)" by (auto simp: tree_snoc)
  from snoc.IH [OF u] obtain es where es: "length es = length p" "rights es"
    "\<forall>is. is \<noteq> [] \<longrightarrow> hw_walk T root [] (p @ is) = hw_walk T u es is" by auto
  have e: "bit (T u i) 0" "bit (T u i) 1" "bit (T u i) 2" "\<not> bit (T u i) 63" "\<not> bit (T u i) 7"
    using entry_ok_table [OF tables_okD(2) [OF ok u p i] tab] tab by (simp_all add: is_table_def)
  have "hw_walk T root [] (p @ i # is) = hw_walk T t (es @ [T u i]) is" if "is \<noteq> []" for "is"
    using es(3) that e by (simp add: Let_def t)
  moreover have "length (es @ [T u i]) = length (p @ [i])" "rights (es @ [T u i])"
    using es e by (auto simp: rights_def)
  ultimately show ?case by (intro exI [of _ "es @ [T u i]"]) simp
qed

text \<open>The walk is the same for every path that does not use the entry that is written.\<close>

lemma hw_walk_put_other:
  assumes ok: "tables_ok T root" and t: "tree T root p = Some t"
    and "is": "length is = 4" "\<forall>j \<in> set is. j < 512" and other: "\<nexists>r. is = p @ i # r"
  shows "hw_walk (put_word T t i e) root [] is = hw_walk T root [] is"
proof (rule hw_walk_cong [OF ok tree_Nil])
  fix q j r u
  assume q: "q @ j # r = [] @ is" and u: "tree T root q = Some u"
  have "u = t \<Longrightarrow> q = p" using one_pathD [OF tables_okD(1) [OF ok] u] t by auto
  then show "put_word T t i e u j = T u j" using q other by (intro put_word_simps(2)) auto
qed (use "is" in auto)

lemma tables_ok_put:
  assumes ok: "tables_ok T root" and one: "one_path (put_word T t i e) root"
    and t: "tree T root p = Some t" and e: "length p < 3 \<Longrightarrow> entry_ok (p = []) e"
    and sub: "\<And>q u. q \<noteq> p @ [i] \<Longrightarrow> tree (put_word T t i e) root q = Some u \<Longrightarrow> tree T root q = Some u"
    and new: "\<And>u j. tree (put_word T t i e) root (p @ [i]) = Some u \<Longrightarrow> length p < 2 \<Longrightarrow> j < 512 \<Longrightarrow>
      u \<noteq> t \<and> entry_ok False (T u j)"
  shows "tables_ok (put_word T t i e) root"
  unfolding tables_ok_def
proof (intro conjI allI impI one)
  fix q u and j :: usize
  assume a: "tree (put_word T t i e) root q = Some u \<and> length q < 3 \<and> j < 512"
  show "entry_ok (q = []) (put_word T t i e u j)"
  proof (cases "q = p @ [i]")
    case True
    then have "u \<noteq> t \<and> entry_ok False (T u j)" using a by (intro new) auto
    then show ?thesis using True by (simp add: put_word_simps)
  next
    case False
    then have u: "tree T root q = Some u" using sub a by blast
    show ?thesis
    proof (cases "u = t \<and> j = i")
      case True
      then have "q = p" using one_pathD [OF tables_okD(1) [OF ok] u] t by auto
      then show ?thesis using e a True by (simp add: put_word_simps)
    next
      case False
      then have "put_word T t i e u j = T u j" by (intro put_word_simps(2)) auto
      then show ?thesis using tables_okD(2) [OF ok u] a by simp
    qed
  qed
qed

text \<open>Writing an entry of a page table of the last level.\<close>

lemma put_leaf:
  assumes ok: "tables_ok T root" and t: "tree T root p = Some t" and p: "length p = 3" and i: "i < 512"
  shows "tree (put_word T t i e) root = tree T root" and "tables_ok (put_word T t i e) root"
    and "length is = 4 \<Longrightarrow> \<forall>j \<in> set is. j < 512 \<Longrightarrow> is \<noteq> p @ [i] \<Longrightarrow>
      hw_walk (put_word T t i e) root [] is = hw_walk T root [] is"
    and "\<exists>es. length es = 3 \<and> rights es
      \<and> hw_walk (put_word T t i e) root [] (p @ [i]) = (if bit e 0 then Some (es @ [e]) else None)"
proof -
  note one = tables_okD(1) [OF ok]
  show tr: "tree (put_word T t i e) root = tree T root"
    using p by (intro tree_write_leaf [OF one t]) simp
  show ok': "tables_ok (put_word T t i e) root"
    by (rule tables_ok_put [OF ok _ t]) (use one p in \<open>auto simp: one_path_def tr\<close>)
  show "hw_walk (put_word T t i e) root [] is = hw_walk T root [] is"
    if "length is = 4" "\<forall>j \<in> set is. j < 512" "is \<noteq> p @ [i]"
    using that p by (intro hw_walk_put_other [OF ok t]) auto
  from hw_walk_tree [OF ok', of p t] t obtain es where
    "length es = length p" "rights es" "hw_walk (put_word T t i e) root [] (p @ [i]) = hw_walk (put_word T t i e) t es [i]"
    unfolding tr by blast
  then show "\<exists>es. length es = 3 \<and> rights es
      \<and> hw_walk (put_word T t i e) root [] (p @ [i]) = (if bit e 0 then Some (es @ [e]) else None)"
    using p by (intro exI [of _ es]) (simp add: put_word_simps Let_def)
qed

text \<open>Linking a new table: the processor sees no difference, since its entries are not present.\<close>

lemma put_link:
  assumes ok: "tables_ok T root" and t: "tree T root p = Some t" and p: "length p < 3" and i: "i < 512"
    and old: "\<not> bit (T t i) 52" and e: "is_table e" "entry_ok (p = []) e"
    and blank: "\<And>j. j < 512 \<Longrightarrow> \<not> bit (T (next_table e) j) 52 \<and> \<not> bit (T (next_table e) j) 0"
    and fresh: "next_table e \<notin> ran (tree T root)"
  shows "tree (put_word T t i e) root = (tree T root)(p @ [i] \<mapsto> next_table e)"
    and "tables_ok (put_word T t i e) root"
    and "length is = 4 \<Longrightarrow> \<forall>j \<in> set is. j < 512 \<Longrightarrow>
      hw_walk (put_word T t i e) root [] is = hw_walk T root [] is"
proof -
  let ?T = "put_word T t i e"
  note one = tables_okD(1) [OF ok]
  show tr: "tree ?T root = (tree T root)(p @ [i] \<mapsto> next_table e)"
    using old blank by (intro tree_link [OF one t p i _ e(1) _ fresh]) (auto simp: is_table_def)
  have "one_path ?T root"
    unfolding one_path_def tr using one fresh
    by (auto simp: one_path_def inj_on_def ran_def dom_def)
  moreover have "next_table e \<noteq> t" using fresh t by (auto simp: ran_def)
  ultimately show ok': "tables_ok ?T root"
    using e(2) blank by (intro tables_ok_put [OF ok _ t]) (auto simp: tr entry_ok_def split: if_splits)
  assume "is": "length is = 4" "\<forall>j \<in> set is. j < 512"
  show "hw_walk ?T root [] is = hw_walk T root [] is"
  proof (cases "\<exists>r. is = p @ i # r")
    case False
    then show ?thesis using "is" by (intro hw_walk_put_other [OF ok t]) auto
  next
    case True
    then obtain r where r: "is = p @ i # r" by blast
    then have rn: "r \<noteq> []" and rb: "hd r < 512" using "is" p by (cases r; auto)+
    from hw_walk_tree [OF ok t] obtain es where "hw_walk T root [] is = hw_walk T t es (i # r)"
      unfolding r by blast
    moreover have "\<not> bit (T t i) 0" using tables_okD(2) [OF ok t p i] old by (simp add: entry_ok_def)
    ultimately have "hw_walk T root [] is = None" by simp
    moreover from hw_walk_tree [OF ok', of "p @ [i]" "next_table e"] obtain es'
      where "hw_walk ?T root [] is = hw_walk ?T (next_table e) es' r"
      unfolding r tr using rn by auto
    then have "hw_walk ?T root [] is = None"
      using blank [OF rb] rn \<open>next_table e \<noteq> t\<close> by (cases r) (simp_all add: put_word_simps Let_def)
    ultimately show ?thesis by simp
  qed
qed

text \<open>
  Unlinking a table none of whose entries is present: again no difference for the processor.
\<close>

lemma put_unlink:
  assumes ok: "tables_ok T root" and t: "tree T root p = Some t" and c: "tree T root (p @ [i]) = Some c"
    and blank: "\<And>j. j < 512 \<Longrightarrow> \<not> bit (T c j) 0"
    and e: "\<not> bit e 52" "\<not> bit e 0" "p = [] \<Longrightarrow> \<not> bit e 7"
  shows "tree (put_word T t i e) root = (tree T root)(p @ [i] := None)"
    and "tables_ok (put_word T t i e) root"
    and "length is = 4 \<Longrightarrow> \<forall>j \<in> set is. j < 512 \<Longrightarrow>
      hw_walk (put_word T t i e) root [] is = hw_walk T root [] is"
proof -
  let ?T = "put_word T t i e"
  note one = tables_okD(1) [OF ok]
  have p: "length p < 3" and i: "i < 512" using c by (auto simp: tree_snoc)
  have "\<not> is_table (T c j)" if "length p < 2" "j < 512" for j
    using entry_ok_table [OF tables_okD(2) [OF ok c, of j]] that blank by auto
  then show tr: "tree ?T root = (tree T root)(p @ [i] := None)"
    using e by (intro tree_unlink [OF one t c]) (auto simp: is_table_def)
  have "one_path ?T root"
    unfolding one_path_def tr using one by (auto simp: one_path_def inj_on_def)
  then show ok': "tables_ok ?T root"
    using e by (intro tables_ok_put [OF ok _ t]) (auto simp: tr entry_ok_def split: if_splits)
  assume "is": "length is = 4" "\<forall>j \<in> set is. j < 512"
  show "hw_walk ?T root [] is = hw_walk T root [] is"
  proof (cases "\<exists>r. is = p @ i # r")
    case False
    then show ?thesis using "is" by (intro hw_walk_put_other [OF ok t]) auto
  next
    case True
    then obtain r where r: "is = p @ i # r" by blast
    then have rn: "r \<noteq> []" and rb: "hd r < 512" using "is" p by (cases r; auto)+
    from hw_walk_tree [OF ok c] obtain es where "hw_walk T root [] is = hw_walk T c es r"
      unfolding r using rn by auto
    then have "hw_walk T root [] is = None"
      using blank [OF rb] rn by (cases r) (simp_all add: Let_def)
    moreover from hw_walk_tree [OF ok', of p t] t obtain es'
      where "hw_walk ?T root [] is = hw_walk ?T t es' (i # r)"
      unfolding r tr by auto
    then have "hw_walk ?T root [] is = None" using e by (simp add: put_word_simps)
    ultimately show ?thesis by simp
  qed
qed

text \<open>Memory that is no table of the tree does not matter.\<close>

lemma tree_fresh:
  assumes "f \<notin> ran (tree T root)"
  shows "tree (T(f := w)) root = tree T root"
proof
  fix q
  show "tree (T(f := w)) root q = tree T root q"
  proof (induction q rule: rev_induct)
    case (snoc j q)
    have "(T(f := w)) u = T u" if "tree T root q = Some u" for u
      using that assms by (auto simp: ran_def)
    then have "tree (T(f := w)) root (q @ [j]) = Some u \<longleftrightarrow> tree T root (q @ [j]) = Some u" for u
      unfolding tree_snoc snoc.IH by (metis (no_types, lifting))
    then show ?case by (metis option.exhaust)
  qed simp
qed

lemma walk_fresh:
  assumes ok: "tables_ok T root" and f: "f \<notin> ran (tree T root)"
  shows "tables_ok (T(f := w)) root"
    and "length is = 4 \<Longrightarrow> \<forall>j \<in> set is. j < 512 \<Longrightarrow> hw_walk (T(f := w)) root [] is = hw_walk T root [] is"
proof -
  have same: "(T(f := w)) u = T u" if "tree T root q = Some u" for q u
    using that f by (auto simp: ran_def)
  show "tables_ok (T(f := w)) root"
    using ok f by (auto simp: tables_ok_def one_path_def tree_fresh [OF f] ran_def)
  show "hw_walk (T(f := w)) root [] is = hw_walk T root [] is" if "length is = 4" "\<forall>j \<in> set is. j < 512"
    using that same by (intro hw_walk_cong [OF ok tree_Nil]) auto
qed

end
