(* ===== verification/Page_Mapping.thy ===== *)
theory Page_Mapping
  imports Page_Tables
begin

text \<open>
  Correctness of the page manager. Its invariant ties the tables to the physical memory
  manager: the tables are well-formed, and their pages are held, that is, managed and not
  free. Mapping a page then changes the translation of that page and of no other, and
  unmapping takes it away and returns the pages of tables that are no longer used.
\<close>

section \<open>The invariant\<close>

definition table_frames :: "memory \<Rightarrow> VAddress \<Rightarrow> PAddress set" where
  "table_frames T root = direct_map_to_physical_address ` ran (tree T root)"

definition pt_inv :: "PageManager \<Rightarrow> nat \<Rightarrow> nat set \<Rightarrow> paging_state \<Rightarrow> bool" where
  "pt_inv self n M st \<longleftrightarrow>
     tables_ok (tables st) (pml4 self) \<and>
     holds (pmm_ok n (pm_manager st)) (pmm_free_set n (pm_manager st))
       (unat (memory_size (pm_manager st))) M (table_frames (tables st) (pml4 self))"

text \<open>The translations of two states agree.\<close>

definition same_walks :: "PageManager \<Rightarrow> paging_state \<Rightarrow> paging_state \<Rightarrow> bool" where
  "same_walks self st st' \<longleftrightarrow>
     (\<forall>is. length is = 4 \<and> (\<forall>j \<in> set is. j < 512) \<longrightarrow>
        hw_walk (tables st') (pml4 self) [] is = hw_walk (tables st) (pml4 self) [] is)"

lemma same_walks_refl [simp]: "same_walks self st st"
  by (simp add: same_walks_def)

lemma same_walks_trans: "same_walks self a b \<Longrightarrow> same_walks self b c \<Longrightarrow> same_walks self a c"
  by (simp add: same_walks_def)

lemma same_walks_translate:
  "same_walks self st st' \<Longrightarrow> translate (tables st') (pml4 self) va = translate (tables st) (pml4 self) va"
  by (simp add: same_walks_def translate_def)

lemma aligned_iff: "a AND mask 12 = 0 \<longleftrightarrow> unat a mod 4096 = 0" for a :: usize
proof -
  have "a AND mask 12 = 0 \<longleftrightarrow> unat (a AND mask 12) = 0" by (simp only: unat_eq_0)
  then show ?thesis by (simp add: unat_and_mask)
qed

lemma unat_high_bits: "unat a < 2 ^ k \<Longrightarrow> k \<le> i \<Longrightarrow> \<not> bit a i" for a :: usize
proof
  assume a: "unat a < 2 ^ k" "k \<le> i" and b: "bit a i"
  have "unat a < 2 ^ i" using a(1) power_increasing [OF a(2), of "2 :: nat"] by linarith
  then have "unat a div 2 ^ i = 0" by simp
  moreover have "bit (unat a) i" using b by (simp add: bit_unsigned_iff bit_imp_le_length)
  ultimately show False by (simp add: bit_iff_odd)
qed

lemma aligned_low_bits: "unat a mod 4096 = 0 \<Longrightarrow> i < 12 \<Longrightarrow> \<not> bit a i" for a :: usize
proof -
  assume "unat a mod 4096 = 0" and i: "i < 12"
  then have "\<not> bit (a AND mask 12) i" by (simp add: aligned_iff [symmetric])
  then show ?thesis using i by (simp add: bit_simps)
qed

lemma frame_self:
  assumes "unat a mod 4096 = 0" and "unat a < 2 ^ 52"
  shows "a AND 0x000FFFFFFFFFF000 = (a :: usize)"
  by (rule bit_eqI) (use aligned_low_bits [OF assms(1)] unat_high_bits [OF assms(2)] in
    \<open>auto simp: bit_and_iff not_less [symmetric]\<close>)

lemma pt_inv_path:
  assumes "pt_inv self n M st" and "tree (tables st) (pml4 self) p = Some t"
  shows "unat (direct_map_to_physical_address t) mod 4096 = 0"
    and "unat (direct_map_to_physical_address t) < 2 ^ 52"
proof -
  have "direct_map_to_physical_address t \<in> table_frames (tables st) (pml4 self)"
    using assms(2) by (auto simp: table_frames_def ran_def)
  then show "unat (direct_map_to_physical_address t) mod 4096 = 0"
    and "unat (direct_map_to_physical_address t) < 2 ^ 52"
    using assms(1) holds_member unfolding pt_inv_def by blast+
qed

section \<open>Linking a new table\<close>

definition is_huge :: "u64 \<Rightarrow> bool" where
  "is_huge e \<longleftrightarrow> bit e 52 \<and> bit e 7"

text \<open>No inner entry on the way to an address is a huge page.\<close>

definition no_huge :: "memory \<Rightarrow> VAddress \<Rightarrow> usize list \<Rightarrow> bool" where
  "no_huge T root is \<longleftrightarrow>
     (\<forall>q j r t. is = q @ j # r \<and> r \<noteq> [] \<and> tree T root q = Some t \<longrightarrow> \<not> is_huge (T t j))"

definition grows :: "PageManager \<Rightarrow> paging_state \<Rightarrow> paging_state \<Rightarrow> bool" where
  "grows self st st' \<longleftrightarrow>
     same_walks self st st' \<and>
     (\<forall>is. (\<forall>j \<in> set is. j < 512) \<and> no_huge (tables st) (pml4 self) is \<longrightarrow> no_huge (tables st') (pml4 self) is)"

lemma grows_refl [simp]: "grows self st st"
  by (simp add: grows_def)

lemma grows_trans: "grows self a b \<Longrightarrow> grows self b c \<Longrightarrow> grows self a c"
  by (auto simp: grows_def intro: same_walks_trans)

definition link_word :: "PAddress \<Rightarrow> u64" where
  "link_word a = (a AND 0x000FFFFFFFFFF000) OR 0x0010000000000007"

lemma bit_link_word: "bit (link_word a) i \<longleftrightarrow> i < 3 \<or> i = 52 \<or> 12 \<le> i \<and> i < 52 \<and> bit a i"
proof -
  have eq: "(0x0010000000000007 :: u64) = push_bit 52 1 OR mask 3"
    by (simp add: mask_eq_exp_minus_1 push_bit_of_1)
  show ?thesis
    unfolding link_word_def eq by (auto simp: bit_or_iff bit_and_iff bit_push_bit_iff bit_1_iff bit_mask_iff)
qed

lemma link_word:
  "is_table (link_word a)" "entry_ok at_root (link_word a)"
  "unat a mod 4096 = 0 \<Longrightarrow> unat a < 2 ^ 52 \<Longrightarrow> frame (link_word a) = a"
  "unat a mod 4096 = 0 \<Longrightarrow> unat a < 2 ^ 52 \<Longrightarrow> next_table (link_word a) = physical_address_to_direct_map a"
proof -
  show "is_table (link_word a)" "entry_ok at_root (link_word a)"
    by (simp_all add: is_table_def entry_ok_def bit_link_word)
  assume a: "unat a mod 4096 = 0" "unat a < 2 ^ 52"
  have "frame (link_word a) = a AND 0x000FFFFFFFFFF000"
    unfolding frame_def by (rule bit_eqI) (auto simp: bit_and_iff bit_link_word)
  then show "frame (link_word a) = a" using frame_self [OF a] by simp
  then show "next_table (link_word a) = physical_address_to_direct_map a" by (simp add: next_table_def)
qed

definition new_table :: "(u64 \<Rightarrow> u64) \<Rightarrow> VAddress \<Rightarrow> memory \<Rightarrow> memory" where
  "new_table init_child f T = T(f := (\<lambda>j. if j < 512 then init_child (T f j) else T f j))"

definition linked_table :: "(u64 \<Rightarrow> u64) \<Rightarrow> PhysicalMemoryManager \<Rightarrow> PAddress \<Rightarrow> slot \<Rightarrow> paging_state \<Rightarrow> paging_state"
where
  "linked_table init_child pm a r st =
     st\<lparr>pm_manager := pm,
        tables := put_word (new_table init_child (physical_address_to_direct_map a) (tables st)) (fst r) (snd r) (link_word a)\<rparr>"

definition blank_init :: "(u64 \<Rightarrow> u64) \<Rightarrow> bool" where
  "blank_init init_child \<longleftrightarrow>
     (\<forall>e. \<not> bit (init_child e) 52 \<and> \<not> bit (init_child e) 0 \<and> \<not> bit (init_child e) 7)"

lemma blank_inits: "blank_init PTE_init" "blank_init PDE_init" "blank_init PDPTE_init" "blank_init PML4E_init"
  by (simp_all add: blank_init_def PTE_init_def pde.init pdpte.init pml4e.init)

lemma link_ok:
  assumes inv: "pt_inv self n M st" and t: "tree (tables st) (pml4 self) p = Some t"
    and p: "length p < 3" and i: "i < 512" and old: "\<not> bit (tables st t i) 52"
    and al: "alloc n (pm_manager st) PAGE_SIZE PAGE_SHIFT = Ok (pm, a)" and ci: "blank_init init_child"
  defines "f \<equiv> physical_address_to_direct_map a"
  defines "st' \<equiv> linked_table init_child pm a (t, i) st"
  shows "pt_inv self n M st'" and "same_walks self st st'"
    and "tree (tables st') (pml4 self) = (tree (tables st) (pml4 self))(p @ [i] \<mapsto> f)"
    and "\<forall>j < 512. \<not> bit (tables st' f j) 0 \<and> \<not> bit (tables st' f j) 52" and "f \<noteq> t"
    and "tables st' t i = link_word a"
    and "\<And>q v j. tree (tables st') (pml4 self) q = Some v \<Longrightarrow> j < 512 \<Longrightarrow> is_huge (tables st' v j) \<Longrightarrow>
      tree (tables st) (pml4 self) q = Some v \<and> tables st v j = tables st' v j"
proof -
  let ?T = "tables st" and ?root = "pml4 self"
  let ?H = "table_frames ?T ?root"
  let ?T1 = "new_table init_child f ?T"
  have ok: "tables_ok ?T ?root" and h: "holds (pmm_ok n (pm_manager st)) (pmm_free_set n (pm_manager st))
      (unat (memory_size (pm_manager st))) M ?H"
    using inv by (simp_all add: pt_inv_def)
  note h' = frames.take_holds [OF h al]
  have a: "unat a mod 4096 = 0" "unat a < 2 ^ 52" using holds_member [OF h'(1)] by auto
  have nt: "next_table (link_word a) = f" using link_word(4) [OF a] by (simp add: f_def)
  have fresh: "f \<notin> ran (tree ?T ?root)"
    using h'(2) by (auto simp: table_frames_def f_def rev_image_eqI)
  then show ft: "f \<noteq> t" using t by (auto simp: ran_def)
  have tr1: "tree ?T1 ?root = tree ?T ?root" and ok1: "tables_ok ?T1 ?root"
    using tree_fresh [OF fresh] walk_fresh(1) [OF ok fresh] by (simp_all add: new_table_def)
  have t1: "tree ?T1 ?root p = Some t" and fresh1: "next_table (link_word a) \<notin> ran (tree ?T1 ?root)"
    using t fresh by (simp_all only: tr1 nt not_False_eq_True)
  have old1: "\<not> bit (?T1 t i) 52" using old ft by (simp add: new_table_def)
  have blank: "\<not> bit (?T1 (next_table (link_word a)) j) 52 \<and> \<not> bit (?T1 (next_table (link_word a)) j) 0"
    if "j < 512" for j
    using that ci by (simp add: nt new_table_def blank_init_def)
  have T': "tables st' = put_word ?T1 t i (link_word a)" and pm': "pm_manager st' = pm"
    by (simp_all add: st'_def linked_table_def f_def)
  note l = put_link [OF ok1 t1 p i old1 link_word(1,2) blank fresh1]
  show tr': "tree (tables st') ?root = (tree ?T ?root)(p @ [i] \<mapsto> f)"
    using l(1) by (simp add: T' tr1 nt)
  have "table_frames (tables st') ?root \<subseteq> insert a ?H"
    by (auto simp: table_frames_def tr' f_def ran_def)
  with l(2) show "pt_inv self n M st'"
    using holds_mono [OF h'(1)] by (simp add: pt_inv_def pm' T')
  show "same_walks self st st'"
    using l(3) walk_fresh(2) [OF ok fresh] by (simp add: same_walks_def T' new_table_def)
  show "\<forall>j < 512. \<not> bit (tables st' f j) 0 \<and> \<not> bit (tables st' f j) 52"
    using blank ft by (simp add: T' put_word_simps nt)
  show "tables st' t i = link_word a" by (simp add: T' put_word_simps)
  fix q v j
  assume q: "tree (tables st') ?root q = Some v" and j: "j < 512" and hu: "is_huge (tables st' v j)"
  have "v \<noteq> f" using hu blank [OF j] ft by (auto simp: T' put_word_simps nt is_huge_def)
  moreover have "(v, j) \<noteq> (t, i)" using hu by (auto simp: T' put_word_simps is_huge_def bit_link_word)
  ultimately have "?T v j = tables st' v j"
    by (auto simp: T' put_word_simps new_table_def)
  moreover have "tree ?T ?root q = Some v"
    using q \<open>v \<noteq> f\<close> unfolding tr' by (simp split: if_splits)
  ultimately show "tree ?T ?root q = Some v \<and> ?T v j = tables st' v j" by simp
qed

text \<open>The code's way of linking a table, with the present bit set afterwards, is \<open>linked_table\<close>.\<close>

lemma put_entry_simps:
  "put_entry (put_entry st r x) r y = put_entry st r y"
  "get_entry (put_entry st r x) r = x"
  "r' \<noteq> r \<Longrightarrow> get_entry (put_entry st r x) r' = get_entry st r'"
  "put_entry st r (get_entry st r) = st"
  "pm_manager (put_entry st r x) = pm_manager st"
  "tables (put_entry st r x) = put_word (tables st) (fst r) (snd r) x"
  by (auto simp: put_entry_def get_entry_def put_word_def prod_eq_iff)

context table_entry
begin

lemma create_linked:
  assumes al: "alloc n (pm_manager st) PAGE_SIZE PAGE_SHIFT = Ok (pm, a)"
    and ne: "physical_address_to_direct_map a \<noteq> fst r" and a: "unat a mod 4096 = 0"
  obtains st' where "create_table init_child init set_address n r (put_entry st r x) = Ok ((), st')"
    and "put_entry st' r (set_present (get_entry st' r) True) = linked_table init_child pm a r st"
proof -
  let ?f = "physical_address_to_direct_map a"
  let ?st = "init_table init_child ?f (put_entry st r x\<lparr>pm_manager := pm\<rparr>)"
  let ?e = "init (get_entry ?st r)"
  have "set_present (fst (set_address ?e a)) True = link_word a"
    using link(1) [of a] a by (simp add: aligned_iff link_word_def)
  moreover have "create_table init_child init set_address n r (put_entry st r x) =
      Ok ((), put_entry ?st r (fst (set_address ?e a)))"
    by (simp add: create_table_def alloc_page_table_def al put_entry_simps Let_def)
  moreover have "put_entry ?st r (link_word a) = linked_table init_child pm a r st"
    using ne by (auto simp: put_entry_def init_table_def linked_table_def new_table_def put_word_def
        MAX_ENTRY_def fun_upd_twist fun_eq_iff)
  ultimately show thesis using that by (simp add: put_entry_simps)
qed

lemma create_full:
  assumes "alloc n (pm_manager st) PAGE_SIZE PAGE_SHIFT = Err e"
  shows "create_table init_child init set_address n r (put_entry st r x) = Err (MemoryCacheRanOut, put_entry st r x)"
  using assms by (simp add: create_table_def alloc_page_table_def put_entry_simps)

lemma set_present_same: "bit e 0 \<Longrightarrow> set_present e True = e"
  by (rule bit_eqI) (simp add: set_present)

end

lemma link_grows:
  assumes "pt_inv self n M st" and "tree (tables st) (pml4 self) p = Some t"
    and "length p < 3" and "i < 512" and "\<not> bit (tables st t i) 52"
    and "alloc n (pm_manager st) PAGE_SIZE PAGE_SHIFT = Ok (pm, a)" and "blank_init init_child"
  shows "grows self st (linked_table init_child pm a (t, i) st)"
  unfolding grows_def
proof (intro conjI allI impI)
  show "same_walks self st (linked_table init_child pm a (t, i) st)" by (rule link_ok(2) [OF assms])
  fix "is"
  assume a: "(\<forall>j \<in> set is. j < 512) \<and> no_huge (tables st) (pml4 self) is"
  show "no_huge (tables (linked_table init_child pm a (t, i) st)) (pml4 self) is"
    unfolding no_huge_def
  proof (intro allI impI notI)
    fix q j r v
    assume q: "is = q @ j # r \<and> r \<noteq> [] \<and> tree (tables (linked_table init_child pm a (t, i) st)) (pml4 self) q = Some v"
      and h: "is_huge (tables (linked_table init_child pm a (t, i) st) v j)"
    have "j < 512" using a q by simp
    with link_ok(7) [OF assms _ this h] q h
    have "tree (tables st) (pml4 self) q = Some v" "is_huge (tables st v j)" by auto
    then show False using a q by (auto simp: no_huge_def)
  qed
qed

text \<open>What an inner entry on the way to an address can be when the walk creates tables.\<close>

lemma child_cases:
  assumes inv: "pt_inv self n M st" and t: "tree (tables st) (pml4 self) p = Some t"
    and p: "length p < 3" and i: "i < 512" and nh: "\<not> is_huge (tables st t i)"
  obtains (table) "is_table (tables st t i)" "bit (tables st t i) 0" "bit (tables st t i) 52" "\<not> bit (tables st t i) 7"
      "tree (tables st) (pml4 self) (p @ [i]) = Some (next_table (tables st t i))"
  | (create) pm a where "\<not> bit (tables st t i) 52" "alloc n (pm_manager st) PAGE_SIZE PAGE_SHIFT = Ok (pm, a)"
  | (full) e where "\<not> bit (tables st t i) 52" "alloc n (pm_manager st) PAGE_SIZE PAGE_SHIFT = Err e"
proof (cases "bit (tables st t i) 52")
  case True
  then have it: "is_table (tables st t i)" using nh by (simp add: is_huge_def is_table_def)
  moreover have "bit (tables st t i) 0"
    using entry_ok_table [OF tables_okD(2) [OF _ t p i] it] inv by (simp add: pt_inv_def)
  moreover have "tree (tables st) (pml4 self) (p @ [i]) = Some (next_table (tables st t i))"
    using t p i it by (auto simp: tree_snoc)
  ultimately show thesis using True by (intro table) (auto simp: is_table_def)
next
  case False
  have "pmm_ok n (pm_manager st)" using inv by (simp add: pt_inv_def holds_def)
  then have "alloc n (pm_manager st) PAGE_SIZE PAGE_SHIFT \<noteq> Panic"
    "alloc n (pm_manager st) PAGE_SIZE PAGE_SHIFT \<noteq> Diverge"
    using frames.take_ends by blast+
  then show thesis using False create full
    by (cases "alloc n (pm_manager st) PAGE_SIZE PAGE_SHIFT") auto
qed

section \<open>The walk that creates tables\<close>

text \<open>
  The way the manager reaches an entry of the next table: the state has grown, the path
  now exists, and the entry has been marked present.
\<close>

definition reached ::
  "PageManager \<Rightarrow> nat \<Rightarrow> nat set \<Rightarrow> (u64 \<Rightarrow> bool \<Rightarrow> u64) \<Rightarrow> usize list \<Rightarrow> usize \<Rightarrow> paging_state \<Rightarrow> slot paging \<Rightarrow> bool" where
  "reached self n M set_present p i st r \<longleftrightarrow>
     (case r of
        Ok (slot, st') \<Rightarrow> \<exists>st1. st' = put_entry st1 slot (set_present (get_entry st1 slot) True) \<and>
          pt_inv self n M st1 \<and> grows self st st1 \<and>
          tree (tables st1) (pml4 self) p = Some (fst slot) \<and> snd slot = i
      | Err (e, _) \<Rightarrow> e = MemoryCacheRanOut
      | _ \<Rightarrow> False)"

lemma PML4E_address: "PML4E_get_address e = (if bit e 52 then Some (frame e) else None)"
  by (simp add: PML4E_get_address_def PML4E_is_address_set_def frame_def)

lemma get_target_pdpte_create:
  assumes inv: "pt_inv self n M st" and va: "va AND NOT PAGE_MASK = 0"
  shows "reached self n M PDPTE_set_present [table_index 3 va] (table_index 2 va) st
    (get_target_pdpte self n va True True True st)"
proof -
  let ?t = "pml4 self" and ?i = "table_index 3 va" and ?j = "table_index 2 va"
  let ?r = "(pml4 self, table_index 3 va)"
  have e: "get_entry st ?r = tables st ?t ?i" by (simp add: get_entry_def)
  have "\<not> bit (tables st ?t ?i) 7"
    using tables_okD(2) [of _ _ "[]"] inv by (simp add: pt_inv_def entry_ok_def)
  then have nh: "\<not> is_huge (tables st ?t ?i)" by (simp add: is_huge_def)
  have len: "length ([] :: usize list) < 3" by simp
  show ?thesis
  proof (cases rule: child_cases [OF inv tree_Nil len table_index_less nh, case_names table create full])
    case table
    then have "get_target_pdpte self n va True True True st =
        Ok ((next_table (tables st ?t ?i), ?j),
          put_entry st (next_table (tables st ?t ?i), ?j) (PDPTE_set_present (get_entry st (next_table (tables st ?t ?i), ?j)) True))"
      using va put_entry_simps(4) [of st ?r] pml4e.set_present_same
      by (simp add: get_target_pdpte_def Let_def pml4e.is_address_set e PML4E_address next_table_def)
    then show ?thesis using inv table(5) by (auto simp: reached_def intro!: exI [of _ st])
  next
    case (create pm a)
    note l = link_ok [OF inv tree_Nil len table_index_less create(1,2) blank_inits(3)]
    let ?f = "physical_address_to_direct_map a" and ?st = "linked_table PDPTE_init pm a ?r st"
    have a: "unat a mod 4096 = 0" "unat a < 2 ^ 52"
      using pt_inv_path [OF l(1), of "[?i]" ?f] l(3) by simp_all
    obtain st' where c: "create_table PDPTE_init PML4E_init PML4E_set_address n ?r st = Ok ((), st')"
      and p: "put_entry st' ?r (PML4E_set_present (get_entry st' ?r) True) = ?st"
      using pml4e.create_linked [OF create(2) _ a(1), of ?r PDPTE_init "get_entry st ?r"] l(5)
      by (auto simp: put_entry_simps)
    have "get_entry ?st ?r = link_word a" using l(6) by (simp add: get_entry_def)
    then have "get_target_pdpte self n va True True True st =
        Ok ((?f, ?j), put_entry ?st (?f, ?j) (PDPTE_set_present (get_entry ?st (?f, ?j)) True))"
      using va create(1) c p link_word(3) [OF a]
      by (simp add: get_target_pdpte_def Let_def pml4e.is_address_set e PML4E_address bit_link_word)
    then show ?thesis using l(1,3) link_grows [OF inv tree_Nil len table_index_less create(1,2) blank_inits(3)]
      by (auto simp: reached_def intro!: exI [of _ ?st])
  next
    case (full err)
    have "create_table PDPTE_init PML4E_init PML4E_set_address n ?r st = Err (MemoryCacheRanOut, st)"
      using pml4e.create_full [OF full(2), of PDPTE_init ?r "get_entry st ?r"] by (simp only: put_entry_simps)
    then have "get_target_pdpte self n va True True True st = Err (MemoryCacheRanOut, st)"
      using va full by (simp add: get_target_pdpte_def Let_def pml4e.is_address_set e)
    then show ?thesis by (simp add: reached_def)
  qed
qed

text \<open>
  The step from an entry of an inner table to the next table, as the second and third level
  do it; \<open>K\<close> is what follows.
\<close>

context table_entry
begin

lemma descend:
  fixes K :: "PAddress \<Rightarrow> paging_state \<Rightarrow> 'b paging"
  assumes r: "reached self n M set_present p i st res" and p: "length p < 3" and i: "i < 512"
    and nh: "no_huge (tables st) (pml4 self) (p @ i # r)" "r \<noteq> []" "\<forall>j \<in> set (p @ i # r). j < 512"
    and ci: "blank_init init_child"
  defines "frag \<equiv> obind res (\<lambda>(slot, st).
      obind (if \<not> is_address_set (get_entry st slot)
             then obind (create_table init_child init set_address n slot st) (\<lambda>(_, st).
               Ok ((), put_entry st slot (set_present (get_entry st slot) True)))
             else Ok ((), st)) (\<lambda>(_, st).
      case get_address (get_entry st slot) of None \<Rightarrow> Panic | Some a \<Rightarrow> K a st))"
  shows "(\<exists>st1 a. frag = K a st1 \<and> pt_inv self n M st1 \<and> grows self st st1
      \<and> tree (tables st1) (pml4 self) (p @ [i]) = Some (physical_address_to_direct_map a))
    \<or> (\<exists>st'. frag = Err (MemoryCacheRanOut, st'))"
proof (cases res)
  case (Ok x)
  then obtain slot st' where res: "res = Ok (slot, st')" by (cases x) auto
  then obtain st1 where st': "st' = put_entry st1 slot (set_present (get_entry st1 slot) True)"
    and inv: "pt_inv self n M st1" and g: "grows self st st1"
    and t: "tree (tables st1) (pml4 self) p = Some (fst slot)" and si: "snd slot = i"
    using r by (auto simp: reached_def)
  then have e: "get_entry st1 slot = tables st1 (fst slot) i" and sl: "slot = (fst slot, i)"
    by (auto simp: get_entry_def)
  have "no_huge (tables st1) (pml4 self) (p @ i # r)"
    using g nh(1,3) unfolding grows_def by blast
  then have hu: "\<not> is_huge (tables st1 (fst slot) i)" using nh(2) t unfolding no_huge_def by blast
  have set52: "bit (set_present x True) 52 \<longleftrightarrow> bit x 52" for x by (simp add: set_present)
  show ?thesis
  proof (cases rule: child_cases [OF inv t p i hu, case_names table create full])
    case table
    then have "frag = K (frame (tables st1 (fst slot) i)) st1"
      by (simp add: frag_def res st' e set_present_same put_entry_simps(4) [of st1 slot, unfolded e] is_address_set
          get_address_table frame_def)
    then show ?thesis using inv g table(5) by (auto simp: next_table_def)
  next
    case (create pm a)
    note l = link_ok [OF inv t p i create(1,2) ci]
    let ?st = "linked_table init_child pm a slot st1"
    have a: "unat a mod 4096 = 0" "unat a < 2 ^ 52"
      using pt_inv_path [OF l(1), of "p @ [i]" "physical_address_to_direct_map a"] l(3) by simp_all
    obtain st'' where c: "create_table init_child init set_address n slot st' = Ok ((), st'')"
      and put: "put_entry st'' slot (set_present (get_entry st'' slot) True) = ?st"
      unfolding st' using create_linked [OF create(2) l(5) a(1)] by blast
    have "get_address (get_entry ?st slot) = Some a"
      using l(6) link_word(3) [OF a] by (simp add: get_entry_def si sl [symmetric] get_address_table bit_link_word frame_def)
    then have "frag = K a ?st"
      using c put create(1) by (simp add: frag_def res is_address_set st' put_entry_simps e set52)
    moreover have "grows self st ?st"
      using grows_trans [OF g link_grows [OF inv t p i create(1,2) ci]] by (simp only: sl [symmetric])
    ultimately show ?thesis
      using l(1,3) by (intro disjI1 exI [of _ ?st] exI [of _ a]) (simp add: sl [symmetric])
  next
    case (full err)
    have "create_table init_child init set_address n slot st' = Err (MemoryCacheRanOut, st')"
      unfolding st' by (rule create_full [OF full(2)])
    then have "frag = Err (MemoryCacheRanOut, st')"
      using full(1) by (simp add: frag_def res is_address_set st' put_entry_simps e set52)
    then show ?thesis by blast
  qed
next
  case (Err x)
  then show ?thesis using r by (cases x) (simp add: reached_def frag_def)
qed (use r in \<open>simp_all add: reached_def\<close>)

end

lemma indices_path:
  "no_huge T root (indices va) \<longleftrightarrow>
     no_huge T root ([table_index 3 va] @ table_index 2 va # [table_index 1 va, table_index 0 va])"
  "no_huge T root (indices va) \<longleftrightarrow>
     no_huge T root ([table_index 3 va, table_index 2 va] @ table_index 1 va # [table_index 0 va])"
  by (simp_all add: indices_def)

lemma get_target_pde_create:
  assumes inv: "pt_inv self n M st" and va: "va AND NOT PAGE_MASK = 0"
    and nh: "no_huge (tables st) (pml4 self) (indices va)"
  shows "reached self n M PDE_set_present [table_index 3 va, table_index 2 va] (table_index 1 va) st
    (get_target_pde self n va True True True None st)"
proof -
  let ?K = "\<lambda>a st. let pde = (physical_address_to_direct_map a, table_index 1 va) in
      Ok (pde, put_entry st pde (PDE_set_present (get_entry st pde) True))"
  have eq: "get_target_pde self n va True True True None st =
      obind (get_target_pdpte self n va True True True st) (\<lambda>(slot, st).
      obind (if \<not> PDPTE_is_address_set (get_entry st slot)
             then obind (create_table PDE_init PDPTE_init PDPTE_set_address n slot st) (\<lambda>(_, st).
               Ok ((), put_entry st slot (PDPTE_set_present (get_entry st slot) True)))
             else Ok ((), st)) (\<lambda>(_, st).
      case PDPTE_get_address (get_entry st slot) of None \<Rightarrow> Panic | Some a \<Rightarrow> ?K a st))"
    by (simp add: get_target_pde_def Let_def cong del: prod.case_cong_weak option.case_cong_weak if_weak_cong)
  have "length [table_index 3 va] < 3" and "[table_index 1 va, table_index 0 va] \<noteq> []"
    and "\<forall>j \<in> set ([table_index 3 va] @ table_index 2 va # [table_index 1 va, table_index 0 va]). j < 512"
    by simp_all
  from pdpte.descend [OF get_target_pdpte_create [OF inv va] this(1) table_index_less
      nh [unfolded indices_path(1)] this(2,3) blank_inits(2), of ?K, folded eq]
  show ?thesis by (auto simp: reached_def Let_def)
qed

lemma get_target_pte_create:
  assumes inv: "pt_inv self n M st" and va: "va AND NOT PAGE_MASK = 0"
    and nh: "no_huge (tables st) (pml4 self) (indices va)"
  obtains (ok) st1 t where "get_target_pte self n va True True None st = Ok ((t, table_index 0 va), st1)"
      "pt_inv self n M st1" "grows self st st1"
      "tree (tables st1) (pml4 self) [table_index 3 va, table_index 2 va, table_index 1 va] = Some t"
  | (full) st' where "get_target_pte self n va True True None st = Err (MemoryCacheRanOut, st')"
proof -
  let ?K = "\<lambda>a st. Ok ((physical_address_to_direct_map a, table_index 0 va), st)"
  have eq: "get_target_pte self n va True True None st =
      obind (get_target_pde self n va True True True None st) (\<lambda>(slot, st).
      obind (if \<not> PDE_is_address_set (get_entry st slot)
             then obind (create_table PTE_init PDE_init PDE_set_address n slot st) (\<lambda>(_, st).
               Ok ((), put_entry st slot (PDE_set_present (get_entry st slot) True)))
             else Ok ((), st)) (\<lambda>(_, st).
      case PDE_get_address (get_entry st slot) of None \<Rightarrow> Panic | Some a \<Rightarrow> ?K a st))"
    by (simp add: get_target_pte_def Let_def cong del: prod.case_cong_weak option.case_cong_weak if_weak_cong)
  have "length [table_index 3 va, table_index 2 va] < 3" and "[table_index 0 va] \<noteq> []"
    and "\<forall>j \<in> set ([table_index 3 va, table_index 2 va] @ table_index 1 va # [table_index 0 va]). j < 512"
    by simp_all
  from pde.descend [OF get_target_pde_create [OF inv va nh] this(1) table_index_less
      nh [unfolded indices_path(2)] this(2,3) blank_inits(1), of ?K, folded eq]
  show thesis using ok full by auto
qed

section \<open>Addresses and paths\<close>

lemma bit_table_index:
  "bit (table_index 0 va) j \<longleftrightarrow> j < 9 \<and> bit va (12 + j)"
  "bit (table_index 1 va) j \<longleftrightarrow> j < 9 \<and> bit va (21 + j)"
  "bit (table_index 2 va) j \<longleftrightarrow> j < 9 \<and> bit va (30 + j)"
  "bit (table_index 3 va) j \<longleftrightarrow> j < 9 \<and> bit va (39 + j)"
proof -
  have m: "(0x1FF :: usize) = mask 9" by (simp add: mask_eq_exp_minus_1)
  show "bit (table_index 0 va) j \<longleftrightarrow> j < 9 \<and> bit va (12 + j)" "bit (table_index 1 va) j \<longleftrightarrow> j < 9 \<and> bit va (21 + j)"
    "bit (table_index 2 va) j \<longleftrightarrow> j < 9 \<and> bit va (30 + j)" "bit (table_index 3 va) j \<longleftrightarrow> j < 9 \<and> bit va (39 + j)"
    unfolding table_index_def m by (auto simp: PAGE_SHIFT_def bit_simps)
qed

lemma indices_bits:
  assumes "indices va = indices va'" and "12 \<le> i" and "i < 48"
  shows "bit va i \<longleftrightarrow> bit va' i"
proof -
  have eq: "table_index 0 va = table_index 0 va'" "table_index 1 va = table_index 1 va'"
    "table_index 2 va = table_index 2 va'" "table_index 3 va = table_index 3 va'"
    using assms(1) by (simp_all add: indices_def)
  consider "i < 21" | "21 \<le> i \<and> i < 30" | "30 \<le> i \<and> i < 39" | "39 \<le> i" by linarith
  then show ?thesis
  proof cases
    case 1
    then show ?thesis using assms bit_table_index(1) [of va "i - 12"] bit_table_index(1) [of va' "i - 12"] eq(1) by auto
  next
    case 2
    then show ?thesis using bit_table_index(2) [of va "i - 21"] bit_table_index(2) [of va' "i - 21"] eq(2) by auto
  next
    case 3
    then show ?thesis using bit_table_index(3) [of va "i - 30"] bit_table_index(3) [of va' "i - 30"] eq(3) by auto
  next
    case 4
    then show ?thesis using assms bit_table_index(4) [of va "i - 39"] bit_table_index(4) [of va' "i - 39"] eq(4) by auto
  qed
qed

definition canonical :: "VAddress \<Rightarrow> bool" where
  "canonical va \<longleftrightarrow> is_address_canonical va va"

lemma canonical_sign:
  assumes "canonical va" and "47 \<le> i" and "i < 64"
  shows "bit va i \<longleftrightarrow> bit va 47"
proof -
  from assms(1) consider "va \<le> 0x00007FFFFFFFFFFF" | "0xFFFF800000000000 \<le> va"
    by (auto simp: canonical_def is_address_canonical_def range_contains_def CANONICAL_AREA_LOW_def
        CANONICAL_AREA_HIGH_def split: if_splits)
  then show ?thesis
  proof cases
    case 1
    then have "unat va < 2 ^ 47" by (simp add: word_le_nat_alt)
    from unat_high_bits [OF this] assms(2) show ?thesis by simp
  next
    case 2
    have "NOT va = - 1 - va" by (simp add: not_eq_complement)
    then have "unat (NOT va) = unat (- 1 :: usize) - unat va" by (simp add: unat_sub_le)
    then have "unat (NOT va) < 2 ^ 47" using 2 by (simp add: word_le_nat_alt unsigned_minus_1_eq_mask mask_eq_exp_minus_1)
    from unat_high_bits [OF this] assms(2,3) show ?thesis by (simp add: bit_not_iff)
  qed
qed

lemma indices_inj:
  assumes "indices va = indices va'" and "canonical va" and "canonical va'"
    and "unat va mod 4096 = 0" and "unat va' mod 4096 = 0"
  shows "va = va'"
proof (rule bit_word_eqI)
  fix i
  assume "i < LENGTH(64)"
  then have "i < 64" by simp
  then consider "i < 12" | "12 \<le> i \<and> i < 48" | "47 \<le> i \<and> i < 64" by linarith
  then show "bit va i \<longleftrightarrow> bit va' i"
  proof cases
    case 1
    then show ?thesis using aligned_low_bits [OF assms(4), of i] aligned_low_bits [OF assms(5), of i] by simp
  next
    case 2
    then show ?thesis using indices_bits [OF assms(1), of i] by simp
  next
    case 3
    then show ?thesis using canonical_sign [OF assms(2), of i] canonical_sign [OF assms(3), of i]
        indices_bits [OF assms(1), of 47] by simp
  qed
qed

lemma page_mask_aligned: "a AND NOT PAGE_MASK = 0 \<longleftrightarrow> unat a mod 4096 = 0"
  by (simp add: not_PAGE_MASK aligned_iff)

lemma canonical_accepted:
  assumes "canonical va"
  shows "\<not> (drop_bit 48 va \<noteq> 0 \<and> (drop_bit 48 va \<noteq> 0xFFFF \<or> drop_bit 47 va AND 1 = 0))"
proof (cases "bit va 47")
  case True
  have "drop_bit 48 va = mask 16"
    by (rule bit_eqI) (use canonical_sign [OF assms] True in \<open>auto simp: bit_simps dest: bit_imp_le_length\<close>)
  moreover have "bit (drop_bit 47 va AND 1) 0" using True by (simp add: bit_simps)
  then have "drop_bit 47 va AND 1 \<noteq> 0" by (intro notI) simp
  ultimately show ?thesis by (simp add: mask_eq_exp_minus_1)
next
  case False
  have "\<not> bit va (48 + i)" for i
    using canonical_sign [OF assms, of "48 + i"] False bit_imp_le_length [of va "48 + i"] by auto
  then have "drop_bit 48 va = 0" by (intro bit_eqI) (simp add: bit_simps)
  then show ?thesis by simp
qed

section \<open>Mapping one page\<close>

definition page_word :: "PAddress \<Rightarrow> MemoryPermissionFlags \<Rightarrow> PTE" where
  "page_word pa permission =
     PTE_set_present (PTE_set_user_accessible (PTE_set_writable (PTE_set_no_execute
       (fst (PTE_set_address 0 pa)) (\<not> is_executable permission)) (is_writable permission))
       (is_user_accessible permission)) True"

lemma bit_page_word:
  assumes "pa AND NOT PAGE_MASK = 0"
  shows "bit (page_word pa permission) i \<longleftrightarrow>
    i = 0 \<or> i = 1 \<and> is_writable permission \<or> i = 2 \<and> is_user_accessible permission
    \<or> i = 63 \<and> \<not> is_executable permission \<or> 12 \<le> i \<and> i < 52 \<and> bit pa i"
  using assms
  by (auto simp: page_word_def PTE_set_address_def pte.set_present pte.set_user pte.set_writable pte.set_nx)

lemma page_access_leaf:
  assumes es: "length es = 3" "rights es" and pa: "unat pa mod 4096 = 0" "unat pa < 2 ^ 52"
    and va: "unat va mod 4096 = 0"
  shows "page_access va (es @ [page_word pa permission]) =
    (pa, is_writable permission, is_user_accessible permission, is_executable permission)"
proof -
  have a: "pa AND NOT PAGE_MASK = 0" using pa(1) by (simp add: page_mask_aligned)
  have "va AND mask 12 = 0" using va by (simp add: aligned_iff)
  moreover have "bit pa i \<Longrightarrow> 12 \<le> i \<and> i < 52" for i
    using aligned_low_bits [OF pa(1), of i] unat_high_bits [OF pa(2), of i] by fastforce
  then have "page_word pa permission AND mask 52 AND NOT (mask 12) = pa"
    by (intro bit_eqI) (auto simp: bit_and_iff bit_not_iff bit_mask_iff bit_page_word [OF a], fastforce)
  ultimately show ?thesis
    using es by (auto simp: page_access_def Let_def rights_def bit_page_word [OF a])
qed

text \<open>The arguments that \<open>associate_address\<close> accepts.\<close>

definition mappable :: "PAddress \<Rightarrow> VAddress \<Rightarrow> bool" where
  "mappable pa va \<longleftrightarrow>
     unat pa mod 4096 = 0 \<and> unat pa < 2 ^ 52 \<and> unat va mod 4096 = 0 \<and> canonical va"

lemma associate_address_ok:
  assumes inv: "pt_inv self n M st" and m: "mappable pa va"
    and nh: "no_huge (tables st) (pml4 self) (indices va)"
  obtains (ok) st' where "associate_address self n pa va permission st = Ok ((), st')" "pt_inv self n M st'"
      "translate (tables st') (pml4 self) va =
         Some (pa, is_writable permission, is_user_accessible permission, is_executable permission)"
      "\<And>va'. indices va' \<noteq> indices va \<Longrightarrow>
         translate (tables st') (pml4 self) va' = translate (tables st) (pml4 self) va'"
      "\<And>is. \<forall>j \<in> set is. j < 512 \<Longrightarrow> length is = 4 \<Longrightarrow> no_huge (tables st) (pml4 self) is
         \<Longrightarrow> no_huge (tables st') (pml4 self) is"
  | (full) st' where "associate_address self n pa va permission st = Err (MemoryCacheRanOut, st')"
proof -
  let ?p = "[table_index 3 va, table_index 2 va, table_index 1 va]" and ?i = "table_index 0 va"
  let ?e = "page_word pa permission"
  have al: "pa AND NOT PAGE_MASK = 0" "va AND NOT PAGE_MASK = 0" and c: "canonical va"
    using m by (simp_all add: mappable_def page_mask_aligned)
  have run: "associate_address self n pa va permission st =
      obind (get_target_pte self n va True True None st) (\<lambda>(pte, st). Ok ((), put_entry st pte ?e))"
    using al canonical_accepted [OF c]
    by (auto simp: associate_address_def Let_def page_word_def PTE_init_def
        cong del: prod.case_cong_weak)
  show thesis
  proof (cases rule: get_target_pte_create [OF inv al(2) nh, case_names ok full])
    case (ok st1 t)
    let ?st = "put_entry st1 (t, ?i) ?e"
    have T: "tables ?st = put_word (tables st1) t ?i ?e" by (simp add: put_entry_simps)
    have to: "tables_ok (tables st1) (pml4 self)" and len: "length ?p = 3"
      using ok(2) by (simp_all add: pt_inv_def)
    note l = put_leaf [where e = ?e, OF to ok(4) len table_index_less [of 0 va]]
    have is4: "indices va = ?p @ [?i]" by (simp add: indices_def)
    have w: "hw_walk (tables ?st) (pml4 self) [] (indices va') = hw_walk (tables st) (pml4 self) [] (indices va')"
      if "indices va' \<noteq> indices va" for va'
      using l(3) [of "indices va'"] that ok(3) by (simp add: T is4 grows_def same_walks_def)
    from l(4) obtain es where es: "length es = 3" "rights es"
      and hw: "hw_walk (tables ?st) (pml4 self) [] (indices va) = Some (es @ [?e])"
      using bit_page_word [OF al(1), of permission 0] unfolding T [symmetric] is4 [symmetric] by auto
    show thesis
    proof (rule that(1))
      show "associate_address self n pa va permission st = Ok ((), ?st)" by (simp add: run ok(1))
      show "pt_inv self n M ?st"
        using ok(2) l(1,2) by (simp add: pt_inv_def put_entry_simps(5) T table_frames_def)
      show "translate (tables ?st) (pml4 self) va =
         Some (pa, is_writable permission, is_user_accessible permission, is_executable permission)"
        using page_access_leaf [OF es] m by (simp add: translate_def hw mappable_def)
      show "translate (tables ?st) (pml4 self) va' = translate (tables st) (pml4 self) va'"
        if "indices va' \<noteq> indices va" for va'
        using w [OF that] by (simp add: translate_def)
      fix "is" :: "usize list"
      assume "is": "\<forall>j \<in> set is. j < 512" "length is = 4" "no_huge (tables st) (pml4 self) is"
      then have nh1: "no_huge (tables st1) (pml4 self) is" using ok(3) by (simp add: grows_def)
      show "no_huge (tables ?st) (pml4 self) is"
        unfolding no_huge_def
      proof (intro allI impI)
        fix q j r u
        assume q: "is = q @ j # r \<and> r \<noteq> [] \<and> tree (tables ?st) (pml4 self) q = Some u"
        then have u: "tree (tables st1) (pml4 self) q = Some u" using l(1) by (simp add: T)
        have "length q < 3" using q "is"(2) by (cases r) auto
        then have "u \<noteq> t" using one_pathD [OF _ u, of ?p] ok(2,4) by (auto simp: pt_inv_def tables_ok_def)
        then show "\<not> is_huge (tables ?st u j)"
          using nh1 q u unfolding no_huge_def T by (metis put_word_simps(2))
      qed
    qed
  next
    case (full st')
    then show thesis by (intro that(2)) (simp add: run)
  qed
qed

end
