(* ===== verification/Page_Unmap.thy ===== *)
theory Page_Unmap
  imports Page_Mapping
begin

text \<open>
  Unmapping: \<open>cleanup_page_table\<close> gives back the pages of tables without present entries, so that
  none is left on the path it cleans, and leaves every translation as it is, and \<open>unassociate_address\<close> takes away the translation
  of one page. Also here: changing the rights of a page.
\<close>

section \<open>Releasing a table\<close>

text \<open>
  Between two states tables only go away, and the physical memory manager gets the pages of
  exactly those tables.
\<close>

definition shrunk :: "PageManager \<Rightarrow> nat \<Rightarrow> paging_state \<Rightarrow> paging_state \<Rightarrow> bool" where
  "shrunk self n st st' \<longleftrightarrow>
     map_le (tree (tables st') (pml4 self)) (tree (tables st) (pml4 self)) \<and>
     pmm_free_set n (pm_manager st') = pmm_free_set n (pm_manager st) \<union>
       \<Union> (page_of ` (table_frames (tables st) (pml4 self) - table_frames (tables st') (pml4 self)))"

lemma map_le_frames:
  "map_le (tree T' root) (tree T root) \<Longrightarrow> table_frames T' root \<subseteq> table_frames T root"
  unfolding table_frames_def by (intro image_mono) (force simp: ran_def map_le_def dom_def)

lemma shrunk_refl [simp]: "shrunk self n st st"
  by (simp add: shrunk_def)

lemma shrunk_trans:
  assumes "shrunk self n a b" and "shrunk self n b c"
  shows "shrunk self n a c"
proof -
  have m: "map_le (tree (tables b) (pml4 self)) (tree (tables a) (pml4 self))"
    "map_le (tree (tables c) (pml4 self)) (tree (tables b) (pml4 self))"
    using assms by (simp_all add: shrunk_def)
  have "map_le (tree (tables c) (pml4 self)) (tree (tables a) (pml4 self))"
    using m(2,1) by (rule map_le_trans)
  moreover have "table_frames (tables a) (pml4 self) - table_frames (tables c) (pml4 self) =
      (table_frames (tables a) (pml4 self) - table_frames (tables b) (pml4 self)) \<union>
      (table_frames (tables b) (pml4 self) - table_frames (tables c) (pml4 self))"
    using map_le_frames [OF m(1)] map_le_frames [OF m(2)] by blast
  ultimately show ?thesis using assms by (simp add: shrunk_def image_Un Un_assoc)
qed

lemma shrunk_None:
  assumes "shrunk self n st st'" and "tree (tables st) (pml4 self) q = None"
  shows "tree (tables st') (pml4 self) q = None"
  using assms unfolding shrunk_def map_le_def by (metis domIff)

text \<open>A table of the tree at \<open>q\<close>, if there is one, has a present entry.\<close>

definition tidy :: "memory \<Rightarrow> VAddress \<Rightarrow> usize list \<Rightarrow> bool" where
  "tidy T root q \<longleftrightarrow> (\<forall>u. tree T root q = Some u \<longrightarrow> (\<exists>j < 512. bit (T u j) 0))"

text \<open>
  The outcome of a cleaning step: it returns, with the invariant kept, no translation
  changed, the pages of the tables that went away given back, and all tables down to depth
  \<open>k\<close> where they were. \<open>Q\<close> holds of the result when there is no error.
\<close>

definition cleaned ::
  "PageManager \<Rightarrow> nat \<Rightarrow> nat set \<Rightarrow> nat \<Rightarrow> ('b \<Rightarrow> paging_state \<Rightarrow> bool) \<Rightarrow> paging_state \<Rightarrow> 'b paging \<Rightarrow> bool" where
  "cleaned self n M k Q st r \<longleftrightarrow>
     (\<exists>st'. pt_inv self n M st' \<and> same_walks self st st' \<and> shrunk self n st st' \<and>
        (\<forall>q. length q \<le> k \<longrightarrow> tree (tables st') (pml4 self) q = tree (tables st) (pml4 self) q) \<and>
        ((\<exists>x. r = Ok (x, st') \<and> Q x st') \<or> r = Err (MemoryCacheOverflowed, st')))"

lemma cleaned_Ok: "pt_inv self n M st \<Longrightarrow> Q x st \<Longrightarrow> cleaned self n M k Q st (Ok (x, st))"
  by (auto simp: cleaned_def)

lemma cleaned_bind:
  assumes "cleaned self n M k Q st r" and "k' \<le> k"
    and "\<And>x st'. pt_inv self n M st' \<Longrightarrow>
      (\<And>q. length q \<le> k \<Longrightarrow> tree (tables st') (pml4 self) q = tree (tables st) (pml4 self) q) \<Longrightarrow>
      Q x st' \<Longrightarrow> cleaned self n M k' Q' st' (f x st')"
  shows "cleaned self n M k' Q' st (obind r (\<lambda>(x, st). f x st))"
proof -
  from assms(1) obtain st' where st': "pt_inv self n M st'" "same_walks self st st'"
    "\<And>q. length q \<le> k \<Longrightarrow> tree (tables st') (pml4 self) q = tree (tables st) (pml4 self) q"
    "(\<exists>x. r = Ok (x, st') \<and> Q x st') \<or> r = Err (MemoryCacheOverflowed, st')" and sh: "shrunk self n st st'"
    unfolding cleaned_def by blast
  from st'(4) show ?thesis
  proof (elim disjE exE conjE)
    fix x
    assume r: "r = Ok (x, st')" and Q: "Q x st'"
    from assms(3) [OF st'(1,3) Q] obtain st'' where "pt_inv self n M st''" "same_walks self st' st''"
      "shrunk self n st' st''"
      "\<forall>q. length q \<le> k' \<longrightarrow> tree (tables st'') (pml4 self) q = tree (tables st') (pml4 self) q"
      "(\<exists>y. f x st' = Ok (y, st'') \<and> Q' y st'') \<or> f x st' = Err (MemoryCacheOverflowed, st'')"
      unfolding cleaned_def by blast
    then show ?thesis
      using st'(2,3) sh assms(2) unfolding cleaned_def r
      by (intro exI [of _ st'']) (auto intro: same_walks_trans shrunk_trans)
  next
    assume "r = Err (MemoryCacheOverflowed, st')"
    then show ?thesis using st' sh assms(2) unfolding cleaned_def by (intro exI [of _ st']) auto
  qed
qed

lemma any_present_iff:
  assumes "\<And>e. present e \<longleftrightarrow> bit e 0"
  shows "any_present present st c \<longleftrightarrow> (\<exists>j < 512. bit (tables st c j) 0)"
proof
  assume "any_present present st c"
  then obtain i where i: "i < 512" "bit (tables st c (of_nat i)) 0"
    by (auto simp: any_present_def MAX_ENTRY_def assms)
  then have "(of_nat i :: usize) < 512" by (simp add: word_less_nat_alt unat_of_nat)
  with i(2) show "\<exists>j < 512. bit (tables st c j) 0" by blast
next
  assume "\<exists>j < 512. bit (tables st c j) 0"
  then obtain j where "j < 512" "bit (tables st c j) 0" by blast
  then show "any_present present st c"
    by (auto simp: any_present_def MAX_ENTRY_def assms word_less_nat_alt intro!: bexI [of _ "unat j"])
qed

lemma frame_next: "next_table e = c \<Longrightarrow> frame e = direct_map_to_physical_address c"
  by (auto simp: next_table_def)

text \<open>A table without present entries is taken out of the tree, and nothing else.\<close>

lemma unlink_frames:
  assumes one: "one_path T root" and c: "tree T root q = Some c"
    and tr: "tree T' root = (tree T root)(q := None)"
  shows "table_frames T' root = table_frames T root - {direct_map_to_physical_address c}"
proof -
  have "ran (tree T' root) = ran (tree T root) - {c}"
  proof (intro equalityI subsetI)
    fix u
    assume "u \<in> ran (tree T' root)"
    then obtain r where r: "r \<noteq> q" "tree T root r = Some u" by (auto simp: tr ran_def split: if_splits)
    then have "u \<noteq> c" using one_pathD [OF one _ c] by blast
    with r show "u \<in> ran (tree T root) - {c}" by (auto simp: ran_def)
  next
    fix u
    assume "u \<in> ran (tree T root) - {c}"
    then obtain r where r: "tree T root r = Some u" "u \<noteq> c" by (auto simp: ran_def)
    then have "r \<noteq> q" using c by auto
    with r have "tree T' root r = Some u" by (simp add: tr)
    then show "u \<in> ran (tree T' root)" by (auto simp: ran_def)
  qed
  moreover have "inj direct_map_to_physical_address" by (metis direct_map_inverse(2) injI)
  ultimately show ?thesis by (simp add: table_frames_def image_set_diff)
qed

lemma unlink_ok:
  assumes inv: "pt_inv self n M st" and t: "tree (tables st) (pml4 self) p = Some t"
    and c: "tree (tables st) (pml4 self) (p @ [i]) = Some c"
    and blank: "\<And>j. j < 512 \<Longrightarrow> \<not> bit (tables st c j) 0"
    and F: "pmm_free_set n pm = pmm_free_set n (pm_manager st) \<union> page_of (direct_map_to_physical_address c)"
    and h: "holds (pmm_ok n pm) (pmm_free_set n pm) (unat (memory_size pm)) M
      (table_frames (tables st) (pml4 self) - {direct_map_to_physical_address c})"
    and e: "\<not> bit e 52" "\<not> bit e 0" "p = [] \<Longrightarrow> \<not> bit e 7"
    and Q: "\<And>st'. tree (tables st') (pml4 self) = (tree (tables st) (pml4 self))(p @ [i] := None) \<Longrightarrow> Q x st'"
  shows "cleaned self n M (length p) Q st (Ok (x, put_entry (st\<lparr>pm_manager := pm\<rparr>) (t, i) e))"
proof -
  let ?st = "put_entry (st\<lparr>pm_manager := pm\<rparr>) (t, i) e"
  have ok: "tables_ok (tables st) (pml4 self)" using inv by (simp add: pt_inv_def)
  note l = put_unlink [OF ok t c blank e]
  have T: "tables ?st = put_word (tables st) t i e" and pm: "pm_manager ?st = pm"
    by (simp_all add: put_entry_simps)
  have tr: "tree (tables ?st) (pml4 self) = (tree (tables st) (pml4 self))(p @ [i] := None)"
    using l(1) by (simp only: T)
  note fr = unlink_frames [OF tables_okD(1) [OF ok] c tr]
  have "direct_map_to_physical_address c \<in> table_frames (tables st) (pml4 self)"
    using c by (auto simp: table_frames_def ran_def)
  then have "table_frames (tables st) (pml4 self) - table_frames (tables ?st) (pml4 self) =
      {direct_map_to_physical_address c}"
    unfolding fr by blast
  then have "shrunk self n st ?st" by (simp add: shrunk_def tr pm F map_le_def)
  moreover have "pt_inv self n M ?st" using h l(2) fr by (simp add: pt_inv_def pm T)
  moreover have "same_walks self st ?st" using l(3) by (simp add: same_walks_def T)
  moreover have "\<forall>q. length q \<le> length p \<longrightarrow> tree (tables ?st) (pml4 self) q = tree (tables st) (pml4 self) q"
    by (auto simp: tr)
  ultimately show ?thesis using Q [OF tr] unfolding cleaned_def by blast
qed

lemma free_table_cases:
  assumes inv: "pt_inv self n M st" and t: "tree (tables st) (pml4 self) p = Some t"
  obtains (freed) pm where "free_table n (direct_map_to_physical_address t) st = Ok ((), st\<lparr>pm_manager := pm\<rparr>)"
      "pmm_free_set n pm = pmm_free_set n (pm_manager st) \<union> page_of (direct_map_to_physical_address t)"
      "holds (pmm_ok n pm) (pmm_free_set n pm) (unat (memory_size pm)) M
        (table_frames (tables st) (pml4 self) - {direct_map_to_physical_address t})"
  | (kept) "free_table n (direct_map_to_physical_address t) st = Err (MemoryCacheOverflowed, st)"
proof -
  have "direct_map_to_physical_address t \<in> table_frames (tables st) (pml4 self)"
    using t by (auto simp: table_frames_def ran_def)
  from frames.give_holds [OF _ this, of n "pm_manager st" M] inv
  consider pm where "free n (pm_manager st) (direct_map_to_physical_address t) PAGE_SIZE False = Ok pm"
      "pmm_free_set n pm = pmm_free_set n (pm_manager st) \<union> page_of (direct_map_to_physical_address t)"
      "holds (pmm_ok n pm) (pmm_free_set n pm) (unat (memory_size pm)) M
        (table_frames (tables st) (pml4 self) - {direct_map_to_physical_address t})"
    | e where "free n (pm_manager st) (direct_map_to_physical_address t) PAGE_SIZE False = Err (e, pm_manager st)"
    by (auto simp: pt_inv_def)
  then show thesis
    by cases (use freed kept in \<open>auto simp: free_table_def\<close>)
qed

context table_entry
begin

lemma release:
  assumes inv: "pt_inv self n M st" and t: "tree (tables st) (pml4 self) p = Some t"
    and p: "length p < 3" and i: "i < 512" and tab: "is_table (tables st t i)"
    and pr: "\<And>e. present e \<longleftrightarrow> bit e 0"
    and left: "\<exists>j < 512. bit (tables st (next_table (tables st t i)) j) 0 \<Longrightarrow> Q x st"
    and gone: "\<And>st'. tree (tables st') (pml4 self) = (tree (tables st) (pml4 self))(p @ [i] := None) \<Longrightarrow> Q y st'"
  shows "cleaned self n M (length p) Q st
    (unwrap_or_panic (get_address (get_entry st (t, i))) (\<lambda>a.
       if any_present present st (physical_address_to_direct_map a) then Ok (x, st)
       else obind (free_table n a st) (\<lambda>(_, st).
         let st = put_entry st (t, i) (set_present (get_entry st (t, i)) False);
             st = put_entry st (t, i) (set_address_set (get_entry st (t, i)) False)
         in Ok (y, st))))" (is "cleaned _ _ _ _ _ _ ?r")
proof -
  let ?c = "next_table (tables st t i)"
  let ?a = "direct_map_to_physical_address ?c"
  let ?e = "set_address_set (set_present (tables st t i) False) False"
  have c: "tree (tables st) (pml4 self) (p @ [i]) = Some ?c" using t p i tab by (auto simp: tree_snoc)
  have get: "get_address (get_entry st (t, i)) = Some ?a"
    using tab frame_next [of "tables st t i" ?c] by (simp add: get_entry_def get_address_table is_table_def frame_def)
  have get_st: "get_entry st (t, i) = tables st t i" and get_pm: "get_entry (st\<lparr>pm_manager := pm\<rparr>) r = get_entry st r" for pm r
    by (simp_all add: get_entry_def)
  show ?thesis
  proof (cases "any_present present st ?c")
    case True
    then have "?r = Ok (x, st)" by (simp add: get unwrap_or_panic_def)
    moreover have "Q x st" using True any_present_iff [OF pr] by (intro left) blast
    ultimately show ?thesis using cleaned_Ok [OF inv] by simp
  next
    case False
    then have blank: "\<not> bit (tables st ?c j) 0" if "j < 512" for j
      using that any_present_iff [OF pr] by blast
    show ?thesis
    proof (cases rule: free_table_cases [OF inv c, case_names freed kept])
      case (freed pm)
      have "?r = Ok (y, put_entry (st\<lparr>pm_manager := pm\<rparr>) (t, i) ?e)"
        using False by (simp add: get [unfolded get_st] unwrap_or_panic_def freed(1) put_entry_simps Let_def get_pm get_st)
      moreover have "\<not> bit ?e 52" "\<not> bit ?e 0" "\<not> bit ?e 7"
        using tab by (simp_all add: set_address_set set_present is_table_def)
      ultimately show ?thesis using unlink_ok [OF inv t c blank freed(2,3), where Q = Q] gone by simp
    next
      case kept
      then have "?r = Err (MemoryCacheOverflowed, st)" using False by (simp add: get unwrap_or_panic_def)
      then show ?thesis using inv by (auto simp: cleaned_def)
    qed
  qed
qed

end

section \<open>\<open>cleanup_page_table\<close>\<close>

lemma entry_present_table:
  assumes "pt_inv self n M st" and "tree (tables st) (pml4 self) p = Some t" and "length p < 3" and "i < 512"
    and "bit (tables st t i) 0" and "\<not> bit (tables st t i) 7"
  shows "is_table (tables st t i)"
  using assms by (intro entry_ok_present [OF tables_okD(2)]) (auto simp: pt_inv_def)

lemma no_table:
  assumes "pt_inv self n M st" and "tree (tables st) (pml4 self) p = Some t" and "length p < 3" and "i < 512"
    and "\<not> (bit (tables st t i) 0 \<and> \<not> bit (tables st t i) 7)"
  shows "tree (tables st) (pml4 self) (p @ [i]) = None"
proof (rule ccontr)
  assume "\<not> ?thesis"
  then obtain u where "tree (tables st) (pml4 self) (p @ [i]) = Some u" by blast
  then have tab: "is_table (tables st t i)" using assms(2) by (auto simp: tree_snoc)
  from entry_ok_table [OF tables_okD(2) [OF _ assms(2-4)] this] assms(1) have "bit (tables st t i) 0"
    by (simp add: pt_inv_def)
  with tab assms(5) show False by (simp add: is_table_def)
qed

text \<open>The answer of a step says whether the table at \<open>q\<close> is gone; if not, it has a present entry.\<close>

definition swept :: "PageManager \<Rightarrow> usize list \<Rightarrow> bool \<Rightarrow> paging_state \<Rightarrow> bool" where
  "swept self q go_on st \<longleftrightarrow>
     tidy (tables st) (pml4 self) q \<and> (go_on \<longleftrightarrow> tree (tables st) (pml4 self) q = None)"

lemma swept_gone: "tree (tables st) (pml4 self) q = None \<Longrightarrow> swept self q True st"
  by (simp add: swept_def tidy_def)

lemma swept_left:
  "tree (tables st) (pml4 self) q = Some c \<Longrightarrow> \<exists>j < 512. bit (tables st c j) 0 \<Longrightarrow> swept self q False st"
  by (simp add: swept_def tidy_def)

lemma swept_parent:
  assumes "pt_inv self n M st" and "tree (tables st) (pml4 self) q = Some c" and "swept self (q @ [j]) False st"
  shows "swept self q False st"
proof -
  from assms(2,3) have j: "length q < 3" "j < 512" "is_table (tables st c j)"
    by (auto simp: swept_def tree_snoc)
  from entry_ok_table [OF tables_okD(2) [OF _ assms(2) j(1,2)] j(3)] assms(1) have "bit (tables st c j) 0"
    by (simp add: pt_inv_def)
  with j(2) swept_left [OF assms(2)] show ?thesis by blast
qed

lemma cleanup_pt_ok:
  assumes inv: "pt_inv self n M st" and t: "tree (tables st) (pml4 self) p = Some t"
    and p: "length p = 2" and i: "i < 512"
  shows "cleaned self n M 2 (swept self (p @ [i])) st (cleanup_pt n (t, i) st)"
proof (cases "bit (tables st t i) 0 \<and> \<not> bit (tables st t i) 7")
  case True
  then have tab: "is_table (tables st t i)" using inv t p i by (intro entry_present_table) auto
  then have c: "tree (tables st) (pml4 self) (p @ [i]) = Some (next_table (tables st t i))"
    using t p i by (auto simp: tree_snoc)
  have "length p < 3" using p by simp
  from pde.release [OF inv t this i tab pte.is_present, of "swept self (p @ [i])" False True]
    swept_left [OF c] True show ?thesis
    by (simp add: swept_gone cleanup_pt_def pde.is_present PDE_is_huge_def get_entry_def p)
next
  case False
  then have "cleanup_pt n (t, i) st = Ok (True, st)"
    by (auto simp: cleanup_pt_def pde.is_present PDE_is_huge_def get_entry_def)
  moreover have "length p < 3" using p by simp
  ultimately show ?thesis using cleaned_Ok [OF inv] swept_gone [OF no_table [OF inv t _ i False]] by simp
qed

text \<open>The step above a cleaned level: it stops when the level is still there.\<close>

lemma swept_stop:
  assumes "pt_inv self n M st" and "tree (tables st) (pml4 self) q = Some c" and "swept self (q @ [j]) False st"
  shows "swept self q False st \<and> tidy (tables st) (pml4 self) (q @ [j])"
  using swept_parent [OF assms] assms(3) by (simp add: swept_def)

lemma swept_on:
  assumes "swept self (q @ [j]) True st"
  shows "tree (tables st) (pml4 self) q = Some c \<Longrightarrow> \<exists>k < 512. bit (tables st c k) 0 \<Longrightarrow>
      swept self q False st \<and> tidy (tables st) (pml4 self) (q @ [j])"
    and "tree (tables st') (pml4 self) = (tree (tables st) (pml4 self))(q := None) \<Longrightarrow>
      swept self q True st' \<and> tidy (tables st') (pml4 self) (q @ [j])"
  using assms swept_left [of st self q c] swept_gone [of st' self q] by (simp_all add: swept_def tidy_def)

lemma cleanup_pd_ok:
  assumes inv: "pt_inv self n M st" and t: "tree (tables st) (pml4 self) p = Some t"
    and p: "length p = 1" and i: "i < 512" and j: "j < 512"
  shows "cleaned self n M 1 (\<lambda>go_on st. swept self (p @ [i]) go_on st \<and> tidy (tables st) (pml4 self) ((p @ [i]) @ [j]))
    st (cleanup_pd n (t, i) j st)" (is "cleaned _ _ _ _ ?Q _ _")
proof (cases "bit (tables st t i) 0 \<and> \<not> bit (tables st t i) 7")
  case True
  then have tab: "is_table (tables st t i)" using inv t p i by (intro entry_present_table) auto
  let ?c = "next_table (tables st t i)"
  have c: "tree (tables st) (pml4 self) (p @ [i]) = Some ?c" using t p i tab by (auto simp: tree_snoc)
  have get: "PDPTE_get_address (get_entry st (t, i)) = Some (frame (tables st t i))"
    using tab by (simp add: get_entry_def pdpte.get_address_table is_table_def frame_def)
  have "cleanup_pd n (t, i) j st = obind (cleanup_pt n (?c, j) st) (\<lambda>(go_on, st).
      if \<not> go_on then Ok (False, st)
      else unwrap_or_panic (PDPTE_get_address (get_entry st (t, i))) (\<lambda>a.
        if any_present PDE_is_present st (physical_address_to_direct_map a) then Ok (False, st)
        else obind (free_table n a st) (\<lambda>(_, st).
          let st = put_entry st (t, i) (PDPTE_set_present (get_entry st (t, i)) False);
              st = put_entry st (t, i) (PDPTE_set_address_set (get_entry st (t, i)) False)
          in Ok (True, st))))"
    using True get by (simp add: cleanup_pd_def pdpte.is_present PDPTE_is_huge_def get_entry_def
        unwrap_or_panic_def next_table_def)
  also have "cleaned self n M 1 ?Q st \<dots>"
  proof (rule cleaned_bind)
    show "cleaned self n M 2 (swept self ((p @ [i]) @ [j])) st (cleanup_pt n (?c, j) st)"
      using p j by (intro cleanup_pt_ok [OF inv c]) auto
    fix go_on st'
    assume inv': "pt_inv self n M st'" and sw: "swept self ((p @ [i]) @ [j]) go_on st'"
      and keep: "\<And>q. length q \<le> 2 \<Longrightarrow> tree (tables st') (pml4 self) q = tree (tables st) (pml4 self) q"
    have t': "tree (tables st') (pml4 self) p = Some t" and c': "tree (tables st') (pml4 self) (p @ [i]) = Some ?c"
      using t c keep p by simp_all
    then have tab': "is_table (tables st' t i)" and nx: "next_table (tables st' t i) = ?c" by (auto simp: tree_snoc)
    have len: "length p < 3" using p by simp
    show "cleaned self n M 1 ?Q st' (if \<not> go_on then Ok (False, st')
      else unwrap_or_panic (PDPTE_get_address (get_entry st' (t, i))) (\<lambda>a.
        if any_present PDE_is_present st' (physical_address_to_direct_map a) then Ok (False, st')
        else obind (free_table n a st') (\<lambda>(_, st).
          let st = put_entry st (t, i) (PDPTE_set_present (get_entry st (t, i)) False);
              st = put_entry st (t, i) (PDPTE_set_address_set (get_entry st (t, i)) False)
          in Ok (True, st))))"
    proof (cases go_on)
      case False
      then show ?thesis using cleaned_Ok [OF inv', of ?Q] swept_stop [OF inv' c'] sw by simp
    next
      case True
      with sw have "swept self ((p @ [i]) @ [j]) True st'" by simp
      note on = swept_on [OF this]
      from pdpte.release [OF inv' t' len i tab' pde.is_present, of ?Q False True] on(1) [OF c'] on(2) True p nx
      show ?thesis by simp
    qed
  qed simp
  finally show ?thesis .
next
  case False
  then have run: "cleanup_pd n (t, i) j st = Ok (True, st)"
    by (auto simp: cleanup_pd_def pdpte.is_present PDPTE_is_huge_def get_entry_def)
  have "length p < 3" using p by simp
  note none = no_table [OF inv t this i False]
  then have "tree (tables st) (pml4 self) ((p @ [i]) @ [j]) = None"
    by (metis not_None_eq option.distinct(1) tree_snoc)
  then show ?thesis using run cleaned_Ok [OF inv, of ?Q True] swept_gone [OF none] by (simp add: tidy_def)
qed

text \<open>No table without present entries is left on the path of \<open>va\<close>.\<close>

definition path_tidy :: "PageManager \<Rightarrow> VAddress \<Rightarrow> paging_state \<Rightarrow> bool" where
  "path_tidy self va st \<longleftrightarrow>
     tidy (tables st) (pml4 self) [table_index 3 va] \<and>
     tidy (tables st) (pml4 self) [table_index 3 va, table_index 2 va] \<and>
     tidy (tables st) (pml4 self) [table_index 3 va, table_index 2 va, table_index 1 va]"

lemma path_none:
  assumes "tree (tables st) (pml4 self) [table_index 3 va] = None"
  shows "path_tidy self va st"
proof -
  have "table_at (tables st) (pml4 self) [table_index 3 va] = None" using assms by (simp add: tree_def)
  then have "table_at (tables st) (pml4 self) (table_index 3 va # q) = None" for q by (simp split: if_splits)
  then show ?thesis by (simp add: path_tidy_def tidy_def tree_def del: table_at.simps)
qed

lemma cleanup_page_table_ok:
  assumes inv: "pt_inv self n M st"
  shows "cleaned self n M 0 (\<lambda>_. path_tidy self va) st (cleanup_page_table self n va st)"
proof (cases "bit (tables st (pml4 self) (table_index 3 va)) 52")
  case False
  then have "cleanup_page_table self n va st = Ok ((), st)"
    by (simp add: cleanup_page_table_def pml4e.is_address_set get_entry_def)
  moreover have "tree (tables st) (pml4 self) [table_index 3 va] = None" using False by (simp add: tree_def is_table_def)
  then have "path_tidy self va st" by (rule path_none)
  ultimately show ?thesis using cleaned_Ok [OF inv, of "\<lambda>_. path_tidy self va" "()"] by simp
next
  case True
  let ?i = "table_index 3 va" and ?r = "(pml4 self, table_index 3 va)"
  let ?c = "next_table (tables st (pml4 self) ?i)"
  have "\<not> bit (tables st (pml4 self) ?i) 7"
    using tables_okD(2) [of _ _ "[]"] inv by (simp add: pt_inv_def entry_ok_def)
  then have tab: "is_table (tables st (pml4 self) ?i)" using True by (simp add: is_table_def)
  then have c: "tree (tables st) (pml4 self) ([] @ [?i]) = Some ?c" unfolding tree_snoc by auto
  have "cleanup_page_table self n va st =
      obind (cleanup_pd n (?c, table_index 2 va) (table_index 1 va) st) (\<lambda>(go_on, st).
      if \<not> go_on then Ok ((), st)
      else unwrap_or_panic (PML4E_get_address (get_entry st ?r)) (\<lambda>a.
        if any_present PDPTE_is_present st (physical_address_to_direct_map a) then Ok ((), st)
        else obind (free_table n a st) (\<lambda>(_, st).
          let st = put_entry st ?r (PML4E_set_present (get_entry st ?r) False);
              st = put_entry st ?r (PML4E_set_address_set (get_entry st ?r) False)
          in Ok ((), st))))"
    using True PML4E_address [of "get_entry st ?r"]
    by (simp add: cleanup_page_table_def Let_def pml4e.is_address_set get_entry_def [of st]
        unwrap_or_panic_def [of "Some _"] next_table_def)
  also have "cleaned self n M 0 (\<lambda>_. path_tidy self va) st \<dots>" (is "cleaned _ _ _ _ ?Q _ _")
  proof (rule cleaned_bind)
    show "cleaned self n M 1 (\<lambda>go_on st. swept self ([?i] @ [table_index 2 va]) go_on st
        \<and> tidy (tables st) (pml4 self) (([?i] @ [table_index 2 va]) @ [table_index 1 va]))
      st (cleanup_pd n (?c, table_index 2 va) (table_index 1 va) st)"
      using c by (intro cleanup_pd_ok [OF inv, of "[?i]"]) auto
    fix go_on st'
    assume inv': "pt_inv self n M st'"
      and sw: "swept self ([?i] @ [table_index 2 va]) go_on st'
        \<and> tidy (tables st') (pml4 self) (([?i] @ [table_index 2 va]) @ [table_index 1 va])"
      and keep: "\<And>q. length q \<le> 1 \<Longrightarrow> tree (tables st') (pml4 self) q = tree (tables st) (pml4 self) q"
    have c': "tree (tables st') (pml4 self) ([] @ [?i]) = Some ?c" using c keep by simp
    then have tab': "is_table (tables st' (pml4 self) ?i)" and nx: "next_table (tables st' (pml4 self) ?i) = ?c"
      unfolding tree_snoc by auto
    show "cleaned self n M 0 ?Q st' (if \<not> go_on then Ok ((), st')
      else unwrap_or_panic (PML4E_get_address (get_entry st' ?r)) (\<lambda>a.
        if any_present PDPTE_is_present st' (physical_address_to_direct_map a) then Ok ((), st')
        else obind (free_table n a st') (\<lambda>(_, st).
          let st = put_entry st ?r (PML4E_set_present (get_entry st ?r) False);
              st = put_entry st ?r (PML4E_set_address_set (get_entry st ?r) False)
          in Ok ((), st))))"
    proof (cases go_on)
      case False
      then have "path_tidy self va st'"
        using swept_stop [OF inv', of "[?i]" ?c "table_index 2 va"] c' sw by (simp add: path_tidy_def swept_def)
      then show ?thesis using False cleaned_Ok [OF inv', of ?Q] by simp
    next
      case True
      with sw have "swept self ([?i] @ [table_index 2 va]) True st'" by simp
      from swept_on(1) [OF this] c' sw
      have "\<exists>k < 512. bit (tables st' ?c k) 0 \<Longrightarrow> path_tidy self va st'" by (simp add: path_tidy_def swept_def)
      with pml4e.release [OF inv' tree_Nil _ table_index_less tab' pdpte.is_present, of ?Q "()" "()"] True nx path_none
      show ?thesis by simp
    qed
  qed simp
  finally show ?thesis .
qed

section \<open>Finding an entry without creating tables\<close>

text \<open>The path of a page of 4 KiB exists: three tables and a present entry in the last.\<close>

definition page_path :: "memory \<Rightarrow> VAddress \<Rightarrow> VAddress \<Rightarrow> VAddress \<Rightarrow> bool" where
  "page_path T root va t \<longleftrightarrow> tree T root [table_index 3 va, table_index 2 va, table_index 1 va] = Some t"

lemma page_pathE:
  assumes "page_path T root va t"
  obtains u v where "tree T root [table_index 3 va] = Some u" "tree T root [table_index 3 va, table_index 2 va] = Some v"
    "is_table (T root (table_index 3 va))" "u = next_table (T root (table_index 3 va))"
    "is_table (T u (table_index 2 va))" "v = next_table (T u (table_index 2 va))"
    "is_table (T v (table_index 1 va))" "t = next_table (T v (table_index 1 va))"
proof -
  from assms have "tree T root ([table_index 3 va, table_index 2 va] @ [table_index 1 va]) = Some t"
    by (simp add: page_path_def)
  then obtain v where v: "tree T root [table_index 3 va, table_index 2 va] = Some v"
    "is_table (T v (table_index 1 va))" "t = next_table (T v (table_index 1 va))"
    unfolding tree_snoc by blast
  then have "tree T root ([table_index 3 va] @ [table_index 2 va]) = Some v" by simp
  then obtain u where u: "tree T root [table_index 3 va] = Some u"
    "is_table (T u (table_index 2 va))" "v = next_table (T u (table_index 2 va))"
    unfolding tree_snoc by blast
  then have "tree T root ([] @ [table_index 3 va]) = Some u" by simp
  then have "is_table (T root (table_index 3 va))" "u = next_table (T root (table_index 3 va))"
    unfolding tree_snoc by auto
  with u v show thesis by (intro that)
qed

lemma get_target_paging_entry_page:
  assumes va: "unat va mod 4096 = 0" and path: "page_path (tables st) (pml4 self) va t"
  shows "get_target_paging_entry self n va False False False st = Ok (Dyn_PTE (t, table_index 0 va), st)"
proof -
  let ?T = "tables st" and ?root = "pml4 self"
  from page_pathE [OF path] obtain u v where
    e4: "is_table (?T ?root (table_index 3 va))" "u = next_table (?T ?root (table_index 3 va))"
    and e3: "is_table (?T u (table_index 2 va))" "v = next_table (?T u (table_index 2 va))"
    and e2: "is_table (?T v (table_index 1 va))" "t = next_table (?T v (table_index 1 va))" by metis
  have pdpte: "get_target_pdpte self n va False False False st = Ok ((u, table_index 2 va), st)"
    using va e4 by (simp add: get_target_pdpte_def Let_def page_mask_aligned pml4e.is_address_set PML4E_address
        get_entry_def is_table_def next_table_def)
  have pde: "get_target_pde self n va False False False (Some (u, table_index 2 va)) st = Ok ((v, table_index 1 va), st)"
    using e3 by (simp add: get_target_pde_def Let_def pdpte.is_address_set pdpte.get_address_table
        get_entry_def is_table_def next_table_def frame_def)
  have pte: "get_target_pte self n va False False (Some (v, table_index 1 va)) st = Ok ((t, table_index 0 va), st)"
    using e2 by (simp add: get_target_pte_def Let_def pde.is_address_set pde.get_address_table
        get_entry_def is_table_def next_table_def frame_def)
  show ?thesis
    using e3(1) e2(1) by (simp add: get_target_paging_entry_def pdpte pde pte Let_def PDPTE_is_huge_def
        PDE_is_huge_def get_entry_def is_table_def)
qed

text \<open>Replacing the entry of a page changes the translation of that page only.\<close>

lemma put_page:
  fixes e :: u64
  assumes inv: "pt_inv self n M st" and path: "page_path (tables st) (pml4 self) va t"
  defines "st' \<equiv> put_entry st (t, table_index 0 va) e"
  shows "pt_inv self n M st'" and "page_path (tables st') (pml4 self) va t"
    and "indices va' \<noteq> indices va \<Longrightarrow> translate (tables st') (pml4 self) va' = translate (tables st) (pml4 self) va'"
    and "\<exists>es. length es = 3 \<and> rights es \<and>
      hw_walk (tables st') (pml4 self) [] (indices va) = (if bit e 0 then Some (es @ [e]) else None)"
    and "tree (tables st') (pml4 self) = tree (tables st) (pml4 self)"
proof -
  let ?p = "[table_index 3 va, table_index 2 va, table_index 1 va]"
  have T: "tables st' = put_word (tables st) t (table_index 0 va) e" and pm: "pm_manager st' = pm_manager st"
    by (simp_all add: st'_def put_entry_simps)
  have to: "tables_ok (tables st) (pml4 self)" and len: "length ?p = 3" and t: "tree (tables st) (pml4 self) ?p = Some t"
    using inv path by (simp_all add: pt_inv_def page_path_def)
  note l = put_leaf [where e = e, OF to t len table_index_less [of 0 va]]
  have is4: "indices va = ?p @ [table_index 0 va]" by (simp add: indices_def)
  show "pt_inv self n M st'" using inv l(1,2) by (simp add: pt_inv_def pm T table_frames_def)
  show "page_path (tables st') (pml4 self) va t" using t l(1) by (simp add: T page_path_def)
  show "translate (tables st') (pml4 self) va' = translate (tables st) (pml4 self) va'" if "indices va' \<noteq> indices va"
    using l(3) [of "indices va'"] that by (simp add: translate_def T is4)
  show "\<exists>es. length es = 3 \<and> rights es \<and>
      hw_walk (tables st') (pml4 self) [] (indices va) = (if bit e 0 then Some (es @ [e]) else None)"
    using l(4) unfolding T is4 .
  show "tree (tables st') (pml4 self) = tree (tables st) (pml4 self)" using l(1) by (simp add: T)
qed

lemma unassociate_address_ok:
  assumes inv: "pt_inv self n M st" and va: "unat va mod 4096 = 0"
    and path: "page_path (tables st) (pml4 self) va t"
  shows "\<exists>st'. pt_inv self n M st' \<and> translate (tables st') (pml4 self) va = None
    \<and> (\<forall>va'. indices va' \<noteq> indices va \<longrightarrow> translate (tables st') (pml4 self) va' = translate (tables st) (pml4 self) va')
    \<and> shrunk self n st st'
    \<and> (unassociate_address self n va d st = Ok ((), st') \<and> path_tidy self va st'
       \<or> unassociate_address self n va d st = Err (MemoryCacheOverflowed, st'))"
proof -
  let ?r = "(t, table_index 0 va)"
  let ?e = "PTE_set_present (get_entry st ?r) False"
  let ?st = "put_entry st ?r ?e"
  note l = put_page [where e = ?e, OF inv path]
  have run: "unassociate_address self n va d st = cleanup_page_table self n va ?st"
    by (simp add: unassociate_address_def get_target_paging_entry_page [OF va path])
  have gone: "translate (tables ?st) (pml4 self) va = None"
    using l(4) by (auto simp: translate_def pte.set_present)
  from cleanup_page_table_ok [OF l(1), of va] obtain st' where st': "pt_inv self n M st'" "same_walks self ?st st'"
    "shrunk self n ?st st'"
    "cleanup_page_table self n va ?st = Ok ((), st') \<and> path_tidy self va st'
      \<or> cleanup_page_table self n va ?st = Err (MemoryCacheOverflowed, st')"
    by (auto simp: cleaned_def)
  have w: "translate (tables st') (pml4 self) va' = translate (tables ?st) (pml4 self) va'" for va'
    by (rule same_walks_translate [OF st'(2)])
  have "shrunk self n st ?st" using l(5) by (simp add: shrunk_def table_frames_def put_entry_simps)
  then have "shrunk self n st st'" using st'(3) by (rule shrunk_trans)
  then show ?thesis
    using st'(1,4) gone l(3) by (intro exI [of _ st']) (simp add: run w)
qed

end
