(* ===== verification/Page_Area.thy ===== *)
theory Page_Area
  imports Page_Unmap
begin

text \<open>
  Areas of several pages, the states that errors leave behind, and the properties of the
  page manager.
\<close>

section \<open>Mapping an area with pages of 4 KiB\<close>

definition page_offset :: "nat \<Rightarrow> usize" where
  "page_offset j = of_nat (j * 4096)"

lemma unat_page_offset: "j < 2 ^ 52 \<Longrightarrow> unat (page_offset j) = j * 4096"
  unfolding page_offset_def by (subst unat_of_nat) simp

lemma page_offset_Suc: "page_offset j + PAGE_SIZE = page_offset (Suc j)"
  by (simp add: page_offset_def PAGE_SIZE_def algebra_simps)

definition granted :: "PAddress \<Rightarrow> MemoryPermissionFlags \<Rightarrow> access" where
  "granted pa permission = (pa, is_writable permission, is_user_accessible permission, is_executable permission)"

text \<open>Every page from the \<open>i\<close>-th to the \<open>k\<close>-th can be mapped, and no huge page is in the way.\<close>

definition area_ok :: "PageManager \<Rightarrow> paging_state \<Rightarrow> PAddress \<Rightarrow> VAddress \<Rightarrow> nat \<Rightarrow> bool" where
  "area_ok self st pa va k \<longleftrightarrow>
     (\<forall>j \<le> k. mappable (pa + page_offset j) (va + page_offset j) \<and>
        no_huge (tables st) (pml4 self) (indices (va + page_offset j)))"

lemma no_huge_pages:
  assumes i: "i \<le> k" and k: "k < 512"
  shows "associate_1gb self n pa va (page_offset k - page_offset i) permission st = Ok (False, st)"
    and "associate_2mb self n pa va (page_offset k - page_offset i) permission st = Ok (False, st)"
proof -
  have "unat (page_offset k) = k * 4096" "unat (page_offset i) = i * 4096"
    using i k by (simp_all add: unat_page_offset)
  then have "unat (page_offset k - page_offset i) = k * 4096 - i * 4096"
    using i by (subst unat_sub_le) (simp_all add: word_le_nat_alt)
  then have "unat (page_offset k - page_offset i) < 0x200000" using k by linarith
  then show "associate_1gb self n pa va (page_offset k - page_offset i) permission st = Ok (False, st)"
    and "associate_2mb self n pa va (page_offset k - page_offset i) permission st = Ok (False, st)"
    by (simp_all add: associate_1gb_def associate_2mb_def word_le_nat_alt)
qed

lemma area_step:
  assumes i: "i \<le> k" and k: "k < 512"
  shows "associate_area_loop (Suc f) self n pa va (page_offset k) permission (page_offset i) st =
    obind (associate_address self n (pa + page_offset i) (va + page_offset i) permission st) (\<lambda>(_, st).
      associate_area_loop f self n pa va (page_offset k) permission (page_offset (Suc i)) st)"
proof -
  have "page_offset i \<le> page_offset k" using i k by (simp add: word_le_nat_alt unat_page_offset)
  then show ?thesis by (simp add: Let_def no_huge_pages [OF i k] page_offset_Suc)
qed

lemma area_end:
  assumes "k < 512"
  shows "associate_area_loop (Suc f) self n pa va (page_offset k) permission (page_offset (Suc k)) st = Ok ((), st)"
proof -
  have "\<not> page_offset (Suc k) \<le> page_offset k" using assms by (simp add: word_le_nat_alt unat_page_offset)
  then show ?thesis by simp
qed

lemma area_loop:
  assumes "pt_inv self n M st" and "area_ok self st pa va k" and "i \<le> Suc k" and "k < 512" and "k + 2 \<le> f + i"
  shows "case associate_area_loop f self n pa va (page_offset k) permission (page_offset i) st of
      Ok (_, st') \<Rightarrow> pt_inv self n M st'
        \<and> (\<forall>j. i \<le> j \<and> j \<le> k \<longrightarrow>
             translate (tables st') (pml4 self) (va + page_offset j) = Some (granted (pa + page_offset j) permission))
        \<and> (\<forall>va'. (\<forall>j. i \<le> j \<and> j \<le> k \<longrightarrow> indices va' \<noteq> indices (va + page_offset j)) \<longrightarrow>
             translate (tables st') (pml4 self) va' = translate (tables st) (pml4 self) va')
    | Err (e, _) \<Rightarrow> e = MemoryCacheRanOut
    | _ \<Rightarrow> False"
  using assms
proof (induction "Suc k - i" arbitrary: i f st)
  case 0
  then obtain f' where "i = Suc k" "f = Suc f'" by (cases f) auto
  then show ?case using 0 by (auto simp: area_end simp del: associate_area_loop.simps)
next
  case (Suc d)
  then have i: "i \<le> k" and k: "k < 512" by simp_all
  obtain f' where f: "f = Suc f'" using Suc.prems(5) i by (cases f) auto
  let ?va = "\<lambda>j. va + page_offset j" and ?pa = "\<lambda>j. pa + page_offset j"
  have m: "mappable (?pa i) (?va i)" and nh: "no_huge (tables st) (pml4 self) (indices (?va i))"
    using Suc.prems(2) i by (simp_all add: area_ok_def)
  note step = area_step [OF i k, of f' self n pa va permission st, folded f]
  show ?case
  proof (cases rule: associate_address_ok [where permission = permission, OF Suc.prems(1) m nh, case_names ok full])
    case (full st')
    then show ?thesis by (simp add: step)
  next
    case (ok st1)
    have area: "area_ok self st1 pa va k"
      using Suc.prems(2) ok(5) by (auto simp: area_ok_def)
    have apart: "indices (?va j) \<noteq> indices (?va i)" if "j \<le> k" "j \<noteq> i" for j
    proof
      assume "indices (?va j) = indices (?va i)"
      then have "?va j = ?va i"
        using Suc.prems(2) that(1) i by (intro indices_inj) (auto simp: area_ok_def mappable_def)
      then have "unat (page_offset j) = unat (page_offset i)" by simp
      then show False using that i k by (simp add: unat_page_offset)
    qed
    have "d = Suc k - Suc i" "Suc i \<le> Suc k" "k + 2 \<le> f' + Suc i" using Suc.hyps(2) i Suc.prems(5) f by simp_all
    from Suc.hyps(1) [OF this(1) ok(2) area this(2) k this(3)]
    have IH: "case associate_area_loop f' self n pa va (page_offset k) permission (page_offset (Suc i)) st1 of
      Ok (_, st') \<Rightarrow> pt_inv self n M st'
        \<and> (\<forall>j. Suc i \<le> j \<and> j \<le> k \<longrightarrow>
             translate (tables st') (pml4 self) (?va j) = Some (granted (?pa j) permission))
        \<and> (\<forall>va'. (\<forall>j. Suc i \<le> j \<and> j \<le> k \<longrightarrow> indices va' \<noteq> indices (?va j)) \<longrightarrow>
             translate (tables st') (pml4 self) va' = translate (tables st1) (pml4 self) va')
    | Err (e, _) \<Rightarrow> e = MemoryCacheRanOut
    | _ \<Rightarrow> False" .
    have run: "associate_area_loop f self n pa va (page_offset k) permission (page_offset i) st =
      associate_area_loop f' self n pa va (page_offset k) permission (page_offset (Suc i)) st1"
      by (simp add: step ok(1))
    show ?thesis
    proof (cases "associate_area_loop f' self n pa va (page_offset k) permission (page_offset (Suc i)) st1")
      case (Ok r)
      then obtain st' where st': "associate_area_loop f' self n pa va (page_offset k) permission (page_offset (Suc i)) st1 = Ok ((), st')"
        by (cases r) auto
      with IH have a: "pt_inv self n M st'"
        "\<And>j. Suc i \<le> j \<Longrightarrow> j \<le> k \<Longrightarrow> translate (tables st') (pml4 self) (?va j) = Some (granted (?pa j) permission)"
        "\<And>va'. \<forall>j. Suc i \<le> j \<and> j \<le> k \<longrightarrow> indices va' \<noteq> indices (?va j) \<Longrightarrow>
           translate (tables st') (pml4 self) va' = translate (tables st1) (pml4 self) va'"
        by auto
      have "translate (tables st') (pml4 self) (?va i) = translate (tables st1) (pml4 self) (?va i)"
        using apart [THEN not_sym] by (intro a(3)) auto
      then have here: "translate (tables st') (pml4 self) (?va i) = Some (granted (?pa i) permission)"
        using ok(3) by (simp add: granted_def)
      have "translate (tables st') (pml4 self) (?va j) = Some (granted (?pa j) permission)" if "i \<le> j" "j \<le> k" for j
        using that here a(2) by (cases "j = i") auto
      moreover have "translate (tables st') (pml4 self) va' = translate (tables st) (pml4 self) va'"
        if "\<forall>j. i \<le> j \<and> j \<le> k \<longrightarrow> indices va' \<noteq> indices (?va j)" for va'
        using that i a(3) [of va'] ok(4) [of va'] by simp
      ultimately show ?thesis using a(1) by (simp add: run st')
    qed (use IH in \<open>auto simp: run\<close>)
  qed
qed

section \<open>A sample address space\<close>

text \<open>
  Four tables that map the address 0, used to show that the hypotheses of the properties can
  hold, with a memory manager that has 64 KiB of free memory elsewhere.
\<close>

definition sample_tables :: memory where
  "sample_tables t i =
     (if i \<noteq> 0 then 0
      else if t = physical_address_to_direct_map 0x200000 then link_word 0x201000
      else if t = physical_address_to_direct_map 0x201000 then link_word 0x202000
      else if t = physical_address_to_direct_map 0x202000 then link_word 0x203000
      else if t = physical_address_to_direct_map 0x203000 then page_word 0x5000 0
      else 0)"

definition sample_page_manager :: PageManager where
  "sample_page_manager = \<lparr>pml4 = physical_address_to_direct_map 0x200000, is_1gb_paging_supported = False\<rparr>"

definition sample_managed :: "nat set" where
  "sample_managed = {0x100000 ..< 0x110000} \<union> {0x200000 ..< 0x204000}"

lemma sample_links:
  "next_table (link_word 0x201000) = physical_address_to_direct_map 0x201000"
  "next_table (link_word 0x202000) = physical_address_to_direct_map 0x202000"
  "next_table (link_word 0x203000) = physical_address_to_direct_map 0x203000"
  by (intro link_word(4); simp)+

lemma sample_not_table [simp]: "\<not> is_table 0" "\<not> is_table (page_word 0x5000 0)"
  by (simp_all add: is_table_def bit_page_word page_mask_aligned)

lemma sample_table_at:
  "table_at sample_tables (physical_address_to_direct_map 0x203000) p = (if p = [] then Some (physical_address_to_direct_map 0x203000) else None)"
  by (cases p) (simp_all add: sample_tables_def)

lemma sample_tree:
  "tree sample_tables (pml4 sample_page_manager) p =
     (if p = [] then Some (physical_address_to_direct_map 0x200000)
      else if p = [0] then Some (physical_address_to_direct_map 0x201000)
      else if p = [0, 0] then Some (physical_address_to_direct_map 0x202000)
      else if p = [0, 0, 0] then Some (physical_address_to_direct_map 0x203000)
      else None)"
proof -
  let ?d = physical_address_to_direct_map
  have t3: "table_at sample_tables (?d 0x202000) p =
      (if p = [] then Some (?d 0x202000) else if p = [0] then Some (?d 0x203000) else None)" for p
    by (cases p) (auto simp: sample_tables_def sample_links link_word(1) sample_table_at)
  have t2: "table_at sample_tables (?d 0x201000) p =
      (if p = [] then Some (?d 0x201000) else if p = [0] then Some (?d 0x202000)
       else if p = [0, 0] then Some (?d 0x203000) else None)" for p
    by (cases p) (auto simp: sample_tables_def sample_links link_word(1) t3)
  show ?thesis
    by (cases p) (auto simp: tree_def sample_page_manager_def sample_tables_def sample_links link_word(1) t2)
qed

lemma sample_ok: "tables_ok sample_tables (pml4 sample_page_manager)"
proof -
  have e: "entry_ok (p = []) (sample_tables t i)" if "tree sample_tables (pml4 sample_page_manager) p = Some t" "length p < 3" for p t i
    using that by (auto simp: sample_tree sample_tables_def link_word(2) entry_ok_def [of _ 0] split: if_splits)
  then show ?thesis
    by (auto simp: tables_ok_def one_path_def inj_on_def sample_tree split: if_splits)
qed

definition sample_state :: "PhysicalMemoryManager \<Rightarrow> paging_state" where
  "sample_state pm = \<lparr>pm_manager = pm\<lparr>memory_size := 0x20000\<rparr>, tables = sample_tables\<rparr>"

lemma sample_inv:
  "\<exists>pm. free 8 sample_manager 0x100000 0x10000 True = Ok pm
    \<and> pt_inv sample_page_manager 8 sample_managed (sample_state pm)
    \<and> (\<exists>pm' a. alloc 8 (pm_manager (sample_state pm)) PAGE_SIZE PAGE_SHIFT = Ok (pm', a))"
proof -
  from sample_ready obtain s fls where run: "free 8 sample_manager 0x100000 0x10000 True = Ok s"
    and inv: "pmm_inv s [0x1000] fls [0x1038]" and F: "free_bytes s [0x1000] = {0x100000 ..< 0x110000}" by blast
  let ?s = "s\<lparr>memory_size := 0x20000\<rparr>"
  have inv': "pmm_inv ?s [0x1000] fls [0x1038]" using inv by (simp add: pmm_inv_def listed_def)
  have F': "free_bytes ?s [0x1000] = {0x100000 ..< 0x110000}" using F by (simp add: free_bytes_def)
  have "paired (free_bytes ?s [0x1000])" "\<forall>x \<in> free_bytes ?s [0x1000]. x + 2 ^ 12 \<le> 2 ^ 64"
    using sample_paired by (simp_all add: F F')
  moreover have "length [0x1000 :: usize] + length [0x1038 :: usize] < 8" by simp
  ultimately have ok: "pmm_ok 8 ?s" using inv' unfolding pmm_ok_def by blast
  have S: "pmm_free_set 8 ?s = {0x100000 ..< 0x110000}"
    using free_entries_inv [OF inv', of 8] by (simp add: pmm_free_set_def F')
  have fr: "table_frames sample_tables (pml4 sample_page_manager) = {0x200000, 0x201000, 0x202000, 0x203000}"
  proof -
    have "ran (tree sample_tables (pml4 sample_page_manager)) =
        physical_address_to_direct_map ` {0x200000, 0x201000, 0x202000, 0x203000}"
      (is "?R = _")
    proof (intro equalityI subsetI)
      fix t
      assume "t \<in> ?R"
      then obtain p where "tree sample_tables (pml4 sample_page_manager) p = Some t" by (auto simp: ran_def)
      then show "t \<in> physical_address_to_direct_map ` {0x200000, 0x201000, 0x202000, 0x203000}"
        unfolding sample_tree by (simp split: if_splits)
    next
      have "physical_address_to_direct_map 0x200000 \<in> ?R" by (rule ranI [of _ "[]"]) (simp only: sample_tree, simp)
      moreover have "physical_address_to_direct_map 0x201000 \<in> ?R" by (rule ranI [of _ "[0]"]) (simp only: sample_tree, simp)
      moreover have "physical_address_to_direct_map 0x202000 \<in> ?R" by (rule ranI [of _ "[0, 0]"]) (simp only: sample_tree, simp)
      moreover have "physical_address_to_direct_map 0x203000 \<in> ?R" by (rule ranI [of _ "[0, 0, 0]"]) (simp only: sample_tree, simp)
      moreover fix t
      assume "t \<in> physical_address_to_direct_map ` {0x200000, 0x201000, 0x202000, 0x203000}"
      ultimately show "t \<in> ?R" by (elim imageE insertE emptyE) (simp_all only:)
    qed
    then show ?thesis by (simp add: table_frames_def)
  qed
  have "card sample_managed = 0x14000" "finite sample_managed" "sample_managed \<subseteq> {..< 2 ^ 52}"
    by (auto simp: sample_managed_def card_Un_disjoint)
  then have "holds (pmm_ok 8 ?s) (pmm_free_set 8 ?s) (unat (memory_size ?s)) sample_managed
      {0x200000, 0x201000, 0x202000, 0x203000}"
    unfolding holds_def S using ok by (auto simp: sample_managed_def page_of_eq)
  then have "pt_inv sample_page_manager 8 sample_managed (sample_state s)"
    using sample_ok by (simp add: pt_inv_def sample_state_def fr)
  moreover have "\<exists>pm' a. alloc 8 (pm_manager (sample_state s)) PAGE_SIZE PAGE_SHIFT = Ok (pm', a)"
    using sample_alloc [OF inv' F'] by (auto simp: sample_state_def PAGE_SIZE_def PAGE_SHIFT_def)
  ultimately show ?thesis using run by blast
qed

section \<open>Changing the rights of a page\<close>

definition leaf_access :: "VAddress \<Rightarrow> PTE \<Rightarrow> access" where
  "leaf_access va e = (e AND mask 52 AND NOT (mask 12) OR va AND mask 12, bit e 1, bit e 2, \<not> bit e 63)"

lemma translate_page:
  assumes inv: "pt_inv self n M st" and path: "page_path (tables st) (pml4 self) va t"
  defines "e \<equiv> tables st t (table_index 0 va)"
  shows "translate (tables st) (pml4 self) va = (if bit e 0 then Some (leaf_access va e) else None)"
proof -
  have "put_entry st (t, table_index 0 va) e = st"
    using put_entry_simps(4) [of st "(t, table_index 0 va)"] by (simp add: e_def get_entry_def)
  with put_page(4) [OF inv path, of e] obtain es where es: "length es = 3" "rights es"
    and w: "hw_walk (tables st) (pml4 self) [] (indices va) = (if bit e 0 then Some (es @ [e]) else None)"
    by auto
  have "page_access va (es @ [e]) = leaf_access va e"
    using es by (auto simp: page_access_def leaf_access_def Let_def rights_def)
  then show ?thesis by (simp add: translate_def w)
qed

text \<open>
  Remark. \<open>change_memory_permission\<close> changes the rights of one page: the address it maps
  to stays the same, it gets exactly the new rights, and no other page changes. A page whose
  tables exist but which is not mapped stays unmapped, and the call still succeeds.
\<close>

theorem change_memory_permission_changes_rights:
  assumes "pt_inv self n M st" and "unat va mod 4096 = 0" and "page_path (tables st) (pml4 self) va t"
  shows "\<exists>st'. change_memory_permission self n va permission st = Ok ((), st') \<and> pt_inv self n M st'
    \<and> translate (tables st') (pml4 self) va =
        map_option (\<lambda>(pa, _). granted pa permission) (translate (tables st) (pml4 self) va)
    \<and> (\<forall>va'. indices va' \<noteq> indices va \<longrightarrow>
        translate (tables st') (pml4 self) va' = translate (tables st) (pml4 self) va')"
proof -
  let ?r = "(t, table_index 0 va)"
  let ?e = "PTE_set_user_accessible (PTE_set_no_execute (PTE_set_writable (get_entry st ?r)
      (is_writable permission)) (\<not> is_executable permission)) (is_user_accessible permission)"
  let ?st = "put_entry st ?r ?e"
  have run: "change_memory_permission self n va permission st = Ok ((), ?st)"
    using assms(2) by (simp add: change_memory_permission_def page_mask_aligned put_entry_simps
        get_target_paging_entry_page [OF assms(2,3)] Let_def)
  note l = put_page [where e = ?e, OF assms(1,3)]
  have e: "tables ?st t (table_index 0 va) = ?e" by (simp add: put_entry_simps put_word_simps)
  have "?e AND mask 52 AND NOT (mask 12) = get_entry st ?r AND mask 52 AND NOT (mask 12)"
    by (rule bit_eqI) (auto simp: bit_and_iff bit_not_iff bit_mask_iff pte.rights(6))
  moreover have "bit ?e 0 \<longleftrightarrow> bit (get_entry st ?r) 0" by (simp add: pte.rights(6))
  ultimately have "translate (tables ?st) (pml4 self) va =
      map_option (\<lambda>(pa, _). granted pa permission) (translate (tables st) (pml4 self) va)"
    unfolding translate_page [OF assms(1,3)] translate_page [OF l(1,2)] e
    by (simp add: leaf_access_def granted_def get_entry_def pte.rights(6))
  then show ?thesis using run l(1,3) by blast
qed

lemma sample_path: "page_path (tables (sample_state pm)) (pml4 sample_page_manager) 0 (physical_address_to_direct_map 0x203000)"
proof -
  have "table_index 3 0 = 0" "table_index 2 0 = 0" "table_index 1 0 = 0" by (simp_all add: table_index_def)
  then show ?thesis by (simp add: page_path_def sample_state_def sample_tree)
qed

theorem change_memory_permission_changes_rights_witness:
  "\<exists>pm st'. free 8 sample_manager 0x100000 0x10000 True = Ok pm
    \<and> change_memory_permission sample_page_manager 8 0 data (sample_state pm) = Ok ((), st')
    \<and> pt_inv sample_page_manager 8 sample_managed st'"
proof -
  obtain pm where pm: "free 8 sample_manager 0x100000 0x10000 True = Ok pm"
    and inv: "pt_inv sample_page_manager 8 sample_managed (sample_state pm)"
    using sample_inv by blast
  have "unat (0 :: usize) mod 4096 = 0" by simp
  from change_memory_permission_changes_rights [OF inv this sample_path, of data] pm show ?thesis by blast
qed

section \<open>Mapping and unmapping\<close>

text \<open>
  Property C10. Mapping a page does what it says: on success the processor translates the page
  to the given physical address with exactly the given rights, the translation of every
  other canonical page is what it was, and the tables and the memory manager are consistent.
  The only error is that no page is free for a table; there is no panic. The hypotheses are
  the invariant of the page manager, aligned addresses, a canonical virtual address, a
  physical address the entry format can hold, and that no huge page is in the way.
\<close>

theorem associate_address_maps:
  assumes "pt_inv self n M st" and "mappable pa va" and "no_huge (tables st) (pml4 self) (indices va)"
  shows "case associate_address self n pa va permission st of
      Ok (_, st') \<Rightarrow> pt_inv self n M st'
        \<and> translate (tables st') (pml4 self) va = Some (granted pa permission)
        \<and> (\<forall>va'. canonical va' \<and> unat va' mod 4096 = 0 \<and> va' \<noteq> va \<longrightarrow>
             translate (tables st') (pml4 self) va' = translate (tables st) (pml4 self) va')
    | Err (e, _) \<Rightarrow> e = MemoryCacheRanOut
    | _ \<Rightarrow> False"
proof (cases rule: associate_address_ok [where permission = permission, OF assms, case_names ok full])
  case (ok st')
  have "indices va' \<noteq> indices va" if "canonical va'" "unat va' mod 4096 = 0" "va' \<noteq> va" for va'
    using that indices_inj [of va' va] assms(2) by (auto simp: mappable_def)
  then show ?thesis using ok(1-4) by (simp add: granted_def)
next
  case (full st')
  then show ?thesis by simp
qed

lemma sample_no_huge: "no_huge (tables (sample_state pm)) (pml4 sample_page_manager) is"
proof -
  have "\<not> is_huge (sample_tables t i)" if "t \<noteq> physical_address_to_direct_map 0x203000" for t i
    using that by (simp add: sample_tables_def is_huge_def bit_link_word)
  moreover have "\<not> is_huge (page_word 0x5000 0)" by (simp add: is_huge_def bit_page_word page_mask_aligned)
  then have "\<not> is_huge (sample_tables (physical_address_to_direct_map 0x203000) i)" for i
    by (simp add: sample_tables_def is_huge_def)
  ultimately have "\<not> is_huge (sample_tables t i)" for t i by (cases "t = physical_address_to_direct_map 0x203000") auto
  then show ?thesis by (simp add: no_huge_def sample_state_def)
qed

lemma sample_mappable: "mappable 0x7000 0x1000"
  by (simp add: mappable_def canonical_def is_address_canonical_def range_contains_def CANONICAL_AREA_LOW_def)

theorem associate_address_maps_witness:
  "\<exists>pm. free 8 sample_manager 0x100000 0x10000 True = Ok pm
    \<and> (case associate_address sample_page_manager 8 0x7000 0x1000 data (sample_state pm) of
         Ok (_, st') \<Rightarrow> pt_inv sample_page_manager 8 sample_managed st'
           \<and> translate (tables st') (pml4 sample_page_manager) 0x1000 = Some (granted 0x7000 data)
       | Err (e, _) \<Rightarrow> e = MemoryCacheRanOut
       | _ \<Rightarrow> False)"
proof -
  obtain pm where pm: "free 8 sample_manager 0x100000 0x10000 True = Ok pm"
    and inv: "pt_inv sample_page_manager 8 sample_managed (sample_state pm)"
    using sample_inv by blast
  from associate_address_maps [OF inv sample_mappable sample_no_huge, of data] pm show ?thesis
    by (cases "associate_address sample_page_manager 8 0x7000 0x1000 data (sample_state pm)") auto
qed

text \<open>
  Property C11. Unmapping a page takes its translation away and no other, and gives back the
  pages of tables that have no present entry left: when it succeeds, every table still on the
  path of the address has a present entry, and in any case tables only go away and the free
  memory grows by exactly the pages of the tables that went. The tables and the memory manager
  stay consistent, also when giving a page back fails for want of an entry, the only error.
  There is no panic.
\<close>

theorem unassociate_address_unmaps:
  assumes "pt_inv self n M st" and "unat va mod 4096 = 0" and "page_path (tables st) (pml4 self) va t"
  shows "\<exists>st'. pt_inv self n M st' \<and> translate (tables st') (pml4 self) va = None
    \<and> (\<forall>va'. indices va' \<noteq> indices va \<longrightarrow> translate (tables st') (pml4 self) va' = translate (tables st) (pml4 self) va')
    \<and> table_frames (tables st') (pml4 self) \<subseteq> table_frames (tables st) (pml4 self)
    \<and> pmm_free_set n (pm_manager st') = pmm_free_set n (pm_manager st) \<union>
         \<Union> (page_of ` (table_frames (tables st) (pml4 self) - table_frames (tables st') (pml4 self)))
    \<and> (unassociate_address self n va d st = Ok ((), st') \<and> path_tidy self va st'
       \<or> unassociate_address self n va d st = Err (MemoryCacheOverflowed, st'))"
proof -
  from unassociate_address_ok [OF assms, of d] obtain st' where st': "pt_inv self n M st'"
      "translate (tables st') (pml4 self) va = None"
      "\<forall>va'. indices va' \<noteq> indices va \<longrightarrow> translate (tables st') (pml4 self) va' = translate (tables st) (pml4 self) va'"
    and sh: "shrunk self n st st'"
    and r: "unassociate_address self n va d st = Ok ((), st') \<and> path_tidy self va st'
       \<or> unassociate_address self n va d st = Err (MemoryCacheOverflowed, st')" by blast
  have "table_frames (tables st') (pml4 self) \<subseteq> table_frames (tables st) (pml4 self)"
    using sh by (intro map_le_frames) (simp add: shrunk_def)
  with st' r sh [unfolded shrunk_def, THEN conjunct2] show ?thesis by (intro exI [of _ st']) simp
qed

theorem unassociate_address_unmaps_witness:
  "\<exists>pm st'. free 8 sample_manager 0x100000 0x10000 True = Ok pm
    \<and> pt_inv sample_page_manager 8 sample_managed st' \<and> translate (tables st') (pml4 sample_page_manager) 0 = None
    \<and> pmm_free_set 8 (pm_manager st') = pmm_free_set 8 (pm_manager (sample_state pm)) \<union>
         \<Union> (page_of ` (table_frames (tables (sample_state pm)) (pml4 sample_page_manager)
             - table_frames (tables st') (pml4 sample_page_manager)))
    \<and> (unassociate_address sample_page_manager 8 0 False (sample_state pm) = Ok ((), st')
         \<and> path_tidy sample_page_manager 0 st'
       \<or> unassociate_address sample_page_manager 8 0 False (sample_state pm) = Err (MemoryCacheOverflowed, st'))"
proof -
  obtain pm where pm: "free 8 sample_manager 0x100000 0x10000 True = Ok pm"
    and inv: "pt_inv sample_page_manager 8 sample_managed (sample_state pm)"
    using sample_inv by blast
  have "unat (0 :: usize) mod 4096 = 0" by simp
  from unassociate_address_unmaps [OF inv this sample_path, of False] pm show ?thesis by (elim exE conjE) (intro exI conjI)
qed

text \<open>
  Remark. \<open>associate_area\<close> maps the whole area with the given rights and leaves all pages
  outside alone, except for one: its loop runs while \<open>processed_size <= size\<close>, so it also maps
  the page right behind the area, to the physical page right behind the given ones. This is
  about areas of at least two pages and less than 2 MiB, where only pages of 4 KiB are used.
  The loop ends after \<open>k + 2\<close> rounds.
\<close>

theorem associate_area_maps_one_more:
  assumes "pt_inv self n M st" and "area_ok self st pa va k" and "2 \<le> k" and "k < 512"
  shows "case associate_area (k + 2) self n pa va (page_offset k) permission st of
      Ok (_, st') \<Rightarrow> pt_inv self n M st'
        \<and> (\<forall>j \<le> k. translate (tables st') (pml4 self) (va + page_offset j) = Some (granted (pa + page_offset j) permission))
        \<and> (\<forall>va'. (\<forall>j \<le> k. indices va' \<noteq> indices (va + page_offset j)) \<longrightarrow>
             translate (tables st') (pml4 self) va' = translate (tables st) (pml4 self) va')
    | Err (e, _) \<Rightarrow> e = MemoryCacheRanOut
    | _ \<Rightarrow> False"
proof -
  have "page_offset 0 = 0" by (simp add: page_offset_def)
  moreover from this have "mappable pa va" using assms(2) by (auto simp: area_ok_def)
  then have "pa AND NOT PAGE_MASK = 0" "va AND NOT PAGE_MASK = 0" by (simp_all add: mappable_def page_mask_aligned)
  moreover have "page_offset k AND NOT PAGE_MASK = 0" using assms(4) by (simp add: page_mask_aligned unat_page_offset)
  moreover have "unat (page_offset k) \<noteq> unat PAGE_SIZE" using assms(3,4) by (simp add: unat_page_offset PAGE_SIZE_def)
  then have "page_offset k \<noteq> PAGE_SIZE" by auto
  ultimately have "associate_area (k + 2) self n pa va (page_offset k) permission st =
      associate_area_loop (k + 2) self n pa va (page_offset k) permission (page_offset 0) st"
    by (simp add: associate_area_def del: associate_area_loop.simps)
  with area_loop [OF assms(1,2) _ assms(4), of 0 "k + 2" permission] show ?thesis
    by (simp del: associate_area_loop.simps add_2_eq_Suc add_2_eq_Suc'
        cong del: outcome.case_cong_weak prod.case_cong_weak)
qed

theorem associate_area_maps_one_more_witness:
  "\<exists>pm. free 8 sample_manager 0x100000 0x10000 True = Ok pm
    \<and> (case associate_area (2 + 2) sample_page_manager 8 0x7000 0x1000 (page_offset 2) data (sample_state pm) of
         Ok (_, st') \<Rightarrow> translate (tables st') (pml4 sample_page_manager) (0x1000 + page_offset 2) =
             Some (granted (0x7000 + page_offset 2) data)
       | Err (e, _) \<Rightarrow> e = MemoryCacheRanOut
       | _ \<Rightarrow> False)"
proof -
  obtain pm where pm: "free 8 sample_manager 0x100000 0x10000 True = Ok pm"
    and inv: "pt_inv sample_page_manager 8 sample_managed (sample_state pm)"
    using sample_inv by blast
  have "mappable (0x7000 + page_offset j) (0x1000 + page_offset j)" if "j \<le> 2" for j
  proof -
    have "j = 0 \<or> j = 1 \<or> j = 2" using that by linarith
    then show ?thesis
      by (auto simp: mappable_def canonical_def is_address_canonical_def range_contains_def
          CANONICAL_AREA_LOW_def page_offset_def)
  qed
  then have "area_ok sample_page_manager (sample_state pm) 0x7000 0x1000 2"
    using sample_no_huge by (auto simp: area_ok_def)
  from associate_area_maps_one_more [OF inv this, of data] pm show ?thesis
    by (cases "associate_area (2 + 2) sample_page_manager 8 0x7000 0x1000 (page_offset 2) data (sample_state pm)") auto
qed

section \<open>Errors\<close>

text \<open>
  Remark. A mapping that fails because no page is left for a page directory leaves the
  entry above it marked present without an address. Unmapping the address, which should
  ignore the missing entry, then panics in \<open>cleanup_page_table\<close>.
\<close>

theorem failed_mapping_breaks_unmapping:
  fixes st :: paging_state
  defines "T \<equiv> tables st"
  assumes "unat pa mod 4096 = 0" and "unat va mod 4096 = 0" and "canonical va"
    and "is_table (T (pml4 self) (table_index 3 va))" and "u = next_table (T (pml4 self) (table_index 3 va))"
    and "\<not> bit (T u (table_index 2 va)) 52" and "\<not> bit (T u (table_index 2 va)) 7"
    and "alloc n (pm_manager st) PAGE_SIZE PAGE_SHIFT = Err err"
  shows "\<exists>st'. associate_address self n pa va permission st = Err (MemoryCacheRanOut, st')
    \<and> PDPTE_is_present (tables st' u (table_index 2 va)) \<and> \<not> PDPTE_is_address_set (tables st' u (table_index 2 va))
    \<and> unassociate_address self n va True st' = Panic"
proof -
  let ?r4 = "(pml4 self, table_index 3 va)" and ?r3 = "(u, table_index 2 va)"
  let ?e4 = "PML4E_set_present (get_entry st ?r4) True" and ?e3 = "PDPTE_set_present (get_entry st ?r3) True"
  let ?st = "put_entry (put_entry st ?r4 ?e4) ?r3 ?e3"
  have al: "pa AND NOT PAGE_MASK = 0" "va AND NOT PAGE_MASK = 0" using assms(2,3) by (simp_all add: page_mask_aligned)
  have e4: "bit ?e4 52" "frame ?e4 = frame (get_entry st ?r4)" "bit (get_entry st ?r4) 52"
    using assms(5) by (auto simp: pml4e.set_present is_table_def get_entry_def T_def frame_def bit_and_iff intro!: bit_eqI)
  have u: "physical_address_to_direct_map (frame (get_entry st ?r4)) = u"
    using assms(6) by (simp add: next_table_def get_entry_def T_def)
  have e3: "\<not> bit ?e3 52" "\<not> bit ?e3 7" "bit ?e3 0"
    using assms(7,8) by (simp_all add: pdpte.set_present get_entry_def T_def)
  have ne: "?r3 \<noteq> ?r4" using assms(7) e4(3) by (auto simp: get_entry_def T_def)
  then have get: "get_entry ?st ?r3 = ?e3" "get_entry ?st ?r4 = ?e4"
    "get_entry (put_entry st ?r4 ?e4) ?r3 = get_entry st ?r3"
    by (simp_all add: put_entry_simps del: prod.inject)
  have pdpte: "get_target_pdpte self n va True True True st = Ok (?r3, ?st)"
    using al e4 u get(3) by (simp add: get_target_pdpte_def Let_def pml4e.is_address_set PML4E_address put_entry_simps)
  have "create_table PDE_init PDPTE_init PDPTE_set_address n ?r3 ?st = Err (MemoryCacheRanOut, ?st)"
    using assms(9) by (intro pdpte.create_full) (simp add: put_entry_simps)
  then have pde: "get_target_pde self n va True True True None st = Err (MemoryCacheRanOut, ?st)"
    using e3 by (simp add: get_target_pde_def Let_def pdpte pdpte.is_address_set get)
  then have "associate_address self n pa va permission st = Err (MemoryCacheRanOut, ?st)"
    using al canonical_accepted [OF assms(4)] by (auto simp: associate_address_def get_target_pte_def Let_def)
  moreover have "tables ?st u (table_index 2 va) = ?e3" using get(1) by (simp add: get_entry_def)
  moreover have "unassociate_address self n va True ?st = Panic"
  proof -
    have "get_target_pdpte self n va False False False ?st = Ok (?r3, ?st)"
      using al e4 u get by (simp add: get_target_pdpte_def Let_def pml4e.is_address_set PML4E_address)
    then have "get_target_paging_entry self n va False False False ?st = Err (EntryIsNotFound, ?st)"
      using e3 by (simp add: get_target_paging_entry_def get_target_pde_def Let_def PDPTE_is_huge_def get
          pdpte.is_address_set)
    moreover have "cleanup_page_table self n va ?st = Panic"
      using e4 e3 u get by (simp add: cleanup_page_table_def cleanup_pd_def Let_def pml4e.is_address_set PML4E_address
          unwrap_or_panic_def pdpte.is_present PDPTE_is_huge_def pdpte.get_address_unset)
    ultimately show ?thesis by (simp add: unassociate_address_def)
  qed
  ultimately show ?thesis using e3 by (auto simp: pdpte.is_present pdpte.is_address_set)
qed

theorem failed_mapping_breaks_unmapping_witness:
  "\<exists>st'. associate_address sample_page_manager 8 0x7000 0x40000000 data
        \<lparr>pm_manager = sample_manager, tables = sample_tables\<rparr> = Err (MemoryCacheRanOut, st')
    \<and> unassociate_address sample_page_manager 8 0x40000000 True st' = Panic"
proof -
  let ?st = "\<lparr>pm_manager = sample_manager, tables = sample_tables\<rparr>"
  let ?u = "physical_address_to_direct_map 0x201000"
  have i: "table_index 3 0x40000000 = 0" "table_index 2 0x40000000 = 1"
    by (simp_all add: table_index_def PAGE_SHIFT_def)
  have al: "alloc 8 (pm_manager ?st) PAGE_SIZE PAGE_SHIFT = Err InvalidSize"
    by (simp add: alloc_def sample_manager_def PhysicalMemoryManager_new_def PAGE_SIZE_def)
  have e4: "is_table (tables ?st (pml4 sample_page_manager) (table_index 3 0x40000000))"
    "?u = next_table (tables ?st (pml4 sample_page_manager) (table_index 3 0x40000000))"
    by (simp_all add: i sample_tables_def sample_page_manager_def link_word(1) sample_links)
  have e3: "\<not> bit (tables ?st ?u (table_index 2 0x40000000)) 52" "\<not> bit (tables ?st ?u (table_index 2 0x40000000)) 7"
    by (simp_all add: i sample_tables_def)
  have ar: "unat (0x7000 :: usize) mod 4096 = 0" "unat (0x40000000 :: usize) mod 4096 = 0" "canonical 0x40000000"
    by (simp_all add: canonical_def is_address_canonical_def range_contains_def CANONICAL_AREA_LOW_def)
  from failed_mapping_breaks_unmapping [OF ar e4 e3 al, of data] show ?thesis
    by (elim exE conjE) (intro exI conjI)
qed

text \<open>
  Remark. The check for canonical addresses in \<open>associate_address\<close> accepts the
  non-canonical addresses from \<open>0x0000800000000000\<close> to \<open>0x0000FFFFFFFFFFFF\<close>. Mapping one of
  them maps the kernel address with the same low 48 bits.
\<close>

theorem noncanonical_address_accepted:
  assumes "pt_inv self n M st" and "mappable pa (va OR 0xFFFF000000000000)"
    and "drop_bit 48 va = 0" and "bit va 47"
    and "no_huge (tables st) (pml4 self) (indices (va OR 0xFFFF000000000000))"
  shows "\<not> is_address_canonical va va
    \<and> (case associate_address self n pa va permission st of
         Ok (_, st') \<Rightarrow> translate (tables st') (pml4 self) (va OR 0xFFFF000000000000) = Some (granted pa permission)
       | Err (e, _) \<Rightarrow> e = MemoryCacheRanOut
       | _ \<Rightarrow> False)"
proof -
  let ?k = "va OR 0xFFFF000000000000"
  have eq: "(0xFFFF000000000000 :: usize) = push_bit 48 (mask 16)" by (simp add: mask_eq_exp_minus_1)
  have hi: "bit (0xFFFF000000000000 :: usize) i \<longleftrightarrow> 48 \<le> i \<and> i < 64" for i
    unfolding eq by (auto simp: bit_push_bit_iff bit_mask_iff)
  have ti: "table_index l va = table_index l ?k" if "l \<in> {0, 1, 2, 3}" for l
    using that by (intro bit_eqI) (auto simp: bit_table_index bit_or_iff hi)
  have al: "va AND NOT PAGE_MASK = ?k AND NOT PAGE_MASK"
    unfolding not_PAGE_MASK by (rule bit_eqI) (auto simp: bit_and_iff bit_or_iff bit_mask_iff hi)
  have t: "get_target_pte self n va True True None st = get_target_pte self n ?k True True None st"
    by (simp add: get_target_pte_def get_target_pde_def get_target_pdpte_def ti al cong del: if_weak_cong)
  have c: "canonical ?k" using assms(2) by (simp add: mappable_def)
  have run: "associate_address self n pa va permission st = associate_address self n pa ?k permission st"
    using assms(3) canonical_accepted [OF c] by (auto simp: associate_address_def t al)
  have nc: "\<not> canonical va"
  proof
    assume "canonical va"
    then have "bit va 48" using canonical_sign [of va 48] assms(4) by simp
    moreover have "\<not> bit (drop_bit 48 va) 0" unfolding assms(3) by simp
    ultimately show False by (simp add: bit_drop_bit_eq)
  qed
  show ?thesis
    using nc by (cases rule: associate_address_ok [where permission = permission, OF assms(1,2,5), case_names ok full])
      (auto simp: run granted_def canonical_def)
qed

theorem noncanonical_address_accepted_witness:
  "\<exists>pm. free 8 sample_manager 0x100000 0x10000 True = Ok pm
    \<and> \<not> is_address_canonical 0x0000800000000000 0x0000800000000000
    \<and> (case associate_address sample_page_manager 8 0x7000 0x0000800000000000 data (sample_state pm) of
         Ok (_, st') \<Rightarrow> translate (tables st') (pml4 sample_page_manager) 0xFFFF800000000000 = Some (granted 0x7000 data)
       | Err (e, _) \<Rightarrow> e = MemoryCacheRanOut
       | _ \<Rightarrow> False)"
proof -
  obtain pm where pm: "free 8 sample_manager 0x100000 0x10000 True = Ok pm"
    and inv: "pt_inv sample_page_manager 8 sample_managed (sample_state pm)"
    using sample_inv by blast
  have k: "(0x0000800000000000 :: usize) OR 0xFFFF000000000000 = 0xFFFF800000000000" by simp
  have m: "mappable 0x7000 (0x0000800000000000 OR 0xFFFF000000000000)"
    by (simp add: mappable_def canonical_def is_address_canonical_def range_contains_def
        CANONICAL_AREA_LOW_def CANONICAL_AREA_HIGH_def)
  have b: "drop_bit 48 (0x0000800000000000 :: usize) = 0" "bit (0x0000800000000000 :: usize) 47"
    by (simp_all add: bit_numeral_word_iff)
  from noncanonical_address_accepted [OF inv m b sample_no_huge, of data] pm show ?thesis
    unfolding k by blast
qed

section \<open>Address spaces of processes\<close>

lemma indices_high: "table_index 3 va \<ge> 256 \<longleftrightarrow> bit va 47"
proof -
  have "unat (table_index 3 va) < 512" using table_index_less [of 3 va] by (simp add: word_less_nat_alt)
  then have "256 \<le> unat (table_index 3 va) \<longleftrightarrow> odd (unat (table_index 3 va) div 256)"
    by (cases "256 \<le> unat (table_index 3 va)") (auto simp: div_if)
  also have "\<dots> \<longleftrightarrow> bit (unat (table_index 3 va)) 8" unfolding bit_iff_odd by simp
  also have "\<dots> \<longleftrightarrow> bit (table_index 3 va) 8" unfolding bit_unsigned_iff by (auto dest: bit_imp_le_length)
  also have "\<dots> \<longleftrightarrow> bit va 47" by (simp add: bit_table_index)
  finally show ?thesis by (simp add: word_le_nat_alt)
qed

lemma hw_walk_same_entry:
  "T root i = T root' i \<Longrightarrow> hw_walk T root [] (i # is) = hw_walk T root' [] (i # is)"
  by (simp add: Let_def)

text \<open>
  Property C12. The address space that \<open>init_user\<close> builds for a process shares the kernel's
  half with the system's address space, translation by translation, and maps nothing in the
  user's half; the system's own translations are not changed.
\<close>

theorem init_user_shares_kernel:
  assumes "pt_inv system n M st" and "init_user n self system st = Ok (self', st')"
  shows "(\<forall>va. translate (tables st') (pml4 system) va = translate (tables st) (pml4 system) va)
    \<and> (\<forall>va. translate (tables st') (pml4 self') va =
          (if bit va 47 then translate (tables st) (pml4 system) va else None))"
proof -
  let ?T = "tables st"
  have ok: "tables_ok ?T (pml4 system)" and h: "holds (pmm_ok n (pm_manager st)) (pmm_free_set n (pm_manager st))
      (unat (memory_size (pm_manager st))) M (table_frames ?T (pml4 system))"
    using assms(1) by (simp_all add: pt_inv_def)
  from assms(2) obtain pm a where al: "alloc n (pm_manager st) PAGE_SIZE PAGE_SHIFT = Ok (pm, a)"
    by (cases "alloc n (pm_manager st) PAGE_SIZE PAGE_SHIFT") (auto simp: init_user_def alloc_page_table_def)
  let ?f = "physical_address_to_direct_map a"
  let ?row = "\<lambda>i. if 256 \<le> i \<and> i < 512 then ?T (pml4 system) i
      else if i < 512 then PML4E_init (?T ?f i) else ?T ?f i"
  have fresh: "?f \<notin> ran (tree ?T (pml4 system))"
    using frames.take_holds(2) [OF h al] by (auto simp: table_frames_def rev_image_eqI)
  then have ne: "pml4 system \<noteq> ?f" using tree_Nil [of ?T "pml4 system"] by (metis ranI)
  have hs: "table_index 3 0xFFFF800000000000 = 256" by (simp add: table_index_def PAGE_SHIFT_def)
  have self': "pml4 self' = ?f" and T': "tables st' = ?T(?f := ?row)"
    using assms(2) ne
    by (auto simp: init_user_def alloc_page_table_def al copy_system_area_def init_table_def Let_def hs
        CANONICAL_AREA_HIGH_def MAX_ENTRY_def fun_eq_iff)
  have sys: "translate (tables st') (pml4 system) va = translate ?T (pml4 system) va" for va
    using walk_fresh(2) [OF ok fresh, of "indices va" ?row] by (simp add: translate_def T')
  have "translate (tables st') ?f va = (if bit va 47 then translate ?T (pml4 system) va else None)" for va
  proof (cases "bit va 47")
    case True
    then have "tables st' ?f (table_index 3 va) = tables st' (pml4 system) (table_index 3 va)"
      using indices_high [of va] ne by (simp add: T')
    then have "hw_walk (tables st') ?f [] (indices va) = hw_walk (tables st') (pml4 system) [] (indices va)"
      unfolding indices_def by (rule hw_walk_same_entry)
    then show ?thesis using True sys [of va] by (simp add: translate_def)
  next
    case False
    then have "\<not> bit (tables st' ?f (table_index 3 va)) 0"
      using indices_high [of va] by (simp add: T' pml4e.init)
    then show ?thesis using False by (simp add: translate_def indices_def)
  qed
  then show ?thesis using sys self' by simp
qed

theorem init_user_shares_kernel_witness:
  "\<exists>pm self' st'. free 8 sample_manager 0x100000 0x10000 True = Ok pm
    \<and> init_user 8 PageManager_new sample_page_manager (sample_state pm) = Ok (self', st')
    \<and> translate (tables st') (pml4 self') 0 = None
    \<and> translate (tables st') (pml4 sample_page_manager) 0 = translate sample_tables (pml4 sample_page_manager) 0"
proof -
  obtain pm where pm: "free 8 sample_manager 0x100000 0x10000 True = Ok pm"
    and inv: "pt_inv sample_page_manager 8 sample_managed (sample_state pm)"
    and al: "\<exists>pm' a. alloc 8 (pm_manager (sample_state pm)) PAGE_SIZE PAGE_SHIFT = Ok (pm', a)"
    using sample_inv by blast
  from al obtain self' st' where run: "init_user 8 PageManager_new sample_page_manager (sample_state pm) = Ok (self', st')"
    by (auto simp: init_user_def alloc_page_table_def copy_system_area_def Let_def)
  from init_user_shares_kernel [OF inv run] pm run show ?thesis
    by (intro exI [of _ pm] exI [of _ self'] exI [of _ st']) (simp add: sample_state_def)
qed

end
