(* ===== verification/Spin_Lock.thy ===== *)
theory Spin_Lock
  imports Prelude
begin

text \<open>
  The spin locks of \<open>kernel/sync/spin_lock.rs\<close>. Each method is a function on the atomic flag
  and, for the locks that save interrupts, on the processor's flags register. Threads run
  on several processors, so a lock is a step relation in which any thread makes the next
  atomic access; what a method does to its own processor only is merged with the access to
  the flag that it surrounds. \<open>synchronize\<close> and the memory orderings have no effect in this
  sequentially consistent view.
\<close>

section \<open>Atomic accesses\<close>

definition compare_exchange :: "bool \<Rightarrow> bool \<Rightarrow> bool \<Rightarrow> bool \<times> bool" where
  "compare_exchange expected new flag = (if flag = expected then (True, new) else (False, flag))"

text \<open>The weak form may fail although the flag has the expected value.\<close>

definition compare_exchange_weak :: "bool \<Rightarrow> bool \<Rightarrow> bool \<Rightarrow> bool \<Rightarrow> bool \<times> bool" where
  "compare_exchange_weak spurious expected new flag =
     (if spurious then (False, flag) else compare_exchange expected new flag)"

section \<open>\<open>SpinLockFlag\<close>\<close>

definition SpinLockFlag_new :: bool where
  "SpinLockFlag_new = False"

definition SpinLockFlag_try_lock :: "bool \<Rightarrow> bool \<times> bool" where
  "SpinLockFlag_try_lock flag = compare_exchange False True flag"

definition SpinLockFlag_try_lock_weak :: "bool \<Rightarrow> bool \<Rightarrow> bool \<times> bool" where
  "SpinLockFlag_try_lock_weak spurious flag = compare_exchange_weak spurious False True flag"

text \<open>Where a thread is: outside, in \<open>lock\<close> before the exchange or in the inner loop, or holding.\<close>

datatype lock_pc = Outside | Trying | Spinning usize | Inside

definition SpinLockFlag_lock :: "bool \<Rightarrow> lock_pc \<Rightarrow> bool \<Rightarrow> lock_pc \<times> bool" where
  "SpinLockFlag_lock spurious pc flag =
     (case pc of
        Trying \<Rightarrow>
          (case SpinLockFlag_try_lock_weak spurious flag of (ok, f) \<Rightarrow> (if ok then Inside else Spinning 0, f))
      | Spinning count \<Rightarrow>
          if flag then (Spinning ((if count > 0x100000000 then 0 else count) + 1), flag) else (Trying, flag)
      | _ \<Rightarrow> (pc, flag))"

definition SpinLockFlag_is_locked :: "bool \<Rightarrow> bool" where
  "SpinLockFlag_is_locked flag = flag"

definition SpinLockFlagHolder_drop :: "bool \<Rightarrow> bool" where
  "SpinLockFlagHolder_drop flag = False"

record spin_state =
  lock_flag :: bool
  pcs :: "nat \<Rightarrow> lock_pc"

definition spin_init :: "spin_state \<Rightarrow> bool" where
  "spin_init s \<longleftrightarrow> lock_flag s = SpinLockFlag_new \<and> (\<forall>t. pcs s t = Outside)"

inductive spin_step :: "spin_state \<Rightarrow> spin_state \<Rightarrow> bool" where
  call_lock: "pcs s t = Outside \<Longrightarrow> spin_step s (s\<lparr>pcs := (pcs s)(t := Trying)\<rparr>)"
| run_lock: "SpinLockFlag_lock spurious (pcs s t) (lock_flag s) = (pc, f) \<Longrightarrow>
    spin_step s (s\<lparr>lock_flag := f, pcs := (pcs s)(t := pc)\<rparr>)"
| call_try_lock: "pcs s t = Outside \<Longrightarrow> SpinLockFlag_try_lock (lock_flag s) = (ok, f) \<Longrightarrow>
    spin_step s (s\<lparr>lock_flag := f, pcs := (pcs s)(t := if ok then Inside else Outside)\<rparr>)"
| drop_holder: "pcs s t = Inside \<Longrightarrow>
    spin_step s (s\<lparr>lock_flag := SpinLockFlagHolder_drop (lock_flag s), pcs := (pcs s)(t := Outside)\<rparr>)"

text \<open>
  The invariant that all the exclusive locks share: the flag is set exactly when one thread
  is inside. It is about the set of threads inside.
\<close>

definition exclusive :: "bool \<Rightarrow> nat set \<Rightarrow> bool" where
  "exclusive flag inside \<longleftrightarrow> (if flag then \<exists>t. inside = {t} else inside = {})"

lemma exclusive_enter: "exclusive False S \<Longrightarrow> exclusive True (insert t S)"
  by (simp add: exclusive_def)

lemma exclusive_leave: "exclusive flag S \<Longrightarrow> t \<in> S \<Longrightarrow> exclusive False (S - {t})"
  by (auto simp: exclusive_def split: if_splits)

definition inside :: "(nat \<Rightarrow> lock_pc) \<Rightarrow> nat set" where
  "inside p = {t. p t = Inside}"

lemma inside_upd [simp]:
  "inside (p(t := Inside)) = insert t (inside p)"
  "pc \<noteq> Inside \<Longrightarrow> inside (p(t := pc)) = inside p - {t}"
  by (auto simp: inside_def)

definition spin_inv :: "spin_state \<Rightarrow> bool" where
  "spin_inv s \<longleftrightarrow> exclusive (lock_flag s) (inside (pcs s))"

lemma lock_stays:
  assumes "SpinLockFlag_lock spurious pc flag = (pc', f)" and "exclusive flag (inside p)" and "p t = pc"
  shows "exclusive f (inside (p(t := pc')))"
proof (cases pc)
  case Trying
  show ?thesis
  proof (cases "\<not> spurious \<and> \<not> flag")
    case True
    then have "pc' = Inside" "f" using assms(1) Trying
      by (auto simp: SpinLockFlag_lock_def SpinLockFlag_try_lock_weak_def compare_exchange_weak_def compare_exchange_def)
    then show ?thesis using True assms(2) by (simp add: exclusive_enter)
  next
    case False
    then have "pc' = Spinning 0" "f = flag" using assms(1) Trying
      by (auto simp: SpinLockFlag_lock_def SpinLockFlag_try_lock_weak_def compare_exchange_weak_def compare_exchange_def
          split: if_splits)
    moreover have "t \<notin> inside p" using assms(3) Trying by (simp add: inside_def)
    ultimately show ?thesis using assms(2) by simp
  qed
next
  case (Spinning c)
  then have "pc' \<noteq> Inside" "f = flag" using assms(1) by (auto simp: SpinLockFlag_lock_def split: if_splits)
  moreover have "t \<notin> inside p" using assms(3) Spinning by (simp add: inside_def)
  ultimately show ?thesis using assms(2) by simp
qed (use assms in \<open>auto simp: SpinLockFlag_lock_def inside_def fun_upd_idem\<close>)

interpretation spin: invariant_system spin_init spin_step spin_inv
proof
  fix s
  assume "spin_init s"
  then show "spin_inv s" by (auto simp: spin_init_def spin_inv_def SpinLockFlag_new_def exclusive_def inside_def)
next
  fix s s'
  assume inv: "spin_inv s" and "spin_step s s'"
  from this(2) show "spin_inv s'"
  proof cases
    case (call_lock t)
    then have "t \<notin> inside (pcs s)" by (simp add: inside_def)
    then show ?thesis using inv call_lock by (simp add: spin_inv_def)
  next
    case (run_lock spurious t pc f)
    then show ?thesis using inv lock_stays [where p = "pcs s" and t = t, OF run_lock(2)] by (simp add: spin_inv_def)
  next
    case (call_try_lock t ok f)
    then have "t \<notin> inside (pcs s)" by (simp add: inside_def)
    then show ?thesis using inv call_try_lock exclusive_enter
      by (auto simp: spin_inv_def SpinLockFlag_try_lock_def compare_exchange_def split: if_splits)
  next
    case (drop_holder t)
    then have "t \<in> inside (pcs s)" by (simp add: inside_def)
    then show ?thesis using inv drop_holder exclusive_leave by (simp add: spin_inv_def SpinLockFlagHolder_drop_def)
  qed
qed

section \<open>Interrupts of the local processor\<close>

text \<open>The interrupt flag is bit 9 of the flags register; \<open>cli\<close> clears it.\<close>

definition interrupt_flag :: u64 where
  "interrupt_flag = 0x200"

definition disable_interrupt :: "u64 \<Rightarrow> u64" where
  "disable_interrupt r_flags = and r_flags (not interrupt_flag)"

definition interrupts_enabled :: "u64 \<Rightarrow> bool" where
  "interrupts_enabled r_flags \<longleftrightarrow> and r_flags interrupt_flag \<noteq> 0"

lemma disable_interrupt_disables [simp]: "\<not> interrupts_enabled (disable_interrupt r)"
  by (simp add: interrupts_enabled_def disable_interrupt_def and.assoc and.left_commute)

text \<open>The saved value and the register afterwards.\<close>

definition save_and_disable_local_irq :: "u64 \<Rightarrow> u64 \<times> u64" where
  "save_and_disable_local_irq r_flags = (r_flags, disable_interrupt r_flags)"

definition restore_local_irq :: "u64 \<Rightarrow> u64 \<Rightarrow> u64" where
  "restore_local_irq original r_flags = original"

section \<open>\<open>IrqSaveSpinLockFlag\<close>\<close>

text \<open>
  The result of a try is the saved value that the holder keeps. \<open>try_lock\<close> uses the weak
  exchange and \<open>try_lock_weak\<close> the strong one, as the code has it.
\<close>

definition IrqSaveSpinLockFlag_try_lock :: "bool \<Rightarrow> bool \<Rightarrow> u64 \<Rightarrow> u64 option \<times> bool \<times> u64" where
  "IrqSaveSpinLockFlag_try_lock spurious flag r_flags =
     (let (irq, r) = save_and_disable_local_irq r_flags;
          (ok, f) = compare_exchange_weak spurious False True flag
      in if ok then (Some irq, f, r) else (None, f, restore_local_irq irq r))"

definition IrqSaveSpinLockFlag_try_lock_weak :: "bool \<Rightarrow> u64 \<Rightarrow> u64 option \<times> bool \<times> u64" where
  "IrqSaveSpinLockFlag_try_lock_weak flag r_flags =
     (let (irq, r) = save_and_disable_local_irq r_flags;
          (ok, f) = compare_exchange False True flag
      in if ok then (Some irq, f, r) else (None, f, restore_local_irq irq r))"

datatype irq_pc = IrqOutside | IrqTrying | IrqSpinning usize | IrqInside u64

definition IrqSaveSpinLockFlag_lock :: "irq_pc \<Rightarrow> bool \<Rightarrow> u64 \<Rightarrow> irq_pc \<times> bool \<times> u64" where
  "IrqSaveSpinLockFlag_lock pc flag r_flags =
     (case pc of
        IrqTrying \<Rightarrow>
          (case IrqSaveSpinLockFlag_try_lock_weak flag r_flags of
             (Some irq, f, r) \<Rightarrow> (IrqInside irq, f, r)
           | (None, f, r) \<Rightarrow> (IrqSpinning 0, f, r))
      | IrqSpinning count \<Rightarrow>
          if flag then (IrqSpinning ((if count > 0x100000000 then 0 else count) + 1), flag, r_flags)
          else (IrqTrying, flag, r_flags)
      | _ \<Rightarrow> (pc, flag, r_flags))"

definition IrqSaveSpinLockFlagHolder_drop :: "u64 \<Rightarrow> bool \<Rightarrow> u64 \<Rightarrow> bool \<times> u64" where
  "IrqSaveSpinLockFlagHolder_drop irq flag r_flags = (False, restore_local_irq irq r_flags)"

record irq_state =
  irq_flag :: bool
  irq_pcs :: "nat \<Rightarrow> irq_pc"
  r_flags_of :: "nat \<Rightarrow> u64"

definition irq_init :: "(nat \<Rightarrow> u64) \<Rightarrow> irq_state \<Rightarrow> bool" where
  "irq_init r0 s \<longleftrightarrow> \<not> irq_flag s \<and> (\<forall>t. irq_pcs s t = IrqOutside) \<and> r_flags_of s = r0"

definition irq_set :: "irq_state \<Rightarrow> nat \<Rightarrow> irq_pc \<Rightarrow> bool \<Rightarrow> u64 \<Rightarrow> irq_state" where
  "irq_set s t pc f r =
     s\<lparr>irq_flag := f, irq_pcs := (irq_pcs s)(t := pc), r_flags_of := (r_flags_of s)(t := r)\<rparr>"

inductive irq_step :: "irq_state \<Rightarrow> irq_state \<Rightarrow> bool" where
  irq_call_lock: "irq_pcs s t = IrqOutside \<Longrightarrow>
    irq_step s (irq_set s t IrqTrying (irq_flag s) (r_flags_of s t))"
| irq_run_lock: "IrqSaveSpinLockFlag_lock (irq_pcs s t) (irq_flag s) (r_flags_of s t) = (pc, f, r) \<Longrightarrow>
    irq_step s (irq_set s t pc f r)"
| irq_call_try_lock: "irq_pcs s t = IrqOutside \<Longrightarrow>
    IrqSaveSpinLockFlag_try_lock spurious (irq_flag s) (r_flags_of s t) = (h, f, r) \<Longrightarrow>
    irq_step s (irq_set s t (case h of Some irq \<Rightarrow> IrqInside irq | None \<Rightarrow> IrqOutside) f r)"
| irq_drop: "irq_pcs s t = IrqInside irq \<Longrightarrow>
    IrqSaveSpinLockFlagHolder_drop irq (irq_flag s) (r_flags_of s t) = (f, r) \<Longrightarrow>
    irq_step s (irq_set s t IrqOutside f r)"

text \<open>What holds of one processor that had the flags \<open>r0\<close> before it called the lock.\<close>

fun irq_local :: "u64 \<Rightarrow> irq_pc \<Rightarrow> u64 \<Rightarrow> bool" where
  "irq_local r0 (IrqInside irq) r \<longleftrightarrow> irq = r0 \<and> r = disable_interrupt r0"
| "irq_local r0 _ r \<longleftrightarrow> r = r0"

definition irq_inside :: "(nat \<Rightarrow> irq_pc) \<Rightarrow> nat set" where
  "irq_inside p = {t. \<exists>irq. p t = IrqInside irq}"

lemma irq_inside_upd [simp]:
  "irq_inside (p(t := IrqInside irq)) = insert t (irq_inside p)"
  "(\<And>irq. pc \<noteq> IrqInside irq) \<Longrightarrow> irq_inside (p(t := pc)) = irq_inside p - {t}"
  by (auto simp: irq_inside_def)

definition irq_inv :: "(nat \<Rightarrow> u64) \<Rightarrow> irq_state \<Rightarrow> bool" where
  "irq_inv r0 s \<longleftrightarrow> exclusive (irq_flag s) (irq_inside (irq_pcs s)) \<and>
     (\<forall>t. irq_local (r0 t) (irq_pcs s t) (r_flags_of s t))"

lemmas irq_defs = IrqSaveSpinLockFlag_lock_def IrqSaveSpinLockFlag_try_lock_def
  IrqSaveSpinLockFlag_try_lock_weak_def IrqSaveSpinLockFlagHolder_drop_def save_and_disable_local_irq_def
  restore_local_irq_def compare_exchange_def compare_exchange_weak_def

lemma irq_set_inv:
  assumes "irq_inv r0 s" and "exclusive f (irq_inside ((irq_pcs s)(t := pc)))" and "irq_local (r0 t) pc r"
  shows "irq_inv r0 (irq_set s t pc f r)"
  using assms by (simp add: irq_inv_def irq_set_def)

lemma irq_lock_stays:
  assumes "IrqSaveSpinLockFlag_lock (p t) flag r = (pc, f, r')"
    and "exclusive flag (irq_inside p)" and "irq_local r0 (p t) r"
  shows "exclusive f (irq_inside (p(t := pc))) \<and> irq_local r0 pc r'"
proof (cases "p t")
  case IrqTrying
  moreover have "t \<notin> irq_inside p" using IrqTrying by (simp add: irq_inside_def)
  ultimately show ?thesis using assms exclusive_enter
    by (auto simp: irq_defs split: if_splits)
next
  case (IrqSpinning c)
  moreover have "t \<notin> irq_inside p" using IrqSpinning by (simp add: irq_inside_def)
  ultimately show ?thesis using assms by (auto simp: irq_defs split: if_splits)
qed (use assms in \<open>auto simp: irq_defs fun_upd_idem\<close>)

interpretation irq: invariant_system "irq_init r0" irq_step "irq_inv r0" for r0
proof
  fix s
  assume "irq_init r0 s"
  then show "irq_inv r0 s" by (auto simp: irq_init_def irq_inv_def exclusive_def irq_inside_def)
next
  fix s s'
  assume inv: "irq_inv r0 s" and "irq_step s s'"
  have ex: "exclusive (irq_flag s) (irq_inside (irq_pcs s))"
    and local: "irq_local (r0 t) (irq_pcs s t) (r_flags_of s t)" for t
    using inv by (simp_all add: irq_inv_def)
  from \<open>irq_step s s'\<close> show "irq_inv r0 s'"
  proof cases
    case (irq_call_lock t)
    then have "t \<notin> irq_inside (irq_pcs s)" by (simp add: irq_inside_def)
    then show ?thesis using irq_call_lock ex local [of t] irq_set_inv [OF inv] by simp
  next
    case (irq_run_lock t pc f r)
    then show ?thesis using irq_lock_stays [OF irq_run_lock(2) ex local] irq_set_inv [OF inv] by simp
  next
    case (irq_call_try_lock t spurious h f r)
    then have "t \<notin> irq_inside (irq_pcs s)" by (simp add: irq_inside_def)
    then show ?thesis using irq_call_try_lock ex local [of t] exclusive_enter irq_set_inv [OF inv]
      by (auto simp: irq_defs split: if_splits)
  next
    case (irq_drop t irq f r)
    then have "t \<in> irq_inside (irq_pcs s)" by (simp add: irq_inside_def)
    then show ?thesis using irq_drop ex local [of t] exclusive_leave irq_set_inv [OF inv]
      by (simp add: irq_defs)
  qed
qed

section \<open>\<open>ClassicIrqSaveSpinLockFlag\<close>\<close>

text \<open>
  The saved flags are in the lock itself; before the first lock the cell is uninitialised, and
  reading it then, which is undefined, is \<open>Panic\<close> here.
\<close>

record ClassicIrqSaveSpinLockFlag =
  classic_flag :: bool
  classic_irq :: "u64 option"

definition ClassicIrqSaveSpinLockFlag_new :: ClassicIrqSaveSpinLockFlag where
  "ClassicIrqSaveSpinLockFlag_new = \<lparr>classic_flag = False, classic_irq = None\<rparr>"

definition ClassicIrqSaveSpinLockFlag_try_lock ::
  "ClassicIrqSaveSpinLockFlag \<Rightarrow> u64 \<Rightarrow> bool \<times> ClassicIrqSaveSpinLockFlag \<times> u64" where
  "ClassicIrqSaveSpinLockFlag_try_lock l r_flags =
     (let (irq, r) = save_and_disable_local_irq r_flags;
          (ok, f) = compare_exchange False True (classic_flag l)
      in if ok then (True, l\<lparr>classic_flag := f, classic_irq := Some irq\<rparr>, r)
         else (False, l\<lparr>classic_flag := f\<rparr>, restore_local_irq irq r))"

definition ClassicIrqSaveSpinLockFlag_try_lock_weak ::
  "bool \<Rightarrow> ClassicIrqSaveSpinLockFlag \<Rightarrow> u64 \<Rightarrow> bool \<times> ClassicIrqSaveSpinLockFlag \<times> u64" where
  "ClassicIrqSaveSpinLockFlag_try_lock_weak spurious l r_flags =
     (let (irq, r) = save_and_disable_local_irq r_flags;
          (ok, f) = compare_exchange_weak spurious False True (classic_flag l)
      in if ok then (True, l\<lparr>classic_flag := f, classic_irq := Some irq\<rparr>, r)
         else (False, l\<lparr>classic_flag := f\<rparr>, restore_local_irq irq r))"

definition ClassicIrqSaveSpinLockFlag_lock ::
  "bool \<Rightarrow> lock_pc \<Rightarrow> ClassicIrqSaveSpinLockFlag \<Rightarrow> u64 \<Rightarrow> lock_pc \<times> ClassicIrqSaveSpinLockFlag \<times> u64" where
  "ClassicIrqSaveSpinLockFlag_lock spurious pc l r_flags =
     (case pc of
        Trying \<Rightarrow>
          (case ClassicIrqSaveSpinLockFlag_try_lock_weak spurious l r_flags of
             (ok, l', r) \<Rightarrow> (if ok then Inside else Spinning 0, l', r))
      | Spinning count \<Rightarrow> (if classic_flag l then Spinning count else Trying, l, r_flags)
      | _ \<Rightarrow> (pc, l, r_flags))"

definition ClassicIrqSaveSpinLockFlag_unlock ::
  "ClassicIrqSaveSpinLockFlag \<Rightarrow> u64 \<Rightarrow> (unit, ClassicIrqSaveSpinLockFlag \<times> u64) outcome" where
  "ClassicIrqSaveSpinLockFlag_unlock l r_flags =
     (if \<not> classic_flag l then Panic
      else case classic_irq l of
             None \<Rightarrow> Panic
           | Some irq \<Rightarrow> Ok (l\<lparr>classic_flag := False\<rparr>, restore_local_irq irq r_flags))"

record classic_state =
  classic_lock :: ClassicIrqSaveSpinLockFlag
  classic_pcs :: "nat \<Rightarrow> lock_pc"
  classic_r_flags :: "nat \<Rightarrow> u64"
  classic_panicked :: bool

definition classic_init :: "(nat \<Rightarrow> u64) \<Rightarrow> classic_state \<Rightarrow> bool" where
  "classic_init r0 s \<longleftrightarrow> classic_lock s = ClassicIrqSaveSpinLockFlag_new \<and>
     (\<forall>t. classic_pcs s t = Outside) \<and> classic_r_flags s = r0 \<and> \<not> classic_panicked s"

definition classic_set ::
  "classic_state \<Rightarrow> nat \<Rightarrow> lock_pc \<Rightarrow> ClassicIrqSaveSpinLockFlag \<Rightarrow> u64 \<Rightarrow> classic_state" where
  "classic_set s t pc l r = s\<lparr>classic_lock := l, classic_pcs := (classic_pcs s)(t := pc),
     classic_r_flags := (classic_r_flags s)(t := r)\<rparr>"

inductive classic_step :: "classic_state \<Rightarrow> classic_state \<Rightarrow> bool" where
  classic_call_lock: "classic_pcs s t = Outside \<Longrightarrow>
    classic_step s (classic_set s t Trying (classic_lock s) (classic_r_flags s t))"
| classic_run_lock:
    "ClassicIrqSaveSpinLockFlag_lock spurious (classic_pcs s t) (classic_lock s) (classic_r_flags s t) = (pc, l, r) \<Longrightarrow>
    classic_step s (classic_set s t pc l r)"
| classic_call_try_lock: "classic_pcs s t = Outside \<Longrightarrow>
    ClassicIrqSaveSpinLockFlag_try_lock (classic_lock s) (classic_r_flags s t) = (ok, l, r) \<Longrightarrow>
    classic_step s (classic_set s t (if ok then Inside else Outside) l r)"
| classic_call_unlock: "classic_pcs s t = Inside \<Longrightarrow>
    ClassicIrqSaveSpinLockFlag_unlock (classic_lock s) (classic_r_flags s t) = Ok (l, r) \<Longrightarrow>
    classic_step s (classic_set s t Outside l r)"
| classic_unlock_panics: "classic_pcs s t = Inside \<Longrightarrow>
    ClassicIrqSaveSpinLockFlag_unlock (classic_lock s) (classic_r_flags s t) = Panic \<Longrightarrow>
    classic_step s (s\<lparr>classic_panicked := True\<rparr>)"

definition classic_local :: "u64 \<Rightarrow> lock_pc \<Rightarrow> ClassicIrqSaveSpinLockFlag \<Rightarrow> u64 \<Rightarrow> bool" where
  "classic_local r0 pc l r \<longleftrightarrow>
     (if pc = Inside then classic_irq l = Some r0 \<and> r = disable_interrupt r0 else r = r0)"

definition classic_inv :: "(nat \<Rightarrow> u64) \<Rightarrow> classic_state \<Rightarrow> bool" where
  "classic_inv r0 s \<longleftrightarrow> exclusive (classic_flag (classic_lock s)) (inside (classic_pcs s)) \<and>
     (\<forall>t. classic_local (r0 t) (classic_pcs s t) (classic_lock s) (classic_r_flags s t)) \<and>
     \<not> classic_panicked s"

lemmas classic_defs = ClassicIrqSaveSpinLockFlag_lock_def ClassicIrqSaveSpinLockFlag_try_lock_def
  ClassicIrqSaveSpinLockFlag_try_lock_weak_def ClassicIrqSaveSpinLockFlag_unlock_def
  save_and_disable_local_irq_def restore_local_irq_def compare_exchange_def compare_exchange_weak_def

text \<open>A thread outside that takes the free lock, and one that changes nothing in the lock.\<close>

lemma classic_set_enter:
  assumes "classic_inv r0 s" and "\<not> classic_flag (classic_lock s)" and "classic_pcs s t \<noteq> Inside"
  shows "classic_inv r0 (classic_set s t Inside
    ((classic_lock s)\<lparr>classic_flag := True, classic_irq := Some (classic_r_flags s t)\<rparr>)
    (disable_interrupt (classic_r_flags s t)))"
proof -
  have none: "inside (classic_pcs s) = {}" using assms by (simp add: classic_inv_def exclusive_def)
  then have "classic_pcs s u \<noteq> Inside" for u by (auto simp: inside_def)
  then show ?thesis using assms none
    by (auto simp: classic_inv_def classic_set_def classic_local_def exclusive_def)
qed

lemma classic_set_wait:
  assumes "classic_inv r0 s" and "classic_pcs s t \<noteq> Inside" and "pc \<noteq> Inside"
  shows "classic_inv r0 (classic_set s t pc (classic_lock s) (classic_r_flags s t))"
proof -
  have "t \<notin> inside (classic_pcs s)" using assms by (simp add: inside_def)
  then show ?thesis using assms by (auto simp: classic_inv_def classic_set_def classic_local_def)
qed

lemma classic_set_leave:
  assumes "classic_inv r0 s" and "classic_pcs s t = Inside"
  shows "classic_inv r0 (classic_set s t Outside ((classic_lock s)\<lparr>classic_flag := False\<rparr>) (r0 t))"
proof -
  have t: "t \<in> inside (classic_pcs s)" using assms by (simp add: inside_def)
  moreover have "inside (classic_pcs s) = {t}"
    using assms(1) t by (auto simp: classic_inv_def exclusive_def split: if_splits)
  moreover from this have "classic_pcs s u = Inside \<longleftrightarrow> u = t" for u by (auto simp: inside_def)
  ultimately show ?thesis using assms
    by (auto simp: classic_inv_def classic_set_def classic_local_def exclusive_def)
qed

lemma classic_flag_same [simp]:
  "b = classic_flag l \<Longrightarrow> l\<lparr>classic_flag := b\<rparr> = l"
  by (cases l) simp

lemma classic_set_same:
  "classic_inv r0 s \<Longrightarrow> pc = classic_pcs s t \<Longrightarrow>
    classic_inv r0 (classic_set s t pc (classic_lock s) (classic_r_flags s t))"
  by (simp add: classic_set_def)

lemma classic_unlock_inside:
  assumes "classic_inv r0 s" and "classic_pcs s t = Inside"
  shows "ClassicIrqSaveSpinLockFlag_unlock (classic_lock s) r =
    Ok ((classic_lock s)\<lparr>classic_flag := False\<rparr>, r0 t)"
proof -
  have "inside (classic_pcs s) \<noteq> {}" using assms(2) by (auto simp: inside_def)
  then have "classic_flag (classic_lock s)"
    using assms(1) by (auto simp: classic_inv_def exclusive_def split: if_splits)
  moreover have "classic_irq (classic_lock s) = Some (r0 t)"
    using assms by (auto simp: classic_inv_def classic_local_def split: if_splits)
  ultimately show ?thesis by (simp add: classic_defs)
qed

interpretation classic: invariant_system "classic_init r0" classic_step "classic_inv r0" for r0
proof
  fix s
  assume "classic_init r0 s"
  then show "classic_inv r0 s"
    by (auto simp: classic_init_def classic_inv_def classic_local_def exclusive_def inside_def
        ClassicIrqSaveSpinLockFlag_new_def)
next
  fix s s'
  assume inv: "classic_inv r0 s" and "classic_step s s'"
  from this(2) show "classic_inv r0 s'"
  proof cases
    case (classic_call_lock t)
    then show ?thesis using classic_set_wait [OF inv, of t Trying] by simp
  next
    case (classic_run_lock spurious t pc l r)
    then show ?thesis
      using classic_set_enter [OF inv, of t] classic_set_wait [OF inv, of t]
      by (cases "classic_pcs s t")
        (auto simp: classic_defs classic_set_same [OF inv] split: if_splits)
  next
    case (classic_call_try_lock t ok l r)
    then show ?thesis using classic_set_enter [OF inv, of t] classic_set_wait [OF inv, of t Outside]
      by (auto simp: classic_defs split: if_splits)
  next
    case (classic_call_unlock t l r)
    then show ?thesis using classic_unlock_inside [OF inv] classic_set_leave [OF inv, of t] by simp
  next
    case (classic_unlock_panics t)
    then show ?thesis using classic_unlock_inside [OF inv, of t "classic_r_flags s t"] by simp
  qed
qed

section \<open>\<open>Mutex\<close>\<close>

record 'a Mutex =
  mutex_flag :: bool
  mutex_data :: 'a

definition Mutex_new :: "'a \<Rightarrow> 'a Mutex" where
  "Mutex_new d = \<lparr>mutex_flag = SpinLockFlag_new, mutex_data = d\<rparr>"

definition Mutex_lock :: "bool \<Rightarrow> lock_pc \<Rightarrow> 'a Mutex \<Rightarrow> lock_pc \<times> 'a Mutex" where
  "Mutex_lock spurious pc m =
     (case SpinLockFlag_lock spurious pc (mutex_flag m) of (pc', f) \<Rightarrow> (pc', m\<lparr>mutex_flag := f\<rparr>))"

definition Mutex_try_lock :: "'a Mutex \<Rightarrow> bool \<times> 'a Mutex" where
  "Mutex_try_lock m =
     (case SpinLockFlag_try_lock (mutex_flag m) of (ok, f) \<Rightarrow> (ok, m\<lparr>mutex_flag := f\<rparr>))"

definition MutexGuard_deref :: "'a Mutex \<Rightarrow> 'a" where
  "MutexGuard_deref m = mutex_data m"

definition MutexGuard_deref_mut :: "('a \<Rightarrow> 'a) \<Rightarrow> 'a Mutex \<Rightarrow> 'a Mutex" where
  "MutexGuard_deref_mut f m = m\<lparr>mutex_data := f (mutex_data m)\<rparr>"

text \<open>Dropping the guard drops its only field with a \<open>drop\<close>, the holder of the flag.\<close>

definition MutexGuard_drop :: "'a Mutex \<Rightarrow> 'a Mutex" where
  "MutexGuard_drop m = m\<lparr>mutex_flag := SpinLockFlagHolder_drop (mutex_flag m)\<rparr>"

text \<open>
  Threads read the data through a guard into a local and later store a value computed from
  it; \<open>applied\<close> records the functions stored, in order.
\<close>

record 'a mutex_state =
  mutex :: "'a Mutex"
  mutex_pcs :: "nat \<Rightarrow> lock_pc"
  local_of :: "nat \<Rightarrow> 'a option"
  applied :: "('a \<Rightarrow> 'a) list"

definition mutex_init :: "'a \<Rightarrow> 'a mutex_state \<Rightarrow> bool" where
  "mutex_init d s \<longleftrightarrow> mutex s = Mutex_new d \<and> (\<forall>t. mutex_pcs s t = Outside \<and> local_of s t = None) \<and>
     applied s = []"

inductive mutex_step :: "'a mutex_state \<Rightarrow> 'a mutex_state \<Rightarrow> bool" where
  mutex_call_lock: "mutex_pcs s t = Outside \<Longrightarrow>
    mutex_step s (s\<lparr>mutex_pcs := (mutex_pcs s)(t := Trying)\<rparr>)"
| mutex_run_lock: "Mutex_lock spurious (mutex_pcs s t) (mutex s) = (pc, m) \<Longrightarrow>
    mutex_step s (s\<lparr>mutex := m, mutex_pcs := (mutex_pcs s)(t := pc)\<rparr>)"
| mutex_call_try_lock: "mutex_pcs s t = Outside \<Longrightarrow> Mutex_try_lock (mutex s) = (ok, m) \<Longrightarrow>
    mutex_step s (s\<lparr>mutex := m, mutex_pcs := (mutex_pcs s)(t := if ok then Inside else Outside)\<rparr>)"
| mutex_read: "mutex_pcs s t = Inside \<Longrightarrow>
    mutex_step s (s\<lparr>local_of := (local_of s)(t \<mapsto> MutexGuard_deref (mutex s))\<rparr>)"
| mutex_write: "mutex_pcs s t = Inside \<Longrightarrow> local_of s t = Some v \<Longrightarrow>
    mutex_step s (s\<lparr>mutex := MutexGuard_deref_mut (\<lambda>_. f v) (mutex s),
      local_of := (local_of s)(t := None), applied := applied s @ [f]\<rparr>)"
| mutex_drop: "mutex_pcs s t = Inside \<Longrightarrow>
    mutex_step s (s\<lparr>mutex := MutexGuard_drop (mutex s), mutex_pcs := (mutex_pcs s)(t := Outside),
      local_of := (local_of s)(t := None)\<rparr>)"

definition mutex_inv :: "'a \<Rightarrow> 'a mutex_state \<Rightarrow> bool" where
  "mutex_inv d s \<longleftrightarrow> exclusive (mutex_flag (mutex s)) (inside (mutex_pcs s)) \<and>
     (\<forall>t v. local_of s t = Some v \<longrightarrow> t \<in> inside (mutex_pcs s) \<and> v = mutex_data (mutex s)) \<and>
     mutex_data (mutex s) = fold (\<lambda>f x. f x) (applied s) d"

lemma lock_keeps_inside:
  "SpinLockFlag_lock spurious pc flag = (pc', f) \<Longrightarrow> pc = Inside \<Longrightarrow> pc' = Inside"
  by (simp add: SpinLockFlag_lock_def)

lemma exclusive_unique: "exclusive flag S \<Longrightarrow> t \<in> S \<Longrightarrow> u \<in> S \<Longrightarrow> t = u"
  by (auto simp: exclusive_def split: if_splits)

interpretation mutex: invariant_system "mutex_init d" mutex_step "mutex_inv d" for d
proof
  fix s
  assume "mutex_init d s"
  then show "mutex_inv d s"
    by (auto simp: mutex_init_def mutex_inv_def Mutex_new_def SpinLockFlag_new_def exclusive_def inside_def)
next
  fix s s' :: "'a mutex_state"
  assume inv: "mutex_inv d s" and "mutex_step s s'"
  have ex: "exclusive (mutex_flag (mutex s)) (inside (mutex_pcs s))"
    and loc: "\<And>t v. local_of s t = Some v \<Longrightarrow> t \<in> inside (mutex_pcs s) \<and> v = mutex_data (mutex s)"
    using inv by (auto simp: mutex_inv_def)
  have out: "t \<notin> inside (mutex_pcs s) \<Longrightarrow> local_of s t = None" for t using loc [of t] by (cases "local_of s t") auto
  from \<open>mutex_step s s'\<close> show "mutex_inv d s'"
  proof cases
    case (mutex_call_lock t)
    then have "t \<notin> inside (mutex_pcs s)" by (simp add: inside_def)
    then show ?thesis using inv mutex_call_lock by (auto simp: mutex_inv_def)
  next
    case (mutex_run_lock spurious t pc m)
    then obtain f where f: "SpinLockFlag_lock spurious (mutex_pcs s t) (mutex_flag (mutex s)) = (pc, f)"
      and m: "m = (mutex s)\<lparr>mutex_flag := f\<rparr>"
      by (auto simp: Mutex_lock_def split: prod.splits)
    have "u \<in> inside (mutex_pcs s) \<Longrightarrow> u \<in> inside ((mutex_pcs s)(t := pc))" for u
      using lock_keeps_inside [OF f] by (auto simp: inside_def)
    then show ?thesis using inv lock_stays [where p = "mutex_pcs s" and t = t, OF f ex refl] mutex_run_lock m
      by (auto simp: mutex_inv_def)
  next
    case (mutex_call_try_lock t ok m)
    then have "t \<notin> inside (mutex_pcs s)" by (simp add: inside_def)
    then show ?thesis using inv mutex_call_try_lock exclusive_enter
      by (auto simp: mutex_inv_def Mutex_try_lock_def SpinLockFlag_try_lock_def compare_exchange_def split: if_splits)
  next
    case (mutex_read t)
    then show ?thesis using inv by (auto simp: mutex_inv_def MutexGuard_deref_def inside_def)
  next
    case (mutex_write t v f)
    then have t: "t \<in> inside (mutex_pcs s)" by (simp add: inside_def)
    then have "local_of s u = None" if "u \<noteq> t" for u
      using that exclusive_unique [OF ex t] out [of u] by blast
    then show ?thesis using inv mutex_write loc by (auto simp: mutex_inv_def MutexGuard_deref_mut_def)
  next
    case (mutex_drop t)
    then have t: "t \<in> inside (mutex_pcs s)" by (simp add: inside_def)
    then show ?thesis using inv mutex_drop exclusive_leave [OF ex t]
      by (auto simp: mutex_inv_def MutexGuard_drop_def SpinLockFlagHolder_drop_def)
  qed
qed

section \<open>\<open>SequenceSpinLock\<close>\<close>

record SequenceSpinLock =
  seq_write_lock :: bool
  sequence :: usize

definition SequenceSpinLock_new :: SequenceSpinLock where
  "SequenceSpinLock_new = \<lparr>seq_write_lock = SpinLockFlag_new, sequence = 0\<rparr>"

text \<open>The writer waits for the inner lock; alone, it would wait forever when it is taken.\<close>

definition SequenceSpinLock_write_lock :: "SequenceSpinLock \<Rightarrow> (unit, SequenceSpinLock) outcome" where
  "SequenceSpinLock_write_lock l =
     (case SpinLockFlag_try_lock (seq_write_lock l) of
        (True, f) \<Rightarrow> Ok (l\<lparr>seq_write_lock := f, sequence := sequence l + 1\<rparr>)
      | (False, _) \<Rightarrow> Diverge)"

definition SequenceSpinLock_write_unlock :: "SequenceSpinLock \<Rightarrow> SequenceSpinLock" where
  "SequenceSpinLock_write_unlock l = l\<lparr>seq_write_lock := SpinLockFlagHolder_drop (seq_write_lock l)\<rparr>"

fun SequenceSpinLock_read_start :: "nat \<Rightarrow> SequenceSpinLock \<Rightarrow> (unit, usize) outcome" where
  "SequenceSpinLock_read_start 0 l = Diverge"
| "SequenceSpinLock_read_start (Suc n) l =
     (if and (sequence l) 1 = 0 then Ok (sequence l) else SequenceSpinLock_read_start n l)"

definition SequenceSpinLock_should_read_retry :: "SequenceSpinLock \<Rightarrow> usize \<Rightarrow> bool" where
  "SequenceSpinLock_should_read_retry l holder \<longleftrightarrow> holder \<noteq> sequence l"

lemma read_start_odd: "and (sequence l) 1 \<noteq> 0 \<Longrightarrow> SequenceSpinLock_read_start n l = Diverge"
  by (induction n) auto

section \<open>Properties\<close>

text \<open>Property C13. Whatever the interleaving of \<open>lock\<close>, \<open>try_lock\<close> and drops, and however often
  the weak exchange fails spuriously, at most one thread holds a \<open>SpinLockFlag\<close>, and the flag
  is set exactly while one does, so a released lock is free for the next thread.\<close>

theorem SpinLockFlag_excludes:
  assumes "reachable spin_init spin_step s"
  shows "(lock_flag s \<longleftrightarrow> (\<exists>t. pcs s t = Inside)) \<and> (pcs s t = Inside \<longrightarrow> pcs s u = Inside \<longrightarrow> t = u)"
proof -
  have ex: "exclusive (lock_flag s) (inside (pcs s))"
    using spin.reachable_inv [OF assms] by (simp add: spin_inv_def)
  then have "lock_flag s \<longleftrightarrow> inside (pcs s) \<noteq> {}" by (auto simp: exclusive_def split: if_splits)
  then show ?thesis using exclusive_unique [OF ex, of t u] by (auto simp: inside_def)
qed

definition spin_sample :: spin_state where
  "spin_sample = \<lparr>lock_flag = True, pcs = (\<lambda>_. Outside)(0 := Inside)\<rparr>"

lemma spin_sample_reachable: "reachable spin_init spin_step spin_sample"
proof -
  let ?s = "\<lparr>lock_flag = False, pcs = \<lambda>_. Outside\<rparr>"
  have "reachable spin_init spin_step ?s"
    by (rule reach_init) (simp add: spin_init_def SpinLockFlag_new_def)
  moreover have "spin_step ?s spin_sample"
    using call_try_lock [of ?s 0 True True]
    by (simp add: SpinLockFlag_try_lock_def compare_exchange_def spin_sample_def)
  ultimately show ?thesis by (rule reach_step)
qed

theorem SpinLockFlag_excludes_witness: "lock_flag spin_sample \<and> pcs spin_sample 1 \<noteq> Inside"
  using SpinLockFlag_excludes [OF spin_sample_reachable, of 0 1] by (auto simp: spin_sample_def)

text \<open>Property C14. A thread that holds an \<open>IrqSaveSpinLockFlag\<close> runs with interrupts disabled and
  has saved its processor's original flags; every other processor has its original flags,
  also after a failed try; and at most one thread holds the lock.\<close>

theorem IrqSaveSpinLockFlag_saves_interrupts:
  assumes "reachable (irq_init r0) irq_step s"
  shows "(case irq_pcs s t of
            IrqInside irq \<Rightarrow> irq = r0 t \<and> \<not> interrupts_enabled (r_flags_of s t) \<and>
              (\<forall>u irq'. irq_pcs s u = IrqInside irq' \<longrightarrow> u = t)
          | _ \<Rightarrow> r_flags_of s t = r0 t)"
proof -
  have inv: "irq_inv r0 s" by (rule irq.reachable_inv [OF assms])
  then have local: "irq_local (r0 t) (irq_pcs s t) (r_flags_of s t)" by (simp add: irq_inv_def)
  show ?thesis
  proof (cases "irq_pcs s t")
    case (IrqInside irq)
    then have t: "t \<in> irq_inside (irq_pcs s)" by (simp add: irq_inside_def)
    have "u = t" if "irq_pcs s u = IrqInside irq'" for u irq'
    proof (rule exclusive_unique [OF _ _ t])
      show "exclusive (irq_flag s) (irq_inside (irq_pcs s))" using inv by (simp add: irq_inv_def)
      show "u \<in> irq_inside (irq_pcs s)" using that by (simp add: irq_inside_def)
    qed
    then have "\<forall>u irq'. irq_pcs s u = IrqInside irq' \<longrightarrow> u = t" by blast
    moreover have "irq = r0 t" "\<not> interrupts_enabled (r_flags_of s t)" using local IrqInside by simp_all
    ultimately show ?thesis unfolding IrqInside irq_pc.case by blast
  qed (use local in simp_all)
qed

definition irq_sample :: irq_state where
  "irq_sample = \<lparr>irq_flag = True, irq_pcs = (\<lambda>_. IrqOutside)(0 := IrqInside 0x202),
     r_flags_of = (\<lambda>_. 0x202)(0 := 2)\<rparr>"

lemma irq_sample_reachable: "reachable (irq_init (\<lambda>_. 0x202)) irq_step irq_sample"
proof -
  let ?s = "\<lparr>irq_flag = False, irq_pcs = \<lambda>_. IrqOutside, r_flags_of = \<lambda>_. 0x202\<rparr>"
  have "reachable (irq_init (\<lambda>_. 0x202)) irq_step ?s" by (rule reach_init) (simp add: irq_init_def)
  moreover have "disable_interrupt 0x202 = 2" by (simp add: disable_interrupt_def interrupt_flag_def)
  then have "irq_step ?s irq_sample"
    using irq_call_try_lock [of ?s 0 False "Some 0x202" True 2]
    by (simp add: irq_defs irq_set_def irq_sample_def)
  ultimately show ?thesis by (metis reach_step)
qed

theorem IrqSaveSpinLockFlag_saves_interrupts_witness:
  "\<not> interrupts_enabled (r_flags_of irq_sample 0) \<and> r_flags_of irq_sample 1 = 0x202"
  using IrqSaveSpinLockFlag_saves_interrupts [OF irq_sample_reachable, of 0]
    IrqSaveSpinLockFlag_saves_interrupts [OF irq_sample_reachable, of 1]
  by (simp add: irq_sample_def)

text \<open>Remark. The holder of a \<open>ClassicIrqSaveSpinLockFlag\<close> never trips the assertion of \<open>unlock\<close> nor
  reads an uninitialised cell: unlocking returns, frees the lock and gives its processor
  the flags it had before it locked, whatever other threads tried in between.\<close>

theorem ClassicIrqSaveSpinLockFlag_unlock_restores:
  assumes "reachable (classic_init r0) classic_step s" and "classic_pcs s t = Inside"
  shows "ClassicIrqSaveSpinLockFlag_unlock (classic_lock s) (classic_r_flags s t) =
      Ok ((classic_lock s)\<lparr>classic_flag := False\<rparr>, r0 t) \<and>
    \<not> interrupts_enabled (classic_r_flags s t) \<and> \<not> classic_panicked s"
proof -
  have inv: "classic_inv r0 s" by (rule classic.reachable_inv [OF assms(1)])
  then have "classic_r_flags s t = disable_interrupt (r0 t)" "\<not> classic_panicked s"
    using assms(2) by (auto simp: classic_inv_def classic_local_def split: if_splits)
  then show ?thesis using classic_unlock_inside [OF inv assms(2)] by simp
qed

definition classic_sample :: classic_state where
  "classic_sample = \<lparr>classic_lock = \<lparr>classic_flag = True, classic_irq = Some 0x202\<rparr>,
     classic_pcs = (\<lambda>_. Outside)(0 := Inside), classic_r_flags = (\<lambda>_. 0x202)(0 := 2), classic_panicked = False\<rparr>"

lemma classic_sample_reachable: "reachable (classic_init (\<lambda>_. 0x202)) classic_step classic_sample"
proof -
  let ?s = "\<lparr>classic_lock = ClassicIrqSaveSpinLockFlag_new, classic_pcs = \<lambda>_. Outside,
    classic_r_flags = \<lambda>_. 0x202, classic_panicked = False\<rparr>"
  let ?l = "\<lparr>classic_flag = True, classic_irq = Some 0x202\<rparr>"
  have "reachable (classic_init (\<lambda>_. 0x202)) classic_step ?s" by (rule reach_init) (simp add: classic_init_def)
  moreover have "disable_interrupt 0x202 = 2" by (simp add: disable_interrupt_def interrupt_flag_def)
  then have "classic_step ?s classic_sample"
    using classic_call_try_lock [of ?s 0 True ?l 2]
    by (simp add: classic_defs classic_set_def classic_sample_def ClassicIrqSaveSpinLockFlag_new_def)
  ultimately show ?thesis by (metis reach_step)
qed

theorem ClassicIrqSaveSpinLockFlag_unlock_restores_witness:
  "ClassicIrqSaveSpinLockFlag_unlock (classic_lock classic_sample) 2 =
    Ok (\<lparr>classic_flag = False, classic_irq = Some 0x202\<rparr>, 0x202)"
  using ClassicIrqSaveSpinLockFlag_unlock_restores [OF classic_sample_reachable, of 0]
  by (simp add: classic_sample_def)

text \<open>Property C15. A \<open>Mutex\<close> makes every read-modify-write atomic: in any interleaving the data is
  the result of applying the stored functions one after the other to the initial value, so
  no update is lost, and a value read under the guard is still the value of the data.\<close>

theorem Mutex_loses_no_update:
  assumes "reachable (mutex_init d) mutex_step s"
  shows "MutexGuard_deref (mutex s) = fold (\<lambda>f x. f x) (applied s) d \<and>
    (local_of s t = Some v \<longrightarrow> v = MutexGuard_deref (mutex s))"
  using mutex.reachable_inv [OF assms] by (auto simp: mutex_inv_def MutexGuard_deref_def)

definition mutex_sample :: "nat mutex_state" where
  "mutex_sample = \<lparr>mutex = \<lparr>mutex_flag = True, mutex_data = 6\<rparr>, mutex_pcs = (\<lambda>_. Outside)(0 := Inside),
     local_of = \<lambda>_. None, applied = [Suc]\<rparr>"

lemma mutex_sample_reachable: "reachable (mutex_init 5) mutex_step mutex_sample"
proof -
  let ?s0 = "\<lparr>mutex = Mutex_new 5, mutex_pcs = \<lambda>_. Outside, local_of = \<lambda>_. None, applied = []\<rparr> :: nat mutex_state"
  let ?s1 = "\<lparr>mutex = \<lparr>mutex_flag = True, mutex_data = 5\<rparr>, mutex_pcs = (\<lambda>_. Outside)(0 := Inside),
    local_of = \<lambda>_. None, applied = []\<rparr> :: nat mutex_state"
  let ?s2 = "?s1\<lparr>local_of := [0 \<mapsto> 5]\<rparr>"
  have r0: "reachable (mutex_init 5) mutex_step ?s0" by (rule reach_init) (simp add: mutex_init_def)
  have s1: "mutex_step ?s0 ?s1"
    using mutex_call_try_lock [of ?s0 0 True "\<lparr>mutex_flag = True, mutex_data = 5\<rparr>"]
    by (simp add: Mutex_try_lock_def Mutex_new_def SpinLockFlag_new_def SpinLockFlag_try_lock_def compare_exchange_def)
  have s2: "mutex_step ?s1 ?s2" using mutex_read [of ?s1 0] by (simp add: MutexGuard_deref_def)
  have "mutex_step ?s2 mutex_sample"
    using mutex_write [of ?s2 0 5 Suc] by (simp add: MutexGuard_deref_mut_def mutex_sample_def)
  then show ?thesis by (rule reach_step [OF reach_step [OF reach_step [OF r0 s1] s2]])
qed

theorem Mutex_loses_no_update_witness: "MutexGuard_deref (mutex mutex_sample) = 6"
  using Mutex_loses_no_update [OF mutex_sample_reachable] by (simp add: mutex_sample_def)

text \<open>Remark. \<open>write_unlock\<close> of a \<open>SequenceSpinLock\<close> does not advance the sequence. After one
  write the sequence stays odd and \<open>read_start\<close> spins forever although nobody writes;
  during the next write it is even, so a reader starts in the middle of the write and
  \<open>should_read_retry\<close> does not tell it to retry afterwards.\<close>

theorem SequenceSpinLock_parity:
  assumes "and (sequence l) 1 = 0" and "SequenceSpinLock_write_lock l = Ok l1"
    and "SequenceSpinLock_write_lock (SequenceSpinLock_write_unlock l1) = Ok l2"
  shows "SequenceSpinLock_read_start n (SequenceSpinLock_write_unlock l1) = Diverge \<and>
    SequenceSpinLock_read_start (Suc n) l2 = Ok (sequence l2) \<and> seq_write_lock l2 \<and>
    \<not> SequenceSpinLock_should_read_retry (SequenceSpinLock_write_unlock l2) (sequence l2)"
proof -
  have l1: "sequence l1 = sequence l + 1" and l2: "sequence l2 = sequence l + 1 + 1" "seq_write_lock l2"
    using assms(2,3)
    by (auto simp: SequenceSpinLock_write_lock_def SequenceSpinLock_write_unlock_def SpinLockFlag_try_lock_def
        compare_exchange_def split: if_splits)
  have "even (sequence l)" using assms(1) by (simp add: and_one_eq even_iff_mod_2_eq_zero)
  then have "odd (sequence l1)" "even (sequence l2)" using l1 l2 by simp_all
  then have "and (sequence l1) 1 \<noteq> 0" "and (sequence l2) 1 = 0"
    by (simp_all add: and_one_eq odd_iff_mod_2_eq_one even_iff_mod_2_eq_zero)
  then show ?thesis using l2 read_start_odd [of "SequenceSpinLock_write_unlock l1"]
    by (simp add: SequenceSpinLock_write_unlock_def SequenceSpinLock_should_read_retry_def)
qed

theorem SequenceSpinLock_parity_witness:
  "SequenceSpinLock_read_start 1000 \<lparr>seq_write_lock = False, sequence = 1\<rparr> = Diverge"
  using SequenceSpinLock_parity [of SequenceSpinLock_new "\<lparr>seq_write_lock = True, sequence = 1\<rparr>"
      "\<lparr>seq_write_lock = True, sequence = 2\<rparr>" 1000]
  by (simp add: SequenceSpinLock_new_def SequenceSpinLock_write_lock_def SequenceSpinLock_write_unlock_def
      SpinLockFlag_try_lock_def SpinLockFlag_new_def SpinLockFlagHolder_drop_def compare_exchange_def)

end
