(* ===== verification/Rw_Lock.thy ===== *)
theory Rw_Lock
  imports Spin_Lock
begin

text \<open>
  The reader-writer lock of \<open>kernel/sync/rwlock.rs\<close>. \<open>try_read\<close> and \<open>try_write\<close> make two atomic
  accesses each, between which other threads run, so each is two functions; \<open>read\<close> and
  \<open>write\<close> repeat them. The step relation interleaves the accesses of all threads and
  panics where the drop of a read guard does.
\<close>

section \<open>Operations\<close>

record 'a RwLock =
  write_locked :: bool
  readers :: usize
  rw_data :: 'a

definition RwLock_new :: "'a \<Rightarrow> 'a RwLock" where
  "RwLock_new d = \<lparr>write_locked = False, readers = 0, rw_data = d\<rparr>"

text \<open>
  A thread is outside, between the two accesses of a try, or holds a guard. The flag says
  whether it is in \<open>read\<close> or \<open>write\<close>, which try again after a failure.
\<close>

datatype rw_pc =
  RwOutside
| ReadLoad bool
| ReadCount bool
| Reading
| WriteClaim bool
| WriteCheck bool
| Writing

definition RwLock_try_read_load :: "bool \<Rightarrow> 'a RwLock \<Rightarrow> rw_pc" where
  "RwLock_try_read_load again l =
     (if \<not> write_locked l then ReadCount again else if again then ReadLoad again else RwOutside)"

definition RwLock_try_read_count :: "bool \<Rightarrow> 'a RwLock \<Rightarrow> rw_pc \<times> 'a RwLock" where
  "RwLock_try_read_count again l =
     (if readers l = - 1 then (if again then ReadLoad again else RwOutside, l)
      else (Reading, l\<lparr>readers := readers l + 1\<rparr>))"

definition RwLock_try_write_claim :: "bool \<Rightarrow> 'a RwLock \<Rightarrow> rw_pc \<times> 'a RwLock" where
  "RwLock_try_write_claim again l =
     (case compare_exchange False True (write_locked l) of
        (ok, f) \<Rightarrow> (if ok then WriteCheck again else if again then WriteClaim again else RwOutside,
          l\<lparr>write_locked := f\<rparr>))"

definition RwLock_try_write_check :: "bool \<Rightarrow> 'a RwLock \<Rightarrow> rw_pc \<times> 'a RwLock" where
  "RwLock_try_write_check again l =
     (if readers l \<noteq> 0 then (if again then WriteClaim again else RwOutside, l\<lparr>write_locked := False\<rparr>)
      else (Writing, l))"

definition RwLockReadGuard_drop :: "'a RwLock \<Rightarrow> (unit, 'a RwLock) outcome" where
  "RwLockReadGuard_drop l = (if readers l = 0 then Panic else Ok (l\<lparr>readers := readers l - 1\<rparr>))"

definition RwLockWriteGuard_drop :: "'a RwLock \<Rightarrow> 'a RwLock" where
  "RwLockWriteGuard_drop l = l\<lparr>write_locked := False\<rparr>"

definition RwLockWriteGuard_deref_mut :: "('a \<Rightarrow> 'a) \<Rightarrow> 'a RwLock \<Rightarrow> 'a RwLock" where
  "RwLockWriteGuard_deref_mut f l = l\<lparr>rw_data := f (rw_data l)\<rparr>"

definition RwLockReadGuard_deref :: "'a RwLock \<Rightarrow> 'a" where
  "RwLockReadGuard_deref l = rw_data l"

section \<open>Interleavings\<close>

record 'a rw_state =
  rw :: "'a RwLock"
  rw_pcs :: "nat \<Rightarrow> rw_pc"
  rw_panicked :: bool

definition rw_set :: "'a rw_state \<Rightarrow> nat \<Rightarrow> rw_pc \<Rightarrow> 'a RwLock \<Rightarrow> 'a rw_state" where
  "rw_set s t pc l = s\<lparr>rw := l, rw_pcs := (rw_pcs s)(t := pc)\<rparr>"

definition rw_init :: "'a rw_state \<Rightarrow> bool" where
  "rw_init s \<longleftrightarrow> (\<exists>d. rw s = RwLock_new d) \<and> (\<forall>t. rw_pcs s t = RwOutside) \<and> \<not> rw_panicked s"

inductive rw_step :: "'a rw_state \<Rightarrow> 'a rw_state \<Rightarrow> bool" where
  rw_call_read: "rw_pcs s t = RwOutside \<Longrightarrow> rw_step s (rw_set s t (ReadLoad again) (rw s))"
| rw_call_write: "rw_pcs s t = RwOutside \<Longrightarrow> rw_step s (rw_set s t (WriteClaim again) (rw s))"
| rw_read_load: "rw_pcs s t = ReadLoad again \<Longrightarrow>
    rw_step s (rw_set s t (RwLock_try_read_load again (rw s)) (rw s))"
| rw_read_count: "rw_pcs s t = ReadCount again \<Longrightarrow> RwLock_try_read_count again (rw s) = (pc, l) \<Longrightarrow>
    rw_step s (rw_set s t pc l)"
| rw_write_claim: "rw_pcs s t = WriteClaim again \<Longrightarrow> RwLock_try_write_claim again (rw s) = (pc, l) \<Longrightarrow>
    rw_step s (rw_set s t pc l)"
| rw_write_check: "rw_pcs s t = WriteCheck again \<Longrightarrow> RwLock_try_write_check again (rw s) = (pc, l) \<Longrightarrow>
    rw_step s (rw_set s t pc l)"
| rw_store: "rw_pcs s t = Writing \<Longrightarrow> rw_step s (rw_set s t Writing (RwLockWriteGuard_deref_mut f (rw s)))"
| rw_read_drop: "rw_pcs s t = Reading \<Longrightarrow> RwLockReadGuard_drop (rw s) = Ok l \<Longrightarrow>
    rw_step s (rw_set s t RwOutside l)"
| rw_read_drop_panics: "rw_pcs s t = Reading \<Longrightarrow> RwLockReadGuard_drop (rw s) = Panic \<Longrightarrow>
    rw_step s (s\<lparr>rw_panicked := True\<rparr>)"
| rw_write_drop: "rw_pcs s t = Writing \<Longrightarrow> rw_step s (rw_set s t RwOutside (RwLockWriteGuard_drop (rw s)))"

text \<open>The threads with the claim to write, and the threads with a read guard.\<close>

definition claims :: "(nat \<Rightarrow> rw_pc) \<Rightarrow> nat set" where
  "claims p = {t. p t = Writing \<or> (\<exists>again. p t = WriteCheck again)}"

definition reading :: "(nat \<Rightarrow> rw_pc) \<Rightarrow> nat set" where
  "reading p = {t. p t = Reading}"

definition rw_inv :: "'a rw_state \<Rightarrow> bool" where
  "rw_inv s \<longleftrightarrow> exclusive (write_locked (rw s)) (claims (rw_pcs s)) \<and>
     finite (reading (rw_pcs s)) \<and> unat (readers (rw s)) = card (reading (rw_pcs s)) \<and> \<not> rw_panicked s"

lemma claims_upd [simp]:
  "claims (p(t := Writing)) = insert t (claims p)"
  "claims (p(t := WriteCheck again)) = insert t (claims p)"
  "pc \<noteq> Writing \<Longrightarrow> (\<And>again. pc \<noteq> WriteCheck again) \<Longrightarrow> claims (p(t := pc)) = claims p - {t}"
  by (auto simp: claims_def)

lemma reading_upd [simp]:
  "reading (p(t := Reading)) = insert t (reading p)"
  "pc \<noteq> Reading \<Longrightarrow> reading (p(t := pc)) = reading p - {t}"
  by (auto simp: reading_def)

lemma claims_mem:
  "t \<in> claims p \<longleftrightarrow> p t = Writing \<or> (\<exists>again. p t = WriteCheck again)"
  by (simp add: claims_def)

lemma reading_mem: "t \<in> reading p \<longleftrightarrow> p t = Reading"
  by (simp add: reading_def)

text \<open>One step of a thread that changes neither set, with the counters unchanged.\<close>

lemma rw_set_idle:
  assumes "rw_inv s" and "t \<notin> claims (rw_pcs s)" and "t \<notin> reading (rw_pcs s)"
    and "pc \<in> {RwOutside, ReadLoad a, ReadCount a, WriteClaim a}"
  shows "rw_inv (rw_set s t pc (rw s))"
  using assms by (auto simp: rw_inv_def rw_set_def)

lemma rw_set_count:
  assumes "rw_inv s" and "t \<notin> claims (rw_pcs s)" and "t \<notin> reading (rw_pcs s)" and "readers (rw s) \<noteq> - 1"
  shows "rw_inv (rw_set s t Reading ((rw s)\<lparr>readers := readers (rw s) + 1\<rparr>))"
proof -
  have "unat (readers (rw s) + 1) = Suc (unat (readers (rw s)))"
    using assms(4) by (metis add.commute add_eq_0_iff unatSuc)
  then show ?thesis using assms by (auto simp: rw_inv_def rw_set_def)
qed

lemma rw_set_uncount:
  assumes "rw_inv s" and "t \<notin> claims (rw_pcs s)" and "t \<in> reading (rw_pcs s)"
  shows "readers (rw s) \<noteq> 0 \<and> rw_inv (rw_set s t RwOutside ((rw s)\<lparr>readers := readers (rw s) - 1\<rparr>))"
proof -
  have "card (reading (rw_pcs s)) > 0" using assms by (auto simp: rw_inv_def card_gt_0_iff)
  then have nz: "readers (rw s) \<noteq> 0" using assms(1) by (auto simp: rw_inv_def)
  then have "unat (readers (rw s) - 1) = unat (readers (rw s)) - 1" by (rule unat_minus_one)
  then show ?thesis using assms nz by (auto simp: rw_inv_def rw_set_def)
qed

interpretation rw: invariant_system rw_init rw_step rw_inv
proof
  fix s :: "'a rw_state"
  assume "rw_init s"
  then show "rw_inv s"
    by (auto simp: rw_init_def rw_inv_def RwLock_new_def exclusive_def claims_def reading_def)
next
  fix s s' :: "'a rw_state"
  assume inv: "rw_inv s" and "rw_step s s'"
  note idle = rw_set_idle [OF inv] and mem = claims_mem reading_mem
  have ex: "exclusive (write_locked (rw s)) (claims (rw_pcs s))" using inv by (simp add: rw_inv_def)
  from \<open>rw_step s s'\<close> show "rw_inv s'"
  proof cases
    case (rw_call_read t again)
    then show ?thesis using idle [of t "ReadLoad again" again] by (simp add: mem)
  next
    case (rw_call_write t again)
    then show ?thesis using idle [of t "WriteClaim again" again] by (simp add: mem)
  next
    case (rw_read_load t again)
    then show ?thesis using idle [of t "RwLock_try_read_load again (rw s)" again]
      by (simp add: mem RwLock_try_read_load_def)
  next
    case (rw_read_count t again pc l)
    then show ?thesis using idle [of t pc again] rw_set_count [OF inv, of t]
      by (auto simp: mem RwLock_try_read_count_def split: if_splits)
  next
    case (rw_write_claim t again pc l)
    then have "t \<notin> claims (rw_pcs s)" "t \<notin> reading (rw_pcs s)" by (simp_all add: mem)
    then show ?thesis using inv rw_write_claim exclusive_enter
      by (auto simp: rw_inv_def rw_set_def RwLock_try_write_claim_def compare_exchange_def split: if_splits)
  next
    case (rw_write_check t again pc l)
    then have t: "t \<in> claims (rw_pcs s)" "t \<notin> reading (rw_pcs s)" by (simp_all add: mem)
    then show ?thesis using inv rw_write_check exclusive_leave [OF ex t(1)]
      by (auto simp: rw_inv_def rw_set_def RwLock_try_write_check_def insert_absorb split: if_splits)
  next
    case (rw_store t f)
    then have "t \<in> claims (rw_pcs s)" "t \<notin> reading (rw_pcs s)" by (simp_all add: mem)
    then show ?thesis using inv rw_store
      by (auto simp: rw_inv_def rw_set_def RwLockWriteGuard_deref_mut_def insert_absorb)
  next
    case (rw_read_drop t l)
    then show ?thesis using rw_set_uncount [OF inv, of t]
      by (auto simp: mem RwLockReadGuard_drop_def split: if_splits)
  next
    case (rw_read_drop_panics t)
    then show ?thesis using rw_set_uncount [OF inv, of t] by (simp add: mem RwLockReadGuard_drop_def)
  next
    case (rw_write_drop t)
    then have t: "t \<in> claims (rw_pcs s)" "t \<notin> reading (rw_pcs s)" by (simp_all add: mem)
    then show ?thesis using inv rw_write_drop exclusive_leave [OF ex t(1)]
      by (auto simp: rw_inv_def rw_set_def RwLockWriteGuard_drop_def)
  qed
qed

section \<open>Properties\<close>

text \<open>A run of two threads: the reader has loaded \<open>write_locked\<close> when the writer claims the lock and
  sees no readers; then the reader counts itself.\<close>

definition rw_raced :: "nat rw_state" where
  "rw_raced = \<lparr>rw = \<lparr>write_locked = True, readers = 1, rw_data = 7\<rparr>,
     rw_pcs = (\<lambda>_. RwOutside)(0 := Reading, 1 := Writing), rw_panicked = False\<rparr>"

lemma rw_raced_reachable: "reachable rw_init rw_step rw_raced"
proof -
  let ?l = "RwLock_new 7 :: nat RwLock"
  let ?s0 = "\<lparr>rw = ?l, rw_pcs = \<lambda>_. RwOutside, rw_panicked = False\<rparr>"
  let ?s1 = "rw_set ?s0 0 (ReadLoad False) ?l"
  let ?s2 = "rw_set ?s1 0 (ReadCount False) ?l"
  let ?s3 = "rw_set ?s2 1 (WriteClaim False) ?l"
  let ?l' = "?l\<lparr>write_locked := True\<rparr>"
  let ?s4 = "rw_set ?s3 1 (WriteCheck False) ?l'"
  let ?s5 = "rw_set ?s4 1 Writing ?l'"
  have "reachable rw_init rw_step ?s0" by (rule reach_init) (auto simp: rw_init_def)
  moreover have "rw_step ?s0 ?s1" using rw_call_read [of ?s0 0 False] by simp
  ultimately have "reachable rw_init rw_step ?s1" by (rule reach_step)
  moreover have "rw_step ?s1 ?s2"
    using rw_read_load [of ?s1 0 False] by (simp add: rw_set_def RwLock_try_read_load_def RwLock_new_def)
  ultimately have "reachable rw_init rw_step ?s2" by (rule reach_step)
  moreover have "rw_step ?s2 ?s3" using rw_call_write [of ?s2 1 False] by (simp add: rw_set_def)
  ultimately have "reachable rw_init rw_step ?s3" by (rule reach_step)
  moreover have "rw_step ?s3 ?s4"
    using rw_write_claim [of ?s3 1 False "WriteCheck False" ?l']
    by (simp add: rw_set_def RwLock_try_write_claim_def RwLock_new_def compare_exchange_def)
  ultimately have "reachable rw_init rw_step ?s4" by (rule reach_step)
  moreover have "rw_step ?s4 ?s5"
    using rw_write_check [of ?s4 1 False Writing ?l']
    by (simp add: rw_set_def RwLock_try_write_check_def RwLock_new_def)
  ultimately have "reachable rw_init rw_step ?s5" by (rule reach_step)
  moreover have "rw_step ?s5 rw_raced"
    using rw_read_count [of ?s5 0 False Reading "?l'\<lparr>readers := 1\<rparr>"]
    by (simp add: rw_set_def RwLock_try_read_count_def RwLock_new_def rw_raced_def fun_upd_twist)
  ultimately show ?thesis by (rule reach_step)
qed

text \<open>Remark. In every interleaving of a \<open>RwLock\<close> at most one thread has the right to write,
  \<open>readers\<close> is exactly the number of read guards, and the drop of a read guard never panics.\<close>

theorem RwLock_counts_readers:
  assumes "reachable rw_init rw_step s"
  shows "(rw_pcs s t = Writing \<longrightarrow> rw_pcs s u = Writing \<longrightarrow> t = u) \<and>
    unat (readers (rw s)) = card {t. rw_pcs s t = Reading} \<and>
    (rw_pcs s t = Reading \<longrightarrow> RwLockReadGuard_drop (rw s) \<noteq> Panic) \<and> \<not> rw_panicked s"
proof -
  have inv: "rw_inv s" by (rule rw.reachable_inv [OF assms])
  then have ex: "exclusive (write_locked (rw s)) (claims (rw_pcs s))" by (simp add: rw_inv_def)
  have "rw_pcs s t = Writing \<longrightarrow> rw_pcs s u = Writing \<longrightarrow> t = u"
    using exclusive_unique [OF ex, of t u] by (simp add: claims_mem)
  moreover have "rw_pcs s t = Reading \<longrightarrow> RwLockReadGuard_drop (rw s) \<noteq> Panic"
    using rw_set_uncount [OF inv, of t] by (simp add: claims_mem reading_mem RwLockReadGuard_drop_def)
  ultimately show ?thesis using inv by (simp add: rw_inv_def reading_def)
qed

theorem RwLock_counts_readers_witness:
  "unat (readers (rw rw_raced)) = card {t. rw_pcs rw_raced t = Reading} \<and>
    RwLockReadGuard_drop (rw rw_raced) \<noteq> Panic"
  using RwLock_counts_readers [OF rw_raced_reachable, of 0] by (simp add: rw_raced_def)

text \<open>Remark. A \<open>RwLock\<close> does not keep readers and writers apart: \<open>try_read\<close> counts itself after
  it looked at \<open>write_locked\<close> and does not look again, so a state is reachable in which one
  thread holds a read guard and another a write guard.\<close>

theorem RwLock_reader_races_writer:
  "\<exists>s :: nat rw_state. reachable rw_init rw_step s \<and> rw_pcs s 0 = Reading \<and> rw_pcs s 1 = Writing"
  using rw_raced_reachable by (intro exI [of _ rw_raced]) (simp add: rw_raced_def)

end
