(* ===== verification/Thread_Entry.thy ===== *)
theory Thread_Entry
  imports Spin_Lock
begin

text \<open>
  Threads and their scheduling classes: \<open>kernel/task_manager/thread_entry.rs\<close> and
  \<open>scheduling_class.rs\<close> with its two classes. The intrusive list nodes of a thread are not
  fields here: the sequences of the lists they are in are kept by the owners of the lists.
  The saved processor context is opaque, a type parameter.
\<close>

section \<open>Scheduling classes\<close>

datatype SchedulingClass = KernelThread | UserThread

text \<open>The derived order: kernel threads before user threads.\<close>

instantiation SchedulingClass :: linorder
begin

definition less_eq_SchedulingClass :: "SchedulingClass \<Rightarrow> SchedulingClass \<Rightarrow> bool" where
  "less_eq_SchedulingClass a b \<longleftrightarrow> a = KernelThread \<or> b = UserThread"

definition less_SchedulingClass :: "SchedulingClass \<Rightarrow> SchedulingClass \<Rightarrow> bool" where
  "less_SchedulingClass a b \<longleftrightarrow> a = KernelThread \<and> b = UserThread"

instance
proof
  fix a b c :: SchedulingClass
  show "a < b \<longleftrightarrow> a \<le> b \<and> \<not> b \<le> a"
    by (cases a; cases b) (simp_all add: less_eq_SchedulingClass_def less_SchedulingClass_def)
  show "a \<le> a" by (cases a) (simp_all add: less_eq_SchedulingClass_def)
  show "a \<le> b \<Longrightarrow> b \<le> c \<Longrightarrow> a \<le> c" by (cases a; cases b; cases c) (simp_all add: less_eq_SchedulingClass_def)
  show "a \<le> b \<Longrightarrow> b \<le> a \<Longrightarrow> a = b" by (cases a; cases b) (simp_all add: less_eq_SchedulingClass_def)
  show "a \<le> b \<or> b \<le> a" by (cases a; cases b) (simp_all add: less_eq_SchedulingClass_def)
qed

end

definition Kernel_get_custom_priority :: "u8 \<Rightarrow> ('e, u8) outcome" where
  "Kernel_get_custom_priority level = (if level < 40 then Ok (80 + level) else Panic)"

definition Kernel_get_normal_priority :: "('e, u8) outcome" where
  "Kernel_get_normal_priority = Kernel_get_custom_priority 20"

definition Kernel_get_idle_thread_priority :: u8 where
  "Kernel_get_idle_thread_priority = 0xff"

text \<open>A division by zero panics.\<close>

definition Kernel_calculate_time_slice :: "u8 \<Rightarrow> usize \<Rightarrow> u64 \<Rightarrow> ('e, u64) outcome" where
  "Kernel_calculate_time_slice priority_level number_of_threads interval_ms =
     (if priority_level = Kernel_get_idle_thread_priority then Ok 10
      else if \<not> (80 \<le> priority_level \<and> priority_level \<le> 120) then Panic
      else if number_of_threads * interval_ms = 0 then Panic
      else Ok (max (200 * ucast (120 - priority_level) div (number_of_threads * interval_ms)) 10))"

definition User_get_custom_priority :: "u8 \<Rightarrow> ('e, u8) outcome" where
  "User_get_custom_priority level = (if level < 40 then Ok (100 + level) else Panic)"

definition User_get_normal_priority :: "('e, u8) outcome" where
  "User_get_normal_priority = User_get_custom_priority 20"

definition User_calculate_time_slice :: "u8 \<Rightarrow> usize \<Rightarrow> u64 \<Rightarrow> ('e, u64) outcome" where
  "User_calculate_time_slice priority_level number_of_threads interval_ms =
     (if \<not> (100 \<le> priority_level \<and> priority_level \<le> 140) then Panic
      else if number_of_threads * interval_ms = 0 then Panic
      else Ok (max (200 * ucast (140 - priority_level) div (number_of_threads * interval_ms)) 10))"

definition calculate_time_slice :: "SchedulingClass \<Rightarrow> u8 \<Rightarrow> usize \<Rightarrow> u64 \<Rightarrow> ('e, u64) outcome" where
  "calculate_time_slice c priority_level number_of_threads interval_ms =
     (case c of
        KernelThread \<Rightarrow> Kernel_calculate_time_slice priority_level number_of_threads interval_ms
      | UserThread \<Rightarrow> User_calculate_time_slice priority_level number_of_threads interval_ms)"

section \<open>Threads\<close>

datatype TaskStatus = TaskNew | Interruptible | Uninterruptible | Running | Stopped

record 'c ThreadEntry =
  thread_lock :: bool
  time_slice :: u64
  task_status :: TaskStatus
  thread_id :: usize
  process_of :: usize
  context_data :: 'c
  priority_level :: u8
  scheduling_class :: SchedulingClass
  thread_flags :: u8

definition FLAG_LOCAL_THREAD :: u8 where
  "FLAG_LOCAL_THREAD = 1"

definition ThreadEntry_new :: "usize \<Rightarrow> 'c \<Rightarrow> SchedulingClass \<Rightarrow> 'c ThreadEntry" where
  "ThreadEntry_new process ctx sched_class =
     \<lparr>thread_lock = SpinLockFlag_new, time_slice = 0, task_status = TaskNew, thread_id = 0, process_of = process,
      context_data = ctx, priority_level = 0, scheduling_class = sched_class, thread_flags = 0\<rparr>"

text \<open>A null process pointer makes \<open>NonNull::new(..).unwrap()\<close> panic.\<close>

definition ThreadEntry_init :: "usize \<Rightarrow> u8 \<Rightarrow> SchedulingClass \<Rightarrow> 'c \<Rightarrow> ('e, 'c ThreadEntry) outcome" where
  "ThreadEntry_init process priority sched_class ctx =
     (if process = 0 then Panic
      else Ok ((ThreadEntry_new process ctx sched_class)\<lparr>priority_level := priority, scheduling_class := sched_class\<rparr>))"

definition fork_data :: "'c ThreadEntry \<Rightarrow> 'c \<Rightarrow> ('e, 'c ThreadEntry) outcome" where
  "fork_data original ctx =
     obind (assert_that (thread_lock original)) (\<lambda>_.
     Ok ((ThreadEntry_new (process_of original) ctx (scheduling_class original))
       \<lparr>task_status := TaskNew, priority_level := priority_level original\<rparr>))"

definition set_process :: "usize \<Rightarrow> 'c ThreadEntry \<Rightarrow> ('e, 'c ThreadEntry) outcome" where
  "set_process process t = (if process = 0 then Panic else Ok (t\<lparr>process_of := process\<rparr>))"

definition set_priority_level :: "u8 \<Rightarrow> 'c ThreadEntry \<Rightarrow> 'c ThreadEntry" where
  "set_priority_level p t = t\<lparr>priority_level := p\<rparr>"

definition set_t_id :: "usize \<Rightarrow> 'c ThreadEntry \<Rightarrow> 'c ThreadEntry" where
  "set_t_id i t = t\<lparr>thread_id := i\<rparr>"

definition set_task_status :: "TaskStatus \<Rightarrow> 'c ThreadEntry \<Rightarrow> 'c ThreadEntry" where
  "set_task_status st t = t\<lparr>task_status := st\<rparr>"

definition set_context :: "'c \<Rightarrow> 'c ThreadEntry \<Rightarrow> 'c ThreadEntry" where
  "set_context c t = t\<lparr>context_data := c\<rparr>"

definition copy_data :: "'c ThreadEntry \<Rightarrow> 'c ThreadEntry" where
  "copy_data t = t\<lparr>time_slice := 0, thread_lock := SpinLockFlag_new, thread_flags := 0\<rparr>"

definition set_time_slice :: "usize \<Rightarrow> u64 \<Rightarrow> 'c ThreadEntry \<Rightarrow> ('e, 'c ThreadEntry) outcome" where
  "set_time_slice number_of_threads timer_interval t =
     obind (calculate_time_slice (scheduling_class t) (priority_level t) number_of_threads timer_interval)
       (\<lambda>n. Ok (t\<lparr>time_slice := n\<rparr>))"

definition is_local_thread :: "'c ThreadEntry \<Rightarrow> bool" where
  "is_local_thread t \<longleftrightarrow> and (thread_flags t) FLAG_LOCAL_THREAD \<noteq> 0"

definition set_local_thread :: "'c ThreadEntry \<Rightarrow> 'c ThreadEntry" where
  "set_local_thread t = t\<lparr>thread_flags := or (thread_flags t) FLAG_LOCAL_THREAD\<rparr>"

section \<open>Lemmas\<close>

text \<open>The priorities that belong to a class; the idle priority belongs to the kernel.\<close>

definition class_priority :: "SchedulingClass \<Rightarrow> u8 \<Rightarrow> bool" where
  "class_priority c p \<longleftrightarrow> (case c of
     KernelThread \<Rightarrow> p = Kernel_get_idle_thread_priority \<or> 80 \<le> p \<and> p \<le> 120
   | UserThread \<Rightarrow> 100 \<le> p \<and> p \<le> 140)"

lemma time_slice_defined:
  assumes "class_priority c p" and "n * i \<noteq> 0"
  shows "\<exists>v. calculate_time_slice c p n i = Ok v \<and> 10 \<le> v"
  using assms
  by (cases c) (auto simp: calculate_time_slice_def class_priority_def Kernel_calculate_time_slice_def User_calculate_time_slice_def)

lemma custom_priority_in_class:
  "Kernel_get_custom_priority l = Ok p \<Longrightarrow> class_priority KernelThread p"
  "User_get_custom_priority l = Ok p \<Longrightarrow> class_priority UserThread p"
proof -
  have "unat (80 + l) = 80 + unat l" "unat (100 + l) = 100 + unat l" if "l < 40"
    using that by (simp_all add: unat_word_ariths word_less_nat_alt)
  then have "80 \<le> 80 + l \<and> 80 + l \<le> 120" "100 \<le> 100 + l \<and> 100 + l \<le> 140" if "l < 40"
    using that by (simp_all add: word_le_nat_alt word_less_nat_alt)
  then show "Kernel_get_custom_priority l = Ok p \<Longrightarrow> class_priority KernelThread p"
    "User_get_custom_priority l = Ok p \<Longrightarrow> class_priority UserThread p"
    by (auto simp: Kernel_get_custom_priority_def User_get_custom_priority_def class_priority_def split: if_splits)
qed

lemma set_time_slice_defined:
  assumes "class_priority (scheduling_class t) (priority_level t)" and "n * i \<noteq> 0"
  shows "\<exists>v. set_time_slice n i t = (Ok (t\<lparr>time_slice := v\<rparr>) :: ('e, 'c ThreadEntry) outcome)"
proof -
  obtain v where "calculate_time_slice (scheduling_class t) (priority_level t) n i = (Ok v :: ('e, u64) outcome)"
    using time_slice_defined [OF assms] by blast
  then show ?thesis by (auto simp: set_time_slice_def)
qed

end
