(* ===== verification/Process_Entry.thy ===== *)
theory Process_Entry
  imports Thread_Entry Slab_Allocator
begin

text \<open>
  Processes and the threads they own: \<open>kernel/task_manager/process_entry.rs\<close>. Threads and
  processes live in stores and are named by their addresses. An intrusive list is the
  sequence of its members (\<open>Ptr_Linked_List\<close> shows that its operations implement
  sequences). A lock that is taken again by the thread that has it never returns, which is
  \<open>Diverge\<close>; guards are released at the end of their scope, so an operation that takes and
  drops one leaves the flag as it was. Errors carry the state in which they occur.
\<close>

section \<open>State\<close>

datatype TaskError = TaskMemoryError MemoryError | ThreadLockError | InvalidProcessEntry | InvalidThreadEntry

datatype TaskSignal = SignalNormal | SignalStop | SignalKill

datatype ProcessStatus = ProcessNew | ProcessNormal | Zombie

record 'f ProcessEntry =
  children :: "usize list"
  process_lock :: bool
  process_threads :: "usize list"
  signal :: TaskSignal
  process_status :: ProcessStatus
  memory_manager :: usize
  process_id :: usize
  parent :: usize
  num_of_thread :: usize
  single_thread :: "usize option"
  privilege_level :: u8
  next_thread_id :: usize
  files :: "'f list"
  file_vec_lock :: bool

definition ProcessEntry_new :: "'f ProcessEntry" where
  "ProcessEntry_new =
     \<lparr>children = [], process_lock = SpinLockFlag_new, process_threads = [], signal = SignalNormal,
      process_status = ProcessNew, memory_manager = 0, process_id = 0, parent = 0, num_of_thread = 0,
      single_thread = None, privilege_level = 0, next_thread_id = 0, files = [], file_vec_lock = SpinLockFlag_new\<rparr>"

record ('c, 'f) task_store =
  threads :: "usize \<Rightarrow> 'c ThreadEntry"
  processes :: "usize \<Rightarrow> 'f ProcessEntry"

definition upd_thread ::
  "usize \<Rightarrow> ('c ThreadEntry \<Rightarrow> 'c ThreadEntry) \<Rightarrow> ('c, 'f, 'z) task_store_scheme \<Rightarrow> ('c, 'f, 'z) task_store_scheme" where
  "upd_thread t f s = s\<lparr>threads := (threads s)(t := f (threads s t))\<rparr>"

definition upd_process ::
  "usize \<Rightarrow> ('f ProcessEntry \<Rightarrow> 'f ProcessEntry) \<Rightarrow> ('c, 'f, 'z) task_store_scheme \<Rightarrow> ('c, 'f, 'z) task_store_scheme" where
  "upd_process p f s = s\<lparr>processes := (processes s)(p := f (processes s p))\<rparr>"

definition lock_thread ::
  "usize \<Rightarrow> ('c, 'f, 'z) task_store_scheme \<Rightarrow> ('e, ('c, 'f, 'z) task_store_scheme) outcome" where
  "lock_thread t s = (if thread_lock (threads s t) then Diverge else Ok (upd_thread t (thread_lock_update (\<lambda>_. True)) s))"

definition unlock_thread :: "usize \<Rightarrow> ('c, 'f, 'z) task_store_scheme \<Rightarrow> ('c, 'f, 'z) task_store_scheme" where
  "unlock_thread t s = upd_thread t (thread_lock_update SpinLockFlagHolder_drop) s"

definition lock_process ::
  "usize \<Rightarrow> ('c, 'f, 'z) task_store_scheme \<Rightarrow> ('e, ('c, 'f, 'z) task_store_scheme) outcome" where
  "lock_process p s =
     (if process_lock (processes s p) then Diverge else Ok (upd_process p (process_lock_update (\<lambda>_. True)) s))"

definition unlock_process :: "usize \<Rightarrow> ('c, 'f, 'z) task_store_scheme \<Rightarrow> ('c, 'f, 'z) task_store_scheme" where
  "unlock_process p s = upd_process p (process_lock_update SpinLockFlagHolder_drop) s"

section \<open>The threads of a process\<close>

text \<open>\<open>insert_after\<close> of the list; the reference must be a member.\<close>

fun insert_after_member :: "usize \<Rightarrow> usize \<Rightarrow> usize list \<Rightarrow> ('e, usize list) outcome" where
  "insert_after_member p t [] = Panic"
| "insert_after_member p t (x # xs) =
     (if x = p then Ok (x # t # xs) else obind (insert_after_member p t xs) (\<lambda>ys. Ok (x # ys)))"

text \<open>\<open>remove\<close> of the list; the node must be a member.\<close>

definition remove_member :: "usize \<Rightarrow> usize list \<Rightarrow> ('e, usize list) outcome" where
  "remove_member t xs = (if t \<in> set xs then Ok (remove1 t xs) else Panic)"

definition set_thread_into_thread_list ::
  "usize \<Rightarrow> usize \<Rightarrow> usize option \<Rightarrow> ('c, 'f, 'z) task_store_scheme \<Rightarrow>
    (TaskError \<times> ('c, 'f, 'z) task_store_scheme, ('c, 'f, 'z) task_store_scheme) outcome" where
  "set_thread_into_thread_list p t prev_thread s =
     obind (assert_that (process_lock (processes s p))) (\<lambda>_.
     let ts = process_threads (processes s p)
     in if ts = [] then Ok (upd_process p (process_threads_update (\<lambda>_. [t])) s)
        else
          (case prev_thread of
             Some prev \<Rightarrow>
               obind (lock_thread t s) (\<lambda>s1.
               if thread_lock (threads s1 prev) then Err (ThreadLockError, s)
               else obind (insert_after_member prev t ts) (\<lambda>ts'.
                 Ok (unlock_thread t (upd_process p (process_threads_update (\<lambda>_. ts')) s1))))
           | None \<Rightarrow>
               obind (lock_thread t s) (\<lambda>s1.
               if thread_lock (threads s1 (last ts)) then Err (ThreadLockError, s)
               else Ok (unlock_thread t (upd_process p (process_threads_update (\<lambda>_. ts @ [t])) s1)))))"

definition update_next_thread_id :: "'f ProcessEntry \<Rightarrow> 'f ProcessEntry" where
  "update_next_thread_id p = p\<lparr>next_thread_id := next_thread_id p + 1\<rparr>"

text \<open>The loop of \<open>init\<close> over the threads with the one before; it always locks the first thread.\<close>

fun ProcessEntry_init_threads ::
  "usize \<Rightarrow> usize \<Rightarrow> usize option \<Rightarrow> usize list \<Rightarrow> ('c, 'f, 'z) task_store_scheme \<Rightarrow>
    (TaskError \<times> ('c, 'f, 'z) task_store_scheme, ('c, 'f, 'z) task_store_scheme) outcome" where
  "ProcessEntry_init_threads p first prev [] s = Ok s"
| "ProcessEntry_init_threads p first prev (t # ts) s =
     obind (lock_thread first s) (\<lambda>s.
     obind (set_process p (threads s t)) (\<lambda>e.
     let s = upd_thread t (\<lambda>_. set_t_id (next_thread_id (processes s p)) e) s;
         s = unlock_thread first s;
         s = upd_process p update_next_thread_id s
     in case set_thread_into_thread_list p t prev s of
          Err _ \<Rightarrow> Panic
        | r \<Rightarrow> obind r (ProcessEntry_init_threads p first (Some t) ts)))"

definition ProcessEntry_init ::
  "usize \<Rightarrow> usize \<Rightarrow> usize \<Rightarrow> usize list \<Rightarrow> usize \<Rightarrow> u8 \<Rightarrow> ('c, 'f, 'z) task_store_scheme \<Rightarrow>
    (TaskError \<times> ('c, 'f, 'z) task_store_scheme, ('c, 'f, 'z) task_store_scheme) outcome" where
  "ProcessEntry_init p p_id parent_p ts mm privilege s =
     (let s = upd_process p (\<lambda>_. ProcessEntry_new\<lparr>parent := parent_p, process_id := p_id, privilege_level := privilege,
                memory_manager := mm, num_of_thread := of_nat (length ts), next_thread_id := 1\<rparr>) s
      in obind (lock_process p s) (\<lambda>s.
         obind
           (case ts of
              [t] \<Rightarrow>
                obind (lock_thread t s) (\<lambda>s.
                obind (set_process p (threads s t)) (\<lambda>e.
                let s = upd_thread t (\<lambda>_. set_t_id 1 e) s;
                    s = upd_process p (\<lambda>q. update_next_thread_id (q\<lparr>single_thread := Some t\<rparr>)) s
                in Ok (unlock_thread t s)))
            | _ \<Rightarrow>
                ProcessEntry_init_threads p (hd ts) None ts (upd_process p (single_thread_update (\<lambda>_. None)) s))
           (\<lambda>s. Ok (unlock_process p s))))"

definition get_memory_manager ::
  "usize \<Rightarrow> ('c, 'f, 'z) task_store_scheme \<Rightarrow> ('e, usize) outcome" where
  "get_memory_manager p s = obind (lock_process p s) (\<lambda>s. Ok (memory_manager (processes s p)))"

definition get_thread_mut ::
  "usize \<Rightarrow> usize \<Rightarrow> ('c, 'f, 'z) task_store_scheme \<Rightarrow> ('e, usize option) outcome" where
  "get_thread_mut p t_id s =
     (let e = processes s p
      in obind (assert_that (process_lock e)) (\<lambda>_.
         if num_of_thread e = 0 then Ok None
         else case single_thread e of
                Some t \<Rightarrow> Ok (if thread_id (threads s t) = t_id then Some t else None)
              | None \<Rightarrow> Ok (find (\<lambda>t. thread_id (threads s t) = t_id) (process_threads e))))"

definition ProcessEntry_add_thread ::
  "usize \<Rightarrow> usize \<Rightarrow> ('c, 'f, 'z) task_store_scheme \<Rightarrow>
    (TaskError \<times> ('c, 'f, 'z) task_store_scheme, ('c, 'f, 'z) task_store_scheme) outcome" where
  "ProcessEntry_add_thread p t s =
     obind (assert_that (process_lock (processes s p))) (\<lambda>_.
     obind (assert_that (\<not> thread_lock (threads s t))) (\<lambda>_.
     obind (set_process p (threads s t)) (\<lambda>e.
     let s = upd_thread t (\<lambda>_. set_t_id (next_thread_id (processes s p)) e) s;
         s = upd_process p update_next_thread_id s;
         q = processes s p
     in obind
          (if num_of_thread q = 0 then
             obind (assert_that (process_threads q = [])) (\<lambda>_.
             obind (assert_that (single_thread q = None)) (\<lambda>_.
             Ok (upd_process p (single_thread_update (\<lambda>_. Some t)) s)))
           else if num_of_thread q = 1 then
             obind (assert_that (process_threads q = [])) (\<lambda>_.
             case single_thread q of
               None \<Rightarrow> Panic
             | Some single \<Rightarrow>
                 obind (set_thread_into_thread_list p single None
                          (upd_process p (single_thread_update (\<lambda>_. None)) s)) (\<lambda>s.
                 set_thread_into_thread_list p t None s))
           else
             obind (assert_that (process_threads q \<noteq> [])) (\<lambda>_.
             obind (assert_that (single_thread q = None)) (\<lambda>_.
             set_thread_into_thread_list p t None s)))
          (\<lambda>s. Ok (upd_process p (\<lambda>q. q\<lparr>num_of_thread := num_of_thread q + 1\<rparr>) s)))))"

definition ProcessEntry_remove_thread ::
  "usize \<Rightarrow> usize \<Rightarrow> ('c, 'f, 'z) task_store_scheme \<Rightarrow>
    (TaskError \<times> ('c, 'f, 'z) task_store_scheme, ('c, 'f, 'z) task_store_scheme) outcome" where
  "ProcessEntry_remove_thread p t s =
     obind (assert_that (process_lock (processes s p))) (\<lambda>_.
     obind (assert_that (\<not> thread_lock (threads s t))) (\<lambda>_.
     let q = processes s p
     in obind
          (if num_of_thread q = 0 then Err (InvalidProcessEntry, s)
           else if num_of_thread q = 1 then
             obind (assert_that (process_threads q = [])) (\<lambda>_.
             obind (assert_that (single_thread q \<noteq> None)) (\<lambda>_.
             Ok (upd_process p (single_thread_update (\<lambda>_. None)) s)))
           else if num_of_thread q = 2 then
             obind (remove_member t (process_threads q)) (\<lambda>ts.
             case ts of
               [] \<Rightarrow> Panic
             | single # rest \<Rightarrow>
                 obind (assert_that (rest = [])) (\<lambda>_.
                 Ok (upd_process p (\<lambda>q. q\<lparr>process_threads := rest, single_thread := Some single\<rparr>) s)))
           else
             obind (remove_member t (process_threads q)) (\<lambda>ts.
             Ok (upd_process p (process_threads_update (\<lambda>_. ts)) s)))
          (\<lambda>s. Ok (upd_process p (\<lambda>q. q\<lparr>num_of_thread := num_of_thread q - 1\<rparr>) s))))"

definition take_thread ::
  "usize \<Rightarrow> ('c, 'f, 'z) task_store_scheme \<Rightarrow>
    (TaskError \<times> ('c, 'f, 'z) task_store_scheme, usize option \<times> ('c, 'f, 'z) task_store_scheme) outcome" where
  "take_thread p s =
     (let q = processes s p
      in obind (assert_that (process_lock q)) (\<lambda>_.
         if num_of_thread q = 0 then Ok (None, s)
         else
           case (if num_of_thread q = 1 then single_thread q
                 else case process_threads q of [] \<Rightarrow> None | t # _ \<Rightarrow> Some t) of
             None \<Rightarrow> Panic
           | Some t \<Rightarrow>
               obind (lock_thread t s) (\<lambda>s.
               obind (ProcessEntry_remove_thread p t s) (\<lambda>s.
               Ok (Some t, unlock_thread t s)))))"

section \<open>The files of a process\<close>

text \<open>The guard of the vector is taken when the process has not exactly one thread.\<close>

definition get_file :: "usize \<Rightarrow> usize \<Rightarrow> ('c, 'f, 'z) task_store_scheme \<Rightarrow> ('e, 'f option) outcome" where
  "get_file p index s =
     (let q = processes s p
      in if num_of_thread q \<noteq> 1 \<and> file_vec_lock q then Diverge
         else Ok (if unat index < length (files q) then Some (files q ! unat index) else None))"

definition add_file ::
  "usize \<Rightarrow> 'f \<Rightarrow> ('c, 'f, 'z) task_store_scheme \<Rightarrow> ('e, usize \<times> ('c, 'f, 'z) task_store_scheme) outcome" where
  "add_file p f s =
     (let q = processes s p
      in if num_of_thread q \<noteq> 1 \<and> file_vec_lock q then Diverge
         else Ok (of_nat (length (files q)), upd_process p (files_update (\<lambda>fs. fs @ [f])) s))"

text \<open>The two operations that remove files take the guard when there is at most one thread.\<close>

definition remove_file_from_list ::
  "'f \<Rightarrow> usize \<Rightarrow> usize \<Rightarrow> ('c, 'f, 'z) task_store_scheme \<Rightarrow> (unit, 'f \<times> ('c, 'f, 'z) task_store_scheme) outcome" where
  "remove_file_from_list invalid p index s =
     (let q = processes s p
      in if num_of_thread q \<le> 1 \<and> file_vec_lock q then Diverge
         else if unat index \<ge> length (files q) then Err ()
         else Ok (files q ! unat index, upd_process p (files_update (\<lambda>fs. fs[unat index := invalid])) s))"

definition remove_file_from_list_append ::
  "usize \<Rightarrow> ('c, 'f, 'z) task_store_scheme \<Rightarrow> ('e, 'f option \<times> ('c, 'f, 'z) task_store_scheme) outcome" where
  "remove_file_from_list_append p s =
     (let q = processes s p
      in if num_of_thread q \<le> 1 \<and> file_vec_lock q then Diverge
         else if files q = [] then Ok (None, s)
         else Ok (Some (last (files q)), upd_process p (files_update butlast) s))"

section \<open>Lemmas\<close>

lemma store_simps [simp]:
  "threads (upd_thread t f s) = (threads s)(t := f (threads s t))"
  "processes (upd_thread t f s) = processes s"
  "processes (upd_process p g s) = (processes s)(p := g (processes s p))"
  "threads (upd_process p g s) = threads s"
  by (simp_all add: upd_thread_def upd_process_def)

lemma lock_unlock_thread [simp]:
  "\<not> thread_lock (threads s t) \<Longrightarrow> lock_thread t s = Ok (upd_thread t (thread_lock_update (\<lambda>_. True)) s)"
  "thread_lock (threads s t) \<Longrightarrow> lock_thread t s = Diverge"
  by (simp_all add: lock_thread_def)

lemma drop_eq: "SpinLockFlagHolder_drop = (\<lambda>_. False)"
  by (rule ext) (simp add: SpinLockFlagHolder_drop_def)

lemma thread_lock_same: "thread_lock e = b \<Longrightarrow> thread_lock_update (\<lambda>_. b) e = e"
  by (cases e) simp

text \<open>Locking, changing a process and unlocking a thread changes the process only.\<close>

lemma unlock_after_lock [simp]:
  "\<not> thread_lock (threads s t) \<Longrightarrow>
    unlock_thread t (upd_process p f (upd_thread t (thread_lock_update (\<lambda>_. True)) s)) = upd_process p f s"
proof -
  assume "\<not> thread_lock (threads s t)"
  then have "thread_lock_update (\<lambda>_. False) (threads s t) = threads s t" by (simp add: thread_lock_same)
  then have "(threads s)(t := thread_lock_update (\<lambda>_. False) (threads s t)) = threads s" by (simp add: fun_upd_idem)
  then show ?thesis by (simp add: unlock_thread_def upd_thread_def upd_process_def drop_eq comp_def)
qed

text \<open>The threads a process owns.\<close>

definition owned :: "'f ProcessEntry \<Rightarrow> usize list" where
  "owned q = (case single_thread q of Some t \<Rightarrow> [t] | None \<Rightarrow> process_threads q)"

definition proc_ok :: "usize \<Rightarrow> ('c, 'f, 'z) task_store_scheme \<Rightarrow> bool" where
  "proc_ok p s \<longleftrightarrow>
     (let q = processes s p
      in unat (num_of_thread q) = length (owned q) \<and> (num_of_thread q = 1 \<longleftrightarrow> single_thread q \<noteq> None) \<and>
         (single_thread q \<noteq> None \<longrightarrow> process_threads q = []) \<and> distinct (owned q) \<and>
         (\<forall>t \<in> set (owned q). process_of (threads s t) = p \<and> thread_id (threads s t) < next_thread_id q) \<and>
         inj_on (\<lambda>t. thread_id (threads s t)) (set (owned q)))"

lemma proc_cases [consumes 1, case_names none one many]:
  assumes "proc_ok p s"
  obtains "num_of_thread (processes s p) = 0" "single_thread (processes s p) = None" "process_threads (processes s p) = []"
  | t where "num_of_thread (processes s p) = 1" "single_thread (processes s p) = Some t" "process_threads (processes s p) = []"
  | "num_of_thread (processes s p) \<noteq> 0" "num_of_thread (processes s p) \<noteq> 1" "single_thread (processes s p) = None"
      "length (process_threads (processes s p)) \<ge> 2"
proof -
  let ?q = "processes s p"
  have len: "unat (num_of_thread ?q) = length (owned ?q)"
    and one: "num_of_thread ?q = 1 \<longleftrightarrow> single_thread ?q \<noteq> None" and em: "single_thread ?q \<noteq> None \<longrightarrow> process_threads ?q = []"
    using assms unfolding proc_ok_def Let_def by blast+
  show thesis
  proof (cases "single_thread ?q")
    case (Some t)
    then have "num_of_thread ?q = 1" "process_threads ?q = []" using one em by simp_all
    then show thesis using Some by (intro that(2))
  next
    case None
    then have l: "unat (num_of_thread ?q) = length (process_threads ?q)" and n1: "num_of_thread ?q \<noteq> 1"
      using len one by (simp_all add: owned_def)
    show thesis
    proof (cases "num_of_thread ?q = 0")
      case True
      then have "process_threads ?q = []" using l by simp
      then show thesis using None True by (intro that(1))
    next
      case False
      then have "unat (num_of_thread ?q) \<noteq> 0" "unat (num_of_thread ?q) \<noteq> 1"
        using n1 by (simp_all add: word_unat_eq_iff)
      then have "length (process_threads ?q) \<ge> 2" using l by linarith
      then show thesis using None False n1 by (intro that(3))
    qed
  qed
qed

lemma find_unique:
  assumes "inj_on f (set xs)" and "x \<in> set xs"
  shows "find (\<lambda>y. f y = f x) xs = Some x"
  using assms
proof (induction xs)
  case (Cons a xs)
  show ?case
  proof (cases "f a = f x")
    case True
    then have "a = x" using Cons.prems by (auto dest: inj_onD)
    then show ?thesis by simp
  next
    case False
    then show ?thesis using Cons by auto
  qed
qed simp

text \<open>A thread is found by its identifier.\<close>

lemma get_thread_mut_finds:
  assumes "proc_ok p s" and "process_lock (processes s p)" and "t \<in> set (owned (processes s p))"
  shows "get_thread_mut p (thread_id (threads s t)) s = Ok (Some t)"
  using assms(1)
proof (cases rule: proc_cases)
  case none
  then show ?thesis using assms(3) by (simp add: owned_def)
next
  case (one u)
  then show ?thesis using assms by (simp add: get_thread_mut_def owned_def)
next
  case many
  then have "inj_on (\<lambda>t. thread_id (threads s t)) (set (process_threads (processes s p)))"
    "t \<in> set (process_threads (processes s p))"
    using assms(1,3) by (simp_all add: proc_ok_def owned_def Let_def)
  then have "find (\<lambda>u. thread_id (threads s u) = thread_id (threads s t)) (process_threads (processes s p)) = Some t"
    by (rule find_unique)
  then show ?thesis using many assms(2) by (simp add: get_thread_mut_def)
qed

lemma set_into_list_ok:
  assumes "process_lock (processes s p)"
    and "process_threads (processes s p) \<noteq> [] \<Longrightarrow> \<not> thread_lock (threads s t) \<and>
      \<not> thread_lock (threads s (last (process_threads (processes s p)))) \<and> last (process_threads (processes s p)) \<noteq> t"
  shows "set_thread_into_thread_list p t None s =
    Ok (upd_process p (process_threads_update (\<lambda>_. process_threads (processes s p) @ [t])) s)"
proof (cases "process_threads (processes s p) = []")
  case True
  then show ?thesis using assms(1) by (simp add: set_thread_into_thread_list_def)
next
  case False
  then show ?thesis using assms(1) assms(2) [OF False] by (simp add: set_thread_into_thread_list_def Let_def)
qed

text \<open>What adding a thread must do to the store.\<close>

definition thread_added :: "usize \<Rightarrow> usize \<Rightarrow> ('c, 'f, 'z) task_store_scheme \<Rightarrow> ('c, 'f, 'z) task_store_scheme \<Rightarrow> bool" where
  "thread_added p t s s' \<longleftrightarrow>
     threads s' = (threads s)(t := (threads s t)\<lparr>process_of := p, thread_id := next_thread_id (processes s p)\<rparr>) \<and>
     owned (processes s' p) = owned (processes s p) @ [t] \<and>
     num_of_thread (processes s' p) = num_of_thread (processes s p) + 1 \<and>
     next_thread_id (processes s' p) = next_thread_id (processes s p) + 1 \<and>
     process_lock (processes s' p) = process_lock (processes s p) \<and>
     (single_thread (processes s' p) \<noteq> None \<longleftrightarrow> owned (processes s p) = []) \<and>
     (single_thread (processes s' p) \<noteq> None \<longrightarrow> process_threads (processes s' p) = []) \<and>
     (\<forall>r. r \<noteq> p \<longrightarrow> processes s' r = processes s r)"

lemma process_add_thread:
  assumes "proc_ok p s" and "process_lock (processes s p)" and "p \<noteq> 0" and "t \<notin> set (owned (processes s p))"
    and "\<not> thread_lock (threads s t)" and "\<forall>u \<in> set (owned (processes s p)). \<not> thread_lock (threads s u)"
  shows "\<exists>s'. ProcessEntry_add_thread p t s = Ok s' \<and> thread_added p t s s'"
  using assms(1)
proof (cases rule: proc_cases)
  case none
  then show ?thesis using assms
    by (simp add: ProcessEntry_add_thread_def set_process_def set_t_id_def update_next_thread_id_def Let_def
        thread_added_def owned_def)
next
  case (one u)
  then have u: "u \<noteq> t" "\<not> thread_lock (threads s u)" using assms(4,6) by (auto simp: owned_def)
  let ?s1 = "upd_process p update_next_thread_id (upd_thread t (\<lambda>_. set_t_id (next_thread_id (processes s p)) ((threads s t)\<lparr>process_of := p\<rparr>)) s)"
  let ?s2 = "upd_process p (single_thread_update (\<lambda>_. None)) ?s1"
  have 1: "set_thread_into_thread_list p u None ?s2 = Ok (upd_process p (process_threads_update (\<lambda>_. [u])) ?s2)"
    using set_into_list_ok [of ?s2 p u] one assms(2) by (simp add: update_next_thread_id_def)
  have 2: "set_thread_into_thread_list p t None (upd_process p (process_threads_update (\<lambda>_. [u])) ?s2) =
    Ok (upd_process p (process_threads_update (\<lambda>_. [u, t])) (upd_process p (process_threads_update (\<lambda>_. [u])) ?s2))"
    using set_into_list_ok [of "upd_process p (process_threads_update (\<lambda>_. [u])) ?s2" p t] u assms(2,5)
    by (simp add: update_next_thread_id_def set_t_id_def)
  show ?thesis using one assms(2,3,5) 1 2
    by (simp add: ProcessEntry_add_thread_def set_process_def Let_def thread_added_def owned_def)
      (simp add: update_next_thread_id_def set_t_id_def)
next
  case many
  let ?ts = "process_threads (processes s p)"
  let ?s1 = "upd_process p update_next_thread_id (upd_thread t (\<lambda>_. set_t_id (next_thread_id (processes s p)) ((threads s t)\<lparr>process_of := p\<rparr>)) s)"
  have ne: "?ts \<noteq> []" using many by auto
  then have "last ?ts \<in> set (owned (processes s p))" using many by (simp add: owned_def)
  then have l: "last ?ts \<noteq> t" "\<not> thread_lock (threads s (last ?ts))" using assms(4,6) by auto
  have 1: "set_thread_into_thread_list p t None ?s1 = Ok (upd_process p (process_threads_update (\<lambda>_. ?ts @ [t])) ?s1)"
    using set_into_list_ok [of ?s1 p t] l assms(2,5) by (simp add: update_next_thread_id_def set_t_id_def)
  show ?thesis using many ne assms(2,3,5) 1
    by (simp add: ProcessEntry_add_thread_def set_process_def Let_def thread_added_def owned_def)
      (simp add: update_next_thread_id_def set_t_id_def)
qed

lemma proc_ok_added:
  assumes "proc_ok p s" and "thread_added p t s s'" and "t \<notin> set (owned (processes s p))"
    and "unat (next_thread_id (processes s p)) + 1 < 2 ^ 64" and "length (owned (processes s p)) + 1 < 2 ^ 64"
  shows "proc_ok p s'"
proof -
  let ?q = "processes s p" and ?q' = "processes s' p"
  have a: "threads s' = (threads s)(t := (threads s t)\<lparr>process_of := p, thread_id := next_thread_id ?q\<rparr>)"
    "owned ?q' = owned ?q @ [t]" "num_of_thread ?q' = num_of_thread ?q + 1" "next_thread_id ?q' = next_thread_id ?q + 1"
    "single_thread ?q' \<noteq> None \<longleftrightarrow> owned ?q = []" "single_thread ?q' \<noteq> None \<longrightarrow> process_threads ?q' = []"
    using assms(2) unfolding thread_added_def by blast+
  have p: "unat (num_of_thread ?q) = length (owned ?q)" "distinct (owned ?q)"
    "\<forall>u \<in> set (owned ?q). process_of (threads s u) = p \<and> thread_id (threads s u) < next_thread_id ?q"
    "inj_on (\<lambda>u. thread_id (threads s u)) (set (owned ?q))"
    using assms(1) unfolding proc_ok_def Let_def by blast+
  have n: "unat (num_of_thread ?q') = length (owned ?q')"
    using p(1) a(2,3) assms(5) by (simp add: unat_word_ariths)
  then have "num_of_thread ?q' = 1 \<longleftrightarrow> owned ?q = []" using a(2) by (simp add: word_unat_eq_iff)
  moreover have nx: "unat (next_thread_id ?q') = unat (next_thread_id ?q) + 1"
    using a(4) assms(4) by (simp add: unat_word_ariths)
  then have lt: "next_thread_id ?q < next_thread_id ?q'" by (simp add: word_less_nat_alt)
  have ids: "\<forall>u \<in> set (owned ?q'). process_of (threads s' u) = p \<and> thread_id (threads s' u) < next_thread_id ?q'"
    using a(1,2) p(3) lt assms(3) by (auto intro: less_trans)
  have same: "thread_id (threads s' u) = thread_id (threads s u)" if "u \<in> set (owned ?q)" for u
    using that assms(3) a(1) by auto
  then have "inj_on (\<lambda>u. thread_id (threads s' u)) (set (owned ?q))" using p(4) by (simp add: inj_on_def)
  moreover have "thread_id (threads s' t) \<notin> (\<lambda>u. thread_id (threads s' u)) ` set (owned ?q)"
  proof
    assume "thread_id (threads s' t) \<in> (\<lambda>u. thread_id (threads s' u)) ` set (owned ?q)"
    then obtain u where u: "u \<in> set (owned ?q)" "thread_id (threads s' t) = thread_id (threads s' u)" by auto
    then have "thread_id (threads s' t) < next_thread_id ?q" using same [OF u(1)] p(3) by simp
    then show False using a(1) by simp
  qed
  ultimately have "inj_on (\<lambda>u. thread_id (threads s' u)) (set (owned ?q'))" using a(2) assms(3) by simp
  then show ?thesis
    using n \<open>num_of_thread ?q' = 1 \<longleftrightarrow> owned ?q = []\<close> a(2,5,6) p(2) assms(3) ids unfolding proc_ok_def Let_def by auto
qed

lemma process_remove_thread:
  assumes "proc_ok p s" and "process_lock (processes s p)" and "t \<in> set (owned (processes s p))"
    and "\<not> thread_lock (threads s t)"
  shows "\<exists>s'. ProcessEntry_remove_thread p t s = Ok s' \<and> proc_ok p s' \<and>
    owned (processes s' p) = remove1 t (owned (processes s p)) \<and> threads s' = threads s"
proof -
  let ?q = "processes s p"
  have num: "unat (num_of_thread ?q) = length (owned ?q)" "distinct (owned ?q)"
    using assms(1) unfolding proc_ok_def Let_def by blast+
  obtain s' where s': "ProcessEntry_remove_thread p t s = Ok s'" "threads s' = threads s"
    "owned (processes s' p) = remove1 t (owned ?q)" "num_of_thread (processes s' p) = num_of_thread ?q - 1"
    "next_thread_id (processes s' p) = next_thread_id ?q"
    "single_thread (processes s' p) \<noteq> None \<longleftrightarrow> length (owned ?q) = 2"
    "single_thread (processes s' p) \<noteq> None \<longrightarrow> process_threads (processes s' p) = []"
    using assms(1)
  proof (cases rule: proc_cases)
    case none
    then show thesis using assms(3) by (simp add: owned_def)
  next
    case (one u)
    then show thesis using assms that by (simp add: ProcessEntry_remove_thread_def owned_def Let_def)
  next
    case many
    let ?ts = "process_threads ?q"
    have t: "t \<in> set ?ts" and ow: "owned ?q = ?ts" using many assms(3) by (simp_all add: owned_def)
    show thesis
    proof (cases "num_of_thread ?q = 2")
      case True
      then have len: "length ?ts = 2" using num(1) ow by simp
      then have "length (remove1 t ?ts) = 1" using t by (simp add: length_remove1)
      then obtain u where u: "remove1 t ?ts = [u]" by (auto simp: length_Suc_conv)
      show thesis using that many True t u ow assms(2,4) len
        by (simp add: ProcessEntry_remove_thread_def remove_member_def owned_def Let_def)
    next
      case False
      then have "length ?ts \<noteq> 2" using num(1) ow by (simp add: word_unat_eq_iff)
      then show thesis using that many False t ow assms(2,4)
        by (simp add: ProcessEntry_remove_thread_def remove_member_def owned_def Let_def)
    qed
  qed
  have pos: "num_of_thread ?q \<noteq> 0" using num(1) assms(3) by auto
  then have n: "unat (num_of_thread (processes s' p)) = length (owned ?q) - 1" using s'(4) num(1) by (simp add: unat_minus_one)
  then have "num_of_thread (processes s' p) = 1 \<longleftrightarrow> length (owned ?q) = 2"
    using num(1) assms(3) by (auto simp: word_unat_eq_iff)
  moreover have "set (remove1 t (owned ?q)) \<subseteq> set (owned ?q)" by (rule set_remove1_subset)
  moreover have "\<forall>t \<in> set (owned ?q). process_of (threads s t) = p \<and> thread_id (threads s t) < next_thread_id ?q"
    "inj_on (\<lambda>t. thread_id (threads s t)) (set (owned ?q))"
    using assms(1) unfolding proc_ok_def Let_def by blast+
  ultimately have "proc_ok p s'"
    using s' n num(2) assms(3) unfolding proc_ok_def Let_def
    by (simp add: length_remove1 inj_on_subset)
  then show ?thesis using s' by blast
qed

text \<open>\<open>take_thread\<close> locks the thread and then calls \<open>remove_thread\<close>, which asserts that it is not locked.\<close>

lemma take_thread_asserts:
  assumes "proc_ok p s" and "process_lock (processes s p)" and "owned (processes s p) \<noteq> []"
    and "\<forall>u \<in> set (owned (processes s p)). \<not> thread_lock (threads s u)"
  shows "take_thread p s = Panic"
  using assms(1)
proof (cases rule: proc_cases)
  case none
  then show ?thesis using assms(3) by (simp add: owned_def)
next
  case (one u)
  then show ?thesis using assms(2,4) by (simp add: take_thread_def owned_def ProcessEntry_remove_thread_def assert_that_def)
next
  case many
  then obtain u us where "process_threads (processes s p) = u # us" by (cases "process_threads (processes s p)") auto
  then show ?thesis using many assms(2,4)
    by (simp add: take_thread_def owned_def ProcessEntry_remove_thread_def assert_that_def)
qed

section \<open>Properties\<close>

text \<open>Remark. Adding a thread to a process succeeds when the threads are unlocked: the process
  then owns the thread behind the ones it had, its identifier is new in the process, and
  looking that identifier up returns the thread.\<close>

theorem ProcessEntry_add_thread_correct:
  assumes "proc_ok p s" and "process_lock (processes s p)" and "p \<noteq> 0" and "t \<notin> set (owned (processes s p))"
    and "\<not> thread_lock (threads s t)" and "\<forall>u \<in> set (owned (processes s p)). \<not> thread_lock (threads s u)"
    and "unat (next_thread_id (processes s p)) + 1 < 2 ^ 64" and "length (owned (processes s p)) + 1 < 2 ^ 64"
  shows "\<exists>s'. ProcessEntry_add_thread p t s = Ok s' \<and> proc_ok p s' \<and>
    owned (processes s' p) = owned (processes s p) @ [t] \<and>
    get_thread_mut p (next_thread_id (processes s p)) s' = Ok (Some t)"
proof -
  obtain s' where s': "ProcessEntry_add_thread p t s = Ok s'" "thread_added p t s s'"
    using process_add_thread [OF assms(1-6)] by blast
  have ok: "proc_ok p s'" by (rule proc_ok_added [OF assms(1) s'(2) assms(4,7,8)])
  have f: "owned (processes s' p) = owned (processes s p) @ [t]" "process_lock (processes s' p)"
    "thread_id (threads s' t) = next_thread_id (processes s p)"
    using s'(2) assms(2) by (auto simp: thread_added_def)
  then have "get_thread_mut p (next_thread_id (processes s p)) s' = Ok (Some t)"
    using get_thread_mut_finds [OF ok f(2), of t] by simp
  then show ?thesis using s'(1) ok f(1) by blast
qed

definition sample_store :: "(unit, unit) task_store" where
  "sample_store =
     \<lparr>threads = (\<lambda>_. ThreadEntry_new 1 () KernelThread)(16 := (ThreadEntry_new 1 () KernelThread)\<lparr>thread_id := 1\<rparr>),
      processes = (\<lambda>_. ProcessEntry_new\<lparr>process_lock := True, num_of_thread := 1, single_thread := Some 16, next_thread_id := 2\<rparr>)\<rparr>"

lemma sample_store_ok: "proc_ok 1 sample_store" "owned (processes sample_store 1) = [16]"
  by (simp_all add: proc_ok_def sample_store_def owned_def ThreadEntry_new_def ProcessEntry_new_def)

theorem ProcessEntry_add_thread_correct_witness:
  "\<exists>s'. ProcessEntry_add_thread 1 32 sample_store = Ok s' \<and> owned (processes s' 1) = [16, 32] \<and>
    get_thread_mut 1 2 s' = Ok (Some 32)"
  using ProcessEntry_add_thread_correct [OF sample_store_ok(1), of 32] sample_store_ok(2)
  by (auto simp: sample_store_def ThreadEntry_new_def ProcessEntry_new_def SpinLockFlag_new_def)

text \<open>Remark. Removing an owned, unlocked thread from its process succeeds, leaves the others in
  order and keeps the process consistent; but \<open>take_thread\<close>, which locks the thread before it
  removes it, always fails the assertion of \<open>remove_thread\<close> when the process has a thread.\<close>

theorem ProcessEntry_take_thread_panics:
  assumes "proc_ok p s" and "process_lock (processes s p)" and "t \<in> set (owned (processes s p))"
    and "\<forall>u \<in> set (owned (processes s p)). \<not> thread_lock (threads s u)"
  shows "(\<exists>s'. ProcessEntry_remove_thread p t s = Ok s' \<and> proc_ok p s' \<and>
      owned (processes s' p) = remove1 t (owned (processes s p))) \<and>
    take_thread p s = Panic"
proof -
  have "owned (processes s p) \<noteq> []" "\<not> thread_lock (threads s t)" using assms(3,4) by auto
  then show ?thesis using process_remove_thread [OF assms(1-3)] take_thread_asserts [OF assms(1,2) _ assms(4)] by blast
qed

theorem ProcessEntry_take_thread_panics_witness: "take_thread 1 sample_store = Panic"
  using ProcessEntry_take_thread_panics [OF sample_store_ok(1), of 16] sample_store_ok(2)
  by (simp add: sample_store_def ThreadEntry_new_def ProcessEntry_new_def SpinLockFlag_new_def)

end
