(* ===== verification/Run_Queue.thy ===== *)
theory Run_Queue
  imports Process_Entry
begin

text \<open>
  The per-processor run queue, \<open>kernel/task_manager/run_queue.rs\<close>: threads sorted by priority
  in the list to run and in the expired list. A queue is named by its processor. The state
  extends the store of threads and processes by the queues, the flags register of the
  processor that executes the operation and the address space it uses. Context switches
  are the end of an operation: its value says which thread runs next.
\<close>

section \<open>State\<close>

record RunList =
  run_priority :: u8
  run_threads :: "usize list"

definition RunList_new :: "u8 \<Rightarrow> RunList" where
  "RunList_new p = \<lparr>run_priority = p, run_threads = []\<rparr>"

text \<open>\<open>run_list_pool\<close> is the number of run lists that the slab allocator can still provide.\<close>

record RunQueue =
  queue_lock :: bool
  run_list :: "RunList list"
  expired_list :: "RunList list"
  idle_thread :: usize
  running_thread :: "usize option"
  run_list_pool :: nat
  should_recheck_priority :: bool
  should_reschedule :: bool
  number_of_threads :: usize

definition RunQueue_new :: RunQueue where
  "RunQueue_new = \<lparr>queue_lock = SpinLockFlag_new, run_list = [], expired_list = [], idle_thread = 0, running_thread = None,
     run_list_pool = 0, should_recheck_priority = False, should_reschedule = False, number_of_threads = 0\<rparr>"

record ('c, 'f) scheduler = "('c, 'f) task_store" +
  run_queues :: "nat \<Rightarrow> RunQueue"
  local_flags :: u64
  active_memory :: usize

definition TIMER_INTERVAL_MS :: u64 where
  "TIMER_INTERVAL_MS = 10"

definition upd_queue ::
  "nat \<Rightarrow> (RunQueue \<Rightarrow> RunQueue) \<Rightarrow> ('c, 'f, 'z) scheduler_scheme \<Rightarrow> ('c, 'f, 'z) scheduler_scheme" where
  "upd_queue c f s = s\<lparr>run_queues := (run_queues s)(c := f (run_queues s c))\<rparr>"

definition lock_queue :: "nat \<Rightarrow> ('c, 'f, 'z) scheduler_scheme \<Rightarrow> ('e, ('c, 'f, 'z) scheduler_scheme) outcome" where
  "lock_queue c s =
     (if queue_lock (run_queues s c) then Diverge else Ok (upd_queue c (queue_lock_update (\<lambda>_. True)) s))"

definition unlock_queue :: "nat \<Rightarrow> ('c, 'f, 'z) scheduler_scheme \<Rightarrow> ('c, 'f, 'z) scheduler_scheme" where
  "unlock_queue c s = upd_queue c (queue_lock_update SpinLockFlagHolder_drop) s"

definition irq_save :: "('c, 'f, 'z) scheduler_scheme \<Rightarrow> u64 \<times> ('c, 'f, 'z) scheduler_scheme" where
  "irq_save s = (case save_and_disable_local_irq (local_flags s) of (irq, r) \<Rightarrow> (irq, s\<lparr>local_flags := r\<rparr>))"

definition irq_restore :: "u64 \<Rightarrow> ('c, 'f, 'z) scheduler_scheme \<Rightarrow> ('c, 'f, 'z) scheduler_scheme" where
  "irq_restore irq s = s\<lparr>local_flags := restore_local_irq irq (local_flags s)\<rparr>"

text \<open>\<open>expect\<close> and \<open>unwrap\<close>: an error panics.\<close>

definition expect :: "('e, 'a) outcome \<Rightarrow> ('d, 'a) outcome" where
  "expect m = (case m of Ok x \<Rightarrow> Ok x | Err _ \<Rightarrow> Panic | Panic \<Rightarrow> Panic | Diverge \<Rightarrow> Diverge)"

definition unwrap :: "'a option \<Rightarrow> ('e, 'a) outcome" where
  "unwrap m = (case m of Some x \<Rightarrow> Ok x | None \<Rightarrow> Panic)"

section \<open>Lists of threads\<close>

definition set_slice ::
  "nat \<Rightarrow> usize \<Rightarrow> ('c, 'f, 'z) scheduler_scheme \<Rightarrow> ('e, ('c, 'f, 'z) scheduler_scheme) outcome" where
  "set_slice c t s =
     obind (set_time_slice (number_of_threads (run_queues s c)) TIMER_INTERVAL_MS (threads s t))
       (\<lambda>e. Ok (upd_thread t (\<lambda>_. e) s))"

definition set_idle_thread :: "nat \<Rightarrow> usize \<Rightarrow> ('c, 'f, 'z) scheduler_scheme \<Rightarrow> ('c, 'f, 'z) scheduler_scheme" where
  "set_idle_thread c t s =
     upd_queue c (\<lambda>q. q\<lparr>number_of_threads := number_of_threads q + 1\<rparr>)
       (upd_thread t (set_task_status Running) (upd_queue c (idle_thread_update (\<lambda>_. t)) s))"

fun get_highest_priority_thread :: "RunList list \<Rightarrow> usize option" where
  "get_highest_priority_thread [] = None"
| "get_highest_priority_thread (l # ls) =
     (case run_threads l of t # _ \<Rightarrow> Some t | [] \<Rightarrow> get_highest_priority_thread ls)"

definition alloc_run_list :: "nat \<Rightarrow> u8 \<Rightarrow> ('e, RunList \<times> nat) outcome" where
  "alloc_run_list pool p = (if pool = 0 then Panic else Ok (RunList_new p, pool - 1))"

text \<open>The list of the priority without the thread, or \<open>None\<close> when there is no list of the priority.\<close>

fun remove_from_lists :: "u8 \<Rightarrow> usize \<Rightarrow> RunList list \<Rightarrow> ('e, RunList list option) outcome" where
  "remove_from_lists p t [] = Ok None"
| "remove_from_lists p t (l # ls) =
     (if run_priority l = p
      then obind (remove_member t (run_threads l)) (\<lambda>ts. Ok (Some (l\<lparr>run_threads := ts\<rparr> # ls)))
      else obind (remove_from_lists p t ls) (\<lambda>r. Ok (map_option ((#) l) r)))"

definition remove_target_thread ::
  "nat \<Rightarrow> usize \<Rightarrow> ('c, 'f, 'z) scheduler_scheme \<Rightarrow>
    (TaskError \<times> ('c, 'f, 'z) scheduler_scheme, ('c, 'f, 'z) scheduler_scheme) outcome" where
  "remove_target_thread c t s =
     obind (assert_that (queue_lock (run_queues s c))) (\<lambda>_.
     obind (assert_that (thread_lock (threads s t))) (\<lambda>_.
     obind (remove_from_lists (priority_level (threads s t)) t (run_list (run_queues s c))) (\<lambda>r.
     case r of
       Some ls \<Rightarrow> Ok (upd_queue c (run_list_update (\<lambda>_. ls)) s)
     | None \<Rightarrow> Err (InvalidThreadEntry, s))))"

definition RunQueue_remove_thread ::
  "nat \<Rightarrow> usize \<Rightarrow> ('c, 'f, 'z) scheduler_scheme \<Rightarrow>
    (TaskError \<times> ('c, 'f, 'z) scheduler_scheme, ('c, 'f, 'z) scheduler_scheme) outcome" where
  "RunQueue_remove_thread c t s =
     obind (assert_that (thread_lock (threads s t))) (\<lambda>_.
     obind (assert_that (\<not> queue_lock (run_queues s c))) (\<lambda>_.
     let (irq, s) = irq_save s
     in obind (lock_queue c s) (\<lambda>s.
        let finish = (\<lambda>s. irq_restore irq (unlock_queue c s))
        in if task_status (threads s t) = Running then Err (InvalidThreadEntry, finish s)
           else case remove_target_thread c t s of
                  Ok s' \<Rightarrow> Ok (finish (upd_queue c (\<lambda>q. q\<lparr>number_of_threads := number_of_threads q - 1\<rparr>) s'))
                | Err (e, s') \<Rightarrow> Err (e, finish s')
                | Panic \<Rightarrow> Panic
                | Diverge \<Rightarrow> Diverge)))"

text \<open>
  The place of a thread in a list sorted by priority. When the priority has threads, the
  last of them must be unlocked.
\<close>

fun add_to_lists ::
  "(usize \<Rightarrow> bool) \<Rightarrow> u8 \<Rightarrow> usize \<Rightarrow> nat \<Rightarrow> RunList list \<Rightarrow> (TaskError, RunList list \<times> nat) outcome" where
  "add_to_lists locked p t pool [] =
     obind (alloc_run_list pool p) (\<lambda>(r, pool). Ok ([r\<lparr>run_threads := [t]\<rparr>], pool))"
| "add_to_lists locked p t pool (l # ls) =
     (if run_priority l = p then
        (if run_threads l \<noteq> [] \<and> locked (last (run_threads l)) then Err ThreadLockError
         else Ok (l\<lparr>run_threads := run_threads l @ [t]\<rparr> # ls, pool))
      else if run_priority l > p then
        obind (alloc_run_list pool p) (\<lambda>(r, pool). Ok (r\<lparr>run_threads := [t]\<rparr> # l # ls, pool))
      else obind (add_to_lists locked p t pool ls) (\<lambda>(ls, pool). Ok (l # ls, pool)))"

text \<open>The last part of \<open>_add_thread\<close>, for the list to run.\<close>

definition thread_added_to_run_list ::
  "nat \<Rightarrow> usize \<Rightarrow> ('c, 'f, 'z) scheduler_scheme \<Rightarrow> ('e, ('c, 'f, 'z) scheduler_scheme) outcome" where
  "thread_added_to_run_list c t s =
     (let s = upd_thread t (set_task_status Running) s;
          s = (case running_thread (run_queues s c) of
                 Some r \<Rightarrow>
                   if priority_level (threads s t) > priority_level (threads s r)
                   then upd_queue c (\<lambda>q. q\<lparr>should_recheck_priority := True, should_reschedule := True\<rparr>) s else s
               | None \<Rightarrow> s);
          s = upd_queue c (\<lambda>q. q\<lparr>number_of_threads := number_of_threads q + 1\<rparr>) s
      in set_slice c t s)"

definition RunQueue__add_thread ::
  "nat \<Rightarrow> usize \<Rightarrow> bool \<Rightarrow> ('c, 'f, 'z) scheduler_scheme \<Rightarrow>
    (TaskError \<times> ('c, 'f, 'z) scheduler_scheme, ('c, 'f, 'z) scheduler_scheme) outcome" where
  "RunQueue__add_thread c t is_expired_list s =
     obind (assert_that (queue_lock (run_queues s c))) (\<lambda>_.
     let q = run_queues s c;
         target = (if is_expired_list then expired_list q else run_list q)
     in case add_to_lists (\<lambda>u. thread_lock (threads s u)) (priority_level (threads s t)) t (run_list_pool q) target of
          Err e \<Rightarrow> Err (e, s)
        | Panic \<Rightarrow> Panic
        | Diverge \<Rightarrow> Diverge
        | Ok (ls, pool) \<Rightarrow>
            if is_expired_list then Ok (upd_queue c (\<lambda>q. q\<lparr>expired_list := ls, run_list_pool := pool\<rparr>) s)
            else thread_added_to_run_list c t (upd_queue c (\<lambda>q. q\<lparr>run_list := ls, run_list_pool := pool\<rparr>) s))"

definition RunQueue_add_thread ::
  "nat \<Rightarrow> usize \<Rightarrow> ('c, 'f, 'z) scheduler_scheme \<Rightarrow>
    (TaskError \<times> ('c, 'f, 'z) scheduler_scheme, ('c, 'f, 'z) scheduler_scheme) outcome" where
  "RunQueue_add_thread c t s =
     obind (assert_that (thread_lock (threads s t))) (\<lambda>_.
     let (irq, s) = irq_save s
     in obind (lock_queue c s) (\<lambda>s.
        case RunQueue__add_thread c t False s of
          Ok s' \<Rightarrow> Ok (irq_restore irq (unlock_queue c s'))
        | Err (e, s') \<Rightarrow> Err (e, irq_restore irq (unlock_queue c s'))
        | Panic \<Rightarrow> Panic
        | Diverge \<Rightarrow> Diverge))"

text \<open>
  An error of \<open>_add_thread\<close> leaves \<open>assign_thread\<close> through \<open>?\<close>: the guard is dropped, the flags
  register is not restored.
\<close>

definition assign_thread ::
  "nat \<Rightarrow> usize \<Rightarrow> ('c, 'f, 'z) scheduler_scheme \<Rightarrow>
    (TaskError \<times> ('c, 'f, 'z) scheduler_scheme, bool \<times> ('c, 'f, 'z) scheduler_scheme) outcome" where
  "assign_thread c t s =
     obind (assert_that (thread_lock (threads s t))) (\<lambda>_.
     let (irq, s) = irq_save s
     in obind (lock_queue c s) (\<lambda>s.
        case RunQueue__add_thread c t False s of
          Err (e, s') \<Rightarrow> Err (e, unlock_queue c s')
        | Panic \<Rightarrow> Panic
        | Diverge \<Rightarrow> Diverge
        | Ok s' \<Rightarrow>
            (case running_thread (run_queues s' c) of
               None \<Rightarrow> Ok (False, irq_restore irq (unlock_queue c s'))
             | Some r \<Rightarrow>
                 obind (lock_thread r s') (\<lambda>_.
                 if priority_level (threads s' t) < priority_level (threads s' r)
                 then Ok (True, irq_restore irq (unlock_queue c (upd_queue c (should_reschedule_update (\<lambda>_. True)) s')))
                 else Ok (False, irq_restore irq (unlock_queue c s'))))))"

section \<open>The running thread\<close>

definition RunQueue_init :: "nat \<Rightarrow> nat \<Rightarrow> ('c, 'f, 'z) scheduler_scheme \<Rightarrow> ('c, 'f, 'z) scheduler_scheme" where
  "RunQueue_init pool c s = upd_queue c (run_list_pool_update (\<lambda>_. pool)) s"

definition get_number_of_running_threads ::
  "nat \<Rightarrow> ('c, 'f, 'z) scheduler_scheme \<Rightarrow> ('e, usize) outcome" where
  "get_number_of_running_threads c s = obind (lock_queue c s) (\<lambda>s. Ok (number_of_threads (run_queues s c)))"

definition get_running_thread :: "nat \<Rightarrow> ('c, 'f, 'z) scheduler_scheme \<Rightarrow> ('e, usize) outcome" where
  "get_running_thread c s =
     obind (assert_that (\<not> interrupts_enabled (local_flags s))) (\<lambda>_. unwrap (running_thread (run_queues s c)))"

definition pid_of :: "('c, 'f, 'z) scheduler_scheme \<Rightarrow> usize \<Rightarrow> usize" where
  "pid_of s t = process_id (processes s (process_of (threads s t)))"

definition get_running_process :: "nat \<Rightarrow> ('c, 'f, 'z) scheduler_scheme \<Rightarrow> ('e, usize) outcome" where
  "get_running_process c s = obind (unwrap (running_thread (run_queues s c))) (\<lambda>r. Ok (process_of (threads s r)))"

definition KERNEL_PID :: usize where
  "KERNEL_PID = 0"

definition get_running_pid :: "nat \<Rightarrow> ('c, 'f, 'z) scheduler_scheme \<Rightarrow> usize" where
  "get_running_pid c s = (case running_thread (run_queues s c) of Some t \<Rightarrow> pid_of s t | None \<Rightarrow> KERNEL_PID)"

definition copy_running_thread_data ::
  "nat \<Rightarrow> ('c, 'f, 'z) scheduler_scheme \<Rightarrow> (TaskError, 'c ThreadEntry) outcome" where
  "copy_running_thread_data c s =
     obind (lock_queue c s) (\<lambda>s.
     obind (unwrap (running_thread (run_queues s c))) (\<lambda>r.
     if thread_lock (threads s r) then Err ThreadLockError else Ok (copy_data (threads s r))))"

definition tick :: "nat \<Rightarrow> ('c, 'f, 'z) scheduler_scheme \<Rightarrow> ('e, ('c, 'f, 'z) scheduler_scheme) outcome" where
  "tick c s =
     (let (irq, s) = irq_save s
      in obind (lock_queue c s) (\<lambda>s.
         obind (get_running_thread c s) (\<lambda>r.
         let s = (if time_slice (threads s r) < 1
                  then upd_queue c (should_reschedule_update (\<lambda>_. True)) (upd_thread r (time_slice_update (\<lambda>_. 0)) s)
                  else upd_thread r (time_slice_update (\<lambda>n. n - 1)) s)
         in Ok (irq_restore irq (unlock_queue c s)))))"

definition should_call_schedule :: "nat \<Rightarrow> ('c, 'f, 'z) scheduler_scheme \<Rightarrow> bool" where
  "should_call_schedule c s = should_reschedule (run_queues s c)"

definition set_thread_to_expired_thread ::
  "nat \<Rightarrow> usize \<Rightarrow> ('c, 'f, 'z) scheduler_scheme \<Rightarrow>
    (TaskError \<times> ('c, 'f, 'z) scheduler_scheme, ('c, 'f, 'z) scheduler_scheme) outcome" where
  "set_thread_to_expired_thread c t s =
     obind (assert_that (queue_lock (run_queues s c))) (\<lambda>_. RunQueue__add_thread c t True s)"

section \<open>Scheduling\<close>

text \<open>Who the running thread gives the processor to.\<close>

datatype switch = Same_task | Jump_to usize | Switch_to usize usize

definition RunQueue_start :: "nat \<Rightarrow> ('c, 'f, 'z) scheduler_scheme \<Rightarrow> ('e, switch \<times> ('c, 'f, 'z) scheduler_scheme) outcome" where
  "RunQueue_start c s =
     obind (lock_queue c (snd (irq_save s))) (\<lambda>s.
     let t = (case get_highest_priority_thread (run_list (run_queues s c)) of
                Some t \<Rightarrow> t | None \<Rightarrow> idle_thread (run_queues s c));
         s = upd_thread t (set_task_status Running) s;
         s = upd_queue c (running_thread_update (\<lambda>_. Some t)) s
     in Ok (Jump_to t, unlock_queue c s))"

text \<open>The neighbours of a thread in the list its node is in.\<close>

fun next_in :: "usize \<Rightarrow> usize list \<Rightarrow> usize option" where
  "next_in t (x # y # ys) = (if x = t then Some y else next_in t (y # ys))"
| "next_in t _ = None"

fun prev_in :: "usize \<Rightarrow> usize list \<Rightarrow> usize option" where
  "prev_in t (x # y # ys) = (if y = t then Some x else prev_in t (y # ys))"
| "prev_in t _ = None"

definition list_of :: "RunQueue \<Rightarrow> usize \<Rightarrow> usize list" where
  "list_of q t =
     (case filter (\<lambda>l. t \<in> set (run_threads l)) (run_list q @ expired_list q) of l # _ \<Rightarrow> run_threads l | [] \<Rightarrow> [])"

definition get_prev_thread_lock ::
  "nat \<Rightarrow> usize \<Rightarrow> ('c, 'f, 'z) scheduler_scheme \<Rightarrow> ('e, usize option \<times> ('c, 'f, 'z) scheduler_scheme) outcome" where
  "get_prev_thread_lock c r s =
     (case prev_in r (list_of (run_queues s c) r) of
        Some p \<Rightarrow> obind (lock_thread p s) (\<lambda>s. Ok (Some p, s))
      | None \<Rightarrow> Ok (None, s))"

definition drop_guard :: "usize option \<Rightarrow> ('c, 'f, 'z) scheduler_scheme \<Rightarrow> ('c, 'f, 'z) scheduler_scheme" where
  "drop_guard g s = (case g of Some p \<Rightarrow> unlock_thread p s | None \<Rightarrow> s)"

text \<open>The running thread leaves the list to run; it goes to the expired list when it is still runnable.\<close>

definition retire_running ::
  "nat \<Rightarrow> usize \<Rightarrow> ('c, 'f, 'z) scheduler_scheme \<Rightarrow> ('e, ('c, 'f, 'z) scheduler_scheme) outcome" where
  "retire_running c r s =
     obind (get_prev_thread_lock c r s) (\<lambda>(prev, s).
     obind (expect (remove_target_thread c r s)) (\<lambda>s.
     obind
       (if task_status (threads s r) = Running
        then obind (set_slice c r s) (\<lambda>s. expect (set_thread_to_expired_thread c r s))
        else Ok s)
       (\<lambda>s. Ok (drop_guard prev s))))"

definition get_next_thread ::
  "nat \<Rightarrow> ('c, 'f, 'z) scheduler_scheme \<Rightarrow> usize \<times> ('c, 'f, 'z) scheduler_scheme" where
  "get_next_thread c s =
     (case get_highest_priority_thread (run_list (run_queues s c)) of
        Some t \<Rightarrow> (t, s)
      | None \<Rightarrow>
          let s = upd_queue c (\<lambda>q. q\<lparr>run_list := expired_list q, expired_list := run_list q\<rparr>) s
          in case get_highest_priority_thread (run_list (run_queues s c)) of
               Some t \<Rightarrow> (t, s)
             | None \<Rightarrow> (idle_thread (run_queues s c), s))"

definition choose_next ::
  "nat \<Rightarrow> usize \<Rightarrow> ('c, 'f, 'z) scheduler_scheme \<Rightarrow> ('e, usize \<times> ('c, 'f, 'z) scheduler_scheme) outcome" where
  "choose_next c r s =
     (case next_in r (list_of (run_queues s c) r) of
        Some n \<Rightarrow>
          obind (assert_that (r \<noteq> idle_thread (run_queues s c))) (\<lambda>_.
          obind (lock_thread n s) (\<lambda>s.
          obind (retire_running c r s) (\<lambda>s.
          if should_recheck_priority (run_queues s c)
          then let s = upd_queue c (should_recheck_priority_update (\<lambda>_. False)) s
               in Ok (case get_highest_priority_thread (run_list (run_queues s c)) of Some t \<Rightarrow> t | None \<Rightarrow> n,
                      unlock_thread n s)
          else Ok (n, unlock_thread n s))))
      | None \<Rightarrow>
          obind (if r = idle_thread (run_queues s c) then set_slice c r s else retire_running c r s)
            (\<lambda>s. Ok (get_next_thread c s)))"

text \<open>
  \<open>clone_pages\<close> says whether the memory manager at an address can copy the kernel part of its
  page tables (\<open>clone_kernel_memory_pages_if_needed\<close>).
\<close>

definition switch_memory ::
  "(usize \<Rightarrow> bool) \<Rightarrow> usize \<Rightarrow> usize \<Rightarrow> ('c, 'f, 'z) scheduler_scheme \<Rightarrow> ('e, ('c, 'f, 'z) scheduler_scheme) outcome" where
  "switch_memory clone_pages running_pid next_thread s =
     (if running_pid \<noteq> pid_of s next_thread then
        obind (get_memory_manager (process_of (threads s next_thread)) s) (\<lambda>mm.
        if mm \<noteq> 0 \<and> pid_of s next_thread \<noteq> 0
        then if clone_pages mm then Ok (s\<lparr>active_memory := mm\<rparr>) else Panic
        else Ok s)
      else Ok s)"

definition RunQueue__schedule ::
  "(usize \<Rightarrow> bool) \<Rightarrow> nat \<Rightarrow> 'c option \<Rightarrow> u64 option \<Rightarrow> bool \<Rightarrow> bool \<Rightarrow> ('c, 'f, 'z) scheduler_scheme \<Rightarrow>
    ('e, switch \<times> ('c, 'f, 'z) scheduler_scheme) outcome" where
  "RunQueue__schedule clone_pages c current_context saved_irq has_lock has_thread_lock s =
     (let (irq, s) = (case saved_irq of Some irq \<Rightarrow> (irq, s) | None \<Rightarrow> irq_save s)
      in obind (if has_lock then Ok s else lock_queue c s) (\<lambda>s.
         obind (unwrap (running_thread (run_queues s c))) (\<lambda>r.
         obind (if has_thread_lock then Ok s else lock_thread r s) (\<lambda>s.
         obind (choose_next c r s) (\<lambda>(n, s).
         obind (assert_that (task_status (threads s n) = Running)) (\<lambda>_.
         if thread_id (threads s r) = thread_id (threads s n) \<and> pid_of s r = pid_of s n
         then Ok (Same_task, irq_restore irq (unlock_queue c (unlock_thread r s)))
         else
           let s = (case current_context of Some ctx \<Rightarrow> upd_thread r (set_context ctx) s | None \<Rightarrow> s);
               s = unlock_thread r s;
               s = upd_queue c (\<lambda>q. q\<lparr>should_reschedule := False, running_thread := Some n\<rparr>) s
           in obind (switch_memory clone_pages (pid_of s r) n s) (\<lambda>s.
              Ok (case current_context of Some _ \<Rightarrow> Jump_to n | None \<Rightarrow> Switch_to r n, unlock_queue c s))))))))"

definition schedule ::
  "(usize \<Rightarrow> bool) \<Rightarrow> nat \<Rightarrow> 'c option \<Rightarrow> ('c, 'f, 'z) scheduler_scheme \<Rightarrow>
    ('e, switch \<times> ('c, 'f, 'z) scheduler_scheme) outcome" where
  "schedule clone_pages c current_context s = RunQueue__schedule clone_pages c current_context None False False s"

definition sleep_current_thread ::
  "(usize \<Rightarrow> bool) \<Rightarrow> nat \<Rightarrow> u64 option \<Rightarrow> TaskStatus \<Rightarrow> ('c, 'f, 'z) scheduler_scheme \<Rightarrow>
    ('e, switch \<times> ('c, 'f, 'z) scheduler_scheme) outcome" where
  "sleep_current_thread clone_pages c saved_irq st s =
     (let (irq, s) = (case saved_irq of Some irq \<Rightarrow> (irq, s) | None \<Rightarrow> irq_save s)
      in obind (lock_queue c s) (\<lambda>s.
         obind (unwrap (running_thread (run_queues s c))) (\<lambda>r.
         obind (lock_thread r s) (\<lambda>s.
         RunQueue__schedule clone_pages c None (Some irq) True True (upd_thread r (set_task_status st) s)))))"

section \<open>Lemmas on the state\<close>

lemma sched_simps [simp]:
  "threads (upd_queue c f s) = threads s"
  "processes (upd_queue c f s) = processes s"
  "run_queues (upd_queue c f s) = (run_queues s)(c := f (run_queues s c))"
  "local_flags (upd_queue c f s) = local_flags s"
  "run_queues (upd_thread t g s) = run_queues s"
  "local_flags (upd_thread t g s) = local_flags s"
  "run_queues (s\<lparr>local_flags := r\<rparr>) = run_queues s"
  "run_queues (upd_process p h s) = run_queues s"
  by (simp_all add: upd_queue_def upd_thread_def upd_process_def)

lemma more_simps [simp]:
  "scheduler.more (upd_queue c f s) = scheduler.more s" "scheduler.more (upd_thread t g s) = scheduler.more s"
  "scheduler.more (s\<lparr>local_flags := l\<rparr>) = scheduler.more s"
  "scheduler.more (s\<lparr>active_memory := a\<rparr>) = scheduler.more s"
  by (cases s; simp add: upd_queue_def upd_thread_def)+

lemma lock_queue_free [simp]:
  "\<not> queue_lock (run_queues s c) \<Longrightarrow> lock_queue c s = Ok (upd_queue c (queue_lock_update (\<lambda>_. True)) s)"
  by (simp add: lock_queue_def)

lemma expect_simps [simp]:
  "expect (Ok x) = Ok x" "expect (Err e) = Panic" "expect Panic = Panic" "expect Diverge = Diverge"
  by (simp_all add: expect_def)

lemma unwrap_simps [simp]: "unwrap (Some x) = Ok x" "unwrap None = Panic"
  by (simp_all add: unwrap_def)

section \<open>Sorted lists of threads\<close>

definition flat :: "RunList list \<Rightarrow> usize list" where
  "flat ls = concat (map run_threads ls)"

lemma flat_simps [simp]: "flat [] = []" "flat (l # ls) = run_threads l @ flat ls"
  by (simp_all add: flat_def)

definition sorted_lists :: "RunList list \<Rightarrow> bool" where
  "sorted_lists ls \<longleftrightarrow> sorted_wrt (\<lambda>a b. run_priority a < run_priority b) ls"

lemma sorted_lists_simps [simp]:
  "sorted_lists []"
  "sorted_lists (l # ls) \<longleftrightarrow> (\<forall>k \<in> set ls. run_priority l < run_priority k) \<and> sorted_lists ls"
  by (simp_all add: sorted_lists_def)

text \<open>Every thread of a list has the priority of the list.\<close>

definition lists_fit :: "(usize \<Rightarrow> u8) \<Rightarrow> RunList list \<Rightarrow> bool" where
  "lists_fit prio ls \<longleftrightarrow> (\<forall>l \<in> set ls. \<forall>t \<in> set (run_threads l). prio t = run_priority l)"

lemma lists_fit_simps [simp]:
  "lists_fit prio []"
  "lists_fit prio (l # ls) \<longleftrightarrow> (\<forall>t \<in> set (run_threads l). prio t = run_priority l) \<and> lists_fit prio ls"
  by (auto simp: lists_fit_def)

lemma fit_priority_mem: "lists_fit prio ls \<Longrightarrow> t \<in> set (flat ls) \<Longrightarrow> prio t \<in> run_priority ` set ls"
  by (induction ls) auto

text \<open>The first thread of the lists is the one with the least priority number.\<close>

lemma highest_is_hd: "get_highest_priority_thread ls = (case flat ls of [] \<Rightarrow> None | t # _ \<Rightarrow> Some t)"
  by (induction ls) (auto split: list.splits)

lemma highest_least:
  assumes "sorted_lists ls" and "lists_fit prio ls" and "get_highest_priority_thread ls = Some t" and "u \<in> set (flat ls)"
  shows "prio t \<le> prio u"
  using assms
proof (induction ls)
  case (Cons l ls)
  show ?case
  proof (cases "run_threads l")
    case Nil
    then show ?thesis using Cons by auto
  next
    case (Cons x xs)
    then have t: "prio t = run_priority l" using Cons.prems(2,3) by auto
    show ?thesis
    proof (cases "u \<in> set (run_threads l)")
      case False
      then have "prio u \<in> run_priority ` set ls" using Cons.prems(2,4) fit_priority_mem by auto
      then show ?thesis using t Cons.prems(1) by (auto intro: less_imp_le)
    qed (use t Cons.prems(2) in auto)
  qed
qed simp

lemma sorted_lists_map: "sorted_lists ls \<longleftrightarrow> sorted_wrt (<) (map run_priority ls)"
  by (simp add: sorted_lists_def sorted_wrt_map)

lemma remove_from_lists_ok:
  assumes "sorted_lists ls" and "lists_fit prio ls" and "t \<in> set (flat ls)"
  shows "\<exists>ls'. remove_from_lists (prio t) t ls = (Ok (Some ls') :: ('e, RunList list option) outcome) \<and> flat ls' = remove1 t (flat ls) \<and>
    map run_priority ls' = map run_priority ls \<and> lists_fit prio ls'"
  using assms
proof (induction ls)
  case (Cons l ls)
  show ?case
  proof (cases "run_priority l = prio t")
    case True
    then have "prio t \<notin> run_priority ` set ls" using Cons.prems(1) by auto
    then have "t \<notin> set (flat ls)" using Cons.prems(2) fit_priority_mem by fastforce
    then have t: "t \<in> set (run_threads l)" using Cons.prems(3) by simp
    let ?l = "l\<lparr>run_threads := remove1 t (run_threads l)\<rparr>"
    have "remove_from_lists (prio t) t (l # ls) = (Ok (Some (?l # ls)) :: ('e, RunList list option) outcome)"
      using True t by (simp add: remove_member_def)
    moreover have "flat (?l # ls) = remove1 t (flat (l # ls))" using t by (simp add: remove1_append)
    moreover have "lists_fit prio (?l # ls)" using Cons.prems(2) set_remove1_subset [of t "run_threads l"] by auto
    moreover have "map run_priority (?l # ls) = map run_priority (l # ls)" by simp
    ultimately show ?thesis by blast
  next
    case False
    then have t: "t \<notin> set (run_threads l)" using Cons.prems(2) by auto
    then have "t \<in> set (flat ls)" using Cons.prems(3) by simp
    then obtain ls' where "remove_from_lists (prio t) t ls = (Ok (Some ls') :: ('e, RunList list option) outcome)" "flat ls' = remove1 t (flat ls)"
      "map run_priority ls' = map run_priority ls" "lists_fit prio ls'"
      using Cons.IH Cons.prems by auto
    then show ?thesis using False t Cons.prems(2) by (simp add: remove1_append)
  qed
qed simp

text \<open>The place of a new thread: behind the threads of its own and higher priorities, before the others.\<close>

definition placed :: "(usize \<Rightarrow> u8) \<Rightarrow> usize \<Rightarrow> usize list \<Rightarrow> usize list" where
  "placed prio t xs = filter (\<lambda>x. prio x \<le> prio t) xs @ t # filter (\<lambda>x. prio t < prio x) xs"

definition in_place :: "(usize \<Rightarrow> u8) \<Rightarrow> usize \<Rightarrow> RunList list \<Rightarrow> RunList list \<Rightarrow> bool" where
  "in_place prio t ls ls' \<longleftrightarrow> flat ls' = placed prio t (flat ls)"

lemma placed_before: "\<forall>x \<in> set xs. prio t < prio x \<Longrightarrow> placed prio t xs = t # xs"
  unfolding placed_def by (induction xs) auto

lemma placed_behind: "\<forall>x \<in> set xs. prio x \<le> prio t \<Longrightarrow> placed prio t (xs @ ys) = xs @ placed prio t ys"
  unfolding placed_def by (induction xs) auto

lemma fit_above:
  assumes "lists_fit prio ls" and "\<forall>k \<in> set ls. p < run_priority k"
  shows "\<forall>x \<in> set (flat ls). p < prio x"
  using assms by (induction ls) auto

text \<open>What adding a thread must do to the lists.\<close>

definition lists_added :: "(usize \<Rightarrow> u8) \<Rightarrow> usize \<Rightarrow> nat \<Rightarrow> RunList list \<Rightarrow> nat \<Rightarrow> RunList list \<Rightarrow> bool" where
  "lists_added prio t pool ls pool' ls' \<longleftrightarrow>
     sorted_lists ls' \<and> lists_fit prio ls' \<and> set (flat ls') = insert t (set (flat ls)) \<and> distinct (flat ls') \<and>
     pool' + length ls' = pool + length ls \<and> run_priority ` set ls' = insert (prio t) (run_priority ` set ls) \<and>
     in_place prio t ls ls'"

lemma lists_added_here:
  assumes "sorted_lists (l # ls)" and "lists_fit prio (l # ls)" and "t \<notin> set (flat (l # ls))"
    and "distinct (flat (l # ls))" and "run_priority l = prio t"
  shows "lists_added prio t pool (l # ls) pool (l\<lparr>run_threads := run_threads l @ [t]\<rparr> # ls)"
proof -
  have "\<forall>x \<in> set (flat ls). prio t < prio x" using assms by (intro fit_above) simp_all
  moreover have "\<forall>x \<in> set (run_threads l). prio x \<le> prio t" using assms by simp
  ultimately have "in_place prio t (l # ls) (l\<lparr>run_threads := run_threads l @ [t]\<rparr> # ls)"
    by (simp add: in_place_def placed_behind placed_before)
  then show ?thesis unfolding lists_added_def using assms by (intro conjI) simp_all
qed

lemma lists_added_before:
  assumes "sorted_lists ls" and "lists_fit prio ls" and "t \<notin> set (flat ls)" and "distinct (flat ls)"
    and "\<forall>k \<in> set ls. prio t < run_priority k" and "0 < pool"
  shows "lists_added prio t pool ls (pool - 1) (\<lparr>run_priority = prio t, run_threads = [t]\<rparr> # ls)"
  unfolding lists_added_def using assms placed_before [OF fit_above [OF assms(2,5)]]
  by (intro conjI) (simp_all add: in_place_def)

lemma lists_added_behind:
  assumes "sorted_lists (l # ls)" and "lists_fit prio (l # ls)" and "t \<notin> set (flat (l # ls))"
    and "distinct (flat (l # ls))" and "run_priority l < prio t" and "lists_added prio t pool ls pool' ls'"
  shows "lists_added prio t pool (l # ls) pool' (l # ls')"
proof -
  have "run_priority l < run_priority k" if "k \<in> set ls'" for k
  proof -
    have "run_priority k \<in> insert (prio t) (run_priority ` set ls)" using that assms(6) unfolding lists_added_def by blast
    then show ?thesis using assms(1,5) by auto
  qed
  moreover have "\<forall>x \<in> set (run_threads l). prio x \<le> prio t" using assms(2,5) by auto
  then have "placed prio t (flat (l # ls)) = run_threads l @ placed prio t (flat ls)" by (simp add: placed_behind)
  then have "in_place prio t (l # ls) (l # ls')" using assms(6) by (simp add: lists_added_def in_place_def)
  ultimately show ?thesis using assms unfolding lists_added_def
    by (intro conjI) (simp_all add: insert_commute)
qed

lemma add_to_lists_ok:
  assumes "sorted_lists ls" and "lists_fit prio ls" and "t \<notin> set (flat ls)" and "distinct (flat ls)"
    and "\<forall>u \<in> set (flat ls). \<not> locked u" and "prio t \<notin> run_priority ` set ls \<Longrightarrow> 0 < pool"
  shows "\<exists>ls' pool'. add_to_lists locked (prio t) t pool ls = Ok (ls', pool') \<and> lists_added prio t pool ls pool' ls'"
  using assms
proof (induction ls)
  case Nil
  then show ?case using lists_added_before [of "[]" prio t pool] by (simp add: alloc_run_list_def RunList_new_def)
next
  case (Cons l ls)
  consider (eq) "run_priority l = prio t" | (gt) "prio t < run_priority l" | (lt) "run_priority l < prio t"
    by (meson linorder_cases)
  then show ?case
  proof cases
    case eq
    have "\<not> (run_threads l \<noteq> [] \<and> locked (last (run_threads l)))" using Cons.prems(5) by auto
    then have "add_to_lists locked (prio t) t pool (l # ls) = Ok (l\<lparr>run_threads := run_threads l @ [t]\<rparr> # ls, pool)"
      using eq by simp
    then show ?thesis using lists_added_here [OF Cons.prems(1-4) eq] by blast
  next
    case gt
    have all: "\<forall>k \<in> set (l # ls). prio t < run_priority k" using gt Cons.prems(1) by (auto intro: less_trans)
    then have "prio t \<notin> run_priority ` set (l # ls)" by force
    then have "0 < pool" using Cons.prems(6) by blast
    then show ?thesis using gt lists_added_before [OF Cons.prems(1-4) all]
      by (auto simp: alloc_run_list_def RunList_new_def)
  next
    case lt
    have "prio t \<notin> run_priority ` set ls \<Longrightarrow> 0 < pool" using Cons.prems(6) lt by auto
    then obtain ls' pool' where ls': "add_to_lists locked (prio t) t pool ls = Ok (ls', pool')"
      "lists_added prio t pool ls pool' ls'"
      using Cons.IH Cons.prems(1-5) by auto
    then have "add_to_lists locked (prio t) t pool (l # ls) = Ok (l # ls', pool')" using lt by auto
    then show ?thesis using lists_added_behind [OF Cons.prems(1-4) lt ls'(2)] by blast
  qed
qed

text \<open>There are 256 priorities, so 512 run lists are enough for both lists.\<close>

lemma sorted_lists_length:
  assumes "sorted_lists ls"
  shows "length ls \<le> 256" and "p \<notin> run_priority ` set ls \<Longrightarrow> length ls < 256"
proof -
  have d: "distinct (map run_priority ls)" using assms unfolding sorted_lists_map by (simp add: strict_sorted_iff)
  have "card (set (map run_priority ls)) \<le> card (UNIV :: u8 set)" by (rule card_mono) simp_all
  then show "length ls \<le> 256" using distinct_card [OF d] by (simp add: card_word)
  assume "p \<notin> run_priority ` set ls"
  then have "card (insert p (set (map run_priority ls))) = Suc (length ls)" using distinct_card [OF d] by simp
  moreover have "card (insert p (set (map run_priority ls))) \<le> card (UNIV :: u8 set)" by (rule card_mono) simp_all
  ultimately show "length ls < 256" by (simp add: card_word)
qed

lemma pool_enough:
  assumes "512 \<le> pool + length a + length b" and "sorted_lists a" and "sorted_lists b" and "p \<notin> run_priority ` set a"
  shows "0 < pool"
  using assms(1) sorted_lists_length(2) [OF assms(2,4)] sorted_lists_length(1) [OF assms(3)] by linarith

section \<open>Neighbours\<close>

lemma next_in_mem: "next_in t xs = Some n \<Longrightarrow> n \<in> set xs \<and> t \<in> set xs \<and> (distinct xs \<longrightarrow> n \<noteq> t)"
  by (induction t xs rule: next_in.induct) (auto split: if_splits)

lemma prev_in_mem: "prev_in t xs = Some n \<Longrightarrow> n \<in> set xs \<and> t \<in> set xs \<and> (distinct xs \<longrightarrow> n \<noteq> t)"
  by (induction t xs rule: prev_in.induct) (auto split: if_splits)

lemma next_prev_differ:
  "distinct xs \<Longrightarrow> next_in t xs = Some n \<Longrightarrow> prev_in t xs = Some p \<Longrightarrow> n \<noteq> p"
proof (induction t xs rule: next_in.induct)
  case (1 t x y ys)
  show ?case
  proof (cases "x = t")
    case True
    then have "prev_in t (y # ys) = Some p" using 1(2,4) by (auto split: if_splits)
    then have "t \<in> set (y # ys)" using prev_in_mem by blast
    then show ?thesis using True 1(2) by auto
  next
    case False
    then have n: "next_in t (y # ys) = Some n" using 1(3) by simp
    then have "n \<in> set (y # ys)" using next_in_mem by blast
    show ?thesis
    proof (cases "y = t")
      case True
      then have "p = x" using 1(4) by simp
      then show ?thesis using \<open>n \<in> set (y # ys)\<close> 1(2) by auto
    next
      case y: False
      then show ?thesis using 1(1) [OF False] n 1(2,4) by simp
    qed
  qed
qed auto

lemma next_in_hd: "next_in x (x # ys) = (case ys of [] \<Rightarrow> None | y # _ \<Rightarrow> Some y)"
  by (cases ys) auto

lemma list_of_first:
  assumes "t \<in> set (flat (run_list q))"
  shows "\<exists>l ls. filter (\<lambda>l. t \<in> set (run_threads l)) (run_list q) = l # ls \<and> list_of q t = run_threads l"
proof -
  have "filter (\<lambda>l. t \<in> set (run_threads l)) (run_list q) \<noteq> []"
    using assms by (auto simp: flat_def filter_empty_conv)
  then obtain l ls where f: "filter (\<lambda>l. t \<in> set (run_threads l)) (run_list q) = l # ls" by (meson neq_Nil_conv)
  then show ?thesis by (simp add: list_of_def)
qed

lemma list_of_run:
  assumes "t \<in> set (flat (run_list q))"
  shows "\<exists>l \<in> set (run_list q). list_of q t = run_threads l \<and> t \<in> set (run_threads l)"
proof -
  obtain l ls where f: "filter (\<lambda>l. t \<in> set (run_threads l)) (run_list q) = l # ls" "list_of q t = run_threads l"
    using list_of_first [OF assms] by blast
  have "l \<in> set (filter (\<lambda>l. t \<in> set (run_threads l)) (run_list q))" unfolding f(1) by simp
  then show ?thesis using f(2) by auto
qed

lemma list_of_subset: "t \<in> set (flat (run_list q)) \<Longrightarrow> set (list_of q t) \<subseteq> set (flat (run_list q))"
  using list_of_run [of t q] by (force simp: flat_def)

lemma list_of_distinct: "t \<in> set (flat (run_list q)) \<Longrightarrow> distinct (flat (run_list q)) \<Longrightarrow> distinct (list_of q t)"
  using list_of_run [of t q] by (auto simp: flat_def distinct_concat_iff)

lemma list_of_none: "t \<notin> set (flat (run_list q) @ flat (expired_list q)) \<Longrightarrow> list_of q t = []"
  by (auto simp: list_of_def flat_def filter_empty_conv split: list.splits)

text \<open>When the thread is the first of the lists, its successor is the second.\<close>

lemma next_of_first:
  assumes "flat (run_list q) = t # xs" and "next_in t (list_of q t) = Some n"
  shows "\<exists>ys. xs = n # ys"
  using assms(1)
proof -
  have "list_of q t = run_threads (hd (filter (\<lambda>l. t \<in> set (run_threads l)) (run_list q)))"
    using list_of_first [of t q] assms(1) by auto
  moreover have "\<exists>ys. run_threads (hd (filter (\<lambda>l. t \<in> set (run_threads l)) ls)) = t # ys \<and>
      (\<exists>zs. xs = ys @ zs)" if "flat ls = t # xs" for ls
    using that
  proof (induction ls)
    case (Cons l ls)
    then show ?case by (cases "run_threads l") auto
  qed simp
  ultimately obtain ys zs where "list_of q t = t # ys" "xs = ys @ zs" using assms(1) by metis
  then show ?thesis using assms(2) by (auto simp: next_in_hd split: list.splits)
qed

section \<open>Well-formed queues\<close>

definition members :: "RunQueue \<Rightarrow> usize list" where
  "members q = flat (run_list q) @ flat (expired_list q)"

definition prio_in :: "('c, 'f, 'z) scheduler_scheme \<Rightarrow> usize \<Rightarrow> u8" where
  "prio_in s t = priority_level (threads s t)"

definition task_ids :: "('c, 'f, 'z) scheduler_scheme \<Rightarrow> usize \<Rightarrow> usize \<times> usize" where
  "task_ids s t = (thread_id (threads s t), pid_of s t)"

text \<open>
  Both lists are sorted by priority and hold threads of their priority, no thread is in
  them twice, the idle thread is in neither, there are run lists for every priority, every
  thread has a time slice, and tasks are told apart by their identifiers.
\<close>

definition lists_wf :: "nat \<Rightarrow> ('c, 'f, 'z) scheduler_scheme \<Rightarrow> bool" where
  "lists_wf c s \<longleftrightarrow>
     (let q = run_queues s c
      in sorted_lists (run_list q) \<and> sorted_lists (expired_list q) \<and>
         lists_fit (prio_in s) (run_list q) \<and> lists_fit (prio_in s) (expired_list q) \<and>
         distinct (members q) \<and> idle_thread q \<notin> set (members q) \<and>
         512 \<le> run_list_pool q + length (run_list q) + length (expired_list q) \<and>
         (\<forall>t \<in> insert (idle_thread q) (set (members q)). class_priority (scheduling_class (threads s t)) (prio_in s t)) \<and>
         inj_on (task_ids s) (insert (idle_thread q) (set (members q))) \<and>
         number_of_threads q * TIMER_INTERVAL_MS \<noteq> 0)"

text \<open>Two states that differ, apart from the queues, in time slices only.\<close>

definition same_tasks :: "('c, 'f, 'z) scheduler_scheme \<Rightarrow> ('c, 'f, 'z) scheduler_scheme \<Rightarrow> bool" where
  "same_tasks s s' \<longleftrightarrow>
     (\<forall>t. time_slice_update (\<lambda>_. 0) (threads s' t) = time_slice_update (\<lambda>_. 0) (threads s t)) \<and>
     processes s' = processes s \<and> local_flags s' = local_flags s \<and> active_memory s' = active_memory s \<and>
     scheduler.more s' = scheduler.more s"

lemma thread_eq_but_slice:
  assumes "time_slice_update (\<lambda>_. 0) a = time_slice_update (\<lambda>_. 0) b"
  shows "thread_lock a = thread_lock b" "task_status a = task_status b" "thread_id a = thread_id b"
    "process_of a = process_of b" "priority_level a = priority_level b" "scheduling_class a = scheduling_class b"
    "context_data a = context_data b" "thread_flags a = thread_flags b"
  using assms by (cases a; cases b; simp)+

lemma same_tasks_fields:
  assumes "same_tasks s s'"
  shows "thread_lock (threads s' t) = thread_lock (threads s t)" "task_status (threads s' t) = task_status (threads s t)"
    "scheduling_class (threads s' t) = scheduling_class (threads s t)" "prio_in s' = prio_in s" "task_ids s' = task_ids s"
    "process_of (threads s' t) = process_of (threads s t)" "pid_of s' = pid_of s" "thread_id (threads s' t) = thread_id (threads s t)"
proof -
  have e: "time_slice_update (\<lambda>_. 0) (threads s' u) = time_slice_update (\<lambda>_. 0) (threads s u)" for u
    using assms by (simp add: same_tasks_def)
  note f = thread_eq_but_slice [OF e]
  show "thread_lock (threads s' t) = thread_lock (threads s t)" "task_status (threads s' t) = task_status (threads s t)"
    "scheduling_class (threads s' t) = scheduling_class (threads s t)"
    "process_of (threads s' t) = process_of (threads s t)" "thread_id (threads s' t) = thread_id (threads s t)"
    by (rule f)+
  show "prio_in s' = prio_in s" by (rule ext) (simp add: prio_in_def f)
  show pid: "pid_of s' = pid_of s" using assms by (auto simp: pid_of_def f same_tasks_def)
  show "task_ids s' = task_ids s" by (rule ext) (simp add: task_ids_def f pid)
qed

lemma same_tasks_trans: "same_tasks a b \<Longrightarrow> same_tasks b d \<Longrightarrow> same_tasks a d"
  by (simp add: same_tasks_def)

lemma same_tasks_queue [simp]: "same_tasks s (upd_queue c f s)"
  by (simp add: same_tasks_def upd_queue_def)

section \<open>The parts of scheduling\<close>

lemma remove_target_ok:
  assumes "queue_lock (run_queues s c)" and "thread_lock (threads s r)" and "sorted_lists (run_list (run_queues s c))"
    and "lists_fit (prio_in s) (run_list (run_queues s c))" and "r \<in> set (flat (run_list (run_queues s c)))"
  shows "\<exists>ls. remove_target_thread c r s = Ok (upd_queue c (run_list_update (\<lambda>_. ls)) s) \<and>
    flat ls = remove1 r (flat (run_list (run_queues s c))) \<and>
    map run_priority ls = map run_priority (run_list (run_queues s c)) \<and> lists_fit (prio_in s) ls"
proof -
  obtain ls where ls: "remove_from_lists (prio_in s r) r (run_list (run_queues s c)) =
      (Ok (Some ls) :: (TaskError \<times> ('a, 'b, 'c) scheduler_scheme, RunList list option) outcome)"
    "flat ls = remove1 r (flat (run_list (run_queues s c)))"
    "map run_priority ls = map run_priority (run_list (run_queues s c))" "lists_fit (prio_in s) ls"
    using remove_from_lists_ok [OF assms(3-5)] by blast
  have "remove_target_thread c r s = Ok (upd_queue c (run_list_update (\<lambda>_. ls)) s)"
    using assms(1,2) ls(1) by (simp add: remove_target_thread_def prio_in_def)
  then show ?thesis using ls by blast
qed

lemma expire_ok:
  assumes "queue_lock (run_queues s c)" and "sorted_lists (run_list (run_queues s c))"
    and "sorted_lists (expired_list (run_queues s c))" and "lists_fit (prio_in s) (expired_list (run_queues s c))"
    and "r \<notin> set (flat (expired_list (run_queues s c)))" and "distinct (flat (expired_list (run_queues s c)))"
    and "\<forall>u \<in> set (flat (expired_list (run_queues s c))). \<not> thread_lock (threads s u)"
    and "512 \<le> run_list_pool (run_queues s c) + length (run_list (run_queues s c)) + length (expired_list (run_queues s c))"
  shows "\<exists>ex pool. set_thread_to_expired_thread c r s =
      Ok (upd_queue c (\<lambda>q. q\<lparr>expired_list := ex, run_list_pool := pool\<rparr>) s) \<and>
    lists_added (prio_in s) r (run_list_pool (run_queues s c)) (expired_list (run_queues s c)) pool ex"
proof -
  let ?q = "run_queues s c"
  have "prio_in s r \<notin> run_priority ` set (expired_list ?q) \<Longrightarrow> 0 < run_list_pool ?q"
    using pool_enough [of "run_list_pool ?q" "expired_list ?q" "run_list ?q" "prio_in s r"] assms(2,3,8) by (simp add: add.commute add.left_commute)
  then obtain ex pool where ex: "add_to_lists (\<lambda>u. thread_lock (threads s u)) (prio_in s r) r (run_list_pool ?q) (expired_list ?q) = Ok (ex, pool)"
    "lists_added (prio_in s) r (run_list_pool ?q) (expired_list ?q) pool ex"
    using add_to_lists_ok [OF assms(3-6), of "\<lambda>u. thread_lock (threads s u)" "run_list_pool ?q"] assms(7) by blast
  have "set_thread_to_expired_thread c r s = Ok (upd_queue c (\<lambda>q. q\<lparr>expired_list := ex, run_list_pool := pool\<rparr>) s)"
    using assms(1) ex(1) by (simp add: set_thread_to_expired_thread_def RunQueue__add_thread_def prio_in_def Let_def)
  then show ?thesis using ex(2) by blast
qed

lemma set_slice_ok:
  assumes "class_priority (scheduling_class (threads s t)) (prio_in s t)"
    and "number_of_threads (run_queues s c) * TIMER_INTERVAL_MS \<noteq> 0"
  shows "\<exists>v. set_slice c t s = (Ok (upd_thread t (time_slice_update (\<lambda>_. v)) s) :: ('e, _) outcome)"
proof -
  obtain v where v: "set_time_slice (number_of_threads (run_queues s c)) TIMER_INTERVAL_MS (threads s t) =
      (Ok (time_slice_update (\<lambda>_. v) (threads s t)) :: ('e, _) outcome)"
    using set_time_slice_defined [OF assms(1) [unfolded prio_in_def] assms(2)] by blast
  have "set_slice c t s = (Ok (upd_thread t (\<lambda>_. time_slice_update (\<lambda>_. v) (threads s t)) s) :: ('e, _) outcome)"
    by (simp add: set_slice_def v)
  moreover have "upd_thread t (\<lambda>_. time_slice_update (\<lambda>_. v) (threads s t)) s = upd_thread t (time_slice_update (\<lambda>_. v)) s"
    by (simp add: upd_thread_def)
  ultimately show ?thesis by auto
qed

end
