(* ===== verification/Scheduling.thy ===== *)
theory Scheduling
  imports Run_Queue
begin

text \<open>
  What scheduling does to a well-formed run queue: no step of \<open>_schedule\<close> panics, waits for
  a lock forever or meets an error; the queue stays well-formed; the threads of a queue run
  in turn. The properties of the run queue stand at the end.
\<close>

section \<open>Retiring the running thread\<close>

text \<open>What is left of the queue after the running thread has gone to the expired list or away.\<close>

definition retired :: "nat \<Rightarrow> usize \<Rightarrow> ('c, 'f, 'z) scheduler_scheme \<Rightarrow> RunList list \<Rightarrow> RunList list \<Rightarrow> nat \<Rightarrow> bool" where
  "retired c r s ls ex pool \<longleftrightarrow>
     flat ls = remove1 r (flat (run_list (run_queues s c))) \<and> sorted_lists ls \<and> lists_fit (prio_in s) ls \<and>
     sorted_lists ex \<and> lists_fit (prio_in s) ex \<and> distinct (flat ex) \<and>
     set (flat ex) = (if task_status (threads s r) = Running then insert r (set (flat (expired_list (run_queues s c))))
                      else set (flat (expired_list (run_queues s c)))) \<and>
     512 \<le> pool + length ls + length ex"

lemma prev_lock_ok:
  assumes "\<And>p. prev_in r (list_of (run_queues s c) r) = Some p \<Longrightarrow> \<not> thread_lock (threads s p) \<and> p \<noteq> r"
  shows "\<exists>g. get_prev_thread_lock c r s = (Ok (g, case g of None \<Rightarrow> s | Some p \<Rightarrow> upd_thread p (thread_lock_update (\<lambda>_. True)) s) :: ('e, _) outcome) \<and>
    g = prev_in r (list_of (run_queues s c) r)"
  using assms by (cases "prev_in r (list_of (run_queues s c) r)") (simp_all add: get_prev_thread_lock_def)

lemma upd_thread_keeps:
  "run_queues (case g of None \<Rightarrow> s | Some p \<Rightarrow> upd_thread p f s) = run_queues s"
  by (cases g) simp_all

lemma guard_prio: "prio_in (case g of None \<Rightarrow> s | Some p \<Rightarrow> upd_thread p (thread_lock_update (\<lambda>_. True)) s) = prio_in s"
  by (cases g) (auto simp: prio_in_def)

lemma same_tasks_slice: "same_tasks s (upd_thread t (time_slice_update (\<lambda>_. v)) s)"
  by (simp add: same_tasks_def upd_thread_def)

lemma same_tasks_refl [simp]: "same_tasks s s"
  by (simp add: same_tasks_def)

lemma lock_released:
  assumes "\<not> thread_lock e" and "time_slice_update (\<lambda>_. 0) e' = time_slice_update (\<lambda>_. 0) (thread_lock_update (\<lambda>_. True) e)"
  shows "time_slice_update (\<lambda>_. 0) (thread_lock_update (\<lambda>_. False) e') = time_slice_update (\<lambda>_. 0) e"
  using assms by (cases e; cases e'; simp)

lemma guard_released:
  assumes "\<And>p. g = Some p \<Longrightarrow> \<not> thread_lock (threads s p)"
    and "same_tasks (case g of None \<Rightarrow> s | Some p \<Rightarrow> upd_thread p (thread_lock_update (\<lambda>_. True)) s) s'"
  shows "same_tasks s (drop_guard g s')"
proof (cases g)
    case (Some p)
    have st: "time_slice_update (\<lambda>_. 0) (threads s' t) =
        time_slice_update (\<lambda>_. 0) (((threads s)(p := thread_lock_update (\<lambda>_. True) (threads s p))) t)" for t
      using assms(2) Some by (simp add: same_tasks_def)
    have "time_slice_update (\<lambda>_. 0) (thread_lock_update (\<lambda>_. False) (threads s' p)) = time_slice_update (\<lambda>_. 0) (threads s p)"
      using lock_released [OF assms(1) [OF Some]] st [of p] by simp
    moreover have "time_slice_update (\<lambda>_. 0) (threads s' t) = time_slice_update (\<lambda>_. 0) (threads s t)" if "t \<noteq> p" for t
      using st [of t] that by simp
    moreover have "processes s' = processes s" "local_flags s' = local_flags s" "active_memory s' = active_memory s"
      using assms(2) Some by (simp_all add: same_tasks_def upd_thread_def)
    moreover have "scheduler.more s' = scheduler.more s" using assms(2) Some by (simp add: same_tasks_def)
    moreover have "active_memory (upd_thread p f s') = active_memory s'" for f by (simp add: upd_thread_def)
    ultimately show ?thesis using Some
      by (simp add: same_tasks_def drop_guard_def unlock_thread_def drop_eq)
qed (use assms in \<open>simp add: drop_guard_def\<close>)

lemma drop_guard_queues [simp]: "run_queues (drop_guard g s) = run_queues s"
  by (cases g) (simp_all add: drop_guard_def unlock_thread_def)

lemma retire_ok:
  assumes wf: "lists_wf c s" and r: "r \<in> set (flat (run_list (run_queues s c)))"
    and locks: "queue_lock (run_queues s c)" "thread_lock (threads s r)"
    and prev: "\<And>p. prev_in r (list_of (run_queues s c) r) = Some p \<Longrightarrow> \<not> thread_lock (threads s p)"
    and exp: "\<forall>u \<in> set (flat (expired_list (run_queues s c))). \<not> thread_lock (threads s u)"
  shows "\<exists>s' ls ex pool. retire_running c r s = (Ok s' :: ('e, _) outcome) \<and> same_tasks s s' \<and>
    run_queues s' = (run_queues s)(c := (run_queues s c)\<lparr>run_list := ls, expired_list := ex, run_list_pool := pool\<rparr>) \<and>
    retired c r s ls ex pool"
proof -
  let ?q = "run_queues s c"
  have w: "sorted_lists (run_list ?q)" "sorted_lists (expired_list ?q)" "lists_fit (prio_in s) (run_list ?q)"
    "lists_fit (prio_in s) (expired_list ?q)" "distinct (members ?q)"
    "512 \<le> run_list_pool ?q + length (run_list ?q) + length (expired_list ?q)"
    "class_priority (scheduling_class (threads s r)) (prio_in s r)" "number_of_threads ?q * TIMER_INTERVAL_MS \<noteq> 0"
    using wf r unfolding lists_wf_def Let_def members_def by auto
  have dis: "distinct (flat (run_list ?q))" "distinct (flat (expired_list ?q))" "r \<notin> set (flat (expired_list ?q))"
    "set (flat (run_list ?q)) \<inter> set (flat (expired_list ?q)) = {}"
    using w(5) r by (auto simp: members_def)
  have pr: "p \<in> set (flat (run_list ?q)) \<and> p \<noteq> r" if "prev_in r (list_of ?q r) = Some p" for p
    using prev_in_mem [OF that] list_of_subset [OF r] list_of_distinct [OF r dis(1)] by blast
  define g where "g = prev_in r (list_of ?q r)"
  define s1 where "s1 = (case g of None \<Rightarrow> s | Some p \<Rightarrow> upd_thread p (thread_lock_update (\<lambda>_. True)) s)"
  have gp: "get_prev_thread_lock c r s = (Ok (g, s1) :: ('e, _) outcome)"
    using prev_lock_ok [of r s c] prev pr by (auto simp: g_def s1_def)
  have s1: "run_queues s1 = run_queues s" "prio_in s1 = prio_in s" "threads s1 r = threads s r"
    using pr unfolding s1_def g_def by (auto simp: upd_thread_keeps guard_prio split: option.splits)
  have unl: "\<not> thread_lock (threads s1 u)" if "u \<in> set (flat (expired_list ?q))" for u
    using that exp pr dis(4) unfolding s1_def g_def by (auto split: option.splits)
  obtain ls where ls: "remove_target_thread c r s1 = Ok (upd_queue c (run_list_update (\<lambda>_. ls)) s1)"
    "flat ls = remove1 r (flat (run_list ?q))" "map run_priority ls = map run_priority (run_list ?q)" "lists_fit (prio_in s) ls"
    using remove_target_ok [of s1 c r] locks w(1,3) r s1 by auto
  have sl: "sorted_lists ls" "length ls = length (run_list ?q)"
    using ls(3) w(1) by (simp_all add: sorted_lists_map) (metis length_map)
  let ?s2 = "upd_queue c (run_list_update (\<lambda>_. ls)) s1"
  have rel: "same_tasks s (drop_guard g x)" if "same_tasks s1 x" for x
    using guard_released [of g s x] prev that by (simp add: g_def s1_def)
  show ?thesis
  proof (cases "task_status (threads s r) = Running")
    case False
    then have "retire_running c r s = (Ok (drop_guard g ?s2) :: ('e, _) outcome)"
      using s1(3) by (simp add: retire_running_def gp ls(1))
    moreover have "same_tasks s (drop_guard g ?s2)" by (rule rel) simp
    moreover have "retired c r s ls (expired_list ?q) (run_list_pool ?q)"
      using ls(2,4) sl w(2,4,6) dis(2) False by (simp add: retired_def)
    ultimately show ?thesis using s1(1)
      by (intro exI [of _ "drop_guard g ?s2"] exI [of _ ls] exI [of _ "expired_list ?q"] exI [of _ "run_list_pool ?q"]) simp
  next
    case True
    have t2: "threads ?s2 = threads s1" "run_queues ?s2 c = ?q\<lparr>run_list := ls\<rparr>" using s1(1) by simp_all
    obtain v where v: "set_slice c r ?s2 = (Ok (upd_thread r (time_slice_update (\<lambda>_. v)) ?s2) :: ('e, _) outcome)"
      using set_slice_ok [of ?s2 r c] w(7,8) s1 t2 by (auto simp: prio_in_def)
    let ?s3 = "upd_thread r (time_slice_update (\<lambda>_. v)) ?s2"
    have p3: "prio_in ?s3 = prio_in s" using s1(2) by (auto simp: prio_in_def fun_eq_iff)
    have q3: "run_queues ?s3 c = ?q\<lparr>run_list := ls\<rparr>" using s1(1) by simp
    have l3: "\<forall>u \<in> set (flat (expired_list ?q)). \<not> thread_lock (threads ?s3 u)" using unl by auto
    obtain ex pool where ex: "set_thread_to_expired_thread c r ?s3 =
        Ok (upd_queue c (\<lambda>q. q\<lparr>expired_list := ex, run_list_pool := pool\<rparr>) ?s3)"
      "lists_added (prio_in s) r (run_list_pool ?q) (expired_list ?q) pool ex"
      using expire_ok [of ?s3 c r] locks(1) sl w(2,4,6) dis(2,3) l3 unfolding p3 q3 by auto
    let ?s4 = "upd_queue c (\<lambda>q. q\<lparr>expired_list := ex, run_list_pool := pool\<rparr>) ?s3"
    have "retire_running c r s = (Ok (drop_guard g ?s4) :: ('e, _) outcome)"
      using True s1(3) by (simp add: retire_running_def gp ls(1) v ex(1))
    moreover have "same_tasks s1 ?s4"
      using same_tasks_trans [OF same_tasks_queue [of s1 c "run_list_update (\<lambda>_. ls)"]]
        same_tasks_trans [OF same_tasks_slice [of ?s2 r v]] same_tasks_queue by blast
    then have "same_tasks s (drop_guard g ?s4)" by (rule rel)
    moreover have "retired c r s ls ex pool"
      using ls(2,4) sl w(6) ex(2) True by (simp add: retired_def lists_added_def)
    ultimately show ?thesis using s1(1)
      by (intro exI [of _ "drop_guard g ?s4"] exI [of _ ls] exI [of _ ex] exI [of _ pool]) simp
  qed
qed

section \<open>Choosing the next thread\<close>

text \<open>The parts of a queue that choosing a thread does not touch.\<close>

definition same_queue :: "nat \<Rightarrow> ('c, 'f, 'z) scheduler_scheme \<Rightarrow> ('c, 'f, 'z) scheduler_scheme \<Rightarrow> bool" where
  "same_queue c s s' \<longleftrightarrow>
     (\<forall>d. d \<noteq> c \<longrightarrow> run_queues s' d = run_queues s d) \<and>
     queue_lock (run_queues s' c) = queue_lock (run_queues s c) \<and>
     idle_thread (run_queues s' c) = idle_thread (run_queues s c) \<and>
     running_thread (run_queues s' c) = running_thread (run_queues s c) \<and>
     number_of_threads (run_queues s' c) = number_of_threads (run_queues s c)"

lemma same_queue_refl [simp]: "same_queue c s s"
  by (simp add: same_queue_def)

lemma same_queue_trans: "same_queue c a b \<Longrightarrow> same_queue c b d \<Longrightarrow> same_queue c a d"
  by (simp add: same_queue_def)

text \<open>A queue with other lists is well-formed when the lists are and hold threads of the old queue.\<close>

lemma lists_wf_change:
  assumes "lists_wf c s" and "same_tasks s s'" and "same_queue c s s'"
    and "sorted_lists (run_list (run_queues s' c))" and "sorted_lists (expired_list (run_queues s' c))"
    and "lists_fit (prio_in s) (run_list (run_queues s' c))" and "lists_fit (prio_in s) (expired_list (run_queues s' c))"
    and "distinct (members (run_queues s' c))" and "set (members (run_queues s' c)) \<subseteq> set (members (run_queues s c))"
    and "512 \<le> run_list_pool (run_queues s' c) + length (run_list (run_queues s' c)) + length (expired_list (run_queues s' c))"
  shows "lists_wf c s'"
proof -
  let ?I = "insert (idle_thread (run_queues s c)) (set (members (run_queues s c)))"
  have w: "idle_thread (run_queues s c) \<notin> set (members (run_queues s c))"
    "\<forall>t \<in> ?I. class_priority (scheduling_class (threads s t)) (prio_in s t)" "inj_on (task_ids s) ?I"
    "number_of_threads (run_queues s c) * TIMER_INTERVAL_MS \<noteq> 0"
    using assms(1) unfolding lists_wf_def Let_def by blast+
  have q: "idle_thread (run_queues s' c) = idle_thread (run_queues s c)"
    "number_of_threads (run_queues s' c) = number_of_threads (run_queues s c)"
    using assms(3) by (simp_all add: same_queue_def)
  have "inj_on (task_ids s) (insert (idle_thread (run_queues s c)) (set (members (run_queues s' c))))"
    using w(3) assms(9) by (rule inj_on_subset [OF _ insert_mono])
  moreover have "\<forall>t \<in> insert (idle_thread (run_queues s c)) (set (members (run_queues s' c))).
      class_priority (scheduling_class (threads s t)) (prio_in s t)"
    using w(2) assms(9) by blast
  moreover have "idle_thread (run_queues s c) \<notin> set (members (run_queues s' c))" using w(1) assms(9) by blast
  ultimately show ?thesis
    unfolding lists_wf_def Let_def q same_tasks_fields [OF assms(2)] using assms(4-8,10) w(4) by blast
qed

lemma lists_wf_members:
  assumes "lists_wf c s"
  shows "distinct (flat (run_list (run_queues s c)))" "distinct (flat (expired_list (run_queues s c)))"
    "set (flat (run_list (run_queues s c))) \<inter> set (flat (expired_list (run_queues s c))) = {}"
    "idle_thread (run_queues s c) \<notin> set (members (run_queues s c))"
  using assms by (auto simp: lists_wf_def members_def Let_def)

text \<open>The members that stay when the thread retires.\<close>

definition staying :: "usize \<Rightarrow> ('c, 'f, 'z) scheduler_scheme \<Rightarrow> usize set \<Rightarrow> usize set" where
  "staying r s M = (if task_status (threads s r) = Running then M else M - {r})"

lemma retired_wf:
  assumes "lists_wf c s" and "r \<in> set (flat (run_list (run_queues s c)))" and "retired c r s ls ex pool"
    and "same_tasks s s'" and "same_queue c s s'" and "run_list (run_queues s' c) = ls"
    and "expired_list (run_queues s' c) = ex" and "run_list_pool (run_queues s' c) = pool"
  shows "lists_wf c s' \<and> set (members (run_queues s' c)) = staying r s (set (members (run_queues s c)))"
proof -
  let ?q = "run_queues s c"
  have R: "flat ls = remove1 r (flat (run_list ?q))" "sorted_lists ls" "lists_fit (prio_in s) ls"
    "sorted_lists ex" "lists_fit (prio_in s) ex" "distinct (flat ex)" "512 \<le> pool + length ls + length ex"
    "set (flat ex) = (if task_status (threads s r) = Running then insert r (set (flat (expired_list ?q)))
       else set (flat (expired_list ?q)))"
    using assms(3) unfolding retired_def by blast+
  note d = lists_wf_members [OF assms(1)]
  have sl: "set (flat ls) = set (flat (run_list ?q)) - {r}" using R(1) d(1) by simp
  have mem: "set (members (run_queues s' c)) = staying r s (set (members ?q))"
    using sl R(8) assms(2,6,7) d(3) by (auto simp: members_def staying_def)
  have dis: "distinct (members (run_queues s' c))"
    using R(1,6,8) sl d(1,3) assms(6,7) by (auto simp: members_def)
  have "set (members (run_queues s' c)) \<subseteq> set (members ?q)" using mem by (auto simp: staying_def)
  then have "lists_wf c s'"
    using lists_wf_change [OF assms(1,4,5)] R dis assms(6-8) by simp
  then show ?thesis using mem by simp
qed

lemma get_next_ok:
  assumes "lists_wf c s"
  shows "\<exists>n s'. get_next_thread c s = (n, s') \<and> same_tasks s s' \<and> same_queue c s s' \<and> lists_wf c s' \<and>
    set (members (run_queues s' c)) = set (members (run_queues s c)) \<and>
    (if members (run_queues s c) = [] then n = idle_thread (run_queues s c) else n \<in> set (flat (run_list (run_queues s' c)))) \<and>
    (\<forall>x xs. flat (run_list (run_queues s c)) = x # xs \<longrightarrow> n = x \<and> s' = s)"
proof (cases "flat (run_list (run_queues s c))")
  case (Cons x xs)
  then have "get_next_thread c s = (x, s)" by (simp add: get_next_thread_def highest_is_hd)
  moreover have "members (run_queues s c) \<noteq> []" using Cons by (simp add: members_def)
  ultimately show ?thesis using assms Cons by simp
next
  case Nil
  let ?s = "upd_queue c (\<lambda>q. q\<lparr>run_list := expired_list q, expired_list := run_list q\<rparr>) s"
  have wf: "lists_wf c ?s"
  proof (rule lists_wf_change [OF assms])
    show "same_queue c s ?s" by (simp add: same_queue_def)
    show "512 \<le> run_list_pool (run_queues ?s c) + length (run_list (run_queues ?s c)) + length (expired_list (run_queues ?s c))"
      using assms unfolding lists_wf_def Let_def by simp
    show "distinct (members (run_queues ?s c))" using lists_wf_members [OF assms] by (auto simp: members_def)
    show "set (members (run_queues ?s c)) \<subseteq> set (members (run_queues s c))" by (auto simp: members_def)
  qed (use assms in \<open>auto simp: lists_wf_def Let_def\<close>)
  have fl: "flat (run_list (run_queues ?s c)) = members (run_queues s c)" using Nil by (simp add: members_def)
  show ?thesis
  proof (cases "members (run_queues s c)")
    case m: Nil
    then have "get_next_thread c s = (idle_thread (run_queues s c), ?s)"
      using Nil fl by (simp add: get_next_thread_def highest_is_hd)
    then show ?thesis using wf m Nil by (simp add: same_queue_def members_def)
  next
    case (Cons y ys)
    then have "get_next_thread c s = (y, ?s)"
      using Nil fl by (simp add: get_next_thread_def highest_is_hd)
    then show ?thesis using wf Cons Nil fl by (simp add: same_queue_def) (auto simp: members_def)
  qed
qed

lemma lock_field_views [simp]:
  "prio_in (upd_thread t (thread_lock_update f) s) = prio_in s"
  "pid_of (upd_thread t (thread_lock_update f) s) = pid_of s"
  "task_ids (upd_thread t (thread_lock_update f) s) = task_ids s"
  by (auto simp: prio_in_def pid_of_def task_ids_def fun_eq_iff)

lemma lock_field_threads:
  "scheduling_class (threads (upd_thread t (thread_lock_update f) s) u) = scheduling_class (threads s u)"
  "task_status (threads (upd_thread t (thread_lock_update f) s) u) = task_status (threads s u)"
  by simp_all

lemma lists_wf_lock [simp]: "lists_wf c (upd_thread t (thread_lock_update f) s) = lists_wf c s"
  unfolding lists_wf_def Let_def lock_field_threads lock_field_views sched_simps ..

lemma queue_field_views [simp]:
  "prio_in (upd_queue c f s) = prio_in s" "pid_of (upd_queue c f s) = pid_of s" "task_ids (upd_queue c f s) = task_ids s"
  by (auto simp: prio_in_def pid_of_def task_ids_def fun_eq_iff)

lemma lists_wf_flags: "lists_wf c (upd_queue c (should_recheck_priority_update f) s) = lists_wf c s"
  by (simp add: lists_wf_def Let_def members_def)

lemma staying_lock [simp]: "staying r (upd_thread t (thread_lock_update f) s) M = staying r s M"
  by (simp add: staying_def)

text \<open>What \<open>choose_next\<close> must give.\<close>

definition chosen :: "nat \<Rightarrow> usize \<Rightarrow> ('c, 'f, 'z) scheduler_scheme \<Rightarrow> usize \<Rightarrow> ('c, 'f, 'z) scheduler_scheme \<Rightarrow> bool" where
  "chosen c r s n s' \<longleftrightarrow>
     same_tasks s s' \<and> same_queue c s s' \<and> lists_wf c s' \<and>
     set (members (run_queues s' c)) =
       (if r = idle_thread (run_queues s c) then set (members (run_queues s c)) else staying r s (set (members (run_queues s c)))) \<and>
     (if members (run_queues s' c) = [] then n = idle_thread (run_queues s c) else n \<in> set (flat (run_list (run_queues s' c)))) \<and>
     (\<forall>x xs. flat (run_list (run_queues s c)) = r # x # xs \<longrightarrow> n = x \<and> flat (run_list (run_queues s' c)) = x # xs)"

lemma choose_idle:
  assumes wf: "lists_wf c s" and idle: "r = idle_thread (run_queues s c)"
  shows "\<exists>n s'. choose_next c r s = (Ok (n, s') :: ('e, _) outcome) \<and> chosen c r s n s'"
proof -
  let ?q = "run_queues s c"
  have "r \<notin> set (members ?q)" using lists_wf_members(4) [OF wf] idle by simp
  then have none: "next_in r (list_of ?q r) = None" "r \<notin> set (flat (run_list ?q))"
    using list_of_none [of r ?q] by (simp_all add: members_def)
  have cp: "class_priority (scheduling_class (threads s r)) (prio_in s r)" "number_of_threads ?q * TIMER_INTERVAL_MS \<noteq> 0"
    using wf idle unfolding lists_wf_def Let_def by simp_all
  obtain v where v: "set_slice c r s = (Ok (upd_thread r (time_slice_update (\<lambda>_. v)) s) :: ('e, _) outcome)"
    using set_slice_ok [OF cp] by blast
  let ?s1 = "upd_thread r (time_slice_update (\<lambda>_. v)) s"
  have s1: "same_tasks s ?s1" "same_queue c s ?s1" by (rule same_tasks_slice) (simp add: same_queue_def)
  have wf1: "lists_wf c ?s1"
    using lists_wf_change [OF wf s1] wf unfolding lists_wf_def Let_def by simp
  obtain n s' where n: "get_next_thread c ?s1 = (n, s')" "same_tasks ?s1 s'" "same_queue c ?s1 s'" "lists_wf c s'"
    "set (members (run_queues s' c)) = set (members ?q)"
    "if members ?q = [] then n = idle_thread ?q else n \<in> set (flat (run_list (run_queues s' c)))"
    using get_next_ok [OF wf1] by auto
  have "choose_next c r s = (Ok (n, s') :: ('e, _) outcome)" using none(1) idle v n(1) by (simp add: choose_next_def)
  moreover have "members (run_queues s' c) = [] \<longleftrightarrow> members ?q = []" using n(5) by (metis set_empty)
  then have "if members (run_queues s' c) = [] then n = idle_thread ?q else n \<in> set (flat (run_list (run_queues s' c)))"
    using n(6) by simp
  moreover have "set (members (run_queues s' c)) =
      (if r = idle_thread ?q then set (members ?q) else staying r s (set (members ?q)))" using n(5) idle by simp
  moreover have "\<forall>x xs. flat (run_list ?q) = r # x # xs \<longrightarrow> n = x \<and> flat (run_list (run_queues s' c)) = x # xs"
    using none(2) by auto
  ultimately show ?thesis
    using same_tasks_trans [OF s1(1) n(2)] same_queue_trans [OF s1(2) n(3)] n(4) unfolding chosen_def by blast
qed

lemma choose_last:
  assumes wf: "lists_wf c s" and r: "r \<in> set (flat (run_list (run_queues s c)))"
    and locks: "queue_lock (run_queues s c)" "thread_lock (threads s r)" "\<And>t. t \<noteq> r \<Longrightarrow> \<not> thread_lock (threads s t)"
    and none: "next_in r (list_of (run_queues s c) r) = None"
  shows "\<exists>n s'. choose_next c r s = (Ok (n, s') :: ('e, _) outcome) \<and> chosen c r s n s'"
proof -
  let ?q = "run_queues s c"
  note d = lists_wf_members [OF wf]
  have ri: "r \<noteq> idle_thread ?q" using r d(4) by (auto simp: members_def)
  have prev: "\<not> thread_lock (threads s p)" if "prev_in r (list_of ?q r) = Some p" for p
    using prev_in_mem [OF that] list_of_distinct [OF r d(1)] locks(3) by blast
  have exp: "\<forall>u \<in> set (flat (expired_list ?q)). \<not> thread_lock (threads s u)"
  proof
    fix u
    assume "u \<in> set (flat (expired_list ?q))"
    then have "u \<noteq> r" using d(3) r by auto
    then show "\<not> thread_lock (threads s u)" by (rule locks(3))
  qed
  obtain s1 ls ex pool where s1: "retire_running c r s = (Ok s1 :: ('e, _) outcome)" "same_tasks s s1"
    "run_queues s1 = (run_queues s)(c := ?q\<lparr>run_list := ls, expired_list := ex, run_list_pool := pool\<rparr>)"
    "retired c r s ls ex pool"
    using retire_ok [OF wf r locks(1,2) prev exp] by blast
  have q1: "same_queue c s s1" using s1(3) by (simp add: same_queue_def)
  have w1: "lists_wf c s1" "set (members (run_queues s1 c)) = staying r s (set (members ?q))"
    using retired_wf [OF wf r s1(4,2) q1] s1(3) by auto
  obtain n s' where n: "get_next_thread c s1 = (n, s')" "same_tasks s1 s'" "same_queue c s1 s'" "lists_wf c s'"
    "set (members (run_queues s' c)) = set (members (run_queues s1 c))"
    "if members (run_queues s1 c) = [] then n = idle_thread (run_queues s1 c) else n \<in> set (flat (run_list (run_queues s' c)))"
    "\<forall>x xs. flat (run_list (run_queues s1 c)) = x # xs \<longrightarrow> n = x \<and> s' = s1"
    using get_next_ok [OF w1(1)] by blast
  have "choose_next c r s = (Ok (n, s') :: ('e, _) outcome)" using none ri s1(1) n(1) by (simp add: choose_next_def)
  moreover have "members (run_queues s' c) = [] \<longleftrightarrow> members (run_queues s1 c) = []" using n(5) by (metis set_empty)
  then have "if members (run_queues s' c) = [] then n = idle_thread ?q else n \<in> set (flat (run_list (run_queues s' c)))"
    using n(6) q1 by (simp add: same_queue_def)
  moreover have "set (members (run_queues s' c)) =
      (if r = idle_thread ?q then set (members ?q) else staying r s (set (members ?q)))" using n(5) w1(2) ri by simp
  moreover have "n = x \<and> flat (run_list (run_queues s' c)) = x # xs" if "flat (run_list ?q) = r # x # xs" for x xs
  proof -
    have "flat (run_list (run_queues s1 c)) = x # xs" using s1(3,4) that by (simp add: retired_def)
    then show ?thesis using n(7) by auto
  qed
  ultimately show ?thesis
    using same_tasks_trans [OF s1(2) n(2)] same_queue_trans [OF q1 n(3)] n(4) unfolding chosen_def by blast
qed

lemma choose_neighbour:
  assumes wf: "lists_wf c s" and r: "r \<in> set (flat (run_list (run_queues s c)))"
    and locks: "queue_lock (run_queues s c)" "thread_lock (threads s r)" "\<And>t. t \<noteq> r \<Longrightarrow> \<not> thread_lock (threads s t)"
    and nb: "next_in r (list_of (run_queues s c) r) = Some m"
  shows "\<exists>n s'. choose_next c r s = (Ok (n, s') :: ('e, _) outcome) \<and> chosen c r s n s'"
proof -
  let ?q = "run_queues s c" and ?sm = "upd_thread m (thread_lock_update (\<lambda>_. True)) s"
  note d = lists_wf_members [OF wf]
  have ri: "r \<noteq> idle_thread ?q" using r d(4) by (auto simp: members_def)
  have m: "m \<noteq> r" "m \<in> set (flat (run_list ?q))" "\<not> thread_lock (threads s m)"
    using next_in_mem [OF nb] list_of_distinct [OF r d(1)] list_of_subset [OF r] locks(3) [of m] by auto
  have prev: "\<not> thread_lock (threads ?sm p)" if "prev_in r (list_of (run_queues ?sm c) r) = Some p" for p
  proof -
    have p: "prev_in r (list_of ?q r) = Some p" using that by simp
    then have "p \<noteq> r" using prev_in_mem [OF p] list_of_distinct [OF r d(1)] by simp
    moreover have "p \<noteq> m" using next_prev_differ [OF list_of_distinct [OF r d(1)] nb p] by simp
    ultimately show ?thesis using locks(3) [of p] by simp
  qed
  have exp: "\<forall>u \<in> set (flat (expired_list (run_queues ?sm c))). \<not> thread_lock (threads ?sm u)"
  proof
    fix u
    assume "u \<in> set (flat (expired_list (run_queues ?sm c)))"
    then have "u \<noteq> r" "u \<noteq> m" using d(3) r m(2) by auto
    then show "\<not> thread_lock (threads ?sm u)" using locks(3) [of u] by simp
  qed
  have wfm: "lists_wf c ?sm" using wf by simp
  have rm: "r \<in> set (flat (run_list (run_queues ?sm c)))" using r by simp
  have lm: "queue_lock (run_queues ?sm c)" "thread_lock (threads ?sm r)" using locks(1,2) by simp_all
  obtain s1 ls ex pool where s1: "retire_running c r ?sm = (Ok s1 :: ('e, _) outcome)" "same_tasks ?sm s1"
    "run_queues s1 = (run_queues ?sm)(c := (run_queues ?sm c)\<lparr>run_list := ls, expired_list := ex, run_list_pool := pool\<rparr>)"
    "retired c r ?sm ls ex pool"
    using retire_ok [OF wfm rm lm prev exp] by blast
  have q1: "same_queue c ?sm s1" using s1(3) by (simp add: same_queue_def)
  have w1: "lists_wf c s1" "set (members (run_queues s1 c)) = staying r s (set (members ?q))"
    using retired_wf [OF wfm _ s1(4,2) q1] r s1(3) by auto
  have ls: "flat ls = remove1 r (flat (run_list ?q))" using s1(4) by (simp add: retired_def)
  then have ml: "m \<in> set (flat ls)" using m(1,2) by simp
  then obtain x xs where x: "flat ls = x # xs" by (cases "flat ls") auto
  define s2 where "s2 = (if should_recheck_priority (run_queues s1 c)
    then upd_queue c (should_recheck_priority_update (\<lambda>_. False)) s1 else s1)"
  define n where "n = (if should_recheck_priority (run_queues s1 c) then x else m)"
  have s2: "same_tasks ?sm s2" "same_queue c ?sm s2" "lists_wf c s2" "members (run_queues s2 c) = members (run_queues s1 c)"
    "run_list (run_queues s2 c) = ls"
    using s1(2,3) q1 w1(1) same_tasks_trans [OF s1(2) same_tasks_queue]
    by (auto simp: s2_def lists_wf_flags members_def same_queue_def)
  have ch: "choose_next c r s = (Ok (n, unlock_thread m s2) :: ('e, _) outcome)"
    using nb ri m(3) s1(1,3) x by (simp add: choose_next_def n_def s2_def highest_is_hd Let_def)
  have st: "same_tasks s (unlock_thread m s2)"
    using guard_released [of "Some m" s s2] m(3) s2(1) by (simp add: drop_guard_def)
  have un: "run_queues (unlock_thread m s2) = run_queues s2" "lists_wf c (unlock_thread m s2)"
    using s2(3) by (simp_all add: unlock_thread_def drop_eq)
  have nl: "n \<in> set (flat ls)" using x ml by (simp add: n_def)
  have sq: "same_queue c s (unlock_thread m s2)" using s2(2) un(1) by (simp add: same_queue_def)
  have mem: "set (members (run_queues (unlock_thread m s2) c)) =
      (if r = idle_thread ?q then set (members ?q) else staying r s (set (members ?q)))"
    using un(1) s2(4) w1(2) ri by simp
  have pick: "if members (run_queues (unlock_thread m s2) c) = [] then n = idle_thread ?q
      else n \<in> set (flat (run_list (run_queues (unlock_thread m s2) c)))"
    using un(1) s2(5) nl by (auto simp: members_def)
  have rr: "\<forall>y ys. flat (run_list ?q) = r # y # ys \<longrightarrow> n = y \<and> flat (run_list (run_queues (unlock_thread m s2) c)) = y # ys"
  proof (intro allI impI)
    fix y ys
    assume fl: "flat (run_list ?q) = r # y # ys"
    then have "m = y" using next_of_first [OF fl nb] by auto
    moreover have "flat ls = y # ys" using ls fl by simp
    ultimately show "n = y \<and> flat (run_list (run_queues (unlock_thread m s2) c)) = y # ys"
      using x un(1) s2(5) by (simp add: n_def)
  qed
  show ?thesis using ch st sq un(2) mem pick rr unfolding chosen_def by blast
qed

lemma choose_next_ok:
  assumes "lists_wf c s" and "r = idle_thread (run_queues s c) \<or> r \<in> set (flat (run_list (run_queues s c)))"
    and "queue_lock (run_queues s c)" and "thread_lock (threads s r)" and "\<And>t. t \<noteq> r \<Longrightarrow> \<not> thread_lock (threads s t)"
  shows "\<exists>n s'. choose_next c r s = (Ok (n, s') :: ('e, _) outcome) \<and> chosen c r s n s'"
proof (cases "r = idle_thread (run_queues s c)")
  case True
  then show ?thesis by (rule choose_idle [OF assms(1)])
next
  case False
  then have r: "r \<in> set (flat (run_list (run_queues s c)))" using assms(2) by simp
  show ?thesis
  proof (cases "next_in r (list_of (run_queues s c) r)")
    case None
    show ?thesis by (rule choose_last [OF assms(1) r assms(3-5) None])
  next
    case (Some m)
    show ?thesis by (rule choose_neighbour [OF assms(1) r assms(3-5) Some])
  qed
qed

section \<open>One scheduling decision\<close>

lemma lists_wf_eq:
  assumes "prio_in s' = prio_in s" and "task_ids s' = task_ids s"
    and "\<And>t. scheduling_class (threads s' t) = scheduling_class (threads s t)"
    and "run_list (run_queues s' c) = run_list (run_queues s c)" and "expired_list (run_queues s' c) = expired_list (run_queues s c)"
    and "idle_thread (run_queues s' c) = idle_thread (run_queues s c)"
    and "run_list_pool (run_queues s' c) = run_list_pool (run_queues s c)"
    and "number_of_threads (run_queues s' c) = number_of_threads (run_queues s c)"
  shows "lists_wf c s' = lists_wf c s"
  unfolding lists_wf_def Let_def members_def assms ..

text \<open>
  A queue between two scheduling decisions: it is well-formed, no lock is taken, the running
  thread is the idle thread or in the list to run, and all threads are runnable.
\<close>

definition sched_ok :: "nat \<Rightarrow> ('c, 'f, 'z) scheduler_scheme \<Rightarrow> bool" where
  "sched_ok c s \<longleftrightarrow>
     lists_wf c s \<and> \<not> queue_lock (run_queues s c) \<and> (\<forall>t. \<not> thread_lock (threads s t)) \<and>
     (\<forall>p. \<not> process_lock (processes s p)) \<and>
     (\<exists>r. running_thread (run_queues s c) = Some r \<and>
        (r = idle_thread (run_queues s c) \<or> r \<in> set (flat (run_list (run_queues s c))))) \<and>
     (\<forall>t \<in> insert (idle_thread (run_queues s c)) (set (members (run_queues s c))). task_status (threads s t) = Running)"

text \<open>The thread that runs next.\<close>

definition runs_next :: "nat \<Rightarrow> ('c, 'f, 'z) scheduler_scheme \<Rightarrow> usize \<Rightarrow> bool" where
  "runs_next c s n \<longleftrightarrow> running_thread (run_queues s c) = Some n \<and>
     (if members (run_queues s c) = [] then n = idle_thread (run_queues s c) else n \<in> set (flat (run_list (run_queues s c))))"

lemma switch_memory_ok:
  assumes "\<And>m. clone_pages m" and "\<And>p. \<not> process_lock (processes s p)"
  shows "\<exists>a. switch_memory clone_pages p n s = (Ok (s\<lparr>active_memory := a\<rparr>) :: ('e, _) outcome)"
proof -
  have same: "s\<lparr>active_memory := active_memory s\<rparr> = s" by simp
  have "get_memory_manager q s = (Ok (memory_manager (processes s q)) :: ('e, _) outcome)" for q
    using assms(2) by (simp add: get_memory_manager_def lock_process_def)
  then show ?thesis using assms(1) same unfolding switch_memory_def by (auto intro: exI [of _ "active_memory s"])
qed

text \<open>The state after a decision: as after \<open>choose_next\<close>, with the locks released.\<close>

definition decided :: "nat \<Rightarrow> usize \<Rightarrow> ('c, 'f, 'z) scheduler_scheme \<Rightarrow> usize \<Rightarrow> ('c, 'f, 'z) scheduler_scheme \<Rightarrow> bool" where
  "decided c r s1 n s' \<longleftrightarrow>
     prio_in s' = prio_in s1 \<and> task_ids s' = task_ids s1 \<and>
     (\<forall>t. scheduling_class (threads s' t) = scheduling_class (threads s1 t) \<and> task_status (threads s' t) = task_status (threads s1 t) \<and>
        thread_lock (threads s' t) = (thread_lock (threads s1 t) \<and> t \<noteq> r)) \<and>
     processes s' = processes s1 \<and> (\<forall>d. d \<noteq> c \<longrightarrow> run_queues s' d = run_queues s1 d) \<and>
     run_list (run_queues s' c) = run_list (run_queues s1 c) \<and> expired_list (run_queues s' c) = expired_list (run_queues s1 c) \<and>
     idle_thread (run_queues s' c) = idle_thread (run_queues s1 c) \<and> run_list_pool (run_queues s' c) = run_list_pool (run_queues s1 c) \<and>
     number_of_threads (run_queues s' c) = number_of_threads (run_queues s1 c) \<and>
     running_thread (run_queues s' c) = Some n \<and> \<not> queue_lock (run_queues s' c) \<and> scheduler.more s' = scheduler.more s1"

lemma decided_ok:
  assumes "decided c r s1 n s'" and "lists_wf c s1" and "\<And>t. t \<noteq> r \<Longrightarrow> \<not> thread_lock (threads s1 t)"
    and "\<And>p. \<not> process_lock (processes s1 p)"
    and "\<forall>t \<in> insert (idle_thread (run_queues s1 c)) (set (members (run_queues s1 c))). task_status (threads s1 t) = Running"
    and "if members (run_queues s1 c) = [] then n = idle_thread (run_queues s1 c) else n \<in> set (flat (run_list (run_queues s1 c)))"
  shows "sched_ok c s' \<and> runs_next c s' n"
proof -
  have d: "prio_in s' = prio_in s1" "task_ids s' = task_ids s1"
    "\<And>t. scheduling_class (threads s' t) = scheduling_class (threads s1 t)"
    "\<And>t. task_status (threads s' t) = task_status (threads s1 t)"
    "\<And>t. thread_lock (threads s' t) = (thread_lock (threads s1 t) \<and> t \<noteq> r)" "processes s' = processes s1"
    "run_list (run_queues s' c) = run_list (run_queues s1 c)" "expired_list (run_queues s' c) = expired_list (run_queues s1 c)"
    "idle_thread (run_queues s' c) = idle_thread (run_queues s1 c)" "run_list_pool (run_queues s' c) = run_list_pool (run_queues s1 c)"
    "number_of_threads (run_queues s' c) = number_of_threads (run_queues s1 c)"
    "running_thread (run_queues s' c) = Some n" "\<not> queue_lock (run_queues s' c)"
    using assms(1) unfolding decided_def by blast+
  have m: "members (run_queues s' c) = members (run_queues s1 c)" by (simp add: members_def d)
  have wf: "lists_wf c s'" using lists_wf_eq [OF d(1-3,7-11)] assms(2) by simp
  have pick: "runs_next c s' n" using assms(6) unfolding runs_next_def m d by simp
  then have "n = idle_thread (run_queues s' c) \<or> n \<in> set (flat (run_list (run_queues s' c)))"
    by (auto simp: runs_next_def split: if_splits)
  moreover have "\<not> thread_lock (threads s' t)" for t using assms(3) [of t] d(5) [of t] by blast
  moreover have "\<forall>t \<in> insert (idle_thread (run_queues s' c)) (set (members (run_queues s' c))). task_status (threads s' t) = Running"
    using assms(5) unfolding m d .
  ultimately have "sched_ok c s'" unfolding sched_ok_def using wf d(6,12,13) assms(4) by simp
  then show ?thesis using pick by simp
qed

lemma views_irrelevant [simp]:
  "prio_in (s\<lparr>local_flags := f\<rparr>) = prio_in s" "task_ids (s\<lparr>local_flags := f\<rparr>) = task_ids s"
  "prio_in (s\<lparr>active_memory := a\<rparr>) = prio_in s" "task_ids (s\<lparr>active_memory := a\<rparr>) = task_ids s"
  "prio_in (upd_thread t (set_context x) s) = prio_in s" "task_ids (upd_thread t (set_context x) s) = task_ids s"
  "pid_of (upd_thread t (set_context x) s) = pid_of s"
  by (auto simp: prio_in_def pid_of_def task_ids_def set_context_def fun_eq_iff)

lemma decided_same:
  assumes "running_thread (run_queues s c) = Some r"
  shows "decided c r s r (irq_restore irq (unlock_queue c (unlock_thread r s)))"
  using assms unfolding decided_def
  by (auto simp: irq_restore_def unlock_queue_def unlock_thread_def SpinLockFlagHolder_drop_def)

definition saved_context :: "'c option \<Rightarrow> usize \<Rightarrow> ('c, 'f, 'z) scheduler_scheme \<Rightarrow> ('c, 'f, 'z) scheduler_scheme" where
  "saved_context ctx r s = (case ctx of Some x \<Rightarrow> upd_thread r (set_context x) s | None \<Rightarrow> s)"

lemma saved_context_simps [simp]:
  "prio_in (saved_context ctx r s) = prio_in s" "task_ids (saved_context ctx r s) = task_ids s"
  "run_queues (saved_context ctx r s) = run_queues s" "scheduler.more (saved_context ctx r s) = scheduler.more s" "processes (saved_context ctx r s) = processes s"
  "scheduling_class (threads (saved_context ctx r s) t) = scheduling_class (threads s t)"
  "task_status (threads (saved_context ctx r s) t) = task_status (threads s t)"
  "thread_lock (threads (saved_context ctx r s) t) = thread_lock (threads s t)"
  by (simp_all add: saved_context_def set_context_def split: option.split)

lemma decided_other:
  "decided c r s n (unlock_queue c ((upd_queue c (\<lambda>q. q\<lparr>should_reschedule := False, running_thread := Some n\<rparr>)
     (unlock_thread r (saved_context ctx r s)))\<lparr>active_memory := a\<rparr>))"
  unfolding decided_def
  by (auto simp: unlock_queue_def unlock_thread_def SpinLockFlagHolder_drop_def)

text \<open>What a scheduling decision gives, with the thread \<open>r\<close> running before it.\<close>

definition switched :: "'c option \<Rightarrow> TaskStatus \<Rightarrow> nat \<Rightarrow> usize \<Rightarrow> usize set \<Rightarrow> ('c, 'f, 'z) scheduler_scheme \<Rightarrow> switch \<Rightarrow> ('c, 'f, 'z) scheduler_scheme \<Rightarrow> bool" where
  "switched ctx st c r M s sw s' \<longleftrightarrow>
     sched_ok c s' \<and> set (members (run_queues s' c)) = M \<and> idle_thread (run_queues s' c) = idle_thread (run_queues s c) \<and>
     prio_in s' = prio_in s \<and> task_ids s' = task_ids s \<and> (\<forall>t. scheduling_class (threads s' t) = scheduling_class (threads s t)) \<and>
     scheduler.more s' = scheduler.more s \<and>
     (\<forall>t. task_status (threads s' t) = (if t = r then st else task_status (threads s t))) \<and>
     number_of_threads (run_queues s' c) = number_of_threads (run_queues s c) \<and>
     (case sw of Same_task \<Rightarrow> runs_next c s' r
      | Jump_to n \<Rightarrow> ctx \<noteq> None \<and> n \<noteq> r \<and> runs_next c s' n
      | Switch_to a n \<Rightarrow> ctx = None \<and> a = r \<and> n \<noteq> r \<and> runs_next c s' n) \<and>
     (\<forall>x xs. flat (run_list (run_queues s c)) = r # x # xs \<longrightarrow>
        runs_next c s' x \<and> flat (run_list (run_queues s' c)) = x # xs)"

lemma schedule_core:
  assumes wf: "lists_wf c s" and run: "running_thread (run_queues s c) = Some r"
    and r: "r = idle_thread (run_queues s c) \<or> r \<in> set (flat (run_list (run_queues s c)))"
    and locks: "queue_lock (run_queues s c)" "thread_lock (threads s r)" "\<And>t. t \<noteq> r \<Longrightarrow> \<not> thread_lock (threads s t)"
    and procs: "\<And>p. \<not> process_lock (processes s p)"
    and idle: "task_status (threads s (idle_thread (run_queues s c))) = Running"
    and live: "\<And>t. t \<in> set (members (run_queues s c)) \<Longrightarrow> t \<noteq> r \<Longrightarrow> task_status (threads s t) = Running"
    and clone: "\<And>m. clone_pages m"
  shows "\<exists>sw s'. RunQueue__schedule clone_pages c ctx (Some irq) True True s = (Ok (sw, s') :: ('e, _) outcome) \<and>
           switched ctx (task_status (threads s r)) c r (staying r s (set (members (run_queues s c)))) s sw s'"
proof -
  let ?q = "run_queues s c" and ?I = "\<lambda>q. insert (idle_thread q) (set (members q))"
  obtain n s1 where cn: "choose_next c r s = (Ok (n, s1) :: ('e, _) outcome)" and ch: "chosen c r s n s1"
    using choose_next_ok [OF wf r locks] by blast
  have st: "same_tasks s s1" and sq: "same_queue c s s1" and wf1: "lists_wf c s1"
    and pick: "if members (run_queues s1 c) = [] then n = idle_thread ?q else n \<in> set (flat (run_list (run_queues s1 c)))"
    and rr: "\<forall>x xs. flat (run_list ?q) = r # x # xs \<longrightarrow> n = x \<and> flat (run_list (run_queues s1 c)) = x # xs"
    using ch unfolding chosen_def by blast+
  note f = same_tasks_fields [OF st]
  have q1: "idle_thread (run_queues s1 c) = idle_thread ?q" "running_thread (run_queues s1 c) = Some r"
    using sq run by (simp_all add: same_queue_def)
  have mem: "set (members (run_queues s1 c)) = staying r s (set (members ?q))"
    using ch idle lists_wf_members(4) [OF wf] by (auto simp: chosen_def staying_def split: if_splits)
  have alive: "\<forall>t \<in> ?I (run_queues s1 c). task_status (threads s1 t) = Running"
    unfolding f q1 mem using live idle by (auto simp: staying_def split: if_splits)
  have n: "n \<in> ?I (run_queues s1 c)" using pick q1 by (auto simp: members_def split: if_splits)
  have pick1: "if members (run_queues s1 c) = [] then n = idle_thread (run_queues s1 c) else n \<in> set (flat (run_list (run_queues s1 c)))"
    using pick q1 by simp
  have ok: "sched_ok c s' \<and> runs_next c s' n" if "decided c r s1 n s'" for s'
    using decided_ok [OF that wf1 _ _ alive pick1] locks(3) procs st by (simp add: f(1) same_tasks_def)
  have rn: "\<not> (thread_id (threads s1 r) = thread_id (threads s1 n) \<and> pid_of s1 r = pid_of s1 n) \<or> n = r"
    if "r \<in> ?I ?q"
  proof -
    have "n \<in> ?I ?q" using n unfolding q1 mem by (auto simp: staying_def split: if_splits)
    moreover have "inj_on (task_ids s) (?I ?q)" using wf unfolding lists_wf_def Let_def by blast
    ultimately show ?thesis using that unfolding f inj_on_def task_ids_def by blast
  qed
  have up: "task_status (threads s1 n) = Running" using alive n by blast
  have rin: "r \<in> ?I ?q" using r by (auto simp: members_def)
  have final: "\<exists>sw s'. RunQueue__schedule clone_pages c ctx (Some irq) True True s = (Ok (sw, s') :: ('e, _) outcome) \<and>
      decided c r s1 n s' \<and> (case sw of Same_task \<Rightarrow> n = r | Jump_to m \<Rightarrow> ctx \<noteq> None \<and> m = n \<and> n \<noteq> r | Switch_to a m \<Rightarrow> ctx = None \<and> a = r \<and> m = n \<and> n \<noteq> r)"
  proof (cases "thread_id (threads s1 r) = thread_id (threads s1 n) \<and> pid_of s1 r = pid_of s1 n")
    case True
    then have e: "n = r" using rn [OF rin] by blast
    then have "RunQueue__schedule clone_pages c ctx (Some irq) True True s =
        (Ok (Same_task, irq_restore irq (unlock_queue c (unlock_thread r s1))) :: ('e, _) outcome)"
      using True run cn up by (simp add: RunQueue__schedule_def)
    then show ?thesis using decided_same [OF q1(2)] e by auto
  next
    case False
    let ?s2 = "upd_queue c (\<lambda>q. q\<lparr>should_reschedule := False, running_thread := Some n\<rparr>) (unlock_thread r (saved_context ctx r s1))"
    have "\<not> process_lock (processes ?s2 p)" for p using procs st by (simp add: unlock_thread_def same_tasks_def)
    then obtain a where a: "switch_memory clone_pages (pid_of ?s2 r) n ?s2 = (Ok (?s2\<lparr>active_memory := a\<rparr>) :: ('e, _) outcome)"
      using switch_memory_ok [where clone_pages = clone_pages and s = ?s2] clone by blast
    then have "RunQueue__schedule clone_pages c ctx (Some irq) True True s =
        (Ok (case ctx of Some _ \<Rightarrow> Jump_to n | None \<Rightarrow> Switch_to r n, unlock_queue c (?s2\<lparr>active_memory := a\<rparr>)) :: ('e, _) outcome)"
      using False run cn up by (auto simp: RunQueue__schedule_def Let_def simp flip: saved_context_def)
    then show ?thesis using decided_other False by (auto split: option.split)
  qed
  then obtain sw s' where s': "RunQueue__schedule clone_pages c ctx (Some irq) True True s = (Ok (sw, s') :: ('e, _) outcome)"
    "decided c r s1 n s'" "case sw of Same_task \<Rightarrow> n = r | Jump_to m \<Rightarrow> ctx \<noteq> None \<and> m = n \<and> n \<noteq> r | Switch_to a m \<Rightarrow> ctx = None \<and> a = r \<and> m = n \<and> n \<noteq> r"
    by blast
  have "run_list (run_queues s' c) = run_list (run_queues s1 c)" "members (run_queues s' c) = members (run_queues s1 c)"
    "idle_thread (run_queues s' c) = idle_thread ?q" "prio_in s' = prio_in s" "task_ids s' = task_ids s"
    "\<forall>t. scheduling_class (threads s' t) = scheduling_class (threads s t)"
    "number_of_threads (run_queues s' c) = number_of_threads ?q" "scheduler.more s' = scheduler.more s"
    "\<forall>t. task_status (threads s' t) = task_status (threads s t)"
    using s'(2) q1(1) sq st by (simp_all add: decided_def members_def f same_queue_def same_tasks_def)
  then have "switched ctx (task_status (threads s r)) c r (staying r s (set (members ?q))) s sw s'"
    using ok [OF s'(2)] s'(3) rr mem unfolding switched_def by (auto split: switch.splits)
  then show ?thesis using s'(1) by blast
qed

lemma sched_ok_running:
  assumes "sched_ok c s"
  obtains r where "running_thread (run_queues s c) = Some r"
    "r = idle_thread (run_queues s c) \<or> r \<in> set (flat (run_list (run_queues s c)))"
  using assms unfolding sched_ok_def by blast

text \<open>The state in which \<open>schedule\<close> and \<open>sleep_current_thread\<close> take their decision.\<close>

definition entered :: "nat \<Rightarrow> usize \<Rightarrow> ('c, 'f, 'z) scheduler_scheme \<Rightarrow> ('c, 'f, 'z) scheduler_scheme" where
  "entered c r s = upd_thread r (thread_lock_update (\<lambda>_. True)) (upd_queue c (queue_lock_update (\<lambda>_. True)) (snd (irq_save s)))"

lemma irq_save_simps [simp]:
  "threads (snd (irq_save s)) = threads s" "processes (snd (irq_save s)) = processes s" "run_queues (snd (irq_save s)) = run_queues s"
  "prio_in (snd (irq_save s)) = prio_in s" "task_ids (snd (irq_save s)) = task_ids s"
  by (simp_all add: irq_save_def split: prod.split)

lemma more_irq_save [simp]: "scheduler.more (snd (irq_save s)) = scheduler.more s"
  by (simp add: irq_save_def save_and_disable_local_irq_def)

lemma entered_simps [simp]:
  "run_queues (entered c r s) = (run_queues s)(c := queue_lock_update (\<lambda>_. True) (run_queues s c))"
  "processes (entered c r s) = processes s" "prio_in (entered c r s) = prio_in s" "task_ids (entered c r s) = task_ids s"
  "threads (entered c r s) = (threads s)(r := thread_lock_update (\<lambda>_. True) (threads s r))"
  by (simp_all add: entered_def)

lemma members_lock [simp]: "members (queue_lock_update f q) = members q"
  by (simp add: members_def)

lemma schedule_enters:
  assumes "sched_ok c s" and "running_thread (run_queues s c) = Some r"
  shows "schedule clone_pages c ctx s =
      RunQueue__schedule clone_pages c ctx (Some (fst (irq_save s))) True True (entered c r s)"
    and "sleep_current_thread clone_pages c None st s =
      RunQueue__schedule clone_pages c None (Some (fst (irq_save s))) True True (upd_thread r (set_task_status st) (entered c r s))"
proof -
  have l: "\<not> queue_lock (run_queues s c)" "\<not> thread_lock (threads s r)" using assms(1) unfolding sched_ok_def by auto
  show "schedule clone_pages c ctx s =
      RunQueue__schedule clone_pages c ctx (Some (fst (irq_save s))) True True (entered c r s)"
    using l assms(2) irq_save_simps(1,3) [of s]
    by (cases "irq_save s") (simp add: schedule_def RunQueue__schedule_def lock_thread_def entered_def)
  show "sleep_current_thread clone_pages c None st s =
      RunQueue__schedule clone_pages c None (Some (fst (irq_save s))) True True (upd_thread r (set_task_status st) (entered c r s))"
    using l assms(2) by (simp add: sleep_current_thread_def lock_thread_def entered_def case_prod_beta)
qed

lemma status_views [simp]:
  "prio_in (upd_thread t (set_task_status st) s) = prio_in s" "task_ids (upd_thread t (set_task_status st) s) = task_ids s"
  by (auto simp: prio_in_def pid_of_def task_ids_def set_task_status_def fun_eq_iff)

lemma decision_ok:
  assumes ok: "sched_ok c s" and run: "running_thread (run_queues s c) = Some r" and clone: "\<And>m. clone_pages m"
    and st: "st = Running \<or> r \<noteq> idle_thread (run_queues s c)"
    and s1: "s1 = upd_thread r (set_task_status st) (entered c r s)"
  shows "\<exists>sw s'. RunQueue__schedule clone_pages c ctx (Some irq) True True s1 = (Ok (sw, s') :: ('e, _) outcome) \<and>
           switched ctx st c r (if st = Running then set (members (run_queues s c)) else set (members (run_queues s c)) - {r}) s sw s'"
proof -
  have o: "lists_wf c s" "\<And>t. \<not> thread_lock (threads s t)" "\<And>p. \<not> process_lock (processes s p)"
    "\<And>t. t \<in> insert (idle_thread (run_queues s c)) (set (members (run_queues s c))) \<Longrightarrow> task_status (threads s t) = Running"
    using ok unfolding sched_ok_def by blast+
  have r: "r = idle_thread (run_queues s c) \<or> r \<in> set (flat (run_list (run_queues s c)))"
    using sched_ok_running [OF ok] run by auto
  have q1: "run_queues s1 c = queue_lock_update (\<lambda>_. True) (run_queues s c)" by (simp add: s1)
  have t1: "threads s1 = (threads s)(r := task_status_update (\<lambda>_. st) (thread_lock_update (\<lambda>_. True) (threads s r)))"
    by (simp add: s1 set_task_status_def)
  have wf1: "lists_wf c s1" using o(1) lists_wf_eq [of s1 s c] by (simp add: s1 set_task_status_def)
  have "\<exists>sw s'. RunQueue__schedule clone_pages c ctx (Some irq) True True s1 = (Ok (sw, s') :: ('e, _) outcome) \<and>
      switched ctx (task_status (threads s1 r)) c r (staying r s1 (set (members (run_queues s1 c)))) s1 sw s'"
  proof (rule schedule_core [OF wf1])
    show "task_status (threads s1 (idle_thread (run_queues s1 c))) = Running"
      using o(4) st by (auto simp: q1 t1)
    show "task_status (threads s1 t) = Running" if "t \<in> set (members (run_queues s1 c))" "t \<noteq> r" for t
      using that o(4) by (simp add: q1 t1)
  qed (use run r o(2,3) clone in \<open>simp_all add: q1 t1, simp_all add: s1\<close>)
  moreover have "staying r s1 (set (members (run_queues s1 c))) =
      (if st = Running then set (members (run_queues s c)) else set (members (run_queues s c)) - {r})"
    by (simp add: staying_def q1 t1)
  moreover have "prio_in s1 = prio_in s" "task_ids s1 = task_ids s" "\<And>t. scheduling_class (threads s1 t) = scheduling_class (threads s t)"
    "scheduler.more s1 = scheduler.more s"
    by (simp_all add: s1 set_task_status_def entered_def)
  moreover have "(if t = r then task_status (threads s1 r) else task_status (threads s1 t)) = (if t = r then st else task_status (threads s t))" for t
    by (simp add: t1)
  ultimately show ?thesis unfolding switched_def q1 by simp
qed

lemma schedule_ok:
  assumes "sched_ok c s" and "running_thread (run_queues s c) = Some r" and "\<And>m. clone_pages m"
  shows "\<exists>sw s'. schedule clone_pages c ctx s = (Ok (sw, s') :: ('e, _) outcome) \<and>
           switched ctx Running c r (set (members (run_queues s c))) s sw s'"
proof -
  have "task_status (threads s r) = Running" using assms(1,2) by (auto simp: sched_ok_def members_def)
  then have "upd_thread r (set_task_status Running) (entered c r s) = entered c r s"
    by (cases "threads s r") (simp add: entered_def upd_thread_def set_task_status_def)
  then show ?thesis
    using decision_ok [OF assms(1,2,3) _ refl, where st = Running and ctx = ctx and irq = "fst (irq_save s)"]
    by (simp add: schedule_enters(1) [OF assms(1,2)])
qed

lemma sleep_ok:
  assumes "sched_ok c s" and "running_thread (run_queues s c) = Some r" and "r \<noteq> idle_thread (run_queues s c)"
    and "st \<noteq> Running" and "\<And>m. clone_pages m"
  shows "\<exists>n s'. sleep_current_thread clone_pages c None st s = (Ok (Switch_to r n, s') :: ('e, _) outcome) \<and>
           switched None st c r (set (members (run_queues s c)) - {r}) s (Switch_to r n) s'"
proof -
  have c: "st = Running \<or> r \<noteq> idle_thread (run_queues s c)" using assms(3) by simp
  have "\<exists>sw s'. sleep_current_thread clone_pages c None st s = (Ok (sw, s') :: ('e, _) outcome) \<and>
      switched None st c r (set (members (run_queues s c)) - {r}) s sw s'"
    using decision_ok [where clone_pages = clone_pages, OF assms(1,2,5) c refl, where ctx = None and irq = "fst (irq_save s)"] assms(4)
    unfolding schedule_enters(2) [OF assms(1,2)] by simp
  then obtain sw s' where s': "sleep_current_thread clone_pages c None st s = (Ok (sw, s') :: ('e, _) outcome)"
    "switched None st c r (set (members (run_queues s c)) - {r}) s sw s'" by blast
  have o: "sched_ok c s'" "set (members (run_queues s' c)) = set (members (run_queues s c)) - {r}"
    "idle_thread (run_queues s' c) = idle_thread (run_queues s c)"
    using s'(2) unfolding switched_def by blast+
  have "\<not> runs_next c s' r"
    using o(2,3) assms(3) by (auto simp: runs_next_def members_def split: if_splits)
  then obtain n where "sw = Switch_to r n" using s'(2) by (cases sw) (simp_all add: switched_def)
  then show ?thesis using s' by blast
qed

section \<open>A round of the scheduler\<close>

text \<open>The threads that run after each of \<open>k\<close> calls of \<open>schedule\<close> and the state then.\<close>

fun reschedule ::
  "(usize \<Rightarrow> bool) \<Rightarrow> nat \<Rightarrow> nat \<Rightarrow> ('c, 'f, 'z) scheduler_scheme \<Rightarrow> ('e, usize option list \<times> ('c, 'f, 'z) scheduler_scheme) outcome" where
  "reschedule clone_pages c 0 s = Ok ([], s)"
| "reschedule clone_pages c (Suc k) s =
     obind (schedule clone_pages c None s) (\<lambda>(_, s).
     obind (reschedule clone_pages c k s) (\<lambda>(ts, s'). Ok (running_thread (run_queues s c) # ts, s')))"

lemma reschedule_round:
  assumes "sched_ok c s" and "running_thread (run_queues s c) = Some r"
    and "flat (run_list (run_queues s c)) = r # xs" and "\<And>m. clone_pages m"
  shows "\<exists>s'. reschedule clone_pages c (length xs) s = (Ok (map Some xs, s') :: ('e, _) outcome) \<and>
           sched_ok c s' \<and> set (members (run_queues s' c)) = set (members (run_queues s c))"
  using assms(1-3)
proof (induction xs arbitrary: s r)
  case (Cons x xs)
  obtain sw s1 where s1: "schedule clone_pages c None s = (Ok (sw, s1) :: ('e, _) outcome)"
    "switched None Running c r (set (members (run_queues s c))) s sw s1"
    using schedule_ok [OF Cons.prems(1,2), where ctx = None and clone_pages = clone_pages] assms(4) by blast
  have n: "sched_ok c s1" "set (members (run_queues s1 c)) = set (members (run_queues s c))" "runs_next c s1 x"
    "flat (run_list (run_queues s1 c)) = x # xs"
    using s1(2) Cons.prems(3) unfolding switched_def by blast+
  have run: "running_thread (run_queues s1 c) = Some x" using n(3) by (simp add: runs_next_def)
  obtain s' where "reschedule clone_pages c (length xs) s1 = (Ok (map Some xs, s') :: ('e, _) outcome)" "sched_ok c s'"
    "set (members (run_queues s' c)) = set (members (run_queues s1 c))"
    using Cons.IH [OF n(1) run n(4)] by blast
  then show ?case using s1(1) run n(2) by simp
qed simp

lemma lists_wf_added:
  assumes wf: "lists_wf c s" and t: "t \<noteq> idle_thread (run_queues s c)" "t \<notin> set (members (run_queues s c))"
    "class_priority (scheduling_class (threads s t)) (prio_in s t)"
    "inj_on (task_ids s) (insert t (insert (idle_thread (run_queues s c)) (set (members (run_queues s c)))))"
    and n: "(number_of_threads (run_queues s c) + 1) * TIMER_INTERVAL_MS \<noteq> 0"
    and la: "lists_added (prio_in s) t (run_list_pool (run_queues s c)) (run_list (run_queues s c)) pool ls"
    and views: "prio_in s' = prio_in s" "task_ids s' = task_ids s" "\<And>u. scheduling_class (threads s' u) = scheduling_class (threads s u)"
    and q: "run_list (run_queues s' c) = ls" "run_list_pool (run_queues s' c) = pool"
      "expired_list (run_queues s' c) = expired_list (run_queues s c)" "idle_thread (run_queues s' c) = idle_thread (run_queues s c)"
      "number_of_threads (run_queues s' c) = number_of_threads (run_queues s c) + 1"
  shows "lists_wf c s' \<and> set (members (run_queues s' c)) = insert t (set (members (run_queues s c)))"
proof -
  have L: "sorted_lists ls" "lists_fit (prio_in s) ls" "set (flat ls) = insert t (set (flat (run_list (run_queues s c))))"
    "distinct (flat ls)" "pool + length ls = run_list_pool (run_queues s c) + length (run_list (run_queues s c))"
    using la unfolding lists_added_def by blast+
  have w: "sorted_lists (expired_list (run_queues s c))" "lists_fit (prio_in s) (expired_list (run_queues s c))"
    "idle_thread (run_queues s c) \<notin> set (members (run_queues s c))"
    "\<forall>u \<in> insert (idle_thread (run_queues s c)) (set (members (run_queues s c))). class_priority (scheduling_class (threads s u)) (prio_in s u)"
    "512 \<le> run_list_pool (run_queues s c) + length (run_list (run_queues s c)) + length (expired_list (run_queues s c))"
    using wf unfolding lists_wf_def Let_def by blast+
  note d = lists_wf_members [OF wf]
  have m: "set (members (run_queues s' c)) = insert t (set (members (run_queues s c)))"
    by (simp add: members_def q L(3))
  have dm: "distinct (members (run_queues s' c))"
    using L(3,4) d(2,3) t(2) by (auto simp: members_def q)
  have pl: "512 \<le> pool + length ls + length (expired_list (run_queues s c))" using w(5) L(5) by linarith
  have i: "inj_on (task_ids s) (insert (idle_thread (run_queues s c)) (insert t (set (members (run_queues s c)))))"
    using t(4) by (simp only: insert_commute)
  have cp: "\<forall>u \<in> insert (idle_thread (run_queues s c)) (insert t (set (members (run_queues s c)))).
      class_priority (scheduling_class (threads s u)) (prio_in s u)" using w(4) t(3) by blast
  have "lists_wf c s'"
    unfolding lists_wf_def Let_def views m q using L(1,2) w(1-3) dm pl i cp n t(1) by blast
  then show ?thesis using m by simp
qed

section \<open>Waking a thread\<close>

text \<open>A thread that may be added to the queue: locked, not in the queue, with a priority of its class and an identity of its own.\<close>

definition can_wake :: "nat \<Rightarrow> usize \<Rightarrow> ('c, 'f, 'z) scheduler_scheme \<Rightarrow> bool" where
  "can_wake c t s \<longleftrightarrow>
     t \<noteq> idle_thread (run_queues s c) \<and> t \<notin> set (members (run_queues s c)) \<and>
     class_priority (scheduling_class (threads s t)) (prio_in s t) \<and>
     inj_on (task_ids s) (insert t (insert (idle_thread (run_queues s c)) (set (members (run_queues s c))))) \<and>
     (number_of_threads (run_queues s c) + 1) * TIMER_INTERVAL_MS \<noteq> 0"

lemma woken_views [simp]:
  "prio_in (upd_thread t (time_slice_update f \<circ> set_task_status st) s) = prio_in s"
  "task_ids (upd_thread t (time_slice_update f \<circ> set_task_status st) s) = task_ids s"
  by (auto simp: prio_in_def pid_of_def task_ids_def set_task_status_def fun_eq_iff)

lemma upd_commute: "upd_queue c f (upd_thread t g s) = upd_thread t g (upd_queue c f s)"
  by (cases s) (simp add: upd_queue_def upd_thread_def)

lemma thread_added_result:
  assumes "class_priority (scheduling_class (threads s t)) (prio_in s t)"
    and "(number_of_threads (run_queues s c) + 1) * TIMER_INTERVAL_MS \<noteq> 0"
    and "running_thread (run_queues s c) = Some r"
  shows "\<exists>v. thread_added_to_run_list c t s = (Ok
      (upd_thread t (time_slice_update (\<lambda>_. v) \<circ> set_task_status Running)
        (upd_queue c (\<lambda>q. q\<lparr>number_of_threads := number_of_threads q + 1,
           should_recheck_priority := should_recheck_priority q \<or> prio_in s r < prio_in s t,
           should_reschedule := should_reschedule q \<or> prio_in s r < prio_in s t\<rparr>) s)) :: ('e, _) outcome)"
proof -
  let ?f = "\<lambda>q. q\<lparr>number_of_threads := number_of_threads q + 1,
           should_recheck_priority := should_recheck_priority q \<or> prio_in s r < prio_in s t,
           should_reschedule := should_reschedule q \<or> prio_in s r < prio_in s t\<rparr>"
  let ?s = "upd_thread t (set_task_status Running) (upd_queue c ?f s)"
  have p: "priority_level (threads (upd_thread t (set_task_status Running) s) u) = prio_in s u" for u
    by (simp add: prio_in_def set_task_status_def)
  have a: "thread_added_to_run_list c t s = (set_slice c t ?s :: ('e, _) outcome)"
    unfolding thread_added_to_run_list_def Let_def p using assms(3)
    by (cases "prio_in s r < prio_in s t"; cases "run_queues s c") (simp_all add: upd_commute, simp_all add: upd_queue_def)
  obtain v where "set_slice c t ?s = (Ok (upd_thread t (time_slice_update (\<lambda>_. v)) ?s) :: ('e, _) outcome)"
    using set_slice_ok [of ?s t c] assms(1,2) by (auto simp: set_task_status_def)
  moreover have "upd_thread t (time_slice_update (\<lambda>_. v)) ?s = upd_thread t (time_slice_update (\<lambda>_. v) \<circ> set_task_status Running) (upd_queue c ?f s)"
    by (simp add: upd_thread_def)
  ultimately show ?thesis using a by auto
qed

text \<open>The state after a thread was woken on a queue, with the thread unlocked.\<close>

definition woken :: "nat \<Rightarrow> usize \<Rightarrow> ('c, 'f, 'z) scheduler_scheme \<Rightarrow> ('c, 'f, 'z) scheduler_scheme \<Rightarrow> bool" where
  "woken c t s u \<longleftrightarrow>
     (\<exists>v ls pool b b'.
        threads u = (threads s)(t := (threads s t)\<lparr>task_status := Running, time_slice := v, thread_lock := False\<rparr>) \<and>
        run_queues u = (run_queues s)(c := (run_queues s c)\<lparr>run_list := ls, run_list_pool := pool,
          number_of_threads := number_of_threads (run_queues s c) + 1, should_recheck_priority := b, should_reschedule := b'\<rparr>) \<and>
        lists_added (prio_in s) t (run_list_pool (run_queues s c)) (run_list (run_queues s c)) pool ls) \<and>
     processes u = processes s \<and> local_flags u = local_flags s"

lemma woken_same_views:
  assumes "woken c t s u"
  shows "prio_in u = prio_in s" "task_ids u = task_ids s" "scheduling_class (threads u x) = scheduling_class (threads s x)"
  using assms unfolding woken_def by (auto simp: prio_in_def task_ids_def pid_of_def fun_eq_iff)

lemma woken_ok:
  assumes ok: "sched_ok c s" and t: "can_wake c t s" and w: "woken c t s u"
  shows "sched_ok c u \<and> set (members (run_queues u c)) = insert t (set (members (run_queues s c)))"
proof -
  let ?q = "run_queues s c"
  have o: "lists_wf c s" "\<And>t. \<not> thread_lock (threads s t)" "\<not> queue_lock ?q" "\<And>p. \<not> process_lock (processes s p)"
    "\<And>t. t \<in> insert (idle_thread ?q) (set (members ?q)) \<Longrightarrow> task_status (threads s t) = Running"
    using ok unfolding sched_ok_def by blast+
  have cw: "t \<noteq> idle_thread ?q" "t \<notin> set (members ?q)" "class_priority (scheduling_class (threads s t)) (prio_in s t)"
    "inj_on (task_ids s) (insert t (insert (idle_thread ?q) (set (members ?q))))" "(number_of_threads ?q + 1) * TIMER_INTERVAL_MS \<noteq> 0"
    using t unfolding can_wake_def by blast+
  obtain v ls pool b b' where u: "threads u = (threads s)(t := (threads s t)\<lparr>task_status := Running, time_slice := v, thread_lock := False\<rparr>)"
    "run_queues u = (run_queues s)(c := ?q\<lparr>run_list := ls, run_list_pool := pool,
       number_of_threads := number_of_threads ?q + 1, should_recheck_priority := b, should_reschedule := b'\<rparr>)"
    "lists_added (prio_in s) t (run_list_pool ?q) (run_list ?q) pool ls" "processes u = processes s"
    using w unfolding woken_def by blast
  have wf: "lists_wf c u \<and> set (members (run_queues u c)) = insert t (set (members ?q))"
    by (rule lists_wf_added [OF o(1) cw u(3) woken_same_views [OF w]]) (simp_all add: u(2))
  obtain r where r: "running_thread ?q = Some r" "r = idle_thread ?q \<or> r \<in> set (flat (run_list ?q))"
    using sched_ok_running [OF ok] by blast
  have fl: "set (flat ls) = insert t (set (flat (run_list ?q)))" using u(3) unfolding lists_added_def by blast
  have q: "\<not> queue_lock (run_queues u c)" "running_thread (run_queues u c) = Some r" "idle_thread (run_queues u c) = idle_thread ?q"
    "run_list (run_queues u c) = ls" using o(3) r by (simp_all add: u(2))
  have "sched_ok c u" unfolding sched_ok_def using wf q r(2) fl o(2,4,5) by (auto simp: u(1,4))
  then show ?thesis using wf by simp
qed

lemma woken_other:
  assumes ok: "sched_ok d s" and w: "woken c t s u" and d: "d \<noteq> c"
  shows "sched_ok d u \<and> run_queues u d = run_queues s d"
proof -
  obtain v where u: "threads u = (threads s)(t := (threads s t)\<lparr>task_status := Running, time_slice := v, thread_lock := False\<rparr>)"
    "processes u = processes s" and q: "run_queues u d = run_queues s d"
    using w d unfolding woken_def by auto
  have "lists_wf d u = lists_wf d s" by (rule lists_wf_eq [OF woken_same_views [OF w]]) (simp_all add: q)
  then show ?thesis using ok q unfolding sched_ok_def by (simp add: u)
qed

text \<open>The part of waking a thread that runs with the queue locked.\<close>

definition entering :: "nat \<Rightarrow> usize \<Rightarrow> ('c, 'f, 'z) scheduler_scheme \<Rightarrow> ('c, 'f, 'z) scheduler_scheme" where
  "entering c t s = upd_queue c (queue_lock_update (\<lambda>_. True)) (snd (irq_save (upd_thread t (thread_lock_update (\<lambda>_. True)) s)))"

lemma add_core:
  assumes ok: "sched_ok c s" and t: "can_wake c t s" and run: "running_thread (run_queues s c) = Some r"
  shows "\<exists>s3. RunQueue__add_thread c t False (entering c t s) = Ok s3 \<and>
           (\<forall>x. thread_lock (threads s3 x) = (x = t)) \<and> scheduler.more s3 = scheduler.more s \<and>
           running_thread (run_queues s3 c) = Some r \<and> prio_in s3 = prio_in s \<and>
           should_reschedule (run_queues s3 c) = (should_reschedule (run_queues s c) \<or> prio_in s r < prio_in s t) \<and>
           (\<forall>f. woken c t s (unlock_thread t (irq_restore (local_flags s) (unlock_queue c (upd_queue c (should_reschedule_update f) s3)))))"
proof -
  let ?q = "run_queues s c" and ?s1 = "entering c t s"
  have o: "lists_wf c s" "\<And>t. \<not> thread_lock (threads s t)" "\<not> queue_lock ?q"
    using ok unfolding sched_ok_def by blast+
  have w: "t \<notin> set (members ?q)" "class_priority (scheduling_class (threads s t)) (prio_in s t)"
    "(number_of_threads ?q + 1) * TIMER_INTERVAL_MS \<noteq> 0"
    using t unfolding can_wake_def by blast+
  have l: "sorted_lists (run_list ?q)" "sorted_lists (expired_list ?q)" "lists_fit (prio_in s) (run_list ?q)" "distinct (flat (run_list ?q))"
    "512 \<le> run_list_pool ?q + length (run_list ?q) + length (expired_list ?q)"
    using o(1) by (simp_all add: lists_wf_def Let_def members_def)
  have unl: "\<forall>u \<in> set (flat (run_list ?q)). \<not> thread_lock (threads ?s1 u)" using o(2) w(1) by (auto simp: members_def entering_def)
  have "t \<notin> set (flat (run_list ?q))" using w(1) by (simp add: members_def)
  then obtain ls pool where ls: "add_to_lists (\<lambda>u. thread_lock (threads ?s1 u)) (prio_in s t) t (run_list_pool ?q) (run_list ?q) = Ok (ls, pool)"
    "lists_added (prio_in s) t (run_list_pool ?q) (run_list ?q) pool ls"
    using add_to_lists_ok [OF l(1,3) _ l(4) unl pool_enough [OF l(5,1,2)]] by blast
  let ?s2 = "upd_queue c (\<lambda>q. q\<lparr>run_list := ls, run_list_pool := pool\<rparr>) ?s1"
  have p2: "prio_in ?s2 = prio_in s" by (simp add: entering_def)
  have "class_priority (scheduling_class (threads ?s2 t)) (prio_in ?s2 t)" "(number_of_threads (run_queues ?s2 c) + 1) * TIMER_INTERVAL_MS \<noteq> 0"
    "running_thread (run_queues ?s2 c) = Some r" using w(2,3) run unfolding p2 by (simp_all add: entering_def)
  note added = thread_added_result [OF this, unfolded p2]
  have pl: "priority_level (threads ?s1 t) = prio_in s t" by (simp add: prio_in_def entering_def)
  have "RunQueue__add_thread c t False ?s1 = thread_added_to_run_list c t ?s2"
    unfolding RunQueue__add_thread_def Let_def pl using ls(1) by (simp add: entering_def)
  then obtain v where add: "RunQueue__add_thread c t False ?s1 = Ok
      (upd_thread t (time_slice_update (\<lambda>_. v) \<circ> set_task_status Running)
        (upd_queue c (\<lambda>q. q\<lparr>number_of_threads := number_of_threads q + 1,
           should_recheck_priority := should_recheck_priority q \<or> prio_in s r < prio_in s t,
           should_reschedule := should_reschedule q \<or> prio_in s r < prio_in s t\<rparr>) ?s2))"
    (is "_ = Ok ?s3") using added by auto
  have "woken c t s (unlock_thread t (irq_restore (local_flags s) (unlock_queue c (upd_queue c (should_reschedule_update f) ?s3))))" for f
    unfolding woken_def using ls(2) o(3)
    by (cases "run_queues s c") (auto simp: entering_def irq_restore_def restore_local_irq_def unlock_queue_def unlock_thread_def drop_eq comp_def set_task_status_def)
  then show ?thesis
    using add run o(2) by (intro exI [of _ ?s3]) (auto simp: entering_def set_task_status_def)
qed

lemma should_reschedule_same: "upd_queue c (should_reschedule_update (\<lambda>b. b)) s = s"
proof -
  have e: "should_reschedule_update (\<lambda>b. b) q = q" for q :: RunQueue by (cases q) simp
  show ?thesis by (cases s) (simp add: upd_queue_def e)
qed

lemma entering_flags:
  "fst (irq_save (upd_thread t (thread_lock_update (\<lambda>_. True)) s)) = local_flags s"
  by (simp add: irq_save_def save_and_disable_local_irq_def)

lemma wake_ok:
  assumes ok: "sched_ok c s" and t: "can_wake c t s" and run: "running_thread (run_queues s c) = Some r"
  shows "\<exists>s'. RunQueue_add_thread c t (upd_thread t (thread_lock_update (\<lambda>_. True)) s) = Ok s' \<and>
           woken c t s (unlock_thread t s') \<and> scheduler.more s' = scheduler.more s \<and>
           should_reschedule (run_queues s' c) = (should_reschedule (run_queues s c) \<or> prio_in s r < prio_in s t)"
proof -
  obtain s3 where s3: "RunQueue__add_thread c t False (entering c t s) = Ok s3" "scheduler.more s3 = scheduler.more s"
    "should_reschedule (run_queues s3 c) = (should_reschedule (run_queues s c) \<or> prio_in s r < prio_in s t)"
    "woken c t s (unlock_thread t (irq_restore (local_flags s) (unlock_queue c (upd_queue c (should_reschedule_update (\<lambda>b. b)) s3))))"
    using add_core [OF assms] by blast
  let ?s' = "irq_restore (local_flags s) (unlock_queue c s3)"
  have "\<not> queue_lock (run_queues s c)" using ok unfolding sched_ok_def by blast
  then have "RunQueue_add_thread c t (upd_thread t (thread_lock_update (\<lambda>_. True)) s) = Ok ?s'"
    using s3(1) by (simp add: RunQueue_add_thread_def case_prod_beta entering_flags flip: entering_def)
  moreover have "should_reschedule (run_queues ?s' c) = should_reschedule (run_queues s3 c)" "scheduler.more ?s' = scheduler.more s3"
    by (simp_all add: irq_restore_def unlock_queue_def)
  ultimately show ?thesis using s3(2-4) unfolding should_reschedule_same by auto
qed

text \<open>A thread assigned to a queue from another processor; here the comparison of the priorities is right.\<close>

lemma assign_ok:
  assumes ok: "sched_ok c s" and t: "can_wake c t s" and run: "running_thread (run_queues s c) = Some r"
  shows "\<exists>s'. assign_thread c t (upd_thread t (thread_lock_update (\<lambda>_. True)) s) = Ok (prio_in s t < prio_in s r, s') \<and>
           woken c t s (unlock_thread t s') \<and> scheduler.more s' = scheduler.more s"
proof -
  obtain s3 where s3: "RunQueue__add_thread c t False (entering c t s) = Ok s3" "\<forall>x. thread_lock (threads s3 x) = (x = t)"
    "running_thread (run_queues s3 c) = Some r" "prio_in s3 = prio_in s" "scheduler.more s3 = scheduler.more s"
    and w: "\<And>f. woken c t s (unlock_thread t (irq_restore (local_flags s) (unlock_queue c (upd_queue c (should_reschedule_update f) s3))))"
    using add_core [OF assms] by blast
  have "r \<noteq> t" using sched_ok_running [OF ok] run t by (auto simp: can_wake_def members_def)
  then have "\<not> thread_lock (threads s3 r)" using s3(2) by simp
  moreover have "\<not> queue_lock (run_queues s c)" using ok unfolding sched_ok_def by blast
  moreover have "priority_level (threads s3 x) = prio_in s x" for x using s3(4) by (metis prio_in_def)
  ultimately have "assign_thread c t (upd_thread t (thread_lock_update (\<lambda>_. True)) s) =
      Ok (prio_in s t < prio_in s r, irq_restore (local_flags s) (unlock_queue c
        (upd_queue c (should_reschedule_update (\<lambda>b. b \<or> prio_in s t < prio_in s r)) s3)))"
    using s3(1,3) by (cases "prio_in s t < prio_in s r")
      (simp_all add: assign_thread_def case_prod_beta entering_flags should_reschedule_same flip: entering_def)
  moreover have "scheduler.more (irq_restore (local_flags s) (unlock_queue c
      (upd_queue c (should_reschedule_update (\<lambda>b. b \<or> prio_in s t < prio_in s r)) s3))) = scheduler.more s"
    using s3(5) by (simp add: irq_restore_def unlock_queue_def)
  ultimately show ?thesis using w by blast
qed

section \<open>Properties\<close>

text \<open>A processor with two threads of one priority and one of a lower priority; the first of them runs.\<close>

definition example_thread :: "usize \<Rightarrow> u8 \<Rightarrow> nat ThreadEntry" where
  "example_thread i p = (ThreadEntry_new 1 0 KernelThread)\<lparr>thread_id := i, priority_level := p, task_status := Running\<rparr>"

definition example_state :: "(nat, nat) scheduler" where
  "example_state =
     \<lparr>threads = (\<lambda>t. if t = 1 \<or> t = 2 then example_thread t 100 else if t = 3 then example_thread 3 110
        else if t = 4 then example_thread 4 90 else example_thread 9 0xff),
      processes = (\<lambda>_. ProcessEntry_new),
      run_queues = (\<lambda>_. \<lparr>queue_lock = False, run_list = [\<lparr>run_priority = 100, run_threads = [1, 2]\<rparr>, \<lparr>run_priority = 110, run_threads = [3]\<rparr>],
        expired_list = [], idle_thread = 9, running_thread = Some 1, run_list_pool = 510,
        should_recheck_priority = False, should_reschedule = False, number_of_threads = 4\<rparr>),
      local_flags = 0x200, active_memory = 0\<rparr>"

lemmas example_simps = example_state_def example_thread_def ThreadEntry_new_def ProcessEntry_new_def SpinLockFlag_new_def
  members_def TIMER_INTERVAL_MS_def prio_in_def task_ids_def pid_of_def class_priority_def Kernel_get_idle_thread_priority_def

lemma example_ok: "sched_ok 0 example_state" "can_wake 0 4 example_state"
  by (simp_all add: sched_ok_def can_wake_def lists_wf_def Let_def example_simps)

text \<open>
  Property C17. From a consistent run queue \<open>schedule\<close> always succeeds: it does not panic, get stuck on
  a lock or fail. Afterwards the queue is consistent again with the same threads in it and
  all locks released, and a runnable thread of the list to run is running, or the idle
  thread when the queue is empty; when the thread that ran has a successor in the list, that
  one runs.
\<close>

theorem schedule_correct:
  assumes "sched_ok c s" and "running_thread (run_queues s c) = Some r" and "\<And>m. clone_pages m"
  shows "\<exists>sw s'. schedule clone_pages c ctx s = (Ok (sw, s') :: ('e, _) outcome) \<and>
           switched ctx Running c r (set (members (run_queues s c))) s sw s'"
  by (rule schedule_ok [OF assms])

theorem schedule_correct_witness:
  "\<exists>sw s'. schedule (\<lambda>_. True) 0 None example_state = (Ok (sw, s') :: (TaskError, _) outcome) \<and>
     switched None Running 0 1 {1, 2, 3} example_state sw s'"
  using schedule_correct [OF example_ok(1), where r = 1 and clone_pages = "\<lambda>_. True" and ctx = None]
  by (simp add: example_state_def members_def)

text \<open>
  Property C18. The list to run is served in its order: when the running thread is the first of it, as many
  further calls of \<open>schedule\<close> as there are threads behind it give the processor to each of
  them once, highest priority first.
\<close>

theorem run_list_served_in_order:
  assumes "sched_ok c s" and "running_thread (run_queues s c) = Some r"
    and "flat (run_list (run_queues s c)) = r # xs" and "\<And>m. clone_pages m"
  shows "\<exists>s'. reschedule clone_pages c (length xs) s = (Ok (map Some xs, s') :: ('e, _) outcome) \<and>
           sched_ok c s' \<and> set (members (run_queues s' c)) = set (members (run_queues s c))"
  by (rule reschedule_round [OF assms])

theorem run_list_served_in_order_witness:
  "\<exists>s'. reschedule (\<lambda>_. True) 0 2 example_state = (Ok ([Some 2, Some 3], s') :: (TaskError, _) outcome) \<and> sched_ok 0 s'"
  using run_list_served_in_order [OF example_ok(1), where r = 1 and xs = "[2, 3]" and clone_pages = "\<lambda>_. True"]
  by (auto simp: example_state_def numeral_2_eq_2)

text \<open>
  Property C19. A thread other than the idle thread that goes to sleep leaves the run queue: the decision
  succeeds, another thread runs and the sleeper is in neither list.
\<close>

theorem sleep_current_thread_correct:
  assumes "sched_ok c s" and "running_thread (run_queues s c) = Some r" and "r \<noteq> idle_thread (run_queues s c)"
    and "st \<noteq> Running" and "\<And>m. clone_pages m"
  shows "\<exists>n s'. sleep_current_thread clone_pages c None st s = (Ok (Switch_to r n, s') :: ('e, _) outcome) \<and>
           sched_ok c s' \<and> runs_next c s' n \<and> n \<noteq> r \<and> set (members (run_queues s' c)) = set (members (run_queues s c)) - {r}"
  using sleep_ok [where clone_pages = clone_pages, OF assms] by (auto simp: switched_def)

theorem sleep_current_thread_correct_witness:
  "\<exists>n s'. sleep_current_thread (\<lambda>_. True) 0 None Interruptible example_state = (Ok (Switch_to 1 n, s') :: (TaskError, _) outcome) \<and>
     runs_next 0 s' n \<and> set (members (run_queues s' 0)) = {2, 3}"
  using sleep_current_thread_correct [OF example_ok(1), where r = 1 and clone_pages = "\<lambda>_. True" and st = Interruptible]
  by (auto simp: example_state_def members_def)

text \<open>
  Property C20. Waking a locked thread that is not in the queue succeeds, makes it runnable and puts it into
  the list to run, behind the threads of its own and higher priorities and before the others; the expired list is
  as it was, the flags register is restored and the queue stays consistent. Rescheduling
  is requested when the priority number of the woken thread is greater than that of the
  running one. Greater numbers are lower priorities, so a thread that should preempt the
  running one does not request it, and while the idle thread runs nothing does.
\<close>

theorem add_thread_correct:
  assumes "sched_ok c s" and "can_wake c t s" and "running_thread (run_queues s c) = Some r"
  shows "\<exists>s'. RunQueue_add_thread c t (upd_thread t (thread_lock_update (\<lambda>_. True)) s) = Ok s' \<and>
           sched_ok c (unlock_thread t s') \<and> set (members (run_queues s' c)) = insert t (set (members (run_queues s c))) \<and>
           flat (run_list (run_queues s' c)) = placed (prio_in s) t (flat (run_list (run_queues s c))) \<and>
           expired_list (run_queues s' c) = expired_list (run_queues s c) \<and> task_status (threads s' t) = Running \<and>
           running_thread (run_queues s' c) = Some r \<and> local_flags s' = local_flags s \<and>
           should_reschedule (run_queues s' c) = (should_reschedule (run_queues s c) \<or> prio_in s r < prio_in s t)"
proof -
  obtain s' where s': "RunQueue_add_thread c t (upd_thread t (thread_lock_update (\<lambda>_. True)) s) = Ok s'" "woken c t s (unlock_thread t s')"
    "should_reschedule (run_queues s' c) = (should_reschedule (run_queues s c) \<or> prio_in s r < prio_in s t)"
    using wake_ok [OF assms] by blast
  have u: "run_queues (unlock_thread t s') = run_queues s'" "local_flags (unlock_thread t s') = local_flags s'"
    "task_status (threads (unlock_thread t s') t) = task_status (threads s' t)"
    by (simp_all add: unlock_thread_def)
  have "task_status (threads s' t) = Running"
    "flat (run_list (run_queues s' c)) = placed (prio_in s) t (flat (run_list (run_queues s c)))"
    "expired_list (run_queues s' c) = expired_list (run_queues s c)"
    using s'(2) unfolding woken_def lists_added_def in_place_def u(1,3) [symmetric] by auto
  then show ?thesis using s' u woken_ok [OF assms(1,2) s'(2)] assms(3) by (auto simp: woken_def)
qed

theorem add_thread_correct_witness:
  "\<exists>s'. RunQueue_add_thread 0 4 (upd_thread 4 (thread_lock_update (\<lambda>_. True)) example_state) = Ok s' \<and>
     flat (run_list (run_queues s' 0)) = [4, 1, 2, 3] \<and> expired_list (run_queues s' 0) = [] \<and>
     priority_level (threads example_state 4) < priority_level (threads example_state 1) \<and>
     \<not> should_reschedule (run_queues s' 0)"
  using add_thread_correct [OF example_ok, where r = 1] by (auto simp: example_simps placed_def)

text \<open>
  Remark. Sleeping and being woken is a round trip on the run queue: both succeed and the same threads
  are in the queue and runnable as before. The counter of threads is not restored: waking increments
  it and sleeping does not decrement it, so every cycle makes the queue look one thread
  longer, to the balancing of the load and to the computation of the time slices.
\<close>

theorem sleep_wakeup_roundtrip:
  assumes "sched_ok c s" and "running_thread (run_queues s c) = Some r" and "r \<noteq> idle_thread (run_queues s c)"
    and "\<And>m. clone_pages m" and "(number_of_threads (run_queues s c) + 1) * TIMER_INTERVAL_MS \<noteq> 0"
  shows "\<exists>n s1 s2. sleep_current_thread clone_pages c None Interruptible s = (Ok (Switch_to r n, s1) :: ('e, _) outcome) \<and>
     RunQueue_add_thread c r (upd_thread r (thread_lock_update (\<lambda>_. True)) s1) = Ok s2 \<and>
     sched_ok c (unlock_thread r s2) \<and> set (members (run_queues s2 c)) = set (members (run_queues s c)) \<and>
     task_status (threads s2 r) = Running \<and> number_of_threads (run_queues s2 c) = number_of_threads (run_queues s c) + 1"
proof -
  let ?q = "run_queues s c"
  obtain n s1 where s1: "sleep_current_thread clone_pages c None Interruptible s = (Ok (Switch_to r n, s1) :: ('e, _) outcome)"
    "switched None Interruptible c r (set (members ?q) - {r}) s (Switch_to r n) s1"
    using sleep_ok [where clone_pages = clone_pages and st = Interruptible, OF assms(1-3) _ assms(4)] by auto
  have n: "sched_ok c s1" "set (members (run_queues s1 c)) = set (members ?q) - {r}" "idle_thread (run_queues s1 c) = idle_thread ?q"
    "prio_in s1 = prio_in s" "task_ids s1 = task_ids s" "\<And>t. scheduling_class (threads s1 t) = scheduling_class (threads s t)"
    "number_of_threads (run_queues s1 c) = number_of_threads ?q"
    using s1(2) unfolding switched_def by simp_all
  have r: "r \<in> set (members ?q)" using sched_ok_running [OF assms(1)] assms(2,3) by (auto simp: members_def)
  have "lists_wf c s" using assms(1) unfolding sched_ok_def by blast
  then have l: "class_priority (scheduling_class (threads s r)) (prio_in s r)" "inj_on (task_ids s) (insert (idle_thread ?q) (set (members ?q)))"
    using r unfolding lists_wf_def Let_def by blast+
  have "insert r (insert (idle_thread ?q) (set (members ?q) - {r})) = insert (idle_thread ?q) (set (members ?q))" using r by blast
  then have cw: "can_wake c r s1" unfolding can_wake_def n(2-7) using assms(3,5) l by auto
  obtain m where m: "running_thread (run_queues s1 c) = Some m" using sched_ok_running [OF n(1)] by blast
  obtain s2 where s2: "RunQueue_add_thread c r (upd_thread r (thread_lock_update (\<lambda>_. True)) s1) = Ok s2" "woken c r s1 (unlock_thread r s2)"
    using wake_ok [OF n(1) cw m] by blast
  have u: "run_queues (unlock_thread r s2) = run_queues s2" "task_status (threads (unlock_thread r s2) r) = task_status (threads s2 r)"
    by (simp_all add: unlock_thread_def)
  have "task_status (threads (unlock_thread r s2) r) = Running"
    "number_of_threads (run_queues (unlock_thread r s2) c) = number_of_threads (run_queues s1 c) + 1"
    using s2(2) unfolding woken_def by auto
  then show ?thesis using s1(1) s2(1) woken_ok [OF n(1) cw s2(2)] n(2,7) r unfolding u by (auto simp: insert_absorb)
qed

theorem sleep_wakeup_roundtrip_witness:
  "\<exists>n s1 s2. sleep_current_thread (\<lambda>_. True) 0 None Interruptible example_state = (Ok (Switch_to 1 n, s1) :: (TaskError, _) outcome) \<and>
     RunQueue_add_thread 0 1 (upd_thread 1 (thread_lock_update (\<lambda>_. True)) s1) = Ok s2 \<and>
     set (members (run_queues s2 0)) = {1, 2, 3} \<and> number_of_threads (run_queues s2 0) = 5"
proof -
  have "running_thread (run_queues example_state 0) = Some 1" "(1 :: usize) \<noteq> idle_thread (run_queues example_state 0)"
    "(number_of_threads (run_queues example_state 0) + 1) * TIMER_INTERVAL_MS \<noteq> 0"
    "set (members (run_queues example_state 0)) = {1, 2, 3}" "number_of_threads (run_queues example_state 0) + 1 = 5"
    by (simp_all add: example_simps)
  then show ?thesis
    using sleep_wakeup_roundtrip [OF example_ok(1), where r = 1 and clone_pages = "\<lambda>_. True"] by metis
qed

end
