(* ===== verification/Task_Manager.thy ===== *)
theory Task_Manager
  imports Scheduling
begin

text \<open>
  The task manager, \<open>kernel/task_manager.rs\<close>, and the queues of sleeping threads,
  \<open>kernel/task_manager/wait_queue.rs\<close>. The state of the scheduler is extended by the fields of
  the manager, the list of processors and the reschedule interrupts that were sent. A pool is
  the list of the addresses that its slab allocator gives next, empty when no memory is left,
  and \<open>no_memory\<close> is the error in that case. What an operation obtains from the memory and the context
  manager in its single call (a context with its stack, an address space) is an argument.
\<close>

section \<open>State\<close>

record ('c, 'f) task_manager = "('c, 'f) scheduler" +
  task_lock :: bool
  kernel_process :: usize
  kernel_idle_thread :: usize
  process_entry_pool :: "usize list"
  thread_entry_pool :: "usize list"
  no_memory :: MemoryError
  p_list :: "usize list"
  next_process_id :: usize
  cpu_list :: "nat list"
  reschedule_ipis :: "nat list"

text \<open>\<open>IrqSaveSpinLockFlag\<close> around an operation: the guard keeps the flags register.\<close>

definition lock_tasks :: "('c, 'f, 'z) task_manager_scheme \<Rightarrow> ('e, u64 \<times> ('c, 'f, 'z) task_manager_scheme) outcome" where
  "lock_tasks s = (case irq_save s of (irq, s) \<Rightarrow> if task_lock s then Diverge else Ok (irq, s\<lparr>task_lock := True\<rparr>))"

definition unlock_tasks :: "u64 \<Rightarrow> ('c, 'f, 'z) task_manager_scheme \<Rightarrow> ('c, 'f, 'z) task_manager_scheme" where
  "unlock_tasks irq s = irq_restore irq (s\<lparr>task_lock := False\<rparr>)"

text \<open>The result of a part that ran under the guard, with the guard dropped.\<close>

definition with_tasks_unlocked ::
  "u64 \<Rightarrow> ('x \<times> ('c, 'f, 'z) task_manager_scheme, 'a \<times> ('c, 'f, 'z) task_manager_scheme) outcome \<Rightarrow>
    ('x \<times> ('c, 'f, 'z) task_manager_scheme, 'a \<times> ('c, 'f, 'z) task_manager_scheme) outcome" where
  "with_tasks_unlocked irq r =
     (case r of
        Ok (a, s) \<Rightarrow> Ok (a, unlock_tasks irq s)
      | Err (e, s) \<Rightarrow> Err (e, unlock_tasks irq s)
      | Panic \<Rightarrow> Panic
      | Diverge \<Rightarrow> Diverge)"

section \<open>Creation of threads\<close>

definition TaskManager_init ::
  "usize list \<Rightarrow> usize list \<Rightarrow> usize \<Rightarrow> 'c \<Rightarrow> 'c \<Rightarrow> nat \<Rightarrow> ('c, 'f, 'z) task_manager_scheme \<Rightarrow>
    (TaskError, ('c, 'f, 'z) task_manager_scheme) outcome" where
  "TaskManager_init process_pool thread_pool mm kernel_main_context idle_context c s =
     obind (lock_tasks s) (\<lambda>(irq, s).
     case (process_pool, thread_pool) of
       (k # ps, main # idle # ts) \<Rightarrow>
         let s = s\<lparr>process_entry_pool := ps, thread_entry_pool := ts\<rparr>
         in obind Kernel_get_normal_priority (\<lambda>prio.
            obind (ThreadEntry_init k prio KernelThread kernel_main_context) (\<lambda>m.
            obind (ThreadEntry_init k Kernel_get_idle_thread_priority KernelThread idle_context) (\<lambda>i.
            let s = upd_thread idle (\<lambda>_. i) (upd_thread main (\<lambda>_. m) s)
            in obind (expect (ProcessEntry_init k KERNEL_PID 0 [main, idle] mm 0 s)) (\<lambda>s.
               obind (lock_process k s) (\<lambda>s.
               obind (lock_thread main s) (\<lambda>s.
               obind (lock_thread idle s) (\<lambda>s.
               obind (expect (RunQueue_add_thread c main s)) (\<lambda>s.
               let s = unlock_thread idle (set_idle_thread c idle (unlock_thread main s));
                   s = s\<lparr>kernel_process := k, kernel_idle_thread := idle\<rparr>
               in Ok (unlock_process k (unlock_tasks irq s))))))))))
     | _ \<Rightarrow> Panic)"

definition fork_system_thread ::
  "MemoryError + 'c \<Rightarrow> 'c ThreadEntry \<Rightarrow> ('c, 'f, 'z) task_manager_scheme \<Rightarrow>
    (TaskError \<times> ('c, 'f, 'z) task_manager_scheme, usize \<times> ('c, 'f, 'z) task_manager_scheme) outcome" where
  "fork_system_thread new_context original s =
     obind (assert_that (task_lock s)) (\<lambda>_.
     case thread_entry_pool s of
       [] \<Rightarrow> Err (TaskMemoryError (no_memory s), s)
     | n # pool \<Rightarrow>
         let s = s\<lparr>thread_entry_pool := pool\<rparr>
         in if thread_lock original then Diverge
            else
              case new_context of
                Inl e \<Rightarrow> Err (TaskMemoryError e, s)
              | Inr ctx \<Rightarrow>
                  obind (fork_data (original\<lparr>thread_lock := True\<rparr>) ctx) (\<lambda>e.
                  let s = upd_thread n (\<lambda>_. e) s; p = process_of e
                  in if process_lock (processes s p) then Err (ThreadLockError, s)
                     else
                       obind (lock_process p s) (\<lambda>s.
                       case ProcessEntry_add_thread p n s of
                         Ok s \<Rightarrow> Ok (n, unlock_process p s)
                       | Err (e, s) \<Rightarrow> Err (e, unlock_process p s)
                       | Panic \<Rightarrow> Panic
                       | Diverge \<Rightarrow> Diverge)))"

definition init_idle ::
  "MemoryError + 'c \<Rightarrow> nat \<Rightarrow> ('c, 'f, 'z) task_manager_scheme \<Rightarrow> (TaskError, ('c, 'f, 'z) task_manager_scheme) outcome" where
  "init_idle new_context c s =
     obind (lock_tasks s) (\<lambda>(irq, s).
     obind (expect (fork_system_thread new_context (threads s (kernel_idle_thread s)) s)) (\<lambda>(n, s).
     obind (lock_thread n s) (\<lambda>s.
     Ok (unlock_tasks irq (unlock_thread n (set_idle_thread c n s))))))"

definition create_kernel_thread_for_init ::
  "MemoryError + 'c \<Rightarrow> u8 \<Rightarrow> u8 \<Rightarrow> ('c, 'f, 'z) task_manager_scheme \<Rightarrow>
    (TaskError \<times> ('c, 'f, 'z) task_manager_scheme, usize \<times> ('c, 'f, 'z) task_manager_scheme) outcome" where
  "create_kernel_thread_for_init new_context kernel_priority flag s =
     obind (lock_tasks s) (\<lambda>(irq, s).
     with_tasks_unlocked irq
       (obind (fork_system_thread new_context (threads s (kernel_idle_thread s)) s) (\<lambda>(n, s).
        obind (lock_thread n s) (\<lambda>s.
        obind (Kernel_get_custom_priority kernel_priority) (\<lambda>prio.
        let s = upd_thread n (\<lambda>t. set_task_status TaskNew (set_priority_level prio t)) s;
            s = (if flag AND FLAG_LOCAL_THREAD \<noteq> 0 then upd_thread n set_local_thread s else s)
        in Ok (n, unlock_thread n s))))))"

text \<open>When the thread cannot be added to the run queue it is taken from its process, and its address is still the result.\<close>

definition create_kernel_thread ::
  "MemoryError + 'c \<Rightarrow> u8 \<Rightarrow> bool \<Rightarrow> nat \<Rightarrow> ('c, 'f, 'z) task_manager_scheme \<Rightarrow>
    (TaskError \<times> ('c, 'f, 'z) task_manager_scheme, usize \<times> ('c, 'f, 'z) task_manager_scheme) outcome" where
  "create_kernel_thread new_context kernel_priority should_set_into_run_queue c s =
     obind (lock_tasks s) (\<lambda>(irq, s).
     with_tasks_unlocked irq
       (case copy_running_thread_data c s of
          Err e \<Rightarrow> Err (e, s)
        | Panic \<Rightarrow> Panic
        | Diverge \<Rightarrow> Diverge
        | Ok clone_thread \<Rightarrow>
            obind (fork_system_thread new_context clone_thread s) (\<lambda>(n, s).
            obind (lock_thread n s) (\<lambda>s.
            obind (Kernel_get_custom_priority kernel_priority) (\<lambda>prio.
            let s = upd_thread n (\<lambda>t. (set_task_status TaskNew (set_priority_level prio t))\<lparr>time_slice := 5\<rparr>) s
            in if should_set_into_run_queue then
                 (case RunQueue_add_thread c n s of
                    Ok s \<Rightarrow> Ok (n, unlock_thread n s)
                  | Panic \<Rightarrow> Panic
                  | Diverge \<Rightarrow> Diverge
                  | Err (_, s) \<Rightarrow>
                      (case ProcessEntry_remove_thread (process_of (threads s n)) n s of
                         Ok s \<Rightarrow> Ok (n, unlock_thread n s)
                       | Err (_, s) \<Rightarrow> Ok (n, unlock_thread n s)
                       | Panic \<Rightarrow> Panic
                       | Diverge \<Rightarrow> Diverge))
               else Ok (n, unlock_thread n s))))))"

definition create_kernel_thread_with_argument ::
  "(u64 list \<Rightarrow> 'c \<Rightarrow> 'c) \<Rightarrow> MemoryError + 'c \<Rightarrow> u8 \<Rightarrow> usize \<Rightarrow> nat \<Rightarrow> ('c, 'f, 'z) task_manager_scheme \<Rightarrow>
    (TaskError \<times> ('c, 'f, 'z) task_manager_scheme, usize \<times> ('c, 'f, 'z) task_manager_scheme) outcome" where
  "create_kernel_thread_with_argument set_arguments new_context kernel_priority argument c s =
     obind (create_kernel_thread new_context kernel_priority False c s) (\<lambda>(n, s).
     obind (lock_thread n s) (\<lambda>s.
     Ok (n, unlock_thread n (upd_thread n (context_data_update (set_arguments [argument])) s))))"

section \<open>User processes\<close>

definition update_next_p_id :: "('c, 'f, 'z) task_manager_scheme \<Rightarrow> ('c, 'f, 'z) task_manager_scheme" where
  "update_next_p_id s = s\<lparr>next_process_id := next_process_id s + 1\<rparr>"

definition create_user_process ::
  "MemoryError + usize \<Rightarrow> usize \<Rightarrow> u8 \<Rightarrow> ('c, 'f, 'z) task_manager_scheme \<Rightarrow>
    (TaskError \<times> ('c, 'f, 'z) task_manager_scheme, usize \<times> ('c, 'f, 'z) task_manager_scheme) outcome" where
  "create_user_process user_memory_manager parent_process privilege s =
     (case user_memory_manager of
        Inl e \<Rightarrow> Err (TaskMemoryError e, s)
      | Inr mm \<Rightarrow>
          obind (lock_tasks s) (\<lambda>(irq, s).
          with_tasks_unlocked irq
            (case process_entry_pool s of
               [] \<Rightarrow> Err (TaskMemoryError (no_memory s), s)
             | p # pool \<Rightarrow>
                 let s = s\<lparr>process_entry_pool := pool\<rparr>
                 in obind (assert_that (parent_process = 0 \<longrightarrow> next_process_id s = 1)) (\<lambda>_.
                    obind (expect (ProcessEntry_init p (next_process_id s) parent_process [] mm privilege s)) (\<lambda>s.
                    Ok (p, update_next_p_id (s\<lparr>p_list := p_list s @ [p]\<rparr>)))))))"

definition create_user_thread ::
  "MemoryError + 'c \<Rightarrow> usize \<Rightarrow> u8 \<Rightarrow> ('c, 'f, 'z) task_manager_scheme \<Rightarrow>
    (TaskError \<times> ('c, 'f, 'z) task_manager_scheme, usize \<times> ('c, 'f, 'z) task_manager_scheme) outcome" where
  "create_user_thread new_context p priority s =
     obind (assert_that (process_id (processes s p) \<noteq> 0)) (\<lambda>_.
     obind (lock_tasks s) (\<lambda>(irq, s).
     with_tasks_unlocked irq
       (case thread_entry_pool s of
          [] \<Rightarrow> Err (TaskMemoryError (no_memory s), s)
        | n # pool \<Rightarrow>
            let s = s\<lparr>thread_entry_pool := pool\<rparr>
            in case new_context of
                 Inl e \<Rightarrow> Err (TaskMemoryError e, s\<lparr>thread_entry_pool := n # pool\<rparr>)
               | Inr ctx \<Rightarrow>
                   obind (ThreadEntry_init p priority UserThread ctx) (\<lambda>t.
                   obind (User_get_custom_priority priority) (\<lambda>prio.
                   let s = upd_thread n (\<lambda>_. set_task_status TaskNew (set_priority_level prio t)) s
                   in obind (lock_process p s) (\<lambda>s.
                      case ProcessEntry_add_thread p n s of
                        Ok s \<Rightarrow> Ok (n, unlock_process p s)
                      | Err (e, s) \<Rightarrow> Err (e, unlock_process p (s\<lparr>thread_entry_pool := n # thread_entry_pool s\<rparr>))
                      | Panic \<Rightarrow> Panic
                      | Diverge \<Rightarrow> Diverge))))))"

text \<open>The loop that takes all threads from a process and frees those that are stopped.\<close>

fun delete_threads ::
  "nat \<Rightarrow> usize \<Rightarrow> ('c, 'f, 'z) task_manager_scheme \<Rightarrow>
    (TaskError \<times> ('c, 'f, 'z) task_manager_scheme, ('c, 'f, 'z) task_manager_scheme) outcome" where
  "delete_threads 0 p s = Diverge"
| "delete_threads (Suc k) p s =
     obind (take_thread p s) (\<lambda>(t, s).
     case t of
       None \<Rightarrow> Ok s
     | Some t \<Rightarrow>
         obind (lock_thread t s) (\<lambda>s.
         if task_status (threads s t) \<noteq> Stopped then Err (InvalidProcessEntry, unlock_process p (unlock_thread t s))
         else delete_threads k p (unlock_thread t (s\<lparr>thread_entry_pool := t # thread_entry_pool s\<rparr>))))"

text \<open>
  \<open>delete_user_process\<close> calls itself for every child with the own lock released; \<open>k\<close> bounds
  the depth and the number of threads. \<open>free_memory\<close> releases an address space; closing the
  files has no effect on the state here.
\<close>

fun delete_user_process ::
  "(usize \<Rightarrow> MemoryError option) \<Rightarrow> nat \<Rightarrow> usize \<Rightarrow> ('c, 'f, 'z) task_manager_scheme \<Rightarrow>
    (TaskError \<times> ('c, 'f, 'z) task_manager_scheme, ('c, 'f, 'z) task_manager_scheme) outcome" where
  "delete_user_process free_memory 0 p s = Diverge"
| "delete_user_process free_memory (Suc k) p s =
     obind (lock_process p s) (\<lambda>s.
     obind
       (foldl (\<lambda>r e. obind r (\<lambda>s. obind (delete_user_process free_memory k e (unlock_process p s)) (lock_process p)))
          (Ok s) (children (processes s p))) (\<lambda>s.
     if process_status (processes s p) \<noteq> Zombie then Err (InvalidProcessEntry, unlock_process p s)
     else
       obind (delete_threads k p s) (\<lambda>s.
       let parent_p = parent (processes s p)
       in obind
            (if parent_p = 0 then Ok s
             else if process_lock (processes s parent_p) then Diverge
             else obind (remove_member p (children (processes s parent_p)))
                    (\<lambda>cs. Ok (upd_process parent_p (children_update (\<lambda>_. cs)) s))) (\<lambda>s.
          obind
            (if num_of_thread (processes s p) \<le> 1 \<and> file_vec_lock (processes s p) then Diverge
             else Ok (upd_process p (files_update (\<lambda>_. [])) s)) (\<lambda>s.
          obind (get_memory_manager p s) (\<lambda>mm.
          case free_memory mm of
            Some e \<Rightarrow> Err (TaskMemoryError e, unlock_process p s)
          | None \<Rightarrow>
              obind (lock_tasks s) (\<lambda>(irq, s).
              obind (remove_member p (p_list s)) (\<lambda>ps.
              let s = unlock_process p (s\<lparr>p_list := ps\<rparr>)
              in Ok (unlock_tasks irq (s\<lparr>process_entry_pool := p # process_entry_pool s\<rparr>))))))))))"

section \<open>Waking threads up\<close>

text \<open>
  The first processor in the list whose queue has fewer threads than the current one takes the thread.
  The current processor is told to interrupt it when it should reschedule.
\<close>

fun assign_to_less_loaded ::
  "usize \<Rightarrow> usize \<Rightarrow> nat list \<Rightarrow> ('c, 'f, 'z) task_manager_scheme \<Rightarrow>
    (TaskError \<times> ('c, 'f, 'z) task_manager_scheme, (bool \<times> ('c, 'f, 'z) task_manager_scheme) option) outcome" where
  "assign_to_less_loaded t current_cpu_load [] s = Ok None"
| "assign_to_less_loaded t current_cpu_load (d # ds) s =
     obind (get_number_of_running_threads d s) (\<lambda>load.
     if load < current_cpu_load then
       obind (assign_thread d t s) (\<lambda>(should_interrupt_cpu, s).
       Ok (Some (should_interrupt_cpu,
         if should_interrupt_cpu then s\<lparr>reschedule_ipis := reschedule_ipis s @ [d]\<rparr> else s)))
     else assign_to_less_loaded t current_cpu_load ds s)"

definition add_thread_into_run_queue ::
  "nat \<Rightarrow> usize \<Rightarrow> ('c, 'f, 'z) task_manager_scheme \<Rightarrow>
    (TaskError \<times> ('c, 'f, 'z) task_manager_scheme, ('c, 'f, 'z) task_manager_scheme) outcome" where
  "add_thread_into_run_queue c t s =
     obind (assert_that (task_lock s)) (\<lambda>_.
     obind (lock_thread t s) (\<lambda>s.
     obind (get_number_of_running_threads c s) (\<lambda>load.
     let local = (\<lambda>s. RunQueue_add_thread c t s);
         r = (if is_local_thread (threads s t) then local s
              else obind (assign_to_less_loaded t load (cpu_list s) s)
                (\<lambda>a. case a of None \<Rightarrow> local s | Some (_, s) \<Rightarrow> Ok s))
     in case r of
          Ok s \<Rightarrow> Ok (unlock_thread t s)
        | Err (e, s) \<Rightarrow> Err (e, unlock_thread t s)
        | Panic \<Rightarrow> Panic
        | Diverge \<Rightarrow> Diverge)))"

definition wake_up_thread ::
  "nat \<Rightarrow> usize \<Rightarrow> ('c, 'f, 'z) task_manager_scheme \<Rightarrow>
    (TaskError \<times> ('c, 'f, 'z) task_manager_scheme, ('c, 'f, 'z) task_manager_scheme) outcome" where
  "wake_up_thread c t s =
     obind (lock_tasks s) (\<lambda>(irq, s).
     case add_thread_into_run_queue c t s of
       Ok s \<Rightarrow> Ok (unlock_tasks irq s)
     | Err (e, s) \<Rightarrow> Err (e, unlock_tasks irq s)
     | Panic \<Rightarrow> Panic
     | Diverge \<Rightarrow> Diverge)"

section \<open>Wait queues\<close>

record WaitQueue =
  wait_lock :: bool
  wait_list :: "usize list"

definition WaitQueue_new :: WaitQueue where
  "WaitQueue_new = \<lparr>wait_lock = SpinLockFlag_new, wait_list = []\<rparr>"

text \<open>The thread is locked, so it is refused when it is the last one of the list already.\<close>

definition WaitQueue__add_thread ::
  "usize \<Rightarrow> ('c, 'f, 'z) scheduler_scheme \<Rightarrow> WaitQueue \<Rightarrow> (TaskError, WaitQueue) outcome" where
  "WaitQueue__add_thread t s w =
     obind (assert_that (thread_lock (threads s t))) (\<lambda>_.
     if wait_list w \<noteq> [] \<and> thread_lock (threads s (last (wait_list w))) then Err ThreadLockError
     else Ok (w\<lparr>wait_list := wait_list w @ [t]\<rparr>))"

definition WaitQueue_add_thread ::
  "usize \<Rightarrow> ('c, 'f, 'z) scheduler_scheme \<Rightarrow> WaitQueue \<Rightarrow> (TaskError, WaitQueue) outcome" where
  "WaitQueue_add_thread t s w =
     obind (assert_that (\<not> thread_lock (threads s t))) (\<lambda>_.
     if wait_lock w then Diverge
     else WaitQueue__add_thread t (upd_thread t (thread_lock_update (\<lambda>_. True)) s) w)"

text \<open>The first part of \<open>add_current_thread\<close>, in which the running thread enters the list; it gives the saved flags register.\<close>

definition WaitQueue_enter ::
  "nat \<Rightarrow> ('c, 'f, 'z) scheduler_scheme \<Rightarrow> WaitQueue \<Rightarrow>
    (TaskError \<times> ('c, 'f, 'z) scheduler_scheme \<times> WaitQueue, u64 \<times> ('c, 'f, 'z) scheduler_scheme \<times> WaitQueue) outcome" where
  "WaitQueue_enter c s w =
     obind (assert_that (interrupts_enabled (local_flags s))) (\<lambda>_.
     if wait_lock w then Diverge
     else
       let (irq, s) = irq_save s
       in obind (get_running_thread c s) (\<lambda>r.
          if thread_lock (threads s r) then Err (ThreadLockError, irq_restore irq s, w)
          else
            case WaitQueue__add_thread r (upd_thread r (thread_lock_update (\<lambda>_. True)) s) w of
              Ok w \<Rightarrow> Ok (irq, s, w)
            | Err e \<Rightarrow> Err (e, irq_restore irq s, w)
            | Panic \<Rightarrow> Panic
            | Diverge \<Rightarrow> Diverge))"

definition add_current_thread ::
  "(usize \<Rightarrow> bool) \<Rightarrow> nat \<Rightarrow> ('c, 'f, 'z) scheduler_scheme \<Rightarrow> WaitQueue \<Rightarrow>
    (TaskError \<times> ('c, 'f, 'z) scheduler_scheme \<times> WaitQueue, switch \<times> ('c, 'f, 'z) scheduler_scheme \<times> WaitQueue) outcome" where
  "add_current_thread clone_pages c s w =
     obind (WaitQueue_enter c s w) (\<lambda>(irq, s, w).
     obind (sleep_current_thread clone_pages c (Some irq) Interruptible s) (\<lambda>(sw, s). Ok (sw, s, w)))"

text \<open>One thread of the list is taken out and woken up.\<close>

definition wakeup_first ::
  "nat \<Rightarrow> usize \<Rightarrow> ('c, 'f, 'z) task_manager_scheme \<Rightarrow> WaitQueue \<Rightarrow>
    (TaskError \<times> ('c, 'f, 'z) task_manager_scheme \<times> WaitQueue, ('c, 'f, 'z) task_manager_scheme \<times> WaitQueue) outcome" where
  "wakeup_first c t s w =
     obind (lock_thread t s) (\<lambda>_.
     let w = w\<lparr>wait_list := remove1 t (wait_list w)\<rparr>
     in case wake_up_thread c t s of
          Ok s \<Rightarrow> Ok (s, w)
        | Err (e, s) \<Rightarrow> Err (e, s, w)
        | Panic \<Rightarrow> Panic
        | Diverge \<Rightarrow> Diverge)"

definition wakeup_one ::
  "nat \<Rightarrow> ('c, 'f, 'z) task_manager_scheme \<Rightarrow> WaitQueue \<Rightarrow>
    (TaskError \<times> ('c, 'f, 'z) task_manager_scheme \<times> WaitQueue, ('c, 'f, 'z) task_manager_scheme \<times> WaitQueue) outcome" where
  "wakeup_one c s w =
     (if wait_lock w then Diverge
      else case wait_list w of
             [] \<Rightarrow> Err (InvalidThreadEntry, s, w)
           | t # _ \<Rightarrow> wakeup_first c t s w)"

text \<open>The iterator has read the successor before a thread is removed, so the loop goes over the list as it was.\<close>

fun wakeup_each ::
  "nat \<Rightarrow> usize list \<Rightarrow> ('c, 'f, 'z) task_manager_scheme \<Rightarrow> WaitQueue \<Rightarrow>
    (TaskError \<times> ('c, 'f, 'z) task_manager_scheme \<times> WaitQueue, ('c, 'f, 'z) task_manager_scheme \<times> WaitQueue) outcome" where
  "wakeup_each c [] s w = Ok (s, w)"
| "wakeup_each c (t # ts) s w = obind (wakeup_first c t s w) (\<lambda>(s, w). wakeup_each c ts s w)"

definition wakeup_all ::
  "nat \<Rightarrow> ('c, 'f, 'z) task_manager_scheme \<Rightarrow> WaitQueue \<Rightarrow>
    (TaskError \<times> ('c, 'f, 'z) task_manager_scheme \<times> WaitQueue, ('c, 'f, 'z) task_manager_scheme \<times> WaitQueue) outcome" where
  "wakeup_all c s w = (if wait_lock w then Diverge else wakeup_each c (wait_list w) s w)"

definition WaitQueue_is_empty :: "WaitQueue \<Rightarrow> ('e, bool) outcome" where
  "WaitQueue_is_empty w = (if wait_lock w then Diverge else Ok (wait_list w = []))"

section \<open>Deletion\<close>

lemma take_thread_some: "take_thread p s \<noteq> Ok (Some t, s')"
  by (auto simp: take_thread_def Let_def ProcessEntry_remove_thread_def lock_thread_def outcome_iffs assert_that_def
      split: option.splits list.splits if_splits)

lemma take_thread_none: "take_thread p s = Ok (None, s') \<Longrightarrow> s' = s"
  by (auto simp: take_thread_def Let_def outcome_iffs assert_that_def split: option.splits list.splits if_splits)

lemma delete_threads_Ok:
  assumes "delete_threads k p s = Ok s'"
  shows "s' = s"
proof (cases k)
  case (Suc m)
  obtain t s1 where t: "take_thread p s = Ok (t, s1)" using assms Suc by (auto simp: outcome_iffs)
  then have "t = None" using take_thread_some [of p s] by (cases t) auto
  then show ?thesis using assms Suc t take_thread_none [of p s s1] by auto
qed (use assms in simp)

lemma get_memory_manager_Ok: "get_memory_manager p s = Ok mm \<longleftrightarrow> \<not> process_lock (processes s p) \<and> mm = memory_manager (processes s p)"
  by (auto simp: get_memory_manager_def lock_process_def)

lemma lock_process_locks: "lock_process p s = Ok s' \<Longrightarrow> process_lock (processes s' p)"
  by (auto simp: lock_process_def split: if_splits)

lemma foldl_obind_locked:
  assumes "foldl (\<lambda>r e. obind r (\<lambda>s. obind (f e s) (lock_process p))) r es = Ok s'" and "\<And>s. r = Ok s \<Longrightarrow> process_lock (processes s p)"
  shows "process_lock (processes s' p)"
  using assms
proof (induction es arbitrary: r)
  case (Cons e es)
  then show ?case using lock_process_locks by (auto simp: outcome_iffs elim!: Cons.IH)
qed simp

lemma delete_user_process_fails: "delete_user_process free_memory k p s \<noteq> Ok s'"
proof (cases k)
  case (Suc m)
  have locked: "process_lock (processes s3 p)"
    if "lock_process p s = Ok s1" and "foldl (\<lambda>r e. obind r (\<lambda>s. obind (delete_user_process free_memory m e (unlock_process p s)) (lock_process p)))
         (Ok s1) cs = Ok s2" and "delete_threads m p s2 = Ok s3" for s1 s2 s3 cs
    using foldl_obind_locked [where f = "\<lambda>e s. delete_user_process free_memory m e (unlock_process p s)", OF that(2)]
      lock_process_locks [OF that(1)] delete_threads_Ok [OF that(3)] by simp
  show ?thesis
    unfolding Suc delete_user_process.simps Let_def
    by (auto simp: outcome_iffs get_memory_manager_Ok dest: locked split: if_splits option.splits)
qed simp

section \<open>Waking up on some processor\<close>

lemma task_fields [simp]:
  "threads (s\<lparr>task_lock := b\<rparr>) = threads s" "processes (s\<lparr>task_lock := b\<rparr>) = processes s"
  "run_queues (s\<lparr>task_lock := b\<rparr>) = run_queues s" "local_flags (s\<lparr>task_lock := b\<rparr>) = local_flags s"
  "threads (s\<lparr>reschedule_ipis := i\<rparr>) = threads s" "processes (s\<lparr>reschedule_ipis := i\<rparr>) = processes s"
  "run_queues (s\<lparr>reschedule_ipis := i\<rparr>) = run_queues s" "local_flags (s\<lparr>reschedule_ipis := i\<rparr>) = local_flags s"
  "cpu_list (upd_thread t f s) = cpu_list s"
  by (simp_all add: upd_thread_def)

text \<open>The state in which the manager has its lock.\<close>

definition managing :: "('c, 'f, 'z) task_manager_scheme \<Rightarrow> ('c, 'f, 'z) task_manager_scheme" where
  "managing s = (snd (irq_save s))\<lparr>task_lock := True\<rparr>"

lemma managing_simps [simp]:
  "threads (managing s) = threads s" "processes (managing s) = processes s" "run_queues (managing s) = run_queues s"
  "prio_in (managing s) = prio_in s" "task_ids (managing s) = task_ids s" "task_lock (managing s)" "cpu_list (managing s) = cpu_list s"
  by (simp_all add: managing_def irq_save_def save_and_disable_local_irq_def fun_eq_iff prio_in_def task_ids_def pid_of_def)

lemma managing_ok [simp]: "sched_ok d (managing s) = sched_ok d s" "can_wake d t (managing s) = can_wake d t s"
proof -
  have "lists_wf d (managing s) = lists_wf d s" by (rule lists_wf_eq) simp_all
  then show "sched_ok d (managing s) = sched_ok d s" by (simp add: sched_ok_def)
  show "can_wake d t (managing s) = can_wake d t s" by (simp add: can_wake_def)
qed

lemma woken_managing:
  assumes "woken d t (managing s) u"
  shows "woken d t s (unlock_tasks (local_flags s) u)"
  using assms unfolding woken_def unlock_tasks_def irq_restore_def restore_local_irq_def by simp

definition load :: "('c, 'f, 'z) scheduler_scheme \<Rightarrow> nat \<Rightarrow> usize" where
  "load s d = number_of_threads (run_queues s d)"

lemma more_ipis:
  fixes s s' :: "('c, 'f, 'z) task_manager_scheme"
  assumes "scheduler.more s' = scheduler.more s"
  shows "reschedule_ipis s' = reschedule_ipis s"
  using assms by (cases s; cases s') simp

text \<open>A processor is interrupted when the woken thread has a smaller priority number than the running one.\<close>

definition preempts :: "usize \<Rightarrow> ('c, 'f, 'z) scheduler_scheme \<Rightarrow> nat \<Rightarrow> bool" where
  "preempts t s d = (case running_thread (run_queues s d) of Some r \<Rightarrow> prio_in s t < prio_in s r | None \<Rightarrow> False)"

definition ipis_for :: "usize \<Rightarrow> ('c, 'f, 'z) scheduler_scheme \<Rightarrow> nat \<Rightarrow> nat list" where
  "ipis_for t s d = (if preempts t s d then [d] else [])"

lemma assign_to_less_loaded_ok:
  assumes "\<And>d. d \<in> set ds \<Longrightarrow> sched_ok d s \<and> can_wake d t s"
  shows "\<exists>a. assign_to_less_loaded t n ds (upd_thread t (thread_lock_update (\<lambda>_. True)) s) = Ok a \<and>
     (case a of None \<Rightarrow> find (\<lambda>d. load s d < n) ds = None
      | Some (i, s') \<Rightarrow> \<exists>d. find (\<lambda>d. load s d < n) ds = Some d \<and> woken d t s (unlock_thread t s') \<and>
          reschedule_ipis s' = reschedule_ipis s @ ipis_for t s d)"
  using assms
proof (induction ds)
  case (Cons d ds)
  let ?s = "upd_thread t (thread_lock_update (\<lambda>_. True)) s"
  have d: "sched_ok d s" "can_wake d t s" using Cons.prems by simp_all
  then have "\<not> queue_lock (run_queues s d)" unfolding sched_ok_def by blast
  then have ld: "get_number_of_running_threads d ?s = (Ok (load s d) :: (TaskError \<times> _, _) outcome)"
    by (simp add: get_number_of_running_threads_def load_def)
  obtain r where r: "running_thread (run_queues s d) = Some r" using sched_ok_running [OF d(1)] by blast
  obtain s' where s': "assign_thread d t ?s = Ok (prio_in s t < prio_in s r, s')" "woken d t s (unlock_thread t s')"
    "scheduler.more s' = scheduler.more s"
    using assign_ok [OF d r] by blast
  have pr: "preempts t s d = (prio_in s t < prio_in s r)" by (simp add: preempts_def r)
  have w: "woken d t s (unlock_thread t (s'\<lparr>reschedule_ipis := i\<rparr>))" for i
    using s'(2) by (simp add: woken_def unlock_thread_def)
  show ?case
  proof (cases "load s d < n")
    case True
    then show ?thesis using s' w more_ipis [OF s'(3)] by (auto simp: ld pr ipis_for_def)
  next
    case False
    from Cons.IH Cons.prems obtain a where a: "assign_to_less_loaded t n ds ?s = Ok a"
      "case a of None \<Rightarrow> find (\<lambda>d. load s d < n) ds = None
        | Some (i, s') \<Rightarrow> \<exists>d. find (\<lambda>d. load s d < n) ds = Some d \<and> woken d t s (unlock_thread t s') \<and>
            reschedule_ipis s' = reschedule_ipis s @ ipis_for t s d" by auto
    have "find (\<lambda>d. load s d < n) (d # ds) = find (\<lambda>d. load s d < n) ds" using False by simp
    with a False show ?thesis by (intro exI [of _ a]) (simp only: assign_to_less_loaded.simps ld obind.simps if_False simp_thms)
  qed
qed simp

text \<open>
  The other processor a thread goes to: for a thread that is not local, the first processor of the list
  that has fewer threads than the current one.
\<close>

definition other_cpu :: "nat \<Rightarrow> usize \<Rightarrow> ('c, 'f, 'z) task_manager_scheme \<Rightarrow> nat option" where
  "other_cpu c t s =
     (if is_local_thread (threads s t) then None else find (\<lambda>d. load s d < load s c) (cpu_list s))"

text \<open>Where the thread goes and which processor is interrupted.\<close>

definition dispatched ::
  "nat \<Rightarrow> usize \<Rightarrow> ('c, 'f, 'z) task_manager_scheme \<Rightarrow> nat \<Rightarrow> ('c, 'f, 'z) task_manager_scheme \<Rightarrow> bool" where
  "dispatched c t s d s' \<longleftrightarrow>
     (case other_cpu c t s of
        None \<Rightarrow> d = c \<and> reschedule_ipis s' = reschedule_ipis s
      | Some e \<Rightarrow> d = e \<and> reschedule_ipis s' = reschedule_ipis s @ ipis_for t s e)"

lemma add_thread_into_run_queue_ok:
  fixes s :: "('c, 'f, 'z) task_manager_scheme"
  assumes ok: "\<And>d. d \<in> insert c (set (cpu_list s)) \<Longrightarrow> sched_ok d s \<and> can_wake d t s" and held: "task_lock s"
  shows "\<exists>d s'. add_thread_into_run_queue c t s = Ok (unlock_thread t s') \<and> woken d t s (unlock_thread t s') \<and>
     dispatched c t s d s'"
proof -
  let ?s = "upd_thread t (thread_lock_update (\<lambda>_. True)) s"
  have c: "sched_ok c s" "can_wake c t s" using ok by simp_all
  have unl: "\<not> thread_lock (threads s t)" "\<not> queue_lock (run_queues s c)" using c(1) by (simp_all add: sched_ok_def)
  have lk: "lock_thread t s = (Ok ?s :: (TaskError \<times> _, _) outcome)" using unl by simp
  have ld: "get_number_of_running_threads c ?s = (Ok (load s c) :: (TaskError \<times> _, _) outcome)"
    using unl by (simp add: get_number_of_running_threads_def load_def)
  obtain r where r: "running_thread (run_queues s c) = Some r" using sched_ok_running [OF c(1)] by blast
  obtain s1 where s1: "RunQueue_add_thread c t ?s = Ok s1" "woken c t s (unlock_thread t s1)"
    "scheduler.more s1 = scheduler.more s" using wake_ok [OF c r] by blast
  obtain a where a: "assign_to_less_loaded t (load s c) (cpu_list s) ?s = Ok a"
    "case a of None \<Rightarrow> find (\<lambda>d. load s d < load s c) (cpu_list s) = None
      | Some (i, s') \<Rightarrow> \<exists>d. find (\<lambda>d. load s d < load s c) (cpu_list s) = Some d \<and> woken d t s (unlock_thread t s') \<and>
          reschedule_ipis s' = reschedule_ipis s @ ipis_for t s d"
    using assign_to_less_loaded_ok [of "cpu_list s" s t "load s c"] ok by auto
  show ?thesis
  proof (cases "is_local_thread (threads s t) \<or> a = None")
    case True
    then have "add_thread_into_run_queue c t s = Ok (unlock_thread t s1)"
      using s1(1) a(1) held by (auto simp: lk ld add_thread_into_run_queue_def Let_def is_local_thread_def)
    moreover have "other_cpu c t s = None" using True a(2) by (auto simp: other_cpu_def)
    ultimately show ?thesis using s1(2) more_ipis [OF s1(3)] by (auto simp: dispatched_def)
  next
    case False
    then obtain i s2 where i: "a = Some (i, s2)" by auto
    have "add_thread_into_run_queue c t s = Ok (unlock_thread t s2)"
      using False a(1) i held by (auto simp: lk ld add_thread_into_run_queue_def Let_def is_local_thread_def)
    then show ?thesis using a(2) i False by (auto simp: dispatched_def other_cpu_def)
  qed
qed

lemma dispatched_managing:
  assumes "dispatched c t (managing s) d s'"
  shows "dispatched c t s d (unlock_tasks (local_flags s) (unlock_thread t s'))"
proof -
  have "reschedule_ipis (unlock_tasks f (unlock_thread t s')) = reschedule_ipis s'" for f
    by (simp add: unlock_tasks_def unlock_thread_def upd_thread_def irq_restore_def)
  moreover have "other_cpu c t (managing s) = other_cpu c t s"
    by (simp add: other_cpu_def load_def)
  moreover have "ipis_for t (managing s) e = ipis_for t s e" for e
    by (cases "running_thread (run_queues s e)") (simp_all add: ipis_for_def preempts_def)
  moreover have "reschedule_ipis (managing s) = reschedule_ipis s" by (simp add: managing_def irq_save_def case_prod_beta)
  ultimately show ?thesis using assms by (simp add: dispatched_def split: option.splits)
qed

lemma wake_up_ok:
  assumes ok: "\<And>d. d \<in> insert c (set (cpu_list s)) \<Longrightarrow> sched_ok d s \<and> can_wake d t s" and free: "\<not> task_lock s"
  shows "\<exists>d s'. wake_up_thread c t s = Ok s' \<and> woken d t s s' \<and> dispatched c t s d s'"
proof -
  have lt: "lock_tasks s = (Ok (local_flags s, managing s) :: (TaskError \<times> _, _) outcome)"
    using free by (simp add: lock_tasks_def managing_def irq_save_def save_and_disable_local_irq_def)
  have "task_lock (managing s)" by (simp add: managing_def)
  then obtain d s2 where s2: "add_thread_into_run_queue c t (managing s) = Ok (unlock_thread t s2)"
    "woken d t (managing s) (unlock_thread t s2)" "dispatched c t (managing s) d s2"
    using add_thread_into_run_queue_ok [of c "managing s" t] ok by auto
  have "wake_up_thread c t s = Ok (unlock_tasks (local_flags s) (unlock_thread t s2))"
    by (simp add: wake_up_thread_def lt s2(1))
  then show ?thesis using woken_managing [OF s2(2)] dispatched_managing [OF s2(3)] by blast
qed

section \<open>Properties\<close>

text \<open>
  Property C21. Waking up a sleeping thread succeeds when the queues of all processors are consistent. The
  thread becomes runnable on exactly one processor: the first one of the processor list that has fewer threads
  than the current one, or the current one when there is none or the thread is local. It is put into the list to
  run of that processor, behind the threads of its own and higher priorities. A processor other than the current
  one is sent a rescheduling interrupt exactly when the thread has a smaller priority number than the one running
  there; no other interrupt is sent. The other queues do not change, all queues are consistent, all locks are
  released and the flags register is restored.
\<close>

theorem wake_up_thread_correct:
  assumes "\<And>d. d \<in> insert c (set (cpu_list s)) \<Longrightarrow> sched_ok d s \<and> can_wake d t s" and "\<not> task_lock s"
  shows "\<exists>d s'. wake_up_thread c t s = Ok s' \<and>
     (case (if is_local_thread (threads s t) then None else find (\<lambda>e. load s e < load s c) (cpu_list s)) of
        None \<Rightarrow> d = c \<and> reschedule_ipis s' = reschedule_ipis s
      | Some e \<Rightarrow> d = e \<and> reschedule_ipis s' = reschedule_ipis s @ (if preempts t s e then [e] else [])) \<and>
     local_flags s' = local_flags s \<and> task_status (threads s' t) = Running \<and>
     flat (run_list (run_queues s' d)) = placed (prio_in s) t (flat (run_list (run_queues s d))) \<and>
     (\<forall>e \<in> insert c (set (cpu_list s)). sched_ok e s' \<and>
        set (members (run_queues s' e)) = (if e = d then insert t else id) (set (members (run_queues s e)))) \<and>
     (\<forall>e. e \<noteq> d \<longrightarrow> run_queues s' e = run_queues s e)"
proof -
  obtain d s' where s': "wake_up_thread c t s = Ok s'" "woken d t s s'" "dispatched c t s d s'"
    using wake_up_ok [OF assms] by blast
  have "sched_ok e s' \<and> set (members (run_queues s' e)) = (if e = d then insert t else id) (set (members (run_queues s e)))"
    if "e \<in> insert c (set (cpu_list s))" for e
    using woken_ok [OF _ _ s'(2)] woken_other [OF _ s'(2)] assms(1) [OF that] by (cases "e = d") auto
  moreover have "local_flags s' = local_flags s" "task_status (threads s' t) = Running"
    "flat (run_list (run_queues s' d)) = placed (prio_in s) t (flat (run_list (run_queues s d)))"
    "\<forall>e. e \<noteq> d \<longrightarrow> run_queues s' e = run_queues s e"
    using s'(2) unfolding woken_def lists_added_def in_place_def by auto
  ultimately show ?thesis
    using s'(1) s'(3) [unfolded dispatched_def other_cpu_def ipis_for_def] by (intro exI [of _ d] exI [of _ s']) blast
qed

text \<open>Two processors; the second one has fewer threads.\<close>

definition example_tasks :: "(nat, nat) task_manager" where
  "example_tasks =
     \<lparr>threads = threads example_state, processes = processes example_state,
      run_queues = (\<lambda>c. if c = 0 then run_queues example_state 0
        else \<lparr>queue_lock = False, run_list = [], expired_list = [], idle_thread = 8, running_thread = Some 8, run_list_pool = 512,
          should_recheck_priority = False, should_reschedule = False, number_of_threads = 1\<rparr>),
      local_flags = 0x200, active_memory = 0, task_lock = False, kernel_process = 0, kernel_idle_thread = 9,
      process_entry_pool = [], thread_entry_pool = [], no_memory = EntryPoolRunOut, p_list = [], next_process_id = 1,
      cpu_list = [0, 1], reschedule_ipis = []\<rparr>"

lemma example_tasks_ok: "d \<in> insert 0 (set (cpu_list example_tasks)) \<Longrightarrow> sched_ok d example_tasks \<and> can_wake d 4 example_tasks"
  by (auto simp: example_tasks_def sched_ok_def can_wake_def lists_wf_def Let_def example_simps)

theorem wake_up_thread_correct_witness:
  "\<exists>s'. wake_up_thread 0 4 example_tasks = Ok s' \<and> task_status (threads s' 4) = Running \<and> sched_ok 1 s' \<and>
     flat (run_list (run_queues s' 1)) = [4] \<and> reschedule_ipis s' = [1]"
proof -
  have h: "\<not> task_lock example_tasks" "1 \<in> insert 0 (set (cpu_list example_tasks))"
    "(if is_local_thread (threads example_tasks 4) then None
      else find (\<lambda>e. load example_tasks e < load example_tasks 0) (cpu_list example_tasks)) = Some 1"
    "preempts 4 example_tasks 1" "reschedule_ipis example_tasks = []" "run_list (run_queues example_tasks 1) = []"
    by (simp_all add: example_tasks_def load_def preempts_def is_local_thread_def example_simps)
  from wake_up_thread_correct [of 0 example_tasks 4, OF example_tasks_ok h(1)] show ?thesis
    unfolding h(3) option.case using h(2,4,5,6) by (force simp: placed_def simp del: One_nat_def)
qed

text \<open>
  Remark. \<open>delete_user_process\<close> never succeeds, whatever the state and however deep the tree of processes
  is: a process with threads makes it panic or block, since \<open>take_thread\<close> removes a thread it has locked,
  and without threads it blocks in \<open>get_memory_manager\<close>, which takes the lock of the process
  that is already held.
\<close>

theorem delete_user_process_never_succeeds: "delete_user_process free_memory k p s \<noteq> Ok s'"
  by (rule delete_user_process_fails)

lemma sleep_after_save:
  "sleep_current_thread clone_pages c (Some (fst (irq_save s))) st (snd (irq_save s)) = sleep_current_thread clone_pages c None st s"
  by (simp add: sleep_current_thread_def case_prod_beta)

text \<open>
  Property C22. Waiting is first in, first out: a thread that waits with interrupts enabled is appended to
  the list of sleepers, leaves the run queue and another thread runs; and \<open>wakeup_one\<close> takes the thread
  that has waited longest out of the list and makes it runnable on one processor.
\<close>

theorem wait_queue_fifo:
  fixes s :: "('c, 'f, 'z) scheduler_scheme"
  assumes "sched_ok c s" and "running_thread (run_queues s c) = Some r" and "r \<noteq> idle_thread (run_queues s c)"
    and "interrupts_enabled (local_flags s)" and "\<not> wait_lock w" and "r \<notin> set (wait_list w)" and "\<And>m. clone_pages m"
    and "\<And>d. d \<in> insert b (set (cpu_list u)) \<Longrightarrow> sched_ok d u \<and> can_wake d t u" and "\<not> task_lock u"
  shows "(\<exists>n s'. add_current_thread clone_pages c s w = Ok (Switch_to r n, s', w\<lparr>wait_list := wait_list w @ [r]\<rparr>) \<and>
            sched_ok c s' \<and> runs_next c s' n \<and> r \<notin> set (members (run_queues s' c))) \<and>
         (\<exists>d u'. wakeup_one b u (w\<lparr>wait_list := t # ts\<rparr>) = Ok (u', w\<lparr>wait_list := ts\<rparr>) \<and> woken d t u u')"
proof
  have unl: "\<not> thread_lock (threads s x)" for x using assms(1) unfolding sched_ok_def by blast
  have dis: "\<not> interrupts_enabled (local_flags (snd (irq_save s)))"
    by (simp add: irq_save_def save_and_disable_local_irq_def)
  have "wait_list w \<noteq> [] \<Longrightarrow> last (wait_list w) \<noteq> r" using assms(6) by auto
  then have enter: "WaitQueue_enter c s w = Ok (fst (irq_save s), snd (irq_save s), w\<lparr>wait_list := wait_list w @ [r]\<rparr>)"
    using assms(2,4,5) unl dis
    by (auto simp: WaitQueue_enter_def WaitQueue__add_thread_def get_running_thread_def case_prod_beta)
  have add: "add_current_thread clone_pages c s w =
      obind (sleep_current_thread clone_pages c None Interruptible s) (\<lambda>(sw, s). Ok (sw, s, w\<lparr>wait_list := wait_list w @ [r]\<rparr>))"
    unfolding add_current_thread_def enter by (simp add: sleep_after_save)
  have "\<exists>n s'. sleep_current_thread clone_pages c None Interruptible s = (Ok (Switch_to r n, s') :: (TaskError \<times> ('c, 'f, 'z) scheduler_scheme \<times> WaitQueue, _) outcome) \<and>
      switched None Interruptible c r (set (members (run_queues s c)) - {r}) s (Switch_to r n) s'"
    by (rule sleep_ok [OF assms(1-3) _ assms(7)]) simp
  then obtain n s' where "sleep_current_thread clone_pages c None Interruptible s = (Ok (Switch_to r n, s') :: (TaskError \<times> ('c, 'f, 'z) scheduler_scheme \<times> WaitQueue, _) outcome)"
    "switched None Interruptible c r (set (members (run_queues s c)) - {r}) s (Switch_to r n) s'" by blast
  then show "\<exists>n s'. add_current_thread clone_pages c s w = Ok (Switch_to r n, s', w\<lparr>wait_list := wait_list w @ [r]\<rparr>) \<and>
            sched_ok c s' \<and> runs_next c s' n \<and> r \<notin> set (members (run_queues s' c))"
    unfolding add by (intro exI [of _ n] exI [of _ s']) (simp add: switched_def)
  obtain d u' where "wake_up_thread b t u = Ok u'" "woken d t u u'" using wake_up_ok [OF assms(8,9)] by blast
  moreover have "\<not> thread_lock (threads u t)" using assms(8) [of b] unfolding sched_ok_def by blast
  ultimately show "\<exists>d u'. wakeup_one b u (w\<lparr>wait_list := t # ts\<rparr>) = Ok (u', w\<lparr>wait_list := ts\<rparr>) \<and> woken d t u u'"
    using assms(5) by (auto simp: wakeup_one_def wakeup_first_def Let_def)
qed

theorem wait_queue_fifo_witness:
  "(\<exists>n s'. add_current_thread (\<lambda>_. True) 0 example_state WaitQueue_new = Ok (Switch_to 1 n, s', WaitQueue_new\<lparr>wait_list := [1]\<rparr>)) \<and>
   (\<exists>d u'. wakeup_one 0 example_tasks (WaitQueue_new\<lparr>wait_list := [4, 5]\<rparr>) = Ok (u', WaitQueue_new\<lparr>wait_list := [5]\<rparr>))"
proof -
  have h: "running_thread (run_queues example_state 0) = Some 1" "(1 :: usize) \<noteq> idle_thread (run_queues example_state 0)"
    "interrupts_enabled (local_flags example_state)" "\<not> task_lock example_tasks"
    "\<not> wait_lock WaitQueue_new" "(1 :: usize) \<notin> set (wait_list WaitQueue_new)" "wait_list WaitQueue_new = []"
    by (simp_all add: example_simps example_tasks_def WaitQueue_new_def interrupts_enabled_def interrupt_flag_def)
  show ?thesis
    using wait_queue_fifo [where b = 0 and clone_pages = "\<lambda>_. True" and ts = "[5]", OF example_ok(1) h(1,2,3,5,6) _ example_tasks_ok h(4)]
    unfolding h(7) by auto
qed

end
