(* ===== verification/Work_Queue.thy ===== *)
theory Work_Queue
  imports Task_Manager
begin

text \<open>
  Deferred work, \<open>kernel/task_manager/work_queue.rs\<close>: interrupt handlers append work to a queue
  and wake the daemon thread that executes it. A function is its address. The state of the
  task manager is extended by one work queue; \<open>work_pool\<close> is the number of entries its slab
  allocator can still give. An iteration of a daemon thread is one operation; its value says
  what the thread does next.
\<close>

section \<open>State\<close>

record WorkList =
  worker_function :: usize
  work_data :: usize

definition WorkList_new :: "usize \<Rightarrow> usize \<Rightarrow> WorkList" where
  "WorkList_new f d = \<lparr>worker_function = f, work_data = d\<rparr>"

record WorkQueue =
  work_lock :: bool
  work_queue :: "WorkList list"
  work_pool :: nat
  daemon_thread :: usize

record ('c, 'f) worker = "('c, 'f) task_manager" +
  work :: WorkQueue

definition WorkQueue_DEFAULT_PRIORITY :: u8 where
  "WorkQueue_DEFAULT_PRIORITY = 10"

text \<open>\<open>pool\<close> is the number of entries after the pool was filled.\<close>

definition init_work_queue ::
  "(u64 list \<Rightarrow> 'c \<Rightarrow> 'c) \<Rightarrow> MemoryError + 'c \<Rightarrow> nat \<Rightarrow> usize \<Rightarrow> nat \<Rightarrow> ('c, 'f, 'z) worker_scheme \<Rightarrow>
    (TaskError, ('c, 'f, 'z) worker_scheme) outcome" where
  "init_work_queue set_arguments new_context pool address c s =
     (let s = s\<lparr>work := (work s)\<lparr>work_queue := [], work_pool := pool\<rparr>\<rparr>
      in obind (expect (create_kernel_thread_with_argument set_arguments new_context WorkQueue_DEFAULT_PRIORITY address c s))
           (\<lambda>(t, s). Ok (s\<lparr>work := (work s)\<lparr>daemon_thread := t\<rparr>\<rparr>)))"

definition init_cpu_work_queue ::
  "MemoryError + 'c \<Rightarrow> nat \<Rightarrow> ('c, 'f, 'z) worker_scheme \<Rightarrow> (TaskError, ('c, 'f, 'z) worker_scheme) outcome" where
  "init_cpu_work_queue new_context pool s =
     (let s = s\<lparr>work := (work s)\<lparr>work_queue := [], work_pool := pool\<rparr>\<rparr>
      in obind (expect (create_kernel_thread_for_init new_context WorkQueue_DEFAULT_PRIORITY FLAG_LOCAL_THREAD s))
           (\<lambda>(t, s). Ok (s\<lparr>work := (work s)\<lparr>daemon_thread := t\<rparr>\<rparr>)))"

section \<open>Adding work\<close>

text \<open>When the pool is empty the flags register is not restored.\<close>

definition add_work ::
  "nat \<Rightarrow> WorkList \<Rightarrow> ('c, 'f, 'z) worker_scheme \<Rightarrow>
    (TaskError \<times> ('c, 'f, 'z) worker_scheme, ('c, 'f, 'z) worker_scheme) outcome" where
  "add_work c w s =
     (let (irq, s) = irq_save s
      in if work_pool (work s) = 0 then Err (TaskMemoryError (no_memory s), s)
         else
           let s = s\<lparr>work := (work s)\<lparr>work_pool := work_pool (work s) - 1, work_queue := work_queue (work s) @ [w]\<rparr>\<rparr>;
               t = daemon_thread (work s)
           in obind (lock_thread t s) (\<lambda>s.
              if task_status (threads s t) \<noteq> Running then
                (case RunQueue_add_thread c t s of
                   Ok s \<Rightarrow> Ok (irq_restore irq (unlock_thread t s))
                 | Err (e, s) \<Rightarrow> Err (e, irq_restore irq (unlock_thread t s))
                 | Panic \<Rightarrow> Panic
                 | Diverge \<Rightarrow> Diverge)
              else Ok (irq_restore irq (unlock_thread t s))))"

section \<open>The daemon threads\<close>

datatype work_step = Execute WorkList | Sleeps switch

definition take_work :: "('c, 'f, 'z) worker_scheme \<Rightarrow> WorkList \<times> ('c, 'f, 'z) worker_scheme" where
  "take_work s =
     (hd (work_queue (work s)), s\<lparr>work := (work s)\<lparr>work_queue := tl (work_queue (work s)), work_pool := work_pool (work s) + 1\<rparr>\<rparr>)"

definition work_queue_local_thread ::
  "(usize \<Rightarrow> bool) \<Rightarrow> nat \<Rightarrow> ('c, 'f, 'z) worker_scheme \<Rightarrow> (TaskError, work_step \<times> ('c, 'f, 'z) worker_scheme) outcome" where
  "work_queue_local_thread clone_pages c s =
     (let (irq, s) = irq_save s
      in if work_queue (work s) = [] then
           obind (assert_that (\<not> thread_lock (threads s (daemon_thread (work s))))) (\<lambda>_.
           obind (sleep_current_thread clone_pages c (Some irq) Interruptible s) (\<lambda>(sw, s). Ok (Sleeps sw, s)))
         else case take_work s of (w, s) \<Rightarrow> Ok (Execute w, irq_restore irq s))"

text \<open>
  The global daemon in two parts: the inspection of the queue under its lock, which gives the
  work or says that there is none, and the sleep that follows when there is none.
\<close>

definition global_thread_check ::
  "('c, 'f, 'z) worker_scheme \<Rightarrow> (TaskError, WorkList option \<times> ('c, 'f, 'z) worker_scheme) outcome" where
  "global_thread_check s =
     (let (irq, s) = irq_save s
      in if work_lock (work s) then Diverge
         else if work_queue (work s) = [] then
           obind (assert_that (\<not> thread_lock (threads s (daemon_thread (work s))))) (\<lambda>_. Ok (None, irq_restore irq s))
         else case take_work s of (w, s) \<Rightarrow> Ok (Some w, irq_restore irq s))"

definition work_queue_global_thread ::
  "(usize \<Rightarrow> bool) \<Rightarrow> nat \<Rightarrow> ('c, 'f, 'z) worker_scheme \<Rightarrow> (TaskError, work_step \<times> ('c, 'f, 'z) worker_scheme) outcome" where
  "work_queue_global_thread clone_pages c s =
     obind (global_thread_check s) (\<lambda>(w, s).
     case w of
       Some w \<Rightarrow> Ok (Execute w, s)
     | None \<Rightarrow> obind (sleep_current_thread clone_pages c None Interruptible s) (\<lambda>(sw, s). Ok (Sleeps sw, s)))"

section \<open>Adding work succeeds\<close>

lemma more_worker:
  assumes "scheduler.more u = scheduler.more s"
  shows "work u = work s" "no_memory u = no_memory s" "task_lock u = task_lock s" "cpu_list u = cpu_list s"
    "worker.more u = worker.more s"
  using assms by (cases u; cases s; simp)+

text \<open>The daemon of a processor with a consistent queue is in the queue, or sleeps and can be woken.\<close>

definition daemon_ok :: "nat \<Rightarrow> ('c, 'f, 'z) worker_scheme \<Rightarrow> bool" where
  "daemon_ok c s \<longleftrightarrow>
     sched_ok c s \<and>
     (let t = daemon_thread (work s)
      in if task_status (threads s t) = Running then t \<in> set (members (run_queues s c)) else can_wake c t s)"

text \<open>What adding work must do.\<close>

definition work_added :: "nat \<Rightarrow> WorkList \<Rightarrow> ('c, 'f, 'z) worker_scheme \<Rightarrow> ('c, 'f, 'z) worker_scheme \<Rightarrow> bool" where
  "work_added c w s s' \<longleftrightarrow>
     daemon_ok c s' \<and> task_status (threads s' (daemon_thread (work s))) = Running \<and> local_flags s' = local_flags s \<and>
     running_thread (run_queues s' c) = running_thread (run_queues s c) \<and> worker.more s' = worker.more s \<and>
     work s' = (work s)\<lparr>work_pool := work_pool (work s) - 1, work_queue := work_queue (work s) @ [w]\<rparr>"

lemma work_views [simp]:
  "threads (s\<lparr>work := x\<rparr>) = threads s" "processes (s\<lparr>work := x\<rparr>) = processes s" "run_queues (s\<lparr>work := x\<rparr>) = run_queues s"
  "local_flags (s\<lparr>work := x\<rparr>) = local_flags s"
  by simp_all

lemma sched_ok_cong:
  assumes "threads s' = threads s" and "processes s' = processes s" and "run_queues s' = run_queues s"
  shows "sched_ok c s' = sched_ok c s" "can_wake c t s' = can_wake c t s"
proof -
  have v: "prio_in s' = prio_in s" "task_ids s' = task_ids s" using assms by (auto simp: prio_in_def task_ids_def pid_of_def)
  have "lists_wf c s' = lists_wf c s" by (rule lists_wf_eq [OF v]) (simp_all add: assms)
  then show "sched_ok c s' = sched_ok c s" by (simp add: sched_ok_def assms)
  show "can_wake c t s' = can_wake c t s" by (simp add: can_wake_def assms v)
qed

lemma irq_save_fst: "fst (irq_save s) = local_flags s"
  by (simp add: irq_save_def save_and_disable_local_irq_def)

lemma add_work_ok:
  assumes ok: "daemon_ok c s" and pool: "work_pool (work s) \<noteq> 0"
  shows "\<exists>s'. add_work c w s = Ok s' \<and> work_added c w s s'"
proof -
  let ?W = "(work s)\<lparr>work_pool := work_pool (work s) - 1, work_queue := work_queue (work s) @ [w]\<rparr>"
  let ?t = "daemon_thread (work s)" and ?s = "(snd (irq_save s))\<lparr>work := ?W\<rparr>"
  have so: "sched_ok c s" and unl: "\<not> thread_lock (threads s ?t)" using ok unfolding daemon_ok_def sched_ok_def by blast+
  have w0: "work (snd (irq_save s)) = work s" "worker.more (snd (irq_save s)) = worker.more s" by (rule more_worker, simp)+
  have f: "threads ?s = threads s" "processes ?s = processes s" "run_queues ?s = run_queues s" by simp_all
  have so1: "sched_ok c ?s" using so sched_ok_cong [OF f] by simp
  have start: "add_work c w s =
     (if task_status (threads s ?t) \<noteq> Running then
        (case RunQueue_add_thread c ?t (upd_thread ?t (thread_lock_update (\<lambda>_. True)) ?s) of
           Ok s' \<Rightarrow> Ok (irq_restore (local_flags s) (unlock_thread ?t s'))
         | Err (e, s') \<Rightarrow> Err (e, irq_restore (local_flags s) (unlock_thread ?t s'))
         | Panic \<Rightarrow> Panic | Diverge \<Rightarrow> Diverge)
      else Ok (irq_restore (local_flags s) (unlock_thread ?t (upd_thread ?t (thread_lock_update (\<lambda>_. True)) ?s))))"
    using pool unl by (simp add: add_work_def case_prod_beta irq_save_fst w0 Let_def cong del: outcome.case_cong_weak)
      (auto split: outcome.split)
  show ?thesis
  proof (cases "task_status (threads s ?t) = Running")
    case True
    let ?s' = "irq_restore (local_flags s) (unlock_thread ?t (upd_thread ?t (thread_lock_update (\<lambda>_. True)) ?s))"
    have g: "threads ?s' = threads s" "processes ?s' = processes s" "run_queues ?s' = run_queues s"
      using unl by (simp_all add: irq_restore_def unlock_thread_def drop_eq thread_lock_same fun_upd_idem)
    have "scheduler.more ?s' = scheduler.more ?s" by (simp add: irq_restore_def unlock_thread_def)
    then have "work ?s' = ?W" "worker.more ?s' = worker.more s" using w0(2) more_worker [of ?s' ?s] by simp_all
    then have "work_added c w s ?s'" using ok True sched_ok_cong [OF g] g
      by (simp add: work_added_def daemon_ok_def irq_restore_def restore_local_irq_def)
    then show ?thesis using start True by simp
  next
    case False
    then have cw: "can_wake c ?t ?s" using ok sched_ok_cong(2) [OF f] by (simp add: daemon_ok_def Let_def)
    obtain r where r: "running_thread (run_queues ?s c) = Some r" using sched_ok_running [OF so1] by blast
    obtain s2 where s2: "RunQueue_add_thread c ?t (upd_thread ?t (thread_lock_update (\<lambda>_. True)) ?s) = Ok s2"
      "woken c ?t ?s (unlock_thread ?t s2)" "scheduler.more s2 = scheduler.more ?s" using wake_ok [OF so1 cw r] by blast
    let ?s' = "irq_restore (local_flags s) (unlock_thread ?t s2)"
    have "sched_ok c (unlock_thread ?t s2) \<and> ?t \<in> set (members (run_queues (unlock_thread ?t s2) c))"
      using woken_ok [OF so1 cw s2(2)] by simp
    moreover have "threads ?s' = threads (unlock_thread ?t s2)" "processes ?s' = processes (unlock_thread ?t s2)"
      "run_queues ?s' = run_queues (unlock_thread ?t s2)" by (simp_all add: irq_restore_def)
    moreover have "task_status (threads (unlock_thread ?t s2) ?t) = Running"
      "running_thread (run_queues (unlock_thread ?t s2) c) = running_thread (run_queues s c)"
      using s2(2) unfolding woken_def by auto
    moreover have "scheduler.more ?s' = scheduler.more ?s" using s2(3) by (simp add: irq_restore_def unlock_thread_def)
    then have "work ?s' = ?W" "worker.more ?s' = worker.more s" using w0(2) more_worker [of ?s' ?s] by simp_all
    ultimately have "work_added c w s ?s'" using sched_ok_cong(1) [of ?s' "unlock_thread ?t s2" c]
      by (simp add: work_added_def daemon_ok_def irq_restore_def restore_local_irq_def)
    then show ?thesis using start False s2(1) by simp
  qed
qed

section \<open>Work is executed in order\<close>

fun add_works ::
  "nat \<Rightarrow> WorkList list \<Rightarrow> ('c, 'f, 'z) worker_scheme \<Rightarrow>
    (TaskError \<times> ('c, 'f, 'z) worker_scheme, ('c, 'f, 'z) worker_scheme) outcome" where
  "add_works c [] s = Ok s"
| "add_works c (w # ws) s = obind (add_work c w s) (add_works c ws)"

text \<open>The work that \<open>k\<close> iterations of the local daemon execute.\<close>

fun execute_works ::
  "(usize \<Rightarrow> bool) \<Rightarrow> nat \<Rightarrow> nat \<Rightarrow> ('c, 'f, 'z) worker_scheme \<Rightarrow> (TaskError, work_step list \<times> ('c, 'f, 'z) worker_scheme) outcome" where
  "execute_works clone_pages c 0 s = Ok ([], s)"
| "execute_works clone_pages c (Suc k) s =
     obind (work_queue_local_thread clone_pages c s) (\<lambda>(w, s).
     obind (execute_works clone_pages c k s) (\<lambda>(ws, s). Ok (w # ws, s)))"

lemma add_works_ok:
  assumes "daemon_ok c s" and "length ws \<le> work_pool (work s)"
  shows "\<exists>s'. add_works c ws s = Ok s' \<and> daemon_ok c s' \<and> work_queue (work s') = work_queue (work s) @ ws \<and>
     (ws \<noteq> [] \<longrightarrow> task_status (threads s' (daemon_thread (work s'))) = Running) \<and> daemon_thread (work s') = daemon_thread (work s)"
  using assms
proof (induction ws arbitrary: s)
  case (Cons w ws)
  have "work_pool (work s) \<noteq> 0" using Cons.prems(2) by auto
  then obtain s1 where s1: "add_work c w s = Ok s1" "work_added c w s s1" using add_work_ok [OF Cons.prems(1)] by blast
  have n: "daemon_ok c s1" "task_status (threads s1 (daemon_thread (work s))) = Running"
    "work s1 = (work s)\<lparr>work_pool := work_pool (work s) - 1, work_queue := work_queue (work s) @ [w]\<rparr>"
    using s1(2) unfolding work_added_def by simp_all
  have "length ws \<le> work_pool (work s1)" using Cons.prems(2) n(3) by simp
  then obtain s' where s': "add_works c ws s1 = Ok s'" "daemon_ok c s'" "work_queue (work s') = work_queue (work s1) @ ws"
    "ws \<noteq> [] \<longrightarrow> task_status (threads s' (daemon_thread (work s'))) = Running" "daemon_thread (work s') = daemon_thread (work s1)"
    using Cons.IH [OF n(1)] by blast
  have "task_status (threads s' (daemon_thread (work s'))) = Running"
  proof (cases "ws = []")
    case True
    then have "s' = s1" using s'(1) by simp
    then show ?thesis using n(2,3) by simp
  qed (use s'(4) in blast)
  then show ?case using s1(1) s'(1-3,5) n(3) by simp
qed simp

lemma execute_works_ok:
  "length (work_queue (work s)) = k \<Longrightarrow>
     \<exists>s'. execute_works clone_pages c k s = Ok (map Execute (work_queue (work s)), s') \<and> work_queue (work s') = []"
proof (induction k arbitrary: s)
  case (Suc k)
  then obtain w ws where q: "work_queue (work s) = w # ws" by (cases "work_queue (work s)") auto
  let ?s = "irq_restore (local_flags s) ((snd (irq_save s))\<lparr>work := (work s)\<lparr>work_queue := ws, work_pool := work_pool (work s) + 1\<rparr>\<rparr>)"
  have w0: "work (snd (irq_save s)) = work s" by (rule more_worker) simp
  have step: "work_queue_local_thread clone_pages c s = Ok (Execute w, ?s)"
    by (simp add: work_queue_local_thread_def case_prod_beta w0 q take_work_def irq_save_fst)
  have "work ?s = (work s)\<lparr>work_queue := ws, work_pool := work_pool (work s) + 1\<rparr>" by (simp add: irq_restore_def)
  then show ?case using step Suc.IH [of ?s] Suc.prems q by auto
qed simp

section \<open>Properties\<close>

text \<open>
  Property C23. Deferred work is executed in the order in which it was added: with entries left in the pool, adding
  work to the queue of a processor always succeeds and leaves the daemon runnable, and the
  iterations of the daemon then execute what was in the queue before and the new work in order.
\<close>

theorem work_executed_in_order:
  assumes "daemon_ok c s" and "length ws \<le> work_pool (work s)" and "ws \<noteq> []"
  shows "\<exists>s' s''. add_works c ws s = Ok s' \<and> daemon_ok c s' \<and> task_status (threads s' (daemon_thread (work s))) = Running \<and>
     execute_works clone_pages c (length (work_queue (work s)) + length ws) s' = Ok (map Execute (work_queue (work s) @ ws), s'') \<and>
     work_queue (work s'') = []"
proof -
  obtain s' where s': "add_works c ws s = Ok s'" "daemon_ok c s'" "work_queue (work s') = work_queue (work s) @ ws"
    "task_status (threads s' (daemon_thread (work s))) = Running" using add_works_ok [OF assms(1,2)] assms(3) by auto
  then show ?thesis using execute_works_ok [of s'] by auto
qed

definition example_worker :: "(nat, nat) worker" where
  "example_worker =
     \<lparr>threads = (threads example_state)(4 := (example_thread 4 90)\<lparr>task_status := Interruptible\<rparr>), processes = processes example_state,
      run_queues = run_queues example_state, local_flags = 0x200, active_memory = 0, task_lock = False, kernel_process = 0,
      kernel_idle_thread = 9, process_entry_pool = [], thread_entry_pool = [], no_memory = EntryPoolRunOut, p_list = [],
      next_process_id = 1, cpu_list = [0], reschedule_ipis = [],
      work = \<lparr>work_lock = False, work_queue = [WorkList_new 7 8], work_pool = 10, daemon_thread = 4\<rparr>\<rparr>"

lemma example_worker_ok: "daemon_ok 0 example_worker"
  by (simp add: daemon_ok_def example_worker_def sched_ok_def can_wake_def lists_wf_def Let_def example_simps)

theorem work_executed_in_order_witness:
  "\<exists>s' s''. add_works 0 [WorkList_new 1 2, WorkList_new 3 4] example_worker = Ok s' \<and>
     execute_works (\<lambda>_. True) 0 3 s' = Ok (map Execute [WorkList_new 7 8, WorkList_new 1 2, WorkList_new 3 4], s'')"
  using work_executed_in_order [OF example_worker_ok, of "[WorkList_new 1 2, WorkList_new 3 4]" "\<lambda>_. True"]
  by (auto simp: example_worker_def numeral_3_eq_3)

lemma irq_save_restore: "irq_restore (local_flags s) (snd (irq_save s)) = s"
  by (cases s) (simp add: irq_restore_def irq_save_def save_and_disable_local_irq_def restore_local_irq_def)

text \<open>
  Remark. The global daemon can lose a wake-up. It releases the lock of its queue before it goes to
  sleep; work that is added in between, by an interrupt handler or another processor, finds
  the daemon still marked as running and does not wake it. The daemon then sleeps, outside
  the run queue, with work in its queue.
\<close>

theorem global_worker_loses_wakeup:
  assumes "daemon_ok c s" and "running_thread (run_queues s c) = Some (daemon_thread (work s))"
    and "work_queue (work s) = []" and "\<not> work_lock (work s)"
    and "work_pool (work s) \<noteq> 0" and "\<And>m. clone_pages m"
  shows "\<exists>s1 s2 n s3. global_thread_check s = Ok (None, s1) \<and> add_work c w s1 = Ok s2 \<and>
     sleep_current_thread clone_pages c None Interruptible s2 = (Ok (Switch_to (daemon_thread (work s)) n, s3) :: (TaskError, _) outcome) \<and>
     work_queue (work s3) = [w] \<and> daemon_thread (work s3) = daemon_thread (work s) \<and>
     task_status (threads s3 (daemon_thread (work s))) = Interruptible \<and>
     daemon_thread (work s) \<notin> set (members (run_queues s3 c))"
proof -
  let ?t = "daemon_thread (work s)"
  have so: "sched_ok c s" using assms(1) by (simp add: daemon_ok_def)
  have w0: "work (snd (irq_save s)) = work s" by (rule more_worker) simp
  have "\<not> thread_lock (threads s ?t)" using so unfolding sched_ok_def by blast
  then have check: "global_thread_check s = Ok (None, s)"
    using assms(3,4) by (simp add: global_thread_check_def case_prod_beta w0 irq_save_fst irq_save_restore)
  obtain s2 where s2: "add_work c w s = Ok s2" "work_added c w s s2" using add_work_ok [OF assms(1,5)] by blast
  have W: "sched_ok c s2" "running_thread (run_queues s2 c) = Some ?t"
    "work s2 = (work s)\<lparr>work_pool := work_pool (work s) - 1, work_queue := work_queue (work s) @ [w]\<rparr>"
    using s2(2) assms(2) by (simp_all add: work_added_def daemon_ok_def)
  have idle: "?t \<noteq> idle_thread (run_queues s2 c)"
  proof -
    have "task_status (threads s2 ?t) = Running" "daemon_ok c s2" using s2(2) by (simp_all add: work_added_def)
    then have "?t \<in> set (members (run_queues s2 c))" using W(3) by (simp add: daemon_ok_def Let_def)
    moreover have "lists_wf c s2" using W(1) unfolding sched_ok_def by blast
    ultimately show ?thesis using lists_wf_members(4) by metis
  qed
  have "\<exists>n s3. sleep_current_thread clone_pages c None Interruptible s2 = (Ok (Switch_to ?t n, s3) :: (TaskError, _) outcome) \<and>
      switched None Interruptible c ?t (set (members (run_queues s2 c)) - {?t}) s2 (Switch_to ?t n) s3"
    by (rule sleep_ok [OF W(1,2) idle _ assms(6)]) simp
  then obtain n s3 where s3: "sleep_current_thread clone_pages c None Interruptible s2 = (Ok (Switch_to ?t n, s3) :: (TaskError, _) outcome)"
    "switched None Interruptible c ?t (set (members (run_queues s2 c)) - {?t}) s2 (Switch_to ?t n) s3" by blast
  have "scheduler.more s3 = scheduler.more s2" "task_status (threads s3 ?t) = Interruptible" "?t \<notin> set (members (run_queues s3 c))"
    using s3(2) by (simp_all add: switched_def)
  moreover from this have "work s3 = work s2" using more_worker(1) by blast
  ultimately show ?thesis using check s2(1) s3(1) W(3) assms(3) by (intro exI [of _ s] exI [of _ s2] exI [of _ n] exI [of _ s3]) simp
qed

definition example_daemon :: "(nat, nat) worker" where
  "example_daemon = example_worker\<lparr>work := \<lparr>work_lock = False, work_queue = [], work_pool = 10, daemon_thread = 1\<rparr>\<rparr>"

theorem global_worker_loses_wakeup_witness:
  "\<exists>s2 n s3. global_thread_check example_daemon = Ok (None, s2) \<and> add_work 0 (WorkList_new 1 2) s2 = Ok s3 \<and>
     (\<exists>s4. sleep_current_thread (\<lambda>_. True) 0 None Interruptible s3 = (Ok (Switch_to 1 n, s4) :: (TaskError, _) outcome) \<and>
        work_queue (work s4) = [WorkList_new 1 2] \<and> task_status (threads s4 1) = Interruptible)"
proof -
  have h: "daemon_ok 0 example_daemon" "running_thread (run_queues example_daemon 0) = Some (daemon_thread (work example_daemon))"
    "work_queue (work example_daemon) = []"
    "\<not> work_lock (work example_daemon)" "work_pool (work example_daemon) \<noteq> 0" "daemon_thread (work example_daemon) = 1"
    by (simp_all add: example_daemon_def daemon_ok_def example_worker_def sched_ok_def can_wake_def lists_wf_def Let_def example_simps)
  show ?thesis
    using global_worker_loses_wakeup [where clone_pages = "\<lambda>_. True" and w = "WorkList_new 1 2", OF h(1-5)] unfolding h(6) by blast
qed

end
