(* ===== verification/Timer_Manager.thy ===== *)
theory Timer_Manager
  imports Work_Queue
begin

text \<open>
  Ticks and timers, \<open>kernel/timer_manager.rs\<close>. The global manager counts ticks of ten
  milliseconds. The local manager of a processor keeps its timers in a list ordered by expiry
  and hands expired ones to the work queue. Timer entries live in a store and are named by
  their addresses; \<open>timer_list_pool\<close> holds the addresses its slab allocator gives next. Waiting loops read
  the counter again and again: the readings are a function of their number.
\<close>

section \<open>Ticks\<close>

definition TICK_INITIAL_VALUE :: u64 where
  "TICK_INITIAL_VALUE = 0"

definition overflowing_add :: "u64 \<Rightarrow> u64 \<Rightarrow> u64 \<times> bool" where
  "overflowing_add a b = (a + b, a + b < a)"

definition get_end_tick_ms :: "u64 \<Rightarrow> u64 \<Rightarrow> u64 \<times> bool" where
  "get_end_tick_ms current ms = overflowing_add current (ms div TIMER_INTERVAL_MS)"

definition calculate_timeout :: "u64 \<Rightarrow> u64 \<Rightarrow> u64 \<times> bool" where
  "calculate_timeout current ms = get_end_tick_ms current ms"

definition count_up_tick :: "u64 \<Rightarrow> u64" where
  "count_up_tick t = t + 1"

definition global_timer_handler :: "u64 \<Rightarrow> u64" where
  "global_timer_handler t = count_up_tick t"

definition get_difference_ms :: "u64 \<Rightarrow> u64 \<Rightarrow> u64" where
  "get_difference_ms current_tick tick' =
     (let difference = (if current_tick < tick' then - 1 - tick' + current_tick else current_tick - tick')
      in difference * TIMER_INTERVAL_MS)"

text \<open>\<open>while P (get_current_tick()) {}\<close> from the reading \<open>i\<close> on; the result is the number of the reading that ends the loop.\<close>

fun spin_while :: "(u64 \<Rightarrow> bool) \<Rightarrow> (nat \<Rightarrow> u64) \<Rightarrow> nat \<Rightarrow> nat \<Rightarrow> nat option" where
  "spin_while P ticks 0 i = None"
| "spin_while P ticks (Suc k) i = (if P (ticks i) then spin_while P ticks k (Suc i) else Some i)"

text \<open>The two loops of \<open>busy_wait_ms\<close> and \<open>busy_wait_us\<close>; the first reading is the start.\<close>

definition busy_wait_from :: "nat \<Rightarrow> (nat \<Rightarrow> u64) \<Rightarrow> u64 \<Rightarrow> nat option" where
  "busy_wait_from fuel ticks ms =
     (let start_tick = ticks 0; (end_tick, overflowed) = get_end_tick_ms start_tick ms
      in case (if overflowed then spin_while (\<lambda>t. start_tick \<le> t) ticks fuel 1 else Some 0) of
           None \<Rightarrow> None
         | Some i \<Rightarrow> spin_while (\<lambda>t. t \<le> end_tick) ticks fuel (Suc i))"

text \<open>\<open>Some False\<close>: interrupts are disabled. \<open>None\<close>: the fuel is not enough.\<close>

definition busy_wait_ms :: "nat \<Rightarrow> bool \<Rightarrow> (nat \<Rightarrow> u64) \<Rightarrow> u64 \<Rightarrow> bool option" where
  "busy_wait_ms fuel is_interrupt_enabled ticks ms =
     (if \<not> is_interrupt_enabled then Some False else map_option (\<lambda>_. True) (busy_wait_from fuel ticks ms))"

definition busy_wait_us :: "nat \<Rightarrow> bool \<Rightarrow> (nat \<Rightarrow> u64) \<Rightarrow> u64 \<Rightarrow> bool option" where
  "busy_wait_us fuel is_interrupt_enabled ticks us =
     (if \<not> is_interrupt_enabled then Some False
      else
        let ms = (if us div 1000 < TIMER_INTERVAL_MS then TIMER_INTERVAL_MS else us div 1000)
        in map_option (\<lambda>_. True) (busy_wait_from fuel ticks ms))"

section \<open>Source timers\<close>

text \<open>The methods of the trait \<open>Timer\<close> that a device provides.\<close>

record Timer =
  get_frequency_hz :: usize
  is_count_up_timer :: bool
  get_ending_count_value :: "usize \<Rightarrow> usize \<Rightarrow> usize"
  get_max_counter_value :: usize

definition wait_until :: "nat \<Rightarrow> Timer \<Rightarrow> (nat \<Rightarrow> usize) \<Rightarrow> usize \<Rightarrow> usize \<Rightarrow> nat option" where
  "wait_until fuel t counts start_counter_value end_counter_value =
     (if is_count_up_timer t then
        (case (if start_counter_value > end_counter_value then spin_while (\<lambda>c. start_counter_value \<le> c) counts fuel 1 else Some 0) of
           None \<Rightarrow> None
         | Some i \<Rightarrow> spin_while (\<lambda>c. c < end_counter_value) counts fuel (Suc i))
      else
        (case (if start_counter_value < end_counter_value then spin_while (\<lambda>c. c \<le> start_counter_value) counts fuel 1 else Some 0) of
           None \<Rightarrow> None
         | Some i \<Rightarrow> spin_while (\<lambda>c. end_counter_value < c) counts fuel (Suc i)))"

definition Timer_busy_wait_ms :: "nat \<Rightarrow> Timer \<Rightarrow> (nat \<Rightarrow> usize) \<Rightarrow> usize \<Rightarrow> ('e, nat option) outcome" where
  "Timer_busy_wait_ms fuel t counts ms =
     (let start = counts 0; difference = get_frequency_hz t * ms div 1000
      in if difference > get_max_counter_value t then Panic
         else Ok (wait_until fuel t counts start (get_ending_count_value t start difference)))"

definition Timer_busy_wait_us :: "nat \<Rightarrow> Timer \<Rightarrow> (nat \<Rightarrow> usize) \<Rightarrow> usize \<Rightarrow> ('e, nat option) outcome" where
  "Timer_busy_wait_us fuel t counts us =
     (let start = counts 0; difference = get_frequency_hz t * us div 1000000
      in if difference > get_max_counter_value t then Panic
         else if difference = 0 then Panic
         else Ok (wait_until fuel t counts start (get_ending_count_value t start difference)))"

text \<open>\<open>1u64.pow(9)\<close> is one. A division by a frequency of zero cannot happen: the branch has a frequency above ten thousand.\<close>

definition get_monotonic_clock_ns :: "(Timer \<times> usize) option \<Rightarrow> u64 \<Rightarrow> u64" where
  "get_monotonic_clock_ns source_timer current_tick =
     (let nano_second_freq = 1 ^ 9; fallback = current_tick * (nano_second_freq div (TIMER_INTERVAL_MS * 1000))
      in case source_timer of
           Some (t, count) \<Rightarrow>
             if is_count_up_timer t then
               let freq = get_frequency_hz t
               in if freq > nano_second_freq then count
                  else if freq > TIMER_INTERVAL_MS * 1000 then count * (nano_second_freq div freq)
                  else fallback
             else fallback
         | None \<Rightarrow> fallback)"

section \<open>Timers of a processor\<close>

record TimerList =
  timeout :: u64
  timer_function :: usize
  timer_data :: usize
  timer_flags :: u8

definition TIMER_LIST_FLAGS_WAITING :: u8 where "TIMER_LIST_FLAGS_WAITING = 0"
definition TIMER_LIST_FLAGS_EXPIRED :: u8 where "TIMER_LIST_FLAGS_EXPIRED = 1"
definition TIMER_LIST_FLAGS_RUNNING :: u8 where "TIMER_LIST_FLAGS_RUNNING = 2"
definition TIMER_LIST_FLAGS_FINISHED :: u8 where "TIMER_LIST_FLAGS_FINISHED = 4"
definition TIMER_LIST_FLAGS_CANCELED :: u8 where "TIMER_LIST_FLAGS_CANCELED = 8"

record ('c, 'f) timers = "('c, 'f) worker" +
  global_tick :: u64
  timer_entries :: "usize \<Rightarrow> TimerList"
  timer_list :: "usize list"
  timer_list_pool :: "usize list"
  last_processed_timeout :: u64

text \<open>The place of a new entry in the list.\<close>

fun insert_timer :: "(usize \<Rightarrow> TimerList) \<Rightarrow> u64 \<Rightarrow> bool \<Rightarrow> u64 \<Rightarrow> usize \<Rightarrow> usize list \<Rightarrow> usize list" where
  "insert_timer es current is_overflowed t e [] = [e]"
| "insert_timer es current is_overflowed t e (x # xs) =
     (if \<not> is_overflowed \<and> current \<le> timeout (es x) \<and> t < timeout (es x) then e # x # xs
      else if is_overflowed \<and> timeout (es x) \<le> current \<and> t < timeout (es x) then e # x # xs
      else x # insert_timer es current is_overflowed t e xs)"

definition add_timer ::
  "u64 \<Rightarrow> usize \<Rightarrow> usize \<Rightarrow> ('c, 'f, 'z) timers_scheme \<Rightarrow> ('c, 'f, 'z) timers_scheme option" where
  "add_timer wait_ms fn d s =
     (case timer_list_pool s of
        [] \<Rightarrow> None
      | e # pool \<Rightarrow>
          let current = global_tick s; (t, is_overflowed) = calculate_timeout current wait_ms
          in Some (s\<lparr>timer_list_pool := pool,
               timer_entries := (timer_entries s)(e := \<lparr>timeout = t, timer_function = fn, timer_data = d, timer_flags = TIMER_LIST_FLAGS_WAITING\<rparr>),
               timer_list := insert_timer (timer_entries s) current is_overflowed t e (timer_list s)\<rparr>))"

definition is_expired :: "u64 \<Rightarrow> u64 \<Rightarrow> u64 \<Rightarrow> bool" where
  "is_expired last_processed current_tick t \<longleftrightarrow>
     (let is_overflowed = current_tick < last_processed
      in \<not> is_overflowed \<and> last_processed < t \<and> t \<le> current_tick \<or> is_overflowed \<and> (last_processed < t \<or> t \<le> current_tick))"

text \<open>
  The loop of \<open>local_timer_handler\<close>: an expired timer goes to the work queue, a canceled one is
  freed, one in any other state is dropped, and the first one that is not expired ends the
  loop. When the work queue fails the timer stays at the head, marked as expired.
\<close>

definition set_timer_flags :: "usize \<Rightarrow> u8 \<Rightarrow> ('c, 'f, 'z) timers_scheme \<Rightarrow> ('c, 'f, 'z) timers_scheme" where
  "set_timer_flags e f s = s\<lparr>timer_entries := (timer_entries s)(e := (timer_entries s e)\<lparr>timer_flags := f\<rparr>)\<rparr>"

fun local_timer_loop ::
  "usize \<Rightarrow> nat \<Rightarrow> u64 \<Rightarrow> usize list \<Rightarrow> ('c, 'f, 'z) timers_scheme \<Rightarrow> (TaskError, ('c, 'f, 'z) timers_scheme) outcome" where
  "local_timer_loop worker c current_tick [] s = Ok (s\<lparr>timer_list := []\<rparr>)"
| "local_timer_loop worker c current_tick (e # es) s =
     (if is_expired (last_processed_timeout s) current_tick (timeout (timer_entries s e)) then
        let f = timer_flags (timer_entries s e)
        in if f \<noteq> TIMER_LIST_FLAGS_WAITING then
             local_timer_loop worker c current_tick es
               (if f = TIMER_LIST_FLAGS_CANCELED then s\<lparr>timer_list_pool := e # timer_list_pool s\<rparr> else s)
           else
             case add_work c (WorkList_new worker e) (set_timer_flags e TIMER_LIST_FLAGS_EXPIRED s) of
               Ok s \<Rightarrow> local_timer_loop worker c current_tick es s
             | Err (_, s) \<Rightarrow> Ok (s\<lparr>timer_list := e # es\<rparr>)
             | Panic \<Rightarrow> Panic
             | Diverge \<Rightarrow> Diverge
      else Ok (s\<lparr>timer_list := e # es, last_processed_timeout := current_tick\<rparr>))"

definition local_timer_handler ::
  "usize \<Rightarrow> nat \<Rightarrow> ('c, 'f, 'z) timers_scheme \<Rightarrow> (TaskError, ('c, 'f, 'z) timers_scheme) outcome" where
  "local_timer_handler worker c s = obind (local_timer_loop worker c (global_tick s) (timer_list s) s) (tick c)"

text \<open>The work of an expired timer: what is called, if anything, and the state after it.\<close>

definition expired_timer_list_worker ::
  "usize \<Rightarrow> ('c, 'f, 'z) timers_scheme \<Rightarrow> (usize \<times> usize) option \<times> ('c, 'f, 'z) timers_scheme" where
  "expired_timer_list_worker e s =
     (if timer_flags (timer_entries s e) \<noteq> TIMER_LIST_FLAGS_EXPIRED then (None, s\<lparr>timer_list_pool := e # timer_list_pool s\<rparr>)
      else
        let s = set_timer_flags e TIMER_LIST_FLAGS_RUNNING s;
            call = (timer_function (timer_entries s e), timer_data (timer_entries s e));
            s = set_timer_flags e TIMER_LIST_FLAGS_FINISHED s
        in (Some call, s\<lparr>timer_list_pool := e # timer_list_pool s\<rparr>))"

section \<open>One tick of a processor\<close>

lemma more_timers:
  assumes "worker.more u = worker.more s"
  shows "global_tick u = global_tick s" "timer_entries u = timer_entries s" "timer_list u = timer_list s"
    "timer_list_pool u = timer_list_pool s" "last_processed_timeout u = last_processed_timeout s"
  using assms by (cases u; cases s; simp)+

lemma timer_views [simp]:
  "threads (s\<lparr>timer_list := x\<rparr>) = threads s" "processes (s\<lparr>timer_list := x\<rparr>) = processes s" "run_queues (s\<lparr>timer_list := x\<rparr>) = run_queues s"
  "threads (s\<lparr>last_processed_timeout := y\<rparr>) = threads s" "processes (s\<lparr>last_processed_timeout := y\<rparr>) = processes s"
  "run_queues (s\<lparr>last_processed_timeout := y\<rparr>) = run_queues s"
  "work (s\<lparr>timer_list := x\<rparr>) = work s" "work (s\<lparr>last_processed_timeout := y\<rparr>) = work s"
  by simp_all

lemma set_timer_flags_simps [simp]:
  "threads (set_timer_flags e f s) = threads s" "processes (set_timer_flags e f s) = processes s"
  "run_queues (set_timer_flags e f s) = run_queues s" "work (set_timer_flags e f s) = work s"
  "local_flags (set_timer_flags e f s) = local_flags s" "global_tick (set_timer_flags e f s) = global_tick s"
  "timer_list (set_timer_flags e f s) = timer_list s" "last_processed_timeout (set_timer_flags e f s) = last_processed_timeout s"
  "timer_entries (set_timer_flags e f s) = (timer_entries s)(e := (timer_entries s e)\<lparr>timer_flags := f\<rparr>)"
  by (simp_all add: set_timer_flags_def)

lemma daemon_ok_cong:
  assumes "threads s' = threads s" and "processes s' = processes s" and "run_queues s' = run_queues s"
    and "daemon_thread (work s') = daemon_thread (work s)"
  shows "daemon_ok c s' = daemon_ok c s"
  using sched_ok_cong [OF assms(1-3)] by (simp add: daemon_ok_def assms)

text \<open>The tick of the run queue succeeds and changes the time slice of the running thread only.\<close>

lemma tick_ok:
  assumes ok: "sched_ok c s"
  shows "\<exists>s'. tick c s = (Ok s' :: ('e, _) outcome) \<and> sched_ok c s' \<and> scheduler.more s' = scheduler.more s"
proof -
  have q: "\<not> queue_lock (run_queues s c)" using ok unfolding sched_ok_def by blast
  obtain r where r: "running_thread (run_queues s c) = Some r" using sched_ok_running [OF ok] by blast
  have fl: "\<not> interrupts_enabled (local_flags (snd (irq_save s)))" by (simp add: irq_save_def save_and_disable_local_irq_def)
  have g: "get_running_thread c (upd_queue c (queue_lock_update (\<lambda>_. True)) (snd (irq_save s))) = (Ok r :: ('e, _) outcome)"
    using r fl by (simp add: get_running_thread_def)
  let ?s1 = "upd_queue c (queue_lock_update (\<lambda>_. True)) (snd (irq_save s))"
  let ?s2 = "if time_slice (threads s r) < 1
     then upd_queue c (should_reschedule_update (\<lambda>_. True)) (upd_thread r (time_slice_update (\<lambda>_. 0)) ?s1)
     else upd_thread r (time_slice_update (\<lambda>n. n - 1)) ?s1"
  let ?s' = "irq_restore (fst (irq_save s)) (unlock_queue c ?s2)"
  have t: "tick c s = (Ok ?s' :: ('e, _) outcome)" using q by (simp add: tick_def case_prod_beta g Let_def)
  have th: "thread_lock (threads ?s' x) = thread_lock (threads s x)" "task_status (threads ?s' x) = task_status (threads s x)"
    "scheduling_class (threads ?s' x) = scheduling_class (threads s x)" for x
    by (simp_all add: irq_restore_def unlock_queue_def)
  have v: "prio_in ?s' = prio_in s" "task_ids ?s' = task_ids s"
    by (auto simp: irq_restore_def unlock_queue_def prio_in_def task_ids_def pid_of_def fun_eq_iff)
  have f: "run_list (run_queues ?s' c) = run_list (run_queues s c)" "expired_list (run_queues ?s' c) = expired_list (run_queues s c)"
    "idle_thread (run_queues ?s' c) = idle_thread (run_queues s c)" "run_list_pool (run_queues ?s' c) = run_list_pool (run_queues s c)"
    "number_of_threads (run_queues ?s' c) = number_of_threads (run_queues s c)" "running_thread (run_queues ?s' c) = running_thread (run_queues s c)"
    "\<not> queue_lock (run_queues ?s' c)" "processes ?s' = processes s"
    by (simp_all add: irq_restore_def unlock_queue_def drop_eq)
  have "lists_wf c ?s' = lists_wf c s" by (rule lists_wf_eq [OF v th(3) f(1-5)])
  then have "sched_ok c ?s'" using ok f(7) unfolding sched_ok_def th f(1-3,6,8) members_def by simp
  moreover have "scheduler.more ?s' = scheduler.more s" by (simp add: irq_restore_def unlock_queue_def)
  ultimately show ?thesis using t by blast
qed

definition timers_ok :: "nat \<Rightarrow> usize list \<Rightarrow> ('c, 'f, 'z) timers_scheme \<Rightarrow> bool" where
  "timers_ok c es s \<longleftrightarrow>
     daemon_ok c s \<and> last_processed_timeout s \<le> global_tick s \<and> distinct es \<and> sorted (map (\<lambda>e. timeout (timer_entries s e)) es) \<and>
     (\<forall>e \<in> set es. last_processed_timeout s < timeout (timer_entries s e) \<and> timer_flags (timer_entries s e) = TIMER_LIST_FLAGS_WAITING)"

definition due :: "('c, 'f, 'z) timers_scheme \<Rightarrow> usize \<Rightarrow> bool" where
  "due s e \<longleftrightarrow> timeout (timer_entries s e) \<le> global_tick s"

lemma due_head:
  assumes "timers_ok c (e # es) s" and "\<not> due s e"
  shows "filter (due s) (e # es) = []" "filter (\<lambda>x. \<not> due s x) (e # es) = e # es"
proof -
  have "\<forall>x \<in> set es. \<not> due s x" using assms unfolding timers_ok_def due_def by fastforce
  then show "filter (due s) (e # es) = []" "filter (\<lambda>x. \<not> due s x) (e # es) = e # es" using assms(2) by (simp_all add: filter_empty_conv)
qed

lemma timer_loop_ok:
  assumes "timers_ok c es s" and "length (filter (due s) es) \<le> work_pool (work s)"
  shows "\<exists>s'. local_timer_loop worker c (global_tick s) es s = Ok s' \<and> daemon_ok c s' \<and>
     work_queue (work s') = work_queue (work s) @ map (WorkList_new worker) (filter (due s) es) \<and>
     timer_list s' = filter (\<lambda>e. \<not> due s e) es \<and>
     (\<forall>e. timer_entries s' e = (if e \<in> set es \<and> due s e then (timer_entries s e)\<lparr>timer_flags := TIMER_LIST_FLAGS_EXPIRED\<rparr> else timer_entries s e))"
  using assms
proof (induction es arbitrary: s)
  case Nil
  then show ?case by (simp add: timers_ok_def daemon_ok_cong [of "s\<lparr>timer_list := []\<rparr>" s])
next
  case (Cons e es)
  show ?case
  proof (cases "due s e")
    case False
    have "\<not> is_expired (last_processed_timeout s) (global_tick s) (timeout (timer_entries s e))"
      using Cons.prems(1) False by (auto simp: is_expired_def timers_ok_def due_def)
    then show ?thesis
      using due_head [OF Cons.prems(1) False] Cons.prems(1) False
        daemon_ok_cong [of "s\<lparr>timer_list := e # es, last_processed_timeout := global_tick s\<rparr>" s c]
      by (auto simp: timers_ok_def filter_empty_conv)
  next
    case True
    let ?s1 = "set_timer_flags e TIMER_LIST_FLAGS_EXPIRED s"
    have ex: "is_expired (last_processed_timeout s) (global_tick s) (timeout (timer_entries s e))"
      and wt: "timer_flags (timer_entries s e) = TIMER_LIST_FLAGS_WAITING"
      using Cons.prems(1) True by (auto simp: is_expired_def timers_ok_def due_def)
    have "daemon_ok c ?s1" using Cons.prems(1) daemon_ok_cong [of ?s1 s c] by (simp add: timers_ok_def)
    moreover have "work_pool (work ?s1) \<noteq> 0" using Cons.prems(2) True by auto
    ultimately obtain s2 where s2: "add_work c (WorkList_new worker e) ?s1 = Ok s2" "work_added c (WorkList_new worker e) ?s1 s2"
      using add_work_ok by blast
    have n: "daemon_ok c s2" "worker.more s2 = worker.more ?s1"
      "work s2 = (work s)\<lparr>work_pool := work_pool (work s) - 1, work_queue := work_queue (work s) @ [WorkList_new worker e]\<rparr>"
      using s2(2) by (simp_all add: work_added_def)
    note mt = more_timers [OF n(2), simplified]
    have du: "due s2 = due s" by (simp add: due_def mt fun_eq_iff)
    have to: "timeout (timer_entries s2 x) = timeout (timer_entries s x)" for x by (simp add: mt)
    have ok2: "timers_ok c es s2" unfolding timers_ok_def to using Cons.prems(1) n(1) by (auto simp: timers_ok_def mt)
    have "length (filter (due s2) es) \<le> work_pool (work s2)" using Cons.prems(2) True n(3) by (simp add: du)
    then obtain s' where s': "local_timer_loop worker c (global_tick s2) es s2 = Ok s'" "daemon_ok c s'"
      "work_queue (work s') = work_queue (work s2) @ map (WorkList_new worker) (filter (due s2) es)"
      "timer_list s' = filter (\<lambda>e. \<not> due s2 e) es"
      "\<forall>e. timer_entries s' e = (if e \<in> set es \<and> due s2 e then (timer_entries s2 e)\<lparr>timer_flags := TIMER_LIST_FLAGS_EXPIRED\<rparr> else timer_entries s2 e)"
      using Cons.IH [OF ok2] by blast
    have "e \<notin> set es" using Cons.prems(1) by (simp add: timers_ok_def)
    then show ?thesis using ex wt s2(1) s' True n(3) by (auto simp: du mt)
  qed
qed

section \<open>Properties\<close>

text \<open>
  Property C24. A tick of a processor hands exactly the timers that are due to the work queue, in the order
  of their expiry and marked as expired, and keeps the others waiting; the handler does not
  fail. This holds for waiting timers in expiry order that are later than the last processed tick, with
  entries left for the work and no wrap of the tick counter.
\<close>

theorem timer_handler_expires_due:
  assumes "timers_ok c (timer_list s) s" and "length (filter (due s) (timer_list s)) \<le> work_pool (work s)"
  shows "\<exists>s'. local_timer_handler worker c s = Ok s' \<and>
     work_queue (work s') = work_queue (work s) @ map (WorkList_new worker) (filter (due s) (timer_list s)) \<and>
     timer_list s' = filter (\<lambda>e. \<not> due s e) (timer_list s) \<and>
     (\<forall>e. timer_flags (timer_entries s' e) =
        (if e \<in> set (timer_list s) \<and> due s e then TIMER_LIST_FLAGS_EXPIRED else timer_flags (timer_entries s e)))"
proof -
  obtain s1 where s1: "local_timer_loop worker c (global_tick s) (timer_list s) s = Ok s1" "daemon_ok c s1"
    "work_queue (work s1) = work_queue (work s) @ map (WorkList_new worker) (filter (due s) (timer_list s))"
    "timer_list s1 = filter (\<lambda>e. \<not> due s e) (timer_list s)"
    "\<forall>e. timer_entries s1 e = (if e \<in> set (timer_list s) \<and> due s e then (timer_entries s e)\<lparr>timer_flags := TIMER_LIST_FLAGS_EXPIRED\<rparr> else timer_entries s e)"
    using timer_loop_ok [OF assms] by blast
  have "sched_ok c s1" using s1(2) by (simp add: daemon_ok_def)
  then obtain s' where s': "tick c s1 = (Ok s' :: (TaskError, _) outcome)" "scheduler.more s' = scheduler.more s1" using tick_ok by blast
  note w = more_worker [OF s'(2)] and m = more_timers [OF more_worker(5) [OF s'(2)]]
  show ?thesis using s1(1,3-5) s'(1) by (simp add: local_timer_handler_def w m)
qed

definition example_timers :: "(nat, nat) timers" where
  "example_timers =
     \<lparr>threads = threads example_worker, processes = processes example_worker, run_queues = run_queues example_worker,
      local_flags = 0x200, active_memory = 0, task_lock = False, kernel_process = 0, kernel_idle_thread = 9,
      process_entry_pool = [], thread_entry_pool = [], no_memory = EntryPoolRunOut, p_list = [], next_process_id = 1,
      cpu_list = [0], reschedule_ipis = [], work = work example_worker, global_tick = 100,
      timer_entries = (\<lambda>e. \<lparr>timeout = 80 + e, timer_function = 1, timer_data = 2, timer_flags = 0\<rparr>),
      timer_list = [15, 20, 25], timer_list_pool = [40], last_processed_timeout = 90\<rparr>"

lemma example_timers_ok: "timers_ok 0 (timer_list example_timers) example_timers"
proof -
  have "daemon_ok 0 example_timers"
    by (simp add: daemon_ok_def example_timers_def example_worker_def sched_ok_def can_wake_def lists_wf_def Let_def example_simps)
  then show ?thesis by (simp add: timers_ok_def) (simp add: example_timers_def TIMER_LIST_FLAGS_WAITING_def)
qed

theorem timer_handler_expires_due_witness:
  "\<exists>s'. local_timer_handler 5 0 example_timers = Ok s' \<and>
     work_queue (work s') = [WorkList_new 7 8, WorkList_new 5 15, WorkList_new 5 20] \<and> timer_list s' = [25]"
proof -
  have "filter (due example_timers) (timer_list example_timers) = [15, 20]" "filter (\<lambda>e. \<not> due example_timers e) (timer_list example_timers) = [25]"
    "work_queue (work example_timers) = [WorkList_new 7 8]" "work_pool (work example_timers) = 10"
    by (simp_all add: example_timers_def due_def example_worker_def)
  then show ?thesis using timer_handler_expires_due [OF example_timers_ok, of 5] by auto
qed

text \<open>The ticks of a processor: the counter advances and the handler runs.\<close>

fun run_ticks :: "usize \<Rightarrow> nat \<Rightarrow> nat \<Rightarrow> ('c, 'f, 'z) timers_scheme \<Rightarrow> (TaskError, ('c, 'f, 'z) timers_scheme) outcome" where
  "run_ticks worker c 0 s = Ok s"
| "run_ticks worker c (Suc k) s =
     obind (local_timer_handler worker c (s\<lparr>global_tick := global_timer_handler (global_tick s)\<rparr>)) (run_ticks worker c k)"

lemma blocked_tick:
  assumes ok: "sched_ok c s" and l: "timer_list s = e # es" and e: "timeout (timer_entries s e) \<le> last_processed_timeout s"
    "last_processed_timeout s \<le> global_tick s" "global_tick s \<le> global_tick s + 1"
  shows "\<exists>s'. local_timer_handler worker c (s\<lparr>global_tick := global_timer_handler (global_tick s)\<rparr>) = Ok s' \<and> sched_ok c s' \<and>
     timer_list s' = e # es \<and> timer_entries s' = timer_entries s \<and> work s' = work s \<and>
     global_tick s' = global_tick s + 1 \<and> last_processed_timeout s' = global_tick s + 1"
proof -
  let ?g = "global_tick s + 1"
  let ?s1 = "s\<lparr>global_tick := ?g, timer_list := e # es, last_processed_timeout := ?g\<rparr>"
  have "\<not> is_expired (last_processed_timeout s) ?g (timeout (timer_entries s e))" using e order_trans [OF e(2,3)]
    unfolding is_expired_def Let_def not_less [symmetric] by blast
  then have loop: "local_timer_loop worker c ?g (e # es) (s\<lparr>global_tick := ?g\<rparr>) = Ok ?s1" by simp
  have "sched_ok c ?s1" using ok sched_ok_cong(1) [of ?s1 s c] by simp
  then obtain s' where s': "tick c ?s1 = (Ok s' :: (TaskError, _) outcome)" "sched_ok c s'" "scheduler.more s' = scheduler.more ?s1"
    using tick_ok by blast
  note w = more_worker [OF s'(3)] and m = more_timers [OF more_worker(5) [OF s'(3)]]
  show ?thesis using s'(1,2) loop
    by (simp add: local_timer_handler_def global_timer_handler_def count_up_tick_def l w m)
qed

lemma blocked_ticks:
  assumes "sched_ok c s" and "timer_list s = e # es" and "timeout (timer_entries s e) \<le> last_processed_timeout s"
    and "last_processed_timeout s \<le> global_tick s" and "unat (global_tick s) + k < 2 ^ 64"
  shows "\<exists>s'. run_ticks worker c k s = Ok s' \<and> timer_list s' = e # es \<and> work s' = work s"
  using assms
proof (induction k arbitrary: s)
  case (Suc k)
  have u: "unat (global_tick s + 1) = unat (global_tick s) + 1"
    using Suc.prems(5) by (simp add: unat_word_ariths)
  then have g: "global_tick s \<le> global_tick s + 1" by (simp add: word_le_nat_alt)
  obtain s1 where s1: "local_timer_handler worker c (s\<lparr>global_tick := global_timer_handler (global_tick s)\<rparr>) = Ok s1" "sched_ok c s1"
    "timer_list s1 = e # es" "timer_entries s1 = timer_entries s" "work s1 = work s"
    "global_tick s1 = global_tick s + 1" "last_processed_timeout s1 = global_tick s + 1"
    using blocked_tick [OF Suc.prems(1-4) g] by blast
  have "timeout (timer_entries s1 e) \<le> last_processed_timeout s1" using Suc.prems(3,4) g s1(4,7) by (metis order_trans)
  moreover have "last_processed_timeout s1 \<le> global_tick s1" using s1(6,7) by simp
  moreover have "unat (global_tick s1) + k < 2 ^ 64" using Suc.prems(5) u s1(6) by simp
  ultimately show ?case using Suc.IH [OF s1(2,3)] s1(1,5) by simp
qed simp

text \<open>
  Property C25. A timer of less than one tick can block all timers of its processor. When it is added after the handler
  has processed the current tick, its expiry is not later than the last processed tick; the
  handler does not take it for expired and stops at it, in every later tick up to a wrap of
  the counter: neither it nor any timer behind it expires.
\<close>

theorem short_timer_blocks_all:
  assumes "sched_ok c s" and "last_processed_timeout s = global_tick s" and "timer_list_pool s = e # pool"
    and "\<And>x. x \<in> set (timer_list s) \<Longrightarrow> global_tick s < timeout (timer_entries s x)" and "wait_ms < 10"
    and "unat (global_tick s) + k < 2 ^ 64"
  shows "\<exists>s1 s2. add_timer wait_ms f d s = Some s1 \<and> run_ticks worker c k s1 = Ok s2 \<and>
     timer_list s2 = e # timer_list s \<and> work_queue (work s2) = work_queue (work s)"
proof -
  have "wait_ms div TIMER_INTERVAL_MS = 0" using assms(5) by (simp add: TIMER_INTERVAL_MS_def word_less_nat_alt word_arith_nat_div)
  then have ct: "calculate_timeout (global_tick s) wait_ms = (global_tick s, False)"
    by (simp add: calculate_timeout_def get_end_tick_ms_def overflowing_add_def)
  have ins: "insert_timer (timer_entries s) (global_tick s) False (global_tick s) e (timer_list s) = e # timer_list s"
    using assms(4) by (cases "timer_list s") (auto simp: order_less_imp_le)
  let ?s1 = "s\<lparr>timer_list_pool := pool,
      timer_entries := (timer_entries s)(e := \<lparr>timeout = global_tick s, timer_function = f, timer_data = d, timer_flags = TIMER_LIST_FLAGS_WAITING\<rparr>),
      timer_list := e # timer_list s\<rparr>"
  have add: "add_timer wait_ms f d s = Some ?s1" by (simp add: add_timer_def assms(3) ct ins)
  have "sched_ok c ?s1" using assms(1) sched_ok_cong(1) [of ?s1 s c] by simp
  then have "\<exists>s2. run_ticks worker c k ?s1 = Ok s2 \<and> timer_list s2 = e # timer_list s \<and> work s2 = work ?s1"
    by (rule blocked_ticks) (use assms(2,6) in simp_all)
  then show ?thesis using add by auto
qed

theorem short_timer_blocks_all_witness:
  "\<exists>s1 s2. add_timer 5 1 2 (example_timers\<lparr>timer_list := [25], last_processed_timeout := 100\<rparr>) = Some s1 \<and>
     run_ticks 7 0 1000 s1 = Ok s2 \<and> timer_list s2 = [40, 25]"
proof -
  let ?s = "example_timers\<lparr>timer_list := [25], last_processed_timeout := 100\<rparr>"
  have "sched_ok 0 ?s" using example_timers_ok sched_ok_cong(1) [of ?s example_timers 0] by (simp add: timers_ok_def daemon_ok_def)
  from short_timer_blocks_all [OF this, of 40 "[]" 5 1000 1 2 7] show ?thesis
    by (auto simp: example_timers_def)
qed

text \<open>
  The number of nanoseconds per second is computed as one, so without a source timer the monotonic
  clock stands at zero, and with a counting one it is the raw count of the timer.
\<close>

lemma monotonic_clock_stands_still: "get_monotonic_clock_ns None current_tick = 0"
  by (simp add: get_monotonic_clock_ns_def TIMER_INTERVAL_MS_def)

lemma monotonic_clock_is_raw_count:
  assumes "is_count_up_timer m" and "1 < get_frequency_hz m"
  shows "get_monotonic_clock_ns (Some (m, n)) current_tick = n"
  using assms by (simp add: get_monotonic_clock_ns_def)

text \<open>After a wrap of the tick counter the difference is one tick short of the modular difference.\<close>

lemma difference_short_after_wrap:
  assumes "current_tick < t"
  shows "get_difference_ms current_tick t = (current_tick - t) * TIMER_INTERVAL_MS - TIMER_INTERVAL_MS"
  using assms by (simp add: get_difference_ms_def algebra_simps)

text \<open>A wait that would end with the greatest tick never ends, for any readings of the counter.\<close>

lemma wait_for_last_tick_never_ends:
  assumes "get_end_tick_ms (ticks 0) ms = (- 1, False)"
  shows "busy_wait_from fuel ticks ms = None"
proof -
  have "spin_while (\<lambda>t. t \<le> - 1) ticks k i = None" for k i
    by (induction k arbitrary: i) simp_all
  then show ?thesis using assms by (simp add: busy_wait_from_def)
qed

end
