(* ===== verification/Context_Data.thy ===== *)
theory Context_Data
  imports Slab_Allocator
begin

text \<open>
  Saved processor contexts of x86-64: \<open>arch/x86_64/context/context_data.rs\<close> and the parts of
  \<open>arch/x86_64/context/mod.rs\<close> that make contexts. The stack of a new kernel thread comes from
  \<open>kmalloc\<close>. Jumping to a context is assembly code; what is modelled of \<open>jump_to_context\<close> and
  \<open>switch_context\<close> is the change of the flags register before it.
\<close>

section \<open>Registers\<close>

record Registers =
  reg_rax :: u64
  reg_rdx :: u64
  reg_rcx :: u64
  reg_rbx :: u64
  reg_rbp :: u64
  reg_rsi :: u64
  reg_rdi :: u64
  reg_r8 :: u64
  reg_r9 :: u64
  reg_r10 :: u64
  reg_r11 :: u64
  reg_r12 :: u64
  reg_r13 :: u64
  reg_r14 :: u64
  reg_r15 :: u64
  reg_ds :: u64
  reg_fs :: u64
  reg_fs_base :: u64
  reg_gs :: u64
  reg_gs_base :: u64
  reg_es :: u64
  reg_ss :: u64
  reg_rsp :: u64
  reg_rflags :: u64
  reg_cs :: u64
  reg_rip :: u64
  reg_cr3 :: u64
  reg_padding :: u64

record ContextData =
  fx_save :: "u8 list"
  registers :: Registers

definition Registers_default :: Registers where
  "Registers_default =
     \<lparr>reg_rax = 0, reg_rdx = 0, reg_rcx = 0, reg_rbx = 0, reg_rbp = 0, reg_rsi = 0, reg_rdi = 0, reg_r8 = 0, reg_r9 = 0,
      reg_r10 = 0, reg_r11 = 0, reg_r12 = 0, reg_r13 = 0, reg_r14 = 0, reg_r15 = 0, reg_ds = 0, reg_fs = 0, reg_fs_base = 0,
      reg_gs = 0, reg_gs_base = 0, reg_es = 0, reg_ss = 0, reg_rsp = 0, reg_rflags = 0, reg_cs = 0, reg_rip = 0, reg_cr3 = 0, reg_padding = 0\<rparr>"

definition ContextData_new :: ContextData where
  "ContextData_new = \<lparr>fx_save = replicate 512 0, registers = Registers_default\<rparr>"

definition create_context_data_for_system :: "usize \<Rightarrow> usize \<Rightarrow> u64 \<Rightarrow> u64 \<Rightarrow> ContextData" where
  "create_context_data_for_system entry_address stack cs ss =
     ContextData_new\<lparr>registers := Registers_default\<lparr>reg_rip := entry_address, reg_cs := cs, reg_ss := ss,
       reg_rflags := 0x202, reg_rsp := stack\<rparr>\<rparr>"

text \<open>The six argument registers of the calling convention, set from as many arguments as there are.\<close>

definition set_argument_registers :: "u64 list \<Rightarrow> Registers \<Rightarrow> Registers" where
  "set_argument_registers args r =
     (let r = (if args \<noteq> [] then r\<lparr>reg_rdi := args ! 0\<rparr> else r);
          r = (if 1 < length args then r\<lparr>reg_rsi := args ! 1\<rparr> else r);
          r = (if 2 < length args then r\<lparr>reg_rdx := args ! 2\<rparr> else r);
          r = (if 3 < length args then r\<lparr>reg_rcx := args ! 3\<rparr> else r);
          r = (if 4 < length args then r\<lparr>reg_r8 := args ! 4\<rparr> else r)
      in if 5 < length args then r\<lparr>reg_r9 := args ! 5\<rparr> else r)"

definition create_context_data_for_user :: "usize \<Rightarrow> usize \<Rightarrow> u64 \<Rightarrow> u64 \<Rightarrow> usize list \<Rightarrow> ContextData" where
  "create_context_data_for_user entry_address stack cs ss arguments =
     ContextData_new\<lparr>registers := set_argument_registers arguments
       (Registers_default\<lparr>reg_rip := entry_address, reg_cs := cs, reg_ss := ss, reg_rflags := 0x202, reg_rsp := stack\<rparr>)\<rparr>"

definition fork_context_data :: "ContextData \<Rightarrow> usize \<Rightarrow> usize \<Rightarrow> ContextData" where
  "fork_context_data original_context entry_address stack =
     ContextData_new\<lparr>registers := Registers_default\<lparr>reg_rip := entry_address, reg_cr3 := reg_cr3 (registers original_context),
       reg_cs := reg_cs (registers original_context), reg_ss := reg_ss (registers original_context),
       reg_rflags := 0x202, reg_rsp := stack\<rparr>\<rparr>"

definition set_function_call_arguments :: "u64 list \<Rightarrow> ContextData \<Rightarrow> ContextData" where
  "set_function_call_arguments arguments d = d\<lparr>registers := set_argument_registers arguments (registers d)\<rparr>"

definition get_system_call_arguments :: "ContextData \<Rightarrow> usize \<Rightarrow> u64 option" where
  "get_system_call_arguments d index =
     (if index > 6 then None
      else Some
        (if index = 0 then reg_rax (registers d) else if index = 1 then reg_rdi (registers d)
         else if index = 2 then reg_rsi (registers d) else if index = 3 then reg_rdx (registers d)
         else if index = 4 then reg_r10 (registers d) else if index = 5 then reg_r8 (registers d)
         else reg_r9 (registers d)))"

definition set_system_call_return_value :: "u64 \<Rightarrow> ContextData \<Rightarrow> ContextData" where
  "set_system_call_return_value v d = d\<lparr>registers := (registers d)\<lparr>reg_rax := v\<rparr>\<rparr>"

section \<open>The context manager\<close>

record ContextManager =
  system_ss :: u16
  system_cs :: u16
  user_ss :: u16
  user_cs :: u16
  system_page_table_address :: usize

definition DEFAULT_STACK_SIZE_OF_SYSTEM :: usize where "DEFAULT_STACK_SIZE_OF_SYSTEM = 0x200000"

definition IDLE_THREAD_STACK_SIZE :: MSize where "IDLE_THREAD_STACK_SIZE = PAGE_SIZE"

definition ContextManager_new :: ContextManager where
  "ContextManager_new = \<lparr>system_ss = 0, system_cs = 0, user_ss = 0, user_cs = 0, system_page_table_address = 0\<rparr>"

definition ContextManager_init :: "u16 \<Rightarrow> u16 \<Rightarrow> u16 \<Rightarrow> u16 \<Rightarrow> usize \<Rightarrow> ContextManager" where
  "ContextManager_init s_cs s_ss u_cs u_ss table =
     \<lparr>system_ss = s_ss, system_cs = s_cs, user_ss = u_ss, user_cs = u_cs, system_page_table_address = table\<rparr>"

text \<open>A kernel stack: its size must be a multiple of the page size. The result is the address behind its end, less eight.\<close>

definition kernel_stack ::
  "'w page_allocator \<Rightarrow> MSize option \<Rightarrow> 'w \<Rightarrow> SizeAllocator \<Rightarrow> ('w \<times> (MemoryError, SizeAllocator \<times> usize) outcome) option" where
  "kernel_stack alloc_pages stack_size w a =
     (let sz = (case stack_size of Some n \<Rightarrow> n | None \<Rightarrow> DEFAULT_STACK_SIZE_OF_SYSTEM)
      in if sz AND NOT PAGE_MASK \<noteq> 0 then Some (w, Err NotAligned)
         else map_option (\<lambda>(w, res). (w, obind res (\<lambda>(a, stack_address). Ok (a, stack_address + sz - 8)))) (kmalloc alloc_pages w a sz))"

definition create_system_context ::
  "'w page_allocator \<Rightarrow> ContextManager \<Rightarrow> usize \<Rightarrow> MSize option \<Rightarrow> 'w \<Rightarrow> SizeAllocator \<Rightarrow>
    ('w \<times> (MemoryError, SizeAllocator \<times> ContextData) outcome) option" where
  "create_system_context alloc_pages cm entry_address stack_size w a =
     map_option (\<lambda>(w, res). (w, obind res (\<lambda>(a, sp).
         Ok (a, create_context_data_for_system entry_address sp (ucast (system_cs cm)) (ucast (system_ss cm))))))
       (kernel_stack alloc_pages stack_size w a)"

definition fork_system_context ::
  "'w page_allocator \<Rightarrow> ContextData \<Rightarrow> usize \<Rightarrow> MSize option \<Rightarrow> 'w \<Rightarrow> SizeAllocator \<Rightarrow>
    ('w \<times> (MemoryError, SizeAllocator \<times> ContextData) outcome) option" where
  "fork_system_context alloc_pages original entry_address stack_size w a =
     map_option (\<lambda>(w, res). (w, obind res (\<lambda>(a, sp). Ok (a, fork_context_data original entry_address sp))))
       (kernel_stack alloc_pages stack_size w a)"

definition create_user_context :: "ContextManager \<Rightarrow> usize \<Rightarrow> VAddress \<Rightarrow> usize list \<Rightarrow> (MemoryError, ContextData) outcome" where
  "create_user_context cm entry_address stack_address arguments =
     Ok (create_context_data_for_user entry_address stack_address (ucast (user_cs cm)) (ucast (user_ss cm)) arguments)"

definition jump_to_context :: "bool \<Rightarrow> ContextData \<Rightarrow> ContextData" where
  "jump_to_context allow_interrupt_after_jump d =
     (if allow_interrupt_after_jump then d\<lparr>registers := (registers d)\<lparr>reg_rflags := reg_rflags (registers d) OR 0x200\<rparr>\<rparr> else d)"

definition switch_context :: "bool \<Rightarrow> ContextData \<Rightarrow> ContextData" where
  "switch_context allow_interrupt_after_switch d =
     (if allow_interrupt_after_switch then d\<lparr>registers := (registers d)\<lparr>reg_rflags := reg_rflags (registers d) OR 0x200\<rparr>\<rparr> else d)"

end
