(* ===== verification/Net_Bytes.thy ===== *)
theory Net_Bytes
  imports Prelude
begin

text \<open>
  Bytes of network headers: fields in network byte order inside a buffer, and the
  ones' complement sum of the Internet checksum as the headers of \<open>kernel/network_manager\<close> compute it.
  A buffer is a list of bytes.
\<close>

declare push_bit_of_1 [simp del] bit_numeral_word_iff [simp del]

section \<open>Fields in network byte order\<close>

definition from_be_bytes16 :: "u8 \<Rightarrow> u8 \<Rightarrow> u16" where
  "from_be_bytes16 a b = push_bit 8 (ucast a) OR ucast b"

definition to_be_bytes16 :: "u16 \<Rightarrow> u8 list" where
  "to_be_bytes16 v = [ucast (drop_bit 8 v), ucast v]"

definition to_be_bytes32 :: "u32 \<Rightarrow> u8 list" where
  "to_be_bytes32 v = [ucast (drop_bit 24 v), ucast (drop_bit 16 v), ucast (drop_bit 8 v), ucast v]"

definition get8 :: "u8 list \<Rightarrow> nat \<Rightarrow> u8" where
  "get8 b i = b ! i"

definition put8 :: "nat \<Rightarrow> u8 \<Rightarrow> u8 list \<Rightarrow> u8 list" where
  "put8 i v b = b[i := v]"

definition get16 :: "u8 list \<Rightarrow> nat \<Rightarrow> u16" where
  "get16 b i = from_be_bytes16 (b ! i) (b ! (i + 1))"

definition put16 :: "nat \<Rightarrow> u16 \<Rightarrow> u8 list \<Rightarrow> u8 list" where
  "put16 i v b = b[i := ucast (drop_bit 8 v), i + 1 := ucast v]"

definition get32 :: "u8 list \<Rightarrow> nat \<Rightarrow> u32" where
  "get32 b i = push_bit 24 (ucast (b ! i)) OR push_bit 16 (ucast (b ! (i + 1))) OR push_bit 8 (ucast (b ! (i + 2))) OR ucast (b ! (i + 3))"

definition put32 :: "nat \<Rightarrow> u32 \<Rightarrow> u8 list \<Rightarrow> u8 list" where
  "put32 i v b = b[i := ucast (drop_bit 24 v), i + 1 := ucast (drop_bit 16 v), i + 2 := ucast (drop_bit 8 v), i + 3 := ucast v]"

lemma put_length [simp]:
  "length (put8 i a b) = length b" "length (put16 i v b) = length b" "length (put32 i w b) = length b"
  by (simp_all add: put8_def put16_def put32_def)

lemma be16_join: "from_be_bytes16 (ucast (drop_bit 8 v)) (ucast v) = v"
proof (rule bit_word_eqI)
  fix n
  assume "n < LENGTH(16)"
  then show "bit (from_be_bytes16 (ucast (drop_bit 8 v)) (ucast v)) n = bit v n"
    by (auto simp: from_be_bytes16_def bit_simps)
qed

lemma be16_split:
  "ucast (drop_bit 8 (from_be_bytes16 a b)) = a" "ucast (from_be_bytes16 a b) = b"
proof -
  show "ucast (drop_bit 8 (from_be_bytes16 a b)) = a"
    by (rule bit_word_eqI) (auto simp: from_be_bytes16_def bit_simps dest: bit_imp_le_length)
  show "ucast (from_be_bytes16 a b) = b"
    by (rule bit_word_eqI) (auto simp: from_be_bytes16_def bit_simps)
qed

lemma be32_join:
  "push_bit 24 (ucast (ucast (drop_bit 24 v) :: u8)) OR push_bit 16 (ucast (ucast (drop_bit 16 v) :: u8)) OR
     push_bit 8 (ucast (ucast (drop_bit 8 v) :: u8)) OR (ucast (ucast v :: u8) :: u32) = v"
  for v :: u32
proof (rule bit_word_eqI)
  fix n
  assume "n < LENGTH(32)"
  then consider "n < 8" | "8 \<le> n" "n < 16" | "16 \<le> n" "n < 24" | "24 \<le> n" "n < 32" by (auto simp: not_less) linarith
  then show "bit (push_bit 24 (ucast (ucast (drop_bit 24 v) :: u8)) OR push_bit 16 (ucast (ucast (drop_bit 16 v) :: u8)) OR
     push_bit 8 (ucast (ucast (drop_bit 8 v) :: u8)) OR (ucast (ucast v :: u8) :: u32)) n = bit v n"
    by cases (auto simp: bit_simps)
qed

lemma get_put_same:
  "i < length b \<Longrightarrow> get8 (put8 i a b) i = a"
  "i + 1 < length b \<Longrightarrow> get16 (put16 i v b) i = v"
  "i + 3 < length b \<Longrightarrow> get32 (put32 i w b) i = w"
  by (simp_all add: get8_def put8_def get16_def put16_def get32_def put32_def be16_join be32_join)

lemma get_put8_other:
  "i \<noteq> j \<Longrightarrow> get8 (put8 j a b) i = get8 b i"
  "i \<noteq> j \<Longrightarrow> i + 1 \<noteq> j \<Longrightarrow> get16 (put8 j a b) i = get16 b i"
  "j < i \<or> i + 3 < j \<Longrightarrow> get32 (put8 j a b) i = get32 b i"
  by (auto simp: get8_def put8_def get16_def get32_def nth_list_update)

lemma get_put16_other:
  "i \<noteq> j \<Longrightarrow> i \<noteq> j + 1 \<Longrightarrow> get8 (put16 j v b) i = get8 b i"
  "i + 1 < j \<or> j + 1 < i \<Longrightarrow> get16 (put16 j v b) i = get16 b i"
  "j + 1 < i \<or> i + 3 < j \<Longrightarrow> get32 (put16 j v b) i = get32 b i"
  by (auto simp: get8_def put16_def get16_def get32_def nth_list_update)

lemma get_put32_other:
  "i < j \<or> j + 3 < i \<Longrightarrow> get8 (put32 j w b) i = get8 b i"
  "i + 1 < j \<or> j + 3 < i \<Longrightarrow> get16 (put32 j w b) i = get16 b i"
  "i + 3 < j \<or> j + 3 < i \<Longrightarrow> get32 (put32 j w b) i = get32 b i"
  by (auto simp: get8_def put32_def get16_def get32_def nth_list_update)

lemma get_append:
  "i < length a \<Longrightarrow> get8 (a @ b) i = get8 a i"
  "i + 1 < length a \<Longrightarrow> get16 (a @ b) i = get16 a i"
  "i + 3 < length a \<Longrightarrow> get32 (a @ b) i = get32 a i"
  by (simp_all add: get8_def get16_def get32_def nth_append)

lemma put16_put16 [simp]: "put16 i v (put16 i u b) = put16 i v b"
proof -
  have "b[i := p, i + 1 := q, i := x] = b[i := x, i + 1 := q]" for p q x :: u8
    by (subst list_update_swap) simp_all
  then show ?thesis by (simp add: put16_def)
qed

lemmas field_simps_be = get_put_same get_put8_other get_put16_other get_put32_other

section \<open>The ones' complement sum\<close>

text \<open>\<open>overflowing_add\<close> with the carry added again.\<close>

definition oc_add :: "u16 \<Rightarrow> u16 \<Rightarrow> u16" where
  "oc_add a b = (let s = a + b in if s < a then s + 1 else s)"

definition oc_sum :: "u16 \<Rightarrow> u16 list \<Rightarrow> u16" where
  "oc_sum acc ws = foldl oc_add acc ws"

text \<open>The words of a buffer; the last byte of an odd one is the high byte of a word.\<close>

fun be_words :: "u8 list \<Rightarrow> u16 list" where
  "be_words (a # b # bs) = from_be_bytes16 a b # be_words bs"
| "be_words [a] = [from_be_bytes16 a 0]"
| "be_words [] = []"

lemma unat16_less: "unat v < 65536" for v :: u16
proof -
  have "unat v < 2 ^ LENGTH(16)" by (rule unsigned_less)
  then show ?thesis by simp
qed

lemma unat16_max: "unat (- 1 :: u16) = 65535"
  by (simp add: unsigned_minus_1_eq_mask mask_eq_exp_minus_1)

lemma oc_add_unat:
  "unat (oc_add a b) = (if unat a + unat b < 65536 then unat a + unat b else unat a + unat b - 65535)"
proof -
  have a: "unat a < 65536" and b: "unat b < 65536" by (rule unat16_less)+
  have s: "unat (a + b) = (if unat a + unat b < 65536 then unat a + unat b else unat a + unat b - 65536)"
    using a b by (auto simp: unat_word_ariths mod_if)
  have c: "a + b < a \<longleftrightarrow> \<not> unat a + unat b < 65536" unfolding word_less_nat_alt s using b by auto
  have "unat (a + b + 1) = unat (a + b) + 1" if "\<not> unat a + unat b < 65536"
  proof -
    have "unat (a + b) + 1 < 65536" unfolding s using that a b by simp
    then show ?thesis by (simp add: unat_word_ariths(1) [of "a + b" 1])
  qed
  then show ?thesis using s c by (auto simp: oc_add_def Let_def)
qed

lemma oc_add_value:
  "unat (oc_add a b) mod 65535 = (unat a + unat b) mod 65535" "oc_add a b = 0 \<longleftrightarrow> a = 0 \<and> b = 0"
proof -
  show "unat (oc_add a b) mod 65535 = (unat a + unat b) mod 65535"
    unfolding oc_add_unat by (simp add: le_mod_geq)
  have "unat (oc_add a b) = 0 \<longleftrightarrow> unat a = 0 \<and> unat b = 0" unfolding oc_add_unat by auto
  then show "oc_add a b = 0 \<longleftrightarrow> a = 0 \<and> b = 0" by (simp only: unat_eq_zero)
qed

lemma oc_sum_value:
  "unat (oc_sum acc ws) mod 65535 = (unat acc + sum_list (map unat ws)) mod 65535"
  "oc_sum acc ws = 0 \<longleftrightarrow> acc = 0 \<and> (\<forall>w \<in> set ws. w = 0)"
proof (induction ws arbitrary: acc)
  case (Cons w ws)
  {
    case 1
    have "unat (oc_sum acc (w # ws)) mod 65535 = (unat (oc_add acc w) + sum_list (map unat ws)) mod 65535"
      using Cons.IH(1) [of "oc_add acc w"] by (simp add: oc_sum_def)
    also have "\<dots> = (unat acc + unat w + sum_list (map unat ws)) mod 65535"
      using oc_add_value(1) [of acc w] by (metis mod_add_left_eq)
    finally show ?case by (simp add: add.assoc)
  next
    case 2
    show ?case using Cons.IH(2) [of "oc_add acc w"] by (auto simp: oc_sum_def oc_add_value(2))
  }
qed (simp_all add: oc_sum_def)

lemma unat_not16: "unat (NOT v) = 65535 - unat v" for v :: u16
proof -
  have "unat v \<le> unat (- 1 :: u16)" using unat16_less [of v] by (simp add: unat16_max)
  then have "unat (- 1 - v) = unat (- 1 :: u16) - unat v" by (intro unat_sub) (simp add: word_le_nat_alt)
  moreover have "NOT v = - 1 - v" by (simp add: not_eq_complement)
  ultimately show ?thesis by (simp add: unat16_max)
qed

text \<open>
  The sum of words among which one is the complement of the sum of the others is all ones:
  a receiver that adds up the words with the checksum sees no error.
\<close>

lemma checksum_verifies:
  assumes "sum_list (map unat ws) = unat (NOT (oc_sum 0 us)) + sum_list (map unat us)"
  shows "oc_sum 0 ws = 0xffff"
proof -
  let ?S = "oc_sum 0 us" and ?T = "oc_sum 0 ws"
  have le: "unat ?S \<le> 65535" "unat ?T \<le> 65535" using unat16_less [of ?S] unat16_less [of ?T] by simp_all
  have "unat ?T mod 65535 = (65535 - unat ?S + sum_list (map unat us)) mod 65535"
    using oc_sum_value(1) [of 0 ws] assms by (simp add: unat_not16)
  also have "\<dots> = (65535 - unat ?S + unat ?S) mod 65535"
    by (rule mod_add_cong [OF refl]) (use oc_sum_value(1) [of 0 us] in simp)
  also have "\<dots> = 0" using le(1) by simp
  finally have m: "unat ?T mod 65535 = 0" .
  have "?T \<noteq> 0"
  proof
    assume "?T = 0"
    then have "sum_list (map unat ws) = 0" using oc_sum_value(2) [of 0 ws] by (simp add: sum_list_eq_0_iff unat_eq_zero)
    then have z: "unat (NOT ?S) = 0" "sum_list (map unat us) = 0" using assms by simp_all
    then have "?S = 0" using oc_sum_value(2) [of 0 us] by (auto simp: sum_list_eq_0_iff unat_eq_zero)
    then show False using z(1) unat_not16 [of 0] by simp
  qed
  then have "0 < unat ?T" by (simp add: unat_gt_0)
  moreover have "65535 dvd unat ?T" using m by (simp add: dvd_eq_mod_eq_0)
  ultimately have "65535 \<le> unat ?T" by (intro dvd_imp_le)
  then have "unat ?T = 65535" using le(2) by (rule le_antisym [rotated])
  then have "unat ?T = unat (0xffff :: u16)" by simp
  then show ?thesis by (simp only: word_unat_eq_iff)
qed

lemma be_words_put16: "even i \<Longrightarrow> i + 1 < length b \<Longrightarrow> be_words (put16 i v b) = (be_words b)[i div 2 := v] \<and> i div 2 < length (be_words b)"
proof (induction b arbitrary: i rule: be_words.induct)
  case (1 x y bs)
  show ?case
  proof (cases i)
    case 0
    then show ?thesis by (simp add: put16_def be16_join)
  next
    case (Suc j)
    then obtain k where k: "i = Suc (Suc k)" "even k" using 1(2) by (cases j) auto
    have "put16 i v (x # y # bs) = x # y # put16 k v bs" by (simp add: put16_def k)
    then show ?thesis using 1(1) [of k] 1(3) k by simp
  qed
qed simp_all

lemma oc_sum_append: "oc_sum (oc_sum acc xs) ys = oc_sum acc (xs @ ys)"
  by (simp add: oc_sum_def)

text \<open>A checksum field that is filled with the complement of the sum over the buffer with a cleared field.\<close>

lemma checksum_field_verifies:
  assumes "even i" and "i + 1 < length b"
  shows "oc_sum 0 (xs @ be_words (put16 i (NOT (oc_sum 0 (xs @ be_words (put16 i 0 b) @ ys))) b) @ ys) = 0xffff"
proof (rule checksum_verifies)
  let ?ws = "be_words b" and ?k = "i div 2"
  have put: "be_words (put16 i v b) = ?ws[?k := v]" for v using be_words_put16 [OF assms] by simp
  have k: "?k < length ?ws" using be_words_put16 [OF assms] by simp
  have upd: "sum_list (map unat (?ws[?k := v])) = sum_list (map unat (?ws[?k := 0])) + unat v" for v
  proof -
    have "sum_list (map unat (?ws[?k := v])) = sum_list ((map unat (?ws[?k := 0]))[?k := unat v])"
      by (simp add: map_update)
    also have "\<dots> = sum_list (map unat (?ws[?k := 0])) + unat v - unat (?ws[?k := 0] ! ?k)"
      using k by (subst sum_list_update) (simp_all add: map_update)
    finally show ?thesis using k by simp
  qed
  show "sum_list (map unat (xs @ be_words (put16 i (NOT (oc_sum 0 (xs @ be_words (put16 i 0 b) @ ys))) b) @ ys)) =
      unat (NOT (oc_sum 0 (xs @ be_words (put16 i 0 b) @ ys))) + sum_list (map unat (xs @ be_words (put16 i 0 b) @ ys))"
    unfolding put map_append sum_list_append upd [of "NOT _"] by simp
qed

end
