(* ===== verification/Ipv4_Udp.thy ===== *)
theory Ipv4_Udp
  imports Net_Bytes Slab_Allocator
begin

text \<open>
  IPv4 packets and UDP segments: \<open>kernel/network_manager/ipv4.rs\<close> and \<open>udp.rs\<close>. A header is a
  buffer with fields at the offsets of the \<open>repr(C)\<close> structure (little-endian target). A handler
  gets the received buffer and gives what it passes on or that it drops the packet and frees
  the buffer. What is passed on refers to the buffer by offsets, computed with
  wrap-around as the release build does.
\<close>

declare push_bit_of_1 [simp del] bit_numeral_word_iff [simp del]

datatype NetworkError =
  InvalidDevice | DataSizeError | InvalidSocket | NetworkInvalidAddress | NetworkInternalError
| NetworkMemoryError MemoryError | DataOverflowed | OutOfBuffer

section \<open>IPv4 headers\<close>

definition IPV4_VERSION :: u8 where "IPV4_VERSION = 4"
definition IPV4_DEFAULT_IHL :: u8 where "IPV4_DEFAULT_IHL = 5"
definition IPV4_DEFAULT_HEADER_SIZE :: usize where "IPV4_DEFAULT_HEADER_SIZE = 20"
definition MAX_PACKET_SIZE :: u16 where "MAX_PACKET_SIZE = 0xffff"

record Ipv4ConnectionInfo =
  sender_address :: u32
  destination_address :: u32

definition Ipv4ConnectionInfo_new :: "u32 \<Rightarrow> u32 \<Rightarrow> Ipv4ConnectionInfo" where
  "Ipv4ConnectionInfo_new our_address their_address = \<lparr>sender_address = their_address, destination_address = our_address\<rparr>"

definition set_version_and_header_length :: "u8 list \<Rightarrow> u8 list" where
  "set_version_and_header_length h = put8 0 (push_bit 4 IPV4_VERSION OR IPV4_DEFAULT_IHL) h"

definition get_version :: "u8 list \<Rightarrow> u8" where
  "get_version h = drop_bit 4 (get8 h 0)"

definition Ipv4_get_header_length :: "u8 list \<Rightarrow> usize" where
  "Ipv4_get_header_length h = ucast (get8 h 0 AND 0xf) * 4"

definition set_type_of_service :: "u8 \<Rightarrow> u8 list \<Rightarrow> u8 list" where
  "set_type_of_service tos h = put8 1 tos h"

definition get_packet_length :: "u8 list \<Rightarrow> u16" where
  "get_packet_length h = get16 h 2"

definition set_packet_length :: "u16 \<Rightarrow> u8 list \<Rightarrow> u8 list" where
  "set_packet_length l h = put16 2 l h"

definition get_id :: "u8 list \<Rightarrow> u16" where
  "get_id h = get16 h 4"

definition set_id :: "u16 \<Rightarrow> u8 list \<Rightarrow> u8 list" where
  "set_id i h = put16 4 i h"

definition is_more_packet_flag_on :: "u8 list \<Rightarrow> bool" where
  "is_more_packet_flag_on h \<longleftrightarrow> get16 h 6 AND 0x2000 \<noteq> 0"

definition clear_flag_and_fragment_offset :: "u8 list \<Rightarrow> u8 list" where
  "clear_flag_and_fragment_offset h = put16 6 0 h"

definition get_fragment_offset :: "u8 list \<Rightarrow> u16" where
  "get_fragment_offset h = push_bit 3 (get16 h 6 AND 0x1fff)"

definition set_fragment_offset :: "u16 \<Rightarrow> u8 list \<Rightarrow> ('e, u8 list) outcome" where
  "set_fragment_offset fragment_offset h =
     obind (assert_that (fragment_offset AND 7 = 0)) (\<lambda>_.
     obind (assert_that (drop_bit 3 fragment_offset \<le> 0x1fff)) (\<lambda>_.
     Ok (put16 6 ((get16 h 6 AND NOT 0x1fff) OR drop_bit 3 fragment_offset) h)))"

definition get_ttl :: "u8 list \<Rightarrow> u8" where
  "get_ttl h = get8 h 8"

definition set_ttl :: "u8 \<Rightarrow> u8 list \<Rightarrow> u8 list" where
  "set_ttl t h = put8 8 t h"

definition get_protocol :: "u8 list \<Rightarrow> u8" where
  "get_protocol h = get8 h 9"

definition set_protocol :: "u8 \<Rightarrow> u8 list \<Rightarrow> u8 list" where
  "set_protocol p h = put8 9 p h"

definition Ipv4_get_checksum :: "u8 list \<Rightarrow> u16" where
  "Ipv4_get_checksum h = get16 h 10"

definition get_sender_ip_address :: "u8 list \<Rightarrow> u32" where
  "get_sender_ip_address h = get32 h 12"

definition set_sender_ip_address :: "u32 \<Rightarrow> u8 list \<Rightarrow> u8 list" where
  "set_sender_ip_address a h = put32 12 a h"

definition get_destination_ip_address :: "u8 list \<Rightarrow> u32" where
  "get_destination_ip_address h = get32 h 16"

definition set_destination_ip_address :: "u32 \<Rightarrow> u8 list \<Rightarrow> u8 list" where
  "set_destination_ip_address a h = put32 16 a h"

definition Ipv4_set_checksum :: "u8 list \<Rightarrow> u8 list" where
  "Ipv4_set_checksum h =
     (let h = put16 10 0 h; checksum = oc_sum 0 (be_words (take 20 h)) in put16 10 (NOT checksum) h)"

definition get_default_ttl :: u8 where "get_default_ttl = 128"

definition create_default_ipv4_header ::
  "usize \<Rightarrow> u16 \<Rightarrow> u8 \<Rightarrow> u8 \<Rightarrow> u32 \<Rightarrow> u32 \<Rightarrow> u8 list \<Rightarrow> NetworkError + u8 list" where
  "create_default_ipv4_header data_size i ttl protocol sender_ipv4_address destination_ipv4_address header_buffer =
     (if data_size > ucast MAX_PACKET_SIZE - IPV4_DEFAULT_HEADER_SIZE then Inl DataSizeError
      else if of_nat (length header_buffer) < IPV4_DEFAULT_HEADER_SIZE then Inl DataSizeError
      else Inr (Ipv4_set_checksum (set_destination_ip_address destination_ipv4_address
        (set_sender_ip_address sender_ipv4_address (set_protocol protocol (set_ttl ttl
        (clear_flag_and_fragment_offset (set_id i (set_packet_length (ucast (data_size + IPV4_DEFAULT_HEADER_SIZE))
        (set_type_of_service 0 (set_version_and_header_length header_buffer)))))))))))"

section \<open>Received packets\<close>

definition IPV4_PROTOCOL_UDP :: u8 where "IPV4_PROTOCOL_UDP = 0x11"
definition IPV4_PROTOCOL_TCP :: u8 where "IPV4_PROTOCOL_TCP = 0x06"

text \<open>What becomes of a packet: dropped, or passed on with the offset and the size of its segment.\<close>

datatype ip_result = Ip_dropped | Ip_to_udp usize usize Ipv4ConnectionInfo | Ip_to_tcp usize usize Ipv4ConnectionInfo

definition ipv4_packet_handler :: "u8 list \<Rightarrow> MSize \<Rightarrow> usize \<Rightarrow> ip_result" where
  "ipv4_packet_handler buffer data_length packet_offset =
     (let h = drop (unat packet_offset) buffer
      in if data_length < packet_offset + IPV4_DEFAULT_HEADER_SIZE \<or> get_version h \<noteq> IPV4_VERSION then Ip_dropped
         else
           let header_length = Ipv4_get_header_length h; packet_size = get_packet_length h
           in if ucast packet_size + packet_offset > data_length then Ip_dropped
              else if is_more_packet_flag_on h then Ip_dropped
              else
                let info = \<lparr>sender_address = get_sender_ip_address h, destination_address = get_destination_ip_address h\<rparr>
                in if get_protocol h = IPV4_PROTOCOL_UDP
                   then Ip_to_udp (packet_offset + header_length) (ucast packet_size - header_length) info
                   else if get_protocol h = IPV4_PROTOCOL_TCP
                   then Ip_to_tcp (packet_offset + header_length) (ucast packet_size - header_length) info
                   else Ip_dropped)"

text \<open>The default addresses of the devices; zero is none.\<close>

definition get_default_ipv4_address :: "u32 list \<Rightarrow> usize \<Rightarrow> u32 option" where
  "get_default_ipv4_address as device_id =
     (if unat device_id < length as then if as ! unat device_id = 0 then None else Some (as ! unat device_id) else None)"

definition set_default_ipv4_address :: "usize \<Rightarrow> u32 \<Rightarrow> u32 list \<Rightarrow> u32 list" where
  "set_default_ipv4_address device_id address as =
     (let as = (if length as \<le> unat device_id then as @ replicate (unat device_id + 1 - length as) 0 else as)
      in as[unat device_id := address])"

section \<open>UDP segments\<close>

definition UDP_HEADER_SIZE :: usize where "UDP_HEADER_SIZE = 8"

record UdpConnectionInfo =
  udp_sender_port :: u16
  udp_destination_port :: u16

record UdpSegmentInfo =
  udp_connection_info :: UdpConnectionInfo
  udp_payload_size :: usize

definition UdpConnectionInfo_new :: "u16 \<Rightarrow> u16 \<Rightarrow> UdpConnectionInfo" where
  "UdpConnectionInfo_new our_port their_port = \<lparr>udp_sender_port = their_port, udp_destination_port = our_port\<rparr>"

definition Udp_get_sender_port :: "u8 list \<Rightarrow> u16" where "Udp_get_sender_port h = get16 h 0"
definition Udp_set_sender_port :: "u16 \<Rightarrow> u8 list \<Rightarrow> u8 list" where "Udp_set_sender_port p h = put16 0 p h"
definition Udp_get_destination_port :: "u8 list \<Rightarrow> u16" where "Udp_get_destination_port h = get16 h 2"
definition Udp_set_destination_port :: "u16 \<Rightarrow> u8 list \<Rightarrow> u8 list" where "Udp_set_destination_port p h = put16 2 p h"
definition get_segment_length :: "u8 list \<Rightarrow> u16" where "get_segment_length h = get16 h 4"
definition set_segment_length :: "u16 \<Rightarrow> u8 list \<Rightarrow> u8 list" where "set_segment_length l h = put16 4 l h"

definition create_ipv4_udp_header ::
  "u8 list \<Rightarrow> u16 \<Rightarrow> u32 \<Rightarrow> u16 \<Rightarrow> u32 \<Rightarrow> u16 \<Rightarrow> NetworkError + u8 list" where
  "create_ipv4_udp_header d sender_port sender_ipv4_address destination_port destination_ipv4_address ipv4_packet_id =
     (if of_nat (length d) + UDP_HEADER_SIZE > (0xffff :: usize) then Inl DataSizeError
      else
        let udp_header = set_segment_length (ucast (of_nat (length d) + UDP_HEADER_SIZE))
              (Udp_set_destination_port destination_port (Udp_set_sender_port sender_port (replicate 8 0)))
        in case create_default_ipv4_header (ucast (get_segment_length udp_header)) ipv4_packet_id get_default_ttl IPV4_PROTOCOL_UDP
                  sender_ipv4_address destination_ipv4_address (replicate 20 0) of
             Inl e \<Rightarrow> Inl e
           | Inr ipv4_header \<Rightarrow> Inr (ipv4_header @ udp_header))"

text \<open>What becomes of a segment: dropped, or given to the sockets with the offset of its payload.\<close>

datatype udp_result = Udp_dropped | Udp_deliver UdpSegmentInfo usize

definition udp_ipv4_segment_handler :: "u8 list \<Rightarrow> MSize \<Rightarrow> usize \<Rightarrow> usize \<Rightarrow> udp_result" where
  "udp_ipv4_segment_handler buffer data_length segment_offset segment_size =
     (if segment_offset + UDP_HEADER_SIZE > data_length then Udp_dropped
      else
        let h = drop (unat segment_offset) buffer
        in if segment_size \<noteq> ucast (get_segment_length h) then Udp_dropped
           else Udp_deliver
             \<lparr>udp_connection_info = \<lparr>udp_sender_port = Udp_get_sender_port h, udp_destination_port = Udp_get_destination_port h\<rparr>,
              udp_payload_size = ucast (get_segment_length h) - UDP_HEADER_SIZE\<rparr>
             (segment_offset + UDP_HEADER_SIZE))"

section \<open>Headers\<close>

lemmas ipv4_setters = set_version_and_header_length_def set_type_of_service_def set_packet_length_def set_id_def
  clear_flag_and_fragment_offset_def set_ttl_def set_protocol_def set_sender_ip_address_def set_destination_ip_address_def

lemmas ipv4_getters = get_version_def Ipv4_get_header_length_def get_packet_length_def get_id_def is_more_packet_flag_on_def
  get_ttl_def get_protocol_def get_sender_ip_address_def get_destination_ip_address_def

text \<open>What the fields of a header say.\<close>

definition ipv4_header :: "u8 list \<Rightarrow> usize \<Rightarrow> u16 \<Rightarrow> u8 \<Rightarrow> u8 \<Rightarrow> u32 \<Rightarrow> u32 \<Rightarrow> bool" where
  "ipv4_header h data_size i ttl protocol src dst \<longleftrightarrow>
     get_version h = IPV4_VERSION \<and> Ipv4_get_header_length h = IPV4_DEFAULT_HEADER_SIZE \<and>
     ucast (get_packet_length h) = data_size + IPV4_DEFAULT_HEADER_SIZE \<and> get_id h = i \<and> \<not> is_more_packet_flag_on h \<and>
     get_ttl h = ttl \<and> get_protocol h = protocol \<and> get_sender_ip_address h = src \<and> get_destination_ip_address h = dst"

lemma ucast_16_64: "v \<le> 0xffff \<Longrightarrow> ucast (ucast (v :: usize) :: u16) = v"
  by (simp add: word_le_nat_alt word_unat_eq_iff unsigned_ucast_eq unsigned_take_bit_eq take_bit_nat_eq_self)

lemma create_ipv4_ok:
  assumes d: "data_size \<le> 65515" and l: "length b = 20"
  shows "\<exists>h. create_default_ipv4_header data_size i ttl protocol src dst b = Inr h \<and> length h = 20 \<and>
     ipv4_header h data_size i ttl protocol src dst \<and> oc_sum 0 (be_words h) = 0xffff"
proof -
  let ?b = "put32 16 dst (put32 12 src (put8 9 protocol (put8 8 ttl (put16 6 0 (put16 4 i
     (put16 2 (ucast (data_size + IPV4_DEFAULT_HEADER_SIZE)) (put8 1 0 (put8 0 0x45 b))))))))"
  let ?c = "NOT (oc_sum 0 (be_words (put16 10 0 ?b)))"
  let ?h = "put16 10 ?c ?b"
  have v: "push_bit 4 IPV4_VERSION OR IPV4_DEFAULT_IHL = 0x45" by (simp add: IPV4_VERSION_def IPV4_DEFAULT_IHL_def push_bit_eq_mult)
  have lb: "length ?b = 20" by (simp add: l)
  have "create_default_ipv4_header data_size i ttl protocol src dst b = Inr ?h"
    using d l by (simp add: create_default_ipv4_header_def MAX_PACKET_SIZE_def IPV4_DEFAULT_HEADER_SIZE_def ipv4_setters Ipv4_set_checksum_def v Let_def not_less [symmetric])
  moreover have "ipv4_header ?h data_size i ttl protocol src dst"
  proof -
    have "data_size + 20 \<le> 0xffff" using d by (simp add: word_le_nat_alt unat_word_ariths)
    then show ?thesis using l
      by (simp add: ipv4_header_def ipv4_getters field_simps_be IPV4_VERSION_def IPV4_DEFAULT_HEADER_SIZE_def ucast_16_64)
  qed
  moreover have "oc_sum 0 (be_words ?h) = 0xffff"
    using checksum_field_verifies [of 10 ?b "[]" "[]"] lb by simp
  ultimately show ?thesis using l by auto
qed

lemma ipv4_header_append: "length h = 20 \<Longrightarrow> ipv4_header (h @ r) = ipv4_header h"
  by (rule ext)+ (simp add: ipv4_header_def ipv4_getters get_append)

text \<open>A received packet with a correct header is passed on with its segment.\<close>

lemma ipv4_handler_accepts:
  assumes h: "length h = 20" "ipv4_header h data_size i ttl protocol src dst" and d: "data_size \<le> 65515"
    and len: "unat data_size \<le> length r" "length pre + 20 + length r < 2 ^ 63"
  shows "ipv4_packet_handler (pre @ h @ r) (of_nat (length pre + 20 + length r)) (of_nat (length pre)) =
     (if protocol = IPV4_PROTOCOL_UDP then Ip_to_udp (of_nat (length pre + 20)) data_size \<lparr>sender_address = src, destination_address = dst\<rparr>
      else if protocol = IPV4_PROTOCOL_TCP then Ip_to_tcp (of_nat (length pre + 20)) data_size \<lparr>sender_address = src, destination_address = dst\<rparr>
      else Ip_dropped)"
proof -
  have up: "unat (of_nat (length pre) :: usize) = length pre" using len(2) by (simp add: unat_of_nat)
  have ul: "unat (of_nat (length pre + 20 + length r) :: usize) = length pre + 20 + length r"
    using len(2) by (simp only: unat_of_nat) simp
  have hr: "ipv4_header (h @ r) data_size i ttl protocol src dst" using h ipv4_header_append by metis
  have pl: "unat data_size \<le> 65515" using d by (simp add: word_le_nat_alt)
  have "unat (of_nat (length pre) + 20 :: usize) = length pre + 20" using len(2) up by (simp add: unat_word_ariths)
  then have c1: "\<not> of_nat (length pre + 20 + length r) < (of_nat (length pre) + 20 :: usize)" unfolding word_less_nat_alt ul by simp
  have "unat (data_size + 20 + of_nat (length pre)) = unat data_size + 20 + length pre"
    using len(2) pl up by (simp add: unat_word_ariths)
  then have c2: "\<not> data_size + 20 + of_nat (length pre) > (of_nat (length pre + 20 + length r) :: usize)"
    unfolding word_less_nat_alt ul using len(1) by simp
  show ?thesis
    using hr c1 c2 up by (simp add: ipv4_packet_handler_def ipv4_header_def IPV4_DEFAULT_HEADER_SIZE_def Let_def add.commute)
qed

lemma create_udp_ok:
  assumes "length d \<le> 65507"
  shows "\<exists>h u. create_ipv4_udp_header d sp src dp dst i = Inr (h @ u) \<and> length h = 20 \<and> length u = 8 \<and>
     ipv4_header h (of_nat (length d) + 8) i get_default_ttl IPV4_PROTOCOL_UDP src dst \<and> oc_sum 0 (be_words h) = 0xffff \<and>
     Udp_get_sender_port u = sp \<and> Udp_get_destination_port u = dp \<and> ucast (get_segment_length u) = (of_nat (length d) + 8 :: usize)"
proof -
  let ?n = "of_nat (length d) + 8 :: usize"
  let ?u = "put16 4 (ucast ?n) (put16 2 dp (put16 0 sp (replicate 8 0)))"
  have ud: "unat (of_nat (length d) :: usize) = length d" using assms by (simp add: unat_of_nat)
  then have un: "unat ?n = length d + 8" using assms by (simp add: unat_word_ariths)
  have n: "?n \<le> 65515" "?n \<le> 0xffff" unfolding word_le_nat_alt un using assms by simp_all
  have seg: "ucast (get_segment_length ?u) = ?n" using n(2) by (simp add: get_segment_length_def field_simps_be ucast_16_64)
  obtain h where h: "create_default_ipv4_header ?n i get_default_ttl IPV4_PROTOCOL_UDP src dst (replicate 20 0) = Inr h" "length h = 20"
    "ipv4_header h ?n i get_default_ttl IPV4_PROTOCOL_UDP src dst" "oc_sum 0 (be_words h) = 0xffff"
    using create_ipv4_ok [OF n(1), of "replicate 20 0"] length_replicate [of 20 "0::u8"] by blast
  have "create_ipv4_udp_header d sp src dp dst i = Inr (h @ ?u)"
    using n(2) h(1) seg by (simp add: create_ipv4_udp_header_def UDP_HEADER_SIZE_def set_segment_length_def Udp_set_sender_port_def
        Udp_set_destination_port_def Let_def not_less)
  moreover have "Udp_get_sender_port ?u = sp" "Udp_get_destination_port ?u = dp"
    by (simp_all add: Udp_get_sender_port_def Udp_get_destination_port_def field_simps_be)
  ultimately show ?thesis using h(2-4) seg by (intro exI [of _ h] exI [of _ ?u]) simp
qed

text \<open>What the two handlers make of a datagram behind a link-layer header and followed by padding.\<close>

lemma udp_packet_accepted:
  assumes "length d \<le> 65507" and "length pre + 28 + length d + length pad < 2 ^ 63" and "create_ipv4_udp_header d sp src dp dst i = Inr hu"
  defines "buffer \<equiv> pre @ hu @ d @ pad" and "n \<equiv> of_nat (length d) + 8 :: usize" and "off \<equiv> of_nat (length pre + 20) :: usize"
  shows "ipv4_packet_handler buffer (of_nat (length buffer)) (of_nat (length pre)) = Ip_to_udp off n \<lparr>sender_address = src, destination_address = dst\<rparr>"
    and "udp_ipv4_segment_handler buffer (of_nat (length buffer)) off n =
      Udp_deliver \<lparr>udp_connection_info = \<lparr>udp_sender_port = sp, udp_destination_port = dp\<rparr>, udp_payload_size = of_nat (length d)\<rparr> (of_nat (length pre + 28))"
    and "length hu = 28" and "oc_sum 0 (be_words (take 20 hu)) = 0xffff"
    and "Udp_get_sender_port (drop 20 hu) = sp" and "Udp_get_destination_port (drop 20 hu) = dp"
proof -
  obtain h u where hu: "hu = h @ u" "length h = 20" "length u = 8"
    "ipv4_header h n i get_default_ttl IPV4_PROTOCOL_UDP src dst" "oc_sum 0 (be_words h) = 0xffff"
    "Udp_get_sender_port u = sp" "Udp_get_destination_port u = dp" "ucast (get_segment_length u) = n"
    using create_udp_ok [OF assms(1), of sp src dp dst i] assms(3) unfolding n_def by auto
  let ?r = "u @ d @ pad"
  have ud: "unat (of_nat (length d) :: usize) = length d" using assms(1) by (simp add: unat_of_nat)
  then have un: "unat n = length d + 8" using assms(1) by (simp add: n_def unat_word_ariths)
  have n: "n \<le> 65515" unfolding word_le_nat_alt un using assms(1) by simp
  have b: "buffer = pre @ h @ ?r" by (simp add: buffer_def hu(1))
  have lb: "length buffer = length pre + 20 + length ?r" using hu(2,3) by (simp add: b)
  have r: "unat n \<le> length ?r" "length pre + 20 + length ?r < 2 ^ 63" using un assms(2) hu(3) by simp_all
  show "ipv4_packet_handler buffer (of_nat (length buffer)) (of_nat (length pre)) = Ip_to_udp off n \<lparr>sender_address = src, destination_address = dst\<rparr>"
    unfolding lb unfolding off_def b using ipv4_handler_accepts [OF hu(2,4) n r] by (simp only: refl if_True)
  have uo: "unat off = length pre + 20" unfolding off_def using assms(2) by (simp only: unat_of_nat) simp
  have ul: "unat (of_nat (length buffer) :: usize) = length buffer" unfolding lb using assms(2) hu(2,3) by (simp only: unat_of_nat) simp
  have o8: "off + 8 = of_nat (length pre + 28)" by (simp add: off_def)
  have "unat (of_nat (length pre + 28) :: usize) = length pre + 28" using assms(2) by (simp only: unat_of_nat) simp
  then have "unat (off + 8) = length pre + 28" by (simp only: o8)
  moreover have "length pre + 28 \<le> length buffer" using hu(3) lb by simp
  ultimately have c: "\<not> off + 8 > of_nat (length buffer)" by (simp only: word_less_nat_alt ul not_less)
  have dr: "drop (length pre + 20) buffer = ?r" using hu(2) by (simp add: b)
  show "udp_ipv4_segment_handler buffer (of_nat (length buffer)) off n =
      Udp_deliver \<lparr>udp_connection_info = \<lparr>udp_sender_port = sp, udp_destination_port = dp\<rparr>, udp_payload_size = of_nat (length d)\<rparr> (of_nat (length pre + 28))"
    unfolding udp_ipv4_segment_handler_def UDP_HEADER_SIZE_def uo dr Let_def o8 [symmetric]
    using c hu(3,6-8) by (simp add: get_segment_length_def Udp_get_sender_port_def Udp_get_destination_port_def get_append n_def)
  show "length hu = 28" "oc_sum 0 (be_words (take 20 hu)) = 0xffff" "Udp_get_sender_port (drop 20 hu) = sp" "Udp_get_destination_port (drop 20 hu) = dp"
    using hu by simp_all
qed

section \<open>Properties\<close>

text \<open>
  Property C26. A UDP datagram survives the wire: for at most 65507 bytes the sender makes a header with a
  checksum that verifies, and a receiver that gets header and data, behind a link-layer
  header and followed by padding, delivers exactly these bytes with the ports and addresses of the sender.
\<close>

theorem udp_roundtrip:
  assumes "length d \<le> 65507" and "length pre + 28 + length d + length pad < 2 ^ 63"
  shows "\<exists>h n off info. create_ipv4_udp_header d sp src dp dst i = Inr h \<and> oc_sum 0 (be_words (take 20 h)) = 0xffff \<and>
     (let buffer = pre @ h @ d @ pad
      in ipv4_packet_handler buffer (of_nat (length buffer)) (of_nat (length pre)) =
           Ip_to_udp off n \<lparr>sender_address = src, destination_address = dst\<rparr> \<and>
         udp_ipv4_segment_handler buffer (of_nat (length buffer)) off n = Udp_deliver info (of_nat (length pre + 28)) \<and>
         udp_connection_info info = \<lparr>udp_sender_port = sp, udp_destination_port = dp\<rparr> \<and>
         take (unat (udp_payload_size info)) (drop (length pre + 28) buffer) = d)"
proof -
  obtain h where h: "create_ipv4_udp_header d sp src dp dst i = Inr h" using create_udp_ok [OF assms(1), of sp src dp dst i] by blast
  note u = udp_packet_accepted [OF assms h]
  let ?info = "\<lparr>udp_connection_info = \<lparr>udp_sender_port = sp, udp_destination_port = dp\<rparr>, udp_payload_size = of_nat (length d)\<rparr>"
  have "unat (of_nat (length d) :: usize) = length d" using assms(1) by (simp add: unat_of_nat)
  then have "take (unat (udp_payload_size ?info)) (drop (length pre + 28) (pre @ h @ d @ pad)) = d" using u(3) by simp
  moreover have "udp_connection_info ?info = \<lparr>udp_sender_port = sp, udp_destination_port = dp\<rparr>" by simp
  ultimately show ?thesis using h u(1,2,4) unfolding Let_def by blast
qed

theorem udp_roundtrip_witness:
  "\<exists>h n off info. create_ipv4_udp_header [1, 2, 3] 53 0x0a000001 68 0x0a000002 7 = Inr h \<and>
     ipv4_packet_handler (replicate 14 0 @ h @ [1, 2, 3] @ [0]) (of_nat (length (replicate 14 (0::u8) @ h @ [1, 2, 3] @ [0]))) 14 =
       Ip_to_udp off n \<lparr>sender_address = 0x0a000001, destination_address = 0x0a000002\<rparr> \<and>
     udp_ipv4_segment_handler (replicate 14 0 @ h @ [1, 2, 3] @ [0]) (of_nat (length (replicate 14 (0::u8) @ h @ [1, 2, 3] @ [0]))) off n =
       Udp_deliver info 42 \<and>
     udp_connection_info info = \<lparr>udp_sender_port = 53, udp_destination_port = 68\<rparr>"
proof -
  have l: "length [1 :: u8, 2, 3] \<le> 65507" "length (replicate 14 (0 :: u8)) + 28 + length [1 :: u8, 2, 3] + length [0 :: u8] < 2 ^ 63" by simp_all
  have e: "of_nat (length (replicate 14 (0 :: u8))) = (14 :: usize)" "of_nat (length (replicate 14 (0 :: u8)) + 28) = (42 :: usize)" by simp_all
  show ?thesis using udp_roundtrip [OF l, of 53 "0x0a000001" 68 "0x0a000002" 7] unfolding Let_def e by blast
qed

text \<open>
  Remark. The header length of a received packet is not checked: a packet whose total length is smaller than its header
  length passes all tests of the IPv4 handler, and the size of its segment wraps around to almost \<open>2 ^ 64\<close>
  bytes at an offset behind the buffer, which the TCP handler accepts and reads.
\<close>

theorem ipv4_header_length_unchecked:
  "ipv4_packet_handler [0x4f, 0, 0, 20, 0, 0, 0, 0, 0, 6, 0, 0, 0, 0, 0, 0, 0, 0, 0, 0] 20 0 =
     Ip_to_tcp 60 (- 40) \<lparr>sender_address = 0, destination_address = 0\<rparr>"
  by (simp add: ipv4_packet_handler_def IPV4_DEFAULT_HEADER_SIZE_def get_version_def Ipv4_get_header_length_def get_packet_length_def
      is_more_packet_flag_on_def get_sender_ip_address_def get_destination_ip_address_def get_protocol_def IPV4_VERSION_def
      IPV4_PROTOCOL_UDP_def IPV4_PROTOCOL_TCP_def get8_def get16_def get32_def from_be_bytes16_def Let_def)

text \<open>
  Remark. A UDP segment that claims a length below the size of its header is accepted and the size of
  its payload wraps around: the sockets are told that almost \<open>2 ^ 64\<close> bytes were received.
\<close>

theorem udp_short_length_wraps:
  assumes "get16 h 4 < 8" and "length h \<ge> 8" and "length h < 2 ^ 63"
  shows "\<exists>info. udp_ipv4_segment_handler h (of_nat (length h)) 0 (ucast (get16 h 4)) = Udp_deliver info 8 \<and>
     2 ^ 64 - 8 \<le> unat (udp_payload_size info)"
proof -
  let ?n = "ucast (get16 h 4) :: usize"
  have "take_bit 64 (unat (get16 h 4)) \<le> unat (get16 h 4)" by (rule take_bit_nat_less_eq_self)
  also have "unat (get16 h 4) < 8" using assms(1) by (simp add: word_less_nat_alt)
  finally have n: "unat ?n < 8" by (simp add: unsigned_ucast_eq)
  have "unat (of_nat (length h) :: usize) = length h" using assms(3) by (simp add: unat_of_nat)
  then have c: "\<not> 8 > (of_nat (length h) :: usize)" using assms(2) by (simp add: word_less_nat_alt)
  have "unat (?n - 8) = 2 ^ 64 + unat ?n - 8" using n by (simp add: unat_sub_if_size word_size word_le_nat_alt)
  then have "2 ^ 64 - 8 \<le> unat (?n - 8)" by simp
  then show ?thesis using c by (simp add: udp_ipv4_segment_handler_def UDP_HEADER_SIZE_def get_segment_length_def Let_def)
qed

theorem udp_short_length_wraps_witness:
  "\<exists>info. udp_ipv4_segment_handler [0, 1, 0, 2, 0, 4, 0, 0] 8 0 4 = Udp_deliver info 8 \<and> 2 ^ 64 - 8 \<le> unat (udp_payload_size info)"
  using udp_short_length_wraps [of "[0, 1, 0, 2, 0, 4, 0, 0]"] by (simp add: get16_def from_be_bytes16_def)

end
