(* ===== verification/Tcp_Header.thy ===== *)
theory Tcp_Header
  imports Ipv4_Udp
begin

text \<open>
  TCP headers, \<open>DefaultTcpSegment\<close> and \<open>create_ipv4_tcp_header\<close> of \<open>kernel/network_manager/tcp.rs\<close>,
  for the little-endian target: the fields at their offsets, the flags and the checksum over the
  pseudo header, the header and the data.
\<close>

declare push_bit_of_1 [simp del] bit_numeral_word_iff [simp del]

section \<open>Fields\<close>

definition TCP_DEFAULT_HEADER_SIZE :: usize where "TCP_DEFAULT_HEADER_SIZE = 20"
definition MAX_SEGMENT_SIZE :: usize where "MAX_SEGMENT_SIZE = 1460"

definition Tcp_get_sender_port :: "u8 list \<Rightarrow> u16" where "Tcp_get_sender_port h = get16 h 0"
definition Tcp_set_sender_port :: "u16 \<Rightarrow> u8 list \<Rightarrow> u8 list" where "Tcp_set_sender_port p h = put16 0 p h"
definition Tcp_get_destination_port :: "u8 list \<Rightarrow> u16" where "Tcp_get_destination_port h = get16 h 2"
definition Tcp_set_destination_port :: "u16 \<Rightarrow> u8 list \<Rightarrow> u8 list" where "Tcp_set_destination_port p h = put16 2 p h"
definition Tcp_get_sequence_number :: "u8 list \<Rightarrow> u32" where "Tcp_get_sequence_number h = get32 h 4"
definition Tcp_set_sequence_number :: "u32 \<Rightarrow> u8 list \<Rightarrow> u8 list" where "Tcp_set_sequence_number n h = put32 4 n h"
definition Tcp_get_acknowledgement_number :: "u8 list \<Rightarrow> u32" where "Tcp_get_acknowledgement_number h = get32 h 8"
definition Tcp_set_acknowledgement_number :: "u32 \<Rightarrow> u8 list \<Rightarrow> u8 list" where "Tcp_set_acknowledgement_number n h = put32 8 n h"
definition Tcp_get_window_size :: "u8 list \<Rightarrow> u16" where "Tcp_get_window_size h = get16 h 14"
definition Tcp_set_window_size :: "u16 \<Rightarrow> u8 list \<Rightarrow> u8 list" where "Tcp_set_window_size w h = put16 14 w h"

definition Tcp_get_header_length :: "u8 list \<Rightarrow> usize" where
  "Tcp_get_header_length h = ucast (drop_bit 4 (get8 h 12)) * 4"

definition Tcp_set_header_length :: "u8 \<Rightarrow> u8 list \<Rightarrow> u8 list" where
  "Tcp_set_header_length l h = put8 12 ((get8 h 12 AND NOT 0xf0) OR push_bit 4 (drop_bit 2 l)) h"

definition is_fin_active :: "u8 list \<Rightarrow> bool" where "is_fin_active h \<longleftrightarrow> get8 h 13 AND 1 \<noteq> 0"
definition set_fin_active :: "u8 list \<Rightarrow> u8 list" where "set_fin_active h = put8 13 (get8 h 13 OR 1) h"
definition is_syn_active :: "u8 list \<Rightarrow> bool" where "is_syn_active h \<longleftrightarrow> get8 h 13 AND 2 \<noteq> 0"
definition set_syn_active :: "u8 list \<Rightarrow> u8 list" where "set_syn_active h = put8 13 (get8 h 13 OR 2) h"
definition is_rst_active :: "u8 list \<Rightarrow> bool" where "is_rst_active h \<longleftrightarrow> get8 h 13 AND 4 \<noteq> 0"
definition set_rst_active :: "u8 list \<Rightarrow> u8 list" where "set_rst_active h = put8 13 (get8 h 13 OR 4) h"
definition is_psh_active :: "u8 list \<Rightarrow> bool" where "is_psh_active h \<longleftrightarrow> get8 h 13 AND 8 \<noteq> 0"
definition set_psh_active :: "u8 list \<Rightarrow> u8 list" where "set_psh_active h = put8 13 (get8 h 13 OR 8) h"
definition is_ack_active :: "u8 list \<Rightarrow> bool" where "is_ack_active h \<longleftrightarrow> get8 h 13 AND 16 \<noteq> 0"
definition set_ack_active :: "u8 list \<Rightarrow> u8 list" where "set_ack_active h = put8 13 (get8 h 13 OR 16) h"

definition pre_header :: "u32 \<Rightarrow> u32 \<Rightarrow> u16 \<Rightarrow> u8 list" where
  "pre_header sender_ipv4_address destination_ipv4_address packet_length =
     to_be_bytes32 sender_ipv4_address @ to_be_bytes32 destination_ipv4_address @ [0, IPV4_PROTOCOL_TCP] @ to_be_bytes16 packet_length"

text \<open>\<open>calc_checksum\<close> on the three parts, one after the other.\<close>

definition set_checksum_ipv4 :: "u32 \<Rightarrow> u32 \<Rightarrow> u16 \<Rightarrow> u8 list \<Rightarrow> u8 list \<Rightarrow> u8 list" where
  "set_checksum_ipv4 sender_ipv4_address destination_ipv4_address tcp_header_length d h =
     (let h = put16 16 0 h;
          packet_length = of_nat (length d) + tcp_header_length;
          checksum = oc_sum 0 (be_words (pre_header sender_ipv4_address destination_ipv4_address packet_length));
          checksum = oc_sum checksum (be_words (take (unat tcp_header_length) h));
          checksum = oc_sum checksum (be_words d)
      in put16 16 (NOT checksum) h)"

record TcpSegmentInfo =
  seg_sender_port :: u16
  seg_destination_port :: u16
  seg_sequence_number :: u32
  seg_acknowledgement_number :: u32
  seg_window_size :: u16

definition create_ipv4_tcp_header ::
  "TcpSegmentInfo \<Rightarrow> u8 list \<Rightarrow> bool \<Rightarrow> bool \<Rightarrow> bool \<Rightarrow> bool \<Rightarrow> u16 \<Rightarrow> u32 \<Rightarrow> u32 \<Rightarrow> NetworkError + u8 list" where
  "create_ipv4_tcp_header segment_info d fin syn ack psh ipv4_packet_id sender_ipv4_address destination_ipv4_address =
     (let t = Tcp_set_header_length (ucast TCP_DEFAULT_HEADER_SIZE) (replicate 20 0);
          t = (if fin then set_fin_active t else t);
          t = (if syn then set_syn_active t else t);
          t = (if ack then set_ack_active t else t);
          t = (if psh then set_psh_active t else t);
          t = Tcp_set_window_size (seg_window_size segment_info)
                (Tcp_set_sequence_number (seg_sequence_number segment_info)
                (Tcp_set_acknowledgement_number (seg_acknowledgement_number segment_info)
                (Tcp_set_sender_port (seg_sender_port segment_info)
                (Tcp_set_destination_port (seg_destination_port segment_info) t))));
          t = set_checksum_ipv4 sender_ipv4_address destination_ipv4_address (ucast TCP_DEFAULT_HEADER_SIZE) d t
      in case create_default_ipv4_header (TCP_DEFAULT_HEADER_SIZE + of_nat (length d)) ipv4_packet_id get_default_ttl IPV4_PROTOCOL_TCP
                sender_ipv4_address destination_ipv4_address (replicate 20 0) of
           Inl e \<Rightarrow> Inl e
         | Inr i \<Rightarrow> Inr (i @ t))"

section \<open>Headers that were created\<close>

lemmas tcp_setters = Tcp_set_sender_port_def Tcp_set_destination_port_def Tcp_set_sequence_number_def
  Tcp_set_acknowledgement_number_def Tcp_set_window_size_def Tcp_set_header_length_def

lemmas tcp_getters = Tcp_get_sender_port_def Tcp_get_destination_port_def Tcp_get_sequence_number_def
  Tcp_get_acknowledgement_number_def Tcp_get_window_size_def Tcp_get_header_length_def
  is_fin_active_def is_syn_active_def is_rst_active_def is_psh_active_def is_ack_active_def

lemmas tcp_flag_setters = set_fin_active_def set_syn_active_def set_psh_active_def set_ack_active_def

text \<open>What the fields of a TCP header say.\<close>

definition tcp_header :: "u8 list \<Rightarrow> TcpSegmentInfo \<Rightarrow> bool \<Rightarrow> bool \<Rightarrow> bool \<Rightarrow> bool \<Rightarrow> bool" where
  "tcp_header t i fin syn ack psh \<longleftrightarrow>
     Tcp_get_sender_port t = seg_sender_port i \<and> Tcp_get_destination_port t = seg_destination_port i \<and>
     Tcp_get_sequence_number t = seg_sequence_number i \<and> Tcp_get_acknowledgement_number t = seg_acknowledgement_number i \<and>
     Tcp_get_window_size t = seg_window_size i \<and> Tcp_get_header_length t = TCP_DEFAULT_HEADER_SIZE \<and>
     is_fin_active t = fin \<and> is_syn_active t = syn \<and> is_ack_active t = ack \<and> is_psh_active t = psh \<and> \<not> is_rst_active t"

text \<open>The flag byte that the four conditional settings make.\<close>

definition flag_byte :: "bool \<Rightarrow> bool \<Rightarrow> bool \<Rightarrow> bool \<Rightarrow> u8" where
  "flag_byte fin syn ack psh = (if fin then 1 else 0) OR (if syn then 2 else 0) OR (if ack then 16 else 0) OR (if psh then 8 else 0)"

lemma flag_byte_bits:
  "flag_byte fin syn ack psh AND 1 \<noteq> 0 \<longleftrightarrow> fin" "flag_byte fin syn ack psh AND 2 \<noteq> 0 \<longleftrightarrow> syn"
  "flag_byte fin syn ack psh AND 4 = 0" "flag_byte fin syn ack psh AND 8 \<noteq> 0 \<longleftrightarrow> psh"
  "flag_byte fin syn ack psh AND 16 \<noteq> 0 \<longleftrightarrow> ack"
  by (cases fin; cases syn; cases ack; cases psh; simp add: flag_byte_def)+

lemma tcp_flags_set:
  "(let t = put8 12 0x50 (replicate 20 0); t = (if fin then set_fin_active t else t); t = (if syn then set_syn_active t else t);
        t = (if ack then set_ack_active t else t) in if psh then set_psh_active t else t) =
   put8 13 (flag_byte fin syn ack psh) (put8 12 0x50 (replicate 20 0))"
proof -
  have z: "(replicate 20 (0 :: u8))[13 := 0] = replicate 20 0" by (simp add: list_update_same_conv)
  show ?thesis
    by (cases fin; cases syn; cases ack; cases psh)
      (simp_all add: Let_def tcp_flag_setters flag_byte_def get8_def put8_def list_update_swap z)
qed

lemma create_tcp_ok:
  assumes d: "length d \<le> 65495"
  shows "\<exists>h t. create_ipv4_tcp_header i d fin syn ack psh pid src dst = Inr (h @ t) \<and> length h = 20 \<and> length t = 20 \<and>
     ipv4_header h (20 + of_nat (length d)) pid get_default_ttl IPV4_PROTOCOL_TCP src dst \<and> oc_sum 0 (be_words h) = 0xffff \<and>
     tcp_header t i fin syn ack psh \<and>
     oc_sum 0 (be_words (pre_header src dst (of_nat (length d) + 20)) @ be_words t @ be_words d) = 0xffff"
proof -
  let ?n = "20 + of_nat (length d) :: usize"
  let ?b = "put16 14 (seg_window_size i) (put32 4 (seg_sequence_number i) (put32 8 (seg_acknowledgement_number i)
     (put16 0 (seg_sender_port i) (put16 2 (seg_destination_port i) (put8 13 (flag_byte fin syn ack psh) (put8 12 0x50 (replicate 20 0)))))))"
  let ?ph = "be_words (pre_header src dst (of_nat (length d) + 20))"
  let ?c = "NOT (oc_sum 0 (?ph @ be_words (put16 16 0 ?b) @ be_words d))"
  let ?t = "put16 16 ?c ?b"
  have "unat (of_nat (length d) :: usize) = length d" using d by (simp add: unat_of_nat)
  then have un: "unat ?n = 20 + length d" using d by (simp add: unat_word_ariths)
  have n: "?n \<le> 65515" unfolding word_le_nat_alt un using d by simp
  obtain h where h: "create_default_ipv4_header ?n pid get_default_ttl IPV4_PROTOCOL_TCP src dst (replicate 20 0) = Inr h" "length h = 20"
    "ipv4_header h ?n pid get_default_ttl IPV4_PROTOCOL_TCP src dst" "oc_sum 0 (be_words h) = 0xffff"
    using create_ipv4_ok [OF n, of "replicate 20 0"] length_replicate [of 20 "0::u8"] by blast
  have hl: "Tcp_set_header_length (ucast TCP_DEFAULT_HEADER_SIZE) (replicate 20 0) = put8 12 0x50 (replicate 20 0)"
    by (simp add: Tcp_set_header_length_def TCP_DEFAULT_HEADER_SIZE_def get8_def drop_bit_eq_div push_bit_eq_mult)
  have cs: "set_checksum_ipv4 src dst (ucast TCP_DEFAULT_HEADER_SIZE) d ?b = ?t"
    by (simp add: set_checksum_ipv4_def Let_def TCP_DEFAULT_HEADER_SIZE_def oc_sum_append)
  have "create_ipv4_tcp_header i d fin syn ack psh pid src dst = Inr (h @ ?t)"
    unfolding create_ipv4_tcp_header_def hl
    using h(1) cs tcp_flags_set [of fin syn ack psh] by (simp add: Let_def tcp_setters TCP_DEFAULT_HEADER_SIZE_def)
  moreover have "tcp_header ?t i fin syn ack psh"
    by (simp add: tcp_header_def tcp_getters field_simps_be flag_byte_bits TCP_DEFAULT_HEADER_SIZE_def drop_bit_eq_div)
  moreover have "oc_sum 0 (?ph @ be_words ?t @ be_words d) = 0xffff"
    by (rule checksum_field_verifies) simp_all
  ultimately show ?thesis using h(2-4) by (intro exI [of _ h] exI [of _ ?t]) simp
qed

end
