(* ===== verification/Ring_Buffer.thy ===== *)
theory Ring_Buffer
  imports Data_Type
begin

text \<open>
  The byte ring of \<open>kernel/collections/ring_buffer.rs\<close>. Memory is a function from addresses
  to bytes, so that the copies are modelled with the addresses and lengths the code
  computes. \<open>read_ptr\<close> is the position of the byte read last and \<open>write_ptr\<close> the next one to
  write.
\<close>

section \<open>Operations\<close>

type_synonym bytes_at = "usize \<Rightarrow> u8"

definition copy_nonoverlapping :: "usize \<Rightarrow> usize \<Rightarrow> usize \<Rightarrow> bytes_at \<Rightarrow> bytes_at" where
  "copy_nonoverlapping src dst n m = (\<lambda>a. if a - dst < n then m (src + (a - dst)) else m a)"

record Ringbuffer =
  ring_buffer :: VAddress
  ring_size :: MSize
  write_ptr :: usize
  read_ptr :: usize

definition Ringbuffer_new :: Ringbuffer where
  "Ringbuffer_new = \<lparr>ring_buffer = 0, ring_size = 0, write_ptr = 0, read_ptr = 0\<rparr>"

definition get_buffer_address :: "Ringbuffer \<Rightarrow> VAddress" where
  "get_buffer_address r = ring_buffer r"

definition get_buffer_size :: "Ringbuffer \<Rightarrow> MSize" where
  "get_buffer_size r = ring_size r"

definition is_power_of_two :: "usize \<Rightarrow> bool" where
  "is_power_of_two n \<longleftrightarrow> n \<noteq> 0 \<and> and n (n - 1) = 0"

definition set_new_buffer :: "Ringbuffer \<Rightarrow> VAddress \<Rightarrow> MSize \<Rightarrow> (unit, Ringbuffer) outcome" where
  "set_new_buffer r b n =
     (if n = 0 then Panic
      else if \<not> is_power_of_two n then Panic
      else Ok \<lparr>ring_buffer = b, ring_size = n, write_ptr = 0, read_ptr = n - 1\<rparr>)"

definition unset_buffer :: "Ringbuffer \<Rightarrow> Ringbuffer" where
  "unset_buffer r = Ringbuffer_new"

definition add_pointer :: "Ringbuffer \<Rightarrow> usize \<Rightarrow> usize \<Rightarrow> usize" where
  "add_pointer r p v = and (p + v) (ring_size r - 1)"

definition get_writable_size :: "Ringbuffer \<Rightarrow> MSize" where
  "get_writable_size r =
     (if read_ptr r = write_ptr r then 0
      else if write_ptr r < read_ptr r then read_ptr r - write_ptr r + 1
      else ring_size r - (write_ptr r - read_ptr r - 1))"

definition get_readable_size :: "Ringbuffer \<Rightarrow> MSize" where
  "get_readable_size r = ring_size r - get_writable_size r"

definition Ringbuffer_write ::
  "Ringbuffer \<Rightarrow> bytes_at \<Rightarrow> VAddress \<Rightarrow> MSize \<Rightarrow> MSize \<times> Ringbuffer \<times> bytes_at" where
  "Ringbuffer_write r m buf len =
     (let n = min len (get_writable_size r)
      in if is_zero n then (n, r, m)
         else
           let start = write_ptr r;
               r' = r\<lparr>write_ptr := add_pointer r (write_ptr r) n\<rparr>;
               m1 = copy_nonoverlapping buf (ring_buffer r + start) (min (ring_buffer r - start) n) m;
               m2 = (if start \<ge> write_ptr r'
                     then copy_nonoverlapping (buf + (ring_buffer r - start)) (ring_buffer r) (write_ptr r') m1
                     else m1)
           in (n, r', m2))"

definition Ringbuffer_read ::
  "Ringbuffer \<Rightarrow> bytes_at \<Rightarrow> VAddress \<Rightarrow> MSize \<Rightarrow> MSize \<times> Ringbuffer \<times> bytes_at" where
  "Ringbuffer_read r m buf len =
     (let n = min len (get_readable_size r)
      in if is_zero n then (n, r, m)
         else
           let start = add_pointer r (read_ptr r) 1;
               r' = r\<lparr>read_ptr := add_pointer r (read_ptr r) n\<rparr>;
               m1 = copy_nonoverlapping (ring_buffer r + start) buf (min (ring_buffer r - start) n) m;
               m2 = (if start \<ge> read_ptr r'
                     then copy_nonoverlapping (ring_buffer r) (buf + ring_buffer r - start) (read_ptr r' + 1) m1
                     else m1)
           in (n, r', m2))"

section \<open>Positions\<close>

text \<open>A ring of \<open>2 ^ k\<close> bytes whose pointers are inside, at an address not below its size.\<close>

definition ring_ok :: "nat \<Rightarrow> Ringbuffer \<Rightarrow> bool" where
  "ring_ok k r \<longleftrightarrow> k < 64 \<and> ring_size r = 2 ^ k \<and> unat (write_ptr r) < 2 ^ k \<and> unat (read_ptr r) < 2 ^ k \<and>
     2 ^ k \<le> unat (ring_buffer r)"

definition ring_empty :: "nat \<Rightarrow> Ringbuffer \<Rightarrow> bool" where
  "ring_empty k r \<longleftrightarrow> unat (read_ptr r) = (unat (write_ptr r) + 2 ^ k - 1) mod 2 ^ k"

lemma unat_add_pointer:
  assumes "k < 64" and "ring_size r = 2 ^ k"
  shows "unat (add_pointer r p v) = (unat p + unat v) mod 2 ^ k"
proof -
  have dvd: "(2 :: nat) ^ k dvd 2 ^ 64" using assms(1) by (intro le_imp_power_dvd) simp
  have "add_pointer r p v = take_bit k (p + v)"
    by (simp add: add_pointer_def assms(2) take_bit_eq_mask mask_eq_exp_minus_1)
  then have "unat (add_pointer r p v) = unat (p + v) mod 2 ^ k"
    by (simp only: take_bit_eq_mask unat_and_mask)
  also have "\<dots> = (unat p + unat v) mod 2 ^ k"
    using mod_mod_cancel [OF dvd] by (simp add: unat_word_ariths)
  finally show ?thesis .
qed

lemma set_new_buffer_empty:
  assumes "k < 64" and "2 ^ k \<le> unat b"
  shows "\<exists>r'. set_new_buffer r b (2 ^ k) = Ok r' \<and> ring_ok k r' \<and> ring_empty k r'"
proof -
  have "and (2 ^ k) (2 ^ k - 1 :: usize) = 0"
    by (rule bit_word_eqI) (auto simp: bit_simps mask_eq_exp_minus_1 [symmetric])
  moreover have "(2 ^ k :: usize) \<noteq> 0" using assms(1) by simp
  moreover have "unat (2 ^ k - 1 :: usize) = 2 ^ k - 1"
    using assms(1) by (simp add: unat_minus_one unat_pow2)
  ultimately show ?thesis using assms
    by (simp add: set_new_buffer_def is_power_of_two_def ring_ok_def ring_empty_def)
qed

lemma empty_cases:
  assumes "ring_ok k r" and "ring_empty k r"
  shows "unat (read_ptr r) = (if write_ptr r = 0 then 2 ^ k - 1 else unat (write_ptr r) - 1)"
proof (cases "write_ptr r = 0")
  case False
  then have "unat (write_ptr r) > 0" by (simp add: unat_gt_0)
  then have "unat (write_ptr r) + 2 ^ k - 1 = (unat (write_ptr r) - 1) + 2 ^ k" by simp
  moreover have "(unat (write_ptr r) - 1) mod 2 ^ k = unat (write_ptr r) - 1"
    using assms(1) by (intro mod_less less_imp_diff_less) (simp add: ring_ok_def)
  ultimately show ?thesis using assms False by (simp add: ring_ok_def ring_empty_def)
qed (use assms in \<open>simp add: ring_empty_def\<close>)

text \<open>What the sizes are after \<open>l\<close> bytes went into an empty ring without wrapping.\<close>

definition filled :: "nat \<Rightarrow> usize \<Rightarrow> nat \<Rightarrow> Ringbuffer \<Rightarrow> bool" where
  "filled k w l r \<longleftrightarrow> ring_ok k r \<and> unat w + l < 2 ^ k \<and> unat (write_ptr r) = unat w + l \<and>
     unat (read_ptr r) = (if w = 0 then 2 ^ k - 1 else unat w - 1)"

lemma empty_filled: "ring_ok k r \<Longrightarrow> ring_empty k r \<Longrightarrow> filled k (write_ptr r) 0 r"
  using empty_cases [of k r] by (simp add: filled_def ring_ok_def)

lemma writable_filled:
  assumes "filled k w l r" and "k > 0"
  shows "unat (get_writable_size r) = (if w = 0 \<and> l = 2 ^ k - 1 then 0 else 2 ^ k - l)"
proof -
  have k: "k < 64" and sz: "unat (ring_size r) = 2 ^ k" and W: "unat (write_ptr r) = unat w + l" "unat w + l < 2 ^ k"
    and R: "unat (read_ptr r) = (if w = 0 then 2 ^ k - 1 else unat w - 1)"
    using assms by (auto simp: filled_def ring_ok_def unat_pow2)
  have two: "(2 :: nat) \<le> 2 ^ k" using assms(2) by (cases k) auto
  have big: "(2 :: nat) ^ k < 2 ^ 64" using k by (rule power_strict_increasing) simp
  consider (full) "w = 0" "l = 2 ^ k - 1" | (start) "w = 0" "l < 2 ^ k - 1" | (mid) "w \<noteq> 0"
    using W by (cases "w = 0") (force, blast)
  then show ?thesis
  proof cases
    case full
    then have "read_ptr r = write_ptr r" using W R by (simp add: word_unat_eq_iff)
    then show ?thesis using full by (simp add: get_writable_size_def)
  next
    case start
    then have lt: "write_ptr r < read_ptr r" using W R by (simp add: word_less_nat_alt)
    then have d: "unat (read_ptr r - write_ptr r) = 2 ^ k - 1 - l" using start W R by (simp add: unat_sub_le)
    have "unat (read_ptr r - write_ptr r + 1) = 2 ^ k - l"
      using d start big by (subst unat_add_noovf) auto
    then show ?thesis using lt start by (auto simp: get_writable_size_def)
  next
    case mid
    then have w: "unat w > 0" by (simp add: unat_gt_0)
    then have lt: "read_ptr r < write_ptr r" using mid W R by (simp add: word_less_nat_alt)
    then have d: "unat (write_ptr r - read_ptr r) = l + 1" using mid W R w by (simp add: unat_sub_le)
    then have "write_ptr r - read_ptr r \<noteq> 0" by (metis add_is_0 one_neq_zero unat_0)
    then have d1: "unat (write_ptr r - read_ptr r - 1) = l" using d by (simp add: unat_minus_one)
    then have "unat (ring_size r - (write_ptr r - read_ptr r - 1)) = 2 ^ k - l"
      using sz W by (subst unat_sub_le) (simp_all add: word_le_nat_alt)
    then show ?thesis using lt mid by (auto simp: get_writable_size_def)
  qed
qed

lemma readable_filled:
  assumes "filled k w l r" and "k > 0"
  shows "unat (get_readable_size r) = (if w = 0 \<and> l = 2 ^ k - 1 then 2 ^ k else l)"
proof -
  have sz: "unat (ring_size r) = 2 ^ k" and l: "l < 2 ^ k" using assms by (auto simp: filled_def ring_ok_def unat_pow2)
  have "get_writable_size r \<le> ring_size r"
    using writable_filled [OF assms] sz by (simp add: word_le_nat_alt)
  then show ?thesis using writable_filled [OF assms] sz l by (simp add: get_readable_size_def unat_sub_le)
qed

text \<open>A write behind \<open>l\<close> bytes that does not reach the end of the ring.\<close>

lemma write_more:
  assumes "filled k w l r" and "0 < len" and "unat w + l + unat len < 2 ^ k"
  defines "r' \<equiv> r\<lparr>write_ptr := write_ptr r + len\<rparr>"
  shows "Ringbuffer_write r m src len = (len, r', copy_nonoverlapping src (ring_buffer r + write_ptr r) len m) \<and>
    filled k w (l + unat len) r'"
proof -
  note ok = assms(1) [unfolded filled_def ring_ok_def]
  have len: "unat len > 0" using assms(2) by (simp add: word_less_nat_alt)
  have k: "k > 0" using assms(3) len by (cases k) auto
  have "(2 :: nat) ^ k < 2 ^ 64" using ok by (intro power_strict_increasing) auto
  then have sum: "unat (write_ptr r + len) = unat (write_ptr r) + unat len" using assms(3) ok by (subst unat_add_noovf) auto
  have "unat (get_writable_size r) = 2 ^ k - l" using writable_filled [OF assms(1) k] assms(3) len by auto
  moreover have "unat len \<le> 2 ^ k - l" using assms(3) by simp
  ultimately have n: "min len (get_writable_size r) = len" by (simp add: min_def word_le_nat_alt)
  have add: "add_pointer r (write_ptr r) len = write_ptr r + len"
    using unat_add_pointer [of k r "write_ptr r" len] ok assms(3) sum by (simp add: word_unat_eq_iff)
  have "unat (ring_buffer r - write_ptr r) = unat (ring_buffer r) - unat (write_ptr r)"
    using ok by (intro unat_sub_le) (simp add: word_le_nat_alt)
  then have "min (ring_buffer r - write_ptr r) len = len"
    using ok assms(3) by (intro min_absorb2) (auto simp: word_le_nat_alt)
  moreover have "\<not> write_ptr r + len \<le> write_ptr r" using sum len by (simp add: word_le_nat_alt)
  moreover have "\<not> is_zero len" using assms(2) by (auto simp: is_zero_def)
  ultimately have "Ringbuffer_write r m src len =
    (len, r', copy_nonoverlapping src (ring_buffer r + write_ptr r) len m)"
    by (simp add: Ringbuffer_write_def n add r'_def Let_def)
  moreover have "filled k w (l + unat len) r'" using ok assms(3) sum by (simp add: filled_def ring_ok_def r'_def)
  ultimately show ?thesis by simp
qed

lemma write_fits:
  assumes "ring_ok k r" and "ring_empty k r" and "0 < len" and "unat (write_ptr r) + unat len < 2 ^ k"
  shows "Ringbuffer_write r m src len =
      (len, r\<lparr>write_ptr := write_ptr r + len\<rparr>, copy_nonoverlapping src (ring_buffer r + write_ptr r) len m) \<and>
    filled k (write_ptr r) (unat len) (r\<lparr>write_ptr := write_ptr r + len\<rparr>)"
  using write_more [OF empty_filled [OF assms(1,2)] assms(3), of m src] assms(4) by simp

lemma read_filled:
  assumes "filled k w (unat len) r" and "2 \<le> unat len"
  defines "r' \<equiv> r\<lparr>read_ptr := w + len - 1\<rparr>"
  shows "Ringbuffer_read r m dst len = (len, r', copy_nonoverlapping (ring_buffer r + w) dst len m) \<and>
    ring_ok k r' \<and> ring_empty k r'"
proof -
  have f: "k < 64" "ring_size r = 2 ^ k" "2 ^ k \<le> unat (ring_buffer r)" "unat w + unat len < 2 ^ k"
      "unat (write_ptr r) = unat w + unat len" and R: "unat (read_ptr r) = (if w = 0 then 2 ^ k - 1 else unat w - 1)"
    using assms(1) by (auto simp: filled_def ring_ok_def)
  have k: "k > 0" using f(4) assms(2) by (cases k) auto
  have "(2 :: nat) ^ k < 2 ^ 64" using f(1) by (intro power_strict_increasing) auto
  then have sum: "unat (w + len) = unat w + unat len" using f(4) by (subst unat_add_noovf) auto
  then have "w + len \<noteq> 0" using assms(2) by (metis add_is_0 le_zero_eq unat_0 zero_neq_numeral)
  then have sum1: "unat (w + len - 1) = unat w + unat len - 1" using sum by (simp add: unat_minus_one)
  have n: "min len (get_readable_size r) = len"
    using readable_filled [OF assms(1) k] f(4) by (intro min_absorb1) (auto simp: word_le_nat_alt)
  have pos: "w \<noteq> 0 \<Longrightarrow> unat w \<ge> 1" using unat_gt_0 [of w] by linarith
  have rw: "(unat (read_ptr r) + l) mod 2 ^ k = unat w + l - 1" if "0 < l" "unat w + l < 2 ^ k" for l
  proof (cases "w = 0")
    case True
    then have "unat (read_ptr r) + l = (l - 1) + 2 ^ k" using R that by simp
    then have "(unat (read_ptr r) + l) mod 2 ^ k = (l - 1) mod 2 ^ k" by (simp only: mod_add_self2)
    then show ?thesis using True that by (simp add: less_imp_diff_less)
  next
    case False
    then have "unat (read_ptr r) + l = unat w + l - 1" using R pos by simp
    then show ?thesis using that by (simp add: less_imp_diff_less)
  qed
  have start: "add_pointer r (read_ptr r) 1 = w"
    using unat_add_pointer [OF f(1,2), of "read_ptr r" 1] rw [of 1] f(4) assms(2) by (simp add: word_unat_eq_iff)
  have add: "add_pointer r (read_ptr r) len = w + len - 1"
    using unat_add_pointer [OF f(1,2), of "read_ptr r" len] rw [of "unat len"] f(4) assms(2) sum1
    by (simp add: word_unat_eq_iff)
  have "unat (ring_buffer r - w) = unat (ring_buffer r) - unat w"
    using f by (intro unat_sub_le) (simp add: word_le_nat_alt)
  then have "min (ring_buffer r - w) len = len" using f by (intro min_absorb2) (simp add: word_le_nat_alt)
  moreover have "\<not> w + len - 1 \<le> w" using sum1 assms(2) by (simp add: word_le_nat_alt)
  moreover have "\<not> is_zero len" using assms(2) by (auto simp: is_zero_def)
  ultimately have "Ringbuffer_read r m dst len = (len, r', copy_nonoverlapping (ring_buffer r + w) dst len m)"
    by (simp add: Ringbuffer_read_def n add start r'_def Let_def)
  moreover have "ring_ok k r' \<and> ring_empty k r'"
  proof -
    have "unat w + unat len + 2 ^ k - 1 = (unat w + unat len - 1) + 2 ^ k" using assms(2) by simp
    then have "(unat w + unat len + 2 ^ k - 1) mod 2 ^ k = (unat w + unat len - 1) mod 2 ^ k"
      by (simp only: mod_add_self2)
    also have "\<dots> = unat w + unat len - 1" using f(4) by (intro mod_less less_imp_diff_less)
    finally have "(unat w + unat len + 2 ^ k - 1) mod 2 ^ k = unat w + unat len - 1" .
    then show ?thesis using f sum1 by (simp add: ring_ok_def ring_empty_def r'_def less_imp_diff_less)
  qed
  ultimately show ?thesis by simp
qed

section \<open>Properties\<close>

text \<open>Property C16. Bytes written into an empty ring, two or more of them and without reaching its
  end, come out of the ring as they went in, the sizes reported are right, and the ring is
  empty again.\<close>

theorem Ringbuffer_roundtrip:
  assumes "ring_ok k r" and "ring_empty k r" and "2 \<le> unat len" and "unat (write_ptr r) + unat len < 2 ^ k"
    and "Ringbuffer_write r m src len = (n1, r1, m1)" and "Ringbuffer_read r1 m1 dst len = (n2, r2, m2)"
    and "i < len"
  shows "n1 = len \<and> n2 = len \<and> m2 (dst + i) = m (src + i) \<and> ring_ok k r2 \<and> ring_empty k r2"
proof -
  have pos: "0 < len" using assms(3) by (simp add: word_less_nat_alt)
  have w: "n1 = len" "m1 = copy_nonoverlapping src (ring_buffer r + write_ptr r) len m"
      "filled k (write_ptr r) (unat len) r1" "ring_buffer r1 = ring_buffer r"
    using write_fits [OF assms(1,2) pos assms(4), of m src] assms(5) by auto
  have rd: "n2 = len" "m2 = copy_nonoverlapping (ring_buffer r + write_ptr r) dst len m1"
      "ring_ok k r2" "ring_empty k r2"
    using read_filled [OF w(3) assms(3), of m1 dst] assms(6) w(4) by auto
  have "m2 (dst + i) = m1 (ring_buffer r + write_ptr r + i)"
    using assms(7) by (simp add: rd(2) copy_nonoverlapping_def)
  also have "\<dots> = m (src + i)" using assms(7) by (simp add: w(2) copy_nonoverlapping_def)
  finally show ?thesis using w(1) rd by simp
qed

definition ring_sample :: Ringbuffer where
  "ring_sample = \<lparr>ring_buffer = 0x10000, ring_size = 16, write_ptr = 4, read_ptr = 3\<rparr>"

definition ring_memory :: bytes_at where
  "ring_memory a = ucast a"

lemma ring_sample_ok: "ring_ok 4 ring_sample" "ring_empty 4 ring_sample"
  by (simp_all add: ring_ok_def ring_empty_def ring_sample_def)

theorem Ringbuffer_roundtrip_witness:
  "(case Ringbuffer_write ring_sample ring_memory 0x20 8 of (n1, r1, m1) \<Rightarrow>
     case Ringbuffer_read r1 m1 0x5000 8 of (n2, r2, m2) \<Rightarrow> n2 = 8 \<and> m2 0x5003 = 0x23)"
proof -
  obtain n1 r1 m1 where w: "Ringbuffer_write ring_sample ring_memory 0x20 8 = (n1, r1, m1)" by (rule prod_cases3)
  obtain n2 r2 m2 where rd: "Ringbuffer_read r1 m1 0x5000 8 = (n2, r2, m2)" by (rule prod_cases3)
  have "n2 = 8 \<and> m2 (0x5000 + 3) = ring_memory (0x20 + 3)"
    using Ringbuffer_roundtrip [OF ring_sample_ok _ _ w rd, of 3] by (simp add: ring_sample_def)
  then show ?thesis by (simp add: w rd ring_memory_def)
qed

text \<open>Remark. A write that reaches the end of the ring does not wrap: the length of the first
  copy is cut at the address of the buffer instead of its size, so the bytes that should
  go to the start of the ring overwrite the memory behind it.\<close>

theorem Ringbuffer_write_overruns:
  assumes "ring_ok k r" and "ring_empty k r" and "0 < k" and "unat len \<le> 2 ^ k"
    and "2 ^ k \<le> unat (write_ptr r) + unat len" and "unat (ring_buffer r) + 2 ^ (k + 1) < 2 ^ 64"
    and "2 ^ (k + 1) \<le> unat (ring_buffer r)" and "Ringbuffer_write r m src len = (n, r', m')"
    and "2 ^ k \<le> unat i" and "unat i < unat (write_ptr r) + unat len"
  shows "m' (ring_buffer r + i) = m (src + (i - write_ptr r))"
proof -
  let ?w = "write_ptr r" and ?b = "ring_buffer r"
  have ok: "k < 64" "ring_size r = 2 ^ k" "unat ?w < 2 ^ k" using assms(1) by (auto simp: ring_ok_def)
  have "(2 :: nat) ^ k > 1" using assms(3) by (intro one_less_power) auto
  then have "unat (get_writable_size r) = 2 ^ k"
    using writable_filled [OF empty_filled [OF assms(1,2)] assms(3)] by auto
  then have n: "min len (get_writable_size r) = len" using assms(4) by (intro min_absorb1) (simp add: word_le_nat_alt)
  have "\<not> is_zero len" using ok(3) assms(5) by (auto simp: is_zero_def)
  have "unat (?b - ?w) = unat ?b - unat ?w" using ok(3) assms(7) by (intro unat_sub_le) (simp add: word_le_nat_alt)
  then have cut: "min (?b - ?w) len = len" using ok(3) assms(4,7) by (intro min_absorb2) (simp add: word_le_nat_alt)
  have wp: "unat (add_pointer r ?w len) < 2 ^ k" using unat_add_pointer [OF ok(1,2)] by simp
  have "i - ?w < len"
    using assms(9,10) ok(3) by (subst word_less_nat_alt, subst unat_sub_le) (auto simp: word_le_nat_alt)
  then have first: "copy_nonoverlapping src (?b + ?w) len m (?b + i) = m (src + (i - ?w))"
    by (simp add: copy_nonoverlapping_def)
  have "\<not> ?b + i - ?b < add_pointer r ?w len" using wp assms(9) by (simp add: word_less_nat_alt)
  then have second: "copy_nonoverlapping s ?b (add_pointer r ?w len) m1 (?b + i) = m1 (?b + i)" for s m1
    by (simp add: copy_nonoverlapping_def)
  show ?thesis
    using assms(8) first second \<open>\<not> is_zero len\<close> by (auto simp: Ringbuffer_write_def n cut Let_def split: if_splits)
qed

theorem Ringbuffer_write_overruns_witness:
  "(case Ringbuffer_write ring_sample ring_memory 0x20 14 of (n, r', m') \<Rightarrow> m' 0x10011 = 0x2D)"
proof -
  obtain n r' m' where w: "Ringbuffer_write ring_sample ring_memory 0x20 14 = (n, r', m')" by (rule prod_cases3)
  have "m' (0x10000 + 0x11) = ring_memory (0x20 + (0x11 - 4))"
    using Ringbuffer_write_overruns [OF ring_sample_ok _ _ _ _ _ w, of "0x11"] by (simp add: ring_sample_def)
  then show ?thesis unfolding w by (simp add: ring_memory_def)
qed

text \<open>The sizes when a ring of \<open>2 ^ k\<close> bytes is filled from its start: one byte below its size
  already counts as full with \<open>2 ^ k\<close> readable bytes, and exactly its size counts as empty.\<close>

lemma filled_to_one_less:
  assumes "filled k 0 (2 ^ k - 1) r" and "k > 0"
  shows "unat (get_readable_size r) = 2 ^ k"
  using readable_filled [OF assms] by simp

end
