(* ===== verification/Ethernet.thy ===== *)
theory Ethernet
  imports Ipv4_Udp Timer_Manager Ring_Buffer "HOL-Library.Multiset"
begin

text \<open>
  The Ethernet device manager of \<open>kernel/network_manager/ethernet_device.rs\<close>. Its state
  extends the state of the timers, whose work queue it uses: the manager itself, the memory that frames
  are written to, the state \<open>'d\<close> of what is outside, the received frames that wait for the
  worker, and the memory given back with \<open>kfree\<close>, in order. What is outside are the device drivers and the memory allocator: a
  driver is the parameter \<open>send\<close>, \<open>kmalloc\<close> the parameter \<open>alloc_memory\<close>, and both change that state only. The lock is released before an operation ends, and the flags register it saves
  is restored with it, so both appear only where an operation finds the lock taken. \<open>send_data\<close> is one step, although the code
  releases the lock around the call of the driver: what other processors do to the manager meanwhile is not represented.
\<close>

declare push_bit_of_1 [simp del] bit_numeral_word_iff [simp del]

section \<open>State\<close>

type_synonym MacAddress = "u8 list"

definition ETHERNET_PAYLOAD_OFFSET :: usize where "ETHERNET_PAYLOAD_OFFSET = 14"
definition MAX_FRAME_DATA_SIZE :: usize where "MAX_FRAME_DATA_SIZE = 1500"
definition MAX_FRAME_SIZE :: usize where "MAX_FRAME_SIZE = MAX_FRAME_DATA_SIZE + 30"
definition MAC_ADDRESS_SIZE :: usize where "MAC_ADDRESS_SIZE = 6"
definition MAC_ADDRESS_BROAD_CAST :: MacAddress where "MAC_ADDRESS_BROAD_CAST = replicate 6 0xff"
definition NUMBER_OF_MEMORY_BUFFER :: usize where "NUMBER_OF_MEMORY_BUFFER = 128"
definition ETHERNET_TYPE_IPV4 :: u16 where "ETHERNET_TYPE_IPV4 = 0x0800"

record EthernetDeviceDescriptor =
  mac_address :: MacAddress
  driver :: usize

record TxEntry =
  entry_id :: u32
  tx_buffer :: "VAddress \<times> PAddress"
  tx_length :: MSize
  tx_thread :: "usize option"
  tx_result :: u8

record RxEntry =
  rx_buffer :: VAddress
  rx_length :: MSize
  rx_device_id :: usize

record EthernetFrameInfo =
  frame_device_id :: usize
  sender_mac_address :: MacAddress
  frame_type :: u16

definition EthernetFrameInfo_new :: "usize \<Rightarrow> MacAddress \<Rightarrow> EthernetFrameInfo" where
  "EthernetFrameInfo_new device_id mac = \<lparr>frame_device_id = device_id, sender_mac_address = mac, frame_type = 0\<rparr>"

definition set_frame_type :: "u16 \<Rightarrow> EthernetFrameInfo \<Rightarrow> EthernetFrameInfo" where
  "set_frame_type t f = f\<lparr>frame_type := t\<rparr>"

record EthernetDeviceManager =
  ether_lock :: bool
  device_list :: "EthernetDeviceDescriptor list"
  memory_buffer :: "(VAddress \<times> PAddress) list"
  number_of_memory_buffer :: usize
  tx_list :: "TxEntry list"
  next_id :: u32

definition EthernetDeviceManager_new :: EthernetDeviceManager where
  "EthernetDeviceManager_new =
     \<lparr>ether_lock = False, device_list = [], memory_buffer = replicate (unat NUMBER_OF_MEMORY_BUFFER) (0, 0), number_of_memory_buffer = 0,
      tx_list = [], next_id = 0\<rparr>"

record ('c, 'f, 'd) ethernet = "('c, 'f) timers" +
  ether :: EthernetDeviceManager
  memory :: bytes_at
  outside :: 'd
  rx_entries :: "usize \<Rightarrow> RxEntry option"
  kfreed :: "(VAddress \<times> MSize) list"

type_synonym 'd ethernet_driver = "'d \<Rightarrow> usize \<Rightarrow> MacAddress \<Rightarrow> TxEntry \<Rightarrow> bytes_at \<Rightarrow> 'd \<times> (NetworkError + MSize)"

type_synonym 'd memory_source = "'d \<Rightarrow> MSize \<Rightarrow> 'd \<times> (MemoryError + VAddress)"

definition get_memory ::
  "'d memory_source \<Rightarrow> MSize \<Rightarrow> ('c, 'f, 'd, 'z) ethernet_scheme \<Rightarrow> ('c, 'f, 'd, 'z) ethernet_scheme \<times> (MemoryError + VAddress)" where
  "get_memory alloc_memory n s = (let (d, r) = alloc_memory (outside s) n in (s\<lparr>outside := d\<rparr>, r))"

definition upd_ether ::
  "(EthernetDeviceManager \<Rightarrow> EthernetDeviceManager) \<Rightarrow> ('c, 'f, 'd, 'z) ethernet_scheme \<Rightarrow> ('c, 'f, 'd, 'z) ethernet_scheme" where
  "upd_ether f s = s\<lparr>ether := f (ether s)\<rparr>"

definition free_memory :: "VAddress \<Rightarrow> MSize \<Rightarrow> ('c, 'f, 'd, 'z) ethernet_scheme \<Rightarrow> ('c, 'f, 'd, 'z) ethernet_scheme" where
  "free_memory a n s = s\<lparr>kfreed := kfreed s @ [(a, n)]\<rparr>"

text \<open>A result whose error is only reported.\<close>

definition ignore_error :: "('x \<times> 's, 's) outcome \<Rightarrow> ('e, 's) outcome" where
  "ignore_error r = (case r of Ok s \<Rightarrow> Ok s | Err (_, s) \<Rightarrow> Ok s | Panic \<Rightarrow> Panic | Diverge \<Rightarrow> Diverge)"

lemma ignore_error_simps [simp]:
  "ignore_error (Ok s) = Ok s" "ignore_error (Err (x, s)) = Ok s" "ignore_error Panic = Panic" "ignore_error Diverge = Diverge"
  by (simp_all add: ignore_error_def)

section \<open>Buffers\<close>

text \<open>The array is indexed with a check, so that an index out of range is a panic.\<close>

definition put_buffer :: "VAddress \<times> PAddress \<Rightarrow> EthernetDeviceManager \<Rightarrow> ('e, EthernetDeviceManager) outcome" where
  "put_buffer b e =
     (if unat (number_of_memory_buffer e) < length (memory_buffer e)
      then Ok (e\<lparr>memory_buffer := (memory_buffer e)[unat (number_of_memory_buffer e) := b],
                 number_of_memory_buffer := number_of_memory_buffer e + 1\<rparr>)
      else Panic)"

text \<open>The loop of \<open>init\<close> over the area that was allocated; \<open>k\<close> bounds the rounds.\<close>

fun fill_buffers :: "nat \<Rightarrow> VAddress \<Rightarrow> PAddress \<Rightarrow> EthernetDeviceManager \<Rightarrow> ('e, EthernetDeviceManager) outcome" where
  "fill_buffers k v p e =
     (if number_of_memory_buffer e < NUMBER_OF_MEMORY_BUFFER then
        case k of
          0 \<Rightarrow> Diverge
        | Suc k \<Rightarrow> obind (put_buffer (v, p) e) (\<lambda>e. fill_buffers k (v + MAX_FRAME_SIZE) (p + MAX_FRAME_SIZE) e)
      else Ok e)"

declare fill_buffers.simps [simp del]

definition EthernetDeviceManager_init ::
  "(MOrder \<Rightarrow> MemoryError + VAddress \<times> PAddress) \<Rightarrow> EthernetDeviceManager \<Rightarrow> (NetworkError, EthernetDeviceManager) outcome" where
  "EthernetDeviceManager_init alloc_pages_with_physical_address e =
     (case alloc_pages_with_physical_address
             (to_page_order (MSize_to_order (page_align_up (MAX_FRAME_SIZE * NUMBER_OF_MEMORY_BUFFER)) None)) of
        Inl err \<Rightarrow> Err (NetworkMemoryError err)
      | Inr (v, p) \<Rightarrow> fill_buffers (unat NUMBER_OF_MEMORY_BUFFER) v p e)"

definition add_device ::
  "EthernetDeviceDescriptor \<Rightarrow> ('c, 'f, 'd, 'z) ethernet_scheme \<Rightarrow> ('e, usize \<times> ('c, 'f, 'd, 'z) ethernet_scheme) outcome" where
  "add_device d s =
     (if ether_lock (ether s) then Diverge
      else Ok (of_nat (length (device_list (ether s))), upd_ether (\<lambda>e. e\<lparr>device_list := device_list e @ [d]\<rparr>) s))"

definition get_mac_address :: "usize \<Rightarrow> EthernetDeviceManager \<Rightarrow> NetworkError + MacAddress" where
  "get_mac_address device_id e =
     (if unat device_id \<ge> length (device_list e) then Inl InvalidDevice else Inr (mac_address (device_list e ! unat device_id)))"

section \<open>Frames\<close>

definition store_bytes :: "usize \<Rightarrow> u8 list \<Rightarrow> bytes_at \<Rightarrow> bytes_at" where
  "store_bytes a bs m = (\<lambda>x. if unat (x - a) < length bs then bs ! unat (x - a) else m x)"

definition read_bytes :: "bytes_at \<Rightarrow> usize \<Rightarrow> nat \<Rightarrow> u8 list" where
  "read_bytes m a n = map (\<lambda>i. m (a + of_nat i)) [0..<n]"

fun frame_loop ::
  "nat \<Rightarrow> EthernetDeviceDescriptor \<Rightarrow> VAddress \<Rightarrow> MacAddress \<Rightarrow> u16 \<Rightarrow> u8 list \<Rightarrow> usize \<Rightarrow> usize \<Rightarrow> bytes_at \<Rightarrow> usize \<times> bytes_at" where
  "frame_loop 0 desc send_buffer target ty d sent_size buffer_pointer m = (buffer_pointer, m)"
| "frame_loop (Suc k) desc send_buffer target ty d sent_size buffer_pointer m =
     (let m = store_bytes (send_buffer + buffer_pointer) target m;
          buffer_pointer = buffer_pointer + MAC_ADDRESS_SIZE;
          m = store_bytes (send_buffer + buffer_pointer) (mac_address desc) m;
          buffer_pointer = buffer_pointer + MAC_ADDRESS_SIZE;
          m = store_bytes (send_buffer + buffer_pointer) (to_be_bytes16 ty) m;
          buffer_pointer = buffer_pointer + 2;
          size_to_send = min (of_nat (length d) - sent_size) MAX_FRAME_DATA_SIZE;
          m = store_bytes (send_buffer + buffer_pointer) (take (unat size_to_send) (drop (unat sent_size) d)) m;
          buffer_pointer = buffer_pointer + size_to_send;
          sent_size = sent_size + size_to_send
      in if sent_size \<ge> of_nat (length d) then (buffer_pointer, m)
         else frame_loop k desc send_buffer target ty d sent_size buffer_pointer m)"

definition create_ethernet_frame ::
  "EthernetDeviceDescriptor \<Rightarrow> VAddress \<Rightarrow> MSize \<Rightarrow> MacAddress \<Rightarrow> u16 \<Rightarrow> u8 list \<Rightarrow> bytes_at \<Rightarrow> MSize \<times> bytes_at" where
  "create_ethernet_frame desc send_buffer send_buffer_size target ty d m =
     frame_loop (unat (send_buffer_size div MAX_FRAME_SIZE)) desc send_buffer target ty d 0 0 m"

section \<open>Sending\<close>

text \<open>The entry is taken out of the list; its buffer returns to the array.\<close>

definition drop_tx :: "u32 \<Rightarrow> VAddress \<times> PAddress \<Rightarrow> EthernetDeviceManager \<Rightarrow> ('e, EthernetDeviceManager) outcome" where
  "drop_tx i b e =
     (case find (\<lambda>t. entry_id t = i) (tx_list e) of
        None \<Rightarrow> Ok e
      | Some t \<Rightarrow> obind (put_buffer b e) (\<lambda>e. Ok (e\<lparr>tx_list := remove1 t (tx_list e)\<rparr>)))"

definition send_data ::
  "'d ethernet_driver \<Rightarrow> usize \<Rightarrow> u8 list \<Rightarrow> MacAddress \<Rightarrow> u16 \<Rightarrow> ('c, 'f, 'd, 'z) ethernet_scheme \<Rightarrow>
    (NetworkError \<times> ('c, 'f, 'd, 'z) ethernet_scheme, ('c, 'f, 'd, 'z) ethernet_scheme) outcome" where
  "send_data send device_id d target ether_type s =
     (let e = ether s
      in if of_nat (length d) > MAX_FRAME_DATA_SIZE then Err (DataSizeError, s)
         else if ether_lock e then Diverge
         else if unat device_id \<ge> length (device_list e) then Err (InvalidDevice, s)
         else if number_of_memory_buffer e = 0 then Err (OutOfBuffer, s)
         else
           let n = number_of_memory_buffer e - 1;
               e = e\<lparr>number_of_memory_buffer := n\<rparr>
           in if unat n \<ge> length (memory_buffer e) then Panic
           else
             let buffer = memory_buffer e ! unat n;
                 descriptor = device_list e ! unat device_id;
                 (len, m) = create_ethernet_frame descriptor (fst buffer) PAGE_SIZE target ether_type d (memory s);
                 assigned_id = next_id e;
                 entry = \<lparr>entry_id = assigned_id, tx_buffer = buffer, tx_length = len, tx_thread = None, tx_result = 0\<rparr>;
                 e = e\<lparr>tx_list := tx_list e @ [entry], next_id := next_id e + 1\<rparr>;
                 (ds, result) = send (outside s) (driver descriptor) (mac_address descriptor) entry m;
                 s = s\<lparr>memory := m, outside := ds\<rparr>
             in case result of
                  Inr _ \<Rightarrow> Ok (s\<lparr>ether := e\<rparr>)
                | Inl err \<Rightarrow> obind (drop_tx assigned_id buffer e) (\<lambda>e. Err (err, s\<lparr>ether := e\<rparr>)))"

definition reply_data ::
  "'d ethernet_driver \<Rightarrow> EthernetFrameInfo \<Rightarrow> u8 list \<Rightarrow> ('c, 'f, 'd, 'z) ethernet_scheme \<Rightarrow>
    (NetworkError \<times> ('c, 'f, 'd, 'z) ethernet_scheme, ('c, 'f, 'd, 'z) ethernet_scheme) outcome" where
  "reply_data send frame_info d s = send_data send (frame_device_id frame_info) d (sender_mac_address frame_info) (frame_type frame_info) s"

section \<open>Completion\<close>

text \<open>The interrupt handler only adds work; \<open>fn\<close> is the address of the worker.\<close>

definition update_transmit_status ::
  "usize \<Rightarrow> nat \<Rightarrow> u32 \<Rightarrow> bool \<Rightarrow> ('c, 'f, 'd, 'z) ethernet_scheme \<Rightarrow> ('e, ('c, 'f, 'd, 'z) ethernet_scheme) outcome" where
  "update_transmit_status fn c i is_successful s =
     (if tx_list (ether s) = [] then Ok s
      else ignore_error (add_work c (WorkList_new fn (ucast i OR push_bit 32 (if is_successful then 1 else 0))) s))"

definition update_transmit_status_worker ::
  "nat \<Rightarrow> usize \<Rightarrow> ('c, 'f, 'd, 'z) ethernet_scheme \<Rightarrow> ('e, ('c, 'f, 'd, 'z) ethernet_scheme) outcome" where
  "update_transmit_status_worker c arg s =
     (let is_successful = (drop_bit 32 arg \<noteq> 0); i = (ucast (arg AND mask 32) :: u32); e = ether s
      in if ether_lock e then Diverge
         else case find (\<lambda>t. entry_id t = i) (tx_list e) of
                None \<Rightarrow> Ok s
              | Some t \<Rightarrow>
                  (case tx_thread t of
                     None \<Rightarrow> obind (put_buffer (tx_buffer t) e) (\<lambda>e. Ok (s\<lparr>ether := e\<lparr>tx_list := remove1 t (tx_list e)\<rparr>\<rparr>))
                   | Some th \<Rightarrow>
                       let t' = t\<lparr>tx_result := (if is_successful then tx_result t else tx_result t OR 1), tx_thread := None\<rparr>;
                           s = s\<lparr>ether := e\<lparr>tx_list := (takeWhile (\<lambda>x. x \<noteq> t) (tx_list e)) @ t' # tl (dropWhile (\<lambda>x. x \<noteq> t) (tx_list e))\<rparr>\<rparr>
                       in ignore_error (wake_up_thread c th s)))"

section \<open>Receiving\<close>

definition size_of_RxEntry :: MSize where "size_of_RxEntry = 24"

definition received_data_handler ::
  "'d memory_source \<Rightarrow> usize \<Rightarrow> nat \<Rightarrow> usize \<Rightarrow> VAddress \<Rightarrow> MSize \<Rightarrow>
    ('c, 'f, 'd, 'z) ethernet_scheme \<Rightarrow> ('e, ('c, 'f, 'd, 'z) ethernet_scheme) outcome" where
  "received_data_handler alloc_memory fn c device_id allocated_data len s =
     (case get_memory alloc_memory size_of_RxEntry s of
        (s, Inl _) \<Rightarrow> Ok (free_memory allocated_data len s)
      | (s, Inr a) \<Rightarrow>
          let s = s\<lparr>rx_entries := (rx_entries s)(a \<mapsto> \<lparr>rx_buffer = allocated_data, rx_length = len, rx_device_id = device_id\<rparr>)\<rparr>
          in case add_work c (WorkList_new fn a) s of
               Ok s \<Rightarrow> Ok s
             | Err (_, s) \<Rightarrow>
                 Ok (free_memory a size_of_RxEntry (free_memory allocated_data len (s\<lparr>rx_entries := (rx_entries s)(a := None)\<rparr>)))
             | Panic \<Rightarrow> Panic
             | Diverge \<Rightarrow> Diverge)"

text \<open>What \<open>frame_worker\<close> finds in a frame; the handlers of the protocols come after it.\<close>

definition frame_info_of :: "RxEntry \<Rightarrow> bytes_at \<Rightarrow> EthernetFrameInfo" where
  "frame_info_of rx m =
     \<lparr>frame_device_id = rx_device_id rx, sender_mac_address = read_bytes m (rx_buffer rx + 6) 6,
      frame_type = from_be_bytes16 (m (rx_buffer rx + 12)) (m (rx_buffer rx + 13))\<rparr>"

section \<open>Bytes in memory\<close>

lemma length_read_bytes [simp]: "length (read_bytes m a n) = n"
  by (simp add: read_bytes_def)

lemma read_store_bytes: "length bs \<le> 2 ^ 63 \<Longrightarrow> read_bytes (store_bytes a bs m) a (length bs) = bs"
  by (rule nth_equalityI) (simp_all add: read_bytes_def store_bytes_def unat_of_nat)

lemma read_bytes_append: "read_bytes m a (n + k) = read_bytes m a n @ read_bytes m (a + of_nat n) k"
  by (rule nth_equalityI) (auto simp: read_bytes_def nth_append add.assoc simp flip: of_nat_add)

lemma store_bytes_append:
  assumes "length xs + length ys \<le> 2 ^ 63"
  shows "store_bytes (a + of_nat (length xs)) ys (store_bytes a xs m) = store_bytes a (xs @ ys) m"
proof
  fix x
  let ?n = "of_nat (length xs) :: usize"
  have n: "unat ?n = length xs" using assms by (simp add: unat_of_nat)
  have e: "x - (a + ?n) = x - a - ?n" by (simp add: algebra_simps)
  show "store_bytes (a + ?n) ys (store_bytes a xs m) x = store_bytes a (xs @ ys) m x"
  proof (cases "?n \<le> x - a")
    case True
    then have "unat (x - (a + ?n)) = unat (x - a) - length xs" "length xs \<le> unat (x - a)" unfolding e using n by (simp_all add: unat_sub word_le_nat_alt)
    then show ?thesis by (auto simp: store_bytes_def nth_append)
  next
    case False
    have "unat (x - (a + ?n)) = unat (x - a) + 2 ^ 64 - length xs"
      unfolding e using False n by (simp add: unat_sub_if_size word_size word_le_nat_alt)
    moreover have "unat (x - a) < length xs" using False n by (simp add: word_le_nat_alt)
    ultimately show ?thesis using assms by (auto simp: store_bytes_def nth_append)
  qed
qed

lemma create_frame_ok:
  assumes "length d \<le> 1500" and "length target = 6" and "length (mac_address desc) = 6"
  shows "create_ethernet_frame desc b PAGE_SIZE target ty d m =
     (14 + of_nat (length d), store_bytes b (target @ mac_address desc @ to_be_bytes16 ty @ d) m)"
proof -
  have "unat (of_nat (length d) :: usize) = length d" using assms(1) by (simp add: unat_of_nat)
  then have n: "min (of_nat (length d)) 1500 = (of_nat (length d) :: usize)" "unat (of_nat (length d) :: usize) = length d"
    using assms(1) by (simp_all add: min_def word_le_nat_alt)
  have "PAGE_SIZE div MAX_FRAME_SIZE = 2" by (simp add: PAGE_SIZE_def MAX_FRAME_SIZE_def MAX_FRAME_DATA_SIZE_def)
  then have k: "unat (PAGE_SIZE div MAX_FRAME_SIZE) = Suc 1" by simp
  let ?h = "target @ mac_address desc" and ?t = "to_be_bytes16 ty"
  have l: "of_nat (length target) = (6 :: usize)" "of_nat (length ?h) = (12 :: usize)" "of_nat (length (?h @ ?t)) = (14 :: usize)"
    using assms(2,3) by (simp_all add: to_be_bytes16_def)
  have "store_bytes (b + 6) (mac_address desc) (store_bytes b target m) = store_bytes b ?h m"
    using store_bytes_append [of target "mac_address desc" b m] assms unfolding l by simp
  moreover have "store_bytes (b + 12) ?t (store_bytes b ?h m) = store_bytes b (?h @ ?t) m"
    using store_bytes_append [of ?h ?t b m] assms unfolding l by (simp add: to_be_bytes16_def)
  moreover have "store_bytes (b + 14) d (store_bytes b (?h @ ?t) m) = store_bytes b ((?h @ ?t) @ d) m"
    using store_bytes_append [of "?h @ ?t" d b m] assms unfolding l by (simp add: to_be_bytes16_def)
  ultimately show ?thesis
    unfolding create_ethernet_frame_def k
    by (simp add: Let_def MAC_ADDRESS_SIZE_def MAX_FRAME_DATA_SIZE_def n add.assoc)
qed

section \<open>Conservation of the transmit buffers\<close>

text \<open>
  Every buffer is in the array or belongs to an entry of the list, and no thread waits for an
  entry. \<open>B\<close> are all the buffers.
\<close>

definition all_buffers :: "EthernetDeviceManager \<Rightarrow> (VAddress \<times> PAddress) multiset" where
  "all_buffers e = mset (take (unat (number_of_memory_buffer e)) (memory_buffer e)) + mset (map tx_buffer (tx_list e))"

definition ether_ok :: "(VAddress \<times> PAddress) multiset \<Rightarrow> EthernetDeviceManager \<Rightarrow> bool" where
  "ether_ok B e \<longleftrightarrow> length (memory_buffer e) = 128 \<and> unat (number_of_memory_buffer e) \<le> 128 \<and> size B = 128 \<and>
     all_buffers e = B \<and> (\<forall>t \<in> set (tx_list e). tx_thread t = None)"

lemma ether_ok_size:
  assumes "ether_ok B e"
  shows "unat (number_of_memory_buffer e) + length (tx_list e) = 128"
proof -
  have "size (all_buffers e) = 128" using assms by (simp add: ether_ok_def)
  then show ?thesis using assms by (simp add: all_buffers_def ether_ok_def)
qed

lemma put_buffer_ok:
  assumes "ether_ok B e" and "t \<in> set (tx_list e)"
  shows "\<exists>e'. put_buffer (tx_buffer t) e = Ok e' \<and> ether_ok B (e'\<lparr>tx_list := remove1 t (tx_list e')\<rparr>) \<and> tx_list e' = tx_list e"
proof -
  let ?n = "number_of_memory_buffer e"
  have "length (tx_list e) \<noteq> 0" using assms(2) by auto
  then have n: "unat ?n < 128" using ether_ok_size [OF assms(1)] by linarith
  then have n1: "unat (?n + 1) = unat ?n + 1" by (simp add: unat_word_ariths)
  have l: "length (memory_buffer e) = 128" using assms(1) by (simp add: ether_ok_def)
  have "mset (map tx_buffer (tx_list e)) = add_mset (tx_buffer t) (mset (map tx_buffer (remove1 t (tx_list e))))"
    using assms(2) by (metis image_mset_add_mset insert_DiffM mset_map mset_remove1 set_mset_mset)
  moreover have "take (unat ?n + 1) ((memory_buffer e)[unat ?n := tx_buffer t]) = take (unat ?n) (memory_buffer e) @ [tx_buffer t]"
    using n l by (simp add: take_Suc_conv_app_nth)
  ultimately have b: "all_buffers (e\<lparr>memory_buffer := (memory_buffer e)[unat ?n := tx_buffer t], number_of_memory_buffer := ?n + 1,
      tx_list := remove1 t (tx_list e)\<rparr>) = all_buffers e" by (simp add: all_buffers_def n1)
  have "set (remove1 t (tx_list e)) \<subseteq> set (tx_list e)" by (rule set_remove1_subset)
  then have "ether_ok B (e\<lparr>memory_buffer := (memory_buffer e)[unat ?n := tx_buffer t], number_of_memory_buffer := ?n + 1,
      tx_list := remove1 t (tx_list e)\<rparr>)" using assms(1) n n1 b by (auto simp: ether_ok_def)
  then show ?thesis using n l by (simp add: put_buffer_def)
qed

definition fresh_id :: "EthernetDeviceManager \<Rightarrow> bool" where
  "fresh_id e \<longleftrightarrow> (\<forall>t \<in> set (tx_list e). entry_id t \<noteq> next_id e)"

lemma find_fresh:
  assumes "fresh_id e"
  shows "find (\<lambda>t. entry_id t = next_id e) (tx_list e @ [x]) = (if entry_id x = next_id e then Some x else None)"
proof -
  have "\<forall>t \<in> set ts. entry_id t \<noteq> i \<Longrightarrow> find (\<lambda>t. entry_id t = i) (ts @ [x]) = (if entry_id x = i then Some x else None)" for ts i
    by (induction ts) auto
  then show ?thesis using assms by (simp add: fresh_id_def)
qed

text \<open>The manager while a frame is on its way: the last buffer has moved to a new entry.\<close>

definition sending :: "EthernetDeviceManager \<Rightarrow> MSize \<Rightarrow> TxEntry \<times> EthernetDeviceManager" where
  "sending e len =
     (let n = number_of_memory_buffer e - 1;
          t = \<lparr>entry_id = next_id e, tx_buffer = memory_buffer e ! unat n, tx_length = len, tx_thread = None, tx_result = 0\<rparr>
      in (t, e\<lparr>number_of_memory_buffer := n, tx_list := tx_list e @ [t], next_id := next_id e + 1\<rparr>))"

lemma sending_ok:
  assumes "ether_ok B e" and "number_of_memory_buffer e \<noteq> 0"
  shows "ether_ok B (snd (sending e len))" and "unat (number_of_memory_buffer e - 1) < length (memory_buffer e)"
proof -
  let ?n = "number_of_memory_buffer e"
  have u: "unat (?n - 1) = unat ?n - 1" "unat ?n \<noteq> 0" using assms(2) by (simp_all add: unat_minus_one unat_eq_zero)
  have l: "length (memory_buffer e) = 128" "unat ?n \<le> 128" using assms(1) by (simp_all add: ether_ok_def)
  then show "unat (?n - 1) < length (memory_buffer e)" using u by linarith
  have "take (unat ?n) (memory_buffer e) = take (unat ?n - 1) (memory_buffer e) @ [memory_buffer e ! (unat ?n - 1)]"
    using u(2) l take_Suc_conv_app_nth [of "unat ?n - 1" "memory_buffer e"] by simp
  then have "all_buffers (snd (sending e len)) = all_buffers e" by (simp add: sending_def Let_def all_buffers_def u(1))
  moreover have "unat (?n - 1) \<le> 128" using u(1) l(2) by linarith
  ultimately show "ether_ok B (snd (sending e len))" using assms(1) by (auto simp: ether_ok_def sending_def Let_def)
qed

text \<open>The buffers that are free: the first ones of the array.\<close>

definition free_buffers :: "EthernetDeviceManager \<Rightarrow> (VAddress \<times> PAddress) multiset" where
  "free_buffers e = mset (take (unat (number_of_memory_buffer e)) (memory_buffer e))"

lemma sending_takes:
  assumes "ether_ok B e" and "number_of_memory_buffer e \<noteq> 0"
  shows "free_buffers e = add_mset (tx_buffer (fst (sending e len))) (free_buffers (snd (sending e len)))"
proof -
  let ?n = "number_of_memory_buffer e"
  have u: "unat (?n - 1) = unat ?n - 1" "unat ?n \<noteq> 0" using assms(2) by (simp_all add: unat_minus_one unat_eq_zero)
  then have "take (unat ?n) (memory_buffer e) = take (unat ?n - 1) (memory_buffer e) @ [memory_buffer e ! (unat ?n - 1)]"
    using sending_ok(2) [OF assms] take_Suc_conv_app_nth [of "unat ?n - 1" "memory_buffer e"] by simp
  then show ?thesis by (simp add: free_buffers_def sending_def Let_def u(1))
qed

lemma drop_sending:
  assumes "ether_ok B e" and "number_of_memory_buffer e \<noteq> 0" and "fresh_id e"
  shows "\<exists>e'. drop_tx (next_id e) (memory_buffer e ! unat (number_of_memory_buffer e - 1)) (snd (sending e len)) =
     (Ok e' :: ('e, EthernetDeviceManager) outcome) \<and> ether_ok B e'"
proof -
  let ?t = "fst (sending e len)" and ?e = "snd (sending e len)"
  have t: "tx_list ?e = tx_list e @ [?t]" "entry_id ?t = next_id e" "tx_buffer ?t = memory_buffer e ! unat (number_of_memory_buffer e - 1)"
    by (simp_all add: sending_def Let_def)
  obtain e' where "put_buffer (tx_buffer ?t) ?e = (Ok e' :: ('e, EthernetDeviceManager) outcome)" "ether_ok B (e'\<lparr>tx_list := remove1 ?t (tx_list e')\<rparr>)"
    using put_buffer_ok [OF sending_ok(1) [OF assms(1,2)], of ?t len] t(1) by auto
  then show ?thesis using find_fresh [OF assms(3), of ?t] t(2) unfolding drop_tx_def t(1) t(3) [symmetric] by simp
qed

text \<open>Everything that \<open>send_data\<close> can do.\<close>

lemma send_data_cases:
  fixes s :: "('c, 'f, 'd, 'z) ethernet_scheme"
  assumes "ether_ok B (ether s)" and "fresh_id (ether s)" and "\<not> ether_lock (ether s)"
  shows "(\<exists>s'. send_data send i d target ty s = Ok s' \<and> ether_ok B (ether s') \<and> ether_lock (ether s') = ether_lock (ether s)) \<or>
     (\<exists>err s'. send_data send i d target ty s = Err (err, s') \<and> ether_ok B (ether s') \<and> ether_lock (ether s') = ether_lock (ether s))"
proof (cases "of_nat (length d) > MAX_FRAME_DATA_SIZE \<or> unat i \<ge> length (device_list (ether s)) \<or> number_of_memory_buffer (ether s) = 0")
  case True
  then show ?thesis using assms by (auto simp: send_data_def Let_def)
next
  case False
  let ?e = "ether s"
  let ?b = "memory_buffer ?e ! unat (number_of_memory_buffer ?e - 1)" and ?desc = "device_list ?e ! unat i"
  obtain len m where f: "create_ethernet_frame ?desc (fst ?b) PAGE_SIZE target ty d (memory s) = (len, m)" by fastforce
  obtain ds r where r: "send (outside s) (driver ?desc) (mac_address ?desc) (fst (sending ?e len)) m = (ds, r)" by fastforce
  have lt: "\<not> length (memory_buffer ?e) \<le> unat (number_of_memory_buffer ?e - 1)" using sending_ok(2) [OF assms(1)] False by auto
  have eq: "send_data send i d target ty s =
      (case r of Inr _ \<Rightarrow> Ok (s\<lparr>memory := m, outside := ds, ether := snd (sending ?e len)\<rparr>)
       | Inl err \<Rightarrow> obind (drop_tx (next_id ?e) ?b (snd (sending ?e len))) (\<lambda>e. Err (err, s\<lparr>memory := m, outside := ds, ether := e\<rparr>)))"
    using False assms(3) lt f r by (cases r) (simp_all add: send_data_def Let_def sending_def)
  show ?thesis
  proof (cases r)
    case (Inl err)
    obtain e' where e': "drop_tx (next_id ?e) ?b (snd (sending ?e len)) = (Ok e' :: (NetworkError \<times> ('c, 'f, 'd, 'z) ethernet_scheme, _) outcome)" "ether_ok B e'"
      using drop_sending [OF assms(1) _ assms(2)] False by blast
    have "ether_lock e' = ether_lock ?e"
      using e'(1) by (auto simp: drop_tx_def put_buffer_def sending_def Let_def outcome_iffs split: option.splits if_splits)
    then show ?thesis using eq Inl e' by simp
  next
    case (Inr n)
    then show ?thesis using eq sending_ok(1) [OF assms(1)] False by (simp add: sending_def Let_def)
  qed
qed

lemma worker_cases:
  assumes "ether_ok B (ether s)" and "\<not> ether_lock (ether s)"
  shows "\<exists>s'. update_transmit_status_worker c arg s = (Ok s' :: ('e, _) outcome) \<and> ether_ok B (ether s') \<and> \<not> ether_lock (ether s')"
proof (cases "find (\<lambda>t. entry_id t = (ucast (arg AND mask 32) :: u32)) (tx_list (ether s))")
  case None
  then show ?thesis using assms by (simp add: update_transmit_status_worker_def Let_def)
next
  case (Some t)
  then have t: "t \<in> set (tx_list (ether s))" by (auto simp: find_Some_iff)
  obtain e' where e': "put_buffer (tx_buffer t) (ether s) = (Ok e' :: ('e, _) outcome)" "ether_ok B (e'\<lparr>tx_list := remove1 t (tx_list e')\<rparr>)"
    using put_buffer_ok [OF assms(1) t] by blast
  moreover have "ether_lock e' = ether_lock (ether s)" using e'(1) by (auto simp: put_buffer_def split: if_splits)
  moreover have "tx_thread t = None" using assms(1) t by (simp add: ether_ok_def)
  ultimately show ?thesis using assms(2) Some by (simp add: update_transmit_status_worker_def Let_def)
qed

text \<open>What a successful send has done, and that a failed one keeps the devices.\<close>

lemma send_data_Ok:
  assumes "send_data send i d target ty s = Ok s'" and "length d < 2 ^ 32" and "length target = 6"
    and "\<forall>desc \<in> set (device_list (ether s)). length (mac_address desc) = 6"
  shows "\<exists>desc t n. desc \<in> set (device_list (ether s)) \<and> send (outside s) (driver desc) (mac_address desc) t (memory s') = (outside s', Inr n) \<and>
     read_bytes (memory s') (fst (tx_buffer t)) (unat (tx_length t)) = target @ mac_address desc @ to_be_bytes16 ty @ d"
    and "device_list (ether s') = device_list (ether s)"
proof -
  let ?e = "ether s" and ?l = "14 + of_nat (length d) :: usize"
  let ?b = "memory_buffer ?e ! unat (number_of_memory_buffer ?e - 1)" and ?desc = "device_list ?e ! unat i"
  let ?f = "target @ mac_address ?desc @ to_be_bytes16 ty @ d"
  let ?m = "store_bytes (fst ?b) ?f (memory s)" and ?t = "fst (sending ?e ?l)"
  have ud: "unat (of_nat (length d) :: usize) = length d" using assms(2) by (simp add: unat_of_nat)
  have c: "\<not> of_nat (length d) > MAX_FRAME_DATA_SIZE" "\<not> ether_lock ?e" "unat i < length (device_list ?e)" "number_of_memory_buffer ?e \<noteq> 0"
    "unat (number_of_memory_buffer ?e - 1) < length (memory_buffer ?e)"
    using assms(1) by (auto simp: send_data_def Let_def split: if_splits)
  then have d: "length d \<le> 1500" using ud by (simp add: MAX_FRAME_DATA_SIZE_def word_less_nat_alt)
  have mac: "length (mac_address ?desc) = 6" using assms(4) c(3) by simp
  obtain ds r where r: "send (outside s) (driver ?desc) (mac_address ?desc) ?t ?m = (ds, r)" by fastforce
  then obtain n where "r = Inr n" "s' = s\<lparr>memory := ?m, outside := ds, ether := snd (sending ?e ?l)\<rparr>"
    using assms(1) c create_frame_ok [OF d assms(3) mac, of "fst ?b" ty "memory s"]
    by (cases r) (auto simp: send_data_def Let_def sending_def outcome_iffs)
  moreover have "unat ?l = length ?f" using ud d assms(3) mac by (simp add: unat_word_ariths to_be_bytes16_def)
  then have "read_bytes ?m (fst (tx_buffer ?t)) (unat (tx_length ?t)) = ?f"
    using read_store_bytes [of ?f "fst ?b" "memory s"] d assms(3) mac by (simp add: sending_def Let_def to_be_bytes16_def)
  moreover have "?desc \<in> set (device_list ?e)" using c(3) by simp
  ultimately have f: "?desc \<in> set (device_list ?e) \<and> send (outside s) (driver ?desc) (mac_address ?desc) ?t (memory s') = (outside s', Inr n) \<and>
     read_bytes (memory s') (fst (tx_buffer ?t)) (unat (tx_length ?t)) = ?f" "ether s' = snd (sending ?e ?l)" using r by simp_all
  from f(1) show "\<exists>desc t n. desc \<in> set (device_list (ether s)) \<and> send (outside s) (driver desc) (mac_address desc) t (memory s') = (outside s', Inr n) \<and>
     read_bytes (memory s') (fst (tx_buffer t)) (unat (tx_length t)) = target @ mac_address desc @ to_be_bytes16 ty @ d" by blast
  show "device_list (ether s') = device_list (ether s)" using f(2) by (simp add: sending_def Let_def)
qed

lemma send_data_Err:
  assumes "send_data send i d target ty s = Err (e, s')"
  shows "s' = s \<or> (\<exists>desc t m. desc \<in> set (device_list (ether s)) \<and> send (outside s) (driver desc) (mac_address desc) t m = (outside s', Inl e))"
    and "device_list (ether s') = device_list (ether s)"
proof -
  have "(s' = s \<or> (\<exists>desc t m. desc \<in> set (device_list (ether s)) \<and> send (outside s) (driver desc) (mac_address desc) t m = (outside s', Inl e))) \<and>
      device_list (ether s') = device_list (ether s)"
    using assms
    by (auto simp: send_data_def Let_def outcome_iffs drop_tx_def put_buffer_def split: if_splits prod.splits sum.splits option.splits)
  then show "s' = s \<or> (\<exists>desc t m. desc \<in> set (device_list (ether s)) \<and> send (outside s) (driver desc) (mac_address desc) t m = (outside s', Inl e))"
    and "device_list (ether s') = device_list (ether s)" by simp_all
qed

lemma send_data_sends:
  fixes s :: "('c, 'f, 'd, 'z) ethernet_scheme"
  assumes ok: "ether_ok B (ether s)" "\<not> ether_lock (ether s)" and buffer: "number_of_memory_buffer (ether s) \<noteq> 0"
    and device: "unat i < length (device_list (ether s))" "desc = device_list (ether s) ! unat i"
    and sizes: "length d \<le> 1500" "length target = 6" "length (mac_address desc) = 6"
    and driver: "\<And>t m. send (outside s) (driver desc) (mac_address desc) t m = (ds t m, Inr (n t m))"
  shows "send_data send i d target ty s =
     Ok (s\<lparr>memory := store_bytes (fst (memory_buffer (ether s) ! unat (number_of_memory_buffer (ether s) - 1)))
              (target @ mac_address desc @ to_be_bytes16 ty @ d) (memory s),
           outside := ds (fst (sending (ether s) (14 + of_nat (length d))))
             (store_bytes (fst (memory_buffer (ether s) ! unat (number_of_memory_buffer (ether s) - 1)))
                (target @ mac_address desc @ to_be_bytes16 ty @ d) (memory s)),
           ether := snd (sending (ether s) (14 + of_nat (length d)))\<rparr>)"
proof -
  let ?e = "ether s"
  have lt: "\<not> length (memory_buffer ?e) \<le> unat (number_of_memory_buffer ?e - 1)" using sending_ok(2) [OF ok(1) buffer] by simp
  have "unat (of_nat (length d) :: usize) = length d" using sizes(1) by (simp add: unat_of_nat)
  then have "\<not> of_nat (length d) > MAX_FRAME_DATA_SIZE" using sizes(1) by (simp add: MAX_FRAME_DATA_SIZE_def word_less_nat_alt)
  then show ?thesis
    using ok(2) device(1) buffer lt
    by (simp add: send_data_def Let_def sending_def device(2) [symmetric] create_frame_ok [OF sizes] driver)
qed

section \<open>The manager as a state machine\<close>

definition frame_buffers :: "VAddress \<Rightarrow> PAddress \<Rightarrow> (VAddress \<times> PAddress) list" where
  "frame_buffers v p = map (\<lambda>i. (v + of_nat i * MAX_FRAME_SIZE, p + of_nat i * MAX_FRAME_SIZE)) [0..<128]"

lemma fill_buffers_ok:
  assumes "unat (number_of_memory_buffer e) + k = 128" and "length (memory_buffer e) = 128"
    and "take (unat (number_of_memory_buffer e)) (memory_buffer e) = take (unat (number_of_memory_buffer e)) (frame_buffers v p)"
  shows "\<exists>e'. fill_buffers k (v + number_of_memory_buffer e * MAX_FRAME_SIZE) (p + number_of_memory_buffer e * MAX_FRAME_SIZE) e =
      (Ok e' :: ('e, EthernetDeviceManager) outcome) \<and>
    e' = e\<lparr>memory_buffer := frame_buffers v p, number_of_memory_buffer := 128\<rparr>"
  using assms
proof (induction k arbitrary: e)
  case 0
  then have "number_of_memory_buffer e = 128" by (simp add: word_unat_eq_iff)
  moreover have "memory_buffer e = frame_buffers v p" using 0 by (simp add: frame_buffers_def)
  ultimately show ?case by (cases e) (simp add: fill_buffers.simps NUMBER_OF_MEMORY_BUFFER_def)
next
  case (Suc k)
  let ?n = "number_of_memory_buffer e"
  let ?b = "(v + ?n * MAX_FRAME_SIZE, p + ?n * MAX_FRAME_SIZE)"
  let ?e = "e\<lparr>memory_buffer := (memory_buffer e)[unat ?n := ?b], number_of_memory_buffer := ?n + 1\<rparr>"
  have n: "unat ?n < 128" using Suc.prems(1) by linarith
  then have n1: "unat (?n + 1) = Suc (unat ?n)" by (simp add: unat_word_ariths)
  have "frame_buffers v p ! unat ?n = ?b" using n by (simp add: frame_buffers_def)
  then have "take (Suc (unat ?n)) ((memory_buffer e)[unat ?n := ?b]) = take (Suc (unat ?n)) (frame_buffers v p)"
    using n Suc.prems(2,3) by (simp add: take_Suc_conv_app_nth frame_buffers_def)
  then obtain e' where "fill_buffers k (v + (?n + 1) * MAX_FRAME_SIZE) (p + (?n + 1) * MAX_FRAME_SIZE) ?e = (Ok e' :: ('e, _) outcome)"
    "e' = ?e\<lparr>memory_buffer := frame_buffers v p, number_of_memory_buffer := 128\<rparr>"
    using Suc.IH [of ?e] Suc.prems(1,2) n1 by auto
  moreover have "?n < NUMBER_OF_MEMORY_BUFFER" using n by (simp add: NUMBER_OF_MEMORY_BUFFER_def word_less_nat_alt)
  ultimately show ?case using n Suc.prems(2)
    by (subst fill_buffers.simps) (simp add: put_buffer_def algebra_simps)
qed

inductive ether_step ::
  "'d ethernet_driver \<Rightarrow> ('c, 'f, 'd, 'z) ethernet_scheme \<Rightarrow> ('c, 'f, 'd, 'z) ethernet_scheme \<Rightarrow> bool" for send where
  sent: "send_data send i d target ty s = Ok s' \<Longrightarrow> fresh_id (ether s) \<Longrightarrow> ether_step send s s'"
| failed: "send_data send i d target ty s = Err (err, s') \<Longrightarrow> fresh_id (ether s) \<Longrightarrow> ether_step send s s'"
| completed: "update_transmit_status_worker c arg s = (Ok s' :: (unit, _) outcome) \<Longrightarrow> ether_step send s s'"
| device_added: "add_device desc s = (Ok (i, s') :: (unit, _) outcome) \<Longrightarrow> ether_step send s s'"

definition ether_init :: "VAddress \<Rightarrow> PAddress \<Rightarrow> ('c, 'f, 'd, 'z) ethernet_scheme \<Rightarrow> bool" where
  "ether_init v p s \<longleftrightarrow> EthernetDeviceManager_init (\<lambda>_. Inr (v, p)) EthernetDeviceManager_new = Ok (ether s)"

definition ether_inv :: "VAddress \<Rightarrow> PAddress \<Rightarrow> ('c, 'f, 'd, 'z) ethernet_scheme \<Rightarrow> bool" where
  "ether_inv v p s \<longleftrightarrow> ether_ok (mset (frame_buffers v p)) (ether s) \<and> \<not> ether_lock (ether s)"

lemma manager_init_value:
  "EthernetDeviceManager_init (\<lambda>_. Inr (v, p)) EthernetDeviceManager_new =
     Ok (EthernetDeviceManager_new\<lparr>memory_buffer := frame_buffers v p, number_of_memory_buffer := 128\<rparr>)"
proof -
  have "unat (number_of_memory_buffer EthernetDeviceManager_new) = 0" "number_of_memory_buffer EthernetDeviceManager_new = 0"
    "length (memory_buffer EthernetDeviceManager_new) = 128" by (simp_all add: EthernetDeviceManager_new_def NUMBER_OF_MEMORY_BUFFER_def)
  then show ?thesis
    using fill_buffers_ok [of EthernetDeviceManager_new 128 v p] by (auto simp: EthernetDeviceManager_init_def NUMBER_OF_MEMORY_BUFFER_def)
qed

lemma ether_init_ok:
  assumes "ether_init v p s"
  shows "ether_inv v p s"
proof -
  have "ether s = EthernetDeviceManager_new\<lparr>memory_buffer := frame_buffers v p, number_of_memory_buffer := 128\<rparr>"
    using assms by (simp add: ether_init_def manager_init_value)
  moreover have "length (frame_buffers v p) = 128" by (simp add: frame_buffers_def)
  ultimately show ?thesis by (simp add: ether_inv_def ether_ok_def all_buffers_def EthernetDeviceManager_new_def)
qed

lemma ether_step_inv:
  assumes inv: "ether_inv v p s" and "ether_step send s s'"
  shows "ether_inv v p s'"
  using assms(2)
proof cases
  case (sent i d target ty)
  then show ?thesis using inv send_data_cases [of "mset (frame_buffers v p)" s send i d target ty] by (auto simp: ether_inv_def)
next
  case (failed i d target ty err)
  then show ?thesis using inv send_data_cases [of "mset (frame_buffers v p)" s send i d target ty] by (auto simp: ether_inv_def)
next
  case (completed c arg)
  then show ?thesis using inv worker_cases [of "mset (frame_buffers v p)" s c arg, where ?'e = unit] by (auto simp: ether_inv_def)
next
  case (device_added desc i)
  then show ?thesis using inv by (auto simp: ether_inv_def add_device_def upd_ether_def ether_ok_def all_buffers_def split: if_splits)
qed

interpretation eth: invariant_system "ether_init v p" "ether_step send" "ether_inv v p" for v p send
  by unfold_locales (rule ether_init_ok, assumption, rule ether_step_inv, assumption+)

section \<open>Properties\<close>

text \<open>
  Property C27. The transmit buffers are never lost or used twice: in every state that is reached from an
  initialised manager by sending, by failing to send, by completions and by new devices, each of the 128
  buffers is free or belongs to exactly one frame in flight, and neither the completion worker nor a further send
  panics. A send takes an identifier that is not in flight any more.
\<close>

theorem ethernet_buffers_conserved:
  assumes "reachable (ether_init v p) (ether_step send) s"
  shows "all_buffers (ether s) = mset (frame_buffers v p) \<and>
     unat (number_of_memory_buffer (ether s)) + length (tx_list (ether s)) = 128 \<and>
     update_transmit_status_worker c arg s \<noteq> (Panic :: (unit, _) outcome) \<and>
     (fresh_id (ether s) \<longrightarrow> send_data send i d target ty s \<noteq> Panic)"
proof -
  have inv: "ether_inv v p s" using assms by (rule eth.reachable_inv)
  then have ok: "ether_ok (mset (frame_buffers v p)) (ether s)" "\<not> ether_lock (ether s)" by (simp_all add: ether_inv_def)
  have "all_buffers (ether s) = mset (frame_buffers v p)" using ok(1) by (simp add: ether_ok_def)
  moreover have "update_transmit_status_worker c arg s \<noteq> (Panic :: (unit, _) outcome)" using worker_cases [OF ok, of c arg, where ?'e = unit] by auto
  moreover have "send_data send i d target ty s \<noteq> Panic" if "fresh_id (ether s)"
    using send_data_cases [OF ok(1) that ok(2), of send i d target ty] by auto
  ultimately show ?thesis using ether_ok_size [OF ok(1)] by blast
qed

definition example_ethernet :: "(nat, nat, (MacAddress \<times> u8 list) list) ethernet" where
  "example_ethernet = timers.extend example_timers
     \<lparr>ether = EthernetDeviceManager_new\<lparr>memory_buffer := frame_buffers 0x100000 0x200000, number_of_memory_buffer := 128,
        device_list := [\<lparr>mac_address = [2, 0, 0, 0, 0, 1], driver = 1\<rparr>]\<rparr>,
      memory = (\<lambda>_. 0), outside = [], rx_entries = Map.empty, kfreed = []\<rparr>"

text \<open>A driver that records what is on the wire.\<close>

definition example_driver :: "(MacAddress \<times> u8 list) list ethernet_driver" where
  "example_driver ds a mac t m = (ds @ [(mac, read_bytes m (fst (tx_buffer t)) (unat (tx_length t)))], Inr (tx_length t))"

definition example_device :: EthernetDeviceDescriptor where
  "example_device = \<lparr>mac_address = [2, 0, 0, 0, 0, 1], driver = 1\<rparr>"

lemma example_reachable: "reachable (ether_init 0x100000 0x200000) (ether_step example_driver) example_ethernet"
proof (rule reach_step)
  let ?s = "example_ethernet\<lparr>ether := EthernetDeviceManager_new\<lparr>memory_buffer := frame_buffers 0x100000 0x200000, number_of_memory_buffer := 128\<rparr>\<rparr>"
  show "reachable (ether_init 0x100000 0x200000) (ether_step example_driver) ?s"
    by (rule reach_init) (simp add: ether_init_def manager_init_value)
  have "add_device example_device ?s = (Ok (0, example_ethernet) :: (unit, _) outcome)"
    by (simp add: add_device_def upd_ether_def example_ethernet_def example_device_def EthernetDeviceManager_new_def timers.extend_def)
  then show "ether_step example_driver ?s example_ethernet" by (rule device_added)
qed

theorem ethernet_buffers_conserved_witness:
  "all_buffers (ether example_ethernet) = mset (frame_buffers 0x100000 0x200000) \<and>
   update_transmit_status_worker 0 5 example_ethernet \<noteq> (Panic :: (unit, _) outcome) \<and>
   send_data example_driver 0 [1, 2, 3] MAC_ADDRESS_BROAD_CAST 0x0800 example_ethernet \<noteq> Panic"
proof -
  have "fresh_id (ether example_ethernet)" by (simp add: fresh_id_def example_ethernet_def timers.extend_def EthernetDeviceManager_new_def)
  then show ?thesis using ethernet_buffers_conserved [OF example_reachable] by blast
qed

lemma frame_info_of_frame:
  assumes "read_bytes m (rx_buffer rx) (14 + length d) = target @ mac @ to_be_bytes16 ty @ d" and "length target = 6" and "length mac = 6"
  shows "frame_info_of rx m = \<lparr>frame_device_id = rx_device_id rx, sender_mac_address = mac, frame_type = ty\<rparr>"
    and "read_bytes m (rx_buffer rx + 14) (length d) = d"
proof -
  let ?a = "rx_buffer rx"
  have "read_bytes m ?a (6 + (6 + (2 + length d))) = target @ mac @ to_be_bytes16 ty @ d" using assms(1) by simp
  then have "read_bytes m ?a 6 @ read_bytes m (?a + 6) 6 @ read_bytes m (?a + 12) 2 @ read_bytes m (?a + 14) (length d) =
      target @ mac @ to_be_bytes16 ty @ d" unfolding read_bytes_append by (simp add: add.assoc)
  moreover have "length (to_be_bytes16 ty) = 2" by (simp add: to_be_bytes16_def)
  ultimately have r: "read_bytes m (?a + 6) 6 = mac" "read_bytes m (?a + 12) 2 = to_be_bytes16 ty" "read_bytes m (?a + 14) (length d) = d"
    using assms(2,3) by (simp_all add: append_eq_append_conv)
  show "read_bytes m (?a + 14) (length d) = d" by (rule r(3))
  have "read_bytes m (?a + 12) 2 = [m (?a + 12), m (?a + 13)]" by (simp add: read_bytes_def upt_rec numeral_2_eq_2 add.assoc)
  then have "m (?a + 12) = ucast (drop_bit 8 ty)" "m (?a + 13) = ucast ty" using r(2) by (simp_all add: to_be_bytes16_def)
  then have "from_be_bytes16 (m (?a + 12)) (m (?a + 13)) = ty" by (simp add: be16_join)
  then show "frame_info_of rx m = \<lparr>frame_device_id = rx_device_id rx, sender_mac_address = mac, frame_type = ty\<rparr>"
    using r(1) by (simp add: frame_info_of_def)
qed

text \<open>
  Property C28. A frame reaches the wire and the other side as it was given. At most 1500 bytes sent through a device of the manager
  are put into a buffer that was free and no longer is: it holds the destination address, the address of the device, the type and the
  bytes, in this order, and nothing beyond its 1530 bytes is written. The driver is called once with the entry for it, the entry
  is in flight, and a receiver of these bytes reads the same destination address, sender, type and payload.
\<close>

theorem ethernet_frame_roundtrip:
  fixes s :: "('c, 'f, 'd, 'z) ethernet_scheme"
  assumes ok: "ether_ok B (ether s)" "\<not> ether_lock (ether s)" and buffer: "number_of_memory_buffer (ether s) \<noteq> 0"
    and device: "unat i < length (device_list (ether s))" "desc = device_list (ether s) ! unat i"
    and sizes: "length d \<le> 1500" "length target = 6" "length (mac_address desc) = 6"
    and driver: "\<And>t m. send (outside s) (driver desc) (mac_address desc) t m = (ds t m, Inr (n t m))"
  shows "\<exists>s' t. send_data send i d target ty s = Ok s' \<and> outside s' = ds t (memory s') \<and> tx_list (ether s') = tx_list (ether s) @ [t] \<and>
     free_buffers (ether s) = add_mset (tx_buffer t) (free_buffers (ether s')) \<and> tx_length t = 14 + of_nat (length d) \<and>
     read_bytes (memory s') (fst (tx_buffer t)) (14 + length d) = target @ mac_address desc @ to_be_bytes16 ty @ d \<and>
     (\<forall>a. 1530 \<le> a - fst (tx_buffer t) \<longrightarrow> memory s' a = memory s a) \<and>
     (\<forall>rx m'. read_bytes m' (rx_buffer rx) (14 + length d) = read_bytes (memory s') (fst (tx_buffer t)) (14 + length d) \<longrightarrow>
        read_bytes m' (rx_buffer rx) 6 = target \<and>
        frame_info_of rx m' = \<lparr>frame_device_id = rx_device_id rx, sender_mac_address = mac_address desc, frame_type = ty\<rparr> \<and>
        read_bytes m' (rx_buffer rx + 14) (length d) = d)"
proof -
  let ?e = "ether s" and ?l = "14 + of_nat (length d) :: usize"
  let ?b = "memory_buffer ?e ! unat (number_of_memory_buffer ?e - 1)"
  let ?f = "target @ mac_address desc @ to_be_bytes16 ty @ d"
  let ?m = "store_bytes (fst ?b) ?f (memory s)" and ?t = "fst (sending ?e ?l)"
  let ?s = "s\<lparr>memory := ?m, outside := ds ?t ?m, ether := snd (sending ?e ?l)\<rparr>"
  have "send_data send i d target ty s = Ok ?s"
    using send_data_sends [where send = send and ds = ds and n = n, OF ok buffer device sizes driver, of ty] by simp
  moreover have t: "tx_buffer ?t = ?b" "tx_length ?t = ?l" "tx_list (ether ?s) = tx_list ?e @ [?t]" by (simp_all add: sending_def Let_def)
  moreover have "free_buffers ?e = add_mset ?b (free_buffers (ether ?s))"
    using sending_takes [OF ok(1) buffer, of ?l] t(1) by simp
  moreover have lf: "length ?f = 14 + length d" using sizes by (simp add: to_be_bytes16_def)
  have "memory ?s a = memory s a" if "1530 \<le> a - fst ?b" for a
  proof -
    have "1530 \<le> unat (a - fst ?b)" using that by (simp add: word_le_nat_alt)
    then show ?thesis using lf sizes(1) by (simp add: store_bytes_def)
  qed
  moreover have "read_bytes (memory ?s) (fst ?b) (14 + length d) = ?f"
    using read_store_bytes [of ?f "fst ?b" "memory s"] sizes(1) unfolding lf by simp
  moreover have "read_bytes m' b 6 = target" if "read_bytes m' b (14 + length d) = ?f" for m' b
  proof -
    have "read_bytes m' b 6 = take 6 (read_bytes m' b (14 + length d))" by (simp add: read_bytes_def take_map)
    then show ?thesis using that sizes(2) by simp
  qed
  ultimately show ?thesis
    using frame_info_of_frame [OF _ sizes(2,3), of _ _ d ty]
    by (intro exI [of _ ?s] exI [of _ ?t]) auto
qed

theorem ethernet_frame_roundtrip_witness:
  "\<exists>s' t. send_data example_driver 0 [1, 2, 3] MAC_ADDRESS_BROAD_CAST 0x0800 example_ethernet = Ok s' \<and> tx_length t = 17 \<and>
     free_buffers (ether example_ethernet) = add_mset (tx_buffer t) (free_buffers (ether s')) \<and> tx_list (ether s') = [t] \<and>
     read_bytes (memory s') (fst (tx_buffer t)) 17 = MAC_ADDRESS_BROAD_CAST @ mac_address example_device @ [8, 0, 1, 2, 3]"
proof -
  have inv: "ether_inv 0x100000 0x200000 example_ethernet" by (rule eth.reachable_inv [OF example_reachable])
  have ok: "ether_ok (all_buffers (ether example_ethernet)) (ether example_ethernet)" "\<not> ether_lock (ether example_ethernet)"
    using inv by (auto simp: ether_inv_def ether_ok_def)
  have e: "number_of_memory_buffer (ether example_ethernet) \<noteq> 0" "unat (0 :: usize) < length (device_list (ether example_ethernet))"
    "example_device = device_list (ether example_ethernet) ! unat (0 :: usize)" "tx_list (ether example_ethernet) = []"
    by (simp_all add: example_ethernet_def timers.extend_def EthernetDeviceManager_new_def example_device_def)
  have l: "length [1 :: u8, 2, 3] \<le> 1500" "length MAC_ADDRESS_BROAD_CAST = 6" "length (mac_address example_device) = 6"
    by (simp_all add: MAC_ADDRESS_BROAD_CAST_def example_device_def)
  have bytes: "to_be_bytes16 0x0800 = [8, 0]" by code_simp
  let ?ds = "\<lambda>t m. outside example_ethernet @ [(mac_address example_device, read_bytes m (fst (tx_buffer t)) (unat (tx_length t)))]"
  have "example_driver (outside example_ethernet) (driver example_device) (mac_address example_device) t m = (?ds t m, Inr (tx_length t))" for t m
    by (simp add: example_driver_def)
  from ethernet_frame_roundtrip [where send = example_driver and ds = ?ds and n = "\<lambda>t m. tx_length t", OF ok e(1-3) l this, of "0x0800"]
  show ?thesis unfolding e(4) by (auto simp: bytes)
qed

end
