(* ===== verification/Tcp_Session.thy ===== *)
theory Tcp_Session
  imports Tcp_Header Ethernet
begin

text \<open>
  TCP sessions, the rest of \<open>kernel/network_manager/tcp.rs\<close> up to the dispatch of received segments. A session is a value
  that the operations take and give back next to the state of the Ethernet manager, through which they send; the
  two intrusive lists of buffers are sequences. The driver and \<open>kmalloc\<close> are the parameters of the Ethernet manager. The copy of a
  packet that stays in its send buffer is not kept, because nothing reads it again: there is no
  retransmission.
\<close>

declare push_bit_of_1 [simp del] bit_numeral_word_iff [simp del]

section \<open>State\<close>

record TcpReceiveDataBuffer =
  rcv_base :: usize
  rcv_data_length :: usize
  rcv_payload_offset :: usize
  rcv_payload_size :: usize
  rcv_sequence_number :: u32

record TcpSendDataBufferHeader =
  snd_address :: usize
  snd_buffer_length :: usize
  snd_sequence_number :: u32
  snd_payload_size :: u32

datatype TcpSessionStatus =
  Listening | HalfOpened | Opened | OpenOppositeClosed | Closing | ClosingOppositeClosed
| ClosedOppositeOpened | ClosedOppositeClosing | Closed

record TcpSessionInfo =
  status :: TcpSessionStatus
  our_port :: u16
  their_port :: u16
  window_size :: u16
  available_window_size :: u16
  expected_arrival_sequence_number :: u32
  next_sequence_number :: u32
  last_sent_acknowledge_number :: u32
  receive_buffer_list :: "TcpReceiveDataBuffer list"
  send_buffer_list :: "TcpSendDataBufferHeader list"

definition TcpSessionInfo_new :: "u16 \<Rightarrow> u16 \<Rightarrow> TcpSessionInfo" where
  "TcpSessionInfo_new our their =
     \<lparr>status = Closed, our_port = our, their_port = their, window_size = 0, available_window_size = 0,
      expected_arrival_sequence_number = 0, next_sequence_number = 0, last_sent_acknowledge_number = 0,
      receive_buffer_list = [], send_buffer_list = []\<rparr>"

type_synonym ('c, 'f, 'd, 'z) net = "('c, 'f, 'd, 'z) ethernet_scheme"

text \<open>Both lists are emptied; the buffers with a length are given to \<open>kfree\<close>.\<close>

definition free_buffer :: "TcpSessionInfo \<Rightarrow> ('c, 'f, 'd, 'z) net \<Rightarrow> TcpSessionInfo \<times> ('c, 'f, 'd, 'z) net" where
  "free_buffer t s =
     (t\<lparr>receive_buffer_list := [], send_buffer_list := []\<rparr>,
      s\<lparr>kfreed := kfreed s @
          map (\<lambda>e. (rcv_base e, rcv_data_length e)) (filter (\<lambda>e. rcv_data_length e \<noteq> 0) (receive_buffer_list t)) @
          map (\<lambda>e. (snd_address e, snd_buffer_length e)) (filter (\<lambda>e. snd_buffer_length e \<noteq> 0) (send_buffer_list t))\<rparr>)"

datatype LinkType = NoLink | Link_Ethernet EthernetFrameInfo

datatype InternetType = NoInternet | Ipv4 Ipv4ConnectionInfo | Ipv6

section \<open>Sending\<close>

definition send_ipv4_tcp_header ::
  "'d ethernet_driver \<Rightarrow> TcpSegmentInfo \<Rightarrow> bool \<Rightarrow> bool \<Rightarrow> bool \<Rightarrow> u16 \<Rightarrow> u32 \<Rightarrow> u32 \<Rightarrow> LinkType \<Rightarrow> ('c, 'f, 'd, 'z) net \<Rightarrow>
    (NetworkError \<times> ('c, 'f, 'd, 'z) net, ('c, 'f, 'd, 'z) net) outcome" where
  "send_ipv4_tcp_header send segment_info fin syn ack ipv4_packet_id sender_ipv4_address destination_ipv4_address link_info s =
     (case create_ipv4_tcp_header segment_info [] fin syn ack False ipv4_packet_id sender_ipv4_address destination_ipv4_address of
        Inl e \<Rightarrow> Err (e, s)
      | Inr header \<Rightarrow>
          (case link_info of
             NoLink \<Rightarrow> Err (InvalidDevice, s)
           | Link_Ethernet ether_info \<Rightarrow> reply_data send ether_info header s))"

text \<open>The segment that a session sends next.\<close>

definition next_segment :: "TcpSessionInfo \<Rightarrow> TcpSegmentInfo" where
  "next_segment t =
     \<lparr>seg_sender_port = our_port t, seg_destination_port = their_port t, seg_sequence_number = next_sequence_number t,
      seg_acknowledgement_number = last_sent_acknowledge_number t, seg_window_size = window_size t\<rparr>"

definition send_tcp_syn_ack_header ::
  "'d ethernet_driver \<Rightarrow> TcpSessionInfo \<Rightarrow> InternetType \<Rightarrow> LinkType \<Rightarrow> ('c, 'f, 'd, 'z) net \<Rightarrow>
    (NetworkError \<times> ('c, 'f, 'd, 'z) net, ('c, 'f, 'd, 'z) net) outcome" where
  "send_tcp_syn_ack_header send t internet_info link_info s =
     (let i = (next_segment t)\<lparr>seg_sequence_number := next_sequence_number t - 1\<rparr>
      in case internet_info of
           Ipv4 v \<Rightarrow> send_ipv4_tcp_header send i False True True 0 (destination_address v) (sender_address v) link_info s
         | _ \<Rightarrow> Panic)"

definition TCP_SEND_DATA_HEADER_SIZE :: usize where "TCP_SEND_DATA_HEADER_SIZE = 32"
definition PACKET_HEADER_SIZE :: usize where "PACKET_HEADER_SIZE = TCP_DEFAULT_HEADER_SIZE + IPV4_DEFAULT_HEADER_SIZE"

definition send_size :: "TcpSessionInfo \<Rightarrow> u8 list \<Rightarrow> nat" where
  "send_size t d = min (min (length d) (unat (available_window_size t))) (unat MAX_SEGMENT_SIZE)"

text \<open>The session after a segment of \<open>n\<close> bytes, whose buffer is at \<open>entry\<close>.\<close>

definition segment_sent :: "nat \<Rightarrow> VAddress \<Rightarrow> MSize \<Rightarrow> TcpSessionInfo \<Rightarrow> TcpSessionInfo" where
  "segment_sent n entry allocate_size t =
     t\<lparr>next_sequence_number := next_sequence_number t + of_nat n,
       send_buffer_list := send_buffer_list t @
         [\<lparr>snd_address = entry, snd_buffer_length = allocate_size, snd_sequence_number = next_sequence_number t, snd_payload_size = of_nat n\<rparr>],
       available_window_size := available_window_size t - of_nat n\<rparr>"

text \<open>One segment of \<open>send_tcp_ipv4_data\<close>; \<open>None\<close> ends the loop because the manager has no buffer left.\<close>

definition send_one_segment ::
  "'d ethernet_driver \<Rightarrow> 'd memory_source \<Rightarrow> Ipv4ConnectionInfo \<Rightarrow> LinkType \<Rightarrow> TcpSessionInfo \<Rightarrow> u8 list \<Rightarrow> ('c, 'f, 'd, 'z) net \<Rightarrow>
    (NetworkError \<times> ('c, 'f, 'd, 'z) net, TcpSessionInfo option \<times> ('c, 'f, 'd, 'z) net) outcome" where
  "send_one_segment send alloc_memory v link_info t d s =
     (let n = send_size t d;
          allocate_size = of_nat n + PACKET_HEADER_SIZE + TCP_SEND_DATA_HEADER_SIZE
      in case get_memory alloc_memory allocate_size s of
           (s, Inl e) \<Rightarrow> Err (NetworkMemoryError e, s)
         | (s, Inr entry) \<Rightarrow>
             (case create_ipv4_tcp_header (next_segment t) (take n d) False False True True 0 (destination_address v) (sender_address v) of
                Inl e \<Rightarrow> Err (e, free_memory entry allocate_size s)
              | Inr header \<Rightarrow>
                  (case link_info of
                     NoLink \<Rightarrow> Err (InvalidSocket, free_memory entry allocate_size s)
                   | Link_Ethernet ether_info \<Rightarrow>
                       (case reply_data send ether_info (header @ take n d) s of
                          Err (e, s) \<Rightarrow>
                            if e = OutOfBuffer then Ok (None, free_memory entry allocate_size s)
                            else Err (e, free_memory entry allocate_size s)
                        | Ok s \<Rightarrow> Ok (Some (segment_sent n entry allocate_size t), s)
                        | Panic \<Rightarrow> Panic
                        | Diverge \<Rightarrow> Diverge))))"

lemma send_size_pos: "d \<noteq> [] \<Longrightarrow> 0 < available_window_size t \<Longrightarrow> 0 < send_size t d \<and> send_size t d \<le> length d"
  by (auto simp: send_size_def MAX_SEGMENT_SIZE_def word_less_nat_alt)

text \<open>The loop gives the session, the data that is left and the state, with an error if there is one.\<close>

function send_loop ::
  "'d ethernet_driver \<Rightarrow> 'd memory_source \<Rightarrow> Ipv4ConnectionInfo \<Rightarrow> LinkType \<Rightarrow> TcpSessionInfo \<Rightarrow> u8 list \<Rightarrow> ('c, 'f, 'd, 'z) net \<Rightarrow>
    (NetworkError \<times> TcpSessionInfo \<times> u8 list \<times> ('c, 'f, 'd, 'z) net, TcpSessionInfo \<times> u8 list \<times> ('c, 'f, 'd, 'z) net) outcome" where
  "send_loop send alloc_memory v link_info t d s =
     (if d \<noteq> [] \<and> 0 < available_window_size t then
        (case send_one_segment send alloc_memory v link_info t d s of
           Ok (Some t', s) \<Rightarrow> send_loop send alloc_memory v link_info t' (drop (send_size t d) d) s
         | Ok (None, s) \<Rightarrow> Ok (t, d, s)
         | Err (e, s) \<Rightarrow> Err (e, t, d, s)
         | Panic \<Rightarrow> Panic
         | Diverge \<Rightarrow> Diverge)
      else Ok (t, d, s))"
  by pat_completeness auto

termination
  by (relation "measure (\<lambda>(_, _, _, _, _, d, _). length d)") (simp_all, use send_size_pos in fastforce)

declare send_loop.simps [simp del]

definition send_tcp_ipv4_data ::
  "'d ethernet_driver \<Rightarrow> 'd memory_source \<Rightarrow> TcpSessionInfo \<Rightarrow> u8 list \<Rightarrow> Ipv4ConnectionInfo \<Rightarrow> LinkType \<Rightarrow> ('c, 'f, 'd, 'z) net \<Rightarrow>
    (NetworkError \<times> TcpSessionInfo \<times> u8 list \<times> ('c, 'f, 'd, 'z) net, TcpSessionInfo \<times> u8 list \<times> ('c, 'f, 'd, 'z) net) outcome" where
  "send_tcp_ipv4_data send alloc_memory t d v link_info s =
     (if status t \<noteq> Opened \<and> status t \<noteq> OpenOppositeClosed then Err (InvalidSocket, t, d, s)
      else send_loop send alloc_memory v link_info t d s)"

section \<open>Acknowledgements\<close>

text \<open>The window grows by the size of the first buffer, up to its full size.\<close>

definition grow_window :: "TcpSendDataBufferHeader \<Rightarrow> TcpSessionInfo \<Rightarrow> TcpSessionInfo" where
  "grow_window first_entry t =
     (let a = available_window_size t + ucast (snd_payload_size first_entry)
      in t\<lparr>available_window_size := (if a > window_size t then window_size t else a)\<rparr>)"

definition expected_ack :: "TcpSendDataBufferHeader \<Rightarrow> u32" where
  "expected_ack e = snd_sequence_number e + snd_payload_size e"

definition ack_sent_data :: "u32 \<Rightarrow> TcpSessionInfo \<Rightarrow> ('c, 'f, 'd, 'z) net \<Rightarrow> TcpSessionInfo \<times> ('c, 'f, 'd, 'z) net" where
  "ack_sent_data ack t s =
     (case send_buffer_list t of
        [] \<Rightarrow> (t, s)
      | first_entry # rest \<Rightarrow>
          if ack = expected_ack first_entry
          then ((grow_window first_entry t)\<lparr>send_buffer_list := rest\<rparr>,
                free_memory (snd_address first_entry) (snd_buffer_length first_entry) s)
          else
            (case find (\<lambda>e. ack = expected_ack e) (first_entry # rest) of
               None \<Rightarrow> (t, s)
             | Some e \<Rightarrow>
                 ((grow_window first_entry t)\<lparr>send_buffer_list := remove1 e (first_entry # rest)\<rparr>,
                  free_memory (snd_address e) (snd_buffer_length e) s)))"

text \<open>The last component says whether the socket stays active.\<close>

definition ipv4_tcp_ack_handler ::
  "TcpSessionInfo \<Rightarrow> TcpSegmentInfo \<Rightarrow> ('c, 'f, 'd, 'z) net \<Rightarrow> TcpSessionInfo \<times> ('c, 'f, 'd, 'z) net \<times> bool" where
  "ipv4_tcp_ack_handler t i s =
     (let acked = (next_sequence_number t = seg_acknowledgement_number i);
          other = (let (t, s) = ack_sent_data (seg_acknowledgement_number i) t s in (t, s, True))
      in case status t of
           HalfOpened \<Rightarrow> if acked then (t\<lparr>status := Opened\<rparr>, s, True) else other
         | ClosingOppositeClosed \<Rightarrow>
             if acked then let (t, s) = free_buffer (t\<lparr>status := Closed\<rparr>) s in (t, s, False) else (t, s, False)
         | Closing \<Rightarrow>
             if acked then let (t, s) = free_buffer (t\<lparr>status := ClosedOppositeOpened\<rparr>) s in (t, s, True) else (t, s, True)
         | _ \<Rightarrow> other)"

section \<open>Closing\<close>

text \<open>The status after a FIN, whether the socket stays active and whether an ACK is sent; a listening socket is an error.\<close>

definition fin_status :: "TcpSessionInfo \<Rightarrow> u32 \<Rightarrow> bool \<Rightarrow> (TcpSessionStatus \<times> bool \<times> bool) option" where
  "fin_status t ack ack_active =
     (case status t of
        Closed \<Rightarrow> Some (Closed, False, False)
      | Closing \<Rightarrow>
          if ack_active then
            if ack = next_sequence_number t then Some (ClosedOppositeClosing, True, True) else Some (Closing, True, False)
          else Some (ClosingOppositeClosed, True, True)
      | HalfOpened \<Rightarrow> Some (ClosingOppositeClosed, True, True)
      | Opened \<Rightarrow> Some (OpenOppositeClosed, True, True)
      | OpenOppositeClosed \<Rightarrow> Some (OpenOppositeClosed, True, True)
      | ClosingOppositeClosed \<Rightarrow> Some (ClosingOppositeClosed, True, True)
      | ClosedOppositeClosing \<Rightarrow> Some (ClosedOppositeClosing, True, True)
      | ClosedOppositeOpened \<Rightarrow> Some (ClosedOppositeClosing, True, True)
      | Listening \<Rightarrow> None)"

text \<open>The segment that acknowledges a received one.\<close>

definition reply_segment :: "TcpSessionInfo \<Rightarrow> TcpSegmentInfo \<Rightarrow> TcpSegmentInfo" where
  "reply_segment t i =
     \<lparr>seg_sender_port = seg_destination_port i, seg_destination_port = seg_sender_port i, seg_sequence_number = next_sequence_number t,
      seg_acknowledgement_number = last_sent_acknowledge_number t, seg_window_size = seg_window_size i\<rparr>"

definition ipv4_tcp_fin_handler ::
  "'d ethernet_driver \<Rightarrow> TcpSessionInfo \<Rightarrow> TcpSegmentInfo \<Rightarrow> LinkType \<Rightarrow> Ipv4ConnectionInfo \<Rightarrow> bool \<Rightarrow> ('c, 'f, 'd, 'z) net \<Rightarrow>
    (NetworkError \<times> TcpSessionInfo \<times> ('c, 'f, 'd, 'z) net, TcpSessionInfo \<times> ('c, 'f, 'd, 'z) net \<times> bool) outcome" where
  "ipv4_tcp_fin_handler send t i link_info v ack_active s =
     (case fin_status t (seg_acknowledgement_number i) ack_active of
        None \<Rightarrow> Err (InvalidSocket, t, s)
      | Some (st, is_socket_active, should_send_ack) \<Rightarrow>
          let t = t\<lparr>status := st\<rparr>
          in if should_send_ack then
               let t = t\<lparr>last_sent_acknowledge_number := seg_sequence_number i + 1\<rparr>
               in (case send_ipv4_tcp_header send (reply_segment t i) False False True 0 (destination_address v) (sender_address v) link_info s of
                     Err (e, s) \<Rightarrow> Err (e, t, s)
                   | Ok s \<Rightarrow> Ok (t\<lparr>next_sequence_number := next_sequence_number t + 1\<rparr>, s, is_socket_active)
                   | Panic \<Rightarrow> Panic
                   | Diverge \<Rightarrow> Diverge)
             else Ok (t, s, is_socket_active))"

text \<open>The last arm of \<open>close_tcp_session\<close>.\<close>

definition send_fin ::
  "'d ethernet_driver \<Rightarrow> TcpSessionInfo \<Rightarrow> InternetType \<Rightarrow> LinkType \<Rightarrow> ('c, 'f, 'd, 'z) net \<Rightarrow>
    (NetworkError \<times> TcpSessionInfo \<times> ('c, 'f, 'd, 'z) net, TcpSessionInfo \<times> ('c, 'f, 'd, 'z) net \<times> bool) outcome" where
  "send_fin send t internet_info link_info s =
     (case internet_info of
        NoInternet \<Rightarrow> Err (InvalidSocket, t, s)
      | Ipv6 \<Rightarrow> Panic
      | Ipv4 v \<Rightarrow>
          (case send_ipv4_tcp_header send (next_segment t) True False True 0 (destination_address v) (sender_address v) link_info s of
             Err (e, s) \<Rightarrow> Err (e, t, s)
           | Ok s \<Rightarrow>
               Ok (t\<lparr>next_sequence_number := next_sequence_number t + 1,
                     status := (if status t = OpenOppositeClosed then ClosingOppositeClosed else Closing)\<rparr>, s, True)
           | Panic \<Rightarrow> Panic
           | Diverge \<Rightarrow> Diverge))"

definition close_tcp_session ::
  "'d ethernet_driver \<Rightarrow> TcpSessionInfo \<Rightarrow> InternetType \<Rightarrow> LinkType \<Rightarrow> ('c, 'f, 'd, 'z) net \<Rightarrow>
    (NetworkError \<times> TcpSessionInfo \<times> ('c, 'f, 'd, 'z) net, TcpSessionInfo \<times> ('c, 'f, 'd, 'z) net \<times> bool) outcome" where
  "close_tcp_session send t internet_info link_info s =
     (case status t of
        Listening \<Rightarrow> Ok (t, s, False)
      | Closed \<Rightarrow> let (t, s) = free_buffer t s in Ok (t, s, False)
      | Closing \<Rightarrow> Ok (t, s, True)
      | ClosingOppositeClosed \<Rightarrow> Ok (t, s, True)
      | ClosedOppositeOpened \<Rightarrow> Ok (t, s, True)
      | _ \<Rightarrow> send_fin send t internet_info link_info s)"

section \<open>Data\<close>

lemma find_remove1_shorter: "find P bs = Some e \<Longrightarrow> length (remove1 e bs) < length bs"
  by (auto simp: find_Some_iff length_remove1)

text \<open>
  The buffers that arrived early and follow now are written in their turn. The sequence number advances by
  \<open>payload_size\<close>, the size of the segment that has just arrived, and the number of bytes
  written is compared with it as well; the flag is false when that fails.
\<close>

function drain_received ::
  "usize \<Rightarrow> u32 \<Rightarrow> Ringbuffer \<Rightarrow> TcpReceiveDataBuffer list \<Rightarrow> ('c, 'f, 'd, 'z) net \<Rightarrow>
    bool \<times> Ringbuffer \<times> TcpReceiveDataBuffer list \<times> ('c, 'f, 'd, 'z) net" where
  "drain_received payload_size next_number r bs s =
     (case find (\<lambda>e. rcv_sequence_number e = next_number) bs of
        None \<Rightarrow> (True, r, bs, s)
      | Some e \<Rightarrow>
          (case Ringbuffer_write r (memory s) (rcv_base e + rcv_payload_offset e) (rcv_payload_size e) of
             (written_size, r, m) \<Rightarrow>
               if written_size < payload_size then (False, r, bs, s\<lparr>memory := m\<rparr>)
               else drain_received payload_size (next_number + ucast payload_size) r (remove1 e bs)
                      (free_memory (rcv_base e) (rcv_data_length e) (s\<lparr>memory := m\<rparr>))))"
  by pat_completeness auto

termination
  by (relation "measure (\<lambda>(_, _, _, bs, _). length bs)") (simp_all add: find_remove1_shorter)

declare drain_received.simps [simp del]

text \<open>The data is taken when it is the one expected and kept for later otherwise; the flag says whether its buffer can be freed.\<close>

definition accept_data ::
  "TcpSessionInfo \<Rightarrow> TcpSegmentInfo \<Rightarrow> Ringbuffer \<Rightarrow> VAddress \<Rightarrow> MSize \<Rightarrow> usize \<Rightarrow> usize \<Rightarrow> ('c, 'f, 'd, 'z) net \<Rightarrow>
    (NetworkError \<times> TcpSessionInfo \<times> Ringbuffer \<times> ('c, 'f, 'd, 'z) net, TcpSessionInfo \<times> Ringbuffer \<times> ('c, 'f, 'd, 'z) net \<times> bool) outcome" where
  "accept_data t i r allocated_data_base data_length payload_offset payload_size s =
     (if seg_sequence_number i = expected_arrival_sequence_number t then
        let (written_size, r, m) = Ringbuffer_write r (memory s) (allocated_data_base + payload_offset) payload_size;
            s = s\<lparr>memory := m\<rparr>
        in if written_size < payload_size then Err (DataOverflowed, t, r, s)
           else
             let (complete, r, bs, s) =
                   (if receive_buffer_list t = [] then (True, r, [], s)
                    else drain_received payload_size (seg_sequence_number i + ucast payload_size) r (receive_buffer_list t) s);
                 t = t\<lparr>receive_buffer_list := bs\<rparr>
             in if \<not> complete then Err (DataOverflowed, t, r, s)
                else Ok (t\<lparr>expected_arrival_sequence_number := seg_sequence_number i + ucast payload_size\<rparr>, r, s, True)
      else
        Ok (t\<lparr>receive_buffer_list := receive_buffer_list t @
                [\<lparr>rcv_base = allocated_data_base, rcv_data_length = data_length, rcv_payload_offset = payload_offset,
                  rcv_payload_size = payload_size, rcv_sequence_number = seg_sequence_number i\<rparr>]\<rparr>, r, s, False))"

definition ipv4_tcp_data_handler ::
  "'d ethernet_driver \<Rightarrow> TcpSessionInfo \<Rightarrow> TcpSegmentInfo \<Rightarrow> Ringbuffer \<Rightarrow> VAddress \<Rightarrow> MSize \<Rightarrow> usize \<Rightarrow> usize \<Rightarrow> LinkType \<Rightarrow> Ipv4ConnectionInfo \<Rightarrow>
    ('c, 'f, 'd, 'z) net \<Rightarrow>
    (NetworkError \<times> TcpSessionInfo \<times> Ringbuffer \<times> ('c, 'f, 'd, 'z) net, TcpSessionInfo \<times> Ringbuffer \<times> ('c, 'f, 'd, 'z) net \<times> bool) outcome" where
  "ipv4_tcp_data_handler send t i r allocated_data_base data_length payload_offset payload_size link_info v s =
     obind (accept_data t i r allocated_data_base data_length payload_offset payload_size s) (\<lambda>(t, r, s, should_free_data).
     let t = t\<lparr>last_sent_acknowledge_number := seg_sequence_number i + ucast payload_size\<rparr>
     in obind (ignore_error (send_ipv4_tcp_header send (reply_segment t i) False False True 0 (destination_address v) (sender_address v) link_info s)) (\<lambda>s.
        Ok (t, r, s, should_free_data)))"

section \<open>Splitting data into segments\<close>

text \<open>\<open>sent_in ns t t'\<close>: between \<open>t\<close> and \<open>t'\<close> segments of the sizes \<open>ns\<close> have been sent in sequence.\<close>

definition sequence_numbers :: "u32 \<Rightarrow> nat list \<Rightarrow> u32 list" where
  "sequence_numbers n ns = map (\<lambda>k. n + of_nat (sum_list (take k ns))) [0..<length ns]"

definition sent_in :: "nat list \<Rightarrow> TcpSessionInfo \<Rightarrow> TcpSessionInfo \<Rightarrow> bool" where
  "sent_in ns t t' \<longleftrightarrow> (\<forall>n \<in> set ns. 0 < n \<and> n \<le> 1460) \<and> sum_list ns + unat (available_window_size t') = unat (available_window_size t) \<and>
     next_sequence_number t' = next_sequence_number t + of_nat (sum_list ns) \<and>
     (\<exists>bs. send_buffer_list t' = send_buffer_list t @ bs \<and> map snd_payload_size bs = map of_nat ns \<and>
        map snd_sequence_number bs = sequence_numbers (next_sequence_number t) ns) \<and>
     (status t', our_port t', their_port t', window_size t', expected_arrival_sequence_number t', last_sent_acknowledge_number t', receive_buffer_list t') =
     (status t, our_port t, their_port t, window_size t, expected_arrival_sequence_number t, last_sent_acknowledge_number t, receive_buffer_list t)"

lemma sequence_numbers_Cons: "sequence_numbers n (m # ns) = n # sequence_numbers (n + of_nat m) ns"
  by (simp add: sequence_numbers_def map_upt_Suc add.assoc del: upt_Suc)

lemma sent_in_Nil: "sent_in [] t t"
  by (simp add: sent_in_def sequence_numbers_def)

lemma sent_in_Cons:
  assumes "0 < n" and "n \<le> 1460" and "n \<le> unat (available_window_size t)" and "sent_in ns (segment_sent n a l t) t'"
  shows "sent_in (n # ns) t t'"
proof -
  let ?t = "segment_sent n a l t"
  have "unat (of_nat n :: u16) = n" using assms(2) by (simp add: unat_of_nat)
  then have "unat (available_window_size ?t) = unat (available_window_size t) - n"
    using assms(3) by (simp add: segment_sent_def unat_sub word_le_nat_alt)
  moreover obtain bs where "send_buffer_list t' = send_buffer_list ?t @ bs" "map snd_payload_size bs = map of_nat ns"
    "map snd_sequence_number bs = sequence_numbers (next_sequence_number ?t) ns" using assms(4) by (auto simp: sent_in_def)
  moreover have "send_buffer_list ?t = send_buffer_list t @
      [\<lparr>snd_address = a, snd_buffer_length = l, snd_sequence_number = next_sequence_number t, snd_payload_size = of_nat n\<rparr>]"
    by (simp add: segment_sent_def)
  ultimately show ?thesis
    using assms unfolding sent_in_def sequence_numbers_Cons by (auto simp: segment_sent_def)
qed

lemma send_one_segment_sent:
  "send_one_segment send alloc_memory v l t d s = Ok (Some t', s') \<Longrightarrow> \<exists>a n. t' = segment_sent (send_size t d) a n t"
  by (auto simp: send_one_segment_def Let_def split: prod.splits sum.splits LinkType.splits outcome.splits if_splits)

lemma send_loop_next:
  assumes "d \<noteq> [] \<and> 0 < available_window_size t" and "send_one_segment send alloc_memory v l t d s = Ok (Some t2, s2)"
  shows "send_loop send alloc_memory v l t d s = send_loop send alloc_memory v l t2 (drop (send_size t d) d) s2"
  using assms by (subst send_loop.simps) simp

lemma send_loop_stops:
  assumes "\<not> (\<exists>t2 s2. (d \<noteq> [] \<and> 0 < available_window_size t) \<and> send_one_segment send alloc_memory v l t d s = Ok (Some t2, s2))"
    and "send_loop send alloc_memory v l t d s = Ok (t', left, s') \<or> send_loop send alloc_memory v l t d s = Err (e, t', left, s')"
  shows "t' = t \<and> left = d \<and> (s' = s \<or> send_one_segment send alloc_memory v l t d s = Ok (None, s') \<or> send_one_segment send alloc_memory v l t d s = Err (e, s'))"
proof (cases "d \<noteq> [] \<and> 0 < available_window_size t")
  case False
  have "send_loop send alloc_memory v l t d s = Ok (t, d, s)" by (subst send_loop.simps) (rule if_not_P [OF False])
  then show ?thesis using assms(2) by simp
next
  case True
  let ?one = "send_one_segment send alloc_memory v l t d s"
  have eq: "send_loop send alloc_memory v l t d s =
      (case ?one of
         Ok (Some t', s) \<Rightarrow> send_loop send alloc_memory v l t' (drop (send_size t d) d) s
       | Ok (None, s) \<Rightarrow> Ok (t, d, s)
       | Err (e, s) \<Rightarrow> Err (e, t, d, s)
       | Panic \<Rightarrow> Panic
       | Diverge \<Rightarrow> Diverge)"
    using True by (subst send_loop.simps) (rule if_P)
  show ?thesis
  proof (cases ?one)
    case (Ok x)
    then obtain s2 where "?one = Ok (None, s2)" using assms(1) True by (cases x) (metis not_Some_eq surj_pair)
    then show ?thesis using assms(2) unfolding eq by simp
  next
    case (Err x)
    then show ?thesis using assms(2) unfolding eq by (cases x) simp
  qed (use assms(2) eq in simp_all)
qed

section \<open>What goes on the wire\<close>

text \<open>The packets for data that is cut into pieces of the given sizes.\<close>

fun tcp_packets :: "TcpSessionInfo \<Rightarrow> Ipv4ConnectionInfo \<Rightarrow> u8 list \<Rightarrow> nat list \<Rightarrow> u8 list list" where
  "tcp_packets t v d [] = []"
| "tcp_packets t v d (n # ns) =
     (case create_ipv4_tcp_header (next_segment t) (take n d) False False True True 0 (destination_address v) (sender_address v) of
        Inl e \<Rightarrow> []
      | Inr h \<Rightarrow> (h @ take n d) # tcp_packets (t\<lparr>next_sequence_number := next_sequence_number t + of_nat n\<rparr>) v (drop n d) ns)"

text \<open>
  The environment: \<open>wire\<close> is what has been sent, a driver that succeeds adds the bytes of the entry, one that fails adds
  nothing, and so does the allocator.
\<close>

definition records :: "'d ethernet_driver \<Rightarrow> 'd memory_source \<Rightarrow> ('d \<Rightarrow> u8 list list) \<Rightarrow> bool" where
  "records send alloc_memory wire \<longleftrightarrow>
     (\<forall>d a mac e m d' n. send d a mac e m = (d', Inr n) \<longrightarrow> wire d' = wire d @ [read_bytes m (fst (tx_buffer e)) (unat (tx_length e))]) \<and>
     (\<forall>d a mac e m d' err. send d a mac e m = (d', Inl err) \<longrightarrow> wire d' = wire d) \<and>
     (\<forall>d n. wire (fst (alloc_memory d n)) = wire d)"

definition device_addresses_ok :: "('c, 'f, 'd, 'z) net \<Rightarrow> bool" where
  "device_addresses_ok s \<longleftrightarrow> (\<forall>desc \<in> set (device_list (ether s)). length (mac_address desc) = 6)"

lemma send_data_wire:
  assumes "records send alloc_memory wire" and "device_addresses_ok s" and "length target = 6" and "length d < 2 ^ 32"
  shows "send_data send i d target ty s = Ok s' \<Longrightarrow>
      (\<exists>f. wire (outside s') = wire (outside s) @ [f] \<and> drop 14 f = d) \<and> device_addresses_ok s'"
    and "send_data send i d target ty s = Err (e, s') \<Longrightarrow> wire (outside s') = wire (outside s) \<and> device_addresses_ok s'"
proof -
  assume ok: "send_data send i d target ty s = Ok s'"
  obtain desc t n where c: "desc \<in> set (device_list (ether s))" "send (outside s) (driver desc) (mac_address desc) t (memory s') = (outside s', Inr n)"
    "read_bytes (memory s') (fst (tx_buffer t)) (unat (tx_length t)) = target @ mac_address desc @ to_be_bytes16 ty @ d"
    using send_data_Ok(1) [OF ok assms(4,3)] assms(2) unfolding device_addresses_ok_def by blast
  have "length (mac_address desc) = 6" using assms(2) c(1) by (simp add: device_addresses_ok_def)
  then have "drop 14 (target @ mac_address desc @ to_be_bytes16 ty @ d) = d" using assms(3) by (simp add: to_be_bytes16_def)
  moreover have "wire (outside s') = wire (outside s) @ [read_bytes (memory s') (fst (tx_buffer t)) (unat (tx_length t))]"
    using assms(1) c(2) unfolding records_def by blast
  moreover have "device_list (ether s') = device_list (ether s)"
    using send_data_Ok(2) [OF ok assms(4,3)] assms(2) by (simp add: device_addresses_ok_def)
  ultimately show "(\<exists>f. wire (outside s') = wire (outside s) @ [f] \<and> drop 14 f = d) \<and> device_addresses_ok s'"
    using c(3) assms(2) by (auto simp: device_addresses_ok_def)
next
  assume err: "send_data send i d target ty s = Err (e, s')"
  have "wire (outside s') = wire (outside s)"
    using send_data_Err(1) [OF err]
  proof (elim disjE exE conjE)
    fix desc t m
    assume "send (outside s) (driver desc) (mac_address desc) t m = (outside s', Inl e)"
    then show ?thesis using assms(1) unfolding records_def by blast
  qed simp
  then show "wire (outside s') = wire (outside s) \<and> device_addresses_ok s'"
    using assms(2) send_data_Err(2) [OF err] by (simp add: device_addresses_ok_def)
qed

lemma create_tcp_length: "length d \<le> 1460 \<Longrightarrow> \<exists>h. create_ipv4_tcp_header i d fin syn ack psh pid src dst = Inr h \<and> length h = 40"
  using create_tcp_ok [of d i fin syn ack psh pid src dst] by fastforce

lemma create_take: "n \<le> 1460 \<Longrightarrow> \<exists>h. create_ipv4_tcp_header i (take n d) fin syn ack psh pid src dst = Inr h \<and> length h = 40"
  by (rule create_tcp_length) (simp add: min_le_iff_disj)

lemma send_one_segment_wire:
  assumes "records send alloc_memory wire" and "device_addresses_ok s" and "length (sender_mac_address f) = 6"
  shows "send_one_segment send alloc_memory v (Link_Ethernet f) t d s = Ok (Some t', s') \<Longrightarrow>
      (\<exists>p. wire (outside s') = wire (outside s) @ p \<and> map (drop 14) p = tcp_packets t v d [send_size t d]) \<and> device_addresses_ok s'"
    and "send_one_segment send alloc_memory v (Link_Ethernet f) t d s = Ok (None, s') \<or>
      send_one_segment send alloc_memory v (Link_Ethernet f) t d s = Err (e, s') \<Longrightarrow> wire (outside s') = wire (outside s)"
proof -
  let ?n = "send_size t d" and ?a = "of_nat (send_size t d) + PACKET_HEADER_SIZE + TCP_SEND_DATA_HEADER_SIZE"
  obtain w r where w: "alloc_memory (outside s) ?a = (w, r)" by fastforce
  let ?s = "s\<lparr>outside := w\<rparr>"
  have ww: "wire w = wire (outside s)" using assms(1) w unfolding records_def by (metis fst_conv)
  have n: "?n \<le> 1460" by (simp add: send_size_def MAX_SEGMENT_SIZE_def)
  obtain h where h: "create_ipv4_tcp_header (next_segment t) (take ?n d) False False True True 0 (destination_address v) (sender_address v) = Inr h" "length h = 40"
    using create_take [OF n] by blast
  let ?r = "reply_data send f (h @ take ?n d) ?s"
  have ok: "device_addresses_ok ?s" using assms(2) by (simp add: device_addresses_ok_def)
  have len: "length (h @ take ?n d) < 2 ^ 32" using h(2) n by simp
  note sw = send_data_wire [OF assms(1) ok assms(3) len, of "frame_device_id f" "frame_type f", folded reply_data_def, simplified ww]
  have eq: "send_one_segment send alloc_memory v (Link_Ethernet f) t d s =
      (case r of Inl e \<Rightarrow> Err (NetworkMemoryError e, ?s)
       | Inr entry \<Rightarrow>
           (case ?r of
              Err (e, s) \<Rightarrow> if e = OutOfBuffer then Ok (None, free_memory entry ?a s) else Err (e, free_memory entry ?a s)
            | Ok s \<Rightarrow> Ok (Some (segment_sent ?n entry ?a t), s) | Panic \<Rightarrow> Panic | Diverge \<Rightarrow> Diverge))"
    by (simp add: send_one_segment_def Let_def get_memory_def w h(1) split: sum.split)
  show "(\<exists>p. wire (outside s') = wire (outside s) @ p \<and> map (drop 14) p = tcp_packets t v d [?n]) \<and> device_addresses_ok s'"
    if "send_one_segment send alloc_memory v (Link_Ethernet f) t d s = Ok (Some t', s')"
  proof -
    have "?r = Ok s'" using that unfolding eq by (auto split: sum.splits outcome.splits if_splits)
    then obtain q where "wire (outside s') = wire (outside s) @ [q]" "drop 14 q = h @ take ?n d" "device_addresses_ok s'"
      using sw(1) ww by auto
    then show ?thesis using h(1) by (intro conjI exI [of _ "[q]"]) simp_all
  qed
  show "wire (outside s') = wire (outside s)"
    if "send_one_segment send alloc_memory v (Link_Ethernet f) t d s = Ok (None, s') \<or>
      send_one_segment send alloc_memory v (Link_Ethernet f) t d s = Err (e, s')"
    using that sw(2) ww unfolding eq by (auto simp: free_memory_def split: sum.splits outcome.splits if_splits)
qed

lemma tcp_packets_cong: "next_segment t = next_segment t' \<Longrightarrow> tcp_packets t v d ns = tcp_packets t' v d ns"
proof (induction ns arbitrary: t t' d)
  case (Cons n ns)
  let ?u = "\<lambda>t. t\<lparr>next_sequence_number := next_sequence_number t + of_nat n\<rparr>"
  have "next_segment (?u t) = next_segment (?u t')" using Cons.prems by (simp add: next_segment_def)
  from Cons.IH [OF this] show ?case by (simp add: Cons.prems split: sum.split)
qed simp

lemma tcp_packets_sent: "tcp_packets (segment_sent n a l t) v d ns = tcp_packets (t\<lparr>next_sequence_number := next_sequence_number t + of_nat n\<rparr>) v d ns"
  by (rule tcp_packets_cong) (simp add: segment_sent_def next_segment_def)

lemma tcp_packets_append:
  assumes "n \<le> 1460"
  shows "tcp_packets t v d [n] @ tcp_packets (segment_sent n a l t) v (drop n d) ns = tcp_packets t v d (n # ns)"
proof -
  obtain h where "create_ipv4_tcp_header (next_segment t) (take n d) False False True True 0 (destination_address v) (sender_address v) = Inr h"
    using create_take [OF assms] by blast
  then show ?thesis by (simp add: tcp_packets_sent)
qed

lemma send_loop_splits:
  assumes "records send alloc_memory wire" and "device_addresses_ok s" and "length (sender_mac_address f) = 6"
    and "send_loop send alloc_memory v (Link_Ethernet f) t d s = Ok (t', left, s') \<or> send_loop send alloc_memory v (Link_Ethernet f) t d s = Err (e, t', left, s')"
  shows "\<exists>ns p. sent_in ns t t' \<and> sum_list ns + length left = length d \<and> left = drop (sum_list ns) d \<and>
     wire (outside s') = wire (outside s) @ p \<and> map (drop 14) p = tcp_packets t v d ns"
  using assms
proof (induction send alloc_memory v "Link_Ethernet f" t d s rule: send_loop.induct)
  case (1 send alloc_memory v t d s)
  let ?n = "send_size t d" and ?one = "send_one_segment send alloc_memory v (Link_Ethernet f) t d s"
  show ?case
  proof (cases "\<exists>t2 s2. (d \<noteq> [] \<and> 0 < available_window_size t) \<and> ?one = Ok (Some t2, s2)")
    case False
    have "t' = t" "left = d" "s' = s \<or> ?one = Ok (None, s') \<or> ?one = Err (e, s')" using send_loop_stops [OF False "1.prems"(4)] by blast+
    moreover then have "wire (outside s') = wire (outside s)" using send_one_segment_wire(2) [OF "1.prems"(1-3), of v t d s' e] by blast
    ultimately show ?thesis by (intro exI [of _ "[]"]) (simp add: sent_in_Nil)
  next
    case True
    then obtain t2 s2 where c: "d \<noteq> [] \<and> 0 < available_window_size t" and t2: "?one = Ok (Some t2, s2)" by blast
    then have n: "0 < ?n" "?n \<le> length d" "?n \<le> 1460" "?n \<le> unat (available_window_size t)"
      using send_size_pos [of d t] by (auto simp: send_size_def MAX_SEGMENT_SIZE_def)
    obtain a k where a: "t2 = segment_sent ?n a k t" using send_one_segment_sent [OF t2] by blast
    obtain p where p: "wire (outside s2) = wire (outside s) @ p" "map (drop 14) p = tcp_packets t v d [?n]" "device_addresses_ok s2"
      using send_one_segment_wire(1) [OF "1.prems"(1-3) t2] by blast
    obtain ns q where ns: "sent_in ns t2 t'" "sum_list ns + length left = length (drop ?n d)" "left = drop (sum_list ns) (drop ?n d)"
        "wire (outside s') = wire (outside s2) @ q" "map (drop 14) q = tcp_packets t2 v (drop ?n d) ns"
      using "1.hyps" [OF c t2 refl refl "1.prems"(1) p(3) "1.prems"(3) "1.prems"(4) [unfolded send_loop_next [OF c t2]]] by (elim exE conjE)
    have "map (drop 14) (p @ q) = tcp_packets t v d (?n # ns)" unfolding map_append p(2) ns(5) a by (rule tcp_packets_append [OF n(3)])
    moreover have "sent_in (?n # ns) t t'" using sent_in_Cons [OF n(1,3,4)] ns(1) unfolding a by blast
    moreover have "sum_list (?n # ns) + length left = length d" using ns(2) n(2) by simp
    moreover have "left = drop (sum_list (?n # ns)) d" using ns(3) by (simp add: add.commute)
    moreover have "wire (outside s') = wire (outside s) @ p @ q" using ns(4) p(1) by simp
    ultimately show ?thesis by (intro exI [of _ "?n # ns"] exI [of _ "p @ q"] conjI)
  qed
qed

end
