(* ===== verification/Tcp_Protocol.thy ===== *)
theory Tcp_Protocol
  imports Tcp_Session
begin

text \<open>
  What the TCP sessions of \<open>kernel/network_manager/tcp.rs\<close> do over a sequence of operations: how data is cut into
  segments and reaches the wire, what a receiver makes of such a segment, how arriving data reaches the ring of the
  reader, and the state machine of a session as a step relation over all its handlers.
\<close>

declare push_bit_of_1 [simp del] bit_numeral_word_iff [simp del]

section \<open>Sending\<close>

lemma tcp_packets_payload:
  assumes "\<forall>n \<in> set ns. n \<le> 1460"
  shows "concat (map (drop 40) (tcp_packets t v d ns)) = take (sum_list ns) d"
  using assms
proof (induction ns arbitrary: t d)
  case (Cons n ns)
  obtain h where h: "create_ipv4_tcp_header (next_segment t) (take n d) False False True True 0 (destination_address v) (sender_address v) = Inr h"
    "length h = 40" using create_take [of n "next_segment t" d False False True True 0 "destination_address v" "sender_address v"] Cons.prems by auto
  have "concat (map (drop 40) (tcp_packets (t\<lparr>next_sequence_number := next_sequence_number t + of_nat n\<rparr>) v (drop n d) ns)) = take (sum_list ns) (drop n d)"
    using Cons by simp
  then show ?case using h by (simp add: take_add)
qed simp

text \<open>
  Property C29. Sending splits data into segments without loss or reordering. When \<open>send_tcp_ipv4_data\<close> returns, there are sizes of
  segments, each between 1 and 1460 bytes, such that the bytes not sent are the rest of the data, the payloads of the packets that
  were added to the wire are the beginning of the data in order, the sequence numbers of the segments follow each other, the window
  that is left is smaller by exactly what was sent, and the unacknowledged buffers are kept in order.
\<close>

theorem tcp_data_on_the_wire:
  assumes "records send alloc_memory wire" and "device_addresses_ok s" and "length (sender_mac_address f) = 6"
    and "send_tcp_ipv4_data send alloc_memory t d v (Link_Ethernet f) s = Ok (t', left, s')"
  shows "\<exists>ns p. sent_in ns t t' \<and> sum_list ns + length left = length d \<and> left = drop (sum_list ns) d \<and>
     wire (outside s') = wire (outside s) @ p \<and> map (drop 14) p = tcp_packets t v d ns \<and>
     concat (map (drop 54) p) = take (sum_list ns) d"
proof -
  have "send_loop send alloc_memory v (Link_Ethernet f) t d s = Ok (t', left, s')"
    using assms(4) by (auto simp: send_tcp_ipv4_data_def split: if_splits)
  then obtain ns p where r: "sent_in ns t t'" "sum_list ns + length left = length d" "left = drop (sum_list ns) d"
    "wire (outside s') = wire (outside s) @ p" "map (drop 14) p = tcp_packets t v d ns"
    using send_loop_splits [OF assms(1-3)] by blast
  have "map (drop 54) p = map (drop 40) (map (drop 14) p)" by simp
  also have "\<dots> = map (drop 40) (tcp_packets t v d ns)" by (simp only: r(5))
  finally have "concat (map (drop 54) p) = take (sum_list ns) d" using tcp_packets_payload r(1) by (simp add: sent_in_def)
  then show ?thesis using r by blast
qed

definition example_session :: TcpSessionInfo where
  "example_session =
     \<lparr>status = Opened, our_port = 80, their_port = 5000, window_size = 1000, available_window_size = 2,
      expected_arrival_sequence_number = 700, next_sequence_number = 0xffffffff, last_sent_acknowledge_number = 700,
      receive_buffer_list = [], send_buffer_list = []\<rparr>"

definition example_frame :: EthernetFrameInfo where
  "example_frame = \<lparr>frame_device_id = 0, sender_mac_address = [2, 0, 0, 0, 0, 9], frame_type = 0x0800\<rparr>"

definition example_addresses :: Ipv4ConnectionInfo where
  "example_addresses = \<lparr>sender_address = 0x0a000002, destination_address = 0x0a000001\<rparr>"

definition example_memory :: "(MacAddress \<times> u8 list) list memory_source" where
  "example_memory d n = (d, Inr 0x500000)"

lemma example_records: "records example_driver example_memory (map snd)"
  by (simp add: records_def example_driver_def example_memory_def)

lemma example_ether:
  "ether_ok (mset (frame_buffers 0x100000 0x200000)) (ether example_ethernet)" "\<not> ether_lock (ether example_ethernet)"
  "number_of_memory_buffer (ether example_ethernet) \<noteq> 0" "unat (0 :: usize) < length (device_list (ether example_ethernet))"
  "example_device = device_list (ether example_ethernet) ! unat (0 :: usize)" "device_addresses_ok example_ethernet"
  "length (mac_address example_device) = 6" "length (sender_mac_address example_frame) = 6"
proof -
  have "ether_inv 0x100000 0x200000 example_ethernet" by (rule eth.reachable_inv [OF example_reachable])
  then show "ether_ok (mset (frame_buffers 0x100000 0x200000)) (ether example_ethernet)" "\<not> ether_lock (ether example_ethernet)"
    by (simp_all add: ether_inv_def)
qed (simp_all add: example_ethernet_def timers.extend_def EthernetDeviceManager_new_def example_device_def device_addresses_ok_def example_frame_def)

lemma example_reply:
  assumes "length d \<le> 1500"
  shows "\<exists>s'. reply_data example_driver example_frame d example_ethernet = Ok s' \<and> outside s' = [(mac_address example_device, [2, 0, 0, 0, 0, 9] @ mac_address example_device @ to_be_bytes16 0x0800 @ d)]"
proof -
  let ?ds = "\<lambda>t m. outside example_ethernet @ [(mac_address example_device, read_bytes m (fst (tx_buffer t)) (unat (tx_length t)))]"
  let ?f = "sender_mac_address example_frame @ mac_address example_device @ to_be_bytes16 (frame_type example_frame) @ d"
  have drv: "example_driver (outside example_ethernet) (driver example_device) (mac_address example_device) t m = (?ds t m, Inr (tx_length t))" for t m
    by (simp add: example_driver_def)
  have "unat (14 + of_nat (length d) :: usize) = 14 + length d" using assms by (simp add: unat_word_ariths unat_of_nat)
  moreover have lf: "length ?f = 14 + length d" by (simp add: example_ether(7,8) to_be_bytes16_def)
  ultimately have "read_bytes (store_bytes a ?f m) a (unat (14 + of_nat (length d) :: usize)) = ?f" for a m
    using read_store_bytes [of ?f a m] assms unfolding lf by simp
  then show ?thesis
    using send_data_sends [where send = example_driver and ds = ?ds and n = "\<lambda>t m. tx_length t", OF example_ether(1-5) assms example_ether(8,7) drv,
        of "frame_type example_frame"]
    by (auto simp: reply_data_def sending_def Let_def example_frame_def) (simp add: example_ethernet_def timers.extend_def)
qed

theorem tcp_data_on_the_wire_witness:
  "\<exists>t' s' p. send_tcp_ipv4_data example_driver example_memory example_session [1, 2, 3] example_addresses (Link_Ethernet example_frame) example_ethernet =
     Ok (t', [3], s') \<and> map snd (outside s') = p \<and> concat (map (drop 54) p) = [1, 2] \<and> next_sequence_number t' = 1"
proof -
  let ?d = "[1, 2, 3] :: u8 list" and ?t = example_session and ?v = example_addresses and ?l = "Link_Ethernet example_frame"
  have n: "send_size ?t ?d = 2" by (simp add: send_size_def example_session_def MAX_SEGMENT_SIZE_def)
  obtain h where h: "create_ipv4_tcp_header (next_segment ?t) (take 2 ?d) False False True True 0 (destination_address ?v) (sender_address ?v) = Inr h"
    "length h = 40" using create_take [of 2 "next_segment ?t" ?d False False True True 0 "destination_address ?v" "sender_address ?v"] by auto
  obtain s1 where s1: "reply_data example_driver example_frame (h @ take 2 ?d) example_ethernet = Ok s1"
    using example_reply [of "h @ take 2 ?d"] h(2) by auto
  let ?a = "2 + PACKET_HEADER_SIZE + TCP_SEND_DATA_HEADER_SIZE"
  let ?t1 = "segment_sent 2 0x500000 ?a ?t"
  have "send_one_segment example_driver example_memory ?v ?l ?t ?d example_ethernet = Ok (Some ?t1, s1)"
    using h(1) s1 by (simp add: send_one_segment_def n get_memory_def example_memory_def Let_def)
  moreover have w: "available_window_size ?t1 = 0" by (simp add: segment_sent_def example_session_def)
  moreover have "send_loop example_driver example_memory ?v ?l ?t1 [3] s1 = Ok (?t1, [3], s1)" by (subst send_loop.simps) (simp add: w)
  moreover have "available_window_size ?t = 2" "status ?t = Opened" by (simp_all add: example_session_def)
  ultimately have ok: "send_tcp_ipv4_data example_driver example_memory ?t ?d ?v ?l example_ethernet = Ok (?t1, [3], s1)"
    unfolding send_tcp_ipv4_data_def by (subst send_loop.simps) (simp add: n)
  obtain ns p where r: "sent_in ns ?t ?t1" "sum_list ns + length [3 :: u8] = length ?d" "map snd (outside s1) = map snd (outside example_ethernet) @ p"
    "concat (map (drop 54) p) = take (sum_list ns) ?d"
    using tcp_data_on_the_wire [OF example_records example_ether(6,8) ok] by blast
  have "outside example_ethernet = []" by (simp add: example_ethernet_def timers.extend_def)
  moreover have "sum_list ns = 2" using r(2) by simp
  moreover have "next_sequence_number ?t1 = 1" by (simp add: segment_sent_def example_session_def)
  ultimately show ?thesis using ok r(3,4) by (intro exI [of _ ?t1] exI [of _ s1] exI [of _ p]) simp
qed

section \<open>Receiving a segment\<close>

text \<open>What \<open>tcp_ipv4_segment_handler\<close> reads from the header.\<close>

definition tcp_segment_info :: "u8 list \<Rightarrow> TcpSegmentInfo" where
  "tcp_segment_info h =
     \<lparr>seg_sender_port = Tcp_get_sender_port h, seg_destination_port = Tcp_get_destination_port h,
      seg_sequence_number = Tcp_get_sequence_number h, seg_acknowledgement_number = Tcp_get_acknowledgement_number h,
      seg_window_size = Tcp_get_window_size h\<rparr>"

text \<open>
  Property C30. A TCP segment survives the wire. For every segment description, any flags and at most 1460 bytes of data the sender makes two
  headers whose checksums verify, and a receiver that gets them behind a link-layer header and followed by padding is led to the TCP
  handler with exactly the segment, in which it reads the same description and flags and finds the same data behind the header.
\<close>

theorem tcp_segment_roundtrip:
  assumes "length d \<le> 1460" and "length pre + 40 + length d + length pad < 2 ^ 63"
  shows "\<exists>h. create_ipv4_tcp_header i d fin syn ack psh pid src dst = Inr h \<and> oc_sum 0 (be_words (take 20 h)) = 0xffff \<and>
     oc_sum 0 (be_words (pre_header src dst (of_nat (length d) + 20)) @ be_words (drop 20 h) @ be_words d) = 0xffff \<and>
     (let buffer = pre @ h @ d @ pad; segment = drop (length pre + 20) buffer
      in ipv4_packet_handler buffer (of_nat (length buffer)) (of_nat (length pre)) =
           Ip_to_tcp (of_nat (length pre + 20)) (20 + of_nat (length d)) \<lparr>sender_address = src, destination_address = dst\<rparr> \<and>
         tcp_segment_info segment = i \<and> Tcp_get_header_length segment = 20 \<and>
         is_fin_active segment = fin \<and> is_syn_active segment = syn \<and> is_ack_active segment = ack \<and> is_psh_active segment = psh \<and>
         take (length d) (drop 20 segment) = d)"
proof -
  let ?n = "20 + of_nat (length d) :: usize"
  have "length d \<le> 65495" using assms(1) by simp
  then obtain h t where ht: "create_ipv4_tcp_header i d fin syn ack psh pid src dst = Inr (h @ t)" "length h = 20" "length t = 20"
     "ipv4_header h ?n pid get_default_ttl IPV4_PROTOCOL_TCP src dst" "oc_sum 0 (be_words h) = 0xffff" "tcp_header t i fin syn ack psh"
     "oc_sum 0 (be_words (pre_header src dst (of_nat (length d) + 20)) @ be_words t @ be_words d) = 0xffff"
    using create_tcp_ok [of d i fin syn ack psh pid src dst] by blast
  let ?r = "t @ d @ pad" and ?b = "pre @ (h @ t) @ d @ pad"
  have un: "unat ?n = 20 + length d" using assms(1) by (simp add: unat_word_ariths unat_of_nat)
  have n: "?n \<le> 65515" unfolding word_le_nat_alt un using assms(1) by simp
  have lb: "length ?b = length pre + 20 + length ?r" using ht(2,3) by simp
  have ip: "ipv4_packet_handler ?b (of_nat (length ?b)) (of_nat (length pre)) =
      Ip_to_tcp (of_nat (length pre + 20)) ?n \<lparr>sender_address = src, destination_address = dst\<rparr>"
    using ipv4_handler_accepts [OF ht(2,4) n, of ?r pre] un assms(2) ht(3) unfolding lb
    by (simp add: IPV4_PROTOCOL_TCP_def IPV4_PROTOCOL_UDP_def)
  have dr: "drop (length pre + 20) ?b = ?r" using ht(2) by simp
  have "tcp_segment_info ?r = i \<and> Tcp_get_header_length ?r = 20 \<and> is_fin_active ?r = fin \<and> is_syn_active ?r = syn \<and>
      is_ack_active ?r = ack \<and> is_psh_active ?r = psh"
    using ht(3,6) by (simp add: tcp_segment_info_def tcp_header_def tcp_getters is_psh_active_def is_fin_active_def is_syn_active_def
        is_ack_active_def get_append TCP_DEFAULT_HEADER_SIZE_def)
  then show ?thesis using ht(1-3,5,7) ip dr by (intro exI [of _ "h @ t"]) (simp add: Let_def)
qed

theorem tcp_segment_roundtrip_witness:
  "\<exists>h. create_ipv4_tcp_header (next_segment example_session) [7, 8] False False True True 0 0x0a000001 0x0a000002 = Inr h \<and>
     tcp_segment_info (drop 34 (replicate 14 0 @ h @ [7, 8] @ [0, 0])) = next_segment example_session"
proof -
  have l: "length [7 :: u8, 8] \<le> 1460" "length (replicate 14 (0 :: u8)) + 40 + length [7 :: u8, 8] + length [0 :: u8, 0] < 2 ^ 63" by simp_all
  have e: "length (replicate 14 (0 :: u8)) + 20 = 34" by simp
  show ?thesis
    using tcp_segment_roundtrip [OF l, of "next_segment example_session" False False True True 0 "0x0a000001" "0x0a000002"]
    unfolding Let_def e by blast
qed

section \<open>Data in order\<close>

text \<open>A segment that has arrived: what its header says, its buffer and the place of the payload in it.\<close>

type_synonym arrived = "TcpSegmentInfo \<times> VAddress \<times> MSize \<times> usize \<times> usize"

fun accept_all ::
  "TcpSessionInfo \<Rightarrow> Ringbuffer \<Rightarrow> arrived list \<Rightarrow> ('c, 'f, 'd, 'z) net \<Rightarrow>
    (NetworkError \<times> TcpSessionInfo \<times> Ringbuffer \<times> ('c, 'f, 'd, 'z) net, TcpSessionInfo \<times> Ringbuffer \<times> ('c, 'f, 'd, 'z) net) outcome" where
  "accept_all t r [] s = Ok (t, r, s)"
| "accept_all t r ((i, base, data_length, off, n) # xs) s =
     obind (accept_data t i r base data_length off n s) (\<lambda>(t, r, s, _). accept_all t r xs s)"

fun payload_at :: "bytes_at \<Rightarrow> arrived \<Rightarrow> u8 list" where
  "payload_at m (i, base, data_length, off, n) = read_bytes m (base + off) (unat n)"

fun in_sequence :: "u32 \<Rightarrow> arrived list \<Rightarrow> bool" where
  "in_sequence e [] \<longleftrightarrow> True"
| "in_sequence e ((i, base, data_length, off, n) # xs) \<longleftrightarrow> seg_sequence_number i = e \<and> 0 < n \<and> in_sequence (e + ucast n) xs"

definition payload_total :: "arrived list \<Rightarrow> nat" where
  "payload_total xs = sum_list (map (\<lambda>(i, base, data_length, off, n). unat n) xs)"

text \<open>No payload lies in the memory of the ring.\<close>

definition apart_from_ring :: "nat \<Rightarrow> Ringbuffer \<Rightarrow> arrived \<Rightarrow> bool" where
  "apart_from_ring k r x \<longleftrightarrow> (case x of (i, base, data_length, off, n) \<Rightarrow>
     \<forall>j < unat n. \<forall>p < 2 ^ k. base + off + of_nat j \<noteq> ring_buffer r + of_nat p)"

lemma read_bytes_eqI: "(\<And>j. j < n \<Longrightarrow> m (a + of_nat j) = m' (b + of_nat j)) \<Longrightarrow> read_bytes m a n = read_bytes m' b n"
  by (simp add: read_bytes_def)

lemma read_copy:
  assumes "unat n < 2 ^ 63"
  shows "read_bytes (copy_nonoverlapping src dst n m) dst (unat n) = read_bytes m src (unat n)"
proof (rule read_bytes_eqI)
  fix j assume "j < unat n"
  then have "of_nat j < n" by (simp add: word_less_nat_alt unat_of_nat)
  then show "copy_nonoverlapping src dst n m (dst + of_nat j) = m (src + of_nat j)" by (simp add: copy_nonoverlapping_def)
qed

lemma copy_keeps:
  assumes "\<And>j p. j < k \<Longrightarrow> p < unat n \<Longrightarrow> a + of_nat j \<noteq> dst + of_nat p"
  shows "read_bytes (copy_nonoverlapping src dst n m) a k = read_bytes m a k"
proof (rule read_bytes_eqI)
  fix j assume j: "j < k"
  have "\<not> a + of_nat j - dst < n"
  proof
    assume "a + of_nat j - dst < n"
    then have "unat (a + of_nat j - dst) < unat n" by (simp add: word_less_nat_alt)
    from assms [OF j this] show False by simp
  qed
  then show "copy_nonoverlapping src dst n m (a + of_nat j) = m (a + of_nat j)" by (simp add: copy_nonoverlapping_def)
qed

lemma accept_in_order:
  assumes "receive_buffer_list t = []" and "seg_sequence_number i = expected_arrival_sequence_number t"
    and "filled k w l r" and "0 < n" and "unat w + l + unat n < 2 ^ k"
  shows "accept_data t i r base data_length off n s =
     Ok (t\<lparr>expected_arrival_sequence_number := expected_arrival_sequence_number t + ucast n\<rparr>,
         r\<lparr>write_ptr := write_ptr r + n\<rparr>,
         s\<lparr>memory := copy_nonoverlapping (base + off) (ring_buffer r + write_ptr r) n (memory s)\<rparr>, True)"
  using write_more [OF assms(3-5), of "memory s" "base + off"] assms(1,2)
  by (simp add: accept_data_def Let_def)

lemma accept_all_in_order:
  assumes "receive_buffer_list t = []" and "in_sequence (expected_arrival_sequence_number t) xs" and "filled k w l r"
    and "unat w + l + payload_total xs < 2 ^ k" and "\<forall>x \<in> set xs. apart_from_ring k r x" and "k < 63"
  shows "\<exists>t' r' s'. accept_all t r xs s = Ok (t', r', s') \<and> receive_buffer_list t' = [] \<and>
     expected_arrival_sequence_number t' = expected_arrival_sequence_number t + of_nat (payload_total xs) \<and>
     filled k w (l + payload_total xs) r' \<and> ring_buffer r' = ring_buffer r \<and>
     read_bytes (memory s') (ring_buffer r + w) (l + payload_total xs) = read_bytes (memory s) (ring_buffer r + w) l @ concat (map (payload_at (memory s)) xs)"
  using assms
proof (induction xs arbitrary: t r l s)
  case Nil
  then show ?case by (simp add: payload_total_def)
next
  case (Cons x xs)
  obtain i base data_length off n where x: "x = (i, base, data_length, off, n)" by (cases x)
  let ?t = "t\<lparr>expected_arrival_sequence_number := expected_arrival_sequence_number t + ucast n\<rparr>" and ?r = "r\<lparr>write_ptr := write_ptr r + n\<rparr>"
  let ?dst = "ring_buffer r + write_ptr r"
  let ?m = "copy_nonoverlapping (base + off) ?dst n (memory s)"
  let ?s = "s\<lparr>memory := ?m\<rparr>"
  have seq: "seg_sequence_number i = expected_arrival_sequence_number t" "0 < n" "in_sequence (expected_arrival_sequence_number ?t) xs"
    using Cons.prems(2) x by simp_all
  have tot: "payload_total (x # xs) = unat n + payload_total xs" by (simp add: payload_total_def x)
  have room: "unat w + l + unat n < 2 ^ k" "unat w + (l + unat n) + payload_total xs < 2 ^ k" using Cons.prems(4) tot by simp_all
  have fill: "filled k w (l + unat n) ?r" using write_more [OF Cons.prems(3) seq(2) room(1)] by blast
  have wp: "unat (write_ptr r) = unat w + l" using Cons.prems(3) by (simp add: filled_def)
  have "of_nat (unat (write_ptr r)) = (of_nat (unat w + l) :: usize)" by (simp only: wp)
  then have dst: "?dst = ring_buffer r + w + of_nat l" by simp
  have k63: "(2 :: nat) ^ k < 2 ^ 63" using Cons.prems(6) by (rule power_strict_increasing) simp
  have apart: "\<forall>y \<in> set xs. apart_from_ring k ?r y" using Cons.prems(5) by (simp add: apart_from_ring_def)
  obtain t' r' s' where ih: "accept_all ?t ?r xs ?s = Ok (t', r', s')" "receive_buffer_list t' = []"
    "expected_arrival_sequence_number t' = expected_arrival_sequence_number ?t + of_nat (payload_total xs)"
    "filled k w (l + unat n + payload_total xs) r'" "ring_buffer r' = ring_buffer r"
    "read_bytes (memory s') (ring_buffer r + w) (l + unat n + payload_total xs) = read_bytes ?m (ring_buffer r + w) (l + unat n) @ concat (map (payload_at ?m) xs)"
    using Cons.IH [of ?t "l + unat n" ?r ?s] Cons.prems(1,6) seq(3) fill room(2) apart by auto
  have "read_bytes ?m (ring_buffer r + w) (l + unat n) = read_bytes ?m (ring_buffer r + w) l @ read_bytes ?m ?dst (unat n)"
    unfolding read_bytes_append dst by simp
  moreover have "read_bytes ?m (ring_buffer r + w) l = read_bytes (memory s) (ring_buffer r + w) l"
  proof (rule copy_keeps)
    fix j p assume jp: "j < l" "p < unat n"
    have "unat (of_nat j :: usize) = j" "unat (of_nat (l + p) :: usize) = l + p" using jp room(1) k63 by (simp_all only: unat_of_nat) simp_all
    then have "(of_nat j :: usize) \<noteq> of_nat (l + p)" using jp by (metis less_not_refl trans_less_add1)
    then show "ring_buffer r + w + of_nat j \<noteq> ?dst + of_nat p" unfolding dst by (simp add: add.assoc)
  qed
  moreover have "read_bytes ?m ?dst (unat n) = payload_at (memory s) x" using read_copy [of n "base + off" ?dst "memory s"] room(1) k63 x by simp
  moreover have pm: "map (payload_at ?m) xs = map (payload_at (memory s)) xs"
  proof (rule map_cong [OF refl])
    fix y assume "y \<in> set xs"
    then have ap: "apart_from_ring k r y" using Cons.prems(5) by simp
    obtain i' b' dl' o' n' where y: "y = (i', b', dl', o', n')" by (cases y)
    have "read_bytes ?m (b' + o') (unat n') = read_bytes (memory s) (b' + o') (unat n')"
    proof (rule copy_keeps)
      fix j p assume jp: "j < unat n'" "p < unat n"
      have "unat (write_ptr r) + p < 2 ^ k" using wp jp(2) room(1) by simp
      then have "b' + o' + of_nat j \<noteq> ring_buffer r + of_nat (unat (write_ptr r) + p)" 
        using ap jp(1) unfolding apart_from_ring_def y prod.case by blast
      then show "b' + o' + of_nat j \<noteq> ?dst + of_nat p" by (simp add: add.assoc)
    qed
    then show "payload_at ?m y = payload_at (memory s) y" by (simp add: y)
  qed
  moreover have "accept_all t r (x # xs) s = Ok (t', r', s')"
    using accept_in_order [OF Cons.prems(1) seq(1) Cons.prems(3) seq(2) room(1), of base data_length off s] ih(1) by (simp add: x)
  moreover have "expected_arrival_sequence_number t' = expected_arrival_sequence_number t + of_nat (payload_total (x # xs))"
    using ih(3) by (simp add: tot add.assoc unsigned_ucast_eq)
  ultimately show ?case using ih(2,4,5) ih(6) [unfolded pm] by (simp add: tot add.assoc)
qed

text \<open>
  Property C31. Data that arrives in sequence is delivered. When the segments carry consecutive sequence numbers, from the expected one on and
  across the wrap-around of the numbers, and fit into the empty ring without reaching its end, every segment is accepted, the bytes in the ring are the payloads
  in order, the ring reports exactly their number, and the next number expected is the one behind the last byte.
\<close>

theorem tcp_stream_in_order:
  assumes "receive_buffer_list t = []" and "in_sequence (expected_arrival_sequence_number t) xs" and "ring_ok k r" and "ring_empty k r"
    and "unat (write_ptr r) + payload_total xs < 2 ^ k" and "\<forall>x \<in> set xs. apart_from_ring k r x" and "0 < k" and "k < 63"
  shows "\<exists>t' r' s'. accept_all t r xs s = Ok (t', r', s') \<and> receive_buffer_list t' = [] \<and>
     expected_arrival_sequence_number t' = expected_arrival_sequence_number t + of_nat (payload_total xs) \<and>
     (payload_total xs < 2 ^ k - 1 \<longrightarrow> unat (get_readable_size r') = payload_total xs) \<and>
     read_bytes (memory s') (ring_buffer r + write_ptr r) (payload_total xs) = concat (map (payload_at (memory s)) xs)"
proof -
  obtain t' r' s' where a: "accept_all t r xs s = Ok (t', r', s')" "receive_buffer_list t' = []"
     "expected_arrival_sequence_number t' = expected_arrival_sequence_number t + of_nat (payload_total xs)"
     "filled k (write_ptr r) (0 + payload_total xs) r'"
     "read_bytes (memory s') (ring_buffer r + write_ptr r) (0 + payload_total xs) =
        read_bytes (memory s) (ring_buffer r + write_ptr r) 0 @ concat (map (payload_at (memory s)) xs)"
    using accept_all_in_order [OF assms(1,2) empty_filled [OF assms(3,4)] _ assms(6,8), of s] assms(5) by auto
  then show ?thesis using readable_filled [OF a(4) assms(7)] by (auto simp: read_bytes_def)
qed

lemma apart_from_ringI:
  assumes "unat (ring_buffer r) + 2 ^ k \<le> unat (base + off)" and "unat (base + off) + unat n < 2 ^ 64"
  shows "apart_from_ring k r (i, base, data_length, off, n)"
  unfolding apart_from_ring_def prod.case
proof (intro allI impI notI)
  fix j p
  assume j: "j < unat n" and p: "p < 2 ^ k" and eq: "base + off + of_nat j = ring_buffer r + of_nat p"
  have "unat (of_nat j :: usize) = j" "unat (of_nat p :: usize) = p" using assms j p by (simp_all only: unat_of_nat) simp_all
  then have "unat (base + off + of_nat j) = unat (base + off) + j" "unat (ring_buffer r + of_nat p) = unat (ring_buffer r) + p"
    using assms j p by (simp_all add: unat_word_ariths)
  then show False using eq assms(1) p by simp
qed

definition example_arrived :: "arrived list" where
  "example_arrived =
     [((next_segment example_session)\<lparr>seg_sequence_number := 0xfffffffe\<rparr>, 0x20000, 60, 54, 3),
      ((next_segment example_session)\<lparr>seg_sequence_number := 1\<rparr>, 0x30000, 60, 54, 2)]"

theorem tcp_stream_in_order_witness:
  "\<exists>t' r' s'. accept_all (example_session\<lparr>expected_arrival_sequence_number := 0xfffffffe\<rparr>) ring_sample example_arrived
       (example_ethernet\<lparr>memory := (\<lambda>a. ucast a)\<rparr>) = Ok (t', r', s') \<and>
     expected_arrival_sequence_number t' = 3 \<and> unat (get_readable_size r') = 5 \<and>
     read_bytes (memory s') 0x10004 5 = [0x36, 0x37, 0x38, 0x36, 0x37]"
proof -
  let ?t = "example_session\<lparr>expected_arrival_sequence_number := 0xfffffffe\<rparr>" and ?s = "example_ethernet\<lparr>memory := (\<lambda>a. ucast a)\<rparr>"
  have h: "receive_buffer_list ?t = []" "in_sequence (expected_arrival_sequence_number ?t) example_arrived"
    by (simp_all add: example_session_def example_arrived_def)
  have p: "payload_total example_arrived = 5" by (simp add: payload_total_def example_arrived_def)
  then have c: "unat (write_ptr ring_sample) + payload_total example_arrived < 2 ^ 4" by (simp add: ring_sample_def)
  have a: "\<forall>x \<in> set example_arrived. apart_from_ring 4 ring_sample x"
    by (auto simp: example_arrived_def ring_sample_def intro!: apart_from_ringI)
  have e: "ring_buffer ring_sample + write_ptr ring_sample = 0x10004" "expected_arrival_sequence_number ?t + of_nat 5 = 3"
    by (simp_all add: ring_sample_def)
  have "concat (map (payload_at (memory ?s)) example_arrived) = [0x36, 0x37, 0x38, 0x36, 0x37]"
    by (simp add: example_arrived_def read_bytes_def upt_rec)
  then show ?thesis
    using tcp_stream_in_order [OF h ring_sample_ok c a, of ?s] unfolding p e by auto
qed

section \<open>Data out of order\<close>

lemma accept_early:
  assumes "seg_sequence_number i \<noteq> expected_arrival_sequence_number t"
  shows "accept_data t i r base data_length off n s =
     Ok (t\<lparr>receive_buffer_list := receive_buffer_list t @
            [\<lparr>rcv_base = base, rcv_data_length = data_length, rcv_payload_offset = off, rcv_payload_size = n, rcv_sequence_number = seg_sequence_number i\<rparr>]\<rparr>,
         r, s, False)"
  using assms by (simp add: accept_data_def)

lemma accept_fills_gap:
  assumes "receive_buffer_list t = [\<lparr>rcv_base = b, rcv_data_length = dl, rcv_payload_offset = po, rcv_payload_size = n, rcv_sequence_number = e + ucast n\<rparr>]"
    and "seg_sequence_number i = e" and "expected_arrival_sequence_number t = e"
    and "filled k w l r" and "0 < n" and "unat w + l + unat n + unat n < 2 ^ k"
  shows "\<exists>r' s'. accept_data t i r base data_length off n s =
     Ok (t\<lparr>receive_buffer_list := [], expected_arrival_sequence_number := e + ucast n\<rparr>, r', s', True) \<and> filled k w (l + unat n + unat n) r'"
proof -
  let ?r = "r\<lparr>write_ptr := write_ptr r + n\<rparr>"
  let ?m = "copy_nonoverlapping (base + off) (ring_buffer r + write_ptr r) n (memory s)"
  have w1: "Ringbuffer_write r (memory s) (base + off) n = (n, ?r, ?m)" "filled k w (l + unat n) ?r"
    using write_more [OF assms(4,5), of "memory s" "base + off"] assms(6) by simp_all
  have w2: "Ringbuffer_write ?r ?m (b + po) n =
      (n, ?r\<lparr>write_ptr := write_ptr ?r + n\<rparr>, copy_nonoverlapping (b + po) (ring_buffer ?r + write_ptr ?r) n ?m)"
    "filled k w (l + unat n + unat n) (?r\<lparr>write_ptr := write_ptr ?r + n\<rparr>)"
    using write_more [OF w1(2) assms(5), of ?m "b + po"] assms(6) by simp_all
  show ?thesis
    using w1(1) w2 assms(1-3) by (simp add: accept_data_def Let_def drain_received.simps)
qed

text \<open>
  Property C33. A segment that overtakes another one stalls the session. Three segments of consecutive numbers arrive, the second one first. The bytes of the first two
  reach the ring, but the number expected stays that of the second one, which has been taken already: the third segment and every other one whose
  number is not that old number is put aside and leaves the ring as it is.
\<close>

theorem tcp_early_segment_stalls:
  fixes s :: "('c, 'f, 'd, 'z) ethernet_scheme"
  assumes "receive_buffer_list t = []" and "expected_arrival_sequence_number t = e" and "ring_ok k r" and "ring_empty k r"
    and "0 < n" and "unat n < 2 ^ 32" and "unat (write_ptr r) + unat n + unat n < 2 ^ k"
    and "seg_sequence_number i1 = e" and "seg_sequence_number i2 = e + ucast n" and "seg_sequence_number i3 = e + ucast n + ucast n"
  shows "\<exists>t' r' s'. accept_all t r [(i2, b2, l2, o2, n), (i1, b1, l1, o1, n), (i3, b3, l3, o3, n3)] s = Ok (t', r', s') \<and>
     filled k (write_ptr r) (unat n + unat n) r' \<and> expected_arrival_sequence_number t' = e + ucast n \<and> map rcv_base (receive_buffer_list t') = [b3] \<and>
     (\<forall>i b l p m. seg_sequence_number i \<noteq> e + ucast n \<longrightarrow> (\<exists>t2. accept_data t' i r' b l p m s' = Ok (t2, r', s', False)))"
proof -
  have un: "(ucast n :: u32) \<noteq> 0"
  proof
    assume "(ucast n :: u32) = 0"
    then have "unat (ucast n :: u32) = 0" by simp
    then have "unat n mod 2 ^ 32 = 0" by (simp add: unsigned_ucast_eq take_bit_eq_mod)
    then show False using assms(5,6) by (simp add: word_less_nat_alt)
  qed
  let ?e2 = "\<lparr>rcv_base = b2, rcv_data_length = l2, rcv_payload_offset = o2, rcv_payload_size = n, rcv_sequence_number = e + ucast n\<rparr>"
  let ?t1 = "t\<lparr>receive_buffer_list := [?e2]\<rparr>"
  let ?t2 = "?t1\<lparr>receive_buffer_list := [], expected_arrival_sequence_number := e + ucast n\<rparr>"
  have "seg_sequence_number i2 \<noteq> expected_arrival_sequence_number t" using un assms(2,9) by simp
  then have a1: "accept_data t i2 r b2 l2 o2 n s = Ok (?t1, r, s, False)" using accept_early [of i2 t r b2 l2 o2 n s] assms(1,9) by simp
  obtain r' s' where a2: "accept_data ?t1 i1 r b1 l1 o1 n s = Ok (?t2, r', s', True)" "filled k (write_ptr r) (unat n + unat n) r'"
    using accept_fills_gap [of ?t1 b2 l2 o2 n e i1 k "write_ptr r" 0 r b1 l1 o1 s] assms(2,5,7,8) empty_filled [OF assms(3,4)] by auto
  have "seg_sequence_number i3 \<noteq> expected_arrival_sequence_number ?t2" using un assms(10) by simp
  note a3 = accept_early [OF this, of r' b3 l3 o3 n3 s']
  let ?t3 = "?t2\<lparr>receive_buffer_list := [\<lparr>rcv_base = b3, rcv_data_length = l3, rcv_payload_offset = o3, rcv_payload_size = n3,
      rcv_sequence_number = seg_sequence_number i3\<rparr>]\<rparr>"
  have "accept_all t r [(i2, b2, l2, o2, n), (i1, b1, l1, o1, n), (i3, b3, l3, o3, n3)] s = Ok (?t3, r', s')" using a1 a2(1) a3 by simp
  moreover have "\<exists>t2. accept_data ?t3 i r' b l p m s' = Ok (t2, r', s', False)" if "seg_sequence_number i \<noteq> e + ucast n" for i b l p m
    using accept_early [of i ?t3 r' b l p m s'] that by simp
  ultimately show ?thesis using a2(2) by (intro exI [of _ ?t3] exI [of _ r'] exI [of _ s']) simp
qed

theorem tcp_early_segment_stalls_witness:
  "\<exists>t' r' s'. accept_all example_session ring_sample
      [((next_segment example_session)\<lparr>seg_sequence_number := 703\<rparr>, 0x20000, 60, 54, 3), ((next_segment example_session)\<lparr>seg_sequence_number := 700\<rparr>, 0x30000, 60, 54, 3),
       ((next_segment example_session)\<lparr>seg_sequence_number := 706\<rparr>, 0x40000, 60, 54, 2)] example_ethernet = Ok (t', r', s') \<and>
     expected_arrival_sequence_number t' = 703 \<and> map rcv_base (receive_buffer_list t') = [0x40000]"
proof -
  let ?i = "\<lambda>n. (next_segment example_session)\<lparr>seg_sequence_number := n\<rparr>"
  have h: "receive_buffer_list example_session = []" "expected_arrival_sequence_number example_session = 700"
    "(0 :: usize) < 3" "unat (3 :: usize) < 2 ^ 32" "unat (write_ptr ring_sample) + unat (3 :: usize) + unat (3 :: usize) < 2 ^ 4"
    "seg_sequence_number (?i 700) = 700" "seg_sequence_number (?i 703) = 700 + ucast (3 :: usize)" "seg_sequence_number (?i 706) = 700 + ucast (3 :: usize) + ucast (3 :: usize)"
    by (simp_all add: example_session_def ring_sample_def)
  show ?thesis
    using tcp_early_segment_stalls [OF h(1,2) ring_sample_ok h(3-8), of "0x20000" 60 54 "0x30000" 60 54 "0x40000" 60 54 2 example_ethernet] by auto
qed

section \<open>Sessions as a state machine\<close>

text \<open>
  What can happen to a session: the segments of the peer, the data its owner sends, and, in \<open>tcp_step\<close>, its owner closing it. Each
  step is taken in any state of the layers below.
\<close>

inductive peer_step :: "'d ethernet_driver \<Rightarrow> 'd memory_source \<Rightarrow> ('c, 'f, 'd, 'z) net itself \<Rightarrow> TcpSessionInfo \<Rightarrow> TcpSessionInfo \<Rightarrow> bool"
  for send alloc_memory and ty :: "('c, 'f, 'd, 'z) net itself" where
  acked: "ipv4_tcp_ack_handler t i (s :: ('c, 'f, 'd, 'z) net) = (t', s', active) \<Longrightarrow> peer_step send alloc_memory ty t t'"
| fin: "ipv4_tcp_fin_handler send t i l v b (s :: ('c, 'f, 'd, 'z) net) = Ok (t', s', active) \<Longrightarrow> peer_step send alloc_memory ty t t'"
| fin_failed: "ipv4_tcp_fin_handler send t i l v b (s :: ('c, 'f, 'd, 'z) net) = Err (e, t', s') \<Longrightarrow> peer_step send alloc_memory ty t t'"
| received: "ipv4_tcp_data_handler send t i r base len off n l v (s :: ('c, 'f, 'd, 'z) net) = Ok (t', r', s', fr) \<Longrightarrow> peer_step send alloc_memory ty t t'"
| overflowed: "ipv4_tcp_data_handler send t i r base len off n l v (s :: ('c, 'f, 'd, 'z) net) = Err (e, t', r', s') \<Longrightarrow> peer_step send alloc_memory ty t t'"
| sending_done: "send_tcp_ipv4_data send alloc_memory t d v l (s :: ('c, 'f, 'd, 'z) net) = Ok (t', left, s') \<Longrightarrow> peer_step send alloc_memory ty t t'"
| sending_failed: "send_tcp_ipv4_data send alloc_memory t d v l (s :: ('c, 'f, 'd, 'z) net) = Err (e, t', left, s') \<Longrightarrow> peer_step send alloc_memory ty t t'"

inductive tcp_step :: "'d ethernet_driver \<Rightarrow> 'd memory_source \<Rightarrow> ('c, 'f, 'd, 'z) net itself \<Rightarrow> TcpSessionInfo \<Rightarrow> TcpSessionInfo \<Rightarrow> bool"
  for send alloc_memory and ty :: "('c, 'f, 'd, 'z) net itself" where
  peer: "peer_step send alloc_memory ty t t' \<Longrightarrow> tcp_step send alloc_memory ty t t'"
| close: "close_tcp_session send t v l (s :: ('c, 'f, 'd, 'z) net) = Ok (t', s', active) \<Longrightarrow> tcp_step send alloc_memory ty t t'"
| close_failed: "close_tcp_session send t v l (s :: ('c, 'f, 'd, 'z) net) = Err (e, t', s') \<Longrightarrow> tcp_step send alloc_memory ty t t'"

text \<open>
  A well-formed session: the window that is left is part of the window, the unacknowledged buffers have the sizes with which they were made, and
  nothing but a closed session has lost its numbers.
\<close>

definition sent_buffer_ok :: "TcpSendDataBufferHeader \<Rightarrow> bool" where
  "sent_buffer_ok e \<longleftrightarrow> 0 < snd_payload_size e \<and> snd_payload_size e \<le> 1460 \<and>
     snd_buffer_length e = ucast (snd_payload_size e) + PACKET_HEADER_SIZE + TCP_SEND_DATA_HEADER_SIZE"

definition session_ok :: "TcpSessionInfo \<Rightarrow> bool" where
  "session_ok t \<longleftrightarrow> available_window_size t \<le> window_size t \<and> status t \<noteq> Listening \<and> (\<forall>e \<in> set (send_buffer_list t). sent_buffer_ok e)"

lemma session_ok_simps [simp]:
  "session_ok (t\<lparr>next_sequence_number := n\<rparr>) = session_ok t"
  "session_ok (t\<lparr>last_sent_acknowledge_number := n\<rparr>) = session_ok t"
  "session_ok (t\<lparr>expected_arrival_sequence_number := n\<rparr>) = session_ok t"
  "session_ok (t\<lparr>receive_buffer_list := bs\<rparr>) = session_ok t"
  by (simp_all add: session_ok_def)


lemma ack_sent_data_ok:
  assumes "session_ok t"
  shows "session_ok (fst (ack_sent_data ack t s))"
proof -
  have "set (remove1 e bs) \<subseteq> set bs" for e :: TcpSendDataBufferHeader and bs by (rule set_remove1_subset)
  then show "session_ok (fst (ack_sent_data ack t s))"
    using assms by (fastforce simp: ack_sent_data_def session_ok_def grow_window_def Let_def split: list.splits option.splits if_splits)
qed

lemma ack_handler_ok:
  assumes "session_ok t" and "ipv4_tcp_ack_handler t i s = (t', s', active)"
  shows "session_ok t'"
  using assms ack_sent_data_ok [OF assms(1), of "seg_acknowledgement_number i" s]
  by (auto simp: ipv4_tcp_ack_handler_def free_buffer_def Let_def session_ok_def split: TcpSessionStatus.splits if_splits prod.splits)

definition same_sending :: "TcpSessionInfo \<Rightarrow> TcpSessionInfo \<Rightarrow> bool" where
  "same_sending t t' \<longleftrightarrow> (available_window_size t', window_size t', send_buffer_list t') = (available_window_size t, window_size t, send_buffer_list t)"

lemma same_sending_ok: "session_ok t \<Longrightarrow> same_sending t t' \<Longrightarrow> status t' \<noteq> Listening \<Longrightarrow> session_ok t'"
  by (simp add: session_ok_def same_sending_def)

lemma fin_handler_status:
  assumes "ipv4_tcp_fin_handler send t i l v b s = Ok (t', s', active) \<or> ipv4_tcp_fin_handler send t i l v b s = Err (e, t', s')"
  shows "same_sending t t'" and "t' = t \<or> (\<exists>a m. fin_status t (seg_acknowledgement_number i) b = Some (status t', a, m))"
  using assms by (auto simp: ipv4_tcp_fin_handler_def Let_def same_sending_def split: option.splits prod.splits if_splits outcome.splits)

lemma fin_status_open: "fin_status t ack b = Some (st, a, m) \<Longrightarrow> st \<noteq> Listening"
  by (auto simp: fin_status_def split: TcpSessionStatus.splits if_splits)

lemma accept_data_status:
  "accept_data t i r base len off n s = Ok (t', r', s', fr) \<Longrightarrow> same_sending t t' \<and> status t' = status t"
  "accept_data t i r base len off n s = Err (e, t', r', s') \<Longrightarrow> same_sending t t' \<and> status t' = status t"
  by (auto simp: accept_data_def Let_def same_sending_def split: if_splits prod.splits)

lemma data_handler_status:
  assumes "ipv4_tcp_data_handler send t i r base len off n l v s = Ok (t', r', s', fr) \<or> ipv4_tcp_data_handler send t i r base len off n l v s = Err (e, t', r', s')"
  shows "same_sending t t' \<and> status t' = status t"
proof (cases "accept_data t i r base len off n s")
  case (Ok x)
  obtain t1 r1 s1 fr1 where x: "x = (t1, r1, s1, fr1)" by (cases x)
  let ?t = "t1\<lparr>last_sent_acknowledge_number := seg_sequence_number i + ucast n\<rparr>"
  have "t' = ?t"
    using assms Ok x by (auto simp: ipv4_tcp_data_handler_def Let_def outcome_iffs ignore_error_def split: outcome.splits prod.splits)
  then show ?thesis using accept_data_status(1) Ok x by (simp add: same_sending_def)
next
  case (Err x)
  then have "x = (e, t', r', s')" using assms by (simp add: ipv4_tcp_data_handler_def)
  then show ?thesis using accept_data_status(2) Err by simp
qed (use assms in \<open>simp_all add: ipv4_tcp_data_handler_def\<close>)

lemma segment_sent_ok:
  assumes "session_ok t" and "d \<noteq> []" and "0 < available_window_size t"
  shows "session_ok (segment_sent (send_size t d) a (of_nat (send_size t d) + PACKET_HEADER_SIZE + TCP_SEND_DATA_HEADER_SIZE) t)"
proof -
  let ?n = "send_size t d"
  have n: "0 < ?n" "?n \<le> 1460" "?n \<le> unat (available_window_size t)"
    using send_size_pos [OF assms(2,3)] by (auto simp: send_size_def MAX_SEGMENT_SIZE_def)
  have u: "unat (of_nat ?n :: u32) = ?n" "unat (of_nat ?n :: u16) = ?n" using n(2) by (simp_all add: unat_of_nat)
  have "(ucast (of_nat ?n :: u32) :: usize) = of_nat ?n" using n(2) by (simp add: word_unat_eq_iff unsigned_ucast_eq unat_of_nat take_bit_nat_eq_self)
  moreover have "available_window_size t - of_nat ?n \<le> available_window_size t" using n(3) u(2) by (simp add: word_le_nat_alt unat_sub)
  ultimately show ?thesis
    using assms(1) n(1,2) u(1) by (auto simp: session_ok_def segment_sent_def sent_buffer_ok_def word_less_nat_alt word_le_nat_alt)
qed

lemma send_one_segment_allocates:
  "send_one_segment send alloc_memory v l t d s = Ok (Some t', s') \<Longrightarrow>
     \<exists>a. t' = segment_sent (send_size t d) a (of_nat (send_size t d) + PACKET_HEADER_SIZE + TCP_SEND_DATA_HEADER_SIZE) t"
  by (auto simp: send_one_segment_def Let_def split: prod.splits sum.splits LinkType.splits outcome.splits if_splits)

lemma send_loop_ok:
  assumes "session_ok t"
    and "send_loop send alloc_memory v l t d s = Ok (t', left, s') \<or> send_loop send alloc_memory v l t d s = Err (e, t', left, s')"
  shows "session_ok t' \<and> status t' = status t"
  using assms
proof (induction send alloc_memory v l t d s rule: send_loop.induct)
  case (1 send alloc_memory v l t d s)
  let ?one = "send_one_segment send alloc_memory v l t d s"
  show ?case
  proof (cases "\<exists>t2 s2. (d \<noteq> [] \<and> 0 < available_window_size t) \<and> ?one = Ok (Some t2, s2)")
    case True
    then obtain t2 s2 where t2: "d \<noteq> [] \<and> 0 < available_window_size t" "?one = Ok (Some t2, s2)" by blast
    obtain a where a: "t2 = segment_sent (send_size t d) a (of_nat (send_size t d) + PACKET_HEADER_SIZE + TCP_SEND_DATA_HEADER_SIZE) t"
      using send_one_segment_allocates [OF t2(2)] by blast
    have "session_ok t2" unfolding a using segment_sent_ok [OF "1.prems"(1)] t2(1) by blast
    moreover have "status t2 = status t" by (simp add: a segment_sent_def)
    ultimately show ?thesis using "1.IH" [OF t2 refl refl] "1.prems"(2) unfolding send_loop_next [OF t2] by simp
  next
    case False
    then have "t' = t" using send_loop_stops [OF False "1.prems"(2)] by blast
    then show ?thesis using "1.prems"(1) by simp
  qed
qed

lemma send_fin_ok:
  assumes "session_ok t" and "send_fin send t v l s = Ok (t', s', active) \<or> send_fin send t v l s = Err (e, t', s')"
  shows "session_ok t'"
  using assms by (auto simp: send_fin_def session_ok_def split: InternetType.splits outcome.splits if_splits)

lemma send_tcp_ok:
  assumes "session_ok t"
    and "send_tcp_ipv4_data send alloc_memory t d v l s = Ok (t', left, s') \<or> send_tcp_ipv4_data send alloc_memory t d v l s = Err (e, t', left, s')"
  shows "session_ok t' \<and> status t' = status t"
proof (cases "status t \<noteq> Opened \<and> status t \<noteq> OpenOppositeClosed")
  case True
  then show ?thesis using assms by (simp add: send_tcp_ipv4_data_def)
next
  case False
  then show ?thesis using send_loop_ok [OF assms(1)] assms(2) unfolding send_tcp_ipv4_data_def if_not_P [OF False] by blast
qed

lemma close_ok:
  assumes "session_ok t" and "close_tcp_session send t v l s = Ok (t', s', active) \<or> close_tcp_session send t v l s = Err (e, t', s')"
  shows "session_ok t'"
  using assms send_fin_ok [of t send v l s t' s' active e]
  by (auto simp: close_tcp_session_def free_buffer_def Let_def session_ok_def split: TcpSessionStatus.splits)

lemma peer_step_ok:
  assumes "peer_step send alloc_memory ty t t'" and "session_ok t"
  shows "session_ok t'"
  using assms(1)
proof cases
  case (acked i s s' active)
  then show ?thesis using ack_handler_ok [OF assms(2)] by blast
next
  case (fin i l v b s s' active)
  then show ?thesis using fin_handler_status [of send t i l v b s t' s' active] same_sending_ok [OF assms(2)] fin_status_open assms(2) by blast
next
  case (fin_failed i l v b s e s')
  then show ?thesis using fin_handler_status [of send t i l v b s t' s' _ e] same_sending_ok [OF assms(2)] fin_status_open assms(2) by blast
next
  case (received i r base len off n l v s r' s' fr)
  then show ?thesis using data_handler_status same_sending_ok [OF assms(2)] assms(2) by (metis session_ok_def)
next
  case (overflowed i r base len off n l v s e r' s')
  then show ?thesis using data_handler_status same_sending_ok [OF assms(2)] assms(2) by (metis session_ok_def)
next
  case (sending_done d v l s left s')
  then show ?thesis using send_tcp_ok [OF assms(2)] by blast
next
  case (sending_failed d v l s e left s')
  then show ?thesis using send_tcp_ok [OF assms(2)] by blast
qed

text \<open>The session that a SYN opens; \<open>seed\<close> is the clock.\<close>

definition syn_session :: "u64 \<Rightarrow> TcpSegmentInfo \<Rightarrow> TcpSessionInfo" where
  "syn_session seed i =
     (let sequence_number = (ucast (drop_bit 32 seed XOR (seed AND mask 32)) :: u32)
      in \<lparr>status = HalfOpened, our_port = seg_destination_port i, their_port = seg_sender_port i, window_size = seg_window_size i,
          available_window_size = seg_window_size i, expected_arrival_sequence_number = seg_sequence_number i + 1,
          next_sequence_number = sequence_number + 1, last_sent_acknowledge_number = seg_sequence_number i + 1,
          receive_buffer_list = [], send_buffer_list = []\<rparr>)"

definition opened_by_syn :: "TcpSessionInfo \<Rightarrow> bool" where
  "opened_by_syn t \<longleftrightarrow> (\<exists>seed i. t = syn_session seed i)"

interpretation session: invariant_system opened_by_syn "tcp_step send alloc_memory ty" session_ok for send alloc_memory ty
proof
  fix t
  assume "opened_by_syn t"
  then show "session_ok t" by (auto simp: opened_by_syn_def syn_session_def session_ok_def Let_def)
next
  fix t t'
  assume ok: "session_ok t" and "tcp_step send alloc_memory ty t t'"
  from this(2) show "session_ok t'"
  proof cases
    case peer
    then show ?thesis using peer_step_ok ok by blast
  next
    case (close v l s s' active)
    then show ?thesis using close_ok [OF ok] by blast
  next
    case (close_failed v l s e s')
    then show ?thesis using close_ok [OF ok] by blast
  qed
qed

text \<open>
  Property C32. Every session that a SYN has opened stays well-formed, whatever the peer sends and its owner does: the window left never exceeds the window, each
  unacknowledged buffer has between 1 and 1460 bytes and the length of its allocation, and a FIN is never rejected as one for a
  listening socket.
\<close>

theorem tcp_session_wellformed:
  assumes "reachable opened_by_syn (tcp_step send alloc_memory ty) t"
  shows "available_window_size t \<le> window_size t \<and> (\<forall>e \<in> set (send_buffer_list t). sent_buffer_ok e) \<and> fin_status t ack b \<noteq> None"
proof -
  have "session_ok t" using assms by (rule session.reachable_inv)
  then show ?thesis by (auto simp: session_ok_def fin_status_def split: TcpSessionStatus.split)
qed

theorem tcp_session_wellformed_witness:
  "\<exists>t. t = syn_session 5 (next_segment example_session)\<lparr>status := Opened\<rparr> \<and> available_window_size t \<le> window_size t \<and> fin_status t 3 True \<noteq> None"
proof -
  let ?t = "syn_session 5 (next_segment example_session)"
  let ?i = "(next_segment example_session)\<lparr>seg_acknowledgement_number := next_sequence_number ?t\<rparr>"
  have "ipv4_tcp_ack_handler ?t ?i example_ethernet = (?t\<lparr>status := Opened\<rparr>, example_ethernet, True)"
    by (simp add: ipv4_tcp_ack_handler_def syn_session_def Let_def)
  then have "peer_step example_driver example_memory TYPE((nat, nat, (MacAddress \<times> u8 list) list, unit) net) ?t (?t\<lparr>status := Opened\<rparr>)" by (rule acked)
  then have "reachable opened_by_syn (tcp_step example_driver example_memory TYPE((nat, nat, (MacAddress \<times> u8 list) list, unit) net)) (?t\<lparr>status := Opened\<rparr>)"
    by (intro reach_step [OF reach_init] peer) (auto simp: opened_by_syn_def)
  from tcp_session_wellformed [OF this] show ?thesis by blast
qed

section \<open>Closing\<close>








lemma example_header_sent:
  assumes "ether_ok B (ether s)" and "\<not> ether_lock (ether s)" and "number_of_memory_buffer (ether s) \<noteq> 0" and "device_list (ether s) = [example_device]"
  shows "\<exists>s'. send_ipv4_tcp_header example_driver i fin syn ack pid src dst (Link_Ethernet example_frame) s = Ok s' \<and> ether_ok B (ether s') \<and>
     \<not> ether_lock (ether s') \<and> number_of_memory_buffer (ether s') = number_of_memory_buffer (ether s) - 1 \<and> device_list (ether s') = [example_device]"
proof -
  let ?ds = "\<lambda>t m. outside s @ [(mac_address example_device, read_bytes m (fst (tx_buffer t)) (unat (tx_length t)))]"
  obtain h where h: "create_ipv4_tcp_header i [] fin syn ack False pid src dst = Inr h" "length h = 40"
    using create_tcp_length [of "[]" i fin syn ack False pid src dst] by auto
  have l: "length h \<le> 1500" using h(2) by simp
  have d: "unat (frame_device_id example_frame) < length (device_list (ether s))" "example_device = device_list (ether s) ! unat (frame_device_id example_frame)"
    using assms(4) by (simp_all add: example_frame_def)
  have drv: "example_driver (outside s) (driver example_device) (mac_address example_device) t m = (?ds t m, Inr (tx_length t))" for t m
    by (simp add: example_driver_def)
  show ?thesis
    using send_data_sends [where send = example_driver and ds = ?ds and n = "\<lambda>t m. tx_length t", OF assms(1-3) d l example_ether(8,7) drv,
        of "frame_type example_frame"] sending_ok(1) [OF assms(1,3)] assms(2,4) h(1)
    by (simp add: send_ipv4_tcp_header_def reply_data_def) (simp add: sending_def Let_def)
qed


text \<open>
  Remark. When the peer closes first, our FIN leaves a gap in the sequence. The acknowledgement of the peer's FIN takes a sequence number although it carries none, so
  that the FIN which follows has a number one above the next byte; an acknowledgement for a FIN without the gap does not close the session, but marks the
  socket as inactive while its buffers are still held.
\<close>

theorem tcp_passive_close_leaves_gap:
  fixes s :: "('c, 'f, 'd, 'z) ethernet_scheme"
  assumes "status t = Opened" and "ipv4_tcp_fin_handler send t i l v b s = Ok (t1, s1, a1)"
    and "close_tcp_session send t1 (Ipv4 v) l s1 = Ok (t2, s2, a2)" and "seg_acknowledgement_number j = next_sequence_number t + 1"
  shows "seg_sequence_number (next_segment t1) = next_sequence_number t + 1 \<and> next_sequence_number t2 = next_sequence_number t + 2 \<and>
     status t2 = ClosingOppositeClosed \<and> ipv4_tcp_ack_handler t2 j s2 = (t2, s2, False) \<and> send_buffer_list t2 = send_buffer_list t"
proof -
  have t1: "next_sequence_number t1 = next_sequence_number t + 1" "status t1 = OpenOppositeClosed" "send_buffer_list t1 = send_buffer_list t"
    using assms(1,2) by (auto simp: ipv4_tcp_fin_handler_def fin_status_def Let_def split: outcome.splits)
  moreover have t2: "next_sequence_number t2 = next_sequence_number t1 + 1" "status t2 = ClosingOppositeClosed" "send_buffer_list t2 = send_buffer_list t1"
    using assms(3) t1(2) by (auto simp: close_tcp_session_def send_fin_def split: outcome.splits)
  ultimately show ?thesis using assms(4) by (simp add: next_segment_def ipv4_tcp_ack_handler_def Let_def)
qed

theorem tcp_passive_close_leaves_gap_witness:
  "\<exists>t1 s1 t2 s2. ipv4_tcp_fin_handler example_driver example_session (next_segment example_session) (Link_Ethernet example_frame) example_addresses False example_ethernet = Ok (t1, s1, True) \<and>
     close_tcp_session example_driver t1 (Ipv4 example_addresses) (Link_Ethernet example_frame) s1 = Ok (t2, s2, True) \<and>
     next_sequence_number t2 = 1 \<and> status t2 = ClosingOppositeClosed"
proof -
  let ?t = example_session and ?i = "next_segment example_session" and ?l = "Link_Ethernet example_frame" and ?v = example_addresses
  let ?t1 = "?t\<lparr>status := OpenOppositeClosed, last_sent_acknowledge_number := seg_sequence_number ?i + 1\<rparr>"
  have dl: "device_list (ether example_ethernet) = [example_device]" and nb: "number_of_memory_buffer (ether example_ethernet) = 128"
    by (simp_all add: example_ethernet_def timers.extend_def example_device_def)
  obtain s1 where s1: "send_ipv4_tcp_header example_driver (reply_segment ?t1 ?i) False False True 0 (destination_address ?v) (sender_address ?v) ?l example_ethernet = Ok s1"
    "ether_ok (mset (frame_buffers 0x100000 0x200000)) (ether s1)" "\<not> ether_lock (ether s1)" "number_of_memory_buffer (ether s1) = 127" "device_list (ether s1) = [example_device]"
    using example_header_sent [OF example_ether(1-3) dl] nb by fastforce
  let ?t2 = "?t1\<lparr>next_sequence_number := next_sequence_number ?t1 + 1\<rparr>"
  have st: "status ?t = Opened" by (simp add: example_session_def)
  have f: "ipv4_tcp_fin_handler example_driver ?t ?i ?l ?v False example_ethernet = Ok (?t2, s1, True)"
    using s1(1) st by (simp add: ipv4_tcp_fin_handler_def fin_status_def Let_def)
  have "number_of_memory_buffer (ether s1) \<noteq> 0" by (simp add: s1(4))
  then obtain s2 where "send_ipv4_tcp_header example_driver (next_segment ?t2) True False True 0 (destination_address ?v) (sender_address ?v) ?l s1 = Ok s2"
    using example_header_sent [OF s1(2,3) _ s1(5)] by fastforce
  then obtain t3 where c: "close_tcp_session example_driver ?t2 (Ipv4 ?v) ?l s1 = Ok (t3, s2, True)"
    by (simp add: close_tcp_session_def send_fin_def)
  have "seg_acknowledgement_number (?i\<lparr>seg_acknowledgement_number := next_sequence_number ?t + 1\<rparr>) = next_sequence_number ?t + 1" by simp
  from tcp_passive_close_leaves_gap [OF st f c this]
  have "next_sequence_number t3 = next_sequence_number ?t + 2" "status t3 = ClosingOppositeClosed" by blast+
  moreover have "next_sequence_number ?t + 2 = 1" by (simp add: example_session_def)
  ultimately show ?thesis using f c by (intro exI [of _ ?t2] exI [of _ s1] exI [of _ t3] exI [of _ s2]) simp
qed

end
