(* ===== verification/Task_Frame.thy ===== *)
theory Task_Frame
  imports Task_Manager Outcome_Logic
begin

text \<open>
  What waking threads leaves alone. The operations of \<open>run_queue.rs\<close>, \<open>wait_queue.rs\<close> and \<open>task_manager.rs\<close> that wake a thread
  change the state of the tasks only; every component whose state extends it keeps its part, whether they succeed or fail.
\<close>

section \<open>Run queues\<close>

definition same_rest :: "('c, 'f, 'z) scheduler_scheme \<Rightarrow> ('c, 'f, 'z) scheduler_scheme \<Rightarrow> bool" where
  "same_rest s s' \<longleftrightarrow> scheduler.more s' = scheduler.more s"

lemma time_slice_ends: "ends E (\<lambda>_. True) (calculate_time_slice k p n i)"
  by (cases k) (simp_all add: calculate_time_slice_def Kernel_calculate_time_slice_def User_calculate_time_slice_def Let_def)

lemma set_slice_frame: "ends E (same_rest s) (set_slice c t s)"
  by (simp add: set_slice_def set_time_slice_def same_rest_def time_slice_ends)

lemma thread_added_frame: "ends E (same_rest s) (thread_added_to_run_list c t s)"
  unfolding thread_added_to_run_list_def Let_def
  by (rule ends_mono [OF set_slice_frame]) (auto simp: same_rest_def split: option.splits)

lemma add_thread_frame: "ends (\<lambda>e. same_rest s (snd e)) (same_rest s) (RunQueue__add_thread c t b s)"
proof -
  have *: "ends (\<lambda>_. True) (\<lambda>p. ends (\<lambda>e. same_rest s (snd e)) (same_rest s)
      (thread_added_to_run_list c t (upd_queue c (\<lambda>q. q\<lparr>run_list := fst p, run_list_pool := snd p\<rparr>) s))) m" for m
    by (rule ends_mono [OF ends_True]) (auto intro!: ends_mono [OF thread_added_frame] simp: same_rest_def)
  show ?thesis
    by (simp add: RunQueue__add_thread_def Let_def case_prod_unfold) (simp add: * same_rest_def [of s s] same_rest_def [of s "upd_queue c f s" for f])
qed

lemma RunQueue_add_thread_frame: "ends (\<lambda>e. same_rest s (snd e)) (same_rest s) (RunQueue_add_thread c t s)"
  by (auto simp: RunQueue_add_thread_def same_rest_def Let_def lock_queue_def unlock_queue_def irq_restore_def irq_save_def
      split: prod.splits intro!: ends_mono [OF add_thread_frame])

lemma assign_thread_frame: "ends (\<lambda>e. same_rest s (snd e)) (\<lambda>r. same_rest s (snd r)) (assign_thread c t s)"
  by (auto simp: assign_thread_def same_rest_def Let_def lock_queue_def unlock_queue_def irq_restore_def irq_save_def lock_thread_def
    split: prod.splits option.splits intro!: ends_mono [OF add_thread_frame])

section \<open>The task manager\<close>

definition keeps :: "('c, 'f, 'z) task_manager_scheme \<Rightarrow> ('c, 'f, 'z) task_manager_scheme \<Rightarrow> bool" where
  "keeps s s' \<longleftrightarrow> task_manager.more s' = task_manager.more s"

lemma keeps_refl [simp]: "keeps s s"
  by (simp add: keeps_def)

lemma keeps_trans: "keeps s s' \<Longrightarrow> keeps s' s'' \<Longrightarrow> keeps s s''"
  by (simp add: keeps_def)

lemma same_rest_keeps: "same_rest s s' \<Longrightarrow> keeps s s'"
  by (cases s; cases s') (simp add: same_rest_def keeps_def)

lemma keeps_simps [simp]:
  "keeps s (upd_thread t f s') = keeps s s'" "keeps s (unlock_thread t s') = keeps s s'" "keeps s (unlock_tasks irq s') = keeps s s'"
  "keeps s (s'\<lparr>task_lock := b\<rparr>) = keeps s s'" "keeps s (s'\<lparr>reschedule_ipis := l\<rparr>) = keeps s s'" "keeps s (snd (irq_save s')) = keeps s s'"
  by (simp_all add: keeps_def upd_thread_def unlock_thread_def unlock_tasks_def irq_restore_def irq_save_def case_prod_unfold)

lemma assign_to_less_loaded_frame:
  "ends (\<lambda>e. keeps s (snd e)) (\<lambda>r. \<forall>x. r = Some x \<longrightarrow> keeps s (snd x)) (assign_to_less_loaded t l ds s)"
proof (induction ds)
  case (Cons d ds)
  have "ends (\<lambda>e. keeps s (snd e)) (\<lambda>r. keeps s (snd r)) (assign_thread d t s)"
    by (rule ends_mono [OF assign_thread_frame]) (auto dest: same_rest_keeps)
  then show ?case using Cons.IH
    by (simp add: get_number_of_running_threads_def lock_queue_def case_prod_unfold)
qed simp

lemma local_queue_frame: "keeps s u \<Longrightarrow> ends (\<lambda>e. keeps s (snd e)) (keeps s) (RunQueue_add_thread c t u)"
  by (rule ends_mono [OF RunQueue_add_thread_frame]) (auto intro: keeps_trans dest: same_rest_keeps)

lemma add_into_run_queue_frame: "ends (\<lambda>e. keeps s (snd e)) (keeps s) (add_thread_into_run_queue c t s)"
proof -
  let ?u = "upd_thread t (thread_lock_update (\<lambda>_. True)) s"
  have k: "keeps s ?u" by simp
  have "ends (\<lambda>e. keeps s (snd e)) (\<lambda>r. \<forall>x. r = Some x \<longrightarrow> keeps s (snd x)) (assign_to_less_loaded t l ds ?u)" for l ds
    by (rule ends_mono [OF assign_to_less_loaded_frame]) (auto intro: keeps_trans [OF k])
  then have "ends (\<lambda>e. keeps s (snd e)) (\<lambda>a. ends (\<lambda>e. keeps s (snd e)) (keeps s)
      (case a of None \<Rightarrow> RunQueue_add_thread c t ?u | Some p \<Rightarrow> Ok (snd p))) (assign_to_less_loaded t l ds ?u)" for l ds
    by (rule ends_mono) (auto split: option.splits intro: local_queue_frame [OF k])
  then show ?thesis
    by (auto simp: add_thread_into_run_queue_def lock_thread_def Let_def get_number_of_running_threads_def lock_queue_def case_prod_unfold
        intro: local_queue_frame [OF k])
qed

lemma wake_up_thread_frame: "ends (\<lambda>e. keeps s (snd e)) (keeps s) (wake_up_thread c t s)"
proof -
  let ?u = "(snd (irq_save s))\<lparr>task_lock := True\<rparr>"
  have "ends (\<lambda>e. keeps s (snd e)) (keeps s) (add_thread_into_run_queue c t ?u)"
    by (rule ends_mono [OF add_into_run_queue_frame]) (auto intro: keeps_trans [of s ?u])
  then show ?thesis by (simp add: wake_up_thread_def lock_tasks_def case_prod_unfold)
qed

section \<open>Wait queues\<close>

lemma wakeup_first_frame: "ends (\<lambda>e. keeps s (fst (snd e))) (\<lambda>r. keeps s (fst r)) (wakeup_first c t s w)"
  using wake_up_thread_frame [of s c t] by (simp add: wakeup_first_def lock_thread_def Let_def case_prod_unfold)

lemma wakeup_each_frame: "keeps s u \<Longrightarrow> ends (\<lambda>e. keeps s (fst (snd e))) (\<lambda>r. keeps s (fst r)) (wakeup_each c ts u w)"
proof (induction ts arbitrary: u w)
  case (Cons t ts)
  show ?case using Cons.IH
    by (simp add: case_prod_unfold) (rule ends_mono [OF wakeup_first_frame], auto intro: keeps_trans [OF Cons.prems])
qed simp

lemma wakeup_all_frame: "ends (\<lambda>e. keeps s (fst (snd e))) (\<lambda>r. keeps s (fst r)) (wakeup_all c s w)"
  by (simp add: wakeup_all_def wakeup_each_frame)

end
