(* ===== verification/Socket_Manager.thy ===== *)
theory Socket_Manager
  imports Tcp_Protocol Task_Frame
begin

text \<open>
  The socket manager of \<open>kernel/network_manager/socket_manager.rs\<close>: creating, accepting, reading, sending and closing sockets, and the handlers that bring received
  segments to them. Sockets are in a map from addresses, and the intrusive lists are sequences of addresses.
  A socket that has been given back to \<open>kfree\<close> is not in the map any more; an access to it has no defined
  result and the model ends there with \<open>Diverge\<close>, as it does for a lock that is taken already. The list of memory given back has the buffers of a
  socket but not the socket itself. The buffer that a datagram is put together in is a list of bytes that is handed to the device manager.
  A lock is released before an operation ends, so it appears only as a test. The allocator of sockets is the parameter
  \<open>alloc_socket\<close>; a thread that sleeps ends the operation with the switch, and repeats it when it runs again.
\<close>

declare push_bit_of_1 [simp del] bit_numeral_word_iff [simp del]

section \<open>State\<close>

definition DEFAULT_BUFFER_SIZE :: MSize where "DEFAULT_BUFFER_SIZE = 4096"
definition DEFAULT_SOCKET_CLOSE_TIME_OUT_MS :: u64 where "DEFAULT_SOCKET_CLOSE_TIME_OUT_MS = 10 * 1000"
definition SOCKET_LIST_ORDER :: nat where "SOCKET_LIST_ORDER = 4"
definition IPV4_ADDRESS_ANY :: u32 where "IPV4_ADDRESS_ANY = 0"
definition IPV4_BROAD_CAST :: u32 where "IPV4_BROAD_CAST = - 1"
definition UDP_PORT_ANY :: u16 where "UDP_PORT_ANY = 0"
definition TCP_PORT_ANY :: u16 where "TCP_PORT_ANY = 0"

datatype TransportType = Tcp TcpSessionInfo | Udp UdpConnectionInfo

record Socket =
  socket_lock :: bool
  is_active :: bool
  link :: LinkType
  internet :: InternetType
  transport :: TransportType
  wait_queue :: WaitQueue
  send_ring_buffer :: Ringbuffer
  receive_ring_buffer :: Ringbuffer
  waiting_socket :: "usize list"

record ('c, 'f, 'd) network = "('c, 'f, 'd) ethernet" +
  sockets :: "usize \<Rightarrow> Socket option"
  listening_socket_lock :: bool
  listening_socket :: "usize list"
  active_socket :: "(bool \<times> usize list) list"

type_synonym ('c, 'f, 'd, 'z) sock = "('c, 'f, 'd, 'z) network_scheme"

definition SocketManager_new :: "('c, 'f, 'd, 'z) sock \<Rightarrow> ('c, 'f, 'd, 'z) sock" where
  "SocketManager_new s =
     s\<lparr>listening_socket_lock := False, listening_socket := [], active_socket := replicate (2 ^ SOCKET_LIST_ORDER) (False, [])\<rparr>"

definition put_socket :: "usize \<Rightarrow> Socket \<Rightarrow> ('c, 'f, 'd, 'z) sock \<Rightarrow> ('c, 'f, 'd, 'z) sock" where
  "put_socket a so s = s\<lparr>sockets := (sockets s)(a \<mapsto> so)\<rparr>"

definition kfree_socket :: "usize \<Rightarrow> ('c, 'f, 'd, 'z) sock \<Rightarrow> ('c, 'f, 'd, 'z) sock" where
  "kfree_socket a s = s\<lparr>sockets := (sockets s)(a := None)\<rparr>"

definition get_socket :: "usize \<Rightarrow> ('c, 'f, 'd, 'z) sock \<Rightarrow> ('e, Socket) outcome" where
  "get_socket a s = (case sockets s a of Some so \<Rightarrow> Ok so | None \<Rightarrow> Diverge)"

definition lock_socket :: "usize \<Rightarrow> ('c, 'f, 'd, 'z) sock \<Rightarrow> ('e, Socket) outcome" where
  "lock_socket a s = obind (get_socket a s) (\<lambda>so. if socket_lock so then Diverge else Ok so)"

section \<open>Hashing\<close>

definition to_ne_bytes :: "u32 \<Rightarrow> u8 list" where
  "to_ne_bytes v = rev (to_be_bytes32 v)"

fun calc_hash_number_of_list_ip :: "usize \<Rightarrow> u8 list \<Rightarrow> u8 list \<Rightarrow> usize" where
  "calc_hash_number_of_list_ip seed our_address their_address =
     fold (\<lambda>e seed. seed + ucast e) their_address (fold (\<lambda>e seed. seed + ucast e) our_address seed)"

definition calc_hash_number_of_list_tp :: "usize \<Rightarrow> u16 \<Rightarrow> u16 \<Rightarrow> usize" where
  "calc_hash_number_of_list_tp seed our their = seed * (ucast our + ucast their)"

definition calc_hash_number_of_list_finalize :: "usize \<Rightarrow> usize" where
  "calc_hash_number_of_list_finalize v = v AND (push_bit SOCKET_LIST_ORDER 1 - 1)"

definition calc_hash_number_of_list_tcp_udp :: "InternetType \<Rightarrow> u16 \<Rightarrow> u16 \<Rightarrow> ('e, usize) outcome" where
  "calc_hash_number_of_list_tcp_udp internet_type our their =
     (let finish = (\<lambda>h. Ok (calc_hash_number_of_list_finalize (calc_hash_number_of_list_tp h our their)))
      in case internet_type of
           NoInternet \<Rightarrow> finish 0
         | Ipv4 v4 \<Rightarrow> finish (calc_hash_number_of_list_ip 0 (to_ne_bytes (destination_address v4)) (to_ne_bytes (sender_address v4)))
         | Ipv6 \<Rightarrow> Panic)"

definition calc_hash_number_of_list :: "InternetType \<Rightarrow> TransportType \<Rightarrow> ('e, usize) outcome" where
  "calc_hash_number_of_list internet_type transport_type =
     (case transport_type of
        Tcp t \<Rightarrow> calc_hash_number_of_list_tcp_udp internet_type (our_port t) (their_port t)
      | Udp u \<Rightarrow> calc_hash_number_of_list_tcp_udp internet_type (udp_destination_port u) (udp_sender_port u))"

text \<open>A socket is appended to the list of its hash value.\<close>

definition insert_active :: "usize \<Rightarrow> Socket \<Rightarrow> ('c, 'f, 'd, 'z) sock \<Rightarrow> ('e, ('c, 'f, 'd, 'z) sock) outcome" where
  "insert_active a so s =
     obind (calc_hash_number_of_list (internet so) (transport so)) (\<lambda>h.
     let (locked, l) = active_socket s ! unat h
     in if locked then Diverge else Ok (s\<lparr>active_socket := (active_socket s)[unat h := (locked, l @ [a])]\<rparr>))"

section \<open>Creating sockets\<close>

definition create_socket :: "LinkType \<Rightarrow> InternetType \<Rightarrow> TransportType \<Rightarrow> (NetworkError, Socket) outcome" where
  "create_socket link_type internet_type transport_type =
     obind (case link_type of
              NoLink \<Rightarrow> Ok NoLink
            | Link_Ethernet f \<Rightarrow>
                (case internet_type of
                   NoInternet \<Rightarrow> Err InvalidSocket
                 | Ipv4 _ \<Rightarrow> Ok (Link_Ethernet (set_frame_type ETHERNET_TYPE_IPV4 f))
                 | Ipv6 \<Rightarrow> Panic)) (\<lambda>link_type.
     Ok \<lparr>socket_lock = False, is_active = True, link = link_type, internet = internet_type, transport = transport_type,
         wait_queue = WaitQueue_new, send_ring_buffer = Ringbuffer_new, receive_ring_buffer = Ringbuffer_new, waiting_socket = []\<rparr>)"

type_synonym 'd socket_source = "'d \<Rightarrow> 'd \<times> (MemoryError + usize)"

definition add_socket ::
  "'d socket_source \<Rightarrow> Socket \<Rightarrow> ('c, 'f, 'd, 'z) sock \<Rightarrow> (NetworkError \<times> ('c, 'f, 'd, 'z) sock, usize \<times> ('c, 'f, 'd, 'z) sock) outcome" where
  "add_socket alloc_socket so s =
     (case alloc_socket (outside s) of
        (d, Inl e) \<Rightarrow> Err (NetworkMemoryError e, s\<lparr>outside := d\<rparr>)
      | (d, Inr a) \<Rightarrow>
          let so = so\<lparr>is_active := True, waiting_socket := []\<rparr>
          in obind (insert_active a so (put_socket a so (s\<lparr>outside := d\<rparr>))) (\<lambda>s. Ok (a, s)))"

definition add_listening_socket :: "usize \<Rightarrow> ('c, 'f, 'd, 'z) sock \<Rightarrow> (NetworkError, ('c, 'f, 'd, 'z) sock) outcome" where
  "add_listening_socket a s =
     obind (get_socket a s) (\<lambda>so.
     let so = so\<lparr>transport := (case transport so of Tcp t \<Rightarrow> Tcp (t\<lparr>status := Listening\<rparr>) | Udp u \<Rightarrow> Udp u), is_active := True, waiting_socket := []\<rparr>;
         s = put_socket a so s
     in if listening_socket_lock s then Diverge else Ok (s\<lparr>listening_socket := listening_socket s @ [a]\<rparr>))"

text \<open>What a blocking call gives: a value, or the switch to another thread after which the call is repeated.\<close>

datatype 'a blocking = Done 'a | Sleeping switch

definition sleep_on ::
  "(usize \<Rightarrow> bool) \<Rightarrow> nat \<Rightarrow> usize \<Rightarrow> ('c, 'f, 'd, 'z) sock \<Rightarrow> (NetworkError \<times> ('c, 'f, 'd, 'z) sock, 'a blocking \<times> ('c, 'f, 'd, 'z) sock) outcome" where
  "sleep_on clone_pages c a s =
     obind (get_socket a s) (\<lambda>so.
     case add_current_thread clone_pages c s (wait_queue so) of
       Ok (sw, s, w) \<Rightarrow> Ok (Sleeping sw, put_socket a (so\<lparr>wait_queue := w\<rparr>) s)
     | Err (_, s, w) \<Rightarrow> Err (NetworkInternalError, put_socket a (so\<lparr>wait_queue := w\<rparr>) s)
     | Panic \<Rightarrow> Panic
     | Diverge \<Rightarrow> Diverge)"

definition activate_waiting_socket ::
  "'d ethernet_driver \<Rightarrow> (usize \<Rightarrow> bool) \<Rightarrow> nat \<Rightarrow> usize \<Rightarrow> bool \<Rightarrow> ('c, 'f, 'd, 'z) sock \<Rightarrow>
    (NetworkError \<times> ('c, 'f, 'd, 'z) sock, usize blocking \<times> ('c, 'f, 'd, 'z) sock) outcome" where
  "activate_waiting_socket send clone_pages c a allow_sleep s =
     obind (lock_socket a s) (\<lambda>so.
     case waiting_socket so of
       w # ws \<Rightarrow>
         let s = put_socket a (so\<lparr>waiting_socket := ws\<rparr>) s
         in obind (get_socket w s) (\<lambda>child.
            obind (insert_active w child s) (\<lambda>s.
            obind (case transport child of
                     Tcp t \<Rightarrow> ignore_error (send_tcp_syn_ack_header send t (internet child) (link child) s)
                   | Udp _ \<Rightarrow> Ok s) (\<lambda>s.
            Ok (Done w, s))))
     | [] \<Rightarrow> if allow_sleep then sleep_on clone_pages c a s else Err (InvalidSocket, s))"

section \<open>Reading and sending\<close>

definition read_socket ::
  "(usize \<Rightarrow> bool) \<Rightarrow> nat \<Rightarrow> usize \<Rightarrow> VAddress \<Rightarrow> MSize \<Rightarrow> bool \<Rightarrow> ('c, 'f, 'd, 'z) sock \<Rightarrow>
    (NetworkError \<times> ('c, 'f, 'd, 'z) sock, MSize blocking \<times> ('c, 'f, 'd, 'z) sock) outcome" where
  "read_socket clone_pages c a buffer_address buffer_size allow_sleep s =
     obind (lock_socket a s) (\<lambda>so.
     let (read_size, r, m) = Ringbuffer_read (receive_ring_buffer so) (memory s) buffer_address buffer_size;
         s = (put_socket a (so\<lparr>receive_ring_buffer := r\<rparr>) s)\<lparr>memory := m\<rparr>
     in if is_zero read_size \<and> allow_sleep then sleep_on clone_pages c a s else Ok (Done read_size, s))"

text \<open>
  The loop of \<open>send_socket\<close> for TCP. After a round in which data is left, the thread sleeps and goes on
  with the rest; without a switch it could not be put to sleep and goes on at once. Each round uses the session of the socket
  as it is then.
\<close>

datatype send_progress = Sent MSize | Again "switch option" VAddress MSize

definition send_tcp_round ::
  "'d ethernet_driver \<Rightarrow> 'd memory_source \<Rightarrow> (usize \<Rightarrow> bool) \<Rightarrow> nat \<Rightarrow> usize \<Rightarrow> MSize \<Rightarrow> VAddress \<Rightarrow> MSize \<Rightarrow>
    ('c, 'f, 'd, 'z) sock \<Rightarrow> (NetworkError \<times> ('c, 'f, 'd, 'z) sock, send_progress \<times> ('c, 'f, 'd, 'z) sock) outcome" where
  "send_tcp_round send alloc_memory clone_pages c a buffer_size current_buffer_address remaining_size s =
     obind (lock_socket a s) (\<lambda>so.
     obind (case internet so of NoInternet \<Rightarrow> Err (InvalidSocket, s) | Ipv4 v4 \<Rightarrow> Ok v4 | Ipv6 \<Rightarrow> Panic) (\<lambda>v4.
     obind (case transport so of Tcp session_info \<Rightarrow> Ok session_info | Udp _ \<Rightarrow> Err (InvalidSocket, s)) (\<lambda>session_info.
     case send_tcp_ipv4_data send alloc_memory session_info (read_bytes (memory s) current_buffer_address (unat remaining_size)) v4 (link so) s of
       Err (e, t, _, s) \<Rightarrow> Err (e, put_socket a (so\<lparr>transport := Tcp t\<rparr>) s)
     | Panic \<Rightarrow> Panic
     | Diverge \<Rightarrow> Diverge
     | Ok (t, left, s) \<Rightarrow>
         let s = put_socket a (so\<lparr>transport := Tcp t\<rparr>) s; n = of_nat (length left)
         in if left = [] then Ok (Sent buffer_size, s)
            else
              (case sleep_on clone_pages c a s of
                 Ok (Sleeping sw, s) \<Rightarrow> Ok (Again (Some sw) (current_buffer_address + (remaining_size - n)) n, s)
               | Ok (Done x, s) \<Rightarrow> Ok (Sent x, s)
               | Err (_, s) \<Rightarrow> Ok (Again None (current_buffer_address + (remaining_size - n)) n, s)
               | Panic \<Rightarrow> Panic
               | Diverge \<Rightarrow> Diverge))))"

text \<open>The bytes left behind in a send buffer are not kept, because nothing reads them after the frame has been made.\<close>

definition send_udp ::
  "'d ethernet_driver \<Rightarrow> 'd memory_source \<Rightarrow> Socket \<Rightarrow> UdpConnectionInfo \<Rightarrow> Ipv4ConnectionInfo \<Rightarrow> VAddress \<Rightarrow> MSize \<Rightarrow>
    ('c, 'f, 'd, 'z) sock \<Rightarrow> (NetworkError \<times> ('c, 'f, 'd, 'z) sock, send_progress \<times> ('c, 'f, 'd, 'z) sock) outcome" where
  "send_udp send alloc_memory so u v4 buffer_address buffer_size s =
     (let send_buffer_size = UDP_HEADER_SIZE + IPV4_DEFAULT_HEADER_SIZE + buffer_size;
          d = read_bytes (memory s) buffer_address (unat buffer_size)
      in case get_memory alloc_memory send_buffer_size s of
           (s, Inl e) \<Rightarrow> Err (NetworkMemoryError e, s)
         | (s, Inr send_buffer) \<Rightarrow>
             (case create_ipv4_udp_header d (udp_sender_port u) (destination_address v4) (udp_sender_port u) (sender_address v4) 0 of
                Inl e \<Rightarrow> Err (e, s)
              | Inr header \<Rightarrow>
                  (case (case link so of
                           NoLink \<Rightarrow> Err (InvalidSocket, s)
                         | Link_Ethernet ether_info \<Rightarrow> reply_data send ether_info (header @ d) s) of
                     Err (e, s) \<Rightarrow> Err (e, free_memory send_buffer send_buffer_size s)
                   | Ok s \<Rightarrow> Ok (Sent buffer_size, free_memory send_buffer send_buffer_size s)
                   | Panic \<Rightarrow> Panic
                   | Diverge \<Rightarrow> Diverge)))"

definition send_socket ::
  "'d ethernet_driver \<Rightarrow> 'd memory_source \<Rightarrow> (usize \<Rightarrow> bool) \<Rightarrow> nat \<Rightarrow> usize \<Rightarrow> VAddress \<Rightarrow> MSize \<Rightarrow>
    ('c, 'f, 'd, 'z) sock \<Rightarrow> (NetworkError \<times> ('c, 'f, 'd, 'z) sock, send_progress \<times> ('c, 'f, 'd, 'z) sock) outcome" where
  "send_socket send alloc_memory clone_pages c a buffer_address buffer_size s =
     obind (lock_socket a s) (\<lambda>so.
     case transport so of
       Tcp _ \<Rightarrow> send_tcp_round send alloc_memory clone_pages c a buffer_size buffer_address buffer_size s
     | Udp u \<Rightarrow>
         (case internet so of
            NoInternet \<Rightarrow> Err (InvalidSocket, s)
          | Ipv4 v4 \<Rightarrow> send_udp send alloc_memory so u v4 buffer_address buffer_size s
          | Ipv6 \<Rightarrow> Panic))"

section \<open>Closing\<close>

definition wake_socket :: "nat \<Rightarrow> usize \<Rightarrow> ('c, 'f, 'd, 'z) sock \<Rightarrow> ('e, ('c, 'f, 'd, 'z) sock) outcome" where
  "wake_socket c a s =
     obind (get_socket a s) (\<lambda>so.
     case wakeup_all c s (wait_queue so) of
       Ok (s, w) \<Rightarrow> Ok (put_socket a (so\<lparr>wait_queue := w\<rparr>) s)
     | Err (_, s, w) \<Rightarrow> Ok (put_socket a (so\<lparr>wait_queue := w\<rparr>) s)
     | Panic \<Rightarrow> Panic
     | Diverge \<Rightarrow> Diverge)"

definition free_ring :: "Ringbuffer \<Rightarrow> ('c, 'f, 'd, 'z) sock \<Rightarrow> Ringbuffer \<times> ('c, 'f, 'd, 'z) sock" where
  "free_ring r s =
     (if is_zero (get_buffer_size r) then (r, s)
      else (unset_buffer r, free_memory (get_buffer_address r) (get_buffer_size r) s))"

definition close_transport ::
  "'d ethernet_driver \<Rightarrow> Socket \<Rightarrow> ('c, 'f, 'd, 'z) sock \<Rightarrow> (NetworkError \<times> Socket \<times> ('c, 'f, 'd, 'z) sock, Socket \<times> ('c, 'f, 'd, 'z) sock) outcome" where
  "close_transport send so s =
     (case transport so of
        Udp _ \<Rightarrow> Ok (so\<lparr>is_active := False\<rparr>, s)
      | Tcp t \<Rightarrow>
          (case close_tcp_session send t (internet so) (link so) s of
             Ok (t, s, active) \<Rightarrow> Ok (so\<lparr>transport := Tcp t, is_active := active\<rparr>, s)
           | Err (e, t, s) \<Rightarrow> Err (e, so\<lparr>transport := Tcp t\<rparr>, s)
           | Panic \<Rightarrow> Panic
           | Diverge \<Rightarrow> Diverge))"

text \<open>The end of \<open>_close_socket\<close>: a timer for a socket that is still active, or \<open>kfree\<close>; \<open>fn\<close> is the address of \<open>delete_socket\<close>.\<close>

definition retire_socket ::
  "usize \<Rightarrow> nat \<Rightarrow> usize \<Rightarrow> ('c, 'f, 'd, 'z) sock \<Rightarrow> ('e, ('c, 'f, 'd, 'z) sock) outcome" where
  "retire_socket fn c a s =
     obind (get_socket a s) (\<lambda>so.
     if is_active so then
       obind (WaitQueue_is_empty (wait_queue so)) (\<lambda>empty.
       if empty then
         (case add_timer DEFAULT_SOCKET_CLOSE_TIME_OUT_MS fn a s of Some s \<Rightarrow> Ok s | None \<Rightarrow> Ok s)
       else wake_socket c a s)
     else Ok (kfree_socket a s))"

text \<open>
  The children that still wait are taken from the list one after the other; \<open>k\<close> bounds the number of
  sockets that are closed, children included. The lock of the socket is held over the children.
\<close>

fun close_socket ::
    "nat \<Rightarrow> 'd ethernet_driver \<Rightarrow> usize \<Rightarrow> nat \<Rightarrow> usize \<Rightarrow> ('c, 'f, 'd, 'z) sock \<Rightarrow> (NetworkError \<times> ('c, 'f, 'd, 'z) sock, ('c, 'f, 'd, 'z) sock) outcome"
and close_children ::
    "nat \<Rightarrow> 'd ethernet_driver \<Rightarrow> usize \<Rightarrow> nat \<Rightarrow> usize \<Rightarrow> ('c, 'f, 'd, 'z) sock \<Rightarrow> (NetworkError \<times> ('c, 'f, 'd, 'z) sock, ('c, 'f, 'd, 'z) sock) outcome" where
  "close_socket 0 send fn c a s = Diverge"
| "close_socket (Suc k) send fn c a s =
     obind (lock_socket a s) (\<lambda>so.
     let (r, s) = free_ring (receive_ring_buffer so) s;
         (w, s) = free_ring (send_ring_buffer so) s;
         so = so\<lparr>receive_ring_buffer := r, send_ring_buffer := w\<rparr>
     in case close_transport send so s of
          Err (e, so, s) \<Rightarrow> Err (e, put_socket a so s)
        | Panic \<Rightarrow> Panic
        | Diverge \<Rightarrow> Diverge
        | Ok (so, s) \<Rightarrow>
            obind (close_children k send fn c a (put_socket a (so\<lparr>socket_lock := True\<rparr>) s)) (\<lambda>s.
            obind (get_socket a s) (\<lambda>so. retire_socket fn c a (put_socket a (so\<lparr>socket_lock := False\<rparr>) s))))"
| "close_children 0 send fn c a s = Diverge"
| "close_children (Suc k) send fn c a s =
     obind (get_socket a s) (\<lambda>so.
     case waiting_socket so of
       [] \<Rightarrow> Ok s
     | w # ws \<Rightarrow>
         let s = put_socket a (so\<lparr>waiting_socket := ws\<rparr>) s
         in obind (lock_socket w s) (\<lambda>child.
            if is_active child then close_children k send fn c a s
            else
              (case close_socket k send fn c w s of
                 Ok s \<Rightarrow> close_children k send fn c a s
               | Err (e, s) \<Rightarrow> obind (get_socket a s) (\<lambda>so. Err (e, put_socket a (so\<lparr>socket_lock := False\<rparr>) s))
               | Panic \<Rightarrow> Panic
               | Diverge \<Rightarrow> Diverge)))"

definition delete_socket :: "usize \<Rightarrow> ('c, 'f, 'd, 'z) sock \<Rightarrow> ('e, ('c, 'f, 'd, 'z) sock) outcome" where
  "delete_socket a s = obind (lock_socket a s) (\<lambda>so. Ok (kfree_socket a (put_socket a (so\<lparr>is_active := False\<rparr>) s)))"

section \<open>Searching\<close>

text \<open>What the search does after it has looked at a socket: it goes on, takes the socket, or leaves the list.\<close>

datatype verdict = Skip | Take | Stop

fun search ::
  "(Socket \<Rightarrow> ('e, verdict) outcome) \<Rightarrow> usize list \<Rightarrow> ('c, 'f, 'd, 'z) sock \<Rightarrow> ('e, usize option) outcome" where
  "search judge [] s = Ok None"
| "search judge (a # as) s =
     obind (get_socket a s) (\<lambda>so.
     obind (judge so) (\<lambda>v.
     case v of Skip \<Rightarrow> search judge as s | Take \<Rightarrow> Ok (Some a) | Stop \<Rightarrow> Ok None))"

definition search_list :: "(Socket \<Rightarrow> ('e, verdict) outcome) \<Rightarrow> bool \<times> usize list \<Rightarrow> ('c, 'f, 'd, 'z) sock \<Rightarrow> ('e, usize option) outcome" where
  "search_list judge l s = (if fst l then Diverge else search judge (snd l) s)"

fun search_all :: "(Socket \<Rightarrow> ('e, verdict) outcome) \<Rightarrow> (bool \<times> usize list) list \<Rightarrow> ('c, 'f, 'd, 'z) sock \<Rightarrow> ('e, usize option) outcome" where
  "search_all judge [] s = Ok None"
| "search_all judge (l # ls) s =
     obind (search_list judge l s) (\<lambda>r. case r of None \<Rightarrow> search_all judge ls s | Some a \<Rightarrow> Ok (Some a))"

text \<open>The comparison of the addresses of a socket with those of a packet that allows the wildcards; \<open>no\<close> is the verdict when they differ.\<close>

definition judge_address :: "verdict \<Rightarrow> InternetType \<Rightarrow> InternetType \<Rightarrow> ('e, verdict) outcome" where
  "judge_address no ours arrived =
     (case ours of
        NoInternet \<Rightarrow> Ok Take
      | Ipv6 \<Rightarrow> Panic
      | Ipv4 i \<Rightarrow>
          (case arrived of
             Ipv4 v \<Rightarrow>
               if sender_address i \<noteq> IPV4_ADDRESS_ANY \<and> sender_address i \<noteq> IPV4_BROAD_CAST \<and> sender_address i \<noteq> sender_address v then Ok no
               else if destination_address i \<noteq> IPV4_ADDRESS_ANY \<and> destination_address v \<noteq> IPV4_BROAD_CAST \<and>
                       destination_address i \<noteq> destination_address v then Ok no
               else Ok Take
           | _ \<Rightarrow> Ok no))"

definition judge_udp :: "InternetType \<Rightarrow> UdpConnectionInfo \<Rightarrow> Socket \<Rightarrow> ('e, verdict) outcome" where
  "judge_udp arrived u so =
     (case transport so of
        Tcp _ \<Rightarrow> Ok Skip
      | Udp info \<Rightarrow>
          if is_active so \<and> udp_destination_port info = udp_destination_port u \<and> udp_sender_port info = udp_sender_port u then
            (case internet so of
               NoInternet \<Rightarrow> Ok Take
             | Ipv6 \<Rightarrow> Panic
             | Ipv4 i \<Rightarrow>
                 (case arrived of
                    Ipv4 v \<Rightarrow>
                      if sender_address i \<noteq> sender_address v \<or> destination_address i \<noteq> destination_address v then Ok Skip else Ok Take
                  | _ \<Rightarrow> Ok Skip))
          else Ok Skip)"

definition judge_udp_special :: "InternetType \<Rightarrow> UdpConnectionInfo \<Rightarrow> Socket \<Rightarrow> ('e, verdict) outcome" where
  "judge_udp_special arrived u so =
     (case transport so of
        Tcp _ \<Rightarrow> Ok Skip
      | Udp info \<Rightarrow>
          if is_active so \<and> udp_destination_port info = udp_destination_port u \<and>
             (udp_sender_port info = UDP_PORT_ANY \<or> udp_sender_port info = udp_sender_port u)
          then judge_address Skip (internet so) arrived
          else Ok Skip)"

text \<open>The test of the TCP handlers; the sockets of the port handler are listening ones and may leave the port of the peer open.\<close>

definition judge_tcp_listening :: "InternetType \<Rightarrow> TcpSegmentInfo \<Rightarrow> Socket \<Rightarrow> ('e, verdict) outcome" where
  "judge_tcp_listening arrived i so =
     (case transport so of
        Udp _ \<Rightarrow> Ok Skip
      | Tcp t \<Rightarrow>
          if is_active so \<and> status t = Listening \<and> seg_destination_port i = our_port t \<and>
             (their_port t = TCP_PORT_ANY \<or> their_port t = seg_sender_port i)
          then judge_address Stop (internet so) arrived
          else Ok Skip)"

definition judge_tcp :: "(TcpSessionStatus \<Rightarrow> bool) \<Rightarrow> InternetType \<Rightarrow> TcpSegmentInfo \<Rightarrow> Socket \<Rightarrow> ('e, verdict) outcome" where
  "judge_tcp ready arrived i so =
     (case transport so of
        Udp _ \<Rightarrow> Ok Skip
      | Tcp t \<Rightarrow>
          if is_active so \<and> ready (status t) \<and> seg_destination_port i = our_port t \<and> their_port t = seg_sender_port i
          then judge_address Stop (internet so) arrived
          else Ok Skip)"

section \<open>Handlers of received segments\<close>

text \<open>A ring without memory gets its buffer when data arrives.\<close>

definition need_receive_ring ::
  "'d memory_source \<Rightarrow> usize \<Rightarrow> ('c, 'f, 'd, 'z) sock \<Rightarrow> (NetworkError \<times> ('c, 'f, 'd, 'z) sock, ('c, 'f, 'd, 'z) sock) outcome" where
  "need_receive_ring alloc_memory a s =
     obind (get_socket a s) (\<lambda>so.
     if is_zero (get_buffer_size (receive_ring_buffer so)) then
       (case get_memory alloc_memory DEFAULT_BUFFER_SIZE s of
          (s, Inl e) \<Rightarrow> Err (NetworkMemoryError e, s)
        | (s, Inr b) \<Rightarrow>
            (case set_new_buffer (receive_ring_buffer so) b DEFAULT_BUFFER_SIZE of
               Ok r \<Rightarrow> Ok (put_socket a (so\<lparr>receive_ring_buffer := r\<rparr>) s)
             | _ \<Rightarrow> Panic))
     else Ok s)"

definition udp_socket_handler ::
  "'d memory_source \<Rightarrow> nat \<Rightarrow> usize \<Rightarrow> UdpSegmentInfo \<Rightarrow> VAddress \<Rightarrow> MSize \<Rightarrow> usize \<Rightarrow> ('c, 'f, 'd, 'z) sock \<Rightarrow> ('e, ('c, 'f, 'd, 'z) sock) outcome" where
  "udp_socket_handler alloc_memory c a i data_buffer data_length payload_base s =
     obind (lock_socket a s) (\<lambda>_.
     case need_receive_ring alloc_memory a s of
       Err (_, s) \<Rightarrow> Ok (free_memory data_buffer data_length s)
     | Panic \<Rightarrow> Panic
     | Diverge \<Rightarrow> Diverge
     | Ok s \<Rightarrow>
         obind (get_socket a s) (\<lambda>so.
         let (written_size, r, m) = Ringbuffer_write (receive_ring_buffer so) (memory s) (data_buffer + payload_base) (udp_payload_size i);
             s = (put_socket a (so\<lparr>receive_ring_buffer := r\<rparr>) s)\<lparr>memory := m\<rparr>
         in obind (wake_socket c a s) (\<lambda>s. Ok (free_memory data_buffer data_length s))))"

definition udp_segment_handler ::
  "'d memory_source \<Rightarrow> nat \<Rightarrow> InternetType \<Rightarrow> UdpSegmentInfo \<Rightarrow> VAddress \<Rightarrow> MSize \<Rightarrow> usize \<Rightarrow> ('c, 'f, 'd, 'z) sock \<Rightarrow>
    ('e, ('c, 'f, 'd, 'z) sock) outcome" where
  "udp_segment_handler alloc_memory c transport_info i data_buffer data_length payload_base s =
     (let u = udp_connection_info i
      in obind (calc_hash_number_of_list_tcp_udp transport_info (udp_destination_port u) (udp_sender_port u)) (\<lambda>h.
         obind (search_list (judge_udp transport_info u) (active_socket s ! unat h) s) (\<lambda>found.
         obind (case found of
                  Some a \<Rightarrow> Ok (Some a)
                | None \<Rightarrow> search_all (judge_udp_special transport_info u) (active_socket s) s) (\<lambda>found.
         case found of
           Some a \<Rightarrow> udp_socket_handler alloc_memory c a i data_buffer data_length payload_base s
         | None \<Rightarrow> Ok (free_memory data_buffer data_length s)))))"

definition child_socket :: "LinkType \<Rightarrow> InternetType \<Rightarrow> TcpSessionInfo \<Rightarrow> Socket" where
  "child_socket link_info internet_info new_session_info =
     \<lparr>socket_lock = False, is_active = True, link = link_info, internet = internet_info, transport = Tcp new_session_info,
      wait_queue = WaitQueue_new, send_ring_buffer = Ringbuffer_new, receive_ring_buffer = Ringbuffer_new, waiting_socket = []\<rparr>"

definition tcp_port_open_handler ::
  "'d socket_source \<Rightarrow> nat \<Rightarrow> LinkType \<Rightarrow> InternetType \<Rightarrow> TcpSegmentInfo \<Rightarrow> TcpSessionInfo \<Rightarrow> ('c, 'f, 'd, 'z) sock \<Rightarrow>
    (NetworkError \<times> ('c, 'f, 'd, 'z) sock, ('c, 'f, 'd, 'z) sock) outcome" where
  "tcp_port_open_handler alloc_socket c link_info internet_info i new_session_info s =
     obind (search_list (judge_tcp_listening internet_info i) (listening_socket_lock s, listening_socket s) s) (\<lambda>found.
     case found of
       None \<Rightarrow> Err (NetworkInvalidAddress, s)
     | Some e \<Rightarrow>
         (case alloc_socket (outside s) of
            (d, Inl err) \<Rightarrow> Err (NetworkMemoryError err, s\<lparr>outside := d\<rparr>)
          | (d, Inr a) \<Rightarrow>
              let s = put_socket a (child_socket link_info internet_info new_session_info) (s\<lparr>outside := d\<rparr>)
              in obind (lock_socket e s) (\<lambda>so.
                 wake_socket c e (put_socket e (so\<lparr>waiting_socket := waiting_socket so @ [a]\<rparr>) s))))"

text \<open>The session of a socket found is handed to the function; an error keeps what it has changed.\<close>

definition tcp_update_status ::
  "nat \<Rightarrow> InternetType \<Rightarrow> TcpSegmentInfo \<Rightarrow>
    (TcpSessionInfo \<Rightarrow> ('c, 'f, 'd, 'z) sock \<Rightarrow> (NetworkError \<times> TcpSessionInfo \<times> ('c, 'f, 'd, 'z) sock, TcpSessionInfo \<times> ('c, 'f, 'd, 'z) sock \<times> bool) outcome) \<Rightarrow>
    ('c, 'f, 'd, 'z) sock \<Rightarrow> (NetworkError \<times> ('c, 'f, 'd, 'z) sock, ('c, 'f, 'd, 'z) sock) outcome" where
  "tcp_update_status c internet_info i update_function s =
     obind (calc_hash_number_of_list_tcp_udp internet_info (seg_destination_port i) (seg_sender_port i)) (\<lambda>h.
     obind (search_list (judge_tcp (\<lambda>_. True) internet_info i) (active_socket s ! unat h) s) (\<lambda>found.
     case found of
       None \<Rightarrow> Err (NetworkInvalidAddress, s)
     | Some a \<Rightarrow>
         obind (lock_socket a s) (\<lambda>so.
         obind (case transport so of Tcp t \<Rightarrow> Ok t | Udp _ \<Rightarrow> Panic) (\<lambda>t.
         case update_function t s of
           Ok (t, s, active) \<Rightarrow> wake_socket c a (put_socket a (so\<lparr>transport := Tcp t, is_active := active\<rparr>) s)
         | Err (e, t, s) \<Rightarrow> obind (wake_socket c a (put_socket a (so\<lparr>transport := Tcp t\<rparr>) s)) (\<lambda>s. Err (e, s))
         | Panic \<Rightarrow> Panic
         | Diverge \<Rightarrow> Diverge))))"

definition tcp_data_receive_handler ::
  "'d memory_source \<Rightarrow> nat \<Rightarrow> InternetType \<Rightarrow> TcpSegmentInfo \<Rightarrow>
    (TcpSessionInfo \<Rightarrow> Ringbuffer \<Rightarrow> ('c, 'f, 'd, 'z) sock \<Rightarrow>
      (NetworkError \<times> TcpSessionInfo \<times> Ringbuffer \<times> ('c, 'f, 'd, 'z) sock, TcpSessionInfo \<times> Ringbuffer \<times> ('c, 'f, 'd, 'z) sock \<times> 'r) outcome) \<Rightarrow>
    ('c, 'f, 'd, 'z) sock \<Rightarrow> (NetworkError \<times> ('c, 'f, 'd, 'z) sock, 'r \<times> ('c, 'f, 'd, 'z) sock) outcome" where
  "tcp_data_receive_handler alloc_memory c internet_info i process_function s =
     obind (calc_hash_number_of_list_tcp_udp internet_info (seg_destination_port i) (seg_sender_port i)) (\<lambda>h.
     obind (search_list (judge_tcp (\<lambda>st. st = Opened) internet_info i) (active_socket s ! unat h) s) (\<lambda>found.
     case found of
       None \<Rightarrow> Err (NetworkInvalidAddress, s)
     | Some a \<Rightarrow>
         obind (lock_socket a s) (\<lambda>_.
         obind (need_receive_ring alloc_memory a s) (\<lambda>s.
         obind (get_socket a s) (\<lambda>so.
         obind (case transport so of Tcp t \<Rightarrow> Ok t | Udp _ \<Rightarrow> Panic) (\<lambda>t.
         case process_function t (receive_ring_buffer so) s of
           Ok (t, r, s, x) \<Rightarrow> obind (wake_socket c a (put_socket a (so\<lparr>transport := Tcp t, receive_ring_buffer := r\<rparr>) s)) (\<lambda>s. Ok (x, s))
         | Err (e, t, r, s) \<Rightarrow> obind (wake_socket c a (put_socket a (so\<lparr>transport := Tcp t, receive_ring_buffer := r\<rparr>) s)) (\<lambda>s. Err (e, s))
         | Panic \<Rightarrow> Panic
         | Diverge \<Rightarrow> Diverge))))))"

end
