(* ===== verification/Network_Input.thy ===== *)
theory Network_Input
  imports Socket_Manager
begin

text \<open>
  The way of a received frame to its socket: \<open>frame_worker\<close> of \<open>ethernet_device.rs\<close>, what \<open>ipv4_packet_handler\<close>
  and \<open>udp_ipv4_segment_handler\<close> do with their decisions, and the handler of TCP segments of \<open>tcp.rs\<close>. The theorems follow a
  frame from the memory in which the driver has put it to the ring of a socket, and say who owns that memory in the end.
\<close>

declare push_bit_of_1 [simp del] bit_numeral_word_iff [simp del]

section \<open>Dispatch\<close>

text \<open>
  The last branch of the handler, for data with or without an acknowledgement. The flag of the data handler says whether the buffer
  is freed; it stays true when there is an error. The result of the acknowledgement, whether the socket stays active, is not used.
\<close>

definition tcp_data_branch ::
  "'d ethernet_driver \<Rightarrow> 'd memory_source \<Rightarrow> nat \<Rightarrow> u8 list \<Rightarrow> VAddress \<Rightarrow> MSize \<Rightarrow> usize \<Rightarrow> usize \<Rightarrow> LinkType \<Rightarrow> Ipv4ConnectionInfo \<Rightarrow>
    ('c, 'f, 'd, 'z) sock \<Rightarrow> ('e, ('c, 'f, 'd, 'z) sock) outcome" where
  "tcp_data_branch send alloc_memory c h allocated_data_base data_length segment_offset segment_size link_info v s =
     (let i = tcp_segment_info h;
          process = (\<lambda>t r s.
            let (t, s) = (if is_ack_active h then (case ipv4_tcp_ack_handler t i s of (t, s, _) \<Rightarrow> (t, s)) else (t, s))
            in ipv4_tcp_data_handler send t i r allocated_data_base data_length (segment_offset + Tcp_get_header_length h)
                 (segment_size - Tcp_get_header_length h) link_info v s)
      in case tcp_data_receive_handler alloc_memory c (Ipv4 v) i process s of
           Ok (should_free_buffer, s) \<Rightarrow> Ok (if should_free_buffer then free_memory allocated_data_base data_length s else s)
         | Err (_, s) \<Rightarrow> Ok (free_memory allocated_data_base data_length s)
         | Panic \<Rightarrow> Panic
         | Diverge \<Rightarrow> Diverge)"

definition tcp_ipv4_segment_handler ::
  "'d ethernet_driver \<Rightarrow> 'd memory_source \<Rightarrow> 'd socket_source \<Rightarrow> u64 \<Rightarrow> nat \<Rightarrow> VAddress \<Rightarrow> MSize \<Rightarrow> usize \<Rightarrow> usize \<Rightarrow> LinkType \<Rightarrow> Ipv4ConnectionInfo \<Rightarrow>
    ('c, 'f, 'd, 'z) sock \<Rightarrow> ('e, ('c, 'f, 'd, 'z) sock) outcome" where
  "tcp_ipv4_segment_handler send alloc_memory alloc_socket seed c allocated_data_base data_length segment_offset segment_size link_info v s =
     (let h = read_bytes (memory s) (allocated_data_base + segment_offset) (unat TCP_DEFAULT_HEADER_SIZE);
          i = tcp_segment_info h;
          finish = (\<lambda>r. obind (ignore_error r) (\<lambda>s. Ok (free_memory allocated_data_base data_length s)))
      in if segment_size < TCP_DEFAULT_HEADER_SIZE then Ok (free_memory allocated_data_base data_length s)
         else if is_syn_active h \<and> is_ack_active h then Ok (free_memory allocated_data_base data_length s)
         else if is_syn_active h then finish (tcp_port_open_handler alloc_socket c link_info (Ipv4 v) i (syn_session seed i) s)
         else if is_fin_active h then
           finish (tcp_update_status c (Ipv4 v) i (\<lambda>t s. ipv4_tcp_fin_handler send t i link_info v (is_ack_active h) s) s)
         else if is_ack_active h \<and> segment_size = Tcp_get_header_length h then
           finish (tcp_update_status c (Ipv4 v) i (\<lambda>t s. Ok (ipv4_tcp_ack_handler t i s)) s)
         else tcp_data_branch send alloc_memory c h allocated_data_base data_length segment_offset segment_size link_info v s)"

definition udp_segment_input ::
  "'d memory_source \<Rightarrow> nat \<Rightarrow> VAddress \<Rightarrow> MSize \<Rightarrow> usize \<Rightarrow> usize \<Rightarrow> Ipv4ConnectionInfo \<Rightarrow> ('c, 'f, 'd, 'z) sock \<Rightarrow> ('e, ('c, 'f, 'd, 'z) sock) outcome" where
  "udp_segment_input alloc_memory c allocated_data_base data_length segment_offset segment_size v s =
     (case udp_ipv4_segment_handler (read_bytes (memory s) allocated_data_base (unat data_length)) data_length segment_offset segment_size of
        Udp_dropped \<Rightarrow> Ok (free_memory allocated_data_base data_length s)
      | Udp_deliver i payload_base \<Rightarrow> udp_segment_handler alloc_memory c (Ipv4 v) i allocated_data_base data_length payload_base s)"

definition ipv4_packet_input ::
  "'d ethernet_driver \<Rightarrow> 'd memory_source \<Rightarrow> 'd socket_source \<Rightarrow> u64 \<Rightarrow> nat \<Rightarrow> VAddress \<Rightarrow> MSize \<Rightarrow> usize \<Rightarrow> LinkType \<Rightarrow>
    ('c, 'f, 'd, 'z) sock \<Rightarrow> ('e, ('c, 'f, 'd, 'z) sock) outcome" where
  "ipv4_packet_input send alloc_memory alloc_socket seed c allocated_data_base data_length packet_offset link_info s =
     (case ipv4_packet_handler (read_bytes (memory s) allocated_data_base (unat data_length)) data_length packet_offset of
        Ip_dropped \<Rightarrow> Ok (free_memory allocated_data_base data_length s)
      | Ip_to_udp off n v \<Rightarrow> udp_segment_input alloc_memory c allocated_data_base data_length off n v s
      | Ip_to_tcp off n v \<Rightarrow> tcp_ipv4_segment_handler send alloc_memory alloc_socket seed c allocated_data_base data_length off n link_info v s)"

text \<open>The entry is copied and freed first; the address of an entry that is not there is not one that \<open>received_data_handler\<close> has queued.\<close>

definition frame_worker ::
  "'d ethernet_driver \<Rightarrow> 'd memory_source \<Rightarrow> 'd socket_source \<Rightarrow> u64 \<Rightarrow> nat \<Rightarrow> usize \<Rightarrow> ('c, 'f, 'd, 'z) sock \<Rightarrow> ('e, ('c, 'f, 'd, 'z) sock) outcome" where
  "frame_worker send alloc_memory alloc_socket seed c d s =
     (case rx_entries s d of
        None \<Rightarrow> Diverge
      | Some rx \<Rightarrow>
          let s = free_memory d size_of_RxEntry (s\<lparr>rx_entries := (rx_entries s)(d := None)\<rparr>);
              frame_info = frame_info_of rx (memory s)
          in if frame_type frame_info = ETHERNET_TYPE_IPV4
             then ipv4_packet_input send alloc_memory alloc_socket seed c (rx_buffer rx) (rx_length rx) ETHERNET_PAYLOAD_OFFSET (Link_Ethernet frame_info) s
             else Ok (free_memory (rx_buffer rx) (rx_length rx) s))"

section \<open>Who frees memory\<close>

text \<open>\<open>frees B s s'\<close>: between the states only memory at an address of \<open>B\<close> is given back, and the sockets are the same.\<close>

definition frees :: "usize set \<Rightarrow> ('c, 'f, 'd, 'z) net \<Rightarrow> ('c, 'f, 'd, 'z) net \<Rightarrow> bool" where
  "frees B s s' \<longleftrightarrow> ethernet.more s' = ethernet.more s \<and> (\<exists>fs. kfreed s' = kfreed s @ fs \<and> fst ` set fs \<subseteq> B)"

lemma frees_refl [simp]: "frees B s s"
  by (simp add: frees_def)

lemma frees_trans: "frees B s s' \<Longrightarrow> frees B s' s'' \<Longrightarrow> frees B s s''"
  unfolding frees_def by (elim conjE exE) (auto intro!: exI [where x = "fs @ gs" for fs gs])

lemma frees_mono: "frees A s s' \<Longrightarrow> A \<subseteq> B \<Longrightarrow> frees B s s'"
  by (auto simp: frees_def)

lemma frees_simps [simp]:
  "frees B s (s'\<lparr>memory := m\<rparr>) = frees B s s'" "frees B s (s'\<lparr>outside := d\<rparr>) = frees B s s'" "frees B s (s'\<lparr>ether := e\<rparr>) = frees B s s'"
  by (simp_all add: frees_def)

lemma frees_free_memory: "frees B s s' \<Longrightarrow> a \<in> B \<Longrightarrow> frees B s (free_memory a n s')"
  by (auto simp: frees_def free_memory_def)

definition session_buffers :: "TcpSessionInfo \<Rightarrow> usize set" where
  "session_buffers t = rcv_base ` set (receive_buffer_list t) \<union> snd_address ` set (send_buffer_list t)"

lemma drop_tx_ends: "ends E (\<lambda>_. True) (drop_tx i b e)"
  by (simp add: drop_tx_def put_buffer_def split: option.splits)

lemma send_data_frees: "ends (\<lambda>e. frees {} s (snd e)) (frees {} s) (send_data send i d target ty s)"
  by (simp add: send_data_def Let_def case_prod_unfold drop_tx_ends split: sum.splits)

lemma send_header_frees: "ends (\<lambda>e. frees {} s (snd e)) (frees {} s) (send_ipv4_tcp_header send i f y k n a b l s)"
  by (simp add: send_ipv4_tcp_header_def reply_data_def send_data_frees split: sum.splits LinkType.splits)

lemma free_buffer_frees: "frees (session_buffers t) s (snd (free_buffer t s)) \<and> session_buffers (fst (free_buffer t s)) = {}"
  by (auto simp: free_buffer_def frees_def session_buffers_def)

lemma grow_window_receive [simp]: "receive_buffer_list (grow_window e t) = receive_buffer_list t"
  by (simp add: grow_window_def Let_def)

lemma ack_sent_frees:
  "frees (session_buffers t) s (snd (ack_sent_data k t s)) \<and> session_buffers (fst (ack_sent_data k t s)) \<subseteq> session_buffers t"
proof (cases "send_buffer_list t")
  case (Cons e es)
  have f: "x \<in> set (e # es)" if "find P (e # es) = Some x" for P x using that by (metis find_Some_iff nth_mem)
  have r: "set (remove1 x (e # es)) \<subseteq> set (e # es)" for x by (rule set_remove1_subset)
  show ?thesis
  proof (cases "k = expected_ack e")
    case True
    then show ?thesis using Cons by (auto simp: ack_sent_data_def session_buffers_def intro!: frees_free_memory)
  next
    case False
    show ?thesis
    proof (cases "find (\<lambda>e. k = expected_ack e) (e # es)")
      case None
      then show ?thesis using Cons False by (simp add: ack_sent_data_def)
    next
      case (Some x)
      then have "ack_sent_data k t s = ((grow_window e t)\<lparr>send_buffer_list := remove1 x (e # es)\<rparr>, free_memory (snd_address x) (snd_buffer_length x) s)"
        using Cons False by (simp add: ack_sent_data_def)
      then show ?thesis using f [OF Some] r [of x] Cons by (auto simp: session_buffers_def simp del: remove1.simps intro!: frees_free_memory)
    qed
  qed
qed (simp add: ack_sent_data_def)

lemma ack_handler_frees:
  assumes "ipv4_tcp_ack_handler t i s = (t', s', b)"
  shows "frees (session_buffers t) s s' \<and> session_buffers t' \<subseteq> session_buffers t"
proof -
  have q: "session_buffers (t\<lparr>status := x\<rparr>) = session_buffers t" for x by (simp add: session_buffers_def)
  note free_buffer_frees [of "t\<lparr>status := Closed\<rparr>" s] free_buffer_frees [of "t\<lparr>status := ClosedOppositeOpened\<rparr>" s]
    ack_sent_frees [of t s "seg_acknowledgement_number i"]
  then show ?thesis
    using assms by (auto simp: ipv4_tcp_ack_handler_def Let_def case_prod_unfold q split: TcpSessionStatus.splits if_splits)
qed

lemma fin_handler_frees:
  "ends (\<lambda>(_, t', s'). frees {} s s' \<and> session_buffers t' = session_buffers t) (\<lambda>(t', s', _). frees {} s s' \<and> session_buffers t' = session_buffers t)
     (ipv4_tcp_fin_handler send t i l v a s)"
  by (auto simp: ipv4_tcp_fin_handler_def Let_def session_buffers_def split: option.splits intro!: ends_mono [OF send_header_frees])

lemma drain_frees:
  "drain_received n k r bs s = (ok, r', bs', s') \<Longrightarrow> frees (rcv_base ` set bs) s s' \<and> set bs' \<subseteq> set bs"
proof (induction n k r bs s rule: drain_received.induct)
  case (1 n k r bs s)
  show ?case
  proof (cases "find (\<lambda>e. rcv_sequence_number e = k) bs")
    case None
    then show ?thesis using "1.prems" by (simp add: drain_received.simps [of n k r bs s])
  next
    case (Some e)
    have e: "e \<in> set bs" using Some by (metis find_Some_iff nth_mem)
    obtain w r1 m where w: "Ringbuffer_write r (memory s) (rcv_base e + rcv_payload_offset e) (rcv_payload_size e) = (w, r1, m)"
      by (metis prod_cases3)
    show ?thesis
    proof (cases "w < n")
      case True
      then show ?thesis using "1.prems" Some w by (auto simp: drain_received.simps [of n k r bs s])
    next
      case False
      let ?s = "free_memory (rcv_base e) (rcv_data_length e) (s\<lparr>memory := m\<rparr>)"
      have "drain_received n (k + ucast n) r1 (remove1 e bs) ?s = (ok, r', bs', s')"
        using "1.prems" Some w False by (simp add: drain_received.simps [of n k r bs s])
      then have i: "frees (rcv_base ` set (remove1 e bs)) ?s s' \<and> set bs' \<subseteq> set (remove1 e bs)"
        using "1.IH" [OF Some w [symmetric] refl False] by blast
      moreover have "frees (rcv_base ` set bs) s ?s" using e by (intro frees_free_memory) simp_all
      ultimately show ?thesis using set_remove1_subset [of e bs] by (meson frees_mono frees_trans image_mono subset_trans)
    qed
  qed
qed

text \<open>The buffer of the segment itself is taken over exactly when the flag is false.\<close>

definition takes_over :: "VAddress \<Rightarrow> MSize \<Rightarrow> TcpSessionInfo \<Rightarrow> TcpSessionInfo \<Rightarrow> bool \<Rightarrow> bool" where
  "takes_over base len t t' freed \<longleftrightarrow>
     (if freed then session_buffers t' \<subseteq> session_buffers t
      else \<exists>e. e \<in> set (receive_buffer_list t') \<and> rcv_base e = base \<and> rcv_data_length e = len)"

lemma session_buffers_received: "rcv_base ` set (receive_buffer_list t) \<subseteq> session_buffers t"
  by (simp add: session_buffers_def)

lemma session_buffers_update:
  "set bs \<subseteq> set (receive_buffer_list t) \<Longrightarrow> session_buffers (t\<lparr>receive_buffer_list := bs\<rparr>) \<subseteq> session_buffers t"
  "session_buffers (t\<lparr>expected_arrival_sequence_number := n\<rparr>) = session_buffers t"
  "session_buffers (t\<lparr>last_sent_acknowledge_number := n\<rparr>) = session_buffers t"
  by (auto simp: session_buffers_def)

lemma accept_data_frees:
  "ends (\<lambda>(_, t', _, s'). frees (session_buffers t) s s' \<and> session_buffers t' \<subseteq> session_buffers t)
     (\<lambda>(t', _, s', f). frees (session_buffers t) s s' \<and> takes_over base len t t' f) (accept_data t i r base len off n s)"
proof (cases "seg_sequence_number i = expected_arrival_sequence_number t")
  case True
  obtain w r1 m where w: "Ringbuffer_write r (memory s) (base + off) n = (w, r1, m)" by (metis prod_cases3)
  let ?r = "if receive_buffer_list t = [] then (True, r1, [], s\<lparr>memory := m\<rparr>)
    else drain_received n (seg_sequence_number i + ucast n) r1 (receive_buffer_list t) (s\<lparr>memory := m\<rparr>)"
  obtain ok r2 bs s2 where d: "?r = (ok, r2, bs, s2)" by (metis prod_cases4)
  have "frees (rcv_base ` set (receive_buffer_list t)) (s\<lparr>memory := m\<rparr>) s2 \<and> set bs \<subseteq> set (receive_buffer_list t)"
    using d by (cases "receive_buffer_list t = []") (auto dest: drain_frees)
  then have "frees (session_buffers t) s s2" "session_buffers (t\<lparr>receive_buffer_list := bs\<rparr>) \<subseteq> session_buffers t"
    using frees_mono [OF _ session_buffers_received] frees_trans [of _ s "s\<lparr>memory := m\<rparr>" s2] session_buffers_update(1) by auto
  then show ?thesis using True w d by (auto simp: accept_data_def takes_over_def session_buffers_update Let_def simp del: if_split_asm)
next
  case False
  then show ?thesis
    by (auto simp: accept_data_def takes_over_def
      intro!: exI [of _ "\<lparr>rcv_base = base, rcv_data_length = len, rcv_payload_offset = off, rcv_payload_size = n, rcv_sequence_number = seg_sequence_number i\<rparr>"])
qed

lemma data_handler_frees:
  "ends (\<lambda>(_, t', _, s'). frees (session_buffers t) s s' \<and> session_buffers t' \<subseteq> session_buffers t)
     (\<lambda>(t', _, s', f). frees (session_buffers t) s s' \<and> takes_over base len t t' f) (ipv4_tcp_data_handler send t i r base len off n l v s)"
proof -
  have h: "frees B s u \<Longrightarrow> ends E (frees B s) (ignore_error (send_ipv4_tcp_header send j f y k q a b l u))" for E B u j f y k q a b
    using send_header_frees [of u send j f y k q a b l]
    by (cases "send_ipv4_tcp_header send j f y k q a b l u") (auto intro: frees_trans [OF _ frees_mono [OF _ empty_subsetI]])
  have t: "takes_over base len t (t'\<lparr>last_sent_acknowledge_number := x\<rparr>) f = takes_over base len t t' f" for t' x f
    by (simp add: takes_over_def session_buffers_update)
  show ?thesis
    by (auto simp: ipv4_tcp_data_handler_def Let_def t intro!: ends_mono [OF accept_data_frees] intro: ends_mono [OF h])
qed

section \<open>Who holds memory\<close>

text \<open>The addresses of the buffers that the sessions of all sockets hold.\<close>

definition sessions :: "('c, 'f, 'd, 'z) sock \<Rightarrow> TcpSessionInfo set" where
  "sessions s = {t. \<exists>a so. sockets s a = Some so \<and> transport so = Tcp t}"

definition held :: "('c, 'f, 'd, 'z) sock \<Rightarrow> usize set" where
  "held s = \<Union> (session_buffers ` sessions s)"

definition holds :: "VAddress \<Rightarrow> MSize \<Rightarrow> ('c, 'f, 'd, 'z) sock \<Rightarrow> bool" where
  "holds base len s \<longleftrightarrow> (\<exists>t \<in> sessions s. \<exists>e \<in> set (receive_buffer_list t). rcv_base e = base \<and> rcv_data_length e = len)"

text \<open>\<open>quiet base s s'\<close>: between the states memory is given back, but not that at \<open>base\<close>, and no session holds it.\<close>

definition quiet :: "VAddress \<Rightarrow> ('c, 'f, 'd, 'z) sock \<Rightarrow> ('c, 'f, 'd, 'z) sock \<Rightarrow> bool" where
  "quiet base s s' \<longleftrightarrow> (\<exists>fs. kfreed s' = kfreed s @ fs \<and> base \<notin> fst ` set fs) \<and> base \<notin> held s'"

lemma held_session: "sockets s a = Some so \<Longrightarrow> transport so = Tcp t \<Longrightarrow> session_buffers t \<subseteq> held s"
  by (auto simp: held_def sessions_def)

lemma held_cong: "sockets s = sockets s' \<Longrightarrow> held s = held s'"
  by (simp add: held_def sessions_def)

lemma put_socket_simps [simp]:
  "sockets (put_socket a so s) = (sockets s)(a \<mapsto> so)" "kfreed (put_socket a so s) = kfreed s" "memory (put_socket a so s) = memory s"
  "outside (put_socket a so s) = outside s" "active_socket (put_socket a so s) = active_socket s" "listening_socket (put_socket a so s) = listening_socket s"
  "listening_socket_lock (put_socket a so s) = listening_socket_lock s" "ether (put_socket a so s) = ether s" "rx_entries (put_socket a so s) = rx_entries s"
  by (simp_all add: put_socket_def)

lemma frees_fields: "frees B s s' \<Longrightarrow> sockets s' = sockets s \<and> active_socket s' = active_socket s \<and> listening_socket s' = listening_socket s \<and> listening_socket_lock s' = listening_socket_lock s"
  by (cases s; cases s') (simp add: frees_def)

lemma keeps_fields:
  "keeps s s' \<Longrightarrow> sockets s' = sockets s \<and> kfreed s' = kfreed s \<and> memory s' = memory s \<and> outside s' = outside s \<and> ether s' = ether s \<and>
     rx_entries s' = rx_entries s \<and> active_socket s' = active_socket s \<and> listening_socket s' = listening_socket s \<and> listening_socket_lock s' = listening_socket_lock s"
  by (cases s; cases s') (simp add: keeps_def)

text \<open>Waking the threads of a socket changes its wait queue only.\<close>

definition woken_socket :: "usize \<Rightarrow> ('c, 'f, 'd, 'z) sock \<Rightarrow> ('c, 'f, 'd, 'z) sock \<Rightarrow> bool" where
  "woken_socket a s s' \<longleftrightarrow> (\<exists>so w. sockets s a = Some so \<and> sockets s' = (sockets s)(a \<mapsto> so\<lparr>wait_queue := w\<rparr>)) \<and> kfreed s' = kfreed s \<and> memory s' = memory s \<and>
     outside s' = outside s \<and> ether s' = ether s \<and> rx_entries s' = rx_entries s \<and>
     active_socket s' = active_socket s \<and> listening_socket s' = listening_socket s \<and> listening_socket_lock s' = listening_socket_lock s"

lemma wake_socket_frame: "ends E (woken_socket a s) (wake_socket c a s)"
proof (cases "sockets s a")
  case (Some so)
  have "keeps s u \<Longrightarrow> woken_socket a s (put_socket a (so\<lparr>wait_queue := w\<rparr>) u)" for u w
    using keeps_fields [of s u] Some by (auto simp: woken_socket_def)
  then show ?thesis
    using Some wakeup_all_frame [of s c "wait_queue so"]
    by (auto simp: wake_socket_def get_socket_def case_prod_unfold intro: ends_mono)
qed (simp add: wake_socket_def get_socket_def)

lemma sessions_put: "sessions (put_socket a so s) \<subseteq> sessions s \<union> {t. transport so = Tcp t}"
  by (auto simp: sessions_def split: if_splits)

lemma held_put:
  assumes "base \<notin> held s" and "\<And>t. transport so = Tcp t \<Longrightarrow> base \<notin> session_buffers t"
  shows "base \<notin> held (put_socket a so s)"
  using assms sessions_put [of a so s] by (auto simp: held_def)

lemma woken_sessions:
  fixes s :: "('c, 'f, 'd, 'z) sock"
  shows "woken_socket a s s' \<Longrightarrow> sessions s' = sessions s"
proof -
  assume "woken_socket a s s'"
  then obtain so w where "sockets s a = Some so" "sockets s' = (sockets s)(a \<mapsto> so\<lparr>wait_queue := w\<rparr>)" by (auto simp: woken_socket_def)
  then have "map_option transport (sockets s' b) = map_option transport (sockets s b)" for b by simp
  then have "(\<exists>b. map_option transport (sockets s' b) = Some (Tcp t)) = (\<exists>b. map_option transport (sockets s b) = Some (Tcp t))" for t by (simp only:)
  then show ?thesis by (simp add: sessions_def)
qed

lemma woken_held: "woken_socket a s s' \<Longrightarrow> held s' = held s \<and> holds base len s' = holds base len s"
  by (simp add: held_def holds_def woken_sessions)

lemma quiet_wake: "quiet base s u \<Longrightarrow> ends E (quiet base s) (wake_socket c a u)"
  by (rule ends_mono [OF wake_socket_frame]) (auto simp: quiet_def woken_held, auto simp: woken_socket_def)

lemma found_in_list:
  "ends E (\<lambda>r. \<forall>a. r = Some a \<longrightarrow> (\<exists>so. sockets s a = Some so \<and> judge so = Ok Take)) (search judge as s)"
    if "\<And>so. ends E (\<lambda>_. True) (judge so)"
proof (induction "as")
  case (Cons a as)
  show ?case
  proof (cases "sockets s a")
    case (Some so)
    then show ?thesis using that [of so] Cons.IH
      by (cases "judge so") (auto simp: get_socket_def split: verdict.splits)
  qed (simp add: get_socket_def)
qed simp

lemma judge_ends:
  "ends E (\<lambda>_. True) (judge_address no ours arrived)" "ends E (\<lambda>_. True) (judge_tcp_listening arrived i so)" "ends E (\<lambda>_. True) (judge_tcp ready arrived i so)"
  "ends E (\<lambda>_. True) (judge_udp arrived u so)" "ends E (\<lambda>_. True) (judge_udp_special arrived u so)"
  by (auto simp: judge_address_def judge_tcp_listening_def judge_tcp_def judge_udp_def judge_udp_special_def
      split: InternetType.splits TransportType.splits)

lemma hash_ends: "ends E (\<lambda>_. True) (calc_hash_number_of_list_tcp_udp v p q)"
  by (simp add: calc_hash_number_of_list_tcp_udp_def Let_def split: InternetType.splits)

lemma search_list_ends:
  "(\<And>so. ends E (\<lambda>_. True) (judge so)) \<Longrightarrow> ends E (\<lambda>r. \<forall>a. r = Some a \<longrightarrow> (\<exists>so. sockets s a = Some so \<and> judge so = Ok Take)) (search_list judge l s)"
  by (simp add: search_list_def found_in_list)

lemma quiet_refl: "base \<notin> held s \<Longrightarrow> quiet base s s"
  by (simp add: quiet_def)

text \<open>A session that is put back after its handler.\<close>

lemma quiet_session:
  assumes "base \<notin> held s" and "sockets s a = Some so" and "transport so = Tcp t" and "frees (session_buffers t) s s'"
    and "base \<notin> session_buffers t'" and "transport so' = Tcp t'"
  shows "quiet base s (put_socket a so' s')"
proof -
  obtain fs where fs: "kfreed s' = kfreed s @ fs" "fst ` set fs \<subseteq> session_buffers t" using assms(4) by (auto simp: frees_def)
  have "base \<notin> held s'" using assms(1) frees_fields [OF assms(4)] held_cong by metis
  then have "base \<notin> held (put_socket a so' s')" using assms(5,6) by (intro held_put) auto
  moreover have "base \<notin> fst ` set fs" using fs(2) assms(1) held_session [OF assms(2,3)] by auto
  ultimately show ?thesis using fs(1) by (simp add: quiet_def)
qed

lemma update_status_quiet:
  assumes "base \<notin> held s" and "\<And>t. ends (\<lambda>(_, t', s'). frees (session_buffers t) s s' \<and> session_buffers t' \<subseteq> session_buffers t)
      (\<lambda>(t', s', _). frees (session_buffers t) s s' \<and> session_buffers t' \<subseteq> session_buffers t) (f t s)"
  shows "ends (\<lambda>e. quiet base s (snd e)) (quiet base s) (tcp_update_status c v i f s)"
proof -
  have *: "quiet base s (put_socket a so' s')"
    if "sockets s a = Some so" "transport so = Tcp t" "frees (session_buffers t) s s'" "session_buffers t' \<subseteq> session_buffers t" "transport so' = Tcp t'" for a so so' t t' s'
    by (rule quiet_session [OF assms(1) that(1-3) _ that(5)]) (use that held_session [OF that(1,2)] assms(1) in auto)
  have "ends (\<lambda>e. quiet base s (snd e)) (\<lambda>s'. quiet base s s') (case f t s of
           Ok (t, s, active) \<Rightarrow> wake_socket c a (put_socket a (so\<lparr>transport := Tcp t, is_active := active\<rparr>) s)
         | Err (e, t, s) \<Rightarrow> obind (wake_socket c a (put_socket a (so\<lparr>transport := Tcp t\<rparr>) s)) (\<lambda>s. Err (e, s))
         | Panic \<Rightarrow> Panic
         | Diverge \<Rightarrow> Diverge)" if "sockets s a = Some so" "transport so = Tcp t" for a so t
    using * [OF that] by (auto simp: case_prod_unfold intro!: ends_mono [OF assms(2)] quiet_wake [THEN ends_mono])
  then show ?thesis
    using quiet_refl [OF assms(1)]
    by (auto simp: tcp_update_status_def lock_socket_def get_socket_def intro!: ends_mono [OF hash_ends] ends_mono [OF search_list_ends [OF judge_ends(3)]]
        split: option.splits TransportType.splits)
qed

lemma port_open_quiet:
  assumes "base \<notin> held s"
  shows "ends (\<lambda>e. quiet base s (snd e)) (quiet base s) (tcp_port_open_handler alloc_socket c l v i (syn_session seed i) s)"
proof -
  have n: "base \<notin> held (s\<lparr>outside := d\<rparr>)" for d using assms held_cong [of s "s\<lparr>outside := d\<rparr>"] by simp
  let ?s = "\<lambda>d a. put_socket a (child_socket l v (syn_session seed i)) (s\<lparr>outside := d\<rparr>)"
  have h: "base \<notin> held (?s d a)" for d a
    by (rule held_put [OF n]) (auto simp: child_socket_def syn_session_def session_buffers_def Let_def)
  have w: "quiet base s (put_socket e (so\<lparr>waiting_socket := w\<rparr>) (?s d a))" if "sockets (?s d a) e = Some so" for d a e so w
  proof -
    have "base \<notin> held (put_socket e (so\<lparr>waiting_socket := w\<rparr>) (?s d a))"
      using held_session [OF that] h [of a d] by (intro held_put [OF h]) auto
    then show ?thesis by (simp add: quiet_def)
  qed
  have st: "ends (\<lambda>e. quiet base s (snd e)) (quiet base s) (obind (lock_socket e (?s d a)) (\<lambda>so.
      wake_socket c e (put_socket e (so\<lparr>waiting_socket := waiting_socket so @ [a]\<rparr>) (?s d a))))" for d a e
    by (cases "sockets (?s d a) e") (auto simp: lock_socket_def get_socket_def simp del: put_socket_simps intro: w [THEN quiet_wake])
  have "quiet base s (s\<lparr>outside := d\<rparr>)" "quiet base s s" for d using n [of d] assms by (auto simp: quiet_def)
  then show ?thesis using st [unfolded ends_obind]
    by (auto simp: tcp_port_open_handler_def Let_def intro!: ends_mono [OF search_list_ends [OF judge_ends(2)]]
        split: option.splits prod.splits sum.splits)
qed

text \<open>What a handler of data makes of the buffer: the flag says that nobody has it.\<close>

definition disposed :: "VAddress \<Rightarrow> MSize \<Rightarrow> ('c, 'f, 'd, 'z) sock \<Rightarrow> bool \<times> ('c, 'f, 'd, 'z) sock \<Rightarrow> bool" where
  "disposed base len s r \<longleftrightarrow> (if fst r then quiet base s (snd r)
     else (\<exists>fs. kfreed (snd r) = kfreed s @ fs \<and> base \<notin> fst ` set fs) \<and> holds base len (snd r))"

lemma disposed_session:
  assumes "base \<notin> held s" and "sockets s a = Some so" and "transport so = Tcp t" and "frees (session_buffers t) s s'"
    and "takes_over base len t t' f" and "transport so' = Tcp t'"
  shows "disposed base len s (f, put_socket a so' s')"
proof (cases f)
  case True
  then show ?thesis
    using quiet_session [OF assms(1-4) _ assms(6)] assms(1,5) held_session [OF assms(2,3)] by (auto simp: disposed_def takes_over_def)
next
  case False
  obtain fs where fs: "kfreed s' = kfreed s @ fs" "fst ` set fs \<subseteq> session_buffers t" using assms(4) by (auto simp: frees_def)
  moreover have "base \<notin> fst ` set fs" using fs(2) assms(1) held_session [OF assms(2,3)] by auto
  moreover have "t' \<in> sessions (put_socket a so' s')" using assms(6) by (auto simp: sessions_def)
  then have "holds base len (put_socket a so' s')" using False assms(5) by (auto simp: holds_def takes_over_def)
  ultimately show ?thesis using False by (simp add: disposed_def)
qed

lemma disposed_wake: "disposed base len s (f, u) \<Longrightarrow> ends E (\<lambda>s'. disposed base len s (f, s')) (wake_socket c a u)"
  by (rule ends_mono [OF wake_socket_frame]) (auto simp: disposed_def quiet_def woken_held split: if_splits, auto simp: woken_socket_def)

lemma need_ring_frees:
  assumes "sockets s a = Some so"
  shows "ends (\<lambda>e. frees {} s (snd e)) (\<lambda>s'. \<exists>so'. sockets s' = (sockets s)(a \<mapsto> so') \<and> transport so' = transport so \<and> kfreed s' = kfreed s)
     (need_receive_ring alloc_memory a s)"
proof (cases "is_zero (get_buffer_size (receive_ring_buffer so))")
  case True
  then show ?thesis
    using assms by (auto simp: need_receive_ring_def get_socket_def get_memory_def set_new_buffer_def DEFAULT_BUFFER_SIZE_def is_power_of_two_def
      split: prod.splits sum.splits)
next
  case False
  have "sockets s = (sockets s)(a \<mapsto> so)" using assms by auto
  then show ?thesis using assms False by (auto simp: need_receive_ring_def get_socket_def)
qed

definition owned_once :: "VAddress \<Rightarrow> MSize \<Rightarrow> ('c, 'f, 'd, 'z) sock \<Rightarrow> ('c, 'f, 'd, 'z) sock \<Rightarrow> bool" where
  "owned_once base len s s' \<longleftrightarrow> (\<exists>fs. kfreed s' = kfreed s @ fs \<and>
     (filter (\<lambda>x. fst x = base) fs = [(base, len)] \<and> base \<notin> held s' \<or> filter (\<lambda>x. fst x = base) fs = [] \<and> holds base len s'))"

lemma quiet_owned: "quiet base s u \<Longrightarrow> owned_once base len s (free_memory base len u)"
proof (unfold quiet_def, elim conjE exE)
  fix fs assume "kfreed u = kfreed s @ fs" "base \<notin> fst ` set fs" "base \<notin> held u"
  moreover have "held (free_memory base len u) = held u" by (rule held_cong) (simp add: free_memory_def)
  moreover have "filter (\<lambda>x. fst x = base) fs = []" using calculation(2) by (auto simp: filter_empty_conv)
  ultimately show ?thesis unfolding owned_once_def by (intro exI [of _ "fs @ [(base, len)]"]) (simp add: free_memory_def)
qed

lemma disposed_owned: "disposed base len s (f, u) \<Longrightarrow> owned_once base len s (if f then free_memory base len u else u)"
proof (cases f)
  case False
  assume "disposed base len s (f, u)"
  then obtain fs where "kfreed u = kfreed s @ fs" "base \<notin> fst ` set fs" "holds base len u" using False by (auto simp: disposed_def)
  moreover have "filter (\<lambda>x. fst x = base) fs = []" using calculation(2) by (auto simp: filter_empty_conv)
  ultimately show ?thesis using False by (auto simp: owned_once_def)
qed (simp add: disposed_def quiet_owned)

text \<open>What a handler of data does with a session, its ring and the state.\<close>

definition handles_data ::
  "VAddress \<Rightarrow> MSize \<Rightarrow> (TcpSessionInfo \<Rightarrow> Ringbuffer \<Rightarrow> ('c, 'f, 'd, 'z) net \<Rightarrow>
    (NetworkError \<times> TcpSessionInfo \<times> Ringbuffer \<times> ('c, 'f, 'd, 'z) net, TcpSessionInfo \<times> Ringbuffer \<times> ('c, 'f, 'd, 'z) net \<times> bool) outcome) \<Rightarrow> bool" where
  "handles_data base len f \<longleftrightarrow> (\<forall>t r s. ends (\<lambda>(_, t', _, s'). frees (session_buffers t) s s' \<and> session_buffers t' \<subseteq> session_buffers t)
     (\<lambda>(t', _, s', b). frees (session_buffers t) s s' \<and> takes_over base len t t' b) (f t r s))"

lemma data_handled:
  assumes "base \<notin> held s" and "handles_data base len f" and "sockets s a = Some so" and "transport so = Tcp t"
  shows "ends (\<lambda>e. quiet base s (snd e)) (\<lambda>(x, s'). disposed base len s (x, s')) (case f t r s of
           Ok (t, r, s, x) \<Rightarrow> obind (wake_socket c a (put_socket a (so\<lparr>transport := Tcp t, receive_ring_buffer := r\<rparr>) s)) (\<lambda>s. Ok (x, s))
         | Err (e, t, r, s) \<Rightarrow> obind (wake_socket c a (put_socket a (so\<lparr>transport := Tcp t, receive_ring_buffer := r\<rparr>) s)) (\<lambda>s. Err (e, s))
         | Panic \<Rightarrow> Panic
         | Diverge \<Rightarrow> Diverge)"
proof -
  have "quiet base s (put_socket a so' s')" if "frees (session_buffers t) s s'" "session_buffers t' \<subseteq> session_buffers t" "transport so' = Tcp t'" for s' t' so'
    by (rule quiet_session [OF assms(1,3,4) that(1) _ that(3)]) (use that held_session [OF assms(3,4)] assms(1) in auto)
  note q = this [THEN quiet_wake]
  note d = disposed_session [OF assms(1,3,4), THEN disposed_wake]
  have "ends (\<lambda>(_, t', _, s'). frees (session_buffers t) s s' \<and> session_buffers t' \<subseteq> session_buffers t)
     (\<lambda>(t', _, s', b). frees (session_buffers t) s s' \<and> takes_over base len t t' b) (f t r s)"
    using assms(2) by (simp add: handles_data_def)
  then show ?thesis by (auto simp: case_prod_unfold elim!: ends_mono intro: q d)
qed

lemma same_sessions_transport:
  assumes "sockets s a = Some so" and "sockets u = (sockets s)(a \<mapsto> so')" and "transport so' = transport so"
  shows "held u = held s"
proof -
  have "map_option transport (sockets u b) = map_option transport (sockets s b)" for b using assms by simp
  then have "(\<exists>b. map_option transport (sockets u b) = Some (Tcp t)) = (\<exists>b. map_option transport (sockets s b) = Some (Tcp t))" for t by (simp only:)
  then show ?thesis by (simp add: held_def sessions_def)
qed

lemma quiet_frees: "frees {} s u \<Longrightarrow> base \<notin> held s \<Longrightarrow> quiet base s u"
  using frees_fields [of "{}" s u] held_cong [of s u] by (auto simp: quiet_def frees_def)

lemma data_receive_disposed:
  fixes s :: "('c, 'f, 'd, 'z) sock"
  assumes "base \<notin> held s" and "handles_data base len f"
  shows "ends (\<lambda>e. quiet base s (snd e)) (disposed base len s) (tcp_data_receive_handler alloc_memory c v i f s)"
proof -
  let ?rest = "\<lambda>a u. obind (get_socket a u) (\<lambda>so.
         obind (case transport so of Tcp t \<Rightarrow> Ok t | Udp _ \<Rightarrow> Panic) (\<lambda>t.
         case f t (receive_ring_buffer so) u of
           Ok (t, r, s, x) \<Rightarrow> obind (wake_socket c a (put_socket a (so\<lparr>transport := Tcp t, receive_ring_buffer := r\<rparr>) s)) (\<lambda>s. Ok (x, s))
         | Err (e, t, r, s) \<Rightarrow> obind (wake_socket c a (put_socket a (so\<lparr>transport := Tcp t, receive_ring_buffer := r\<rparr>) s)) (\<lambda>s. Err (e, s))
         | Panic \<Rightarrow> Panic
         | Diverge \<Rightarrow> Diverge))"
  have rest: "ends (\<lambda>e. quiet base s (snd e)) (disposed base len s) (?rest a u)"
    if "held u = held s" "kfreed u = kfreed s" for a u
  proof (cases "sockets u a")
    case (Some so)
    have "quiet base u = quiet base s" "disposed base len u = disposed base len s"
      using that(2) by (auto simp: fun_eq_iff quiet_def disposed_def)
    then show ?thesis using data_handled [OF _ assms(2) Some, of _ c] that assms(1) Some
      by (cases "transport so") (simp_all add: get_socket_def case_prod_unfold del: ends_case)
  qed (simp add: get_socket_def)
  have "ends (\<lambda>e. quiet base s (snd e)) (disposed base len s) (obind (need_receive_ring alloc_memory a s) (?rest a))"
    if "sockets s a = Some so" for a so
  proof (unfold ends_obind [of _ _ "need_receive_ring alloc_memory a s"], rule ends_mono [OF need_ring_frees [OF that]])
    show "quiet base s (snd e)" if "frees {} s (snd e)" for e :: "NetworkError \<times> _" using that assms(1) by (rule quiet_frees)
  next
    fix u :: "('c, 'f, 'd, 'z) sock"
    assume "\<exists>so'. sockets u = (sockets s)(a \<mapsto> so') \<and> transport so' = transport so \<and> kfreed u = kfreed s"
    then show "ends (\<lambda>e. quiet base s (snd e)) (disposed base len s) (?rest a u)"
      using same_sessions_transport [OF that] by (elim exE conjE) (rule rest, blast+)
  qed
  note found = this [unfolded ends_obind]
  show ?thesis
    using quiet_refl [OF assms(1)] found
    by (auto simp: tcp_data_receive_handler_def lock_socket_def get_socket_def
        intro!: ends_mono [OF hash_ends] ends_mono [OF search_list_ends [OF judge_ends(3)]] split: option.splits)
qed

lemma data_branch_owned:
  fixes s :: "('c, 'f, 'd, 'z) sock"
  assumes "base \<notin> held s"
  shows "ends E (owned_once base len s) (tcp_data_branch send alloc_memory c h base len off n l v s)"
proof -
  let ?i = "tcp_segment_info h"
  let ?f = "\<lambda>t r (s :: ('c, 'f, 'd, 'z) sock). let (t, s) = (if is_ack_active h then (case ipv4_tcp_ack_handler t ?i s of (t, s, _) \<Rightarrow> (t, s)) else (t, s))
      in ipv4_tcp_data_handler send t ?i r base len (off + Tcp_get_header_length h) (n - Tcp_get_header_length h) l v s"
  have "handles_data base len ?f"
    unfolding handles_data_def
  proof (intro allI)
    fix t r and u :: "('c, 'f, 'd, 'z) sock"
    obtain t1 s1 where a: "(if is_ack_active h then (case ipv4_tcp_ack_handler t ?i u of (t, s, _) \<Rightarrow> (t, s)) else (t, u)) = (t1, s1)" by fastforce
    then have k: "frees (session_buffers t) u s1" "session_buffers t1 \<subseteq> session_buffers t"
      using ack_handler_frees [of t ?i u] by (auto split: if_splits prod.splits)
    have "takes_over base len t1 t' b \<Longrightarrow> takes_over base len t t' b" for t' b using k(2) by (auto simp: takes_over_def split: if_splits)
    moreover have "frees (session_buffers t1) s1 s' \<Longrightarrow> frees (session_buffers t) u s'" for s'
      using k by (blast intro: frees_trans frees_mono)
    ultimately show "ends (\<lambda>(_, t', _, s'). frees (session_buffers t) u s' \<and> session_buffers t' \<subseteq> session_buffers t)
        (\<lambda>(t', _, s', b). frees (session_buffers t) u s' \<and> takes_over base len t t' b) (?f t r u)"
      unfolding a Let_def using k(2) by (auto intro!: ends_mono [OF data_handler_frees])
  qed
  note r = data_receive_disposed [OF assms this, of alloc_memory c "Ipv4 v" ?i]
  show ?thesis
    unfolding tcp_data_branch_def Let_def ends_case
    by (rule ends_mono [OF r [unfolded Let_def]]) (auto intro: quiet_owned dest: disposed_owned)
qed

lemma udp_socket_owned:
  assumes "base \<notin> held s"
  shows "ends E (owned_once base len s) (udp_socket_handler alloc_memory c a i base len off s)"
proof (cases "sockets s a")
  case (Some so)
  let ?rest = "\<lambda>u. obind (get_socket a u) (\<lambda>so.
         let (written_size, r, m) = Ringbuffer_write (receive_ring_buffer so) (memory u) (base + off) (udp_payload_size i);
             u = (put_socket a (so\<lparr>receive_ring_buffer := r\<rparr>) u)\<lparr>memory := m\<rparr>
         in obind (wake_socket c a u) (\<lambda>s. Ok (free_memory base len s)))"
  have q: "quiet base s ((put_socket a (so2\<lparr>receive_ring_buffer := r\<rparr>) u)\<lparr>memory := m\<rparr>)"
    if u: "sockets u = (sockets s)(a \<mapsto> so1)" "transport so1 = transport so" "kfreed u = kfreed s" and s2: "sockets u a = Some so2" for u so1 so2 r m
  proof -
    let ?u = "(put_socket a (so2\<lparr>receive_ring_buffer := r\<rparr>) u)\<lparr>memory := m\<rparr>"
    have "sockets ?u = (sockets s)(a \<mapsto> so2\<lparr>receive_ring_buffer := r\<rparr>)" "transport (so2\<lparr>receive_ring_buffer := r\<rparr>) = transport so"
      using u s2 by simp_all
    then show ?thesis using same_sessions_transport [OF Some, of ?u] assms u(3) by (simp add: quiet_def)
  qed
  have "ends E (owned_once base len s) (?rest u)"
    if "sockets u = (sockets s)(a \<mapsto> so1)" "transport so1 = transport so" "kfreed u = kfreed s" for u so1
    using that(1) by (auto simp: get_socket_def case_prod_unfold Let_def intro!: quiet_wake [THEN ends_mono] q [OF that] intro: quiet_owned)
  then have "ends (\<lambda>e. ends E (owned_once base len s) (Ok (free_memory base len (snd e)))) (\<lambda>u. ends E (owned_once base len s) (?rest u)) (need_receive_ring alloc_memory a s)"
    using quiet_frees [of s _ base] assms by (auto intro!: ends_mono [OF need_ring_frees [OF Some]] quiet_owned)
  then show ?thesis using Some
    by (cases "need_receive_ring alloc_memory a s") (auto simp: udp_socket_handler_def lock_socket_def get_socket_def simp del: ends_obind)
qed (simp add: udp_socket_handler_def lock_socket_def get_socket_def)

lemma search_all_ends:
  assumes "\<And>so. ends E (\<lambda>_. True) (judge so)"
  shows "ends E (\<lambda>_. True) (search_all judge ls s)"
  by (induction ls) (auto intro!: ends_mono [OF search_list_ends [OF assms]] split: option.splits)

lemma udp_segment_owned:
  assumes "base \<notin> held s"
  shows "ends E (owned_once base len s) (udp_segment_handler alloc_memory c v i base len off s)"
  unfolding udp_segment_handler_def Let_def
  using quiet_owned [OF quiet_refl [OF assms], of len] udp_socket_owned [OF assms]
  by (auto intro!: ends_mono [OF hash_ends] ends_mono [OF search_list_ends [OF judge_ends(4)]] ends_mono [OF search_all_ends [OF judge_ends(5)]] split: option.splits)

lemma finish_owned:
  assumes "ends (\<lambda>e. quiet base s (snd e)) (quiet base s) r"
  shows "ends E (owned_once base len s) (obind (ignore_error r) (\<lambda>s. Ok (free_memory base len s)))"
  using assms by (cases r) (auto intro: quiet_owned)

lemma tcp_segment_owned:
  assumes "base \<notin> held s"
  shows "ends E (owned_once base len s) (tcp_ipv4_segment_handler send alloc_memory alloc_socket seed c base len off n l v s)"
proof -
  have f: "ends (\<lambda>(_, t', s'). frees (session_buffers t) s s' \<and> session_buffers t' \<subseteq> session_buffers t)
      (\<lambda>(t', s', _). frees (session_buffers t) s s' \<and> session_buffers t' \<subseteq> session_buffers t) (ipv4_tcp_fin_handler send t i l v a s)" for t i a
    by (rule ends_mono [OF fin_handler_frees]) (auto intro: frees_mono)
  have k: "ends (\<lambda>(_, t', s'). frees (session_buffers t) s s' \<and> session_buffers t' \<subseteq> session_buffers t)
      (\<lambda>(t', s', _). frees (session_buffers t) s s' \<and> session_buffers t' \<subseteq> session_buffers t) (Ok (ipv4_tcp_ack_handler t i s))" for t i
    using ack_handler_frees [of t i s] by (auto split: prod.splits)
  have f2: "ends E (owned_once base len s) (obind (ignore_error (tcp_update_status c x i (\<lambda>t s. ipv4_tcp_fin_handler send t i l v a s) s)) (\<lambda>s. Ok (free_memory base len s)))" for x i a
    by (rule finish_owned, rule update_status_quiet [OF assms]) (rule f)
  have k2: "ends E (owned_once base len s) (obind (ignore_error (tcp_update_status c x i (\<lambda>t s. Ok (ipv4_tcp_ack_handler t i s)) s)) (\<lambda>s. Ok (free_memory base len s)))" for x i
    by (rule finish_owned, rule update_status_quiet [OF assms]) (rule k)
  have p2: "ends E (owned_once base len s) (obind (ignore_error (tcp_port_open_handler alloc_socket c l x i (syn_session seed i) s)) (\<lambda>s. Ok (free_memory base len s)))" for x i
    by (rule finish_owned, rule port_open_quiet [OF assms])
  have d2: "ends E (owned_once base len s) (tcp_data_branch send alloc_memory c h base len off n l v s)" for h by (rule data_branch_owned [OF assms])
  show ?thesis
    unfolding tcp_ipv4_segment_handler_def Let_def
    by (simp del: ends_obind add: p2 d2 f2 k2 quiet_owned [OF quiet_refl [OF assms], of len])
qed

lemma packet_owned:
  "base \<notin> held s \<Longrightarrow> ends E (owned_once base len s) (ipv4_packet_input send alloc_memory alloc_socket seed c base len off l s)"
  using quiet_owned [OF quiet_refl, of base s len] tcp_segment_owned udp_segment_owned
  by (auto simp: ipv4_packet_input_def udp_segment_input_def split: ip_result.splits udp_result.splits)

text \<open>
  Property C36. The memory of a received frame has one owner in the end. When the worker has finished with a frame whose buffer no session
  holds yet, either the buffer has been given back exactly once, with its length, and no session holds it, or it has not been given back and
  a session holds it until the missing segments arrive.
\<close>

theorem received_frame_owned_once:
  assumes "rx_entries s d = Some rx" and "rx_buffer rx \<noteq> d" and "rx_buffer rx \<notin> held s"
    and "frame_worker send alloc_memory alloc_socket seed c d s = Ok s'"
  shows "\<exists>fs. kfreed s' = kfreed s @ fs \<and>
     (filter (\<lambda>x. fst x = rx_buffer rx) fs = [(rx_buffer rx, rx_length rx)] \<and> rx_buffer rx \<notin> held s' \<or>
      filter (\<lambda>x. fst x = rx_buffer rx) fs = [] \<and> holds (rx_buffer rx) (rx_length rx) s')"
proof -
  let ?s = "free_memory d size_of_RxEntry (s\<lparr>rx_entries := (rx_entries s)(d := None)\<rparr>)"
  have h: "rx_buffer rx \<notin> held ?s" using assms(3) held_cong [of s ?s] by (simp add: free_memory_def)
  have "owned_once (rx_buffer rx) (rx_length rx) ?s s'"
    using assms(1,4) endsD(1) [OF packet_owned [OF h]] quiet_owned [OF quiet_refl [OF h]]
    by (auto simp: frame_worker_def Let_def split: if_splits)
  then obtain fs where fs: "kfreed s' = kfreed ?s @ fs"
    "filter (\<lambda>x. fst x = rx_buffer rx) fs = [(rx_buffer rx, rx_length rx)] \<and> rx_buffer rx \<notin> held s' \<or>
      filter (\<lambda>x. fst x = rx_buffer rx) fs = [] \<and> holds (rx_buffer rx) (rx_length rx) s'"
    by (auto simp: owned_once_def)
  then show ?thesis using assms(2) by (intro exI [of _ "(d, size_of_RxEntry) # fs"]) (simp add: free_memory_def)
qed

text \<open>A frame that waits for the worker, in a system without sockets.\<close>

definition example_network :: "(nat, nat, (MacAddress \<times> u8 list) list) network" where
  "example_network = ethernet.extend example_ethernet
     \<lparr>sockets = Map.empty, listening_socket_lock = False, listening_socket = [], active_socket = replicate 16 (False, [])\<rparr>"

definition example_rx :: RxEntry where
  "example_rx = \<lparr>rx_buffer = 0x700000, rx_length = 60, rx_device_id = 0\<rparr>"

theorem received_frame_owned_once_witness:
  "\<exists>s'. frame_worker example_driver example_memory (\<lambda>d. (d, Inr 0x900000)) 0 0 0x600000 (example_network\<lparr>rx_entries := [0x600000 \<mapsto> example_rx]\<rparr>) = (Ok s' :: (unit, _) outcome) \<and>
     kfreed s' = [(0x600000, 24), (0x700000, 60)]"
proof -
  let ?s = "example_network\<lparr>rx_entries := [0x600000 \<mapsto> example_rx]\<rparr>"
  have m: "memory ?s = (\<lambda>_. 0)" "kfreed ?s = []" "sockets ?s = Map.empty"
    by (simp_all add: example_network_def example_ethernet_def ethernet.extend_def timers.extend_def)
  have h: "held ?s = {}" using m(3) by (simp add: held_def sessions_def)
  have "frame_type (frame_info_of example_rx (\<lambda>_. 0)) \<noteq> ETHERNET_TYPE_IPV4"
    by (simp add: frame_info_of_def ETHERNET_TYPE_IPV4_def from_be_bytes16_def)
  then obtain s' where w: "frame_worker example_driver example_memory (\<lambda>d. (d, Inr 0x900000)) 0 0 0x600000 ?s = (Ok s' :: (unit, _) outcome)"
    "kfreed s' = [(0x600000, 24), (0x700000, 60)]"
    using m by (simp add: frame_worker_def free_memory_def size_of_RxEntry_def example_rx_def)
  have "rx_entries ?s 0x600000 = Some example_rx" "rx_buffer example_rx \<noteq> 0x600000" "rx_buffer example_rx \<notin> held ?s"
    using h by (simp_all add: example_rx_def)
  from received_frame_owned_once [OF this w(1)] w show ?thesis by blast
qed

end
