(* ===== verification/Socket_Delivery.thy ===== *)
theory Socket_Delivery
  imports Network_Input
begin

text \<open>
  What the socket manager promises to its users, over the definitions of the socket manager and of the dispatch of received segments:
  which socket a segment finds, how a connection is opened, what a datagram carries and what is read after it has arrived,
  and what becomes of a socket that is closed.
\<close>

declare push_bit_of_1 [simp del] bit_numeral_word_iff [simp del]

section \<open>Searching\<close>

text \<open>The first socket of a list that is not skipped decides.\<close>

lemma search_skips:
  assumes "\<forall>b \<in> set as. \<exists>so. sockets s b = Some so \<and> judge so = Ok Skip"
  shows "search judge (as @ bs) s = search judge bs s"
  using assms by (induction as) (auto simp: get_socket_def)

lemma search_takes: "sockets s a = Some so \<Longrightarrow> judge so = Ok Take \<Longrightarrow> search judge (a # bs) s = Ok (Some a)"
  by (simp add: get_socket_def)

lemma search_stops: "sockets s a = Some so \<Longrightarrow> judge so = Ok Stop \<Longrightarrow> search judge (a # bs) s = Ok None"
  by (simp add: get_socket_def)

lemma search_freed: "sockets s a = None \<Longrightarrow> search judge (a # bs) s = Diverge"
  by (simp add: get_socket_def)

section \<open>Closing a listening socket\<close>

text \<open>
  Property C38. A closed listening socket is used after it has been freed. Closing a listening socket without waiting connections succeeds and gives its memory back, but it stays in the
  list of listening sockets; every SYN that comes to it in the list, for whatever port and address, reads the freed memory.
\<close>

theorem closed_listener_still_searched:
  assumes "sockets s a = Some so" and "\<not> socket_lock so" and "transport so = Tcp t" and "status t = Listening" and "waiting_socket so = []"
    and "listening_socket s = a # bs" and "\<not> listening_socket_lock s"
  shows "\<exists>s'. close_socket (Suc (Suc k)) send fn c a s = Ok s' \<and> sockets s' a = None \<and> listening_socket s' = listening_socket s \<and>
     tcp_port_open_handler alloc_socket c' l v i t' s' = Diverge"
proof -
  let ?r = "free_ring (receive_ring_buffer so) s"
  let ?w = "free_ring (send_ring_buffer so) (snd ?r)"
  have f: "sockets (snd (free_ring r u)) = sockets u" "listening_socket (snd (free_ring r u)) = listening_socket u"
    "listening_socket_lock (snd (free_ring r u)) = listening_socket_lock u" for r and u :: "('a, 'b, 'c, 'd) sock"
    by (simp_all add: free_ring_def free_memory_def)
  let ?so = "so\<lparr>receive_ring_buffer := fst ?r, send_ring_buffer := fst ?w, transport := Tcp t, is_active := False\<rparr>"
  have "close_transport send (so\<lparr>receive_ring_buffer := fst ?r, send_ring_buffer := fst ?w\<rparr>) (snd ?w) = Ok (?so, snd ?w)"
    using assms(3,4) by (simp add: close_transport_def close_tcp_session_def)
  then obtain s' where s': "close_socket (Suc (Suc k)) send fn c a s = Ok s'" "sockets s' = (sockets s)(a := None)"
    "listening_socket s' = listening_socket s" "listening_socket_lock s' = listening_socket_lock s"
    using assms(1,2,5) f by (simp add: lock_socket_def get_socket_def case_prod_unfold retire_socket_def kfree_socket_def Let_def)
  then show ?thesis using assms(6,7) by (simp add: tcp_port_open_handler_def search_list_def get_socket_def)
qed

section \<open>Finding a listening socket\<close>

text \<open>
  Property C39. A listening socket can hide another one. Two sockets listen on the same port, the first one for another local address than that of the SYN, the second one for all addresses. The search
  leaves the list at the first one: the SYN is refused although the second socket alone would take it.
\<close>

theorem listener_hidden_by_other_address:
  fixes s :: "('c, 'f, 'd, 'z) sock"
  assumes "listening_socket s = a # b # bs" and "\<not> listening_socket_lock s"
    and "sockets s a = Some sa" and "is_active sa" and "transport sa = Tcp ta" and "status ta = Listening" and "our_port ta = seg_destination_port i" and "their_port ta = TCP_PORT_ANY"
    and "internet sa = Ipv4 va" and "destination_address va \<noteq> IPV4_ADDRESS_ANY" and "destination_address va \<noteq> destination_address v" and "destination_address v \<noteq> IPV4_BROAD_CAST"
    and "sockets s b = Some sb" and "is_active sb" and "transport sb = Tcp tb" and "status tb = Listening" and "our_port tb = seg_destination_port i" and "their_port tb = TCP_PORT_ANY"
    and "internet sb = Ipv4 \<lparr>sender_address = IPV4_ADDRESS_ANY, destination_address = IPV4_ADDRESS_ANY\<rparr>"
  shows "tcp_port_open_handler alloc_socket c l (Ipv4 v) i t s = Err (NetworkInvalidAddress, s) \<and>
     tcp_port_open_handler alloc_socket c l (Ipv4 v) i t (s\<lparr>listening_socket := b # bs\<rparr>) \<noteq> Err (NetworkInvalidAddress, s')"
proof -
  let ?s = "s\<lparr>listening_socket := b # bs\<rparr>"
  have "search (judge_tcp_listening (Ipv4 v) i) (listening_socket s) s = (Ok None :: (NetworkError \<times> ('c, 'f, 'd, 'z) sock, _) outcome)"
    unfolding assms(1) by (rule search_stops [OF assms(3)]) (use assms in \<open>simp add: judge_tcp_listening_def judge_address_def\<close>)
  moreover have "search (judge_tcp_listening (Ipv4 v) i) (b # bs) ?s = (Ok (Some b) :: (NetworkError \<times> ('c, 'f, 'd, 'z) sock, _) outcome)"
    by (rule search_takes [of _ b sb]) (use assms in \<open>simp_all add: judge_tcp_listening_def judge_address_def\<close>)
  moreover have "wake_socket c e u \<noteq> Err (NetworkInvalidAddress, s')" for e and u :: "('c, 'f, 'd, 'z) sock"
    using endsD(2) [OF wake_socket_frame [of "\<lambda>_ :: NetworkError \<times> ('c, 'f, 'd, 'z) sock. False" e u c]] by blast
  ultimately show ?thesis
    using assms(2) by (auto simp: tcp_port_open_handler_def search_list_def lock_socket_def get_socket_def obind_eq_Err_iff Let_def simp del: search.simps
      split: prod.splits sum.splits option.splits if_splits)
qed

text \<open>Two listening sockets for port 80, at \<open>0xa00\<close> for the address 10.0.0.3 and at \<open>0xb00\<close> for all addresses.\<close>

definition listening :: "u32 \<Rightarrow> Socket" where
  "listening address =
     \<lparr>socket_lock = False, is_active = True, link = NoLink, internet = Ipv4 \<lparr>sender_address = 0, destination_address = address\<rparr>,
      transport = Tcp ((TcpSessionInfo_new 80 0)\<lparr>status := Listening\<rparr>), wait_queue = WaitQueue_new, send_ring_buffer = Ringbuffer_new,
      receive_ring_buffer = Ringbuffer_new, waiting_socket = []\<rparr>"

definition example_listeners :: "(nat, nat, (MacAddress \<times> u8 list) list) network" where
  "example_listeners = example_network\<lparr>sockets := [0xa00 \<mapsto> listening 0x0a000003, 0xb00 \<mapsto> listening 0], listening_socket := [0xa00, 0xb00]\<rparr>"

definition example_syn :: TcpSegmentInfo where
  "example_syn = \<lparr>seg_sender_port = 5000, seg_destination_port = 80, seg_sequence_number = 100, seg_acknowledgement_number = 0, seg_window_size = 1000\<rparr>"

lemma example_listeners_simps:
  "sockets example_listeners 0xa00 = Some (listening 0x0a000003)" "sockets example_listeners 0xb00 = Some (listening 0)"
  "listening_socket example_listeners = [0xa00, 0xb00]" "\<not> listening_socket_lock example_listeners"
  by (simp_all add: example_listeners_def example_network_def ethernet.extend_def)

lemma listening_simps:
  "\<not> socket_lock (listening x)" "is_active (listening x)" "transport (listening x) = Tcp ((TcpSessionInfo_new 80 0)\<lparr>status := Listening\<rparr>)"
  "internet (listening x) = Ipv4 \<lparr>sender_address = 0, destination_address = x\<rparr>" "waiting_socket (listening x) = []" "wait_queue (listening x) = WaitQueue_new"
  by (simp_all add: listening_def)

theorem closed_listener_still_searched_witness:
  "\<exists>s'. close_socket 2 example_driver 0 0 0xa00 example_listeners = Ok s' \<and> listening_socket s' = [0xa00, 0xb00] \<and>
     tcp_port_open_handler (\<lambda>d. (d, Inr 0x900000)) 0 NoLink (Ipv4 example_addresses) example_syn (syn_session 0 example_syn) s' = Diverge"
proof -
  have st: "status ((TcpSessionInfo_new 80 0)\<lparr>status := Listening\<rparr>) = Listening" by simp
  show ?thesis
    using closed_listener_still_searched [OF example_listeners_simps(1) listening_simps(1) listening_simps(3) st listening_simps(5) example_listeners_simps(3,4),
        of 0 example_driver 0 0 "\<lambda>d. (d, Inr 0x900000)" 0 NoLink "Ipv4 example_addresses" example_syn "syn_session 0 example_syn"] example_listeners_simps(3)
    by (auto simp: numeral_2_eq_2 simp del: close_socket.simps)
qed

theorem listener_hidden_by_other_address_witness:
  "tcp_port_open_handler (\<lambda>d. (d, Inr 0x900000)) 0 NoLink (Ipv4 example_addresses) example_syn (syn_session 0 example_syn) example_listeners =
     Err (NetworkInvalidAddress, example_listeners)"
proof -
  note * = listener_hidden_by_other_address [OF example_listeners_simps(3,4,1) listening_simps(2,3) _ _ _ listening_simps(4) _ _ _ example_listeners_simps(2) listening_simps(2,3), where i = example_syn and v = example_addresses]
  show ?thesis
    by (rule * [THEN conjunct1])
      (simp_all add: TcpSessionInfo_new_def example_syn_def TCP_PORT_ANY_def IPV4_ADDRESS_ANY_def IPV4_BROAD_CAST_def example_addresses_def listening_simps)
qed

section \<open>Datagrams\<close>

text \<open>
  Property C40. A datagram that a socket sends carries the port of the peer as its source port. What \<open>send_socket\<close> puts on the wire has the bytes of the
  caller behind the headers, but both ports of the header are the port of the peer, whatever port the socket is bound to, so
  that an answer does not come back to it.
\<close>

theorem udp_source_port_is_peer_port:
  fixes s :: "('c, 'f, 'd, 'z) sock"
  assumes "records send alloc_memory wire" and "device_addresses_ok s" and "sockets s a = Some so" and "transport so = Udp u"
    and "internet so = Ipv4 v" and "link so = Link_Ethernet e" and "length (sender_mac_address e) = 6" and "unat n \<le> 65507"
    and "send_socket send alloc_memory clone_pages c a buf n s = Ok (p, s')"
  shows "\<exists>f. wire (outside s') = wire (outside s) @ [f] \<and> drop 42 f = read_bytes (memory s) buf (unat n) \<and>
     Udp_get_destination_port (drop 34 f) = udp_sender_port u \<and> Udp_get_sender_port (drop 34 f) = udp_sender_port u"
proof -
  let ?d = "read_bytes (memory s) buf (unat n)" and ?p = "udp_sender_port u"
  let ?m = "get_memory alloc_memory (UDP_HEADER_SIZE + IPV4_DEFAULT_HEADER_SIZE + n) s"
  have "send_udp send alloc_memory so u v buf n s = Ok (p, s')"
    using assms(3,4,5,9) by (auto simp: send_socket_def lock_socket_def get_socket_def split: if_splits)
  then obtain b h u1 where h: "create_ipv4_udp_header ?d ?p (destination_address v) ?p (sender_address v) 0 = Inr h"
    and r: "reply_data send e (h @ ?d) (fst ?m) = Ok u1" and s': "s' = free_memory b (UDP_HEADER_SIZE + IPV4_DEFAULT_HEADER_SIZE + n) u1"
    using assms(6) by (auto simp: send_udp_def Let_def split: prod.splits sum.splits outcome.splits)
  have l: "length ?d \<le> 65507" using assms(8) by simp
  have pk: "length h = 28" "Udp_get_sender_port (drop 20 h) = ?p" "Udp_get_destination_port (drop 20 h) = ?p"
    using udp_packet_accepted(3,5,6) [OF l _ h, of "[]" "[]"] l by simp_all
  have m: "wire (outside (fst ?m)) = wire (outside s)" "device_addresses_ok (fst ?m)"
    using assms(1,2) by (simp_all add: get_memory_def case_prod_unfold records_def device_addresses_ok_def Let_def)
  have "length (h @ ?d) < 2 ^ 32" using l pk(1) by simp
  then obtain f where f: "wire (outside u1) = wire (outside s) @ [f]" "drop 14 f = h @ ?d"
    using send_data_wire(1) [OF assms(1) m(2) assms(7)] r m(1) unfolding reply_data_def by metis
  have "drop 34 f = drop 20 (h @ ?d)" "drop 42 f = drop 28 (h @ ?d)" unfolding f(2) [symmetric] by simp_all
  then have "drop 42 f = ?d" "Udp_get_sender_port (drop 34 f) = ?p" "Udp_get_destination_port (drop 34 f) = ?p"
    using pk by (simp_all add: Udp_get_sender_port_def Udp_get_destination_port_def get_append)
  then show ?thesis using f(1) s' by (simp add: free_memory_def)
qed

lemma example_network_simps:
  "ether example_network = ether example_ethernet" "outside example_network = []" "memory example_network = (\<lambda>_. 0)" "kfreed example_network = []"
  "active_socket example_network = replicate 16 (False, [])"
  by (simp_all add: example_network_def example_ethernet_def ethernet.extend_def timers.extend_def)

lemma example_network_reply:
  fixes s :: "(nat, nat, (MacAddress \<times> u8 list) list, 'z) sock"
  assumes "ether s = ether example_ethernet" and "length d \<le> 1500"
  shows "\<exists>s'. reply_data example_driver example_frame d s = Ok s'"
proof -
  let ?ds = "\<lambda>t m. outside s @ [(mac_address example_device, read_bytes m (fst (tx_buffer t)) (unat (tx_length t)))]"
  have drv: "example_driver (outside s) (driver example_device) (mac_address example_device) t m = (?ds t m, Inr (tx_length t))" for t m
    by (simp add: example_driver_def)
  note e = example_ether [folded assms(1)]
  show ?thesis
    using send_data_sends [where send = example_driver and ds = ?ds and n = "\<lambda>t m. tx_length t", OF e(1-5) assms(2) e(8,7) drv, of "frame_type example_frame"]
    by (simp add: reply_data_def example_frame_def)
qed

text \<open>A datagram socket of port 68 whose peer has the port 67.\<close>

definition datagram_socket :: Socket where
  "datagram_socket =
     \<lparr>socket_lock = False, is_active = True, link = Link_Ethernet example_frame, internet = Ipv4 example_addresses,
      transport = Udp (UdpConnectionInfo_new 68 67), wait_queue = WaitQueue_new, send_ring_buffer = Ringbuffer_new,
      receive_ring_buffer = \<lparr>ring_buffer = 0x800000, ring_size = 4096, write_ptr = 0, read_ptr = 4095\<rparr>, waiting_socket = []\<rparr>"

theorem udp_source_port_is_peer_port_witness:
  "\<exists>s' f. send_socket example_driver example_memory (\<lambda>_. False) 0 0xa00 0x3000 4 (put_socket 0xa00 datagram_socket example_network) = Ok (Sent 4, s') \<and>
     map snd (outside s') = [f] \<and> Udp_get_sender_port (drop 34 f) = 67 \<and> drop 42 f = [0, 0, 0, 0]"
proof -
  let ?s = "put_socket 0xa00 datagram_socket example_network" and ?u = "UdpConnectionInfo_new 68 67" and ?v = example_addresses
  let ?d = "read_bytes (memory ?s) 0x3000 (unat (4 :: usize))"
  have f: "sockets ?s 0xa00 = Some datagram_socket" "transport datagram_socket = Udp ?u" "internet datagram_socket = Ipv4 ?v"
    "link datagram_socket = Link_Ethernet example_frame" "\<not> socket_lock datagram_socket" "udp_sender_port ?u = 67" by (simp_all add: datagram_socket_def UdpConnectionInfo_new_def)
  have da: "device_addresses_ok ?s" using example_ether(6) by (simp add: device_addresses_ok_def example_network_simps)
  have l: "length ?d \<le> 65507" "unat (4 :: usize) \<le> 65507" by simp_all
  obtain h where h: "create_ipv4_udp_header ?d 67 (destination_address ?v) 67 (sender_address ?v) 0 = Inr h"
    using create_udp_ok [OF l(1)] by blast
  have "length h = 28" using udp_packet_accepted(3) [OF l(1) _ h, of "[]" "[]"] by simp
  then obtain s1 where s1: "reply_data example_driver example_frame (h @ ?d) (?s\<lparr>outside := outside example_network\<rparr>) = Ok s1"
    using example_network_reply [of "?s\<lparr>outside := outside example_network\<rparr>" "h @ ?d"] by (auto simp: example_network_simps)
  then obtain s' where s': "send_socket example_driver example_memory (\<lambda>_. False) 0 0xa00 0x3000 4 ?s = Ok (Sent 4, s')"
    using f h by (simp add: send_socket_def lock_socket_def get_socket_def send_udp_def get_memory_def example_memory_def Let_def)
  have w: "outside ?s = []" "read_bytes (memory ?s) 0x3000 4 = [0, 0, 0, 0]" by (simp_all add: example_network_simps read_bytes_def upt_rec numeral_eq_Suc)
  show ?thesis
    using udp_source_port_is_peer_port [OF example_records da f(1-4) example_ether(8) l(2) s'] s' f(6) w by auto
qed

text \<open>Waking nobody leaves the state as it is.\<close>

lemma wake_nobody: "sockets s a = Some so \<Longrightarrow> wait_queue so = WaitQueue_new \<Longrightarrow> wake_socket c a s = Ok s"
  by (simp add: wake_socket_def get_socket_def wakeup_all_def WaitQueue_new_def SpinLockFlag_new_def put_socket_def fun_upd_idem)

lemma take_drop_read: "n + k \<le> l \<Longrightarrow> take k (drop n (read_bytes m a l)) = read_bytes m (a + of_nat n) k"
  by (rule nth_equalityI) (simp_all add: read_bytes_def add.assoc)

lemma read_copied:
  assumes "unat n = k"
  shows "read_bytes (copy_nonoverlapping src dst n m) dst k = read_bytes m src k"
proof (rule nth_equalityI)
  fix i assume "i < length (read_bytes (copy_nonoverlapping src dst n m) dst k)"
  then have "i < k" by simp
  then have "(of_nat i :: usize) < n" using assms unat_lt_2_64 [of n] by (simp add: word_less_nat_alt unat_of_nat)
  then show "read_bytes (copy_nonoverlapping src dst n m) dst k ! i = read_bytes m src k ! i"
    using \<open>i < k\<close> by (simp add: read_bytes_def copy_nonoverlapping_def)
qed simp

text \<open>A datagram reaches the first socket in the list of its hash value that matches it.\<close>

lemma udp_delivered:
  assumes "calc_hash_number_of_list (Ipv4 v) (Udp u) = (Ok h :: (unit, usize) outcome)"
    and "active_socket s ! unat h = (False, as @ a # bs)" and "\<forall>b \<in> set as. \<exists>sb. sockets s b = Some sb \<and> judge_udp (Ipv4 v) u sb = (Ok Skip :: (unit, verdict) outcome)"
    and "sockets s a = Some so" and "\<not> socket_lock so" and "is_active so" and "transport so = Udp u" and "internet so = Ipv4 v" and "wait_queue so = WaitQueue_new"
    and "ring_size (receive_ring_buffer so) \<noteq> 0"
    and w: "Ringbuffer_write (receive_ring_buffer so) (memory s) (base + off) n = (k, r, m)"
  shows "udp_segment_handler alloc_memory c (Ipv4 v) \<lparr>udp_connection_info = u, udp_payload_size = n\<rparr> base len off s =
     (Ok (free_memory base len ((put_socket a (so\<lparr>receive_ring_buffer := r\<rparr>) s)\<lparr>memory := m\<rparr>)) :: ('e, _) outcome)"
proof -
  have h: "calc_hash_number_of_list_tcp_udp (Ipv4 v) (udp_destination_port u) (udp_sender_port u) = (Ok h :: ('e, usize) outcome)"
    using assms(1) by (simp add: calc_hash_number_of_list_def calc_hash_number_of_list_tcp_udp_def Let_def)
  have "judge_udp (Ipv4 v) u sb = (Ok Skip :: (unit, verdict) outcome) \<Longrightarrow> judge_udp (Ipv4 v) u sb = (Ok Skip :: ('e, verdict) outcome)" for sb
    by (auto simp: judge_udp_def split: TransportType.splits InternetType.splits if_splits)
  then have sk: "\<forall>b \<in> set as. \<exists>sb. sockets s b = Some sb \<and> judge_udp (Ipv4 v) u sb = (Ok Skip :: ('e, verdict) outcome)" using assms(3) by blast
  have "judge_udp (Ipv4 v) u so = (Ok Take :: ('e, verdict) outcome)" using assms(6-8) by (simp add: judge_udp_def)
  then have f: "search_list (judge_udp (Ipv4 v) u) (active_socket s ! unat h) s = (Ok (Some a) :: ('e, _) outcome)"
    using assms(2,4) search_skips [OF sk, of "a # bs"] by (simp add: search_list_def get_socket_def)
  have g: "need_receive_ring alloc_memory a s = (Ok s :: (NetworkError \<times> _, _) outcome)"
    using assms(4,10) by (simp add: need_receive_ring_def get_socket_def get_buffer_size_def is_zero_def)
  let ?s = "(put_socket a (so\<lparr>receive_ring_buffer := r\<rparr>) s)\<lparr>memory := m\<rparr>"
  have "wake_socket c a ?s = (Ok ?s :: ('e, _) outcome)"
    by (rule wake_nobody [of _ a "so\<lparr>receive_ring_buffer := r\<rparr>"]) (simp_all add: assms(9))
  then show ?thesis using h f g w assms(4,5)
    by (simp add: udp_segment_handler_def udp_socket_handler_def lock_socket_def get_socket_def Let_def)
qed

text \<open>The frame of a datagram in memory: it is passed on to the sockets.\<close>

lemma udp_frame_dispatched:
  assumes "rx_entries s x = Some rx" and "create_ipv4_udp_header d sp src dp dst i = Inr h"
    and "read_bytes (memory s) (rx_buffer rx) (unat (rx_length rx)) = target @ source @ [8, 0] @ h @ d @ pad"
    and "length target = 6" and "length source = 6" and "length d \<le> 65507" and "unat (rx_length rx) < 2 ^ 63"
  shows "frame_worker send alloc_memory alloc_socket seed c x s =
     udp_segment_handler alloc_memory c (Ipv4 \<lparr>sender_address = src, destination_address = dst\<rparr>)
       \<lparr>udp_connection_info = \<lparr>udp_sender_port = sp, udp_destination_port = dp\<rparr>, udp_payload_size = of_nat (length d)\<rparr> (rx_buffer rx) (rx_length rx) 42
       (free_memory x size_of_RxEntry (s\<lparr>rx_entries := (rx_entries s)(x := None)\<rparr>))"
    and "read_bytes (memory s) (rx_buffer rx + 42) (length d) = d"
proof -
  let ?pre = "target @ source @ [8, 0]" and ?m = "memory s" and ?b = "rx_buffer rx" and ?n = "unat (rx_length rx)"
  let ?B = "read_bytes ?m ?b ?n"
  have B: "?B = ?pre @ h @ d @ pad" using assms(3) by simp
  have lh: "length h = 28" using udp_packet_accepted(3) [OF assms(6) _ assms(2), of "[]" "[]"] assms(6) by simp
  have l: "?n = 42 + length d + length pad" using arg_cong [OF assms(3), of length] lh assms(4,5) by simp
  have sz: "length ?pre + 28 + length d + length pad < 2 ^ 63" using l assms(4,5,7) by simp
  have lp: "of_nat (length ?pre) = ETHERNET_PAYLOAD_OFFSET" "of_nat (length ?pre + 28) = (42 :: usize)"
    using assms(4,5) by (simp_all add: ETHERNET_PAYLOAD_OFFSET_def)
  have lB: "of_nat (length (?pre @ h @ d @ pad)) = rx_length rx" unfolding B [symmetric] by simp
  note u = udp_packet_accepted(1,2) [OF assms(6) sz assms(2), unfolded lB lp]
  have "?B ! 12 = 8" "?B ! 13 = 0" unfolding B using assms(4,5) by (simp_all add: nth_append)
  moreover have "?B ! 12 = ?m (?b + 12)" "?B ! 13 = ?m (?b + 13)" using l by (simp_all add: read_bytes_def)
  ultimately have "frame_type (frame_info_of rx ?m) = ETHERNET_TYPE_IPV4"
    by (simp add: frame_info_of_def ETHERNET_TYPE_IPV4_def from_be_bytes16_def)
  then show "frame_worker send alloc_memory alloc_socket seed c x s =
     udp_segment_handler alloc_memory c (Ipv4 \<lparr>sender_address = src, destination_address = dst\<rparr>)
       \<lparr>udp_connection_info = \<lparr>udp_sender_port = sp, udp_destination_port = dp\<rparr>, udp_payload_size = of_nat (length d)\<rparr> (rx_buffer rx) (rx_length rx) 42
       (free_memory x size_of_RxEntry (s\<lparr>rx_entries := (rx_entries s)(x := None)\<rparr>))"
    using u assms(1) B by (simp add: frame_worker_def ipv4_packet_input_def udp_segment_input_def free_memory_def Let_def)
  have "read_bytes ?m (?b + 42) (length d) = take (length d) (drop 42 ?B)" using take_drop_read [of 42 "length d" ?n ?m ?b] l by simp
  also have "\<dots> = d" unfolding B using assms(4,5) lh by simp
  finally show "read_bytes ?m (?b + 42) (length d) = d" .
qed

text \<open>Reading bytes that went into an empty ring without reaching its end.\<close>

lemma read_socket_filled:
  assumes "sockets s a = Some (so\<lparr>receive_ring_buffer := r\<rparr>)" and "\<not> socket_lock so" and "filled k w (unat n) r" and "2 \<le> unat n"
  shows "\<exists>s'. read_socket clone_pages c a buf n allow_sleep s = Ok (Done n, s') \<and> memory s' = copy_nonoverlapping (ring_buffer r + w) buf n (memory s)"
proof -
  have "n \<noteq> 0" using assms(4) by auto
  then show ?thesis
    using assms(1,2) read_filled [OF assms(3,4), of "memory s" buf, THEN conjunct1]
    by (simp add: read_socket_def lock_socket_def get_socket_def is_zero_def Let_def)
qed

text \<open>
  Property C35. A datagram goes from the frame to the ring of its socket and from there to the reader. The memory of a received frame holds a datagram of at most 65507 bytes with the
  headers of its sender, behind an Ethernet header and followed by padding; an active, unlocked socket that is bound to both ends, has a buffer and on which no thread waits is the first one
  in its list that matches. Then the worker succeeds and gives the entry and the frame back once each, the ring of that socket and the memory are what one write of the payload into the
  ring makes of them, and no other socket changes. How much of the datagram the ring takes is up to that write. If the ring is empty, the datagram has at least two bytes and it fits between the write pointer and the
  end of the ring, a read of its length returns exactly its bytes, without sleeping. The last three conditions are needed: a write that reaches the end of the ring, and a read of a single byte,
  copy with wrong lengths.
\<close>

theorem udp_frame_delivered:
  fixes s :: "('c, 'f, 'd, 'z) sock"
  assumes "rx_entries s x = Some rx" and "create_ipv4_udp_header d sp src dp dst i = Inr h"
    and "read_bytes (memory s) (rx_buffer rx) (unat (rx_length rx)) = target @ source @ [8, 0] @ h @ d @ pad"
    and "length target = 6" and "length source = 6" and "length d \<le> 65507" and "unat (rx_length rx) < 2 ^ 63"
    and "v = \<lparr>sender_address = src, destination_address = dst\<rparr>" and "u = UdpConnectionInfo_new dp sp"
    and "calc_hash_number_of_list (Ipv4 v) (Udp u) = (Ok hash :: (unit, usize) outcome)" and "active_socket s ! unat hash = (False, as @ a # bs)"
    and "\<forall>b \<in> set as. \<exists>sb. sockets s b = Some sb \<and> judge_udp (Ipv4 v) u sb = (Ok Skip :: (unit, verdict) outcome)"
    and "sockets s a = Some so" and "\<not> socket_lock so" and "is_active so" and "transport so = Udp u" and "internet so = Ipv4 v" and "wait_queue so = WaitQueue_new"
    and "ring_size (receive_ring_buffer so) \<noteq> 0"
    and "Ringbuffer_write (receive_ring_buffer so) (memory s) (rx_buffer rx + 42) (of_nat (length d)) = (written, r, m)"
  shows "\<exists>s1. frame_worker send alloc_memory alloc_socket seed c x s = (Ok s1 :: ('e, _) outcome) \<and>
     kfreed s1 = kfreed s @ [(x, size_of_RxEntry), (rx_buffer rx, rx_length rx)] \<and>
     sockets s1 = (sockets s)(a \<mapsto> so\<lparr>receive_ring_buffer := r\<rparr>) \<and> memory s1 = m \<and>
     read_bytes (memory s) (rx_buffer rx + 42) (length d) = d \<and>
     (ring_ok k (receive_ring_buffer so) \<and> ring_empty k (receive_ring_buffer so) \<and> 2 \<le> length d \<and>
        unat (write_ptr (receive_ring_buffer so)) + length d < 2 ^ k \<longrightarrow>
      (\<exists>s2. read_socket clone_pages c a buf (of_nat (length d)) allow_sleep s1 = Ok (Done (of_nat (length d)), s2) \<and> read_bytes (memory s2) buf (length d) = d))"
proof -
  let ?n = "of_nat (length d) :: usize" and ?r = "receive_ring_buffer so"
  let ?s0 = "free_memory x size_of_RxEntry (s\<lparr>rx_entries := (rx_entries s)(x := None)\<rparr>)"
  have un: "unat ?n = length d" using assms(6) by (simp add: unat_of_nat)
  note f = udp_frame_dispatched [OF assms(1-7)]
  have s0: "active_socket ?s0 = active_socket s" "sockets ?s0 = sockets s" "memory ?s0 = memory s" by (simp_all add: free_memory_def)
  note dl = udp_delivered [of v u hash ?s0, unfolded s0, OF assms(10-20)]
  have u: "\<lparr>udp_sender_port = sp, udp_destination_port = dp\<rparr> = u" "\<lparr>sender_address = src, destination_address = dst\<rparr> = v"
    using assms(8,9) by (simp_all add: UdpConnectionInfo_new_def)
  let ?s1 = "free_memory (rx_buffer rx) (rx_length rx) ((put_socket a (so\<lparr>receive_ring_buffer := r\<rparr>) ?s0)\<lparr>memory := m\<rparr>)"
  have s1: "sockets ?s1 = (sockets s)(a \<mapsto> so\<lparr>receive_ring_buffer := r\<rparr>)" "memory ?s1 = m"
    "kfreed ?s1 = kfreed s @ [(x, size_of_RxEntry), (rx_buffer rx, rx_length rx)]"
    by (simp_all add: free_memory_def put_socket_def)
  have wk: "frame_worker send alloc_memory alloc_socket seed c x s = (Ok ?s1 :: ('e, _) outcome)" unfolding f(1) u by (rule dl)
  have rd: "\<exists>s2. read_socket clone_pages c a buf ?n allow_sleep ?s1 = Ok (Done ?n, s2) \<and> read_bytes (memory s2) buf (length d) = d"
    if ok: "ring_ok k ?r" "ring_empty k ?r" and l: "2 \<le> length d" and fits: "unat (write_ptr ?r) + length d < 2 ^ k"
  proof -
    have "0 < ?n" "unat (write_ptr ?r) + unat ?n < 2 ^ k" using un l fits by (auto simp: word_less_nat_alt)
    note w = write_fits [OF ok this, of "memory s" "rx_buffer rx + 42"]
    then have r: "r = ?r\<lparr>write_ptr := write_ptr ?r + ?n\<rparr>" and m: "m = copy_nonoverlapping (rx_buffer rx + 42) (ring_buffer ?r + write_ptr ?r) ?n (memory s)"
      using assms(20) by simp_all
    have "sockets ?s1 a = Some (so\<lparr>receive_ring_buffer := r\<rparr>)" using s1(1) by simp
    moreover have "filled k (write_ptr ?r) (unat ?n) r" "2 \<le> unat ?n" using w un l r by simp_all
    ultimately obtain s2 where "read_socket clone_pages c a buf ?n allow_sleep ?s1 = Ok (Done ?n, s2)"
      "memory s2 = copy_nonoverlapping (ring_buffer r + write_ptr ?r) buf ?n m"
      using read_socket_filled [OF _ assms(14)] s1(2) by metis
    moreover have "read_bytes (copy_nonoverlapping (ring_buffer r + write_ptr ?r) buf ?n m) buf (length d) = d"
      using f(2) by (simp add: read_copied [OF un] m r)
    ultimately show ?thesis by (intro exI [of _ s2]) simp
  qed
  show ?thesis
  proof (rule exI [of _ ?s1], intro conjI impI)
    assume "ring_ok k ?r \<and> ring_empty k ?r \<and> 2 \<le> length d \<and> unat (write_ptr ?r) + length d < 2 ^ k"
    then show "\<exists>s2. read_socket clone_pages c a buf ?n allow_sleep ?s1 = Ok (Done ?n, s2) \<and> read_bytes (memory s2) buf (length d) = d"
      by (elim conjE) (rule rd)
  qed (rule wk s1 f(2))+
qed

lemma example_hash: "calc_hash_number_of_list (Ipv4 example_addresses) (Udp (UdpConnectionInfo_new 68 67)) = (Ok 1 :: ('e, usize) outcome)"
  by (simp add: calc_hash_number_of_list_def calc_hash_number_of_list_tcp_udp_def calc_hash_number_of_list_tp_def calc_hash_number_of_list_finalize_def
      to_ne_bytes_def to_be_bytes32_def example_addresses_def UdpConnectionInfo_new_def SOCKET_LIST_ORDER_def push_bit_eq_mult Let_def)

lemma example_ring: "ring_ok 12 (receive_ring_buffer datagram_socket)" "ring_empty 12 (receive_ring_buffer datagram_socket)"
  by (simp_all add: ring_ok_def ring_empty_def datagram_socket_def)

theorem udp_frame_delivered_witness:
  "\<exists>h (s :: (nat, nat, (MacAddress \<times> u8 list) list) network) s1 s2. create_ipv4_udp_header [5, 6, 7] 67 0x0a000002 68 0x0a000001 0 = Inr h \<and>
     memory s = store_bytes 0x700000 (replicate 12 1 @ [8, 0] @ h @ [5, 6, 7]) (\<lambda>_. 0) \<and>
     frame_worker example_driver example_memory (\<lambda>d. (d, Inr 0x900000)) 0 0 0x600000 s = (Ok s1 :: (unit, _) outcome) \<and>
     read_socket (\<lambda>_. False) 0 0xa00 0x3000 3 True s1 = Ok (Done 3, s2) \<and> read_bytes (memory s2) 0x3000 3 = [5, 6, 7]"
proof -
  have l: "2 \<le> length [5 :: u8, 6, 7]" "length [5 :: u8, 6, 7] \<le> 65507" by simp_all
  obtain h where h: "create_ipv4_udp_header [5, 6, 7] 67 0x0a000002 68 0x0a000001 0 = Inr h" using create_udp_ok [OF l(2)] by blast
  have lh: "length h = 28" using udp_packet_accepted(3) [OF l(2) _ h, of "[]" "[]"] by simp
  let ?f = "replicate 12 1 @ [8, 0] @ h @ [5, 6, 7]" and ?rx = "\<lparr>rx_buffer = 0x700000, rx_length = 45, rx_device_id = 0\<rparr>"
  let ?s = "(put_socket 0xa00 datagram_socket example_network)
     \<lparr>rx_entries := [0x600000 \<mapsto> ?rx], memory := store_bytes 0x700000 ?f (\<lambda>_. 0), active_socket := (replicate 16 (False, []))[1 := (False, [0xa00])]\<rparr>"
  have "length ?f = 45" using lh by simp
  then have "read_bytes (store_bytes 0x700000 ?f (\<lambda>_. 0)) 0x700000 45 = ?f" using read_store_bytes [of ?f "0x700000" "\<lambda>_. 0"] by simp
  also have "?f = replicate 6 1 @ replicate 6 1 @ [8, 0] @ h @ [5, 6, 7] @ []" by (simp add: replicate_add [of 6 6, simplified])
  finally have m: "read_bytes (memory ?s) (rx_buffer ?rx) (unat (rx_length ?rx)) = replicate 6 1 @ replicate 6 1 @ [8, 0] @ h @ [5, 6, 7] @ []" by simp
  have e: "rx_entries ?s 0x600000 = Some ?rx" "unat (rx_length ?rx) < 2 ^ 63" "active_socket ?s ! unat (1 :: usize) = (False, [] @ 0xa00 # [])" by simp_all
  have so: "sockets ?s 0xa00 = Some datagram_socket" "\<not> socket_lock datagram_socket" "is_active datagram_socket" "transport datagram_socket = Udp (UdpConnectionInfo_new 68 67)"
    "internet datagram_socket = Ipv4 example_addresses" "wait_queue datagram_socket = WaitQueue_new" by (simp_all add: datagram_socket_def)
  have q: "unat (write_ptr (receive_ring_buffer datagram_socket)) + length [5 :: u8, 6, 7] < 2 ^ 12" by (simp add: datagram_socket_def)
  have l6: "length (replicate 6 (1 :: u8)) = 6" by simp
  have nil: "\<forall>b \<in> set []. \<exists>sb. sockets ?s b = Some sb \<and> judge_udp (Ipv4 example_addresses) (UdpConnectionInfo_new 68 67) sb = (Ok Skip :: (unit, verdict) outcome)" by simp
  have n3: "length [5 :: u8, 6, 7] = 3" "of_nat 3 = (3 :: usize)" by simp_all
  obtain written r m where wr: "Ringbuffer_write (receive_ring_buffer datagram_socket) (memory ?s) (rx_buffer ?rx + 42) (of_nat (length [5 :: u8, 6, 7])) = (written, r, m)"
    by (cases "Ringbuffer_write (receive_ring_buffer datagram_socket) (memory ?s) (rx_buffer ?rx + 42) (of_nat (length [5 :: u8, 6, 7]))")
  have rs: "ring_size (receive_ring_buffer datagram_socket) \<noteq> 0" by (simp add: datagram_socket_def)
  obtain s1 s2 where w: "frame_worker example_driver example_memory (\<lambda>d. (d, Inr 0x900000)) 0 0 0x600000 ?s = (Ok s1 :: (unit, _) outcome)"
    "read_socket (\<lambda>_. False) 0 0xa00 0x3000 (of_nat (length [5 :: u8, 6, 7])) True s1 = Ok (Done (of_nat (length [5 :: u8, 6, 7])), s2)" "read_bytes (memory s2) 0x3000 (length [5 :: u8, 6, 7]) = [5, 6, 7]"
    using udp_frame_delivered [where send = example_driver and alloc_memory = example_memory and alloc_socket = "\<lambda>d. (d, Inr 0x900000)" and seed = 0 and c = 0 and
        clone_pages = "\<lambda>_. False" and buf = "0x3000" and allow_sleep = True and k = 12 and 'e = unit,
        OF e(1) h m l6 l6 l(2) e(2) example_addresses_def refl example_hash e(3) nil so rs wr] example_ring l(1) q by (elim exE conjE impE) (intro conjI, assumption+)
  show ?thesis
  proof (intro exI conjI)
    show "memory ?s = store_bytes 0x700000 ?f (\<lambda>_. 0)" by simp
  qed (rule h w(1) w(2,3) [unfolded n3])+
qed

section \<open>Opening a connection\<close>

lemma header_sent_or_reported:
  fixes s :: "('c, 'f, 'd, 'z) sock"
  assumes "ether_ok B (ether s)" and "fresh_id (ether s)" and "\<not> ether_lock (ether s)"
  shows "\<exists>s'. ignore_error (send_tcp_syn_ack_header send t (Ipv4 v) l s) = (Ok s' :: ('e, _) outcome) \<and> frees {} s s'"
proof -
  have "(\<exists>s'. send_tcp_syn_ack_header send t (Ipv4 v) l s = Ok s') \<or> (\<exists>e s'. send_tcp_syn_ack_header send t (Ipv4 v) l s = Err (e, s'))"
  proof (cases l)
    case (Link_Ethernet e)
    let ?i = "(next_segment t)\<lparr>seg_sequence_number := next_sequence_number t - 1\<rparr>"
    obtain h where "create_ipv4_tcp_header ?i [] False True True False 0 (destination_address v) (sender_address v) = Inr h"
      using create_tcp_length [of "[]"] by fastforce
    then have "send_tcp_syn_ack_header send t (Ipv4 v) l s = send_data send (frame_device_id e) h (sender_mac_address e) (frame_type e) s"
      by (simp add: send_tcp_syn_ack_header_def send_ipv4_tcp_header_def reply_data_def Link_Ethernet)
    then show ?thesis using send_data_cases [OF assms, of send "frame_device_id e" h "sender_mac_address e" "frame_type e"] by auto
  next
    case NoLink
    then show ?thesis by (auto simp: send_tcp_syn_ack_header_def send_ipv4_tcp_header_def Let_def split: sum.splits)
  qed
  moreover have "ends (\<lambda>e. frees {} s (snd e)) (frees {} s) (send_tcp_syn_ack_header send t (Ipv4 v) l s)"
    by (simp add: send_tcp_syn_ack_header_def send_header_frees)
  ultimately show ?thesis by auto
qed

lemma judge_at_any_type:
  "judge_tcp ready v i so = (Ok x :: (unit, verdict) outcome) \<Longrightarrow> judge_tcp ready v i so = (Ok x :: ('e, verdict) outcome)"
  "judge_tcp_listening v i so = (Ok x :: (unit, verdict) outcome) \<Longrightarrow> judge_tcp_listening v i so = (Ok x :: ('e, verdict) outcome)"
  by (auto simp: judge_tcp_def judge_tcp_listening_def judge_address_def split: TransportType.splits InternetType.splits if_splits)

text \<open>The child that a SYN leaves at the socket found.\<close>

lemma syn_adds_child:
  fixes s :: "('c, 'f, 'd, 'z) sock"
  assumes "listening_socket s = as @ a # bs" and "\<not> listening_socket_lock s"
    and "\<forall>b \<in> set as. \<exists>sb. sockets s b = Some sb \<and> judge_tcp_listening (Ipv4 v) i sb = (Ok Skip :: (unit, verdict) outcome)"
    and "sockets s a = Some so" and "judge_tcp_listening (Ipv4 v) i so = (Ok Take :: (unit, verdict) outcome)"
    and "\<not> socket_lock so" and "wait_queue so = WaitQueue_new" and "alloc_socket (outside s) = (d, Inr w)" and "w \<noteq> a"
  shows "tcp_port_open_handler alloc_socket c l (Ipv4 v) i t s =
     Ok (put_socket a (so\<lparr>waiting_socket := waiting_socket so @ [w]\<rparr>) (put_socket w (child_socket l (Ipv4 v) t) (s\<lparr>outside := d\<rparr>)))"
proof -
  let ?s1 = "put_socket a (so\<lparr>waiting_socket := waiting_socket so @ [w]\<rparr>) (put_socket w (child_socket l (Ipv4 v) t) (s\<lparr>outside := d\<rparr>))"
  have sk: "\<forall>b \<in> set as. \<exists>sb. sockets s b = Some sb \<and> judge_tcp_listening (Ipv4 v) i sb = (Ok Skip :: (NetworkError \<times> ('c, 'f, 'd, 'z) sock, verdict) outcome)"
    using assms(3) judge_at_any_type(2) by blast
  have "search (judge_tcp_listening (Ipv4 v) i) (as @ a # bs) s = (Ok (Some a) :: (NetworkError \<times> ('c, 'f, 'd, 'z) sock, _) outcome)"
    unfolding search_skips [OF sk] by (rule search_takes [OF assms(4)], rule judge_at_any_type(2) [OF assms(5)])
  moreover have "wake_socket c a ?s1 = (Ok ?s1 :: (NetworkError \<times> ('c, 'f, 'd, 'z) sock, _) outcome)"
    by (rule wake_nobody [of _ a "so\<lparr>waiting_socket := waiting_socket so @ [w]\<rparr>"]) (simp_all add: assms(7))
  ultimately show ?thesis
    using assms(1,2,4,6,8,9) by (simp add: tcp_port_open_handler_def search_list_def lock_socket_def get_socket_def Let_def)
qed

text \<open>The accept puts the child into the list of its hash value.\<close>

lemma accept_activates:
  fixes s :: "('c, 'f, 'd, 'z) sock"
  assumes "sockets s a = Some so" and "\<not> socket_lock so" and "waiting_socket so = w # ws" and "w \<noteq> a" and "sockets s w = Some child"
    and "transport child = Tcp t" and "internet child = Ipv4 v" and "calc_hash_number_of_list_tcp_udp (Ipv4 v) (our_port t) (their_port t) = (Ok h :: (unit, usize) outcome)"
    and "active_socket s ! unat h = (False, cs)" and "ether_ok B (ether s)" and "fresh_id (ether s)" and "\<not> ether_lock (ether s)"
  shows "\<exists>s'. activate_waiting_socket send clone_pages c a allow_sleep s = Ok (Done w, s') \<and> sockets s' = (sockets s)(a \<mapsto> so\<lparr>waiting_socket := ws\<rparr>) \<and>
     active_socket s' = (active_socket s)[unat h := (False, cs @ [w])]"
proof -
  let ?s = "(put_socket a (so\<lparr>waiting_socket := ws\<rparr>) s)\<lparr>active_socket := (active_socket s)[unat h := (False, cs @ [w])]\<rparr>"
  have h: "calc_hash_number_of_list_tcp_udp (Ipv4 v) (our_port t) (their_port t) = (Ok h :: (NetworkError \<times> ('c, 'f, 'd, 'z) sock, usize) outcome)"
    using assms(8) by (simp add: calc_hash_number_of_list_tcp_udp_def Let_def)
  have "insert_active w child (put_socket a (so\<lparr>waiting_socket := ws\<rparr>) s) = (Ok ?s :: (NetworkError \<times> ('c, 'f, 'd, 'z) sock, _) outcome)"
    using h assms(6,7,9) by (simp add: insert_active_def calc_hash_number_of_list_def)
  moreover have e: "ether_ok B (ether ?s)" "fresh_id (ether ?s)" "\<not> ether_lock (ether ?s)" using assms(10-12) by simp_all
  have "\<exists>s'. ignore_error (send_tcp_syn_ack_header send t (Ipv4 v) (link child) ?s) = (Ok s' :: (NetworkError \<times> ('c, 'f, 'd, 'z) sock, _) outcome) \<and> frees {} ?s s'"
    by (rule header_sent_or_reported [OF e])
  then obtain s' where s': "ignore_error (send_tcp_syn_ack_header send t (Ipv4 v) (link child) ?s) = (Ok s' :: (NetworkError \<times> ('c, 'f, 'd, 'z) sock, _) outcome)" "frees {} ?s s'"
    by blast
  ultimately have "activate_waiting_socket send clone_pages c a allow_sleep s = Ok (Done w, s')"
    using assms(1-7) by (simp add: activate_waiting_socket_def lock_socket_def get_socket_def Let_def)
  then show ?thesis using frees_fields [OF s'(2)] by simp
qed

text \<open>
  Property C37. A connection is opened by three segments. A SYN for a listening socket that the search finds leaves a new socket with it; the accept returns this socket and
  enters it into the table of active sockets; and the acknowledgement of the SYN+ACK, which is found in that table, makes its session \<open>Opened\<close>, with the numbers that were
  agreed on and everything else of the session as the SYN has set it up.
\<close>

theorem tcp_handshake_opens:
  fixes s :: "('c, 'f, 'd, 'z) sock"
  assumes "listening_socket s = as @ a # bs" and "\<not> listening_socket_lock s"
    and "\<forall>b \<in> set as. \<exists>sb. sockets s b = Some sb \<and> judge_tcp_listening (Ipv4 v) i sb = (Ok Skip :: (unit, verdict) outcome)"
    and "sockets s a = Some so" and "judge_tcp_listening (Ipv4 v) i so = (Ok Take :: (unit, verdict) outcome)"
    and "\<not> socket_lock so" and "wait_queue so = WaitQueue_new" and "waiting_socket so = []" and "alloc_socket (outside s) = (d, Inr w)" and "sockets s w = None"
    and "calc_hash_number_of_list_tcp_udp (Ipv4 v) (seg_destination_port i) (seg_sender_port i) = (Ok h :: (unit, usize) outcome)"
    and "unat h < length (active_socket s)" and "active_socket s ! unat h = (False, cs)" and "w \<notin> set cs"
    and "\<forall>b \<in> set cs. \<exists>sb. sockets s b = Some sb \<and> judge_tcp (\<lambda>_. True) (Ipv4 v) j sb = (Ok Skip :: (unit, verdict) outcome)"
    and "ether_ok B (ether s)" and "fresh_id (ether s)" and "\<not> ether_lock (ether s)"
    and "seg_destination_port j = seg_destination_port i" and "seg_sender_port j = seg_sender_port i"
    and "seg_acknowledgement_number j = next_sequence_number (syn_session seed i)"
  shows "\<exists>s1 s2 s3. tcp_port_open_handler alloc_socket c l (Ipv4 v) i (syn_session seed i) s = Ok s1 \<and>
     activate_waiting_socket send clone_pages c a allow_sleep s1 = Ok (Done w, s2) \<and>
     tcp_update_status c (Ipv4 v) j (\<lambda>t s. Ok (ipv4_tcp_ack_handler t j s)) s2 = Ok s3 \<and>
     sockets s3 w = Some ((child_socket l (Ipv4 v) (syn_session seed i))\<lparr>transport := Tcp ((syn_session seed i)\<lparr>status := Opened\<rparr>)\<rparr>) \<and>
     sockets s3 a = Some so"
proof -
  let ?t = "syn_session seed i" and ?ch = "child_socket l (Ipv4 v) (syn_session seed i)"
  let ?s1 = "put_socket a (so\<lparr>waiting_socket := waiting_socket so @ [w]\<rparr>) (put_socket w ?ch (s\<lparr>outside := d\<rparr>))"
  have wa: "w \<noteq> a" using assms(4,10) by auto
  note s1 = syn_adds_child [where alloc_socket = alloc_socket, OF assms(1-7,9) wa, of c l ?t]
  have t: "our_port ?t = seg_destination_port i" "their_port ?t = seg_sender_port i" "status ?t = HalfOpened" by (simp_all add: syn_session_def Let_def)
  have ch: "transport ?ch = Tcp ?t" "internet ?ch = Ipv4 v" "is_active ?ch" "\<not> socket_lock ?ch" "wait_queue ?ch = WaitQueue_new" by (simp_all add: child_socket_def)
  have a1: "sockets ?s1 a = Some (so\<lparr>waiting_socket := [w]\<rparr>)" "\<not> socket_lock (so\<lparr>waiting_socket := [w]\<rparr>)" "waiting_socket (so\<lparr>waiting_socket := [w]\<rparr>) = w # []"
    "sockets ?s1 w = Some ?ch" "active_socket ?s1 ! unat h = (False, cs)" "ether_ok B (ether ?s1)" "fresh_id (ether ?s1)" "\<not> ether_lock (ether ?s1)"
    using assms(6,8,13,16-18) wa by simp_all
  obtain s2 where s2: "activate_waiting_socket send clone_pages c a allow_sleep ?s1 = Ok (Done w, s2)"
    "sockets s2 = (sockets s)(w \<mapsto> ?ch, a \<mapsto> so\<lparr>waiting_socket := []\<rparr>)" "active_socket s2 = (active_socket s)[unat h := (False, cs @ [w])]"
    using accept_activates [OF a1(1-3) wa a1(4) ch(1,2) assms(11) [folded t(1,2)] a1(5-8), of send clone_pages c allow_sleep] assms(8) wa by auto
  have "so\<lparr>waiting_socket := []\<rparr> = so" using assms(8) by simp
  then have k2: "sockets s2 = (sockets s)(w \<mapsto> ?ch)" using s2(2) assms(4) wa by (auto simp: fun_eq_iff)
  have sk: "\<forall>b \<in> set cs. \<exists>sb. sockets s2 b = Some sb \<and> judge_tcp (\<lambda>_. True) (Ipv4 v) j sb = (Ok Skip :: (NetworkError \<times> ('c, 'f, 'd, 'z) sock, verdict) outcome)"
    using assms(14,15) judge_at_any_type(1) unfolding k2 by (metis fun_upd_other)
  have "search (judge_tcp (\<lambda>_. True) (Ipv4 v) j) (cs @ [w]) s2 = (Ok (Some w) :: (NetworkError \<times> ('c, 'f, 'd, 'z) sock, _) outcome)"
    unfolding search_skips [OF sk] by (rule search_takes [of _ w ?ch]) (use k2 ch t assms(19,20) in \<open>simp_all add: judge_tcp_def judge_address_def\<close>)
  then have f: "search_list (judge_tcp (\<lambda>_. True) (Ipv4 v) j) (active_socket s2 ! unat h) s2 = (Ok (Some w) :: (NetworkError \<times> ('c, 'f, 'd, 'z) sock, _) outcome)"
    using assms(12) s2(3) by (simp add: search_list_def)
  have h: "calc_hash_number_of_list_tcp_udp (Ipv4 v) (seg_destination_port j) (seg_sender_port j) = (Ok h :: (NetworkError \<times> ('c, 'f, 'd, 'z) sock, usize) outcome)"
    using assms(11,19,20) by (simp add: calc_hash_number_of_list_tcp_udp_def Let_def)
  have ack: "ipv4_tcp_ack_handler ?t j s2 = (?t\<lparr>status := Opened\<rparr>, s2, True)" using t(3) assms(21) by (simp add: ipv4_tcp_ack_handler_def)
  let ?ch2 = "?ch\<lparr>transport := Tcp (?t\<lparr>status := Opened\<rparr>), is_active := True\<rparr>"
  have "wake_socket c w (put_socket w ?ch2 s2) = (Ok (put_socket w ?ch2 s2) :: (NetworkError \<times> ('c, 'f, 'd, 'z) sock, _) outcome)"
    by (rule wake_nobody [of _ w ?ch2]) (simp_all add: ch(5))
  then have s3: "tcp_update_status c (Ipv4 v) j (\<lambda>t s. Ok (ipv4_tcp_ack_handler t j s)) s2 = Ok (put_socket w ?ch2 s2)"
    using h f k2 ch(1,4) ack by (simp add: tcp_update_status_def lock_socket_def get_socket_def)
  have "?ch2 = ?ch\<lparr>transport := Tcp (?t\<lparr>status := Opened\<rparr>)\<rparr>" by (simp add: child_socket_def)
  then show ?thesis using s1 s2(1) s3 k2 assms(4) wa by auto
qed

theorem tcp_handshake_opens_witness:
  "\<exists>s1 s2 s3 so t. tcp_port_open_handler (\<lambda>d. (d, Inr 0xc00)) 0 (Link_Ethernet example_frame) (Ipv4 example_addresses) example_syn (syn_session 0 example_syn)
       (example_listeners\<lparr>listening_socket := [0xb00]\<rparr>) = Ok s1 \<and>
     activate_waiting_socket example_driver (\<lambda>_. False) 0 0xb00 True s1 = Ok (Done 0xc00, s2) \<and>
     tcp_update_status 0 (Ipv4 example_addresses) (example_syn\<lparr>seg_acknowledgement_number := 1\<rparr>)
       (\<lambda>t s. Ok (ipv4_tcp_ack_handler t (example_syn\<lparr>seg_acknowledgement_number := 1\<rparr>) s)) s2 = Ok s3 \<and>
     sockets s3 0xc00 = Some so \<and> transport so = Tcp t \<and> status t = Opened"
proof -
  let ?s = "example_listeners\<lparr>listening_socket := [0xb00]\<rparr>" and ?v = example_addresses and ?i = example_syn
  let ?j = "example_syn\<lparr>seg_acknowledgement_number := 1\<rparr>"
  have e: "ether ?s = ether example_ethernet" "active_socket ?s = replicate 16 (False, [])"
    by (simp_all add: example_listeners_def example_network_simps)
  have l: "listening_socket ?s = [] @ 0xb00 # []" "\<not> listening_socket_lock ?s" "sockets ?s 0xb00 = Some (listening 0)" "sockets ?s 0xc00 = None"
    using example_listeners_simps by (simp_all add: example_listeners_def)
  have k: "judge_tcp_listening (Ipv4 ?v) ?i (listening 0) = (Ok Take :: (unit, verdict) outcome)"
    by (simp add: judge_tcp_listening_def judge_address_def listening_simps TcpSessionInfo_new_def example_syn_def TCP_PORT_ANY_def IPV4_ADDRESS_ANY_def)
  have nil: "\<forall>b \<in> set []. \<exists>sb. sockets ?s b = Some sb \<and> judge_tcp_listening (Ipv4 ?v) ?i sb = (Ok Skip :: (unit, verdict) outcome)"
    "\<forall>b \<in> set []. \<exists>sb. sockets ?s b = Some sb \<and> judge_tcp (\<lambda>_. True) (Ipv4 ?v) ?j sb = (Ok Skip :: (unit, verdict) outcome)" "0xc00 \<notin> set []" by simp_all
  let ?h = "23 * (80 + 5000) AND 15 :: usize"
  have h: "calc_hash_number_of_list_tcp_udp (Ipv4 ?v) (seg_destination_port ?i) (seg_sender_port ?i) = (Ok ?h :: (unit, usize) outcome)"
    by (simp add: calc_hash_number_of_list_tcp_udp_def calc_hash_number_of_list_tp_def calc_hash_number_of_list_finalize_def
      to_ne_bytes_def to_be_bytes32_def example_addresses_def example_syn_def SOCKET_LIST_ORDER_def push_bit_eq_mult Let_def)
  have hn: "unat ?h < length (active_socket ?s)" "active_socket ?s ! unat ?h = (False, [])" by (simp_all add: e(2))
  have eo: "ether_ok (mset (frame_buffers 0x100000 0x200000)) (ether ?s)" "\<not> ether_lock (ether ?s)" "fresh_id (ether ?s)"
    using example_ether(1,2) by (simp_all add: e(1)) (simp add: fresh_id_def example_ethernet_def timers.extend_def EthernetDeviceManager_new_def)
  have j: "seg_destination_port ?j = seg_destination_port ?i" "seg_sender_port ?j = seg_sender_port ?i" "seg_acknowledgement_number ?j = next_sequence_number (syn_session 0 ?i)"
    by (simp_all add: syn_session_def)
  show ?thesis
    using tcp_handshake_opens [where alloc_socket = "\<lambda>d. (d, Inr 0xc00)" and send = example_driver and clone_pages = "\<lambda>_. False" and c = 0 and l = "Link_Ethernet example_frame" and allow_sleep = True,
        OF l(1,2) nil(1) l(3) k listening_simps(1,6,5) refl l(4) h hn nil(3,2) eo(1,3,2) j]
    by fastforce
qed

end
