(* ===== verification/Fifo.thy ===== *)
theory Fifo
  imports Prelude
begin

text \<open>
  The lock-free queue of \<open>kernel/collections/fifo.rs\<close>. \<open>enqueue\<close> and \<open>dequeue\<close> are split at their
  atomic accesses: the loads with the test for full or empty, the exchange that claims a
  slot, and the access to the slot. Alone, a thread runs them in a row; the step relation
  interleaves a producer and a consumer.
\<close>

section \<open>Operations\<close>

record 'a Fifo =
  buf :: "'a list"
  read_pointer :: usize
  write_pointer :: usize
  fifo_size :: usize

definition Fifo_new :: "usize \<Rightarrow> 'a \<Rightarrow> 'a Fifo" where
  "Fifo_new F_SIZE default_value =
     \<lparr>buf = replicate (unat F_SIZE) default_value, read_pointer = 0, write_pointer = 0, fifo_size = F_SIZE\<rparr>"

text \<open>The value and the position after it, or \<open>None\<close> when the queue is full.\<close>

definition next_pointer :: "'a Fifo \<Rightarrow> usize \<Rightarrow> usize" where
  "next_pointer f p = (if p + 1 \<ge> fifo_size f then 0 else p + 1)"

definition enqueue_load :: "'a Fifo \<Rightarrow> (usize \<times> usize) option" where
  "enqueue_load f =
     (let w = write_pointer f; next_w = next_pointer f w
      in if next_w = read_pointer f then None else Some (w, next_w))"

definition enqueue_claim :: "'a Fifo \<Rightarrow> usize \<Rightarrow> usize \<Rightarrow> 'a Fifo option" where
  "enqueue_claim f w next_w = (if write_pointer f = w then Some (f\<lparr>write_pointer := next_w\<rparr>) else None)"

text \<open>An index outside the array panics.\<close>

definition enqueue_store :: "'a Fifo \<Rightarrow> usize \<Rightarrow> 'a \<Rightarrow> (unit, 'a Fifo) outcome" where
  "enqueue_store f w v = (if unat w < length (buf f) then Ok (f\<lparr>buf := (buf f)[unat w := v]\<rparr>) else Panic)"

definition dequeue_load :: "'a Fifo \<Rightarrow> (usize \<times> usize) option" where
  "dequeue_load f =
     (let r = read_pointer f
      in if r = write_pointer f then None else Some (r, next_pointer f r))"

definition dequeue_claim :: "'a Fifo \<Rightarrow> usize \<Rightarrow> usize \<Rightarrow> 'a Fifo option" where
  "dequeue_claim f r next_r = (if read_pointer f = r then Some (f\<lparr>read_pointer := next_r\<rparr>) else None)"

definition dequeue_take :: "'a Fifo \<Rightarrow> usize \<Rightarrow> (unit, 'a) outcome" where
  "dequeue_take f r = (if unat r < length (buf f) then Ok (buf f ! unat r) else Panic)"

text \<open>The two methods; the loop is entered again when the exchange fails.\<close>

fun enqueue :: "nat \<Rightarrow> 'a Fifo \<Rightarrow> 'a \<Rightarrow> (unit, bool \<times> 'a Fifo) outcome" where
  "enqueue 0 f v = Diverge"
| "enqueue (Suc n) f v =
     (case enqueue_load f of
        None \<Rightarrow> Ok (False, f)
      | Some (w, next_w) \<Rightarrow>
          (case enqueue_claim f w next_w of
             Some f' \<Rightarrow> obind (enqueue_store f' w v) (\<lambda>f''. Ok (True, f''))
           | None \<Rightarrow> enqueue n f v))"

fun dequeue :: "nat \<Rightarrow> 'a Fifo \<Rightarrow> (unit, 'a option \<times> 'a Fifo) outcome" where
  "dequeue 0 f = Diverge"
| "dequeue (Suc n) f =
     (case dequeue_load f of
        None \<Rightarrow> Ok (None, f)
      | Some (r, next_r) \<Rightarrow>
          (case dequeue_claim f r next_r of
             Some f' \<Rightarrow> obind (dequeue_take f' r) (\<lambda>v. Ok (Some v, f'))
           | None \<Rightarrow> dequeue n f))"

section \<open>The queue of values\<close>

definition fifo_ok :: "'a Fifo \<Rightarrow> bool" where
  "fifo_ok f \<longleftrightarrow> read_pointer f < fifo_size f \<and> write_pointer f < fifo_size f \<and> length (buf f) = unat (fifo_size f)"

text \<open>How many values the queue holds, and the values from the oldest on.\<close>

definition fifo_length :: "'a Fifo \<Rightarrow> nat" where
  "fifo_length f =
     (let r = unat (read_pointer f); w = unat (write_pointer f)
      in if r \<le> w then w - r else w + unat (fifo_size f) - r)"

definition contents :: "'a Fifo \<Rightarrow> 'a list" where
  "contents f = map (\<lambda>i. buf f ! ((unat (read_pointer f) + i) mod unat (fifo_size f))) [0..<fifo_length f]"

lemma length_contents [simp]: "length (contents f) = fifo_length f"
  by (simp add: contents_def)

lemma Fifo_new_ok: "0 < F_SIZE \<Longrightarrow> fifo_ok (Fifo_new F_SIZE d) \<and> contents (Fifo_new F_SIZE d) = []"
  by (simp add: fifo_ok_def contents_def fifo_length_def Fifo_new_def)

lemma unat_next_pointer:
  assumes "p < fifo_size f"
  shows "unat (next_pointer f p) = (if unat p + 1 = unat (fifo_size f) then 0 else unat p + 1)"
proof -
  have "unat p < unat (fifo_size f)" using assms by (simp add: word_less_nat_alt)
  moreover have "unat (fifo_size f) < 2 ^ 64" using unsigned_less [of "fifo_size f"] by simp
  ultimately have "unat p + 1 < 2 ^ 64" by linarith
  then have "unat (p + 1) = unat p + 1" by (simp add: unat_word_ariths)
  then show ?thesis using \<open>unat p < _\<close> by (auto simp: next_pointer_def word_le_nat_alt)
qed

lemma next_pointer_less: "p < fifo_size f \<Longrightarrow> next_pointer f p < fifo_size f"
  using unat_next_pointer [of p f] by (simp add: word_less_nat_alt)

text \<open>The slot to write is the one behind the last value.\<close>

lemma slot_of_write:
  assumes "fifo_ok f"
  shows "(unat (read_pointer f) + fifo_length f) mod unat (fifo_size f) = unat (write_pointer f)"
  using assms by (auto simp: fifo_ok_def fifo_length_def word_less_nat_alt Let_def)

lemma enqueue_full:
  assumes "fifo_ok f"
  shows "enqueue_load f = None \<longleftrightarrow> fifo_length f + 1 = unat (fifo_size f)"
  using assms unat_next_pointer [of "write_pointer f" f]
  by (auto simp: enqueue_load_def fifo_ok_def fifo_length_def word_less_nat_alt word_unat_eq_iff Let_def)

lemma dequeue_empty:
  assumes "fifo_ok f"
  shows "dequeue_load f = None \<longleftrightarrow> fifo_length f = 0"
  using assms by (auto simp: dequeue_load_def fifo_ok_def fifo_length_def word_less_nat_alt word_unat_eq_iff Let_def)

lemma fifo_length_write:
  assumes "fifo_ok f" and "fifo_length f + 1 < unat (fifo_size f)"
  shows "fifo_length (f\<lparr>write_pointer := next_pointer f (write_pointer f), buf := b\<rparr>) = fifo_length f + 1"
  using assms unat_next_pointer [of "write_pointer f" f]
  by (auto simp: fifo_ok_def fifo_length_def word_less_nat_alt Let_def split: if_splits)

lemma fifo_length_read:
  assumes "fifo_ok f" and "fifo_length f > 0"
  shows "fifo_length (f\<lparr>read_pointer := next_pointer f (read_pointer f)\<rparr>) = fifo_length f - 1"
  using assms unat_next_pointer [of "read_pointer f" f]
  by (auto simp: fifo_ok_def fifo_length_def word_less_nat_alt Let_def split: if_splits)

lemma fifo_length_less: "fifo_ok f \<Longrightarrow> fifo_length f < unat (fifo_size f)"
  by (auto simp: fifo_ok_def fifo_length_def word_less_nat_alt Let_def)

lemma enqueue_alone:
  fixes f :: "'a Fifo" and v :: 'a
  assumes "fifo_ok f" and "fifo_length f + 1 < unat (fifo_size f)"
  defines "f' \<equiv> f\<lparr>write_pointer := next_pointer f (write_pointer f), buf := (buf f)[unat (write_pointer f) := v]\<rparr>"
  shows "enqueue (Suc n) f v = Ok (True, f') \<and> fifo_ok f' \<and> contents f' = contents f @ [v]"
proof -
  let ?N = "unat (fifo_size f)" and ?r = "unat (read_pointer f)" and ?w = "unat (write_pointer f)"
  have w: "?w < length (buf f)" "length (buf f) = ?N" using assms(1) by (simp_all add: fifo_ok_def word_less_nat_alt)
  obtain a where "enqueue_load f = Some a" using enqueue_full [OF assms(1)] assms(2) by (cases "enqueue_load f") auto
  then have "enqueue_load f = Some (write_pointer f, next_pointer f (write_pointer f))"
    by (auto simp: enqueue_load_def Let_def split: if_splits)
  then have "enqueue (Suc n) f v = Ok (True, f')"
    using w by (simp add: enqueue_claim_def enqueue_store_def f'_def)
  moreover have "fifo_ok f'"
    using assms(1) next_pointer_less [of "write_pointer f" f] by (simp add: fifo_ok_def f'_def)
  moreover have "contents f' = contents f @ [v]"
  proof (rule nth_equalityI)
    have len: "fifo_length f' = fifo_length f + 1" unfolding f'_def by (rule fifo_length_write [OF assms(1,2)])
    then show "length (contents f') = length (contents f @ [v])" by simp
    fix i
    assume "i < length (contents f')"
    then have i: "i < fifo_length f + 1" using len by simp
    have slot: "(?r + i) mod ?N = ?w \<longleftrightarrow> i = fifo_length f"
    proof (cases "i = fifo_length f")
      case False
      then have "i < fifo_length f" "?r < ?N" "?w < ?N" using i assms(1) by (auto simp: fifo_ok_def word_less_nat_alt)
      then show ?thesis using False assms(1)
        by (cases "?r + i < ?N") (auto simp: fifo_length_def le_mod_geq Let_def split: if_splits)
    qed (simp add: slot_of_write [OF assms(1)])
    have "contents f' ! i = (buf f)[?w := v] ! ((?r + i) mod ?N)"
      using i len by (simp add: contents_def f'_def del: upt_Suc)
    also have "\<dots> = (contents f @ [v]) ! i"
      using i w slot by (auto simp: contents_def nth_append nth_list_update)
    finally show "contents f' ! i = (contents f @ [v]) ! i" .
  qed
  ultimately show ?thesis by simp
qed

lemma dequeue_alone:
  assumes "fifo_ok f" and "fifo_length f > 0"
  defines "f' \<equiv> f\<lparr>read_pointer := next_pointer f (read_pointer f)\<rparr>"
  shows "dequeue (Suc n) f = Ok (Some (hd (contents f)), f') \<and> fifo_ok f' \<and> contents f' = tl (contents f)"
proof -
  let ?N = "unat (fifo_size f)" and ?r = "unat (read_pointer f)"
  have r: "?r < length (buf f)" "length (buf f) = ?N" using assms(1) by (simp_all add: fifo_ok_def word_less_nat_alt)
  obtain a where "dequeue_load f = Some a" using dequeue_empty [OF assms(1)] assms(2) by (cases "dequeue_load f") auto
  then have "dequeue_load f = Some (read_pointer f, next_pointer f (read_pointer f))"
    by (auto simp: dequeue_load_def Let_def split: if_splits)
  moreover have "hd (contents f) = buf f ! ?r" using assms(2) r by (simp add: contents_def hd_map)
  ultimately have "dequeue (Suc n) f = Ok (Some (hd (contents f)), f')"
    using r by (simp add: dequeue_claim_def dequeue_take_def f'_def)
  moreover have "fifo_ok f'"
    using assms(1) next_pointer_less [of "read_pointer f" f] by (simp add: fifo_ok_def f'_def)
  moreover have "contents f' = tl (contents f)"
  proof (rule nth_equalityI)
    have len: "fifo_length f' = fifo_length f - 1" unfolding f'_def by (rule fifo_length_read [OF assms(1,2)])
    then show "length (contents f') = length (tl (contents f))" by simp
    fix i
    assume "i < length (contents f')"
    then have i: "i + 1 < fifo_length f" using len by simp
    have "(unat (next_pointer f (read_pointer f)) + i) mod ?N = (?r + (i + 1)) mod ?N"
      using unat_next_pointer [of "read_pointer f" f] assms(1)
      by (auto simp: fifo_ok_def) (metis add.assoc add_Suc_right add_Suc_shift mod_add_self1 plus_1_eq_Suc)
    moreover have "i < fifo_length f - 1" using i by simp
    ultimately show "contents f' ! i = tl (contents f) ! i"
      using i len by (simp add: contents_def nth_tl f'_def)
  qed
  ultimately show ?thesis by simp
qed

section \<open>The contract\<close>

text \<open>Clients that put a list of values in, and take a number of values out.\<close>

fun enq_all :: "('q \<Rightarrow> 'a \<Rightarrow> ('e, bool \<times> 'q) outcome) \<Rightarrow> 'q \<Rightarrow> 'a list \<Rightarrow> ('e, 'q) outcome" where
  "enq_all enq q [] = Ok q"
| "enq_all enq q (v # vs) = obind (enq q v) (\<lambda>(_, q'). enq_all enq q' vs)"

fun deq_all :: "('q \<Rightarrow> ('e, 'a option \<times> 'q) outcome) \<Rightarrow> nat \<Rightarrow> 'q \<Rightarrow> ('e, 'a option list) outcome" where
  "deq_all deq 0 q = Ok []"
| "deq_all deq (Suc n) q = obind (deq q) (\<lambda>(x, q'). obind (deq_all deq n q') (\<lambda>xs. Ok (x # xs)))"

text \<open>
  A bounded queue: it accepts a value exactly when there is room, and gives values back
  oldest first.
\<close>

locale bounded_queue =
  fixes ok :: "'q \<Rightarrow> bool"
    and items :: "'q \<Rightarrow> 'a list"
    and capacity :: "'q \<Rightarrow> nat"
    and enq :: "'q \<Rightarrow> 'a \<Rightarrow> ('e, bool \<times> 'q) outcome"
    and deq :: "'q \<Rightarrow> ('e, 'a option \<times> 'q) outcome"
  assumes enq_room: "ok q \<Longrightarrow> length (items q) < capacity q \<Longrightarrow>
      \<exists>q'. enq q v = Ok (True, q') \<and> ok q' \<and> items q' = items q @ [v] \<and> capacity q' = capacity q"
    and enq_full: "ok q \<Longrightarrow> length (items q) = capacity q \<Longrightarrow> enq q v = Ok (False, q)"
    and deq_some: "ok q \<Longrightarrow> items q = v # vs \<Longrightarrow>
      \<exists>q'. deq q = Ok (Some v, q') \<and> ok q' \<and> items q' = vs \<and> capacity q' = capacity q"
    and deq_none: "ok q \<Longrightarrow> items q = [] \<Longrightarrow> deq q = Ok (None, q)"
begin

lemma enq_all_room:
  "ok q \<Longrightarrow> length (items q) + length vs \<le> capacity q \<Longrightarrow>
    \<exists>q'. enq_all enq q vs = Ok q' \<and> ok q' \<and> items q' = items q @ vs \<and> capacity q' = capacity q"
proof (induction vs arbitrary: q)
  case (Cons v vs)
  then obtain q1 where q1: "enq q v = Ok (True, q1)" "ok q1" "items q1 = items q @ [v]" "capacity q1 = capacity q"
    using enq_room [of q v] by auto
  then show ?case using Cons.IH [of q1] Cons.prems by auto
qed simp

lemma deq_all_items: "ok q \<Longrightarrow> deq_all deq (length (items q)) q = Ok (map Some (items q))"
proof (induction "items q" arbitrary: q)
  case (Cons v vs)
  obtain q1 where q1: "deq q = Ok (Some v, q1)" "ok q1" "items q1 = vs"
    using deq_some [OF Cons.prems Cons.hyps(2) [symmetric]] by auto
  have "deq_all deq (length vs) q1 = Ok (map Some vs)" using Cons.hyps(1) [of q1] q1 by simp
  then show ?case using q1 by (simp add: Cons.hyps(2) [symmetric])
qed auto

lemma in_order:
  assumes "ok q" and "items q = []" and "length vs \<le> capacity q"
  shows "obind (enq_all enq q vs) (deq_all deq (length vs)) = Ok (map Some vs)"
proof -
  obtain q' where "enq_all enq q vs = Ok q'" "ok q'" "items q' = vs" using enq_all_room [OF assms(1)] assms(2,3) by auto
  then show ?thesis using deq_all_items [of q'] by simp
qed

end

interpretation fifo: bounded_queue fifo_ok contents "\<lambda>f. unat (fifo_size f) - 1" "enqueue (Suc n)" "dequeue (Suc n)" for n
proof
  fix f :: "'a Fifo" and v
  assume ok: "fifo_ok f" and "length (contents f) < unat (fifo_size f) - 1"
  then have "fifo_length f + 1 < unat (fifo_size f)" by simp
  then show "\<exists>f'. enqueue (Suc n) f v = Ok (True, f') \<and> fifo_ok f' \<and> contents f' = contents f @ [v] \<and>
    unat (fifo_size f') - 1 = unat (fifo_size f) - 1"
    using enqueue_alone [OF ok, where v = v and n = n] by auto
next
  fix f :: "'a Fifo" and v
  assume ok: "fifo_ok f" and "length (contents f) = unat (fifo_size f) - 1"
  then have "fifo_length f + 1 = unat (fifo_size f)" using fifo_length_less [OF ok] by simp
  then show "enqueue (Suc n) f v = Ok (False, f)" using enqueue_full [OF ok] by simp
next
  fix f :: "'a Fifo" and v vs
  assume ok: "fifo_ok f" and c: "contents f = v # vs"
  then have "fifo_length f > 0" using length_contents [of f] by (metis length_greater_0_conv list.discI)
  then show "\<exists>f'. dequeue (Suc n) f = Ok (Some v, f') \<and> fifo_ok f' \<and> contents f' = vs \<and>
    unat (fifo_size f') - 1 = unat (fifo_size f) - 1"
    using dequeue_alone [OF ok, of n] c by auto
next
  fix f :: "'a Fifo"
  assume ok: "fifo_ok f" and "contents f = []"
  then have "fifo_length f = 0" using length_contents [of f] by simp
  then show "dequeue (Suc n) f = Ok (None, f)" using dequeue_empty [OF ok] by simp
qed

section \<open>A producer and a consumer at the same time\<close>

datatype 'a producer = Produce_idle | Produce_loaded 'a usize usize | Produce_claimed 'a usize

datatype consumer = Consume_idle | Consume_loaded usize usize | Consume_claimed usize

record 'a fifo_state =
  shared :: "'a Fifo"
  producer :: "'a producer"
  consumer :: consumer
  sent :: "'a list"
  received :: "'a list"

inductive fifo_step :: "'a fifo_state \<Rightarrow> 'a fifo_state \<Rightarrow> bool" where
  produce_load: "producer s = Produce_idle \<Longrightarrow> enqueue_load (shared s) = Some (w, next_w) \<Longrightarrow>
    fifo_step s (s\<lparr>producer := Produce_loaded v w next_w\<rparr>)"
| produce_claim: "producer s = Produce_loaded v w next_w \<Longrightarrow> enqueue_claim (shared s) w next_w = Some f \<Longrightarrow>
    fifo_step s (s\<lparr>shared := f, producer := Produce_claimed v w, sent := sent s @ [v]\<rparr>)"
| produce_retry: "producer s = Produce_loaded v w next_w \<Longrightarrow> enqueue_claim (shared s) w next_w = None \<Longrightarrow>
    fifo_step s (s\<lparr>producer := Produce_idle\<rparr>)"
| produce_store: "producer s = Produce_claimed v w \<Longrightarrow> enqueue_store (shared s) w v = Ok f \<Longrightarrow>
    fifo_step s (s\<lparr>shared := f, producer := Produce_idle\<rparr>)"
| consume_load: "consumer s = Consume_idle \<Longrightarrow> dequeue_load (shared s) = Some (r, next_r) \<Longrightarrow>
    fifo_step s (s\<lparr>consumer := Consume_loaded r next_r\<rparr>)"
| consume_claim: "consumer s = Consume_loaded r next_r \<Longrightarrow> dequeue_claim (shared s) r next_r = Some f \<Longrightarrow>
    fifo_step s (s\<lparr>shared := f, consumer := Consume_claimed r\<rparr>)"
| consume_retry: "consumer s = Consume_loaded r next_r \<Longrightarrow> dequeue_claim (shared s) r next_r = None \<Longrightarrow>
    fifo_step s (s\<lparr>consumer := Consume_idle\<rparr>)"
| consume_take: "consumer s = Consume_claimed r \<Longrightarrow> dequeue_take (shared s) r = Ok v \<Longrightarrow>
    fifo_step s (s\<lparr>consumer := Consume_idle, received := received s @ [v]\<rparr>)"

definition fifo_init :: "usize \<Rightarrow> 'a \<Rightarrow> 'a fifo_state \<Rightarrow> bool" where
  "fifo_init F_SIZE d s \<longleftrightarrow>
     s = \<lparr>shared = Fifo_new F_SIZE d, producer = Produce_idle, consumer = Consume_idle, sent = [], received = []\<rparr>"

text \<open>
  A run with one slot claimed and not yet stored: the consumer finds the queue non-empty
  and takes the default value.
\<close>

definition fifo_run :: "nat \<Rightarrow> nat fifo_state" where
  "fifo_run i =
     \<lparr>shared = \<lparr>buf = [0, 0, 0, 0], read_pointer = (if i < 4 then 0 else 1), write_pointer = (if i < 2 then 0 else 1),
        fifo_size = 4\<rparr>,
      producer = (if i = 0 then Produce_idle else if i = 1 then Produce_loaded 7 0 1 else Produce_claimed 7 0),
      consumer = (if i = 3 then Consume_loaded 0 1 else if i = 4 then Consume_claimed 0 else Consume_idle),
      sent = (if i < 2 then [] else [7]), received = (if i < 5 then [] else [0])\<rparr>"

lemma next_pointer_sample: "fifo_size f = 4 \<Longrightarrow> next_pointer f 0 = 1"
  by (simp add: next_pointer_def word_le_nat_alt)

lemma fifo_run_steps:
  "fifo_step (fifo_run 0) (fifo_run 1)" "fifo_step (fifo_run 1) (fifo_run 2)" "fifo_step (fifo_run 2) (fifo_run 3)"
  "fifo_step (fifo_run 3) (fifo_run 4)" "fifo_step (fifo_run 4) (fifo_run 5)"
  using produce_load [of "fifo_run 0" 0 1 7] produce_claim [of "fifo_run 1" 7 0 1 "shared (fifo_run 2)"]
    consume_load [of "fifo_run 2" 0 1] consume_claim [of "fifo_run 3" 0 1 "shared (fifo_run 4)"]
    consume_take [of "fifo_run 4" 0 0]
  by (simp_all add: fifo_run_def enqueue_load_def enqueue_claim_def dequeue_load_def dequeue_claim_def
      dequeue_take_def next_pointer_sample)

section \<open>Properties\<close>

text \<open>Remark. Used by one thread at a time, a new queue of \<open>F_SIZE\<close> slots takes up to \<open>F_SIZE - 1\<close>
  values and returns them in order, without an index outside the array.\<close>

theorem Fifo_in_order:
  assumes "length vs < unat F_SIZE"
  shows "obind (enq_all (enqueue (Suc n)) (Fifo_new F_SIZE d) vs) (deq_all (dequeue (Suc n)) (length vs)) =
    Ok (map Some vs)"
proof (rule fifo.in_order)
  have "0 < F_SIZE" using assms by (simp add: word_less_nat_alt)
  then show "fifo_ok (Fifo_new F_SIZE d)" by (simp add: Fifo_new_ok)
  show "contents (Fifo_new F_SIZE d) = []" using \<open>0 < F_SIZE\<close> by (simp add: Fifo_new_ok)
  show "length vs \<le> unat (fifo_size (Fifo_new F_SIZE d)) - 1" using assms by (simp add: Fifo_new_def)
qed

theorem Fifo_in_order_witness:
  "obind (enq_all (enqueue 1) (Fifo_new 4 0) [5, 6, 7 :: nat]) (deq_all (dequeue 1) 3) = Ok [Some 5, Some 6, Some 7]"
  using Fifo_in_order [of "[5, 6, 7 :: nat]" 4 0 0]
  by (simp add: numeral_3_eq_3 del: enqueue.simps dequeue.simps enq_all.simps deq_all.simps)

text \<open>Remark. With a producer and a consumer at the same time the queue can return a value
  that was never sent: \<open>enqueue\<close> advances the write pointer before it stores the value, and
  \<open>dequeue\<close> reads the slot in between.\<close>

theorem Fifo_returns_unsent_value:
  "\<exists>s. reachable (fifo_init 4 (0 :: nat)) fifo_step s \<and> sent s = [7] \<and> received s = [0]"
proof -
  have "replicate 4 (0 :: nat) = [0, 0, 0, 0]" by (simp add: numeral_eq_Suc)
  then have "reachable (fifo_init 4 0) fifo_step (fifo_run 0)"
    by (intro reach_init) (simp add: fifo_init_def fifo_run_def Fifo_new_def)
  then have "reachable (fifo_init 4 0) fifo_step (fifo_run 5)" using fifo_run_steps by (meson reach_step)
  then show ?thesis by (rule exI [of _ "fifo_run 5", OF conjI]) (simp add: fifo_run_def)
qed

end
