(* ===== verification/Guid.thy ===== *)
theory Guid
  imports Prelude
begin

text \<open>
  Globally unique identifiers, \<open>kernel/collections/guid.rs\<close>: the constructors and the text form.
  Both targets are little-endian, so \<open>from_le\<close> is the identity on a number read from memory
  and \<open>from_be\<close> swaps its bytes.
\<close>

record Guid =
  d1 :: u32
  d2 :: u16
  d3 :: u16
  d4 :: "u8 list"

section \<open>Constructors\<close>

text \<open>The loop of \<open>new\<close> stores the low byte at the highest index and goes down to index 2.\<close>

fun Guid_new_loop :: "nat \<Rightarrow> u64 \<Rightarrow> u8 list \<Rightarrow> u8 list" where
  "Guid_new_loop i d4_low v =
     (if 1 < i then Guid_new_loop (i - 1) (drop_bit 8 d4_low) (v[i := ucast (and d4_low 0xff)]) else v)"

declare Guid_new_loop.simps [simp del]

definition Guid_new :: "u32 \<Rightarrow> u16 \<Rightarrow> u16 \<Rightarrow> u16 \<Rightarrow> u64 \<Rightarrow> Guid" where
  "Guid_new a b c d4_high d4_low =
     (let v = replicate 8 0;
          v = v[0 := ucast (drop_bit 8 d4_high)];
          v = v[1 := ucast (and d4_high 0xff)]
      in \<lparr>d1 = a, d2 = b, d3 = c, d4 = Guid_new_loop 7 d4_low v\<rparr>)"

text \<open>A number as the little-endian machine reads it from its bytes.\<close>

definition read_number :: "u8 list \<Rightarrow> 'a::len word" where
  "read_number bs = word_of_nat (foldr (\<lambda>b n. unat b + 256 * n) bs 0)"

definition Guid_new_ne :: "u8 list \<Rightarrow> Guid" where
  "Guid_new_ne d = \<lparr>d1 = read_number (take 4 d), d2 = read_number (take 2 (drop 4 d)),
     d3 = read_number (take 2 (drop 6 d)), d4 = take 8 (drop 8 d)\<rparr>"

definition Guid_new_le :: "u8 list \<Rightarrow> Guid" where
  "Guid_new_le d = \<lparr>d1 = read_number (take 4 d), d2 = read_number (take 2 (drop 4 d)),
     d3 = read_number (take 2 (drop 6 d)), d4 = take 8 (drop 8 d)\<rparr>"

definition Guid_new_be :: "u8 list \<Rightarrow> Guid" where
  "Guid_new_be d = \<lparr>d1 = read_number (rev (take 4 d)), d2 = read_number (rev (take 2 (drop 4 d))),
     d3 = read_number (rev (take 2 (drop 6 d))), d4 = take 8 (drop 8 d)\<rparr>"

section \<open>Text form\<close>

definition hex_digit :: "nat \<Rightarrow> char" where
  "hex_digit n = (if n < 10 then char_of (48 + n) else char_of (55 + n))"

text \<open>The format \<open>{:0wX}\<close> of a number that fits in \<open>w\<close> digits.\<close>

fun hex_format :: "nat \<Rightarrow> nat \<Rightarrow> string" where
  "hex_format 0 n = []"
| "hex_format (Suc w) n = hex_format w (n div 16) @ [hex_digit (n mod 16)]"

definition Guid_fmt :: "Guid \<Rightarrow> string" where
  "Guid_fmt g =
     hex_format 8 (unat (d1 g)) @ ''-'' @ hex_format 4 (unat (d2 g)) @ ''-'' @ hex_format 4 (unat (d3 g)) @ ''-'' @
     hex_format 2 (unat (d4 g ! 0)) @ hex_format 2 (unat (d4 g ! 1)) @ ''-'' @
     hex_format 2 (unat (d4 g ! 2)) @ hex_format 2 (unat (d4 g ! 3)) @ hex_format 2 (unat (d4 g ! 4)) @
     hex_format 2 (unat (d4 g ! 5)) @ hex_format 2 (unat (d4 g ! 6)) @ hex_format 2 (unat (d4 g ! 7))"

section \<open>Lemmas\<close>

lemma hex_format_split: "hex_format (m + n) x = hex_format m (x div 16 ^ n) @ hex_format n x"
  by (induction n arbitrary: x) (simp_all add: div_mult2_eq)

lemma hex_format_low: "hex_format n (x mod 16 ^ n) = hex_format n x"
proof (induction n arbitrary: x)
  case (Suc n)
  have "x mod 16 ^ Suc n div 16 = x div 16 mod 16 ^ n" by (simp add: mod_mult2_eq)
  moreover have "x mod 16 ^ Suc n mod 16 = x mod 16" by (simp add: mod_mult2_eq)
  ultimately show ?case using Suc [of "x div 16"] by simp
qed simp

text \<open>The byte of a number at position \<open>k\<close> prints as the two digits there.\<close>

lemma hex_byte:
  "hex_format 2 (unat (ucast (and (drop_bit k (x :: 'a::len word)) 0xff) :: u8)) = hex_format 2 (unat x div 2 ^ k)"
proof -
  have "and (drop_bit k x) 0xff = take_bit 8 (drop_bit k x)"
    by (simp add: take_bit_eq_mask mask_eq_exp_minus_1)
  then have "unat (ucast (and (drop_bit k x) 0xff) :: u8) = take_bit 8 (drop_bit k (unat x))"
    by (simp add: unsigned_ucast_eq unsigned_take_bit_eq unat_drop_bit_eq)
  also have "\<dots> = unat x div 2 ^ k mod 16 ^ 2" by (simp add: take_bit_eq_mod drop_bit_eq_div)
  finally show ?thesis using hex_format_low [of 2] by simp
qed

lemma hex_ucast: "hex_format 2 (unat (ucast (x :: 'a::len word) :: u8)) = hex_format 2 (unat x)"
  using hex_format_low [of 2 "unat x"] by (simp add: unsigned_ucast_eq take_bit_eq_mod)

lemma Guid_new_d4:
  "d4 (Guid_new a b c h l) = [ucast (drop_bit 8 h), ucast (and h 0xff),
     ucast (and (drop_bit 40 l) 0xff), ucast (and (drop_bit 32 l) 0xff), ucast (and (drop_bit 24 l) 0xff),
     ucast (and (drop_bit 16 l) 0xff), ucast (and (drop_bit 8 l) 0xff), ucast (and (drop_bit 0 l) 0xff)]"
  by (simp add: Guid_new_def Guid_new_loop.simps numeral_eq_Suc)

section \<open>Properties\<close>

text \<open>Remark. A GUID made from its five groups prints as these groups in upper-case
  hexadecimal, of the last group the low 48 bits.\<close>

theorem Guid_new_prints_groups:
  "Guid_fmt (Guid_new a b c d4_high d4_low) =
     hex_format 8 (unat a) @ ''-'' @ hex_format 4 (unat b) @ ''-'' @ hex_format 4 (unat c) @ ''-'' @
     hex_format 4 (unat d4_high) @ ''-'' @ hex_format 12 (unat d4_low mod 2 ^ 48)"
proof -
  let ?x = "unat d4_low"
  have low: "d4 (Guid_new a b c d4_high d4_low) ! i = ucast (and (drop_bit (8 * (7 - i)) d4_low) 0xff)"
    if "i \<in> {2, 3, 4, 5, 6, 7}" for i using that unfolding Guid_new_d4 by auto
  have six: "hex_format 12 ?x = hex_format 2 (?x div 2 ^ 40) @ hex_format 2 (?x div 2 ^ 32) @
    hex_format 2 (?x div 2 ^ 24) @ hex_format 2 (?x div 2 ^ 16) @ hex_format 2 (?x div 2 ^ 8) @ hex_format 2 (?x div 2 ^ 0)"
    using hex_format_split [of 2 10 ?x] hex_format_split [of 2 8 ?x] hex_format_split [of 2 6 ?x]
      hex_format_split [of 2 4 ?x] hex_format_split [of 2 2 ?x]
    by simp
  have "hex_format 2 (unat (drop_bit 8 d4_high)) = hex_format 2 (unat d4_high div 256)"
    by (simp only: unat_drop_bit_eq) (simp add: drop_bit_eq_div)
  then have high: "hex_format 2 (unat (ucast (drop_bit 8 d4_high) :: u8)) @
      hex_format 2 (unat (ucast (and d4_high 0xff) :: u8)) @ r = hex_format 4 (unat d4_high) @ r" for r
    using hex_format_split [of 2 2 "unat d4_high"] hex_byte [of 0 d4_high] by (simp only: hex_ucast) simp
  have "hex_format 12 (?x mod 2 ^ 48) = hex_format 12 ?x" using hex_format_low [of 12 ?x] by simp
  moreover have "d1 (Guid_new a b c d4_high d4_low) = a" "d2 (Guid_new a b c d4_high d4_low) = b"
    "d3 (Guid_new a b c d4_high d4_low) = c" by (simp_all add: Guid_new_def Let_def)
  ultimately show ?thesis using high hex_byte [of 0 d4_low]
    unfolding Guid_fmt_def six by (simp add: low hex_byte Guid_new_d4)
qed

end
