(* ===== verification/Spec2Isabelle.thy ===== *)
theory Spec2Isabelle
  imports Page_Area Ptr_Linked_List Rw_Lock Timer_Manager Context_Data Socket_Delivery Ring_Buffer Fifo Guid
begin

text \<open>
  A verification development of Methylenix, a kernel in Rust. File names are below
  \<open>src/src/kernel\<close> unless they begin with \<open>arch\<close>, which is \<open>src/src/arch\<close>.

  \<^bold>\<open>The program.\<close> The physical memory manager hands out blocks of memory; the page manager builds page tables with pages
  it takes from there; slab allocators and object pools cut memory into objects. Collections (an intrusive
  list, a byte ring, a lock-free queue) and spin locks serve all other parts. Threads belong to processes and wait in run
  queues, one per processor; the task manager creates threads and wakes them up, wait queues hold those that sleep. Interrupt handlers only
  add work to a queue that a thread executes, and the timer tick does this for expired timers. The network
  stack is the largest client of all of these: drivers put frames into memory and add work; the worker
  takes a frame through Ethernet, IPv4, UDP or TCP to a socket, writes its data into a ring and wakes the threads that
  wait for it.

  \<^bold>\<open>How Rust is modelled.\<close> \<open>Prelude\<close>: an operation ends with a value, an \<open>Err\<close>, a panic, or not at all (\<open>Ok\<close>, \<open>Err\<close>, \<open>Panic\<close>, \<open>Diverge\<close>);
  an error carries the state when the operation has changed it. \<open>usize\<close> is a word of 64 bits, and arithmetic wraps
  around as it does in a release build. Structures are records and enumerations are datatypes with the names of the source. Pointers
  are addresses into explicit stores. Taking a lock that is held ends with \<open>Diverge\<close>, since nobody releases it
  on the same processor. A state that several components share is an extensible record, one extension per component:
  \<open>task_store\<close>, \<open>scheduler\<close>, \<open>task_manager\<close>, \<open>worker\<close>, \<open>timers\<close>, \<open>ethernet\<close>, \<open>network\<close>; an operation of one component works on every extension.
  \<open>Outcome_Logic\<close> has postconditions of outcomes, which the simplifier computes.

  \<^bold>\<open>Memory.\<close> \<open>Data_Type\<close> (\<open>memory_manager/data_type.rs\<close>), \<open>Memory_Layout\<close> (\<open>arch/x86_64/context/memory_layout.rs\<close>), \<open>Physical_Memory\<close> with
  every operation of \<open>memory_manager/physical_memory_manager.rs\<close>. \<open>Memory_Ranges\<close> is the abstract view, a set of free
  bytes; \<open>Memory_Lists\<close>, \<open>Memory_Invariant\<close>, \<open>Memory_Used\<close>, \<open>Memory_Alloc\<close> and \<open>Memory_Free\<close> show that the linked entries implement it:
  \<open>alloc\<close> returns a free block whenever one exists and takes it from the set, \<open>free\<close> adds the block, and the invariant is kept. \<open>Memory_Refill\<close> follows the pool of
  entries through an allocation, and \<open>Memory_Manager\<close> has the callers in \<open>memory_manager.rs\<close>: an allocation that finds the pool of entries empty refills it with one page, and
  once is enough. \<open>Chains\<close> has the doubly linked chains that three structures share. \<open>Pool_Allocator\<close> and \<open>Slab_Allocator\<close>
  (\<open>memory_manager/slab_allocator\<close>): a pool serves every object once, and growing once is enough.

  \<^bold>\<open>Paging.\<close> \<open>Paging_Entry\<close> (\<open>arch/x86_64/paging/pte.rs\<close>, \<open>pde.rs\<close>, \<open>pdpte.rs\<close>, \<open>pml4e.rs\<close>), \<open>Page_Manager\<close> (\<open>paging/mod.rs\<close>). \<open>Page_Tables\<close> is the walk of the
  processor; \<open>Page_Frames\<close> the interface to the physical memory manager, a locale that the manager interprets; \<open>Page_Mapping\<close>, \<open>Page_Unmap\<close> and
  \<open>Page_Area\<close> show that mapping changes the translation of one page, and that unmapping takes it away and gives back exactly the tables that have
  become empty.

  \<^bold>\<open>Collections and locks.\<close> \<open>Ptr_Linked_List\<close>, \<open>Ring_Buffer\<close>, \<open>Fifo\<close>, \<open>Guid\<close> (\<open>collections\<close>); \<open>Spin_Lock\<close> (\<open>sync/spin_lock.rs\<close>) and \<open>Rw_Lock\<close> (\<open>sync/rwlock.rs\<close>).
  The locks and the lock-free queue are step relations at the granularity of one atomic access, with any number of processors; mutual exclusion,
  saved interrupt flags and the order of the queue are invariants of the reachable states, through the locale \<open>invariant_system\<close>.

  \<^bold>\<open>Tasks and time.\<close> \<open>Thread_Entry\<close>, \<open>Process_Entry\<close>, \<open>Run_Queue\<close>, \<open>Task_Manager\<close>, \<open>Work_Queue\<close> (\<open>task_manager\<close> and \<open>task_manager.rs\<close>), \<open>Context_Data\<close> (\<open>arch/x86_64/context\<close>), \<open>Timer_Manager\<close>
  (\<open>timer_manager.rs\<close>). A context switch is a value, the pair of threads it is between. \<open>Scheduling\<close> shows what a schedule does to a
  well-formed run queue, \<open>Task_Frame\<close> what waking a thread leaves alone; work is executed once and in order, and a tick expires exactly the
  due timers. A woken thread goes to the first processor with fewer threads, which is interrupted if the thread is to preempt.

  \<^bold>\<open>Network.\<close> \<open>Net_Bytes\<close> (fields in network order and the Internet checksum), \<open>Ipv4_Udp\<close> (\<open>network_manager/ipv4.rs\<close>, \<open>udp.rs\<close>), \<open>Ethernet\<close> (\<open>ethernet_device.rs\<close>),
  \<open>Tcp_Header\<close> and \<open>Tcp_Session\<close> (\<open>tcp.rs\<close>), \<open>Socket_Manager\<close> (\<open>socket_manager.rs\<close>), \<open>Network_Input\<close> (the dispatch of received frames, in all of these files). The drivers and the
  allocator are the parameters \<open>send\<close>, \<open>alloc_memory\<close> and \<open>alloc_socket\<close>, which change the state \<open>outside\<close>; what a theorem needs of them is a
  hypothesis of it, such as \<open>records\<close>: the driver adds the bytes it is given to the wire. \<open>Tcp_Protocol\<close>: what is on the wire is the data in order, what arrives in order is delivered, sessions stay
  well-formed, and how they close. \<open>Network_Input\<close>: the memory of a frame has one owner in the end. \<open>Socket_Delivery\<close>: a datagram is written into the ring of its socket, and is read as it was sent when it fits into an empty ring without reaching its end; a
  connection is opened by three segments, and what happens to sockets that are closed or hidden by others.

  \<^bold>\<open>Locales.\<close> \<open>object_pool\<close>, \<open>frame_allocator\<close>, \<open>page_frames\<close>, \<open>paging_entry\<close>, \<open>table_entry\<close>, \<open>linked_queue\<close>, \<open>bounded_queue\<close> and \<open>invariant_system\<close> are the
  interfaces; each is interpreted on the definitions of the component that provides it.

  \<^bold>\<open>Bounds.\<close> Loops whose end is not structural have fuel: the searches of the memory manager by the number of entries, \<open>fill_buffers\<close> by the
  number of buffers, \<open>allocate_physical_memory\<close> by the number of attempts (two suffice), \<open>close_socket\<close> by the number of sockets closed. The theorems about them show that this much is enough. \<open>send_loop\<close> and \<open>drain_received\<close> have
  termination proofs. A thread that sleeps ends \<open>read_socket\<close>, \<open>send_socket\<close> and \<open>activate_waiting_socket\<close> with the switch; the call is repeated when it runs again.

  \<^bold>\<open>Not modelled.\<close> Assembly, boot code and the order of start-up; the registers of devices and interrupt controllers, which the drivers of
  \<open>drivers\<close> and \<open>arch\<close> do little else than access; AArch64, whose page manager has the same interface as the modelled one; the readers of firmware
  tables and of on-disk formats (ACPI with its interpreter, device tree, EFI, multiboot, GPT, FAT32, XFS, ELF), which work through raw pointers on data
  that no part of the kernel writes; the virtual memory manager above the page manager; DHCP, the socket system calls and the
  system call table, which forward to the parts above; terminals and graphics. Segments of Rust's standard library that the code uses
  (vectors, lists, formatting) are HOL's lists and strings.
\<close>

end
